(* ===== verification/Prelude.thy ===== *)
theory Prelude
  imports Main "HOL-Library.Word"
begin

text \<open>
  Shared vocabulary of the development.

  \<^item> the machine types of the C++ sources: \<open>byte\<close> (\<^verbatim>\<open>uint8_t\<close>, \<^verbatim>\<open>unsigned char\<close>), \<open>u16\<close>,
    \<open>u32\<close>, \<open>u64\<close>. Object sizes and addresses (\<^verbatim>\<open>std::size_t\<close>, pointers) are natural
    numbers; wherever the code adds or subtracts caller-supplied values in \<^verbatim>\<open>size_t\<close> the
    wrap-around is written out with \<open>sz_add\<close> and \<open>sz_sub\<close>;
  \<^item> the exceptions the library throws, as values of \<open>exn\<close>, and \<open>'a result\<close> for a call
    that may throw;
  \<^item> byte encodings: \<open>le_bytes\<close> (the x86-64 in-memory order) and \<open>be_bytes\<close> (what
    \<^verbatim>\<open>htons\<close>/\<^verbatim>\<open>htonl\<close> produce), with the locale \<open>codec\<close> that states the round-trip
    contract once for every fixed-width encoding;
  \<^item> lemmas on lists and words that several components use.
\<close>

unbundle bit_operations_syntax

type_synonym byte = "8 word"
type_synonym u16 = "16 word"
type_synonym u32 = "32 word"
type_synonym u64 = "64 word"

named_theorems sz_simps \<open>arithmetic of size_t\<close>
named_theorems bytes_simps \<open>lengths and round trips of byte encodings\<close>

subsection \<open>Exceptions\<close>

datatype exn =
    Out_of_range
  | Invalid_argument
  | Mempool_error nat
  | Cast_overflow
  | Com_is_null
  | Fdqueue_error
  | Process_exit
  | Bad_optional_access
  | Socket_info_error
  | Runtime_error
  | Clienthello_malformed
  | Undefined_behaviour

type_synonym 'a result = "exn + 'a"

abbreviation raise :: "exn \<Rightarrow> 'a result" where
  "raise e \<equiv> Inl e"

abbreviation ok :: "'a \<Rightarrow> 'a result" where
  "ok x \<equiv> Inr x"

subsection \<open>Arithmetic of \<^verbatim>\<open>size_t\<close>\<close>

definition npos :: nat where
  "npos = 2 ^ 64 - 1"

definition sz_add :: "nat \<Rightarrow> nat \<Rightarrow> nat" where
  "sz_add a b = (a + b) mod 2 ^ 64"

definition sz_sub :: "nat \<Rightarrow> nat \<Rightarrow> nat" where
  "sz_sub a b = nat ((int a - int b) mod 2 ^ 64)"

lemma sz_add_small [sz_simps]: "a + b < 2 ^ 64 \<Longrightarrow> sz_add a b = a + b"
  by (simp add: sz_add_def)

lemma sz_sub_small [sz_simps]: "b \<le> a \<Longrightarrow> a < 2 ^ 64 \<Longrightarrow> sz_sub a b = a - b"
  by (simp add: sz_sub_def flip: of_nat_diff)

lemma sz_add_less [simp]: "sz_add a b < 2 ^ 64"
  by (simp add: sz_add_def)

subsection \<open>Byte encodings\<close>

primrec le_bytes :: "nat \<Rightarrow> 'a::len word \<Rightarrow> byte list" where
  "le_bytes 0 w = []"
| "le_bytes (Suc n) w = ucast w # le_bytes n (drop_bit 8 w)"

primrec of_le :: "byte list \<Rightarrow> 'a::len word" where
  "of_le [] = 0"
| "of_le (b # bs) = ucast b OR push_bit 8 (of_le bs)"

definition be_bytes :: "nat \<Rightarrow> 'a::len word \<Rightarrow> byte list" where
  "be_bytes n w = rev (le_bytes n w)"

definition of_be :: "byte list \<Rightarrow> 'a::len word" where
  "of_be bs = of_le (rev bs)"

lemma length_le_bytes [simp, bytes_simps]: "length (le_bytes n w) = n"
  by (induction n arbitrary: w) auto

lemma length_be_bytes [simp, bytes_simps]: "length (be_bytes n w) = n"
  by (simp add: be_bytes_def)

lemma of_le_le_bytes: "of_le (le_bytes n w) = take_bit (8 * n) (w :: 'a::len word)"
proof (induction n arbitrary: w)
  case 0
  then show ?case by simp
next
  case (Suc n)
  have "ucast (ucast w :: byte) OR push_bit 8 (take_bit (8 * n) (drop_bit 8 w))
        = take_bit (8 * Suc n) w"
    by (rule bit_word_eqI) (auto simp: bit_simps)
  then show ?case by (simp add: Suc.IH)
qed

lemma of_le_le_bytes_full [bytes_simps]:
  "LENGTH('a::len) \<le> 8 * n \<Longrightarrow> of_le (le_bytes n (w :: 'a word)) = w"
  by (simp add: of_le_le_bytes take_bit_word_eq_self)

lemma of_be_be_bytes_full [bytes_simps]:
  "LENGTH('a::len) \<le> 8 * n \<Longrightarrow> of_be (be_bytes n (w :: 'a word)) = w"
  by (simp add: of_be_def be_bytes_def of_le_le_bytes_full)

text \<open>
  Every fixed-width encoding of the library meets one contract: it has a fixed width and
  decoding the first \<open>width\<close> bytes at its position gives the value back. The positional
  form is what the parsers use: the value may be preceded and followed by anything.
\<close>

locale codec =
  fixes enc :: "'v \<Rightarrow> byte list" and dec :: "byte list \<Rightarrow> 'v" and width :: nat
  assumes enc_length: "length (enc v) = width"
    and dec_enc: "dec (enc v) = v"
begin

lemma enc_inj: "enc v = enc w \<Longrightarrow> v = w"
  by (metis dec_enc)

lemma dec_at: "dec (take width (drop (length p) (p @ enc v @ r))) = v"
  by (simp add: enc_length dec_enc)

lemma dec_list:
  "i < length vs \<Longrightarrow> dec (take width (drop (i * width) (concat (map enc vs)))) = vs ! i"
proof (induction vs arbitrary: i)
  case Nil
  then show ?case by simp
next
  case (Cons v vs)
  show ?case
  proof (cases i)
    case 0
    then show ?thesis by (simp add: enc_length dec_enc)
  next
    case (Suc j)
    with Cons show ?thesis by (simp add: enc_length)
  qed
qed

end

interpretation le16: codec "le_bytes 2 :: u16 \<Rightarrow> byte list" of_le 2
  by unfold_locales (simp_all add: bytes_simps)

interpretation le32: codec "le_bytes 4 :: u32 \<Rightarrow> byte list" of_le 4
  by unfold_locales (simp_all add: bytes_simps)

interpretation le64: codec "le_bytes 8 :: u64 \<Rightarrow> byte list" of_le 8
  by unfold_locales (simp_all add: bytes_simps)

interpretation be16: codec "be_bytes 2 :: u16 \<Rightarrow> byte list" of_be 2
  by unfold_locales (simp_all add: bytes_simps)

interpretation be32: codec "be_bytes 4 :: u32 \<Rightarrow> byte list" of_be 4
  by unfold_locales (simp_all add: bytes_simps)

subsection \<open>Lists\<close>

lemma map_upt_shift: "map (\<lambda>i. f (a + i)) [0..<n] = map f [a..<a + n]"
  by (rule nth_equalityI) auto

lemma take_append_drop_update:
  "length ys \<le> length xs \<Longrightarrow> take (length ys) (ys @ drop (length ys) xs) = ys"
  by simp

lemma foldl_append_const: "foldl (\<lambda>acc x. acc @ f x) acc xs = acc @ concat (map f xs)"
  by (induction xs arbitrary: acc) auto

end
