(* ===== verification/Heap.thy ===== *)
theory Heap
  imports Prelude
begin

text \<open>
  The process heap the memory pool and the buffers work on: a flat byte memory, the list of
  live allocations, and the allocator.

  \<open>mallocf\<close> is the placement function of \<^verbatim>\<open>malloc\<close>/\<^verbatim>\<open>new[]\<close>: given the live allocations and a
  size it says where the next block goes. Nothing is assumed of it but \<open>malloc_ok\<close>: the
  block it returns is not null and overlaps no live block. Allocation never fails here (on
  the target platform \<^verbatim>\<open>new[]\<close> throws \<^verbatim>\<open>bad_alloc\<close> rather than returning).

  Undefined behaviour is recorded, not ignored: \<open>ub\<close> becomes true when \<^verbatim>\<open>memcpy\<close>,
  \<^verbatim>\<open>memmove\<close> or \<^verbatim>\<open>memset\<close> touches bytes outside every live allocation, when the regions of
  a \<^verbatim>\<open>memcpy\<close> overlap, and when a pointer that is not a live allocation is freed. A theorem
  that \<open>ub\<close> stays false is a memory-safety theorem.
\<close>

record heap =
  mem :: "nat \<Rightarrow> byte"
  blocks :: "(nat \<times> nat) list"
  mallocf :: "(nat \<times> nat) list \<Rightarrow> nat \<Rightarrow> nat"
  ub :: bool

definition malloc :: "heap \<Rightarrow> nat \<Rightarrow> nat \<times> heap" where
  "malloc h n = (let a = mallocf h (blocks h) n in (a, h\<lparr>blocks := (a, n) # blocks h\<rparr>))"

definition mfree :: "heap \<Rightarrow> nat \<Rightarrow> heap" where
  "mfree h p =
     (if p = 0 then h
      else h\<lparr>blocks := filter (\<lambda>(a, l). a \<noteq> p) (blocks h),
             ub := ub h \<or> p \<notin> set (map fst (blocks h))\<rparr>)"

definition accessible :: "heap \<Rightarrow> nat \<Rightarrow> nat \<Rightarrow> bool" where
  "accessible h p n \<longleftrightarrow> n = 0 \<or> list_ex (\<lambda>(a, l). a \<le> p \<and> p + n \<le> a + l) (blocks h)"

definition regions_disjoint :: "nat \<Rightarrow> nat \<Rightarrow> nat \<Rightarrow> nat \<Rightarrow> bool" where
  "regions_disjoint p n q m \<longleftrightarrow> n = 0 \<or> m = 0 \<or> p + n \<le> q \<or> q + m \<le> p"

definition copy_mem :: "(nat \<Rightarrow> byte) \<Rightarrow> nat \<Rightarrow> nat \<Rightarrow> nat \<Rightarrow> nat \<Rightarrow> byte" where
  "copy_mem m dst src n = (\<lambda>a. if dst \<le> a \<and> a < dst + n then m (src + (a - dst)) else m a)"

definition memcpy :: "heap \<Rightarrow> nat \<Rightarrow> nat \<Rightarrow> nat \<Rightarrow> heap" where
  "memcpy h dst src n =
     h\<lparr>mem := copy_mem (mem h) dst src n,
       ub := ub h \<or> \<not> (accessible h dst n \<and> accessible h src n \<and> regions_disjoint dst n src n)\<rparr>"

definition memmove :: "heap \<Rightarrow> nat \<Rightarrow> nat \<Rightarrow> nat \<Rightarrow> heap" where
  "memmove h dst src n =
     h\<lparr>mem := copy_mem (mem h) dst src n,
       ub := ub h \<or> \<not> (accessible h dst n \<and> accessible h src n)\<rparr>"

definition memset :: "heap \<Rightarrow> nat \<Rightarrow> byte \<Rightarrow> nat \<Rightarrow> heap" where
  "memset h dst v n =
     h\<lparr>mem := (\<lambda>a. if dst \<le> a \<and> a < dst + n then v else mem h a),
       ub := ub h \<or> \<not> accessible h dst n\<rparr>"

definition load :: "heap \<Rightarrow> nat \<Rightarrow> nat \<Rightarrow> byte list" where
  "load h p n = map (mem h) [p..<p + n]"

subsection \<open>Well-formed heaps\<close>

definition blocks_ok :: "(nat \<times> nat) list \<Rightarrow> bool" where
  "blocks_ok bs \<longleftrightarrow>
     distinct (map fst bs) \<and>
     list_all (\<lambda>(a, l). 0 < a) bs \<and>
     list_all (\<lambda>(a, l). list_all (\<lambda>(b, m). a \<noteq> b \<longrightarrow> a + l \<le> b \<or> b + m \<le> a) bs) bs"

definition malloc_ok :: "((nat \<times> nat) list \<Rightarrow> nat \<Rightarrow> nat) \<Rightarrow> bool" where
  "malloc_ok f \<longleftrightarrow> (\<forall>bs n. blocks_ok bs \<longrightarrow> blocks_ok ((f bs n, n) # bs))"

definition heap_wf :: "heap \<Rightarrow> bool" where
  "heap_wf h \<longleftrightarrow> malloc_ok (mallocf h) \<and> blocks_ok (blocks h)"

text \<open>A placement function that satisfies the law: behind every live block.\<close>

definition bump_malloc :: "(nat \<times> nat) list \<Rightarrow> nat \<Rightarrow> nat" where
  "bump_malloc bs n = foldr (\<lambda>(a, l) m. max m (a + l + 1)) bs 16"

definition empty_heap :: heap where
  "empty_heap = \<lparr>mem = (\<lambda>_. 0), blocks = [], mallocf = bump_malloc, ub = False\<rparr>"

lemma bump_malloc_above: "(a, l) \<in> set bs \<Longrightarrow> a + l < bump_malloc bs n"
  by (induction bs) (fastforce simp: bump_malloc_def less_max_iff_disj)+

lemma bump_malloc_pos: "0 < bump_malloc bs n"
  by (induction bs) (auto simp: bump_malloc_def less_max_iff_disj)

lemma malloc_ok_bump: "malloc_ok bump_malloc"
proof -
  have "blocks_ok ((bump_malloc bs n, n) # bs)" if "blocks_ok bs" for bs n
    using that bump_malloc_above [of _ _ bs n] bump_malloc_pos [of bs n]
    by (fastforce simp: blocks_ok_def list_all_iff)
  then show ?thesis by (simp add: malloc_ok_def)
qed

lemma heap_wf_empty [simp]: "heap_wf empty_heap"
  by (simp add: heap_wf_def empty_heap_def malloc_ok_bump blocks_ok_def)

subsection \<open>What every heap operation keeps\<close>

lemma heap_wf_malloc:
  assumes "heap_wf h" and "malloc h n = (p, h')"
  shows "heap_wf h'" and "0 < p" and "p \<notin> fst ` set (blocks h)"
    and "blocks h' = (p, n) # blocks h" and "mem h' = mem h" and "ub h' = ub h"
    and "mallocf h' = mallocf h"
proof -
  have p: "p = mallocf h (blocks h) n" and h': "h' = h\<lparr>blocks := (p, n) # blocks h\<rparr>"
    using assms(2) by (auto simp: malloc_def Let_def)
  have ok: "blocks_ok ((p, n) # blocks h)"
    using assms(1) p by (simp add: heap_wf_def malloc_ok_def)
  show "heap_wf h'" using assms(1) ok h' by (simp add: heap_wf_def)
  show "0 < p" and "p \<notin> fst ` set (blocks h)"
    using ok by (simp_all add: blocks_ok_def)
  show "blocks h' = (p, n) # blocks h" and "mem h' = mem h" and "ub h' = ub h"
    and "mallocf h' = mallocf h"
    using h' by simp_all
qed

lemma blocks_ok_disjoint:
  assumes "blocks_ok bs" and "(a, l) \<in> set bs" and "(b, m) \<in> set bs" and "a \<noteq> b"
  shows "regions_disjoint a l b m"
  using assms by (fastforce simp: blocks_ok_def list_all_iff regions_disjoint_def)

lemma blocks_ok_filter: "blocks_ok bs \<Longrightarrow> blocks_ok (filter P bs)"
  by (auto simp: blocks_ok_def list_all_iff distinct_map_filter)

lemma blocks_ok_unique:
  "blocks_ok bs \<Longrightarrow> (a, l) \<in> set bs \<Longrightarrow> (a, m) \<in> set bs \<Longrightarrow> l = m"
  by (auto simp: blocks_ok_def dest: eq_key_imp_eq_value)

lemma heap_wf_free [simp]: "heap_wf h \<Longrightarrow> heap_wf (mfree h p)"
  by (simp add: heap_wf_def mfree_def blocks_ok_filter)

lemma heap_wf_memops [simp]:
  "heap_wf (memcpy h d s n) = heap_wf h"
  "heap_wf (memmove h d s n) = heap_wf h"
  "heap_wf (memset h d v n) = heap_wf h"
  by (simp_all add: heap_wf_def memcpy_def memmove_def memset_def)

lemma blocks_memops [simp]:
  "blocks (memcpy h d s n) = blocks h"
  "blocks (memmove h d s n) = blocks h"
  "blocks (memset h d v n) = blocks h"
  by (simp_all add: memcpy_def memmove_def memset_def)

lemma accessible_memops [simp]:
  "accessible (memcpy h d s n) = accessible h"
  "accessible (memmove h d s n) = accessible h"
  "accessible (memset h d v n) = accessible h"
  by (auto simp: accessible_def fun_eq_iff)

lemma accessible_zero [simp]: "accessible h p 0"
  by (simp add: accessible_def)

lemma accessible_sub:
  "accessible h p n \<Longrightarrow> p \<le> q \<Longrightarrow> q + m \<le> p + n \<Longrightarrow> accessible h q m"
  by (fastforce simp: accessible_def list_ex_iff)

lemma accessible_block: "(p, n) \<in> set (blocks h) \<Longrightarrow> accessible h p n"
  by (auto simp: accessible_def list_ex_iff)

lemma accessible_malloc:
  "heap_wf h \<Longrightarrow> malloc h n = (q, h') \<Longrightarrow> accessible h p m \<Longrightarrow> accessible h' p m"
  using heap_wf_malloc(4) [of h n q h'] by (auto simp: accessible_def)

lemma regions_disjoint_sym: "regions_disjoint p n q m \<Longrightarrow> regions_disjoint q m p n"
  by (auto simp: regions_disjoint_def)

lemma regions_disjoint_sub:
  "regions_disjoint p n q m \<Longrightarrow> p \<le> p' \<Longrightarrow> p' + n' \<le> p + n \<Longrightarrow> q \<le> q' \<Longrightarrow> q' + m' \<le> q + m
   \<Longrightarrow> regions_disjoint p' n' q' m'"
  by (auto simp: regions_disjoint_def)

subsection \<open>Reading back\<close>

lemma length_load [simp]: "length (load h p n) = n"
  by (simp add: load_def)

lemma load_zero [simp]: "load h p 0 = []"
  by (simp add: load_def)

lemma load_nth [simp]: "i < n \<Longrightarrow> load h p n ! i = mem h (p + i)"
  by (simp add: load_def)

lemma load_append: "load h p (n + m) = load h p n @ load h (p + n) m"
  by (rule nth_equalityI) (auto simp: nth_append)

lemma take_load: "k \<le> n \<Longrightarrow> take k (load h p n) = load h p k"
  by (simp add: load_def take_map)

lemma drop_load: "k \<le> n \<Longrightarrow> drop k (load h p n) = load h (p + k) (n - k)"
  by (simp add: load_def drop_map)

lemma load_cong: "(\<And>i. i < n \<Longrightarrow> mem h (p + i) = mem h' (q + i)) \<Longrightarrow> load h p n = load h' q n"
  by (rule nth_equalityI) auto

lemma load_memcpy [simp]: "load (memcpy h d s n) d n = load h s n"
  by (rule load_cong) (simp add: memcpy_def copy_mem_def)

lemma load_memmove [simp]: "load (memmove h d s n) d n = load h s n"
  by (rule load_cong) (simp add: memmove_def copy_mem_def)

lemma load_memset [simp]: "load (memset h d v n) d n = replicate n v"
  by (rule nth_equalityI) (auto simp: memset_def)

lemma load_memcpy_other:
  "regions_disjoint p m d n \<Longrightarrow> load (memcpy h d s n) p m = load h p m"
  by (rule load_cong) (auto simp: memcpy_def copy_mem_def regions_disjoint_def)

lemma load_mem_eq: "mem h' = mem h \<Longrightarrow> load h' p n = load h p n"
  by (simp add: load_def)

end
