(* ===== verification/Mempool.thy ===== *)
theory Mempool
  imports Heap "HOL-Library.Multiset"
begin

text \<open>
  The memory pool: \<^verbatim>\<open>common/mempool/mempool.hpp\<close>, \<^verbatim>\<open>mempool.cpp\<close> and \<^verbatim>\<open>canary.hpp\<close>.

  Ten buckets of fixed-size chunks, each carved out of one big allocation; \<open>acquire\<close> pops a
  chunk of the smallest fitting bucket and falls back to the heap, \<open>release\<close> finds the
  owning bucket by address and pushes the chunk back. On top of it the \<^verbatim>\<open>malloc\<close>-style
  functions \<open>mempool_alloc\<close>, \<open>mempool_realloc\<close> and \<open>mempool_free\<close>.

  The model is the default build (\<^verbatim>\<open>MEMPOOL_DEBUG\<close>, \<^verbatim>\<open>MEMPOOL_ALL\<close> and \<^verbatim>\<open>MEMPOOL_DISABLE\<close>
  are not defined). Every operation runs under the bucket's lock in the code; the model takes
  each as one step. \<^verbatim>\<open>std::set<Bucket*>\<close> iterates by address, and the buckets are members of
  one object declared in the order of their sizes, so it is the list \<open>all_buckets\<close>.
\<close>

subsection \<open>Chunks, canaries and buckets\<close>

datatype pool_type_t = POOL | HEAP

record mem_chunk =
  ch_ptr :: nat
  ch_capacity :: nat
  ch_in_pool :: bool
  ch_pool_type :: pool_type_t

definition chunk_of :: "nat \<Rightarrow> nat \<Rightarrow> mem_chunk" where
  "chunk_of p c = \<lparr>ch_ptr = p, ch_capacity = c, ch_in_pool = False, ch_pool_type = POOL\<rparr>"

definition new_chunk :: "heap \<Rightarrow> nat \<Rightarrow> mem_chunk \<times> heap" where
  "new_chunk h s =
     (let (p, h') = malloc h s
      in (\<lparr>ch_ptr = p, ch_capacity = s, ch_in_pool = False, ch_pool_type = HEAP\<rparr>, h'))"

definition canary_txt :: "byte list" where
  "canary_txt = [67, 97, 78, 97, 82, 121]"

definition canary_byte :: "nat \<Rightarrow> byte" where
  "canary_byte index = canary_txt ! (index mod 6)"

definition gen_canary_byte :: "nat \<Rightarrow> nat \<Rightarrow> byte result" where
  "gen_canary_byte canary_sz index =
     (if canary_sz \<noteq> 0 then ok (canary_byte index) else raise (Mempool_error 0))"

definition store :: "heap \<Rightarrow> nat \<Rightarrow> byte \<Rightarrow> heap" where
  "store h a v = h\<lparr>mem := (mem h)(a := v), ub := ub h \<or> \<not> accessible h a 1\<rparr>"

definition write_canary :: "nat \<Rightarrow> heap \<Rightarrow> nat \<Rightarrow> heap" where
  "write_canary canary_sz h p =
     fold (\<lambda>i h. store h (p + i) (canary_byte i)) [0..<canary_sz] h"

definition check_canary :: "nat \<Rightarrow> heap \<Rightarrow> nat \<Rightarrow> bool" where
  "check_canary canary_sz h p = list_all (\<lambda>i. mem h (p + i) = canary_byte i) [0..<canary_sz]"

record Bucket =
  bk_sz :: nat
  bk_bucket :: "mem_chunk list"
  bk_allocated :: nat
  bk_bigptr :: nat
  bk_endptr :: nat
  bk_count :: nat
  bk_canary_sz :: nat

definition new_Bucket :: "nat \<Rightarrow> Bucket" where
  "new_Bucket SZ = \<lparr>bk_sz = SZ, bk_bucket = [], bk_allocated = 0, bk_bigptr = 0,
                    bk_endptr = 0, bk_count = 0, bk_canary_sz = 0\<rparr>"

text \<open>The stockpiling loop of \<open>init_memory\<close>; the guard on the stride only matters when the
  chunk and the canary are both empty, and then the loop has nothing to do.\<close>

function stockpile :: "nat \<Rightarrow> nat \<Rightarrow> nat \<Rightarrow> nat \<Rightarrow> heap \<Rightarrow> mem_chunk list \<Rightarrow> heap \<times> mem_chunk list"
  where
  "stockpile sz canary_sz cur e h st =
     (if cur < e \<and> 0 < sz + canary_sz then
        stockpile sz canary_sz (cur + (sz + canary_sz)) e
          (write_canary canary_sz h (cur + sz)) (chunk_of cur sz # st)
      else (h, st))"
  by pat_completeness auto
termination
  by (relation "measure (\<lambda>(sz, canary_sz, cur, e, h, st). e - cur)") auto

declare stockpile.simps [simp del]

definition init_memory :: "nat \<Rightarrow> heap \<Rightarrow> Bucket \<Rightarrow> nat \<Rightarrow> heap \<times> Bucket" where
  "init_memory canary_sz h b cnt =
     (let allocated = cnt * bk_sz b + cnt * canary_sz + canary_sz;
          (p, h1) = malloc h allocated;
          h2 = write_canary canary_sz h1 p;
          (h3, st) = stockpile (bk_sz b) canary_sz (p + canary_sz) (p + allocated) h2 (bk_bucket b)
      in (h3, b\<lparr>bk_count := cnt, bk_canary_sz := canary_sz, bk_allocated := allocated,
                bk_bigptr := p, bk_endptr := p + allocated, bk_bucket := st\<rparr>))"

definition is_mine :: "Bucket \<Rightarrow> nat \<Rightarrow> bool" where
  "is_mine b p \<longleftrightarrow> bk_bigptr b \<le> p \<and> p < bk_endptr b"

definition is_aligned :: "Bucket \<Rightarrow> nat \<Rightarrow> bool" where
  "is_aligned b p \<longleftrightarrow> p mod (bk_bigptr b + bk_canary_sz b) = 0"

definition Bucket_size :: "Bucket \<Rightarrow> nat" where
  "Bucket_size b = length (bk_bucket b)"

definition Bucket_release :: "Bucket \<Rightarrow> mem_chunk \<Rightarrow> Bucket" where
  "Bucket_release b mch =
     (if is_mine b (ch_ptr mch)
      then b\<lparr>bk_bucket := mch\<lparr>ch_in_pool := True\<rparr> # bk_bucket b\<rparr>
      else b)"

definition Bucket_acquire :: "Bucket \<Rightarrow> mem_chunk option \<times> Bucket" where
  "Bucket_acquire b =
     (case bk_bucket b of
        [] \<Rightarrow> (None, b)
      | mch # rest \<Rightarrow> (Some mch, b\<lparr>bk_bucket := rest\<rparr>))"

subsection \<open>The pool\<close>

datatype bucket_id = B32 | B64 | B128 | B256 | B1k | B5k | B10k | B20k | B35k | B50k

definition all_buckets :: "bucket_id list" where
  "all_buckets = [B32, B64, B128, B256, B1k, B5k, B10k, B20k, B35k, B50k]"

primrec bucket_chunk_size :: "bucket_id \<Rightarrow> nat" where
  "bucket_chunk_size B32 = 32"
| "bucket_chunk_size B64 = 64"
| "bucket_chunk_size B128 = 128"
| "bucket_chunk_size B256 = 256"
| "bucket_chunk_size B1k = 1024"
| "bucket_chunk_size B5k = 5 * 1024"
| "bucket_chunk_size B10k = 10 * 1024"
| "bucket_chunk_size B20k = 20 * 1024"
| "bucket_chunk_size B35k = 35 * 1024"
| "bucket_chunk_size B50k = 50 * 1024"

record stats_t =
  acq :: u64
  acq_size :: u64
  ret :: u64
  ret_size :: u64
  heap_alloc :: u64
  heap_alloc_size :: u64
  out_free :: u64
  out_free_size :: u64
  out_pool_miss :: u64
  out_pool_miss_size :: u64

record memPool =
  mp_heap :: heap
  mp_bucket :: "bucket_id \<Rightarrow> Bucket"
  mp_buckets :: "bucket_id list"
  mp_stats :: stats_t
  mp_bailing :: bool
  mp_ready :: bool

definition zero_stats :: stats_t where
  "zero_stats = \<lparr>acq = 0, acq_size = 0, ret = 0, ret_size = 0, heap_alloc = 0,
     heap_alloc_size = 0, out_free = 0, out_free_size = 0, out_pool_miss = 0,
     out_pool_miss_size = 0\<rparr>"

definition raw_memPool :: "heap \<Rightarrow> memPool" where
  "raw_memPool h = \<lparr>mp_heap = h, mp_bucket = (\<lambda>i. new_Bucket (bucket_chunk_size i)),
     mp_buckets = [], mp_stats = zero_stats, mp_bailing = False, mp_ready = False\<rparr>"

definition set_bucket :: "memPool \<Rightarrow> bucket_id \<Rightarrow> Bucket \<Rightarrow> memPool" where
  "set_bucket P i b = P\<lparr>mp_bucket := (mp_bucket P)(i := b)\<rparr>"

definition pool_init_bucket :: "memPool \<Rightarrow> bucket_id \<times> nat \<Rightarrow> memPool" where
  "pool_init_bucket P = (\<lambda>(i, n).
     (let (h, b) = init_memory 0 (mp_heap P) (mp_bucket P i) n
      in (set_bucket P i b)\<lparr>mp_heap := h\<rparr>))"

text \<open>\<open>allocate\<close>: the bucket populations (the multipliers 16, 8 and 4 are \<open>m32\<close>, \<open>m64\<close>, \<open>m128\<close>),
  then \<open>init_memory\<close> of each bucket in declaration order.\<close>

definition bucket_counts :: "nat \<Rightarrow> nat \<Rightarrow> nat \<Rightarrow> nat \<Rightarrow> nat \<Rightarrow> (bucket_id \<times> nat) list" where
  "bucket_counts n_sz256 n_sz1k n_sz5k n_sz10k n_sz20k =
     [(B32, n_sz256 * 16), (B64, n_sz256 * 8), (B128, n_sz256 * 4), (B256, n_sz256),
      (B1k, n_sz1k), (B5k, n_sz5k), (B10k, n_sz10k), (B20k, n_sz20k), (B35k, n_sz20k),
      (B50k, n_sz20k)]"

definition allocate :: "memPool \<Rightarrow> nat \<Rightarrow> nat \<Rightarrow> nat \<Rightarrow> nat \<Rightarrow> nat \<Rightarrow> memPool" where
  "allocate P n_sz256 n_sz1k n_sz5k n_sz10k n_sz20k =
     (foldl pool_init_bucket P (bucket_counts n_sz256 n_sz1k n_sz5k n_sz10k n_sz20k))
       \<lparr>mp_buckets := all_buckets\<rparr>"

text \<open>The constructor; \<open>env\<close> is the number read from \<^verbatim>\<open>SX_MEMSIZE\<close> when it is set.\<close>

definition get_env_size :: "int option \<Rightarrow> nat" where
  "get_env_size env =
     (case env of
        None \<Rightarrow> 100
      | Some new_size \<Rightarrow> if 10 \<le> new_size \<and> new_size \<le> 100 * 100 then nat new_size else 100)"

definition memPool_ctor ::
  "heap \<Rightarrow> int option \<Rightarrow> nat \<Rightarrow> nat \<Rightarrow> nat \<Rightarrow> nat \<Rightarrow> nat \<Rightarrow> memPool" where
  "memPool_ctor h env s256 s1k s5k s10k s20k =
     (let size = get_env_size env
      in (allocate (raw_memPool h) (s256 * size) (s1k * size) (s5k * size) (s10k * size)
            (s20k * size))\<lparr>mp_ready := True\<rparr>)"

definition find_by_address :: "memPool \<Rightarrow> nat \<Rightarrow> bucket_id option" where
  "find_by_address P p = find (\<lambda>i. is_mine (mp_bucket P i) p) (mp_buckets P)"

definition find_ptr_size :: "memPool \<Rightarrow> nat \<Rightarrow> nat" where
  "find_ptr_size P p =
     (case find (\<lambda>i. is_mine (mp_bucket P i) p) (mp_buckets P) of
        Some i \<Rightarrow> bk_sz (mp_bucket P i)
      | None \<Rightarrow> 0)"

definition pick_bucket :: "nat \<Rightarrow> bucket_id option" where
  "pick_bucket s =
     (if 50 * 1024 < s then None
      else if s \<le> 32 then Some B32
      else if s \<le> 1024 then
        (if 256 < s then Some B1k
         else if 128 < s then Some B256
         else if 64 < s then Some B128
         else if 32 < s then Some B64
         else None)
      else
        (if 35 * 1024 < s then Some B50k
         else if 20 * 1024 < s then Some B35k
         else if 10 * 1024 < s then Some B20k
         else if 5 * 1024 < s then Some B10k
         else if 1 * 1024 < s then Some B5k
         else None))"

fun tryhard_loop :: "memPool \<Rightarrow> nat \<Rightarrow> nat \<Rightarrow> bucket_id list \<Rightarrow> mem_chunk option \<times> memPool" where
  "tryhard_loop P s overkill_level [] = (None, P)"
| "tryhard_loop P s overkill_level (i # is) =
     (if 3 < overkill_level then (None, P)
      else if s \<le> bk_sz (mp_bucket P i) \<and> bk_bucket (mp_bucket P i) \<noteq> [] then
        (Some (hd (bk_bucket (mp_bucket P i))),
         set_bucket P i ((mp_bucket P i)\<lparr>bk_bucket := tl (bk_bucket (mp_bucket P i))\<rparr>))
      else tryhard_loop P s (overkill_level + 1) is)"

definition tryhard_available :: "memPool \<Rightarrow> nat \<Rightarrow> mem_chunk option \<times> memPool" where
  "tryhard_available P s = tryhard_loop P s 1 (mp_buckets P)"

definition from_heap :: "memPool \<Rightarrow> nat \<Rightarrow> mem_chunk \<times> memPool" where
  "from_heap P s =
     (let (c, h) = new_chunk (mp_heap P) s;
          st = mp_stats P
      in (c\<lparr>ch_in_pool := False, ch_pool_type := HEAP\<rparr>,
          P\<lparr>mp_heap := h,
            mp_stats := st\<lparr>heap_alloc := heap_alloc st + 1,
                           heap_alloc_size := heap_alloc_size st + of_nat s\<rparr>\<rparr>))"

definition free_heap :: "memPool \<Rightarrow> mem_chunk \<Rightarrow> memPool" where
  "free_heap P mch =
     (let st = mp_stats P
      in P\<lparr>mp_stats := st\<lparr>out_free := out_free st + 1,
                          out_free_size := out_free_size st + of_nat (ch_capacity mch)\<rparr>,
           mp_heap := mfree (mp_heap P) (ch_ptr mch)\<rparr>)"

definition count_acq :: "memPool \<Rightarrow> nat \<Rightarrow> memPool" where
  "count_acq P cap =
     (let st = mp_stats P
      in P\<lparr>mp_stats := st\<lparr>acq := acq st + 1, acq_size := acq_size st + of_nat cap\<rparr>\<rparr>)"

definition acquire :: "memPool \<Rightarrow> nat \<Rightarrow> mem_chunk \<times> memPool" where
  "acquire P sz =
     (if sz = 0 then (chunk_of 0 0, P)
      else case pick_bucket sz of
        None \<Rightarrow>
          (case tryhard_available P sz of
             (Some c, P') \<Rightarrow> (c, count_acq P' (ch_capacity c))
           | (None, P') \<Rightarrow> from_heap P' sz)
      | Some i \<Rightarrow>
          (case Bucket_acquire (mp_bucket P i) of
             (Some c, b) \<Rightarrow>
               (c\<lparr>ch_in_pool := False, ch_pool_type := POOL\<rparr>,
                count_acq (set_bucket P i b) (ch_capacity c))
           | (None, b) \<Rightarrow> from_heap P sz))"

definition release :: "memPool \<Rightarrow> mem_chunk \<Rightarrow> memPool" where
  "release P to_ret =
     (if ch_ptr to_ret = 0 then P
      else if mp_bailing P then P
      else if ch_pool_type to_ret = HEAP then free_heap P to_ret
      else case find_by_address P (ch_ptr to_ret) of
        None \<Rightarrow>
          (let st = mp_stats P
           in free_heap
                (P\<lparr>mp_stats := st\<lparr>out_pool_miss := out_pool_miss st + 1,
                                  out_pool_miss_size := out_pool_miss_size st
                                    + of_nat (ch_capacity to_ret)\<rparr>\<rparr>)
                to_ret)
      | Some i \<Rightarrow>
          (let st = mp_stats P;
               b = mp_bucket P i
           in set_bucket
                (P\<lparr>mp_stats := st\<lparr>ret := ret st + 1, ret_size := ret_size st + of_nat (bk_sz b)\<rparr>\<rparr>)
                i (Bucket_release b to_ret)))"

subsection \<open>The \<^verbatim>\<open>malloc\<close>-style interface\<close>

record mp_stats_t =
  stat_mempool_alloc :: u64
  stat_mempool_realloc :: u64
  stat_mempool_realloc_miss :: u64
  stat_mempool_realloc_fitting :: u64
  stat_mempool_free :: u64
  stat_mempool_free_miss :: u64
  stat_mempool_alloc_size :: u64
  stat_mempool_free_size :: u64

record genv =
  pool :: memPool
  use_pool :: bool
  heap_on_tension :: bool
  mps :: mp_stats_t
  alloc_bytes :: u64
  alloc_count :: u64
  free_bytes :: u64
  free_count :: u64

definition on_heap :: "genv \<Rightarrow> (heap \<Rightarrow> heap) \<Rightarrow> genv" where
  "on_heap E f = E\<lparr>pool := (pool E)\<lparr>mp_heap := f (mp_heap (pool E))\<rparr>\<rparr>"

definition gmalloc :: "genv \<Rightarrow> nat \<Rightarrow> nat \<times> genv" where
  "gmalloc E s = (let (p, h) = malloc (mp_heap (pool E)) s in (p, on_heap E (\<lambda>_. h)))"

definition mempool_alloc :: "genv \<Rightarrow> nat \<Rightarrow> (nat \<times> genv) result" where
  "mempool_alloc E s =
     (if \<not> use_pool E \<or> mp_bailing (pool E) then ok (gmalloc E s)
      else let (mch, P) = acquire (pool E) s
           in if ch_ptr mch \<noteq> 0 then
                ok (ch_ptr mch,
                    E\<lparr>pool := P,
                      mps := (mps E)\<lparr>stat_mempool_alloc := stat_mempool_alloc (mps E) + 1,
                                     stat_mempool_alloc_size :=
                                       stat_mempool_alloc_size (mps E) + of_nat s\<rparr>\<rparr>)
              else raise (Mempool_error s))"

text \<open>C's \<^verbatim>\<open>realloc\<close>, used when the pool is off: the common prefix moves to the new block. The
  old size is the one the allocator recorded.\<close>

definition block_len :: "heap \<Rightarrow> nat \<Rightarrow> nat" where
  "block_len h p = (case map_of (blocks h) p of Some l \<Rightarrow> l | None \<Rightarrow> 0)"

definition crealloc :: "genv \<Rightarrow> nat \<Rightarrow> nat \<Rightarrow> nat \<times> genv" where
  "crealloc E optr nsz =
     (let old = block_len (mp_heap (pool E)) optr;
          (p, E1) = gmalloc E nsz
      in (p, on_heap E1 (\<lambda>h. if optr = 0 then h else mfree (memcpy h p optr (min old nsz)) optr)))"

definition realloc_miss :: "nat \<Rightarrow> nat \<Rightarrow> mp_stats_t \<Rightarrow> mp_stats_t" where
  "realloc_miss optr ptr_size st =
     (if optr \<noteq> 0 \<and> ptr_size = 0
      then st\<lparr>stat_mempool_realloc_miss := stat_mempool_realloc_miss st + 1\<rparr> else st)"

definition mempool_realloc :: "genv \<Rightarrow> nat \<Rightarrow> nat \<Rightarrow> nat \<times> genv" where
  "mempool_realloc E optr nsz =
     (if \<not> use_pool E then crealloc E optr nsz
      else if mp_bailing (pool E) then gmalloc E nsz
      else
        let ptr_size = (if optr \<noteq> 0 then find_ptr_size (pool E) optr else 0);
            old_m = chunk_of optr ptr_size
        in if nsz \<le> ptr_size then
             (optr, E\<lparr>mps := (mps E)\<lparr>stat_mempool_realloc_fitting :=
                                        stat_mempool_realloc_fitting (mps E) + 1\<rparr>\<rparr>)
           else
             let (new_m, P) = acquire (pool E) nsz; E1 = E\<lparr>pool := P\<rparr>
             in if ch_ptr new_m = 0 then
                  let E2 = E1\<lparr>pool := release (pool E1) old_m,
                              mps := realloc_miss optr ptr_size (mps E1)\<rparr>
                  in if heap_on_tension E2 then gmalloc E2 nsz else (0, E2)
                else
                  let E2 = (if optr \<noteq> 0 then
                              let E3 = (if ptr_size \<noteq> 0
                                        then on_heap E1 (\<lambda>h. memcpy h (ch_ptr new_m) optr
                                               (if nsz \<le> ptr_size then nsz else ptr_size))
                                        else E1)
                              in E3\<lparr>pool := release (pool E3) old_m\<rparr>
                            else E1);
                      st = realloc_miss optr ptr_size (mps E2)
                  in (ch_ptr new_m,
                      E2\<lparr>mps := st\<lparr>stat_mempool_realloc :=
                          stat_mempool_realloc st + 1
                          + of_nat (sz_sub (ch_capacity new_m) (ch_capacity old_m))\<rparr>\<rparr>))"

definition mempool_free :: "genv \<Rightarrow> nat \<Rightarrow> genv" where
  "mempool_free E optr =
     (if mp_bailing (pool E) then E
      else if \<not> use_pool E then on_heap E (\<lambda>h. mfree h optr)
      else
        let ptr_size = find_ptr_size (pool E) optr;
            E1 = (if ptr_size = 0 then
                    E\<lparr>mps := (mps E)\<lparr>stat_mempool_free_miss := stat_mempool_free_miss (mps E) + 1\<rparr>,
                      pool := release (pool E) ((chunk_of optr ptr_size)\<lparr>ch_pool_type := HEAP\<rparr>)\<rparr>
                  else E\<lparr>pool := release (pool E) (chunk_of optr ptr_size)\<rparr>)
        in E1\<lparr>mps := (mps E1)\<lparr>stat_mempool_free := stat_mempool_free (mps E1) + 1,
                               stat_mempool_free_size :=
                                 stat_mempool_free_size (mps E1) + of_nat ptr_size\<rparr>\<rparr>)"


subsection \<open>Canaries\<close>

lemma store_simps [simp]:
  "blocks (store h a v) = blocks h" "heap_wf (store h a v) = heap_wf h"
  "accessible (store h a v) = accessible h" "mallocf (store h a v) = mallocf h"
  by (auto simp: store_def heap_wf_def accessible_def fun_eq_iff)

lemma fold_store:
  "blocks (fold (\<lambda>i h. store h (p + i) (f i)) is h) = blocks h"
  "heap_wf (fold (\<lambda>i h. store h (p + i) (f i)) is h) = heap_wf h"
  "mallocf (fold (\<lambda>i h. store h (p + i) (f i)) is h) = mallocf h"
  by (induction "is" arbitrary: h) simp_all

lemma write_canary_frame [simp]:
  "blocks (write_canary c h p) = blocks h" "heap_wf (write_canary c h p) = heap_wf h"
  "mallocf (write_canary c h p) = mallocf h"
  by (simp_all add: write_canary_def fold_store)

lemma write_canary_mem:
  "mem (write_canary c h p) = (\<lambda>a. if p \<le> a \<and> a < p + c then canary_byte (a - p) else mem h a)"
proof (induction c)
  case 0
  then show ?case by (auto simp: write_canary_def fun_eq_iff)
next
  case (Suc c)
  have "write_canary (Suc c) h p = store (write_canary c h p) (p + c) (canary_byte c)"
    by (simp add: write_canary_def)
  then show ?case using Suc by (auto simp: store_def fun_eq_iff)
qed

lemma accessible_write_canary [simp]: "accessible (write_canary c h p) = accessible h"
  by (simp add: accessible_def fun_eq_iff)

lemma write_canary_ub: "accessible h p c \<Longrightarrow> ub (write_canary c h p) = ub h"
proof (induction c)
  case 0
  then show ?case by (simp add: write_canary_def)
next
  case (Suc c)
  have eq: "write_canary (Suc c) h p = store (write_canary c h p) (p + c) (canary_byte c)"
    by (simp add: write_canary_def)
  have "accessible h p c" and "accessible h (p + c) 1"
    using Suc.prems by (auto elim: accessible_sub)
  with Suc.IH show ?case by (simp add: eq store_def)
qed

lemma write_canary_zero [simp]: "write_canary 0 h p = h"
  by (simp add: write_canary_def)

subsection \<open>Carving a bucket\<close>

definition slot :: "Bucket \<Rightarrow> nat \<Rightarrow> nat" where
  "slot b k = bk_bigptr b + bk_canary_sz b + k * (bk_sz b + bk_canary_sz b)"

lemma stockpile_chunks:
  assumes "0 < sz + c" and "k \<le> cnt"
  shows "snd (stockpile sz c (base + k * (sz + c)) (base + cnt * (sz + c)) h st) =
           rev (map (\<lambda>j. chunk_of (base + j * (sz + c)) sz) [k..<cnt]) @ st"
  using assms(2)
proof (induction "cnt - k" arbitrary: k h st)
  case 0
  then show ?case by (simp add: stockpile.simps)
next
  case (Suc d)
  then have k: "k < cnt" by simp
  then have lt: "base + k * (sz + c) < base + cnt * (sz + c)"
    using assms(1) by (metis add_less_cancel_left mult_less_cancel2)
  have nxt: "base + k * (sz + c) + (sz + c) = base + Suc k * (sz + c)" by simp
  have "d = cnt - Suc k" and "Suc k \<le> cnt" using Suc k by simp_all
  moreover have "0 < sz \<or> 0 < c" using assms(1) by simp
  ultimately show ?case
    using Suc(1) k by (subst stockpile.simps) (simp add: lt nxt upt_conv_Cons del: mult_Suc)
qed

lemma stockpile_heap:
  assumes "heap_wf h" and "accessible h b l" and "\<not> ub h"
    and "b \<le> cur" and "e = b + l" and "\<exists>m. e = cur + m * (sz + c)"
  shows "blocks (fst (stockpile sz c cur e h st)) = blocks h \<and>
         heap_wf (fst (stockpile sz c cur e h st)) \<and>
         \<not> ub (fst (stockpile sz c cur e h st))"
  using assms
proof (induction sz c cur e h st rule: stockpile.induct)
  case (1 sz c cur e h st)
  show ?case
  proof (cases "cur < e \<and> 0 < sz + c")
    case False
    then show ?thesis using "1.prems" by (simp add: stockpile.simps)
  next
    case True
    from "1.prems"(6) obtain m where m: "e = cur + m * (sz + c)" by blast
    with True have "0 < m" by (cases m) auto
    then obtain m' where m': "m = Suc m'" by (cases m) auto
    have "b \<le> cur + sz" using "1.prems"(4) by simp
    moreover have "cur + sz + c \<le> b + l" using "1.prems"(5) m m' by simp
    ultimately have "accessible h (cur + sz) c" by (rule accessible_sub [OF "1.prems"(2)])
    then have "\<not> ub (write_canary c h (cur + sz))"
      using "1.prems"(3) by (simp add: write_canary_ub)
    moreover have "\<exists>m. e = cur + (sz + c) + m * (sz + c)"
      using m m' by auto
    moreover have "stockpile sz c cur e h st =
        stockpile sz c (cur + (sz + c)) e (write_canary c h (cur + sz)) (chunk_of cur sz # st)"
      using True by (subst stockpile.simps) simp
    ultimately show ?thesis
      using "1.IH" [OF True] "1.prems" by simp
  qed
qed

definition bucket_wf :: "heap \<Rightarrow> Bucket \<Rightarrow> bool" where
  "bucket_wf h b \<longleftrightarrow>
     0 < bk_sz b \<and>
     bk_count b * (bk_sz b + bk_canary_sz b) + bk_canary_sz b = bk_allocated b \<and>
     bk_endptr b = bk_bigptr b + bk_allocated b \<and>
     (bk_bigptr b, bk_allocated b) \<in> set (blocks h) \<and>
     (\<forall>c \<in> set (bk_bucket b). ch_capacity c = bk_sz b \<and> ch_pool_type c = POOL \<and>
        ch_ptr c \<in> slot b ` {..<bk_count b})"

lemma init_memory_result:
  assumes "heap_wf h" and "\<not> ub h" and "0 < bk_sz b" and "bk_bucket b = []"
    and "init_memory c h b cnt = (h', b')"
  shows "bk_bucket b' = rev (map (\<lambda>k. chunk_of (slot b' k) (bk_sz b')) [0..<cnt])"
    and "bk_sz b' = bk_sz b" and "bk_count b' = cnt" and "bk_canary_sz b' = c"
    and "blocks h' = (bk_bigptr b', bk_allocated b') # blocks h"
    and "bk_bigptr b' \<notin> fst ` set (blocks h)"
    and "heap_wf h'" and "\<not> ub h'" and "bucket_wf h' b'"
proof -
  define al where "al = cnt * bk_sz b + cnt * c + c"
  obtain p h1 where m: "malloc h al = (p, h1)" by (cases "malloc h al")
  define h2 where "h2 = write_canary c h1 p"
  obtain h3 st where sp: "stockpile (bk_sz b) c (p + c) (p + al) h2 [] = (h3, st)"
    by (cases "stockpile (bk_sz b) c (p + c) (p + al) h2 []")
  have res: "h' = h3" "b' = b\<lparr>bk_count := cnt, bk_canary_sz := c, bk_allocated := al,
      bk_bigptr := p, bk_endptr := p + al, bk_bucket := st\<rparr>"
    using assms(4,5) m sp by (auto simp: init_memory_def Let_def al_def h2_def)
  note wf1 = heap_wf_malloc [OF assms(1) m]
  have al: "al = c + cnt * (bk_sz b + c)" by (simp add: al_def algebra_simps)
  have acc1: "accessible h1 p al" using wf1(4) by (simp add: accessible_block)
  have accc: "accessible h1 p c" by (rule accessible_sub [OF acc1]) (auto simp: al)
  have h2: "blocks h2 = (p, al) # blocks h" "heap_wf h2" "\<not> ub h2" "accessible h2 p al"
    using wf1 assms(2) acc1 by (simp_all add: h2_def write_canary_ub [OF accc])
  have sph: "blocks h3 = blocks h2 \<and> heap_wf h3 \<and> \<not> ub h3"
    using stockpile_heap [OF h2(2,4,3), of "p + c" "p + al" "bk_sz b" c "[]"] sp al by auto
  have st: "st = rev (map (\<lambda>j. chunk_of (p + c + j * (bk_sz b + c)) (bk_sz b)) [0..<cnt])"
    using stockpile_chunks [of "bk_sz b" c 0 cnt "p + c" h2 "[]"] sp assms(3) al
    by (simp add: add.assoc)
  show b1: "bk_bucket b' = rev (map (\<lambda>k. chunk_of (slot b' k) (bk_sz b')) [0..<cnt])"
    using st by (simp add: res slot_def)
  show "bk_sz b' = bk_sz b" and "bk_count b' = cnt" and "bk_canary_sz b' = c"
    by (simp_all add: res)
  show bl: "blocks h' = (bk_bigptr b', bk_allocated b') # blocks h"
    using sph h2(1) by (simp add: res)
  show "bk_bigptr b' \<notin> fst ` set (blocks h)" using wf1(3) by (simp add: res)
  show "heap_wf h'" and "\<not> ub h'" using sph by (simp_all add: res)
  have "\<forall>ch \<in> set (bk_bucket b'). ch_capacity ch = bk_sz b' \<and> ch_pool_type ch = POOL \<and>
          ch_ptr ch \<in> slot b' ` {..<bk_count b'}"
    unfolding b1 by (auto simp: chunk_of_def res)
  moreover have "(bk_bigptr b', bk_allocated b') \<in> set (blocks h')" by (simp add: bl)
  ultimately show "bucket_wf h' b'"
    using assms(3) al by (simp add: bucket_wf_def res)
qed

subsection \<open>The pool invariant\<close>

definition buckets_wf :: "memPool \<Rightarrow> bucket_id set \<Rightarrow> bool" where
  "buckets_wf P D \<longleftrightarrow>
     heap_wf (mp_heap P) \<and> \<not> ub (mp_heap P) \<and>
     (\<forall>i. bk_sz (mp_bucket P i) = bucket_chunk_size i) \<and>
     (\<forall>i \<in> D. bucket_wf (mp_heap P) (mp_bucket P i)) \<and>
     (\<forall>i. i \<notin> D \<longrightarrow> bk_bucket (mp_bucket P i) = []) \<and>
     inj_on (\<lambda>i. bk_bigptr (mp_bucket P i)) D \<and>
     (\<forall>i. distinct (map ch_ptr (bk_bucket (mp_bucket P i))))"

definition pool_wf :: "memPool \<Rightarrow> bool" where
  "pool_wf P \<longleftrightarrow> buckets_wf P UNIV \<and> mp_buckets P = all_buckets \<and> \<not> mp_bailing P"

text \<open>A region of memory the pool may have handed out: a slot of a bucket, or a heap block that
  is not the backing store of a bucket.\<close>

definition pool_slot :: "memPool \<Rightarrow> nat \<Rightarrow> nat \<Rightarrow> bool" where
  "pool_slot P p n \<longleftrightarrow>
     (\<exists>i. p \<in> slot (mp_bucket P i) ` {..<bk_count (mp_bucket P i)} \<and> n = bk_sz (mp_bucket P i))"

definition heap_region :: "memPool \<Rightarrow> nat \<Rightarrow> nat \<Rightarrow> bool" where
  "heap_region P p n \<longleftrightarrow>
     0 < n \<and> (p, n) \<in> set (blocks (mp_heap P)) \<and> (\<forall>i. p \<noteq> bk_bigptr (mp_bucket P i))"

definition owned :: "memPool \<Rightarrow> nat \<Rightarrow> nat \<Rightarrow> bool" where
  "owned P p n \<longleftrightarrow> pool_slot P p n \<or> heap_region P p n"

lemma set_all_buckets [simp]: "set all_buckets = UNIV"
  by (auto simp: all_buckets_def intro: bucket_id.exhaust)

lemma distinct_all_buckets [simp]: "distinct all_buckets"
  by (simp add: all_buckets_def)

lemma bucket_chunk_size_pos [simp]: "0 < bucket_chunk_size i"
  by (cases i) simp_all

lemma pool_wfD:
  assumes "pool_wf P"
  shows "heap_wf (mp_heap P)" "\<not> ub (mp_heap P)" "bk_sz (mp_bucket P i) = bucket_chunk_size i"
    "bucket_wf (mp_heap P) (mp_bucket P i)" "mp_buckets P = all_buckets" "\<not> mp_bailing P"
    "bk_bigptr (mp_bucket P i) = bk_bigptr (mp_bucket P j) \<Longrightarrow> i = j"
    "distinct (map ch_ptr (bk_bucket (mp_bucket P i)))"
  using assms by (auto simp: pool_wf_def buckets_wf_def inj_on_def)

lemma bucket_wfD:
  assumes "bucket_wf h b"
  shows "0 < bk_sz b" "bk_endptr b = bk_bigptr b + bk_allocated b"
    "(bk_bigptr b, bk_allocated b) \<in> set (blocks h)"
  using assms unfolding bucket_wf_def by blast+

lemma bucket_wf_chunk:
  "bucket_wf h b \<Longrightarrow> c \<in> set (bk_bucket b) \<Longrightarrow>
     ch_capacity c = bk_sz b \<and> ch_pool_type c = POOL \<and> ch_ptr c \<in> slot b ` {..<bk_count b}"
  by (simp add: bucket_wf_def)

lemma slot_in_bucket:
  assumes "bucket_wf h b" and "k < bk_count b"
  shows "bk_bigptr b \<le> slot b k" and "slot b k + bk_sz b \<le> bk_endptr b" and "slot b k < bk_endptr b"
proof -
  have "Suc k * (bk_sz b + bk_canary_sz b) \<le> bk_count b * (bk_sz b + bk_canary_sz b)"
    using assms(2) by (intro mult_le_mono1) simp
  then show le: "slot b k + bk_sz b \<le> bk_endptr b"
    using assms(1) by (simp add: bucket_wf_def slot_def)
  show "bk_bigptr b \<le> slot b k" by (simp add: slot_def)
  show "slot b k < bk_endptr b" using le assms(1) by (simp add: bucket_wf_def)
qed

lemma slots_disjoint:
  assumes "bucket_wf h b" and "k \<noteq> l"
  shows "regions_disjoint (slot b k) (bk_sz b) (slot b l) (bk_sz b)"
proof -
  have "Suc k * (bk_sz b + bk_canary_sz b) \<le> l * (bk_sz b + bk_canary_sz b) \<or>
        Suc l * (bk_sz b + bk_canary_sz b) \<le> k * (bk_sz b + bk_canary_sz b)"
    using assms(2) by (metis Suc_leI linorder_neqE_nat mult_le_mono1)
  then show ?thesis by (auto simp: regions_disjoint_def slot_def)
qed

text \<open>Every region the pool may hand out lies in one live block, which tells the cases apart.\<close>

lemma owned_in_block:
  assumes "pool_wf P" and "owned P p n"
  obtains a l where "(a, l) \<in> set (blocks (mp_heap P))" and "a \<le> p" and "p + n \<le> a + l" and "0 < n"
proof (cases "heap_region P p n")
  case True
  then show ?thesis by (intro that [of p n]) (simp_all add: heap_region_def)
next
  case False
  then obtain i k where ik: "k < bk_count (mp_bucket P i)" "p = slot (mp_bucket P i) k"
      "n = bk_sz (mp_bucket P i)"
    using assms(2) by (auto simp: owned_def pool_slot_def)
  note wf = pool_wfD(4) [OF assms(1), of i]
  show ?thesis
    using slot_in_bucket [OF wf ik(1)] bucket_wfD [OF wf] ik(2,3)
    by (intro that [of "bk_bigptr (mp_bucket P i)" "bk_allocated (mp_bucket P i)"]) simp_all
qed

lemma owned_accessible:
  assumes "pool_wf P" and "owned P p n"
  shows "accessible (mp_heap P) p n"
proof -
  obtain a l where "(a, l) \<in> set (blocks (mp_heap P))" and "a \<le> p" and "p + n \<le> a + l"
    using owned_in_block [OF assms] by metis
  then show ?thesis by (auto simp: accessible_def list_ex_iff)
qed

lemma owned_positive:
  assumes "pool_wf P" and "owned P p n"
  shows "0 < p" and "0 < n"
proof -
  obtain a l where al: "(a, l) \<in> set (blocks (mp_heap P))" "a \<le> p" "0 < n"
    using owned_in_block [OF assms] by metis
  then have "0 < a"
    using pool_wfD(1) [OF assms(1)] by (auto simp: heap_wf_def blocks_ok_def list_all_iff)
  with al show "0 < p" and "0 < n" by simp_all
qed

lemma slot_bucket_disjoint:
  assumes wf: "pool_wf P" and i: "k < bk_count (mp_bucket P i)"
    and ab: "(a, l) \<in> set (blocks (mp_heap P))" and ne: "a \<noteq> bk_bigptr (mp_bucket P i)"
    and sub: "a \<le> q" "q + m \<le> a + l"
  shows "regions_disjoint (slot (mp_bucket P i) k) (bk_sz (mp_bucket P i)) q m"
proof -
  let ?b = "mp_bucket P i"
  note bwf = pool_wfD(4) [OF wf, of i]
  have "regions_disjoint (bk_bigptr ?b) (bk_allocated ?b) a l"
    using blocks_ok_disjoint [of "blocks (mp_heap P)"] pool_wfD(1) [OF wf] bucket_wfD [OF bwf] ab ne
    by (auto simp: heap_wf_def)
  then show ?thesis
    by (rule regions_disjoint_sub)
       (use slot_in_bucket [OF bwf i] bucket_wfD [OF bwf] sub in auto)
qed

lemma owned_disjoint:
  assumes wf: "pool_wf P" and p: "owned P p n" and q: "owned P q m" and ne: "p \<noteq> q"
  shows "regions_disjoint p n q m"
proof -
  consider (slots) "pool_slot P p n" "pool_slot P q m"
    | (sh) "pool_slot P p n" "heap_region P q m" | (hs) "heap_region P p n" "pool_slot P q m"
    | (heap) "heap_region P p n" "heap_region P q m"
    using p q by (auto simp: owned_def)
  then show ?thesis
  proof cases
    case slots
    then obtain i k j l where ik: "k < bk_count (mp_bucket P i)" "p = slot (mp_bucket P i) k"
        "n = bk_sz (mp_bucket P i)" and jl: "l < bk_count (mp_bucket P j)"
        "q = slot (mp_bucket P j) l" "m = bk_sz (mp_bucket P j)"
      by (auto simp: pool_slot_def)
    show ?thesis
    proof (cases "i = j")
      case True
      with ik jl ne show ?thesis
        using slots_disjoint [OF pool_wfD(4) [OF wf, of j], of k l] by auto
    next
      case False
      note bwf = pool_wfD(4) [OF wf, of j]
      have "bk_bigptr (mp_bucket P j) \<noteq> bk_bigptr (mp_bucket P i)"
        using pool_wfD(7) [OF wf] False by metis
      then show ?thesis
        unfolding ik(2,3) jl(2,3)
        by (intro slot_bucket_disjoint [OF wf ik(1) bucket_wfD(3) [OF bwf]])
           (use slot_in_bucket [OF bwf jl(1)] bucket_wfD [OF bwf] in auto)
    qed
  next
    case sh
    then show ?thesis
      by (auto simp: pool_slot_def heap_region_def intro: slot_bucket_disjoint [OF wf])
  next
    case hs
    then show ?thesis
      by (auto simp: pool_slot_def heap_region_def
          intro: regions_disjoint_sym slot_bucket_disjoint [OF wf])
  next
    case heap
    then show ?thesis
      using blocks_ok_disjoint [of "blocks (mp_heap P)"] pool_wfD(1) [OF wf] ne
      by (auto simp: heap_region_def heap_wf_def)
  qed
qed

lemma free_chunk_owned:
  assumes "pool_wf P" and "c \<in> set (bk_bucket (mp_bucket P i))"
  shows "pool_slot P (ch_ptr c) (ch_capacity c)" and "ch_capacity c = bucket_chunk_size i"
    and "ch_pool_type c = POOL"
  using bucket_wf_chunk [OF pool_wfD(4) [OF assms(1), of i] assms(2)] pool_wfD(3) [OF assms(1), of i]
  unfolding pool_slot_def by metis+

lemma find_by_address_slot:
  assumes wf: "pool_wf P" and k: "k < bk_count (mp_bucket P i)"
  shows "find_by_address P (slot (mp_bucket P i) k) = Some i"
proof -
  let ?p = "slot (mp_bucket P i) k"
  have mine: "is_mine (mp_bucket P i) ?p"
    using slot_in_bucket [OF pool_wfD(4) [OF wf] k] by (simp add: is_mine_def)
  have uniq: "j = i" if "is_mine (mp_bucket P j) ?p" for j
  proof (rule ccontr)
    assume "j \<noteq> i"
    then have ne: "bk_bigptr (mp_bucket P j) \<noteq> bk_bigptr (mp_bucket P i)"
      using pool_wfD(7) [OF wf] by metis
    note bwf = pool_wfD(4) [OF wf, of j]
    have "regions_disjoint ?p (bk_sz (mp_bucket P i)) ?p 1"
      using that bucket_wfD [OF bwf]
      by (intro slot_bucket_disjoint [OF wf k bucket_wfD(3) [OF bwf] ne]) (auto simp: is_mine_def)
    then show False
      using bucket_wfD(1) [OF pool_wfD(4) [OF wf, of i]] by (simp add: regions_disjoint_def)
  qed
  have eq: "(\<lambda>j. is_mine (mp_bucket P j) ?p) = (\<lambda>j. j = i)"
    using mine uniq by (auto simp: fun_eq_iff)
  show ?thesis
    unfolding find_by_address_def eq pool_wfD(5) [OF wf] by (cases i) (simp_all add: all_buckets_def)
qed

lemma find_by_address_heap:
  assumes wf: "pool_wf P" and p: "heap_region P p n"
  shows "find_by_address P p = None"
proof -
  have "\<not> is_mine (mp_bucket P i) p" for i
  proof
    assume m: "is_mine (mp_bucket P i) p"
    note bwf = pool_wfD(4) [OF wf, of i]
    have "regions_disjoint (bk_bigptr (mp_bucket P i)) (bk_allocated (mp_bucket P i)) p n"
      using p bucket_wfD [OF bwf] blocks_ok_disjoint [of "blocks (mp_heap P)"] pool_wfD(1) [OF wf]
      by (metis heap_region_def heap_wf_def)
    then show False
      using m p bucket_wfD [OF bwf] by (auto simp: regions_disjoint_def is_mine_def heap_region_def)
  qed
  then show ?thesis by (auto simp: find_by_address_def find_None_iff)
qed

definition held :: "memPool \<Rightarrow> mem_chunk \<Rightarrow> bool" where
  "held P c \<longleftrightarrow>
     owned P (ch_ptr c) (ch_capacity c) \<and>
     (ch_pool_type c = HEAP \<longrightarrow> heap_region P (ch_ptr c) (ch_capacity c))"

definition pool_inv :: "memPool \<Rightarrow> mem_chunk list \<Rightarrow> bool" where
  "pool_inv P H \<longleftrightarrow>
     pool_wf P \<and> (\<forall>c \<in> set H. held P c) \<and> distinct (map ch_ptr H) \<and>
     (\<forall>c \<in> set H. \<forall>i. ch_ptr c \<notin> ch_ptr ` set (bk_bucket (mp_bucket P i)))"

lemma pool_inv_not_free:
  "pool_inv P H \<Longrightarrow> d \<in> set H \<Longrightarrow> ch_ptr d \<notin> ch_ptr ` set (bk_bucket (mp_bucket P j))"
  by (simp add: pool_inv_def)

subsection \<open>Frame lemmas\<close>

lemma pool_stats_frame [simp]:
  "pool_wf (P\<lparr>mp_stats := st\<rparr>) = pool_wf P"
  "owned (P\<lparr>mp_stats := st\<rparr>) = owned P"
  "held (P\<lparr>mp_stats := st\<rparr>) = held P"
  "pool_inv (P\<lparr>mp_stats := st\<rparr>) H = pool_inv P H"
  "find_by_address (P\<lparr>mp_stats := st\<rparr>) = find_by_address P"
proof -
  show "pool_wf (P\<lparr>mp_stats := st\<rparr>) = pool_wf P"
    by (simp add: pool_wf_def buckets_wf_def)
  moreover show "owned (P\<lparr>mp_stats := st\<rparr>) = owned P"
    by (simp add: owned_def pool_slot_def heap_region_def fun_eq_iff)
  moreover show "held (P\<lparr>mp_stats := st\<rparr>) = held P"
    by (simp add: held_def owned_def pool_slot_def heap_region_def fun_eq_iff)
  ultimately show "pool_inv (P\<lparr>mp_stats := st\<rparr>) H = pool_inv P H"
    by (simp add: pool_inv_def)
  show "find_by_address (P\<lparr>mp_stats := st\<rparr>) = find_by_address P"
    by (simp add: find_by_address_def fun_eq_iff)
qed

lemma slot_stack [simp]: "slot (b\<lparr>bk_bucket := st\<rparr>) = slot b"
  by (simp add: slot_def fun_eq_iff)

lemma set_bucket_stack_fields [simp]:
  fixes st :: "mem_chunk list"
  defines "Q P i \<equiv> set_bucket P i ((mp_bucket P i)\<lparr>bk_bucket := st\<rparr>)"
  shows "bk_sz (mp_bucket (Q P i) j) = bk_sz (mp_bucket P j)"
    "bk_count (mp_bucket (Q P i) j) = bk_count (mp_bucket P j)"
    "bk_bigptr (mp_bucket (Q P i) j) = bk_bigptr (mp_bucket P j)"
    "slot (mp_bucket (Q P i) j) = slot (mp_bucket P j)"
    "bk_bucket (mp_bucket (Q P i) j) = (if j = i then st else bk_bucket (mp_bucket P j))"
    "mp_heap (Q P i) = mp_heap P" "mp_buckets (Q P i) = mp_buckets P"
    "mp_bailing (Q P i) = mp_bailing P" "mp_stats (Q P i) = mp_stats P"
  by (simp_all add: Q_def set_bucket_def slot_def)

lemma owned_set_stack [simp]:
  "pool_slot (set_bucket P i ((mp_bucket P i)\<lparr>bk_bucket := st\<rparr>)) = pool_slot P"
  "heap_region (set_bucket P i ((mp_bucket P i)\<lparr>bk_bucket := st\<rparr>)) = heap_region P"
  "owned (set_bucket P i ((mp_bucket P i)\<lparr>bk_bucket := st\<rparr>)) = owned P"
  "held (set_bucket P i ((mp_bucket P i)\<lparr>bk_bucket := st\<rparr>)) = held P"
  by (simp_all add: held_def owned_def pool_slot_def heap_region_def fun_eq_iff)

lemma pool_wf_set_stack:
  assumes "pool_wf P"
    and "\<And>c. c \<in> set st \<Longrightarrow> ch_capacity c = bk_sz (mp_bucket P i) \<and> ch_pool_type c = POOL \<and>
           ch_ptr c \<in> slot (mp_bucket P i) ` {..<bk_count (mp_bucket P i)}"
    and "distinct (map ch_ptr st)"
  shows "pool_wf (set_bucket P i ((mp_bucket P i)\<lparr>bk_bucket := st\<rparr>))"
proof -
  have "bucket_wf (mp_heap P) ((mp_bucket P i)\<lparr>bk_bucket := st\<rparr>)"
    using pool_wfD(4) [OF assms(1), of i] assms(2) unfolding bucket_wf_def by simp
  then have "\<forall>j. bucket_wf (mp_heap P)
      (mp_bucket (set_bucket P i ((mp_bucket P i)\<lparr>bk_bucket := st\<rparr>)) j)"
    using pool_wfD(4) [OF assms(1)] by (simp add: set_bucket_def)
  then show ?thesis
    using assms(1,3) by (simp add: pool_wf_def buckets_wf_def)
qed

lemma bucket_wf_mono:
  "bucket_wf h b \<Longrightarrow> set (blocks h) \<subseteq> set (blocks h') \<Longrightarrow> bucket_wf h' b"
  unfolding bucket_wf_def by blast

lemma pool_wf_heap:
  assumes "pool_wf P" and "heap_wf h'" and "\<not> ub h'"
    and "\<And>i. (bk_bigptr (mp_bucket P i), bk_allocated (mp_bucket P i)) \<in> set (blocks h')"
  shows "pool_wf (P\<lparr>mp_heap := h'\<rparr>)"
proof -
  have "bucket_wf h' (mp_bucket P i)" for i
    using pool_wfD(4) [OF assms(1), of i] assms(4) [of i] unfolding bucket_wf_def by blast
  with assms(1-3) show ?thesis by (auto simp: pool_wf_def buckets_wf_def)
qed

lemma pool_slot_heap [simp]: "pool_slot (P\<lparr>mp_heap := h'\<rparr>) = pool_slot P"
  by (simp add: pool_slot_def fun_eq_iff)

subsection \<open>Acquiring and releasing keep the invariant\<close>

lemma pick_bucket_find: "pick_bucket s = find (\<lambda>i. s \<le> bucket_chunk_size i) all_buckets"
  by (simp add: pick_bucket_def all_buckets_def)

lemma pick_bucket_fits: "pick_bucket s = Some i \<Longrightarrow> s \<le> bucket_chunk_size i"
  by (auto simp: pick_bucket_find find_Some_iff)

lemma pick_bucket_None: "pick_bucket s = None \<longleftrightarrow> 50 * 1024 < s"
  by (auto simp: pick_bucket_def)

lemma bucket_chunk_size_le: "bucket_chunk_size i \<le> 50 * 1024"
  by (cases i) simp_all

lemma tryhard_loop_none:
  "\<forall>i \<in> set is. bk_sz (mp_bucket P i) < s \<Longrightarrow> tryhard_loop P s lvl is = (None, P)"
  by (induction "is" arbitrary: lvl) auto

lemma tryhard_none:
  "pool_wf P \<Longrightarrow> 50 * 1024 < s \<Longrightarrow> tryhard_available P s = (None, P)"
  unfolding tryhard_available_def
  by (intro tryhard_loop_none ballI) (simp add: pool_wfD(3) le_less_trans [OF bucket_chunk_size_le])

lemma from_heap_inv:
  assumes "pool_inv P H" and "0 < s" and "from_heap P s = (c, P')"
  shows "pool_inv P' (c # H)" and "ch_capacity c = s" and "heap_region P' (ch_ptr c) s"
    and "mem (mp_heap P') = mem (mp_heap P)" and "mp_bucket P' = mp_bucket P"
proof -
  obtain p h where m: "malloc (mp_heap P) s = (p, h)" by (cases "malloc (mp_heap P) s")
  define Q where "Q = P\<lparr>mp_heap := h\<rparr>"
  obtain st where res: "c = \<lparr>ch_ptr = p, ch_capacity = s, ch_in_pool = False, ch_pool_type = HEAP\<rparr>"
      "P' = Q\<lparr>mp_stats := st\<rparr>"
    using assms(3) m by (auto simp: from_heap_def new_chunk_def Q_def Let_def)
  have wf: "pool_wf P" using assms(1) by (simp add: pool_inv_def)
  note mw = heap_wf_malloc [OF pool_wfD(1) [OF wf] m]
  have bl: "(bk_bigptr (mp_bucket P i), bk_allocated (mp_bucket P i)) \<in> set (blocks (mp_heap P))" for i
    by (rule bucket_wfD(3) [OF pool_wfD(4) [OF wf]])
  have Qwf: "pool_wf Q"
    unfolding Q_def using mw pool_wfD(2) [OF wf] bl by (intro pool_wf_heap [OF wf]) auto
  have fresh: "p \<noteq> bk_bigptr (mp_bucket P i)" for i
    using mw(3) bl [of i] by force
  have reg: "heap_region Q p s"
    using assms(2) mw(4) fresh by (simp add: heap_region_def Q_def)
  have mono: "heap_region P q n \<Longrightarrow> heap_region Q q n" for q n
    by (simp add: heap_region_def Q_def mw(4))
  have heldQ: "held P d \<Longrightarrow> held Q d" for d
    using mono by (auto simp: held_def owned_def Q_def)
  have other: "p \<noteq> q" if own: "owned P q n" for q n
  proof
    assume "p = q"
    obtain a l where al: "(a, l) \<in> set (blocks (mp_heap P))" "a \<le> q" "q + n \<le> a + l" "0 < n"
      using owned_in_block [OF wf own] by metis
    have "regions_disjoint p s a l"
      using blocks_ok_disjoint [of "blocks h" p s a l] mw(1,3,4) al(1) by (force simp: heap_wf_def)
    with al \<open>p = q\<close> assms(2) show False by (auto simp: regions_disjoint_def)
  qed
  have "p \<notin> ch_ptr ` set (bk_bucket (mp_bucket P i))" for i
    using other free_chunk_owned(1) [OF wf] by (auto simp: owned_def)
  moreover have "p \<noteq> ch_ptr d" if "d \<in> set H" for d
    using other assms(1) that by (auto simp: pool_inv_def held_def)
  ultimately have "pool_inv Q (c # H)"
    using Qwf reg assms(1) heldQ
    by (auto simp: pool_inv_def res held_def owned_def Q_def)
  then show "pool_inv P' (c # H)" by (simp add: res)
  show "ch_capacity c = s" by (simp add: res)
  show "heap_region P' (ch_ptr c) s" using reg by (simp add: res heap_region_def)
  show "mem (mp_heap P') = mem (mp_heap P)" and "mp_bucket P' = mp_bucket P"
    by (simp_all add: res Q_def mw(5))
qed

lemma bucket_acquire_inv:
  assumes "pool_inv P H" and "bk_bucket (mp_bucket P i) = c # rest"
  defines "P' \<equiv> set_bucket P i ((mp_bucket P i)\<lparr>bk_bucket := rest\<rparr>)"
  shows "pool_inv P' (c\<lparr>ch_in_pool := ip, ch_pool_type := POOL\<rparr> # H)"
proof -
  have wf: "pool_wf P" using assms(1) by (simp add: pool_inv_def)
  have cin: "c \<in> set (bk_bucket (mp_bucket P i))" by (simp add: assms(2))
  have ds: "distinct (map ch_ptr (c # rest))" using pool_wfD(8) [OF wf, of i] assms(2) by simp
  have "pool_wf P'"
    unfolding P'_def using ds bucket_wf_chunk [OF pool_wfD(4) [OF wf, of i]] assms(2)
    by (intro pool_wf_set_stack [OF wf]) auto
  moreover have "ch_ptr c \<notin> ch_ptr ` set (bk_bucket (mp_bucket P j))" if "j \<noteq> i" for j
  proof
    assume "ch_ptr c \<in> ch_ptr ` set (bk_bucket (mp_bucket P j))"
    then obtain d where d: "d \<in> set (bk_bucket (mp_bucket P j))" "ch_ptr c = ch_ptr d" by auto
    obtain k where k: "k < bk_count (mp_bucket P i)" "ch_ptr c = slot (mp_bucket P i) k"
      using bucket_wf_chunk [OF pool_wfD(4) [OF wf] cin] by auto
    obtain l where l: "l < bk_count (mp_bucket P j)" "ch_ptr d = slot (mp_bucket P j) l"
      using bucket_wf_chunk [OF pool_wfD(4) [OF wf] d(1)] by auto
    show False
      using find_by_address_slot [OF wf k(1)] find_by_address_slot [OF wf l(1)] k(2) l(2) d(2) that
      by simp
  qed
  moreover have "ch_ptr c \<notin> ch_ptr ` set rest" using ds by simp
  moreover have "ch_ptr c \<notin> ch_ptr ` set H"
    using assms(1) cin unfolding pool_inv_def by (metis imageE image_eqI)
  moreover have "held P (c\<lparr>ch_in_pool := ip, ch_pool_type := POOL\<rparr>)"
    using free_chunk_owned(1) [OF wf cin] by (simp add: held_def owned_def)
  moreover have "ch_ptr d \<notin> ch_ptr ` set (bk_bucket (mp_bucket P' j))" if "d \<in> set H" for d j
  proof -
    have "set (bk_bucket (mp_bucket P' j)) \<subseteq> set (bk_bucket (mp_bucket P j))"
      using assms(2) by (auto simp: P'_def)
    moreover have "ch_ptr d \<notin> ch_ptr ` set (bk_bucket (mp_bucket P j))"
      using assms(1) that by (simp add: pool_inv_def)
    ultimately show ?thesis by (metis image_mono subsetD)
  qed
  ultimately show ?thesis
    using assms(1) by (auto simp: pool_inv_def P'_def)
qed

lemma acquire_inv:
  assumes "pool_inv P H" and "0 < s" and "acquire P s = (c, P')"
  shows "pool_inv P' (c # H) \<and> s \<le> ch_capacity c \<and> mem (mp_heap P') = mem (mp_heap P)"
proof (cases "pick_bucket s")
  case None
  then have "tryhard_available P s = (None, P)"
    using assms(1) by (intro tryhard_none) (simp_all add: pick_bucket_None pool_inv_def)
  with None have fh: "from_heap P s = (c, P')"
    using assms(2,3) by (simp add: acquire_def)
  from from_heap_inv [OF assms(1,2) fh] show ?thesis by simp
next
  case (Some i)
  show ?thesis
  proof (cases "bk_bucket (mp_bucket P i)")
    case Nil
    with Some assms(2,3) have fh: "from_heap P s = (c, P')"
      by (simp add: acquire_def Bucket_acquire_def)
    from from_heap_inv [OF assms(1,2) fh] show ?thesis by simp
  next
    case (Cons d rest)
    let ?Q = "set_bucket P i ((mp_bucket P i)\<lparr>bk_bucket := rest\<rparr>)"
    have res: "c = d\<lparr>ch_in_pool := False, ch_pool_type := POOL\<rparr>" "P' = count_acq ?Q (ch_capacity d)"
      using Some Cons assms(2,3) by (auto simp: acquire_def Bucket_acquire_def)
    have "ch_capacity d = bucket_chunk_size i"
      using free_chunk_owned(2) [of P d i] assms(1) Cons by (simp add: pool_inv_def)
    then show ?thesis
      using bucket_acquire_inv [OF assms(1) Cons] pick_bucket_fits [OF Some]
      by (simp add: res count_acq_def Let_def)
  qed
qed


lemma release_slot_inv:
  assumes "pool_inv P H" and "c \<in> set H" and "pool_slot P (ch_ptr c) (ch_capacity c)"
    and "ch_ptr c' = ch_ptr c" and "ch_capacity c' = ch_capacity c" and "ch_pool_type c' = POOL"
  shows "pool_inv (release P c') (remove1 c H)" and "mp_heap (release P c') = mp_heap P"
proof -
  have wf: "pool_wf P" using assms(1) by (simp add: pool_inv_def)
  obtain i k where ik: "k < bk_count (mp_bucket P i)" "ch_ptr c = slot (mp_bucket P i) k"
      "ch_capacity c = bk_sz (mp_bucket P i)"
    using assms(3) by (auto simp: pool_slot_def)
  have pos: "0 < ch_ptr c" using owned_positive(1) [OF wf] assms(3) by (auto simp: owned_def)
  have mine: "is_mine (mp_bucket P i) (ch_ptr c)"
    using slot_in_bucket [OF pool_wfD(4) [OF wf] ik(1)] ik(2) by (simp add: is_mine_def)
  let ?st = "c'\<lparr>ch_in_pool := True\<rparr> # bk_bucket (mp_bucket P i)"
  let ?Q = "set_bucket P i ((mp_bucket P i)\<lparr>bk_bucket := ?st\<rparr>)"
  define st where "st = mp_stats (release P c')"
  have rel: "release P c' = ?Q\<lparr>mp_stats := st\<rparr>"
    using find_by_address_slot [OF wf ik(1)] ik(2) assms(4,6) pos pool_wfD(6) [OF wf] mine
    by (simp add: st_def release_def Bucket_release_def Let_def set_bucket_def)
  have notin: "ch_ptr c \<notin> ch_ptr ` set (bk_bucket (mp_bucket P j))" for j
    using assms(1,2) by (auto simp: pool_inv_def)
  have Qwf: "pool_wf ?Q"
  proof (rule pool_wf_set_stack [OF wf])
    fix d assume "d \<in> set ?st"
    then show "ch_capacity d = bk_sz (mp_bucket P i) \<and> ch_pool_type d = POOL \<and>
        ch_ptr d \<in> slot (mp_bucket P i) ` {..<bk_count (mp_bucket P i)}"
      using bucket_wf_chunk [OF pool_wfD(4) [OF wf, of i]] ik assms(4-6) by auto
  next
    show "distinct (map ch_ptr ?st)"
      using notin [of i] pool_wfD(8) [OF wf, of i] assms(4) by simp
  qed
  have dH: "distinct H" using assms(1) by (simp add: pool_inv_def distinct_map)
  have ne: "ch_ptr d \<noteq> ch_ptr c" if "d \<in> set (remove1 c H)" for d
    using that assms(1,2) dH by (auto simp: pool_inv_def distinct_map inj_on_def)
  have sub: "set (remove1 c H) \<subseteq> set H" by (rule set_remove1_subset)
  have "distinct (map ch_ptr (remove1 c H))"
    using assms(1) by (auto simp: pool_inv_def distinct_map distinct_remove1 inj_on_def)
  moreover have "ch_ptr d \<notin> ch_ptr ` set (bk_bucket (mp_bucket ?Q j))"
    if "d \<in> set (remove1 c H)" for d j
  proof -
    have "ch_ptr d \<notin> ch_ptr ` set (bk_bucket (mp_bucket P j))"
      using pool_inv_not_free [OF assms(1)] that sub by blast
    then show ?thesis using ne [OF that] assms(4) by (cases "j = i") simp_all
  qed
  moreover have "\<forall>d \<in> set (remove1 c H). held ?Q d"
    using assms(1) sub unfolding owned_set_stack by (auto simp: pool_inv_def)
  ultimately have "pool_inv ?Q (remove1 c H)"
    using Qwf unfolding pool_inv_def by blast
  then show "pool_inv (release P c') (remove1 c H)" by (simp add: rel)
  show "mp_heap (release P c') = mp_heap P" by (simp add: rel)
qed

lemma release_heap_inv:
  assumes "pool_inv P H" and "c \<in> set H" and "heap_region P (ch_ptr c) (ch_capacity c)"
    and "ch_ptr c' = ch_ptr c"
  shows "pool_inv (release P c') (remove1 c H)" and "mem (mp_heap (release P c')) = mem (mp_heap P)"
proof -
  have wf: "pool_wf P" using assms(1) by (simp add: pool_inv_def)
  let ?h = "mfree (mp_heap P) (ch_ptr c)"
  let ?Q = "P\<lparr>mp_heap := ?h\<rparr>"
  have pos: "0 < ch_ptr c" using owned_positive(1) [OF wf] assms(3) by (auto simp: owned_def)
  define st where "st = mp_stats (release P c')"
  have rel: "release P c' = ?Q\<lparr>mp_stats := st\<rparr>"
    using find_by_address_heap [OF wf assms(3)] assms(4) pos pool_wfD(6) [OF wf]
    by (cases "ch_pool_type c'") (simp_all add: st_def release_def free_heap_def Let_def)
  have live: "ch_ptr c \<in> set (map fst (blocks (mp_heap P)))"
    using assms(3) by (force simp: heap_region_def)
  have bl: "blocks ?h = filter (\<lambda>(a, l). a \<noteq> ch_ptr c) (blocks (mp_heap P))" "\<not> ub ?h"
    using pos live pool_wfD(2) [OF wf] by (auto simp: mfree_def)
  have "(bk_bigptr (mp_bucket P i), bk_allocated (mp_bucket P i)) \<in> set (blocks ?h)" for i
    using bucket_wfD(3) [OF pool_wfD(4) [OF wf, of i]] assms(3) bl
    by (simp add: heap_region_def) metis
  then have Qwf: "pool_wf ?Q"
    using bl(2) pool_wfD(1) [OF wf] by (intro pool_wf_heap [OF wf]) auto
  have dH: "distinct H" using assms(1) by (simp add: pool_inv_def distinct_map)
  have ne: "ch_ptr d \<noteq> ch_ptr c" if "d \<in> set (remove1 c H)" for d
    using that assms(1,2) dH by (auto simp: pool_inv_def distinct_map inj_on_def)
  have sub: "set (remove1 c H) \<subseteq> set H" by (rule set_remove1_subset)
  have keep: "heap_region P q n \<Longrightarrow> q \<noteq> ch_ptr c \<Longrightarrow> heap_region ?Q q n" for q n
    by (simp add: heap_region_def bl(1))
  have "held ?Q d" if "d \<in> set (remove1 c H)" for d
    using that ne [OF that] sub assms(1) keep by (auto simp: pool_inv_def held_def owned_def)
  moreover have "distinct (map ch_ptr (remove1 c H))"
    using assms(1) by (auto simp: pool_inv_def distinct_map distinct_remove1 inj_on_def)
  moreover have "ch_ptr d \<notin> ch_ptr ` set (bk_bucket (mp_bucket ?Q j))"
    if "d \<in> set (remove1 c H)" for d j
    using pool_inv_not_free [OF assms(1), of d j] that sub by (simp add: subset_iff)
  ultimately have "pool_inv ?Q (remove1 c H)"
    using Qwf unfolding pool_inv_def by blast
  then show "pool_inv (release P c') (remove1 c H)" by (simp add: rel)
  show "mem (mp_heap (release P c')) = mem (mp_heap P)" by (simp add: rel mfree_def)
qed

lemma release_inv:
  assumes "pool_inv P H" and "c \<in> set H" and "ch_ptr c' = ch_ptr c"
    and "ch_capacity c' = ch_capacity c" and "c' = c \<or> ch_pool_type c' = POOL"
  shows "pool_inv (release P c') (remove1 c H)" and "mem (mp_heap (release P c')) = mem (mp_heap P)"
proof -
  have "held P c" using assms(1,2) by (simp add: pool_inv_def)
  then consider "heap_region P (ch_ptr c) (ch_capacity c)"
    | "pool_slot P (ch_ptr c) (ch_capacity c)" "ch_pool_type c' = POOL"
    using assms(5) by (auto simp: held_def owned_def) (metis pool_type_t.exhaust)
  then have "pool_inv (release P c') (remove1 c H) \<and>
             mem (mp_heap (release P c')) = mem (mp_heap P)"
    using release_heap_inv [OF assms(1,2) _ assms(3)] release_slot_inv [OF assms(1,2) _ assms(3,4)]
    by cases auto
  then show "pool_inv (release P c') (remove1 c H)"
    and "mem (mp_heap (release P c')) = mem (mp_heap P)" by simp_all
qed


subsection \<open>The constructor establishes the invariant\<close>

lemma pool_init_bucket_wf:
  assumes "buckets_wf P D" and "i \<notin> D" and "Q = pool_init_bucket P (i, n)"
  shows "buckets_wf Q (insert i D)" and "mp_bailing Q = mp_bailing P"
    and "bk_count (mp_bucket Q i) = n" and "length (bk_bucket (mp_bucket Q i)) = n"
    and "j \<noteq> i \<Longrightarrow> mp_bucket Q j = mp_bucket P j"
proof -
  let ?b = "mp_bucket P i"
  obtain h' b' where im: "init_memory 0 (mp_heap P) ?b n = (h', b')" by force
  have Q: "Q = (set_bucket P i b')\<lparr>mp_heap := h'\<rparr>"
    using assms(3) im by (simp add: pool_init_bucket_def)
  have pre: "heap_wf (mp_heap P)" "\<not> ub (mp_heap P)" "0 < bk_sz ?b" "bk_bucket ?b = []"
    using assms(1,2) by (simp_all add: buckets_wf_def)
  note r = init_memory_result [OF pre im]
  have "bk_bigptr b' \<noteq> bk_bigptr (mp_bucket P j)" if "j \<in> D" for j
    using that assms(1) r(6) bucket_wfD(3) by (force simp: buckets_wf_def)
  then have "\<forall>j \<in> D. bk_bigptr b' \<noteq> bk_bigptr (mp_bucket P j) \<and> bk_bigptr (mp_bucket P j) \<noteq> bk_bigptr b'"
    by metis
  moreover have "bucket_wf h' (mp_bucket P j)" if "j \<in> D" for j
    using that assms(1) r(5) bucket_wf_mono [of "mp_heap P" _ h'] by (auto simp: buckets_wf_def)
  moreover have "distinct (map ch_ptr (bk_bucket b'))"
    unfolding r(1) using pre(3) r(2)
    by (simp add: distinct_map inj_on_def chunk_of_def slot_def comp_def rev_map)
  ultimately show "buckets_wf Q (insert i D)"
    using assms(1,2) r(2,7,8,9)
    by (auto simp: buckets_wf_def Q set_bucket_def inj_on_def)
  show "mp_bailing Q = mp_bailing P" "bk_count (mp_bucket Q i) = n"
    "length (bk_bucket (mp_bucket Q i)) = n" "j \<noteq> i \<Longrightarrow> mp_bucket Q j = mp_bucket P j"
    by (simp_all add: Q set_bucket_def r(1,3))
qed

lemma foldl_init_wf:
  assumes "buckets_wf P D" and "distinct (map fst xs)" and "fst ` set xs \<inter> D = {}"
    and "Q = foldl pool_init_bucket P xs"
  shows "buckets_wf Q (D \<union> fst ` set xs) \<and> mp_bailing Q = mp_bailing P \<and>
         (\<forall>(i, n) \<in> set xs. length (bk_bucket (mp_bucket Q i)) = n \<and> bk_count (mp_bucket Q i) = n) \<and>
         (\<forall>j. j \<notin> fst ` set xs \<longrightarrow> mp_bucket Q j = mp_bucket P j)"
  using assms
proof (induction xs arbitrary: P D)
  case Nil
  then show ?case by simp
next
  case (Cons x xs)
  obtain i n where x: "x = (i, n)" by (cases x)
  let ?P1 = "pool_init_bucket P (i, n)"
  have i: "i \<notin> D" using Cons.prems(3) x by auto
  note r = pool_init_bucket_wf [OF Cons.prems(1) i refl, where n = n]
  have "fst ` set xs \<inter> insert i D = {}" and ni: "i \<notin> fst ` set xs"
    using Cons.prems(2,3) x by auto
  with Cons.IH [OF r(1), of ] Cons.prems(2,4) x
  have IH: "buckets_wf Q (insert i D \<union> fst ` set xs) \<and> mp_bailing Q = mp_bailing ?P1 \<and>
      (\<forall>(i, n) \<in> set xs. length (bk_bucket (mp_bucket Q i)) = n \<and> bk_count (mp_bucket Q i) = n) \<and>
      (\<forall>j. j \<notin> fst ` set xs \<longrightarrow> mp_bucket Q j = mp_bucket ?P1 j)"
    by simp
  then have "mp_bucket Q i = mp_bucket ?P1 i" using ni by simp
  with IH r(2,3,4,5) x show ?case by (auto simp: Un_insert_left)
qed

lemma allocate_inv:
  assumes "heap_wf h" and "\<not> ub h"
    and "Q = allocate (raw_memPool h) n256 n1k n5k n10k n20k"
  shows "pool_inv Q []"
    and "(i, n) \<in> set (bucket_counts n256 n1k n5k n10k n20k) \<Longrightarrow>
           length (bk_bucket (mp_bucket Q i)) = n \<and> bk_count (mp_bucket Q i) = n"
proof -
  let ?xs = "bucket_counts n256 n1k n5k n10k n20k"
  have raw: "buckets_wf (raw_memPool h) {}"
    using assms(1,2) by (simp add: buckets_wf_def raw_memPool_def new_Bucket_def)
  have dom: "fst ` set ?xs = UNIV" "distinct (map fst ?xs)"
    using set_all_buckets by (simp_all add: bucket_counts_def all_buckets_def)
  obtain R where R: "R = foldl pool_init_bucket (raw_memPool h) ?xs" by simp
  have Q: "Q = R\<lparr>mp_buckets := all_buckets\<rparr>" using assms(3) R by (simp add: allocate_def)
  note r = foldl_init_wf [OF raw dom(2) _ R]
  show "pool_inv Q []"
    using r dom(1) by (simp add: Q pool_inv_def pool_wf_def buckets_wf_def raw_memPool_def)
  show "(i, n) \<in> set ?xs \<Longrightarrow>
      length (bk_bucket (mp_bucket Q i)) = n \<and> bk_count (mp_bucket Q i) = n"
    using r by (auto simp: Q)
qed

lemma memPool_ctor_inv:
  assumes "heap_wf h" and "\<not> ub h"
  shows "pool_inv (memPool_ctor h env a b c d e) []"
proof -
  define Q where "Q = allocate (raw_memPool h) (a * get_env_size env) (b * get_env_size env)
    (c * get_env_size env) (d * get_env_size env) (e * get_env_size env)"
  have "pool_inv Q []" by (rule allocate_inv(1) [OF assms Q_def])
  then show ?thesis
    by (simp add: memPool_ctor_def Let_def Q_def [symmetric] pool_inv_def pool_wf_def buckets_wf_def)
qed

subsection \<open>Runs of the pool\<close>

text \<open>A run: the pool starts in its constructor's state; at each step a client acquires a chunk or
  gives one it holds back, either as the chunk it got or, as \<^verbatim>\<open>buffer\<close> and \<open>mempool_free\<close> do,
  rebuilt from its pointer and its capacity. \<open>H\<close> lists the chunks handed out.\<close>

inductive pool_run :: "memPool \<Rightarrow> mem_chunk list \<Rightarrow> bool" where
  start: "heap_wf h \<Longrightarrow> \<not> ub h \<Longrightarrow> pool_run (memPool_ctor h env a b c d e) []"
| acquire_step: "pool_run P H \<Longrightarrow> 0 < s \<Longrightarrow> acquire P s = (ch, P') \<Longrightarrow> pool_run P' (ch # H)"
| release_step: "pool_run P H \<Longrightarrow> ch \<in> set H \<Longrightarrow> pool_run (release P ch) (remove1 ch H)"
| rebuilt_step: "pool_run P H \<Longrightarrow> ch \<in> set H \<Longrightarrow>
    pool_run (release P (chunk_of (ch_ptr ch) (ch_capacity ch))) (remove1 ch H)"

lemma pool_run_inv: "pool_run P H \<Longrightarrow> pool_inv P H"
proof (induction rule: pool_run.induct)
  case (start h env a b c d e)
  then show ?case by (rule memPool_ctor_inv)
next
  case (acquire_step P H s ch P')
  then show ?case using acquire_inv by blast
next
  case (release_step P H ch)
  then show ?case by (intro release_inv(1)) auto
next
  case (rebuilt_step P H ch)
  then show ?case by (intro release_inv(1)) (auto simp: chunk_of_def)
qed

primrec separated :: "(nat \<times> nat) list \<Rightarrow> bool" where
  "separated [] = True"
| "separated (x # xs) =
     (list_all (\<lambda>y. regions_disjoint (fst x) (snd x) (fst y) (snd y)) xs \<and> separated xs)"

lemma separatedI:
  assumes "distinct (map f xs)"
    and "\<And>x y. x \<in> set xs \<Longrightarrow> y \<in> set xs \<Longrightarrow> f x \<noteq> f y \<Longrightarrow> regions_disjoint (f x) (g x) (f y) (g y)"
  shows "separated (map (\<lambda>x. (f x, g x)) xs)"
  using assms by (induction xs) (force simp: list_all_iff)+


lemma pool_inv_separated:
  assumes "pool_inv P H"
  shows "separated (map (\<lambda>c. (ch_ptr c, ch_capacity c)) H)"
  using assms by (intro separatedI) (auto simp: pool_inv_def held_def intro: owned_disjoint)

lemma pool_inv_mem:
  assumes "pool_inv P H" and "blocks h' = blocks (mp_heap P)" and "mallocf h' = mallocf (mp_heap P)"
    and "\<not> ub h'"
  shows "pool_inv (P\<lparr>mp_heap := h'\<rparr>) H"
proof -
  have wf: "pool_wf P" using assms(1) by (simp add: pool_inv_def)
  have "heap_wf h'" using pool_wfD(1) [OF wf] assms(2,3) by (simp add: heap_wf_def)
  then have "pool_wf (P\<lparr>mp_heap := h'\<rparr>)"
    using assms(2,4) bucket_wfD(3) [OF pool_wfD(4) [OF wf]] by (intro pool_wf_heap [OF wf]) auto
  moreover have "heap_region (P\<lparr>mp_heap := h'\<rparr>) = heap_region P"
    by (simp add: heap_region_def assms(2) fun_eq_iff)
  then have "held (P\<lparr>mp_heap := h'\<rparr>) = held P"
    by (simp add: held_def owned_def fun_eq_iff)
  ultimately show ?thesis using assms(1) by (simp add: pool_inv_def)
qed

lemma find_ptr_size_eq:
  "find_ptr_size P p = (case find_by_address P p of Some i \<Rightarrow> bk_sz (mp_bucket P i) | None \<Rightarrow> 0)"
  by (simp add: find_ptr_size_def find_by_address_def)

lemma find_ptr_size_slot:
  "pool_wf P \<Longrightarrow> pool_slot P p n \<Longrightarrow> find_ptr_size P p = n"
  by (auto simp: find_ptr_size_eq pool_slot_def find_by_address_slot)

lemma find_ptr_size_heap: "pool_wf P \<Longrightarrow> heap_region P p n \<Longrightarrow> find_ptr_size P p = 0"
  by (simp add: find_ptr_size_eq find_by_address_heap)

lemma held_ptr_pos: "pool_inv P H \<Longrightarrow> c \<in> set H \<Longrightarrow> 0 < ch_ptr c \<and> 0 < ch_capacity c"
  using owned_positive by (fastforce simp: pool_inv_def held_def)

lemma held_disjoint:
  assumes "pool_inv P (c # H)" and "d \<in> set H"
  shows "regions_disjoint (ch_ptr c) (ch_capacity c) (ch_ptr d) (ch_capacity d)"
proof (rule owned_disjoint)
  show "pool_wf P" and "owned P (ch_ptr c) (ch_capacity c)" and "owned P (ch_ptr d) (ch_capacity d)"
    using assms by (simp_all add: pool_inv_def held_def)
  show "ch_ptr c \<noteq> ch_ptr d" using assms by (auto simp: pool_inv_def)
qed

lemma realloc_slot:
  assumes inv: "pool_inv (pool E) H" and c: "c \<in> set H"
    and slot: "pool_slot (pool E) (ch_ptr c) (ch_capacity c)"
    and env: "use_pool E" and n: "ch_capacity c < n"
    and r: "mempool_realloc E (ch_ptr c) n = (q, E')"
  shows "load (mp_heap (pool E')) q (ch_capacity c) =
           load (mp_heap (pool E)) (ch_ptr c) (ch_capacity c)"
    and "\<exists>d. ch_ptr d = q \<and> n \<le> ch_capacity d \<and> pool_inv (pool E') (d # remove1 c H)"
proof -
  have wf: "pool_wf (pool E)" using inv by (simp add: pool_inv_def)
  have nb: "\<not> mp_bailing (pool E)" using pool_wfD(6) [OF wf] .
  note fps = find_ptr_size_slot [OF wf slot]
  have p0: "0 < ch_ptr c" "0 < ch_capacity c" using held_ptr_pos [OF inv c] by simp_all
  obtain d P where aq: "acquire (pool E) n = (d, P)" by force
  have aqi: "pool_inv P (d # H)" "n \<le> ch_capacity d" "mem (mp_heap P) = mem (mp_heap (pool E))"
    using acquire_inv [OF inv _ aq] n by auto
  have d0: "0 < ch_ptr d" using held_ptr_pos [OF aqi(1)] by simp
  let ?h = "memcpy (mp_heap P) (ch_ptr d) (ch_ptr c) (ch_capacity c)"
  let ?P = "P\<lparr>mp_heap := ?h\<rparr>"
  have wfP: "pool_wf P" using aqi(1) by (simp add: pool_inv_def)
  have own: "owned P (ch_ptr d) (ch_capacity d)" "owned P (ch_ptr c) (ch_capacity c)"
    using aqi(1) c by (simp_all add: pool_inv_def held_def)
  have dis: "regions_disjoint (ch_ptr d) (ch_capacity c) (ch_ptr c) (ch_capacity c)"
    using held_disjoint [OF aqi(1) c] by (rule regions_disjoint_sub) (use n aqi(2) in auto)
  have acc: "accessible (mp_heap P) (ch_ptr d) (ch_capacity c)"
    using owned_accessible [OF wfP own(1)] by (rule accessible_sub) (use n aqi(2) in auto)
  have ub: "\<not> ub ?h"
    using dis acc owned_accessible [OF wfP own(2)] pool_wfD(2) [OF wfP] by (simp add: memcpy_def)
  have invP: "pool_inv ?P (d # H)"
    using ub by (intro pool_inv_mem [OF aqi(1)]) (simp_all add: memcpy_def)
  let ?Q = "release ?P (chunk_of (ch_ptr c) (ch_capacity c))"
  have dc: "d \<noteq> c" using aqi(1) c by (auto simp: pool_inv_def)
  have rel: "pool_inv ?Q (d # remove1 c H)" "mem (mp_heap ?Q) = mem ?h"
    using release_inv [OF invP, of c "chunk_of (ch_ptr c) (ch_capacity c)"] c dc
    by (simp_all add: chunk_of_def)
  have res: "q = ch_ptr d" "pool E' = ?Q"
    using r n env nb fps p0 d0 aq by (auto simp: mempool_realloc_def Let_def on_heap_def realloc_miss_def)
  have "load (mp_heap (pool E')) q (ch_capacity c) = load ?h (ch_ptr d) (ch_capacity c)"
    unfolding res by (rule load_mem_eq [OF rel(2)])
  also have "\<dots> = load (mp_heap (pool E)) (ch_ptr c) (ch_capacity c)"
    using load_mem_eq [OF aqi(3)] by simp
  finally show "load (mp_heap (pool E')) q (ch_capacity c) =
      load (mp_heap (pool E)) (ch_ptr c) (ch_capacity c)" .
  show "\<exists>d. ch_ptr d = q \<and> n \<le> ch_capacity d \<and> pool_inv (pool E') (d # remove1 c H)"
    using rel(1) aqi(2) unfolding res by (intro exI [of _ d]) simp
qed

lemma is_mine_stack [simp]: "is_mine (b\<lparr>bk_bucket := st\<rparr>) = is_mine b"
  by (simp add: is_mine_def fun_eq_iff)

lemma acquire_is_mine:
  assumes "pool_wf P" and "acquire P n = (c, P')"
  shows "is_mine (mp_bucket P' i) = is_mine (mp_bucket P i)"
proof -
  have "50 * 1024 < n \<Longrightarrow> tryhard_available P n = (None, P)" by (rule tryhard_none [OF assms(1)])
  then show ?thesis
    using assms(2)
    by (auto simp: acquire_def from_heap_def new_chunk_def Let_def Bucket_acquire_def count_acq_def
        set_bucket_def pick_bucket_None split: option.splits prod.splits list.splits if_splits)
qed

lemma realloc_heap:
  assumes inv: "pool_inv (pool E) H" and c: "c \<in> set H"
    and reg: "heap_region (pool E) (ch_ptr c) (ch_capacity c)"
    and env: "use_pool E" and n: "0 < n"
    and r: "mempool_realloc E (ch_ptr c) n = (q, E')"
  shows "mem (mp_heap (pool E')) = mem (mp_heap (pool E))" and "q \<noteq> ch_ptr c"
    and "stat_mempool_realloc_miss (mps E') = stat_mempool_realloc_miss (mps E) + 1"
proof -
  have wf: "pool_wf (pool E)" using inv by (simp add: pool_inv_def)
  have nb: "\<not> mp_bailing (pool E)" using pool_wfD(6) [OF wf] .
  note fps = find_ptr_size_heap [OF wf reg]
  have p0: "0 < ch_ptr c" using held_ptr_pos [OF inv c] by simp
  obtain d P where aq: "acquire (pool E) n = (d, P)" by force
  have aqi: "pool_inv P (d # H)" "mem (mp_heap P) = mem (mp_heap (pool E))"
    using acquire_inv [OF inv n aq] by auto
  have d0: "0 < ch_ptr d" using held_ptr_pos [OF aqi(1)] by simp
  let ?Q = "release P (chunk_of (ch_ptr c) 0)"
  have dc: "ch_ptr d \<noteq> ch_ptr c" using aqi(1) c by (auto simp: pool_inv_def)
  have heldc: "held P c" and wfP: "pool_wf P" using aqi(1) c by (simp_all add: pool_inv_def)
  have regP: "find_by_address P (ch_ptr c) = None"
    using find_by_address_heap [OF wf reg] pool_wfD(5) [OF wf] pool_wfD(5) [OF wfP]
    by (simp add: find_by_address_def acquire_is_mine [OF wf aq])
  have rel: "mem (mp_heap ?Q) = mem (mp_heap P)"
    using regP p0 by (simp add: release_def free_heap_def Let_def chunk_of_def mfree_def)
  have res: "q = ch_ptr d" "pool E' = ?Q"
      "stat_mempool_realloc_miss (mps E') = stat_mempool_realloc_miss (mps E) + 1"
    using r n env nb fps p0 d0 aq
    by (auto simp: mempool_realloc_def Let_def on_heap_def realloc_miss_def)
  show "mem (mp_heap (pool E')) = mem (mp_heap (pool E))" using res(2) rel aqi(2) by simp
  show "q \<noteq> ch_ptr c" using res(1) dc by simp
  show "stat_mempool_realloc_miss (mps E') = stat_mempool_realloc_miss (mps E) + 1" by (rule res(3))
qed


subsection \<open>No chunk is lost\<close>

definition handed_out :: "Bucket \<Rightarrow> mem_chunk list \<Rightarrow> nat" where
  "handed_out b H = length (filter (\<lambda>c. is_mine b (ch_ptr c)) H)"

definition balanced :: "memPool \<Rightarrow> mem_chunk list \<Rightarrow> bool" where
  "balanced P H \<longleftrightarrow>
     (\<forall>i. length (bk_bucket (mp_bucket P i)) + handed_out (mp_bucket P i) H = bk_count (mp_bucket P i))"

lemma is_mine_slot_iff:
  assumes "pool_wf P" and "k < bk_count (mp_bucket P i)"
  shows "is_mine (mp_bucket P j) (slot (mp_bucket P i) k) \<longleftrightarrow> j = i"
proof
  assume m: "is_mine (mp_bucket P j) (slot (mp_bucket P i) k)"
  show "j = i"
  proof (rule ccontr)
    assume "j \<noteq> i"
    then have ne: "bk_bigptr (mp_bucket P j) \<noteq> bk_bigptr (mp_bucket P i)"
      using pool_wfD(7) [OF assms(1)] by metis
    note bw = bucket_wfD [OF pool_wfD(4) [OF assms(1), of j]]
    have "regions_disjoint (slot (mp_bucket P i) k) (bk_sz (mp_bucket P i)) (slot (mp_bucket P i) k) 1"
      using m bw by (intro slot_bucket_disjoint [OF assms bw(3) ne]) (auto simp: is_mine_def)
    then show False
      using bucket_wfD(1) [OF pool_wfD(4) [OF assms(1), of i]] by (simp add: regions_disjoint_def)
  qed
next
  assume "j = i"
  then show "is_mine (mp_bucket P j) (slot (mp_bucket P i) k)"
    using slot_in_bucket [OF pool_wfD(4) [OF assms(1)] assms(2)] by (simp add: is_mine_def)
qed

lemma is_mine_heap:
  "pool_wf P \<Longrightarrow> heap_region P p n \<Longrightarrow> \<not> is_mine (mp_bucket P i) p"
  using find_by_address_heap [of P p n] by (auto simp: find_by_address_def find_None_iff pool_wfD(5))

lemma acquire_cases:
  assumes "pool_wf P" and "0 < s" and "acquire P s = (c, P')"
  obtains (heap) "from_heap P s = (c, P')"
  | (bucket) i d rest where "bk_bucket (mp_bucket P i) = d # rest"
      "c = d\<lparr>ch_in_pool := False, ch_pool_type := POOL\<rparr>"
      "P' = count_acq (set_bucket P i ((mp_bucket P i)\<lparr>bk_bucket := rest\<rparr>)) (ch_capacity d)"
proof (cases "pick_bucket s")
  case None
  then have "tryhard_available P s = (None, P)"
    using assms(1) by (intro tryhard_none) (simp_all add: pick_bucket_None)
  with None assms(2,3) heap show ?thesis by (simp add: acquire_def)
next
  case (Some i)
  with assms(2,3) heap bucket show ?thesis
    by (cases "bk_bucket (mp_bucket P i)") (auto simp: acquire_def Bucket_acquire_def)
qed

lemma balanced_acquire:
  assumes inv: "pool_inv P H" and bal: "balanced P H" and s: "0 < s" and a: "acquire P s = (c, P')"
  shows "balanced P' (c # H)"
proof -
  have wf: "pool_wf P" using inv by (simp add: pool_inv_def)
  from wf s a show ?thesis
  proof (cases rule: acquire_cases)
    case heap
    note fh = from_heap_inv [OF inv s heap]
    have "pool_wf P'" using fh(1) by (simp add: pool_inv_def)
    then have "\<not> is_mine (mp_bucket P' i) (ch_ptr c)" for i
      using is_mine_heap fh(3) by blast
    with bal show ?thesis by (simp add: balanced_def handed_out_def fh(5))
  next
    case (bucket i d rest)
    then have "d \<in> set (bk_bucket (mp_bucket P i))" by simp
    then obtain k where "k < bk_count (mp_bucket P i)" "ch_ptr d = slot (mp_bucket P i) k"
      using bucket_wf_chunk [OF pool_wfD(4) [OF wf]] by blast
    then have mine: "is_mine (mp_bucket P j) (ch_ptr d) \<longleftrightarrow> j = i" for j
      using is_mine_slot_iff [OF wf] by simp
    have "length (bk_bucket (mp_bucket P j)) + handed_out (mp_bucket P j) H
          = bk_count (mp_bucket P j)" for j
      using bal by (simp add: balanced_def)
    from this [of i] this show ?thesis
      using bucket mine
      by (auto simp: balanced_def handed_out_def count_acq_def Let_def set_bucket_def)
  qed
qed

lemma handed_out_remove1:
  "c \<in> set H \<Longrightarrow> handed_out b (remove1 c H) + (if is_mine b (ch_ptr c) then 1 else 0) = handed_out b H"
  by (induction H) (auto simp: handed_out_def)

lemma balanced_release:
  assumes inv: "pool_inv P H" and bal: "balanced P H" and c: "c \<in> set H"
    and c': "ch_ptr c' = ch_ptr c" "c' = c \<or> ch_pool_type c' = POOL"
  shows "balanced (release P c') (remove1 c H)"
proof -
  have wf: "pool_wf P" using inv by (simp add: pool_inv_def)
  have pos: "0 < ch_ptr c" using held_ptr_pos [OF inv c] by simp
  have "held P c" using inv c by (simp add: pool_inv_def)
  then consider (heap) "heap_region P (ch_ptr c) (ch_capacity c)"
    | (slot) "pool_slot P (ch_ptr c) (ch_capacity c)" "ch_pool_type c' = POOL"
    using c'(2) by (auto simp: held_def owned_def) (metis pool_type_t.exhaust)
  then show ?thesis
  proof cases
    case heap
    have "\<not> is_mine (mp_bucket P i) (ch_ptr c)" for i by (rule is_mine_heap [OF wf heap])
    then have "handed_out (mp_bucket P i) (remove1 c H) = handed_out (mp_bucket P i) H" for i
      using handed_out_remove1 [OF c, of "mp_bucket P i"] by simp
    moreover have "mp_bucket (release P c') = mp_bucket P"
      using find_by_address_heap [OF wf heap] c'(1) pos
      by (simp add: release_def free_heap_def Let_def)
    ultimately show ?thesis using bal by (simp add: balanced_def)
  next
    case slot
    then obtain i k where ik: "k < bk_count (mp_bucket P i)" "ch_ptr c = slot (mp_bucket P i) k"
      by (auto simp: pool_slot_def)
    note mine = is_mine_slot_iff [OF wf ik(1), folded ik(2)]
    have rb: "mp_bucket (release P c') =
        (mp_bucket P)(i := (mp_bucket P i)\<lparr>bk_bucket := c'\<lparr>ch_in_pool := True\<rparr> # bk_bucket (mp_bucket P i)\<rparr>)"
      using find_by_address_slot [OF wf ik(1)] ik(2) c'(1) slot(2) pos pool_wfD(6) [OF wf] mine [of i]
      by (simp add: release_def Bucket_release_def Let_def set_bucket_def)
    have ho: "handed_out (mp_bucket P j) (remove1 c H) + (if j = i then 1 else 0)
          = handed_out (mp_bucket P j) H" for j
      using handed_out_remove1 [OF c, of "mp_bucket P j"] mine by simp
    have eq: "handed_out (b\<lparr>bk_bucket := st\<rparr>) = handed_out b" for b :: Bucket and st
      by (simp add: handed_out_def fun_eq_iff)
    have b: "length (bk_bucket (mp_bucket P j)) + handed_out (mp_bucket P j) H
          = bk_count (mp_bucket P j)" for j
      using bal by (simp add: balanced_def)
    show ?thesis
      unfolding balanced_def rb
    proof
      fix j
      show "length (bk_bucket (((mp_bucket P)(i := (mp_bucket P i)\<lparr>bk_bucket :=
              c'\<lparr>ch_in_pool := True\<rparr> # bk_bucket (mp_bucket P i)\<rparr>)) j)) +
            handed_out (((mp_bucket P)(i := (mp_bucket P i)\<lparr>bk_bucket :=
              c'\<lparr>ch_in_pool := True\<rparr> # bk_bucket (mp_bucket P i)\<rparr>)) j) (remove1 c H) =
            bk_count (((mp_bucket P)(i := (mp_bucket P i)\<lparr>bk_bucket :=
              c'\<lparr>ch_in_pool := True\<rparr> # bk_bucket (mp_bucket P i)\<rparr>)) j)"
        using ho [of j] b [of j] by (cases "j = i") (simp_all add: eq)
    qed
  qed
qed


lemma memPool_ctor_counts:
  assumes "heap_wf h" and "\<not> ub h"
    and "(i, n) \<in> set (bucket_counts (a * get_env_size env) (b * get_env_size env)
           (c * get_env_size env) (d * get_env_size env) (e * get_env_size env))"
  shows "length (bk_bucket (mp_bucket (memPool_ctor h env a b c d e) i)) = n"
    and "bk_count (mp_bucket (memPool_ctor h env a b c d e) i) = n"
  using allocate_inv(2) [OF assms(1,2) refl assms(3)] by (simp_all add: memPool_ctor_def Let_def)

lemma memPool_ctor_balanced:
  assumes "heap_wf h" and "\<not> ub h"
  shows "balanced (memPool_ctor h env a b c d e) []"
  unfolding balanced_def
proof
  fix i
  let ?xs = "bucket_counts (a * get_env_size env) (b * get_env_size env)
           (c * get_env_size env) (d * get_env_size env) (e * get_env_size env)"
  have "i \<in> fst ` set ?xs" by (cases i) (simp_all add: bucket_counts_def)
  then obtain n where "(i, n) \<in> set ?xs" by auto
  from memPool_ctor_counts [OF assms this]
  show "length (bk_bucket (mp_bucket (memPool_ctor h env a b c d e) i)) +
        handed_out (mp_bucket (memPool_ctor h env a b c d e) i) [] =
        bk_count (mp_bucket (memPool_ctor h env a b c d e) i)"
    by (simp add: handed_out_def)
qed

lemma pool_run_bal: "pool_run P H \<Longrightarrow> balanced P H"
proof (induction rule: pool_run.induct)
  case (start h env a b c d e)
  then show ?case by (rule memPool_ctor_balanced)
next
  case (acquire_step P H s ch P')
  then show ?case using balanced_acquire pool_run_inv by blast
next
  case (release_step P H ch)
  then show ?case by (intro balanced_release) (auto intro: pool_run_inv)
next
  case (rebuilt_step P H ch)
  then show ?case by (intro balanced_release) (auto intro: pool_run_inv simp: chunk_of_def)
qed

subsection \<open>What the pool promises\<close>

text \<open>C2: In every state the pool can reach through its constructor, \<open>acquire\<close> and \<open>release\<close>,
  the memory regions of all chunks handed out are pairwise disjoint, each lies in live memory,
  and no step has freed or written memory it must not.\<close>

theorem pool_run_no_overlap:
  "pool_run P H \<Longrightarrow>
     separated (map (\<lambda>c. (ch_ptr c, ch_capacity c)) H) \<and>
     list_all (\<lambda>c. accessible (mp_heap P) (ch_ptr c) (ch_capacity c)) H \<and>
     \<not> ub (mp_heap P)"
proof -
  assume "pool_run P H"
  then have inv: "pool_inv P H" by (rule pool_run_inv)
  then have wf: "pool_wf P" by (simp add: pool_inv_def)
  have "list_all (\<lambda>c. accessible (mp_heap P) (ch_ptr c) (ch_capacity c)) H"
    using inv owned_accessible [OF wf] by (simp add: list_all_iff pool_inv_def held_def)
  then show ?thesis
    using pool_inv_separated [OF inv] pool_wfD(2) [OF wf] by simp
qed

definition demo_pool :: memPool where
  "demo_pool = memPool_ctor empty_heap (Some 10) 1 1 1 1 1"

lemma demo_pool_run: "pool_run demo_pool []"
  unfolding demo_pool_def by (rule pool_run.start, simp, simp add: empty_heap_def)

lemma demo_acquired:
  "0 < s \<Longrightarrow> pool_run (snd (acquire demo_pool s)) [fst (acquire demo_pool s)]"
  by (rule pool_run.acquire_step [OF demo_pool_run]) simp_all

theorem pool_run_no_overlap_witness:
  "\<exists>P c d. acquire demo_pool 20 = (c, P) \<and> \<not> ub (mp_heap (snd (acquire P 60000))) \<and>
     d = fst (acquire P 60000) \<and>
     separated [(ch_ptr d, ch_capacity d), (ch_ptr c, ch_capacity c)]"
proof -
  let ?P = "snd (acquire demo_pool 20)" and ?c = "fst (acquire demo_pool 20)"
  have "pool_run (snd (acquire ?P 60000)) [fst (acquire ?P 60000), ?c]"
    by (rule pool_run.acquire_step [OF demo_acquired, of 20 60000]) simp_all
  from pool_run_no_overlap [OF this] show ?thesis
    by (intro exI [of _ ?P] exI [of _ ?c] exI [of _ "fst (acquire ?P 60000)"]) simp
qed

text \<open>Whatever is asked of the pool in a reachable state, the chunk it returns is at least as
  large as the request, is not null, and overlaps no chunk already handed out; memory contents
  do not change.\<close>

theorem acquire_fresh_and_large_enough:
  assumes "pool_run P H" and "0 < s" and "acquire P s = (c, P')"
  shows "s \<le> ch_capacity c \<and> 0 < ch_ptr c \<and>
         list_all (\<lambda>d. regions_disjoint (ch_ptr c) (ch_capacity c) (ch_ptr d) (ch_capacity d)) H \<and>
         mem (mp_heap P') = mem (mp_heap P)"
proof -
  note a = acquire_inv [OF pool_run_inv [OF assms(1)] assms(2,3)]
  then have inv: "pool_inv P' (c # H)" by simp
  show ?thesis
    using a held_disjoint [OF inv] held_ptr_pos [OF inv, of c] by (simp add: list_all_iff)
qed

theorem acquire_fresh_and_large_enough_witness:
  "700 \<le> ch_capacity (fst (acquire demo_pool 700)) \<and> 0 < ch_ptr (fst (acquire demo_pool 700))"
  using acquire_fresh_and_large_enough
    [OF demo_pool_run, of 700 "fst (acquire demo_pool 700)" "snd (acquire demo_pool 700)"] by simp

text \<open>In every reachable state each bucket is balanced: its free chunks and its chunks in use
  add up to the number of chunks it was created with, so no chunk is lost or duplicated.\<close>

theorem pool_run_balanced:
  assumes "pool_run P H"
  shows "length (bk_bucket (mp_bucket P i)) + handed_out (mp_bucket P i) H
         = bk_count (mp_bucket P i)"
  using pool_run_bal [OF assms] by (simp add: balanced_def)

theorem pool_run_balanced_witness:
  "length (bk_bucket (mp_bucket (snd (acquire demo_pool 20)) B32)) +
   handed_out (mp_bucket (snd (acquire demo_pool 20)) B32) [fst (acquire demo_pool 20)] =
   bk_count (mp_bucket (snd (acquire demo_pool 20)) B32)"
  using pool_run_balanced [OF demo_acquired, of 20 B32] by simp

text \<open>The nested comparisons of \<open>pick_bucket\<close> choose exactly the first bucket, in order of
  size, whose chunks are large enough, and no bucket for requests above 50 KiB.\<close>

theorem pick_bucket_smallest_fit:
  "pick_bucket s = find (\<lambda>i. s \<le> bucket_chunk_size i) all_buckets"
  by (rule pick_bucket_find)

text \<open>The over-allocation fallback \<open>tryhard_available\<close> never yields a chunk where \<open>acquire\<close>
  calls it: a request that no bucket fits always goes to the heap.\<close>

theorem tryhard_is_dead:
  assumes "pool_run P H" and "pick_bucket s = None"
  shows "acquire P s = from_heap P s"
proof -
  have lt: "50 * 1024 < s" using assms(2) by (simp add: pick_bucket_None)
  have "pool_wf P" using pool_run_inv [OF assms(1)] by (simp add: pool_inv_def)
  then have "tryhard_available P s = (None, P)" using lt by (rule tryhard_none)
  with lt assms(2) show ?thesis by (simp add: acquire_def)
qed

theorem tryhard_is_dead_witness: "acquire demo_pool 51201 = from_heap demo_pool 51201"
  by (rule tryhard_is_dead [OF demo_pool_run]) (simp add: pick_bucket_def)


text \<open>Growing a pool chunk with \<open>mempool_realloc\<close> returns memory of at least the new size that
  starts with the bytes of the old chunk, and the pool is left consistent: the old chunk is
  free, the new one is held.\<close>

theorem mempool_realloc_keeps_pool_data:
  assumes "pool_run (pool E) H" and "c \<in> set H"
    and "pool_slot (pool E) (ch_ptr c) (ch_capacity c)"
    and "use_pool E" and "ch_capacity c < n"
    and "mempool_realloc E (ch_ptr c) n = (q, E')"
  shows "load (mp_heap (pool E')) q (ch_capacity c) =
           load (mp_heap (pool E)) (ch_ptr c) (ch_capacity c) \<and>
         (\<exists>d. ch_ptr d = q \<and> n \<le> ch_capacity d \<and> pool_inv (pool E') (d # remove1 c H))"
  using realloc_slot [OF pool_run_inv [OF assms(1)] assms(2-6)] by simp

definition zero_mps :: mp_stats_t where
  "zero_mps = \<lparr>stat_mempool_alloc = 0, stat_mempool_realloc = 0, stat_mempool_realloc_miss = 0,
     stat_mempool_realloc_fitting = 0, stat_mempool_free = 0, stat_mempool_free_miss = 0,
     stat_mempool_alloc_size = 0, stat_mempool_free_size = 0\<rparr>"

definition env_of :: "memPool \<Rightarrow> genv" where
  "env_of P = \<lparr>pool = P, use_pool = True, heap_on_tension = True, mps = zero_mps,
     alloc_bytes = 0, alloc_count = 0, free_bytes = 0, free_count = 0\<rparr>"

lemma env_of_simps [simp]: "pool (env_of P) = P" "use_pool (env_of P)" "mps (env_of P) = zero_mps"
  by (simp_all add: env_of_def)

lemma demo_bucket_nonempty:
  "length (bk_bucket (mp_bucket demo_pool B32)) = 160"
  unfolding demo_pool_def
  by (rule memPool_ctor_counts(1)) (simp, simp add: empty_heap_def, simp add: bucket_counts_def get_env_size_def)

lemma demo_slot:
  "pool_slot (snd (acquire demo_pool 20)) (ch_ptr (fst (acquire demo_pool 20)))
     (ch_capacity (fst (acquire demo_pool 20)))"
proof -
  obtain d rest where st: "bk_bucket (mp_bucket demo_pool B32) = d # rest"
    using demo_bucket_nonempty by (cases "bk_bucket (mp_bucket demo_pool B32)") auto
  have "acquire demo_pool 20 = (d\<lparr>ch_in_pool := False, ch_pool_type := POOL\<rparr>,
      count_acq (set_bucket demo_pool B32 ((mp_bucket demo_pool B32)\<lparr>bk_bucket := rest\<rparr>))
        (ch_capacity d))"
    using st by (simp add: acquire_def pick_bucket_def Bucket_acquire_def)
  moreover have "pool_slot demo_pool (ch_ptr d) (ch_capacity d)"
    by (rule free_chunk_owned(1) [of _ _ B32])
       (use pool_run_inv [OF demo_pool_run] st in \<open>simp_all add: pool_inv_def\<close>)
  moreover have "pool_slot (count_acq Q n) = pool_slot Q" for Q n
    by (simp add: count_acq_def Let_def pool_slot_def fun_eq_iff)
  ultimately show ?thesis by simp
qed

theorem mempool_realloc_keeps_pool_data_witness:
  "\<exists>q E'. mempool_realloc (env_of (snd (acquire demo_pool 20))) (ch_ptr (fst (acquire demo_pool 20)))
      60000 = (q, E') \<and>
    load (mp_heap (pool E')) q (ch_capacity (fst (acquire demo_pool 20))) =
    load (mp_heap (snd (acquire demo_pool 20))) (ch_ptr (fst (acquire demo_pool 20)))
      (ch_capacity (fst (acquire demo_pool 20)))"
proof -
  let ?P = "snd (acquire demo_pool 20)" and ?c = "fst (acquire demo_pool 20)"
  obtain q E' where r: "mempool_realloc (env_of ?P) (ch_ptr ?c) 60000 = (q, E')" by force
  have "pool_wf ?P" using pool_run_inv [OF demo_acquired, of 20] by (simp add: pool_inv_def)
  then obtain i where "ch_capacity ?c = bucket_chunk_size i"
    using demo_slot by (auto simp: pool_slot_def pool_wfD(3))
  with bucket_chunk_size_le [of i] have "ch_capacity ?c < 60000" by simp
  with r show ?thesis
    using mempool_realloc_keeps_pool_data [of "env_of ?P" "[?c]" ?c 60000 q E']
      demo_acquired [of 20] demo_slot by simp
qed

text \<open>\<open>mempool_realloc\<close> of a block that came from the heap (a request above 50 KiB, or one
  served while a bucket was empty) does not copy: the old pointer is released, the new block is
  returned with whatever its memory held before, and only the miss counter records it.\<close>

theorem mempool_realloc_drops_heap_data:
  assumes "pool_run (pool E) H" and "c \<in> set H"
    and "heap_region (pool E) (ch_ptr c) (ch_capacity c)"
    and "use_pool E" and "0 < n" and "mempool_realloc E (ch_ptr c) n = (q, E')"
  shows "q \<noteq> ch_ptr c \<and>
         load (mp_heap (pool E')) q n = load (mp_heap (pool E)) q n \<and>
         stat_mempool_realloc_miss (mps E') = stat_mempool_realloc_miss (mps E) + 1"
  using realloc_heap [OF pool_run_inv [OF assms(1)] assms(2-6)] load_mem_eq by metis

lemma demo_heap_region:
  "heap_region (snd (acquire demo_pool 60000)) (ch_ptr (fst (acquire demo_pool 60000)))
     (ch_capacity (fst (acquire demo_pool 60000)))"
proof -
  have none: "pick_bucket 60000 = None" by (simp add: pick_bucket_def)
  have inv: "pool_inv demo_pool []" by (rule pool_run_inv [OF demo_pool_run])
  have "tryhard_available demo_pool 60000 = (None, demo_pool)"
    using inv by (intro tryhard_none) (simp_all add: pool_inv_def)
  then have fh: "from_heap demo_pool 60000 = acquire demo_pool 60000"
    using none by (simp add: acquire_def)
  have "from_heap demo_pool 60000 = (fst (acquire demo_pool 60000), snd (acquire demo_pool 60000))"
    using fh by simp
  from from_heap_inv(2,3) [OF inv _ this] show ?thesis by simp
qed

theorem mempool_realloc_drops_heap_data_witness:
  "\<exists>q E'. mempool_realloc (env_of (snd (acquire demo_pool 60000)))
      (ch_ptr (fst (acquire demo_pool 60000))) 70000 = (q, E') \<and>
    q \<noteq> ch_ptr (fst (acquire demo_pool 60000)) \<and>
    load (mp_heap (pool E')) q 70000 = load (mp_heap (snd (acquire demo_pool 60000))) q 70000"
proof -
  let ?P = "snd (acquire demo_pool 60000)" and ?c = "fst (acquire demo_pool 60000)"
  obtain q E' where r: "mempool_realloc (env_of ?P) (ch_ptr ?c) 70000 = (q, E')" by force
  then show ?thesis
    using mempool_realloc_drops_heap_data [of "env_of ?P" "[?c]" ?c 70000 q E']
      demo_acquired [of 60000] demo_heap_region by simp
qed

end
