(* ===== verification/Buffer.thy ===== *)
theory Buffer
  imports Mempool
begin

text \<open>
  The byte buffer: \<^verbatim>\<open>common/buffer.hpp\<close> and \<^verbatim>\<open>common/buffer.cpp\<close>.

  A \<^verbatim>\<open>buffer\<close> is a pointer, a size, a capacity and the flag that says whether it owns its
  memory. All buffers of the process share the global environment \<open>genv\<close>: the memory pool
  with the heap below it, the switch \<^verbatim>\<open>use_pool\<close> and the allocation counters. Each member
  function takes and returns both. What a buffer holds is \<open>contents\<close>, the list of its bytes in
  that memory.

  The interface the buffer relies on is the locale \<open>allocator\<close>: regions it hands out do not
  overlap each other, freeing one leaves the others alone. It is interpreted on the pool (and
  on the plain heap, the other setting of \<^verbatim>\<open>use_pool\<close>) by \<open>galloc\<close> and \<open>gfree\<close>.
\<close>

record buffer =
  b_data :: nat
  b_size :: nat
  b_capacity :: nat
  b_free :: bool

definition empty_buffer :: buffer where
  "empty_buffer = \<lparr>b_data = 0, b_size = 0, b_capacity = 0, b_free = True\<rparr>"

definition counter_alloc :: "genv \<Rightarrow> nat \<Rightarrow> genv" where
  "counter_alloc E s =
     (if 0 < s then E\<lparr>alloc_bytes := alloc_bytes E + of_nat s, alloc_count := alloc_count E + 1\<rparr>
      else E)"

definition counter_free :: "genv \<Rightarrow> nat \<Rightarrow> genv" where
  "counter_free E s =
     (if 0 < s then E\<lparr>free_bytes := free_bytes E + of_nat s, free_count := free_count E + 1\<rparr>
      else E)"

text \<open>The two-way allocation every constructor and every growth path writes out: a chunk of the
  pool, or \<^verbatim>\<open>new unsigned char[s]\<close> with the counters.\<close>

definition galloc :: "genv \<Rightarrow> nat \<Rightarrow> nat \<times> nat \<times> genv" where
  "galloc E s =
     (if use_pool E then
        let (mch, P) = acquire (pool E) s in (ch_ptr mch, ch_capacity mch, E\<lparr>pool := P\<rparr>)
      else
        let (p, E1) = gmalloc E s in (p, s, counter_alloc E1 s))"

definition gfree :: "genv \<Rightarrow> nat \<Rightarrow> nat \<Rightarrow> genv" where
  "gfree E p c =
     (if use_pool E then E\<lparr>pool := release (pool E) (chunk_of p c)\<rparr>
      else counter_free (on_heap E (\<lambda>h. mfree h p)) c)"

definition heap_of :: "genv \<Rightarrow> heap" where
  "heap_of E = mp_heap (pool E)"

definition contents :: "genv \<Rightarrow> buffer \<Rightarrow> byte list" where
  "contents E b = load (heap_of E) (b_data b) (b_size b)"

definition dealloc :: "genv \<Rightarrow> buffer \<Rightarrow> genv" where
  "dealloc E b = (if b_free b \<and> 0 < b_capacity b then gfree E (b_data b) (b_capacity b) else E)"

definition buffer_release :: "genv \<Rightarrow> buffer \<Rightarrow> genv \<times> buffer" where
  "buffer_release E b =
     (dealloc E b, b\<lparr>b_capacity := 0, b_size := 0, b_data := 0, b_free := False\<rparr>)"

subsection \<open>Constructors\<close>

definition buffer_sized :: "genv \<Rightarrow> nat \<Rightarrow> genv \<times> buffer" where
  "buffer_sized E s =
     (if use_pool E then
        let (p, c, E1) = galloc E s
        in (E1, \<lparr>b_data = p, b_size = 0, b_capacity = c, b_free = True\<rparr>)
      else
        let (p, E1) = (if s \<noteq> 0 then gmalloc E s else (0, E))
        in (counter_alloc E1 s, \<lparr>b_data = p, b_size = 0, b_capacity = s, b_free = True\<rparr>))"

definition buffer_sized_cap :: "genv \<Rightarrow> nat \<Rightarrow> nat \<Rightarrow> (genv \<times> buffer) result" where
  "buffer_sized_cap E s c =
     (if c < s then raise Invalid_argument
      else let (E1, b) = buffer_sized E c in ok (E1, b\<lparr>b_size := s\<rparr>))"

definition buffer_data :: "genv \<Rightarrow> nat \<Rightarrow> nat \<Rightarrow> genv \<times> buffer" where
  "buffer_data E d s =
     (if s \<noteq> 0 then
        let (p, c, E1) = galloc E s
        in (on_heap E1 (\<lambda>h. memcpy h p d s), \<lparr>b_data = p, b_size = s, b_capacity = c, b_free = True\<rparr>)
      else (E, \<lparr>b_data = 0, b_size = s, b_capacity = 0, b_free = True\<rparr>))"

definition buffer_data_cap :: "genv \<Rightarrow> nat \<Rightarrow> nat \<Rightarrow> nat \<Rightarrow> (genv \<times> buffer) result" where
  "buffer_data_cap E d s capacity =
     (if capacity < s then raise Invalid_argument
      else if capacity \<noteq> 0 then
        let (p, c, E1) = galloc E capacity;
            E2 = (if s \<noteq> 0 then on_heap E1 (\<lambda>h. memcpy h p d s) else E1)
        in ok (E2, \<lparr>b_data = p, b_size = s, b_capacity = c, b_free = True\<rparr>)
      else ok (E, \<lparr>b_data = 0, b_size = s, b_capacity = capacity, b_free = True\<rparr>))"

definition buffer_own :: "genv \<Rightarrow> nat \<Rightarrow> nat \<Rightarrow> nat \<Rightarrow> bool \<Rightarrow> (genv \<times> buffer) result" where
  "buffer_own E d s capacity own =
     (if capacity < s then raise Invalid_argument
      else ok (if own \<and> \<not> use_pool E then counter_alloc E capacity else E,
               \<lparr>b_data = d, b_size = s, b_capacity = capacity, b_free = own\<rparr>))"

definition buffer_copy :: "genv \<Rightarrow> buffer \<Rightarrow> genv \<times> buffer" where
  "buffer_copy E x =
     (let (E1, d, c) =
        (if b_capacity x \<noteq> 0 then
           if b_free x then
             let (p, cap, E1) = galloc E (b_capacity x);
                 E2 = (if b_size x \<noteq> 0 then on_heap E1 (\<lambda>h. memcpy h p (b_data x) (b_size x)) else E1)
             in (E2, p, if use_pool E then cap else 0)
           else (E, b_data x, 0)
         else (E, 0, 0))
      in (E1, \<lparr>b_data = d, b_size = b_size x,
               b_capacity = (if use_pool E then c else b_capacity x), b_free = b_free x\<rparr>))"

text \<open>Moving from \<open>ref\<close>; the second buffer of the result is \<open>ref\<close> afterwards.\<close>

definition buffer_move :: "buffer \<Rightarrow> buffer \<times> buffer" where
  "buffer_move ref = (ref, ref\<lparr>b_free := False\<rparr>)"

definition buffer_assign_move :: "genv \<Rightarrow> buffer \<Rightarrow> buffer \<Rightarrow> genv \<times> buffer \<times> buffer" where
  "buffer_assign_move E b ref =
     (let E1 = (if b_free b \<and> b_data b \<noteq> 0 then gfree E (b_data b) (b_capacity b) else E)
      in (E1, ref, ref\<lparr>b_free := False\<rparr>))"

definition buffer_assign_copy :: "genv \<Rightarrow> buffer \<Rightarrow> buffer \<Rightarrow> genv \<times> buffer" where
  "buffer_assign_copy E b x =
     (let (E1, b1) =
        (if b_capacity b < b_size x \<or> b_data b = 0 then
           let E0 = dealloc E b
           in if b_free x then
                let (p, cap, E1) = galloc E0 (b_capacity x)
                in (E1, b\<lparr>b_data := p, b_capacity := cap, b_free := True\<rparr>)
              else (E0, b\<lparr>b_data := b_data x, b_capacity := b_capacity x, b_free := False\<rparr>)
         else (E, b));
          E2 = (if b_size x \<noteq> 0 \<and> b_free x
                then on_heap E1 (\<lambda>h. memcpy h (b_data b1) (b_data x) (b_size x)) else E1)
      in (E2, b1\<lparr>b_size := b_size x\<rparr>))"

definition buffer_swap :: "buffer \<Rightarrow> buffer \<Rightarrow> buffer \<times> buffer" where
  "buffer_swap b x =
     (b\<lparr>b_data := b_data x, b_size := b_size x, b_capacity := b_capacity x, b_free := b_free x\<rparr>,
      x\<lparr>b_data := b_data b, b_size := b_size b, b_capacity := b_capacity b, b_free := b_free b\<rparr>)"

definition detach :: "buffer \<Rightarrow> nat \<times> buffer" where
  "detach b = (b_data b, b\<lparr>b_data := 0, b_size := 0, b_capacity := 0\<rparr>)"

subsection \<open>Modification\<close>

definition buffer_assign :: "genv \<Rightarrow> buffer \<Rightarrow> nat \<Rightarrow> nat \<Rightarrow> genv \<times> buffer" where
  "buffer_assign E b d s =
     (let (E1, b1) =
        (if b_capacity b < s then
           let (p, c, E1) = galloc (dealloc E b) s
           in (E1, b\<lparr>b_data := p, b_capacity := s, b_free := True\<rparr>)
         else (E, b));
          E2 = (if s \<noteq> 0 \<and> d \<noteq> 0 then on_heap E1 (\<lambda>h. memcpy h (b_data b1) d s) else E1)
      in (E2, b1\<lparr>b_size := s\<rparr>))"

definition buffer_assign_own :: "genv \<Rightarrow> buffer \<Rightarrow> nat \<Rightarrow> nat \<Rightarrow> nat \<Rightarrow> bool \<Rightarrow> genv \<times> buffer" where
  "buffer_assign_own E b d s c own =
     (let E1 = dealloc E b;
          b1 = b\<lparr>b_data := d, b_size := s, b_capacity := c, b_free := own\<rparr>
      in (if own \<and> \<not> use_pool E1 then counter_alloc E1 c else E1, b1))"

definition attach :: "genv \<Rightarrow> buffer \<Rightarrow> nat \<Rightarrow> nat \<Rightarrow> genv \<times> buffer" where
  "attach E b d s = buffer_assign_own E b d s s True"

definition set_capacity :: "genv \<Rightarrow> buffer \<Rightarrow> nat \<Rightarrow> genv \<times> buffer \<times> bool" where
  "set_capacity E b c =
     (if c \<le> b_capacity b then (E, b, False)
      else
        let (d, cd, E1) = galloc E c;
            E2 = (if b_size b \<noteq> 0 then on_heap E1 (\<lambda>h. memcpy h d (b_data b) (b_size b)) else E1);
            E3 = dealloc E2 b
        in (E3, b\<lparr>b_data := d, b_capacity := (if \<not> use_pool E then c else cd), b_free := True\<rparr>, True))"

definition append_bytes :: "genv \<Rightarrow> buffer \<Rightarrow> nat \<Rightarrow> nat \<Rightarrow> genv \<times> buffer" where
  "append_bytes E b d s =
     (if s \<noteq> 0 then
        let ns = sz_add (b_size b) s;
            (E1, b1) = (if b_capacity b < ns then
                          let (E1, b1, r) = set_capacity E b ns in (E1, b1)
                        else (E, b))
        in (on_heap E1 (\<lambda>h. memcpy h (b_data b1 + b_size b1) d s), b1\<lparr>b_size := ns\<rparr>)
      else (E, b))"

definition append_buffer :: "genv \<Rightarrow> buffer \<Rightarrow> buffer \<Rightarrow> genv \<times> buffer" where
  "append_buffer E b x = append_bytes E b (b_data x) (b_size x)"

definition buffer_fill :: "genv \<Rightarrow> buffer \<Rightarrow> byte \<Rightarrow> genv" where
  "buffer_fill E b v = (if 0 < b_size b then on_heap E (\<lambda>h. memset h (b_data b) v (b_size b)) else E)"

definition set_size :: "genv \<Rightarrow> buffer \<Rightarrow> nat \<Rightarrow> genv \<times> buffer \<times> bool" where
  "set_size E b s =
     (let (E1, b1, r) = (if b_capacity b < s then set_capacity E b s else (E, b, False))
      in (E1, b1\<lparr>b_size := s\<rparr>, r))"

definition buffer_empty :: "buffer \<Rightarrow> bool" where
  "buffer_empty b \<longleftrightarrow> b_size b = 0"

definition buffer_clear :: "buffer \<Rightarrow> buffer" where
  "buffer_clear b = b\<lparr>b_size := 0\<rparr>"

definition buffer_flush :: "genv \<Rightarrow> buffer \<Rightarrow> nat \<Rightarrow> (genv \<times> buffer) result" where
  "buffer_flush E b bytes =
     (if bytes = 0 \<or> b_size b \<le> bytes then ok (E, buffer_clear b)
      else if bytes < b_size b then
        ok (if (2 * bytes) mod 2 ^ 64 < b_size b
            then on_heap E (\<lambda>h. memmove h (b_data b) (b_data b + bytes) (b_size b - bytes))
            else on_heap E (\<lambda>h. memcpy h (b_data b) (b_data b + bytes) (b_size b - bytes)),
            b\<lparr>b_size := b_size b - bytes\<rparr>)
      else raise Out_of_range)"

subsection \<open>Access\<close>

definition buffer_at :: "genv \<Rightarrow> buffer \<Rightarrow> nat \<Rightarrow> byte result" where
  "buffer_at E b i =
     (if b_size b \<le> i then raise Out_of_range else ok (mem (heap_of E) (b_data b + i)))"

definition memchr :: "heap \<Rightarrow> nat \<Rightarrow> byte \<Rightarrow> nat \<Rightarrow> nat option" where
  "memchr h p v n = find (\<lambda>a. mem h a = v) [p..<p + n]"

definition buffer_find :: "genv \<Rightarrow> buffer \<Rightarrow> byte \<Rightarrow> nat \<Rightarrow> nat" where
  "buffer_find E b v pos =
     (if b_size b = 0 \<or> b_size b \<le> pos then npos
      else case memchr (heap_of E) (b_data b + pos) v (b_size b - pos) of
             Some position \<Rightarrow> position - b_data b
           | None \<Rightarrow> npos)"

fun rfind_loop :: "genv \<Rightarrow> buffer \<Rightarrow> byte \<Rightarrow> nat \<Rightarrow> nat" where
  "rfind_loop E b v 0 = npos"
| "rfind_loop E b v (Suc n) =
     (if mem (heap_of E) (b_data b + n) = v then n else rfind_loop E b v n)"

definition buffer_rfind :: "genv \<Rightarrow> buffer \<Rightarrow> byte \<Rightarrow> nat \<Rightarrow> nat" where
  "buffer_rfind E b v pos =
     (if b_size b \<noteq> 0 then
        let n = b_size b - 1; n' = (if pos < n then pos else n)
        in rfind_loop E b v (n' + 1)
      else npos)"

definition buffer_eq :: "genv \<Rightarrow> buffer \<Rightarrow> buffer \<Rightarrow> bool" where
  "buffer_eq E a b \<longleftrightarrow>
     b_size a = b_size b \<and> load (heap_of E) (b_data a) (b_size a) = load (heap_of E) (b_data b) (b_size a)"

definition buffer_neq :: "genv \<Rightarrow> buffer \<Rightarrow> buffer \<Rightarrow> bool" where
  "buffer_neq E a b \<longleftrightarrow> \<not> buffer_eq E a b"

definition buffer_view :: "buffer \<Rightarrow> nat \<Rightarrow> nat \<Rightarrow> buffer result" where
  "buffer_view b pos len =
     (if pos < b_size b then
        if sz_add pos len \<le> b_size b then
          ok \<lparr>b_data = b_data b + pos, b_size = len, b_capacity = len, b_free = False\<rparr>
        else
          ok \<lparr>b_data = b_data b + pos, b_size = b_size b - pos, b_capacity = b_size b - pos,
              b_free = False\<rparr>
      else raise Out_of_range)"

definition buffer_view_all :: "buffer \<Rightarrow> buffer result" where
  "buffer_view_all b = buffer_view b 0 (b_size b)"

definition get_at_u32 :: "genv \<Rightarrow> buffer \<Rightarrow> u32 \<Rightarrow> u32 result" where
  "get_at_u32 E b idx =
     (if b_size b < unat idx + 4 then raise Out_of_range
      else ok (of_le (load (heap_of E) (b_data b + unat idx) 4)))"

definition store_list :: "heap \<Rightarrow> nat \<Rightarrow> byte list \<Rightarrow> heap" where
  "store_list h p bs = fold (\<lambda>(i, v) h. store h (p + i) v) (List.enumerate 0 bs) h"

definition set_at_u32 :: "genv \<Rightarrow> buffer \<Rightarrow> u32 \<Rightarrow> u32 \<Rightarrow> genv result" where
  "set_at_u32 E b idx val =
     (if b_size b < unat idx + 4 then raise Out_of_range
      else ok (on_heap E (\<lambda>h. store_list h (b_data b + unat idx) (le_bytes 4 val))))"

definition copy_from :: "genv \<Rightarrow> buffer \<Rightarrow> nat \<Rightarrow> nat \<Rightarrow> byte list result" where
  "copy_from E b SZ start =
     (if b_size b < sz_add start SZ then raise Out_of_range
      else ok (load (heap_of E) (b_data b + start) SZ))"

definition buffer_str :: "genv \<Rightarrow> buffer \<Rightarrow> byte list" where
  "buffer_str E b = load (heap_of E) (b_data b) (b_size b)"


subsection \<open>The allocator interface\<close>

definition within :: "nat \<times> nat \<Rightarrow> nat \<Rightarrow> nat \<Rightarrow> bool" where
  "within r d s \<longleftrightarrow> fst r \<le> d \<and> d + s \<le> fst r + snd r"

lemma withinD: "within r d s \<Longrightarrow> fst r \<le> d" "within r d s \<Longrightarrow> d + s \<le> fst r + snd r"
  by (simp_all add: within_def)

lemma separated_disjoint:
  "separated R \<Longrightarrow> r \<in> set R \<Longrightarrow> q \<in> set R \<Longrightarrow> r \<noteq> q \<Longrightarrow>
     regions_disjoint (fst r) (snd r) (fst q) (snd q)"
  by (induction R) (auto simp: list_all_iff intro: regions_disjoint_sym)

lemma map_remove1_inj:
  "inj_on f (set xs) \<Longrightarrow> x \<in> set xs \<Longrightarrow> map f (remove1 x xs) = remove1 (f x) (map f xs)"
  by (induction xs) (auto simp: inj_on_def)

locale allocator =
  fixes alloc :: "'e \<Rightarrow> nat \<Rightarrow> nat \<times> nat \<times> 'e"
    and fre :: "'e \<Rightarrow> nat \<Rightarrow> nat \<Rightarrow> 'e"
    and hp :: "'e \<Rightarrow> heap"
    and upd :: "'e \<Rightarrow> (heap \<Rightarrow> heap) \<Rightarrow> 'e"
    and inv :: "'e \<Rightarrow> (nat \<times> nat) list \<Rightarrow> bool"
  assumes alloc_law: "inv E R \<Longrightarrow> 0 < n \<Longrightarrow> alloc E n = (p, c, E') \<Longrightarrow>
            inv E' ((p, c) # R) \<and> n \<le> c \<and> mem (hp E') = mem (hp E)"
    and free_law: "inv E R \<Longrightarrow> (p, c) \<in> set R \<Longrightarrow>
            inv (fre E p c) (remove1 (p, c) R) \<and> mem (hp (fre E p c)) = mem (hp E)"
    and region_law: "inv E R \<Longrightarrow> separated R \<and> distinct R \<and> \<not> ub (hp E) \<and>
            (\<forall>r \<in> set R. 0 < fst r \<and> accessible (hp E) (fst r) (snd r))"
    and hp_upd: "hp (upd E f) = f (hp E)"
    and write_law: "inv E R \<Longrightarrow> blocks (f (hp E)) = blocks (hp E) \<Longrightarrow>
            mallocf (f (hp E)) = mallocf (hp E) \<Longrightarrow> \<not> ub (f (hp E)) \<Longrightarrow> inv (upd E f) R"
begin

lemma region_accessible:
  assumes "inv E R" and "r \<in> set R" and "within r d s"
  shows "accessible (hp E) d s"
proof -
  have "accessible (hp E) (fst r) (snd r)" using region_law [OF assms(1)] assms(2) by blast
  then show ?thesis using withinD [OF assms(3)] by (rule accessible_sub)
qed

lemma regions_apart:
  assumes "inv E R" and "r \<in> set R" and "q \<in> set R" and "r \<noteq> q" and "within r d s" and "within q e t"
  shows "regions_disjoint d s e t"
proof -
  have "regions_disjoint (fst r) (snd r) (fst q) (snd q)"
    using region_law [OF assms(1)] separated_disjoint assms(2-4) by metis
  then show ?thesis using withinD [OF assms(5)] withinD [OF assms(6)] by (rule regions_disjoint_sub)
qed

text \<open>Copying between two different regions: safe, exact, and invisible elsewhere.\<close>

lemma copy_between:
  assumes i: "inv E R" and r: "r \<in> set R" and q: "q \<in> set R" and ne: "r \<noteq> q"
    and d: "within r d n" and s: "within q s n"
  defines "E' \<equiv> upd E (\<lambda>h. memcpy h d s n)"
  shows "inv E' R" and "load (hp E') d n = load (hp E) s n"
    and "regions_disjoint e t d n \<Longrightarrow> load (hp E') e t = load (hp E) e t"
    and "q' \<in> set R \<Longrightarrow> q' \<noteq> r \<Longrightarrow> within q' e t \<Longrightarrow> load (hp E') e t = load (hp E) e t"
proof -
  have "\<not> ub (memcpy (hp E) d s n)"
    using region_law [OF i] region_accessible [OF i r d] region_accessible [OF i q s]
      regions_apart [OF i r q ne d s]
    by (simp add: memcpy_def)
  then show "inv E' R"
    unfolding E'_def by (intro write_law [OF i]) (simp_all add: memcpy_def)
  show "load (hp E') d n = load (hp E) s n" by (simp add: E'_def hp_upd)
  show other: "load (hp E') e t = load (hp E) e t" if "regions_disjoint e t d n" for e t
    using that by (simp add: E'_def hp_upd load_memcpy_other)
  show "load (hp E') e t = load (hp E) e t"
    if "q' \<in> set R" "q' \<noteq> r" "within q' e t" for q' e t
    using regions_apart [OF i that(1) r that(2,3) d] by (rule other)
qed

text \<open>The growth path: a new region, a copy of the old contents, the old region freed.\<close>

lemma grow:
  assumes i: "inv E R" and n: "0 < n" and a: "alloc E n = (p, c, E1)"
    and old: "m = 0 \<or> (q, k) \<in> set R" and m: "m \<le> k" "k < n"
  defines "E2 \<equiv> (if m \<noteq> 0 then upd E1 (\<lambda>h. memcpy h p q m) else E1)"
  shows "inv E2 ((p, c) # R)" and "load (hp E2) p m = load (hp E) q m"
    and "r \<in> set R \<Longrightarrow> within r e t \<Longrightarrow> load (hp E2) e t = load (hp E) e t"
proof -
  have al: "inv E1 ((p, c) # R)" "n \<le> c" "mem (hp E1) = mem (hp E)"
    using alloc_law [OF i n a] by simp_all
  have new: "(p, c) \<notin> set R" using region_law [OF al(1)] by simp
  have keep: "load (hp E1) e t = load (hp E) e t" for e t by (rule load_mem_eq [OF al(3)])
  have "inv E2 ((p, c) # R) \<and> load (hp E2) p m = load (hp E) q m \<and>
        (r \<in> set R \<longrightarrow> within r e t \<longrightarrow> load (hp E2) e t = load (hp E) e t)" for r e t
  proof (cases "m = 0")
    case True
    then show ?thesis using al keep by (simp add: E2_def)
  next
    case False
    then have qk: "(q, k) \<in> set R" using old by simp
    then have ne: "(p, c) \<noteq> (q, k)" using new by metis
    have "within (p, c) p m" "within (q, k) q m" using m al(2) by (simp_all add: within_def)
    note c = copy_between [OF al(1) _ _ ne this]
    have "r \<in> set R \<Longrightarrow> r \<noteq> (p, c)" using new by metis
    with c qk keep False show ?thesis by (simp add: E2_def)
  qed
  then show "inv E2 ((p, c) # R)" and "load (hp E2) p m = load (hp E) q m"
    and "r \<in> set R \<Longrightarrow> within r e t \<Longrightarrow> load (hp E2) e t = load (hp E) e t" by blast+
qed

end


subsection \<open>The pool and the plain heap as allocators\<close>

abbreviation chunk_region :: "mem_chunk \<Rightarrow> nat \<times> nat" where
  "chunk_region c \<equiv> (ch_ptr c, ch_capacity c)"

definition genv_inv :: "genv \<Rightarrow> (nat \<times> nat) list \<Rightarrow> bool" where
  "genv_inv E R \<longleftrightarrow>
     (\<exists>H. pool_inv (pool E) H \<and> R = map chunk_region H \<and>
          (use_pool E \<or> (\<forall>c \<in> set H. heap_region (pool E) (ch_ptr c) (ch_capacity c))))"

lemma counter_frame [simp]:
  "pool (counter_alloc E n) = pool E" "use_pool (counter_alloc E n) = use_pool E"
  "pool (counter_free E n) = pool E" "use_pool (counter_free E n) = use_pool E"
  by (simp_all add: counter_alloc_def counter_free_def)

lemma on_heap_frame [simp]:
  "heap_of (on_heap E f) = f (heap_of E)" "use_pool (on_heap E f) = use_pool E"
  "pool (on_heap E f) = (pool E)\<lparr>mp_heap := f (mp_heap (pool E))\<rparr>"
  by (simp_all add: on_heap_def heap_of_def)

lemma pool_inv_inj: "pool_inv P H \<Longrightarrow> inj_on chunk_region (set H)"
  by (auto simp: pool_inv_def distinct_map inj_on_def)

lemma from_heap_malloc:
  "malloc (mp_heap P) s = (p, h) \<Longrightarrow>
     \<exists>st. from_heap P s = (\<lparr>ch_ptr = p, ch_capacity = s, ch_in_pool = False, ch_pool_type = HEAP\<rparr>,
                           P\<lparr>mp_heap := h, mp_stats := st\<rparr>)"
  by (simp add: from_heap_def new_chunk_def Let_def) (rule exI, rule refl)

lemma heap_region_frame:
  "heap_region (P\<lparr>mp_stats := st\<rparr>) = heap_region P"
  "blocks h' = blocks (mp_heap P) \<Longrightarrow> heap_region (P\<lparr>mp_heap := h'\<rparr>) = heap_region P"
  by (simp_all add: heap_region_def fun_eq_iff)

lemma gmalloc_inv:
  assumes inv: "pool_inv (pool E) H" and n: "0 < n" and g: "gmalloc E n = (p, E')"
  defines "c \<equiv> \<lparr>ch_ptr = p, ch_capacity = n, ch_in_pool = False, ch_pool_type = HEAP\<rparr>"
  shows "pool_inv (pool E') (c # H)" and "mem (mp_heap (pool E')) = mem (mp_heap (pool E))"
    and "heap_region (pool E') p n" and "use_pool E' = use_pool E"
    and "heap_region (pool E) q k \<Longrightarrow> heap_region (pool E') q k"
proof -
  obtain h where m: "malloc (mp_heap (pool E)) n = (p, h)" and E': "E' = on_heap E (\<lambda>_. h)"
    using g by (auto simp: gmalloc_def split: prod.splits)
  obtain st where f: "from_heap (pool E) n = (c, (pool E)\<lparr>mp_heap := h, mp_stats := st\<rparr>)"
    using from_heap_malloc [OF m] unfolding c_def by blast
  note fi = from_heap_inv [OF inv n f]
  have eq: "pool E' = (pool E)\<lparr>mp_heap := h\<rparr>" by (simp add: E')
  have sw: "(pool E)\<lparr>mp_heap := h, mp_stats := st\<rparr> = (pool E')\<lparr>mp_stats := st\<rparr>" by (simp add: eq)
  show "pool_inv (pool E') (c # H)" using fi(1) by (simp add: sw)
  show "mem (mp_heap (pool E')) = mem (mp_heap (pool E))" using fi(4) by (simp add: eq)
  show "heap_region (pool E') p n" using fi(3) by (simp add: sw heap_region_frame c_def)
  show "use_pool E' = use_pool E" by (simp add: E')
  have wf: "heap_wf (mp_heap (pool E))" using inv by (simp add: pool_inv_def pool_wfD)
  show "heap_region (pool E) q k \<Longrightarrow> heap_region (pool E') q k"
    by (simp add: eq heap_region_def heap_wf_malloc(4) [OF wf m])
qed

lemma galloc_inv:
  assumes "genv_inv E R" and "0 < n" and "galloc E n = (p, c, E')"
  shows "genv_inv E' ((p, c) # R) \<and> n \<le> c \<and> mem (heap_of E') = mem (heap_of E) \<and>
         use_pool E' = use_pool E"
proof -
  obtain H where H: "pool_inv (pool E) H" "R = map chunk_region H"
      "use_pool E \<or> (\<forall>c \<in> set H. heap_region (pool E) (ch_ptr c) (ch_capacity c))"
    using assms(1) by (auto simp: genv_inv_def)
  show ?thesis
  proof (cases "use_pool E")
    case True
    obtain mch P where a: "acquire (pool E) n = (mch, P)" by force
    have r: "p = ch_ptr mch" "c = ch_capacity mch" "E' = E\<lparr>pool := P\<rparr>"
      using assms(3) a True by (simp_all add: galloc_def)
    note ai = acquire_inv [OF H(1) assms(2) a]
    then have "genv_inv E' ((p, c) # R)"
      unfolding genv_inv_def by (intro exI [of _ "mch # H"]) (simp add: r H(2) True)
    then show ?thesis using ai r by (simp add: heap_of_def)
  next
    case False
    obtain E1 where g: "gmalloc E n = (p, E1)" and r: "c = n" "E' = counter_alloc E1 n"
      using assms(3) False by (auto simp: galloc_def split: prod.splits)
    note gi = gmalloc_inv [OF H(1) assms(2) g]
    have "genv_inv E' ((p, c) # R)"
      unfolding genv_inv_def
      by (intro exI [of _ "\<lparr>ch_ptr = p, ch_capacity = n, ch_in_pool = False, ch_pool_type = HEAP\<rparr> # H"])
         (use gi H False in \<open>auto simp: r\<close>)
    then show ?thesis using gi by (simp add: r heap_of_def)
  qed
qed

lemma mfree_inv:
  assumes inv: "pool_inv (pool E) H" and c: "c \<in> set H"
    and reg: "heap_region (pool E) (ch_ptr c) (ch_capacity c)"
  defines "E' \<equiv> on_heap E (\<lambda>h. mfree h (ch_ptr c))"
  shows "pool_inv (pool E') (remove1 c H)" and "mem (mp_heap (pool E')) = mem (mp_heap (pool E))"
    and "heap_region (pool E) q k \<Longrightarrow> q \<noteq> ch_ptr c \<Longrightarrow> heap_region (pool E') q k"
proof -
  let ?c = "c\<lparr>ch_pool_type := HEAP\<rparr>"
  have wf: "pool_wf (pool E)" using inv by (simp add: pool_inv_def)
  have pos: "0 < ch_ptr c" using held_ptr_pos [OF inv c] by simp
  define st where "st = mp_stats (release (pool E) ?c)"
  have "release (pool E) ?c = (pool E')\<lparr>mp_stats := st\<rparr>"
    using pos pool_wfD(6) [OF wf]
    by (simp add: st_def release_def free_heap_def Let_def E'_def)
  moreover have "pool_inv (release (pool E) ?c) (remove1 c H)"
    and "mem (mp_heap (release (pool E) ?c)) = mem (mp_heap (pool E))"
    using release_heap_inv [OF inv c reg, of ?c] by simp_all
  ultimately show "pool_inv (pool E') (remove1 c H)"
    and "mem (mp_heap (pool E')) = mem (mp_heap (pool E))" by simp_all
  show "heap_region (pool E) q k \<Longrightarrow> q \<noteq> ch_ptr c \<Longrightarrow> heap_region (pool E') q k"
    using pos by (simp add: E'_def heap_region_def mfree_def)
qed

lemma gfree_inv:
  assumes "genv_inv E R" and "(p, k) \<in> set R"
  shows "genv_inv (gfree E p k) (remove1 (p, k) R) \<and> mem (heap_of (gfree E p k)) = mem (heap_of E) \<and>
         use_pool (gfree E p k) = use_pool E"
proof -
  obtain H where H: "pool_inv (pool E) H" "R = map chunk_region H"
      "use_pool E \<or> (\<forall>c \<in> set H. heap_region (pool E) (ch_ptr c) (ch_capacity c))"
    using assms(1) by (auto simp: genv_inv_def)
  obtain c where c: "c \<in> set H" "p = ch_ptr c" "k = ch_capacity c"
    using assms(2) H(2) by auto
  have rm: "remove1 (p, k) R = map chunk_region (remove1 c H)"
    using map_remove1_inj [OF pool_inv_inj [OF H(1)] c(1)] by (simp add: H(2) c)
  show ?thesis
  proof (cases "use_pool E")
    case True
    have "pool_inv (release (pool E) (chunk_of p k)) (remove1 c H)"
      and "mem (mp_heap (release (pool E) (chunk_of p k))) = mem (mp_heap (pool E))"
      using release_inv [OF H(1) c(1), of "chunk_of p k"] c by (simp_all add: chunk_of_def)
    then show ?thesis
      unfolding genv_inv_def rm using True by (auto simp: gfree_def heap_of_def)
  next
    case False
    then have reg: "\<forall>d \<in> set H. heap_region (pool E) (ch_ptr d) (ch_capacity d)" using H(3) by simp
    note fi = mfree_inv [OF H(1) c(1) bspec [OF reg c(1)]]
    have ne: "d \<in> set H \<and> ch_ptr d \<noteq> ch_ptr c" if "d \<in> set (remove1 c H)" for d
      using that H(1) c(1) by (auto simp: pool_inv_def distinct_map inj_on_def)
    have gf: "pool (gfree E p k) = pool (on_heap E (\<lambda>h. mfree h (ch_ptr c)))"
      using False by (simp add: gfree_def c(2))
    have "\<forall>d \<in> set (remove1 c H). heap_region (pool (gfree E p k)) (ch_ptr d) (ch_capacity d)"
      unfolding gf by (intro ballI fi(3) bspec [OF reg]) (use ne in blast)+
    then have "genv_inv (gfree E p k) (remove1 (p, k) R)"
      unfolding genv_inv_def rm using fi(1) unfolding gf by blast
    moreover have "mem (heap_of (gfree E p k)) = mem (heap_of E)"
      using fi(2) False by (simp add: gfree_def heap_of_def c(2))
    ultimately show ?thesis using False by (simp add: gfree_def)
  qed
qed

lemma genv_inv_regions:
  assumes "genv_inv E R"
  shows "separated R \<and> distinct R \<and> \<not> ub (heap_of E) \<and>
         (\<forall>r \<in> set R. 0 < fst r \<and> accessible (heap_of E) (fst r) (snd r))"
proof -
  obtain H where H: "pool_inv (pool E) H" "R = map chunk_region H"
    using assms by (auto simp: genv_inv_def)
  have wf: "pool_wf (pool E)" using H(1) by (simp add: pool_inv_def)
  have "owned (pool E) (ch_ptr c) (ch_capacity c)" if "c \<in> set H" for c
    using H(1) that by (simp add: pool_inv_def held_def)
  then have "\<forall>c \<in> set H. 0 < ch_ptr c \<and> accessible (heap_of E) (ch_ptr c) (ch_capacity c)"
    using owned_accessible [OF wf] owned_positive(1) [OF wf] unfolding heap_of_def by blast
  moreover have "distinct R"
    using H pool_inv_inj [OF H(1)] by (auto simp: pool_inv_def distinct_map)
  ultimately show ?thesis
    using pool_inv_separated [OF H(1)] pool_wfD(2) [OF wf] by (simp add: H(2) heap_of_def)
qed

lemma genv_inv_write:
  assumes "genv_inv E R" and "blocks (f (heap_of E)) = blocks (heap_of E)"
    and "mallocf (f (heap_of E)) = mallocf (heap_of E)" and "\<not> ub (f (heap_of E))"
  shows "genv_inv (on_heap E f) R"
proof -
  obtain H where H: "pool_inv (pool E) H" "R = map chunk_region H"
      "use_pool E \<or> (\<forall>c \<in> set H. heap_region (pool E) (ch_ptr c) (ch_capacity c))"
    using assms(1) by (auto simp: genv_inv_def)
  have "pool_inv (pool (on_heap E f)) H"
    using pool_inv_mem [OF H(1)] assms(2-4) by (simp add: heap_of_def)
  moreover have "heap_region (pool (on_heap E f)) = heap_region (pool E)"
    using heap_region_frame(2) assms(2) by (simp add: heap_of_def)
  ultimately show ?thesis using H unfolding genv_inv_def by auto
qed

interpretation ga: allocator galloc gfree heap_of on_heap genv_inv
  by unfold_locales (use galloc_inv gfree_inv genv_inv_regions genv_inv_write in auto)


subsection \<open>Refinement to byte lists\<close>

text \<open>An owning buffer: an empty one, or one whose memory is a live region of the allocator.
  \<open>refines\<close> relates the state before and after an operation on \<open>b\<close>: the environment is
  consistent, the buffer owns its memory and holds exactly \<open>bs\<close>, and every region that
  belongs to something else is still live and unchanged.\<close>

abbreviation buf_region :: "buffer \<Rightarrow> nat \<times> nat" where
  "buf_region b \<equiv> (b_data b, b_capacity b)"

definition owns :: "(nat \<times> nat) list \<Rightarrow> buffer \<Rightarrow> bool" where
  "owns R b \<longleftrightarrow>
     b_free b \<and> b_size b \<le> b_capacity b \<and> (0 < b_capacity b \<longrightarrow> buf_region b \<in> set R)"

definition keeps :: "genv \<Rightarrow> (nat \<times> nat) list \<Rightarrow> buffer \<Rightarrow> genv \<Rightarrow> (nat \<times> nat) list \<Rightarrow> buffer \<Rightarrow> bool"
  where
  "keeps E R b E' R' b' \<longleftrightarrow>
     (\<forall>q \<in> set R. q \<noteq> buf_region b \<longrightarrow>
        q \<in> set R' \<and> q \<noteq> buf_region b' \<and>
        load (heap_of E') (fst q) (snd q) = load (heap_of E) (fst q) (snd q))"

definition refines ::
    "genv \<Rightarrow> (nat \<times> nat) list \<Rightarrow> buffer \<Rightarrow> genv \<Rightarrow> (nat \<times> nat) list \<Rightarrow> buffer \<Rightarrow> byte list \<Rightarrow> bool"
  where
  "refines E R b E' R' b' bs \<longleftrightarrow>
     genv_inv E' R' \<and> owns R' b' \<and> contents E' b' = bs \<and> keeps E R b E' R' b'"

lemma load_sub:
  assumes "load h' a n = load h a n" and "a \<le> d" and "d + s \<le> a + n"
  shows "load h' d s = load h d s"
proof -
  have "load h' d s = take s (drop (d - a) (load h' a n))"
    using assms(2,3) by (simp add: drop_load take_load)
  also have "\<dots> = take s (drop (d - a) (load h a n))" by (simp only: assms(1))
  also have "\<dots> = load h d s" using assms(2,3) by (simp add: drop_load take_load)
  finally show ?thesis .
qed

lemma within_self [simp]: "within (p, c) p s \<longleftrightarrow> s \<le> c"
  by (simp add: within_def)

lemma keeps_refl: "keeps E R b E R b"
  by (simp add: keeps_def)

lemma keeps_trans:
  "keeps E R b E1 R1 b1 \<Longrightarrow> keeps E1 R1 b1 E2 R2 b2 \<Longrightarrow> keeps E R b E2 R2 b2"
  unfolding keeps_def by metis

lemma keeps_sub:
  assumes "keeps E R b E' R' b'" and "q \<in> set R" and "q \<noteq> buf_region b" and "within q d s"
  shows "load (heap_of E') d s = load (heap_of E) d s"
  using assms load_sub withinD [OF assms(4)] unfolding keeps_def by metis

lemma keeps_size: "keeps E R b E' R' (b'\<lparr>b_size := n\<rparr>) = keeps E R b E' R' b'"
  by (simp add: keeps_def)

text \<open>Writing inside the buffer's own region is safe and touches nothing else.\<close>

lemma write_own:
  assumes i: "genv_inv E R" and r: "buf_region b \<in> set R"
    and f: "blocks (f (heap_of E)) = blocks (heap_of E)" "mallocf (f (heap_of E)) = mallocf (heap_of E)"
      "\<not> ub (f (heap_of E))"
    and m: "\<forall>a. a < b_data b \<or> b_data b + b_capacity b \<le> a \<longrightarrow> mem (f (heap_of E)) a = mem (heap_of E) a"
  shows "genv_inv (on_heap E f) R" and "keeps E R b (on_heap E f) R b"
proof -
  show "genv_inv (on_heap E f) R" using i f by (rule genv_inv_write)
  have "load (f (heap_of E)) (fst q) (snd q) = load (heap_of E) (fst q) (snd q)"
    if q: "q \<in> set R" "q \<noteq> buf_region b" for q
  proof (rule load_cong)
    fix k assume "k < snd q"
    moreover have "regions_disjoint (fst q) (snd q) (b_data b) (b_capacity b)"
      using separated_disjoint [OF _ q(1) r q(2)] genv_inv_regions [OF i] by simp
    ultimately have "fst q + k < b_data b \<or> b_data b + b_capacity b \<le> fst q + k \<or> b_capacity b = 0"
      by (auto simp: regions_disjoint_def)
    then show "mem (f (heap_of E)) (fst q + k) = mem (heap_of E) (fst q + k)"
      using m by (metis add_0_right not_le)
  qed
  then show "keeps E R b (on_heap E f) R b" by (simp add: keeps_def)
qed

lemma dealloc_owned:
  assumes i: "genv_inv E R" and b: "owns R b"
  defines "R' \<equiv> (if 0 < b_capacity b then remove1 (buf_region b) R else R)"
  shows "genv_inv (dealloc E b) R'" and "mem (heap_of (dealloc E b)) = mem (heap_of E)"
    and "use_pool (dealloc E b) = use_pool E"
    and "r \<in> set R \<Longrightarrow> r \<noteq> buf_region b \<Longrightarrow> r \<in> set R'"
  using gfree_inv [OF i, of "b_data b" "b_capacity b"] b i
  by (auto simp: dealloc_def owns_def R'_def in_set_remove1)

lemma set_capacity_grow:
  assumes i: "genv_inv E R" and b: "owns R b" and c: "b_capacity b < c"
    and s: "set_capacity E b c = (E', b', r)"
  shows "\<exists>R'. refines E R b E' R' b' (contents E b) \<and> r \<and> c \<le> b_capacity b' \<and> b_size b' = b_size b"
proof -
  obtain d cd E1 where g: "galloc E c = (d, cd, E1)" by (metis prod_cases3)
  define E2 where "E2 = (if b_size b \<noteq> 0 then on_heap E1 (\<lambda>h. memcpy h d (b_data b) (b_size b)) else E1)"
  have c0: "0 < c" using c by simp
  have old: "b_size b = 0 \<or> buf_region b \<in> set R" "b_size b \<le> b_capacity b"
    using b by (auto simp: owns_def)
  note gr = ga.grow [OF i c0 g old c, folded E2_def]
  have gi: "c \<le> cd" "use_pool E1 = use_pool E" using galloc_inv [OF i c0 g] by simp_all
  have cd: "(if \<not> use_pool E then c else cd) = cd"
    using g by (auto simp: galloc_def split: prod.splits)
  have new: "(d, cd) \<notin> set R" using genv_inv_regions [OF gr(1)] by simp
  have b2: "owns ((d, cd) # R) b" using b by (auto simp: owns_def)
  define R' where "R' = (if 0 < b_capacity b then remove1 (buf_region b) ((d, cd) # R) else (d, cd) # R)"
  note de = dealloc_owned [OF gr(1) b2, folded R'_def]
  have res: "E' = dealloc E2 b" "b' = b\<lparr>b_data := d, b_capacity := cd, b_free := True\<rparr>" "r"
    using s c g cd by (auto simp: set_capacity_def E2_def Let_def split: if_splits)
  have ld: "load (heap_of E') e t = load (heap_of E2) e t" for e t
    unfolding res by (rule load_mem_eq [OF de(2)])
  have "(d, cd) \<noteq> buf_region b \<or> b_capacity b = 0" using new b by (auto simp: owns_def)
  then have "(d, cd) \<in> set R'" by (auto simp: R'_def)
  then have "owns R' b'" using old(2) c gi by (auto simp: owns_def res)
  moreover have "contents E' b' = contents E b"
    using gr(2) by (simp add: contents_def ld res(2))
  moreover have "keeps E R b E' R' b'"
    unfolding keeps_def
  proof (intro ballI impI)
    fix q assume q: "q \<in> set R" "q \<noteq> buf_region b"
    then have "q \<in> set R'" using de(4) by simp
    moreover have "q \<noteq> (d, cd)" using q new by metis
    moreover have "within q (fst q) (snd q)" by (simp add: within_def)
    ultimately show "q \<in> set R' \<and> q \<noteq> buf_region b' \<and>
        load (heap_of E') (fst q) (snd q) = load (heap_of E) (fst q) (snd q)"
      using gr(3) [OF q(1)] by (simp add: ld res(2))
  qed
  ultimately show ?thesis
    using de(1) res(1,3) c gi by (auto simp: refines_def res(2))
qed

lemma set_capacity_refines:
  assumes "genv_inv E R" and "owns R b" and "set_capacity E b c = (E', b', r)"
  shows "\<exists>R'. refines E R b E' R' b' (contents E b) \<and> r = (b_capacity b < c) \<and>
           c \<le> b_capacity b' \<and> b_size b' = b_size b"
proof (cases "b_capacity b < c")
  case True
  then show ?thesis using set_capacity_grow [OF assms(1,2) True assms(3)] by auto
next
  case False
  then have "E' = E" "b' = b" "\<not> r" using assms(3) by (simp_all add: set_capacity_def)
  then show ?thesis
    using False assms keeps_refl by (intro exI [of _ R]) (auto simp: refines_def)
qed


lemma append_in_place:
  assumes i: "genv_inv E R" and b: "owns R b" and q: "q \<in> set R" "q \<noteq> buf_region b" "within q d s"
    and fit: "b_size b + s \<le> b_capacity b" and s: "0 < s"
  shows "refines E R b (on_heap E (\<lambda>h. memcpy h (b_data b + b_size b) d s)) R
           (b\<lparr>b_size := b_size b + s\<rparr>) (contents E b @ load (heap_of E) d s)"
proof -
  let ?E = "on_heap E (\<lambda>h. memcpy h (b_data b + b_size b) d s)"
  have r: "buf_region b \<in> set R" using b fit s by (simp add: owns_def)
  have w: "within (buf_region b) (b_data b + b_size b) s" using fit by (simp add: within_def)
  note c = ga.copy_between [OF i r q(1) q(2) [symmetric] w q(3)]
  have "keeps E R b ?E R b"
    using c(4) by (auto simp: keeps_def within_def)
  moreover have "contents ?E (b\<lparr>b_size := b_size b + s\<rparr>) = contents E b @ load (heap_of E) d s"
    using c(2) c(3) [of "b_data b" "b_size b"]
    by (simp add: contents_def load_append regions_disjoint_def)
  ultimately show ?thesis
    using c(1) b fit r by (simp add: refines_def owns_def keeps_size)
qed

lemma append_bytes_refines:
  assumes i: "genv_inv E R" and b: "owns R b" and q: "q \<in> set R" "q \<noteq> buf_region b" "within q d s"
    and sz: "b_size b + s < 2 ^ 64" and a: "append_bytes E b d s = (E', b')"
  shows "\<exists>R'. refines E R b E' R' b' (contents E b @ load (heap_of E) d s)"
proof (cases "s = 0")
  case True
  then show ?thesis
    using a i b keeps_refl by (intro exI [of _ R]) (auto simp: append_bytes_def refines_def)
next
  case False
  define E1 b1 where E1: "E1 = (if b_capacity b < b_size b + s then fst (set_capacity E b (b_size b + s)) else E)"
    and b1: "b1 = (if b_capacity b < b_size b + s then fst (snd (set_capacity E b (b_size b + s))) else b)"
  have "\<exists>R1. refines E R b E1 R1 b1 (contents E b) \<and> b_size b + s \<le> b_capacity b1 \<and>
      b_size b1 = b_size b"
  proof (cases "b_capacity b < b_size b + s")
    case True
    then have "set_capacity E b (b_size b + s) = (E1, b1, snd (snd (set_capacity E b (b_size b + s))))"
      by (simp add: E1 b1)
    from set_capacity_refines [OF i b this] show ?thesis by blast
  next
    case False
    then show ?thesis
      using i b keeps_refl by (intro exI [of _ R]) (simp add: E1 b1 refines_def)
  qed
  then obtain R1 where R1: "refines E R b E1 R1 b1 (contents E b)" "b_size b + s \<le> b_capacity b1"
      "b_size b1 = b_size b" by blast
  have q1: "q \<in> set R1" "q \<noteq> buf_region b1" using R1(1) q by (auto simp: refines_def keeps_def)
  have ld: "load (heap_of E1) d s = load (heap_of E) d s"
    using R1(1) unfolding refines_def by (elim conjE) (rule keeps_sub [OF _ q])
  have res: "E' = on_heap E1 (\<lambda>h. memcpy h (b_data b1 + b_size b1) d s)"
      "b' = b1\<lparr>b_size := b_size b1 + s\<rparr>"
    using a False sz R1(3)
    by (auto simp: append_bytes_def sz_simps Let_def E1 b1 split: if_splits prod.splits)
  have "refines E1 R1 b1 E' R1 b' (contents E1 b1 @ load (heap_of E1) d s)"
    unfolding res using R1 q1 q(3) False by (intro append_in_place) (auto simp: refines_def)
  then show ?thesis
    using R1(1) ld keeps_trans by (intro exI [of _ R1]) (auto simp: refines_def)
qed

lemma flush_refines:
  assumes i: "genv_inv E R" and b: "owns R b"
  shows "\<exists>E' b'. buffer_flush E b n = ok (E', b') \<and>
           refines E R b E' R b' (if n = 0 then [] else drop n (contents E b))"
proof (cases "n = 0 \<or> b_size b \<le> n")
  case True
  then show ?thesis
    using i b keeps_refl
    by (auto simp: buffer_flush_def refines_def contents_def buffer_clear_def owns_def keeps_size)
next
  case False
  let ?k = "b_size b - n"
  let ?f = "\<lambda>h. if (2 * n) mod 2 ^ 64 < b_size b then memmove h (b_data b) (b_data b + n) ?k
                 else memcpy h (b_data b) (b_data b + n) ?k"
  let ?b = "b\<lparr>b_size := ?k\<rparr>"
  have r: "buf_region b \<in> set R" and le: "b_size b \<le> b_capacity b"
    using b False by (auto simp: owns_def)
  have acc: "accessible (heap_of E) (b_data b) ?k" "accessible (heap_of E) (b_data b + n) ?k"
    using le False by (auto intro!: ga.region_accessible [OF i r] simp: within_def)
  have dis: "regions_disjoint (b_data b) ?k (b_data b + n) ?k" if "\<not> (2 * n) mod 2 ^ 64 < b_size b"
    using that le_trans [OF _ mod_less_eq_dividend, of "b_size b" "2 * n" "2 ^ 64"]
    by (auto simp: regions_disjoint_def not_less)
  have nub: "\<not> ub (heap_of E)" using genv_inv_regions [OF i] by simp
  have f: "blocks (?f (heap_of E)) = blocks (heap_of E)" "mallocf (?f (heap_of E)) = mallocf (heap_of E)"
      "\<not> ub (?f (heap_of E))"
    using acc dis nub by (simp_all add: memmove_def memcpy_def)
  have m: "\<forall>a. a < b_data b \<or> b_data b + b_capacity b \<le> a \<longrightarrow> mem (?f (heap_of E)) a = mem (heap_of E) a"
    using le False by (auto simp: memmove_def memcpy_def copy_mem_def)
  note w = write_own [OF i r, of ?f, OF f m]
  have "load (?f (heap_of E)) (b_data b) ?k = drop n (contents E b)"
    using False by (simp add: contents_def drop_load)
  then have "refines E R b (on_heap E ?f) R ?b (drop n (contents E b))"
    using w b by (auto simp: refines_def owns_def contents_def keeps_size)
  moreover have "buffer_flush E b n = ok (on_heap E ?f, ?b)"
    using False by (simp add: buffer_flush_def)
  ultimately show ?thesis using False by simp
qed

lemma memchr_Some:
  "memchr h p v n = Some a \<Longrightarrow> p \<le> a \<and> a < p + n \<and> mem h a = v \<and> (\<forall>j. p \<le> j \<and> j < a \<longrightarrow> mem h j \<noteq> v)"
  by (auto simp: memchr_def find_Some_iff nth_upt)
     (metis add_diff_inverse_nat less_diff_conv2 linorder_not_less nat_add_left_cancel_less)

lemma memchr_None: "memchr h p v n = None \<longleftrightarrow> (\<forall>j. p \<le> j \<and> j < p + n \<longrightarrow> mem h j \<noteq> v)"
  by (auto simp: memchr_def find_None_iff)

lemma rfind_loop_spec:
  assumes "m \<le> npos"
  shows "rfind_loop E b v m = npos \<and> (\<forall>k<m. mem (heap_of E) (b_data b + k) \<noteq> v) \<or>
         rfind_loop E b v m < m \<and> mem (heap_of E) (b_data b + rfind_loop E b v m) = v \<and>
         (\<forall>k<m. rfind_loop E b v m < k \<longrightarrow> mem (heap_of E) (b_data b + k) \<noteq> v)"
  using assms by (induction m) (auto simp: less_Suc_eq)


subsection \<open>What the buffer promises\<close>

text \<open>Two live regions of a fresh pool, for the witnesses.\<close>

definition demo_env :: "genv \<times> (nat \<times> nat) \<times> (nat \<times> nat)" where
  "demo_env =
     (let (p, c, E1) = galloc (env_of demo_pool) 10; (q, k, E2) = galloc E1 20
      in (E2, (p, c), (q, k)))"

abbreviation demo_E :: genv where "demo_E \<equiv> fst demo_env"
abbreviation demo_own :: "nat \<times> nat" where "demo_own \<equiv> fst (snd demo_env)"
abbreviation demo_src :: "nat \<times> nat" where "demo_src \<equiv> snd (snd demo_env)"
abbreviation demo_R :: "(nat \<times> nat) list" where "demo_R \<equiv> [demo_src, demo_own]"

definition demo_buf :: "nat \<Rightarrow> buffer" where
  "demo_buf n = \<lparr>b_data = fst demo_own, b_size = n, b_capacity = snd demo_own, b_free = True\<rparr>"

lemma demo_env_inv:
  "genv_inv demo_E demo_R" "10 \<le> snd demo_own" "20 \<le> snd demo_src" "use_pool demo_E"
proof -
  obtain p c E1 where a: "galloc (env_of demo_pool) 10 = (p, c, E1)" by (metis prod_cases3)
  obtain q k E2 where b: "galloc E1 20 = (q, k, E2)" by (metis prod_cases3)
  have "genv_inv (env_of demo_pool) []"
    using pool_run_inv [OF demo_pool_run] by (auto simp: genv_inv_def)
  note g1 = galloc_inv [OF this _ a]
  then have "genv_inv E1 [(p, c)]" by simp
  note g2 = galloc_inv [OF this _ b]
  show "genv_inv demo_E demo_R" "10 \<le> snd demo_own" "20 \<le> snd demo_src" "use_pool demo_E"
    using g1 g2 a b by (simp_all add: demo_env_def)
qed

lemma demo_buf_simps [simp]:
  "b_size (demo_buf n) = n" "b_free (demo_buf n)" "b_data (demo_buf n) = fst demo_own"
  "b_capacity (demo_buf n) = snd demo_own"
  by (simp_all add: demo_buf_def)

lemma demo_owns: "n \<le> 10 \<Longrightarrow> owns demo_R (demo_buf n)"
  using demo_env_inv(2) by (simp add: owns_def)

lemma demo_src_other: "demo_src \<noteq> buf_region (demo_buf n)"
  using genv_inv_regions [OF demo_env_inv(1)] by simp

text \<open>Growing a buffer keeps its contents exactly, yields at least the capacity asked for, and
  leaves every other live region of the process untouched, whether memory comes from the pool or
  from the plain heap. A request that already fits changes nothing.\<close>

theorem set_capacity_keeps_contents:
  assumes "genv_inv E R" and "owns R b" and "set_capacity E b c = (E', b', r)"
  shows "\<exists>R'. refines E R b E' R' b' (contents E b) \<and> r = (b_capacity b < c) \<and> c \<le> b_capacity b'"
  using set_capacity_refines [OF assms] by blast

theorem set_capacity_keeps_contents_witness:
  "\<exists>E' b' r. set_capacity demo_E (demo_buf 5) 60000 = (E', b', r) \<and>
     60000 \<le> b_capacity b' \<and> contents E' b' = contents demo_E (demo_buf 5)"
proof -
  obtain E' b' r where s: "set_capacity demo_E (demo_buf 5) 60000 = (E', b', r)" by (metis prod_cases3)
  from set_capacity_keeps_contents [OF demo_env_inv(1) demo_owns s] s show ?thesis
    by (auto simp: refines_def)
qed

text \<open>C31: \<open>append\<close> refines list concatenation: afterwards the buffer holds its old bytes followed by
  the source bytes, in memory it owns, with no undefined behaviour and every other region intact.
  The source may be any part of another live region; \<^verbatim>\<open>size_ + s\<close> must fit \<^verbatim>\<open>size_t\<close>.\<close>

theorem append_concatenates:
  assumes "genv_inv E R" and "owns R b" and "q \<in> set R" and "q \<noteq> buf_region b" and "within q d s"
    and "b_size b + s < 2 ^ 64" and "append_bytes E b d s = (E', b')"
  shows "\<exists>R'. refines E R b E' R' b' (contents E b @ load (heap_of E) d s)"
  using assms by (rule append_bytes_refines)

theorem append_concatenates_witness:
  "\<exists>E' b'. append_bytes demo_E (demo_buf 5) (fst demo_src) 20 = (E', b') \<and>
     contents E' b' = contents demo_E (demo_buf 5) @ load (heap_of demo_E) (fst demo_src) 20"
proof -
  obtain E' b' where a: "append_bytes demo_E (demo_buf 5) (fst demo_src) 20 = (E', b')" by force
  have "within demo_src (fst demo_src) 20" using demo_env_inv(3) by (simp add: within_def)
  from append_concatenates [OF demo_env_inv(1) demo_owns _ demo_src_other this _ a] a show ?thesis
    by (auto simp: refines_def)
qed

text \<open>\<open>flush\<close> never throws and drops exactly the first \<open>n\<close> bytes (all of them for \<open>n = 0\<close>). The
  choice between \<^verbatim>\<open>memmove\<close> and \<^verbatim>\<open>memcpy\<close> is sound: \<^verbatim>\<open>memcpy\<close> is used only when source
  and destination do not overlap, even when \<^verbatim>\<open>2*bytes\<close> wraps around.\<close>

theorem flush_drops_prefix:
  assumes "genv_inv E R" and "owns R b"
  shows "\<exists>E' b'. buffer_flush E b n = ok (E', b') \<and>
           refines E R b E' R b' (if n = 0 then [] else drop n (contents E b))"
  using assms by (rule flush_refines)

theorem flush_drops_prefix_witness:
  "\<exists>E' b'. buffer_flush demo_E (demo_buf 8) 5 = ok (E', b') \<and>
     contents E' b' = drop 5 (contents demo_E (demo_buf 8)) \<and> \<not> ub (heap_of E')"
  using flush_drops_prefix [OF demo_env_inv(1) demo_owns, of 8 5]
  by (auto simp: refines_def dest: genv_inv_regions)

lemma buffer_find_spec:
  assumes "b_size b \<le> npos" and f: "f = buffer_find E b v pos"
  shows "if f = npos then \<forall>k<b_size b. pos \<le> k \<longrightarrow> contents E b ! k \<noteq> v
         else pos \<le> f \<and> f < b_size b \<and> contents E b ! f = v \<and>
              (\<forall>k. pos \<le> k \<and> k < f \<longrightarrow> contents E b ! k \<noteq> v)"
proof (cases "memchr (heap_of E) (b_data b + pos) v (b_size b - pos)")
  case None
  then have "mem (heap_of E) (b_data b + k) \<noteq> v" if "pos \<le> k" "k < b_size b" for k
    using that by (simp add: memchr_None)
  with None show ?thesis by (simp add: f buffer_find_def contents_def)
next
  case (Some a)
  note s = memchr_Some [OF Some]
  show ?thesis
  proof (cases "pos < b_size b")
    case True
    define i where "i = a - b_data b"
    have i: "a = b_data b + i" "pos \<le> i" "i < b_size b" using s True by (auto simp: i_def)
    then have "f = i" "f \<noteq> npos" using True Some assms(1) by (simp_all add: f buffer_find_def)
    with s i show ?thesis by (simp add: contents_def)
  next
    case False
    then show ?thesis by (simp add: f buffer_find_def)
  qed
qed

lemma buffer_rfind_spec:
  assumes "b_size b \<le> npos" and g: "g = buffer_rfind E b v pos"
  shows "if g = npos then \<forall>k<b_size b. k \<le> pos \<longrightarrow> contents E b ! k \<noteq> v
         else g \<le> pos \<and> g < b_size b \<and> contents E b ! g = v \<and>
              (\<forall>k<b_size b. g < k \<and> k \<le> pos \<longrightarrow> contents E b ! k \<noteq> v)"
proof (cases "b_size b = 0")
  case True
  then show ?thesis by (simp add: g buffer_rfind_def)
next
  case False
  define m where "m = min pos (b_size b - 1) + 1"
  have gm: "g = rfind_loop E b v m"
    using False by (simp add: g buffer_rfind_def m_def Let_def min_def)
  have m: "m \<le> b_size b" "\<And>k. k < m \<longleftrightarrow> k \<le> pos \<and> k < b_size b" using False by (auto simp: m_def)
  then have "m \<le> npos" using assms(1) by simp
  from rfind_loop_spec [OF this, of E b v, folded gm] show ?thesis
    using m assms(1) by (auto simp: contents_def)
qed

text \<open>\<open>find\<close> returns the position of the first occurrence of the byte at or after \<open>pos\<close>, and
  \<open>npos\<close> exactly when there is none; \<open>rfind\<close> returns the last occurrence at or before \<open>pos\<close>.\<close>

theorem find_and_rfind_spec:
  assumes "b_size b \<le> npos" and "f = buffer_find E b v pos" and "g = buffer_rfind E b v pos"
  shows "(if f = npos then \<forall>k<b_size b. pos \<le> k \<longrightarrow> contents E b ! k \<noteq> v
          else pos \<le> f \<and> f < b_size b \<and> contents E b ! f = v \<and>
               (\<forall>k. pos \<le> k \<and> k < f \<longrightarrow> contents E b ! k \<noteq> v)) \<and>
         (if g = npos then \<forall>k<b_size b. k \<le> pos \<longrightarrow> contents E b ! k \<noteq> v
          else g \<le> pos \<and> g < b_size b \<and> contents E b ! g = v \<and>
               (\<forall>k<b_size b. g < k \<and> k \<le> pos \<longrightarrow> contents E b ! k \<noteq> v))"
  using buffer_find_spec [OF assms(1,2)] buffer_rfind_spec [OF assms(1,3)] by (rule conjI)

theorem find_and_rfind_spec_witness:
  "(if buffer_rfind demo_E (demo_buf 3) 7 9 = npos then \<forall>k<3. contents demo_E (demo_buf 3) ! k \<noteq> 7
    else contents demo_E (demo_buf 3) ! buffer_rfind demo_E (demo_buf 3) 7 9 = 7)"
  using find_and_rfind_spec [OF _ refl refl, of "demo_buf 3" demo_E 7 9] by (simp add: npos_def split: if_splits)

text \<open>A view of a buffer is the sub-list it names, clipped at the end of the buffer, and never
  owns memory; a start at or beyond the end throws \<open>Out_of_range\<close>. This needs \<^verbatim>\<open>pos + len\<close> not
  to wrap around.\<close>

theorem view_is_sublist:
  assumes "pos + len < 2 ^ 64"
  shows "(case buffer_view b pos len of
            Inl e \<Rightarrow> e = Out_of_range \<and> b_size b \<le> pos
          | Inr v \<Rightarrow> pos < b_size b \<and> \<not> b_free v \<and> contents E v = take len (drop pos (contents E b)))"
  using assms by (auto simp: buffer_view_def sz_simps contents_def drop_load take_load)

theorem view_is_sublist_witness:
  "\<exists>v. buffer_view (demo_buf 9) 2 100 = ok v \<and>
     contents demo_E v = take 100 (drop 2 (contents demo_E (demo_buf 9)))"
  using view_is_sublist [of 2 100 "demo_buf 9" demo_E]
  by (simp add: buffer_view_def sz_simps)

text \<open>When \<^verbatim>\<open>pos + len\<close> wraps, \<open>view\<close> returns a view that claims more bytes than the whole
  buffer has: for every start inside the buffer but its first byte there is such a length.\<close>

theorem view_wraps:
  assumes "0 < pos" and "pos < b_size b" and "b_size b < 2 ^ 63"
  shows "\<exists>v. buffer_view b pos (2 ^ 64 - pos) = ok v \<and> b_size b < b_size v"
  using assms by (simp add: buffer_view_def sz_add_def)

theorem view_wraps_witness:
  "\<exists>v. buffer_view (demo_buf 9) 4 (2 ^ 64 - 4) = ok v \<and> 9 < b_size v"
  using view_wraps [of 4 "demo_buf 9"] by simp

text \<open>Copy assignment from a view (a buffer that does not own its bytes) into a buffer with enough
  capacity copies nothing: only the size changes, the bytes are whatever was there before.\<close>

theorem assign_from_view_keeps_old_bytes:
  assumes "\<not> b_free x" and "b_size x \<le> b_capacity b" and "b_data b \<noteq> 0"
  shows "buffer_assign_copy E b x = (E, b\<lparr>b_size := b_size x\<rparr>)"
  using assms by (simp add: buffer_assign_copy_def)

theorem assign_from_view_keeps_old_bytes_witness:
  "buffer_assign_copy demo_E (demo_buf 3) \<lparr>b_data = fst demo_src, b_size = 8, b_capacity = 8,
     b_free = False\<rparr> = (demo_E, demo_buf 3\<lparr>b_size := 8\<rparr>)"
proof -
  have "b_data (demo_buf 3) \<noteq> 0"
    using genv_inv_regions [OF demo_env_inv(1)] by simp
  then show ?thesis
    using assign_from_view_keeps_old_bytes [of "\<lparr>b_data = fst demo_src, b_size = 8, b_capacity = 8,
      b_free = False\<rparr>" "demo_buf 3" demo_E] demo_env_inv(2) by simp
qed


lemma find_by_address_frame:
  "find_by_address (P\<lparr>mp_heap := h\<rparr>) = find_by_address P"
  "find_by_address (count_acq P n) = find_by_address P"
  "find_by_address (set_bucket P i ((mp_bucket P i)\<lparr>bk_bucket := st\<rparr>)) = find_by_address P"
proof -
  have "is_mine (mp_bucket (set_bucket P i ((mp_bucket P i)\<lparr>bk_bucket := st\<rparr>)) j) =
        is_mine (mp_bucket P j)" for j
    by (simp add: set_bucket_def)
  then show "find_by_address (set_bucket P i ((mp_bucket P i)\<lparr>bk_bucket := st\<rparr>)) = find_by_address P"
    by (simp add: find_by_address_def fun_eq_iff set_bucket_def)
qed (simp_all add: find_by_address_def count_acq_def Let_def fun_eq_iff)

lemma pick_bucket_own_size: "pick_bucket (bucket_chunk_size i) = Some i"
  by (cases i) (simp_all add: pick_bucket_def)

text \<open>In pool mode \<^verbatim>\<open>assign\<close> records the requested size as the capacity of the pool chunk it
  took (line 275 overwrites \<^verbatim>\<open>mch.capacity\<close>). When such a buffer is destroyed the chunk goes back
  to its bucket with that smaller capacity, and the next caller who asks for a full chunk of the
  bucket is handed one that claims only \<open>s\<close> bytes.\<close>

theorem assign_shrinks_pool_chunk:
  assumes "genv_inv E R" and "use_pool E" and "0 < s" and "pick_bucket s = Some i"
    and "bk_bucket (mp_bucket (pool E) i) \<noteq> []"
    and "buffer_assign E empty_buffer d s = (E1, b)" and "E2 = dealloc E1 b"
    and "acquire (pool E2) (bucket_chunk_size i) = (c, P)"
  shows "ch_capacity c = s"
proof -
  obtain H where "pool_inv (pool E) H" using assms(1) by (auto simp: genv_inv_def)
  then have wf: "pool_wf (pool E)" by (simp add: pool_inv_def)
  obtain m rest where st: "bk_bucket (mp_bucket (pool E) i) = m # rest"
    using assms(5) by (cases "bk_bucket (mp_bucket (pool E) i)") auto
  let ?P = "count_acq (set_bucket (pool E) i ((mp_bucket (pool E) i)\<lparr>bk_bucket := rest\<rparr>)) (ch_capacity m)"
  have g: "galloc E s = (ch_ptr m, ch_capacity m, E\<lparr>pool := ?P\<rparr>)"
    using assms(2-4) st by (simp add: galloc_def acquire_def Bucket_acquire_def)
  obtain k where k: "k < bk_count (mp_bucket (pool E) i)" "ch_ptr m = slot (mp_bucket (pool E) i) k"
    using bucket_wf_chunk [OF pool_wfD(4) [OF wf], of m i] st by auto
  have pos: "0 < ch_ptr m"
    using owned_positive(1) [OF wf] free_chunk_owned(1) [OF wf, of m i] st by (auto simp: owned_def)
  have E1: "\<exists>h. pool E1 = ?P\<lparr>mp_heap := h\<rparr>" "use_pool E1"
    and b: "b_data b = ch_ptr m" "b_capacity b = s" "b_free b"
    using assms(2,3,6) g
    by (auto simp: buffer_assign_def empty_buffer_def dealloc_def Let_def split: if_splits)
       (metis memPool.surjective memPool.update_convs(1))
  then obtain h where h: "pool E1 = ?P\<lparr>mp_heap := h\<rparr>" by blast
  have fa: "find_by_address (pool E1) (ch_ptr m) = Some i"
    unfolding h find_by_address_frame using find_by_address_slot [OF wf k(1)] k(2) by simp
  have mb: "mp_bucket (pool E1) i = (mp_bucket (pool E) i)\<lparr>bk_bucket := rest\<rparr>"
    unfolding h by (simp add: count_acq_def set_bucket_def Let_def)
  have mine: "is_mine (mp_bucket (pool E1) i) (ch_ptr m)"
    unfolding mb using slot_in_bucket [OF pool_wfD(4) [OF wf] k(1)] k(2) by (simp add: is_mine_def)
  have nb: "\<not> mp_bailing (pool E1)"
    unfolding h using pool_wfD(6) [OF wf] by (simp add: count_acq_def set_bucket_def Let_def)
  have "bk_bucket (mp_bucket (pool E2) i) = (chunk_of (ch_ptr m) s)\<lparr>ch_in_pool := True\<rparr> # rest"
    using fa mine nb pos E1(2) b assms(3,7) mb
    by (simp add: dealloc_def gfree_def release_def chunk_of_def Bucket_release_def set_bucket_def Let_def)
  then have "c = (chunk_of (ch_ptr m) s)\<lparr>ch_in_pool := False, ch_pool_type := POOL\<rparr>"
    using assms(8) bucket_chunk_size_pos [of i]
    by (simp add: acquire_def pick_bucket_own_size Bucket_acquire_def)
  then show ?thesis by (simp add: chunk_of_def)
qed

theorem assign_shrinks_pool_chunk_witness:
  "\<exists>E1 b c P. buffer_assign (env_of demo_pool) empty_buffer 0 3 = (E1, b) \<and>
     acquire (pool (dealloc E1 b)) 32 = (c, P) \<and> ch_capacity c = 3"
proof -
  obtain E1 b where a: "buffer_assign (env_of demo_pool) empty_buffer 0 3 = (E1, b)" by force
  obtain c P where c: "acquire (pool (dealloc E1 b)) 32 = (c, P)" by force
  have inv: "genv_inv (env_of demo_pool) []"
    using pool_run_inv [OF demo_pool_run] by (auto simp: genv_inv_def)
  have "bk_bucket (mp_bucket (pool (env_of demo_pool)) B32) \<noteq> []"
    using demo_bucket_nonempty by auto
  then have "ch_capacity c = 3"
    using assign_shrinks_pool_chunk [OF inv _ _ _ _ a refl, of B32] c by (simp add: pick_bucket_def)
  with a c show ?thesis by blast
qed

end
