(* ===== verification/Convert.thy ===== *)
theory Convert
  imports Prelude
begin

text \<open>
  Checked conversions and arithmetic: \<^verbatim>\<open>common/convert.hpp\<close>, \<^verbatim>\<open>common/number.hpp\<close> and
  \<^verbatim>\<open>common/numops.hpp\<close>.

  The templates are functions of the integer types they are instantiated with: a type is its signedness
  and width (\<open>ity\<close>), a value is an integer. The integer promotions, the usual arithmetic conversions
  (\<open>common\<close>, for the data model with 32-bit \<^verbatim>\<open>int\<close> and 64-bit \<^verbatim>\<open>long\<close>) and the undefined overflow
  of signed arithmetic (\<open>arith\<close>) are written out, because the comparisons with the limits of the
  target type go through them. Combinations that a \<^verbatim>\<open>static_assert\<close> refuses are not meant.

  Shown: the narrowing casts and the sums and differences of unsigned numbers are exact; the casts
  that mix signedness, the subtraction of negative numbers and the numeric cast of zero are not.
\<close>

section \<open>Integer types\<close>

record ity =
  ty_signed :: bool
  ty_bits :: nat

definition tmin :: "ity \<Rightarrow> int" where
  "tmin t = (if ty_signed t then - (2 ^ (ty_bits t - 1)) else 0)"

definition tmax :: "ity \<Rightarrow> int" where
  "tmax t = (if ty_signed t then 2 ^ (ty_bits t - 1) - 1 else 2 ^ ty_bits t - 1)"

definition fits :: "ity \<Rightarrow> int \<Rightarrow> bool" where
  "fits t v \<longleftrightarrow> tmin t \<le> v \<and> v \<le> tmax t"

text \<open>\<^verbatim>\<open>static_cast\<close> to an integer type: modulo two to the number of bits.\<close>

definition conv :: "ity \<Rightarrow> int \<Rightarrow> int" where
  "conv t v = (v - tmin t) mod 2 ^ ty_bits t + tmin t"

definition int_type :: ity where
  "int_type = \<lparr>ty_signed = True, ty_bits = 32\<rparr>"

definition promoted :: "ity \<Rightarrow> ity" where
  "promoted t = (if ty_bits t < 32 then int_type else t)"

text \<open>The usual arithmetic conversions.\<close>

definition common :: "ity \<Rightarrow> ity \<Rightarrow> ity" where
  "common t u =
     (let t = promoted t; u = promoted u
      in if ty_signed t = ty_signed u then (if ty_bits t < ty_bits u then u else t)
         else
           let s = (if ty_signed t then t else u); n = (if ty_signed t then u else t)
           in if ty_bits s \<le> ty_bits n then n else s)"

definition c_less :: "ity \<Rightarrow> int \<Rightarrow> ity \<Rightarrow> int \<Rightarrow> bool" where
  "c_less t a u b \<longleftrightarrow> conv (common t u) a < conv (common t u) b"

definition c_le :: "ity \<Rightarrow> int \<Rightarrow> ity \<Rightarrow> int \<Rightarrow> bool" where
  "c_le t a u b \<longleftrightarrow> conv (common t u) a \<le> conv (common t u) b"

text \<open>Arithmetic: signed overflow is undefined.\<close>

definition arith :: "ity \<Rightarrow> int \<Rightarrow> int result" where
  "arith t v = (if ty_signed t \<and> \<not> fits t v then raise Undefined_behaviour else ok (conv t v))"

definition c_add :: "ity \<Rightarrow> int \<Rightarrow> ity \<Rightarrow> int \<Rightarrow> int result" where
  "c_add t a u b = arith (common t u) (conv (common t u) a + conv (common t u) b)"

definition c_sub :: "ity \<Rightarrow> int \<Rightarrow> ity \<Rightarrow> int \<Rightarrow> int result" where
  "c_sub t a u b = arith (common t u) (conv (common t u) a - conv (common t u) b)"

section \<open>Casts\<close>

definition max_of :: "ity \<Rightarrow> int" where
  "max_of t = conv \<lparr>ty_signed = False, ty_bits = 64\<rparr> (tmax t)"

definition down_cast_opt :: "ity \<Rightarrow> ity \<Rightarrow> int option \<Rightarrow> int option" where
  "down_cast_opt t u v =
     (case v of
        None \<Rightarrow> None
      | Some v \<Rightarrow> if c_less t (tmax t) u v \<or> c_less u v t (tmin t) then None else Some (conv t v))"

definition down_cast :: "ity \<Rightarrow> ity \<Rightarrow> int \<Rightarrow> int option" where
  "down_cast t u v = down_cast_opt t u (Some v)"

definition try_down_cast :: "ity \<Rightarrow> ity \<Rightarrow> int \<Rightarrow> int result" where
  "try_down_cast t u v =
     (if c_less t (tmax t) u v \<or> c_less u v t (tmin t) then raise Cast_overflow else ok (conv t v))"

definition to_signed_cast_opt :: "ity \<Rightarrow> ity \<Rightarrow> int option \<Rightarrow> int option result" where
  "to_signed_cast_opt t u v =
     (case v of
        None \<Rightarrow> ok None
      | Some v \<Rightarrow>
          if c_le u v t (tmax t) then ok (Some (conv t v))
          else if c_le t (tmin t) u v then
            (case c_sub u v t (tmin t) of
               Inl e \<Rightarrow> Inl e
             | Inr d \<Rightarrow> (case c_add t (conv t d) t (tmin t) of Inl e \<Rightarrow> Inl e | Inr r \<Rightarrow> ok (Some (conv t r))))
          else ok None)"

definition to_signed_cast :: "ity \<Rightarrow> ity \<Rightarrow> int \<Rightarrow> int option result" where
  "to_signed_cast t u v = to_signed_cast_opt t u (Some v)"

definition from_signed_cast_opt :: "ity \<Rightarrow> int option \<Rightarrow> int option" where
  "from_signed_cast_opt t v = (case v of None \<Rightarrow> None | Some v \<Rightarrow> if 0 \<le> v then Some (conv t v) else None)"

definition from_signed_cast :: "ity \<Rightarrow> int \<Rightarrow> int option" where
  "from_signed_cast t v = from_signed_cast_opt t (Some v)"

definition try_from_signed_cast :: "ity \<Rightarrow> int \<Rightarrow> int option result" where
  "try_from_signed_cast t v = (if 0 \<le> v then ok (Some (conv t v)) else raise Cast_overflow)"

definition make_unsigned :: "ity \<Rightarrow> ity" where "make_unsigned t = t\<lparr>ty_signed := False\<rparr>"

definition make_signed :: "ity \<Rightarrow> ity" where "make_signed t = t\<lparr>ty_signed := True\<rparr>"

definition sign_remove :: "ity \<Rightarrow> int \<Rightarrow> int option" where
  "sign_remove u v = from_signed_cast (make_unsigned u) v"

definition try_sign_remove :: "ity \<Rightarrow> int \<Rightarrow> int option result" where
  "try_sign_remove u v = try_from_signed_cast (make_unsigned u) v"

definition sign_add :: "ity \<Rightarrow> int \<Rightarrow> int option result" where
  "sign_add u v = to_signed_cast (make_signed u) u v"

definition down_cast_signed :: "ity \<Rightarrow> ity \<Rightarrow> int \<Rightarrow> int option" where
  "down_cast_signed t u v = down_cast_opt t (make_unsigned u) (sign_remove u v)"

definition up_cast :: "ity \<Rightarrow> int \<Rightarrow> int" where
  "up_cast t v = conv t v"

section \<open>Numbers that may be missing\<close>

definition same_signness :: "ity \<Rightarrow> ity \<Rightarrow> bool" where
  "same_signness t u \<longleftrightarrow> ty_signed t = ty_signed u"

definition fitting_size :: "ity \<Rightarrow> ity \<Rightarrow> bool" where
  "fitting_size t u \<longleftrightarrow> ty_bits u \<le> ty_bits t"

definition can_static_cast :: "ity \<Rightarrow> ity \<Rightarrow> bool" where
  "can_static_cast t u \<longleftrightarrow> same_signness t u \<and> fitting_size t u"

definition num_create :: "ity \<Rightarrow> ity \<Rightarrow> int \<Rightarrow> int option" where
  "num_create t u b =
     (if can_static_cast t u then Some (conv t b)
      else if \<not> ty_signed t \<and> ty_signed u then down_cast_opt t (make_unsigned u) (sign_remove u b)
      else down_cast t u b)"

definition num_new :: "ity \<Rightarrow> ity \<Rightarrow> int \<Rightarrow> int option" where
  "num_new t u v = (if can_static_cast t u then Some (conv t v) else num_create t u v)"



definition num_value :: "int option \<Rightarrow> int result" where
  "num_value n = (case n of None \<Rightarrow> raise Bad_optional_access | Some v \<Rightarrow> ok v)"

definition numeric_cast :: "ity \<Rightarrow> int option \<Rightarrow> int option result" where
  "numeric_cast t n =
     (case num_value n of Inl e \<Rightarrow> Inl e | Inr v \<Rightarrow> ok (if v \<noteq> 0 then num_create t t (conv t v) else None))"

definition promote :: "ity \<Rightarrow> ity \<Rightarrow> int option \<Rightarrow> int option result" where
  "promote t u n =
     (if can_static_cast t u then (case num_value n of Inl e \<Rightarrow> Inl e | Inr v \<Rightarrow> ok (num_new t u v)) else ok None)"

definition to_signed :: "ity \<Rightarrow> ity \<Rightarrow> int option \<Rightarrow> int option result" where
  "to_signed t u n = (case num_value n of Inl e \<Rightarrow> Inl e | Inr v \<Rightarrow> to_signed_cast t u v)"

definition c_abs :: "ity \<Rightarrow> int \<Rightarrow> int result" where
  "c_abs t a = arith (promoted t) (\<bar>a\<bar>)"

definition safe_add2 :: "ity \<Rightarrow> int \<Rightarrow> int \<Rightarrow> int option result" where
  "safe_add2 t a b =
     (let sum = (case c_add t a t b of Inl e \<Rightarrow> Inl e | Inr s \<Rightarrow> ok (Some (conv t s)));
          head = (\<lambda>a b. case c_sub t (tmax t) (promoted t) a of
                    Inl e \<Rightarrow> Inl e
                  | Inr m \<Rightarrow> if m < b then ok None else sum)
      in if ty_signed t then
           if a < 0 \<and> b < 0 then
             (case c_abs t b of
                Inl e \<Rightarrow> Inl e
              | Inr b' \<Rightarrow> (case c_abs t a of Inl e \<Rightarrow> Inl e | Inr a' \<Rightarrow> head a' b'))
           else if 0 < a \<and> 0 < b then head a b
           else sum
         else head a b)"

fun safe_add :: "ity \<Rightarrow> int list \<Rightarrow> int option result" where
  "safe_add t [a, b] = safe_add2 t a b"
| "safe_add t (a # as) =
     (case safe_add t as of
        Inl e \<Rightarrow> Inl e
      | Inr None \<Rightarrow> ok None
      | Inr (Some r) \<Rightarrow> safe_add2 t a r)"
| "safe_add t [] = ok None"

definition is_negative :: "ity \<Rightarrow> int option \<Rightarrow> bool" where
  "is_negative t n \<longleftrightarrow> ty_signed t \<and> (case n of None \<Rightarrow> False | Some v \<Rightarrow> v < 0)"


definition num_sub :: "ity \<Rightarrow> ity \<Rightarrow> int option \<Rightarrow> int option \<Rightarrow> int option result" where
  "num_sub t u a b =
     (case (a, b) of
        (Some x, Some y) \<Rightarrow>
          (let diff = (case c_sub t x u y of Inl e \<Rightarrow> Inl e | Inr d \<Rightarrow> ok (Some (conv t d)))
           in case num_create t u y of
                None \<Rightarrow> ok None
              | Some c \<Rightarrow>
                  if is_negative u b then
                    (case c_sub t (tmax t) u y of
                       Inl e \<Rightarrow> Inl e
                     | Inr m \<Rightarrow> if c_le t x (common t u) m then diff else ok None)
                  else
                    (case c_add t (tmin t) t c of
                       Inl e \<Rightarrow> Inl e
                     | Inr m \<Rightarrow> if c_le (common t t) m t x then diff else ok None))
      | _ \<Rightarrow> ok None)"

section \<open>Conversions\<close>

definition ty_ok :: "ity \<Rightarrow> bool" where
  "ty_ok t \<longleftrightarrow> ty_bits t \<in> {8, 16, 32, 64}"

lemma ty_span: "ty_ok t \<Longrightarrow> tmax t = tmin t + 2 ^ ty_bits t - 1"
  by (auto simp: ty_ok_def tmin_def tmax_def)

lemma conv_range: "ty_ok t \<Longrightarrow> fits t (conv t v)"
  using pos_mod_sign [of "2 ^ ty_bits t" "v - tmin t"] pos_mod_bound [of "2 ^ ty_bits t" "v - tmin t"]
  by (simp add: fits_def conv_def ty_span)

lemma conv_id: "ty_ok t \<Longrightarrow> fits t v \<Longrightarrow> conv t v = v"
  by (simp add: conv_def fits_def ty_span)

lemma fits_ends [simp]: "ty_ok t \<Longrightarrow> fits t (tmin t)" "ty_ok t \<Longrightarrow> fits t (tmax t)"
  by (simp_all add: fits_def ty_span)

lemma common_ok: "ty_ok t \<Longrightarrow> ty_ok u \<Longrightarrow> ty_ok (common t u)"
  by (auto simp: ty_ok_def common_def promoted_def int_type_def Let_def)

lemma common_same [simp]: "common t t = promoted t"
  by (simp add: common_def Let_def)

lemma promoted_ok: "ty_ok t \<Longrightarrow> ty_ok (promoted t)"
  by (auto simp: ty_ok_def promoted_def int_type_def)

lemma fits_promoted: "ty_ok t \<Longrightarrow> fits t v \<Longrightarrow> fits (promoted t) v"
  by (auto simp: ty_ok_def fits_def promoted_def int_type_def tmin_def tmax_def split: if_splits)

text \<open>Operands of the same signedness keep their values.\<close>

lemma fits_common:
  assumes "ty_ok t" and "ty_ok u" and "same_signness t u"
  shows "fits t v \<Longrightarrow> fits (common t u) v" and "fits u v \<Longrightarrow> fits (common t u) v"
proof -
  obtain st bt su bu where tu: "t = \<lparr>ty_signed = st, ty_bits = bt\<rparr>" "u = \<lparr>ty_signed = su, ty_bits = bu\<rparr>"
    by (metis ity.surjective old.unit.exhaust)
  have "bt \<in> {8, 16, 32, 64}" "bu \<in> {8, 16, 32, 64}" "su = st" using assms by (auto simp: ty_ok_def tu same_signness_def)
  then show "fits t v \<Longrightarrow> fits (common t u) v" and "fits u v \<Longrightarrow> fits (common t u) v"
    by (auto simp: tu fits_def common_def promoted_def int_type_def tmin_def tmax_def Let_def split: if_splits)
qed

lemma common_commute: "same_signness t u \<Longrightarrow> ty_ok t \<Longrightarrow> ty_ok u \<Longrightarrow> common u t = common t u"
  by (cases t; cases u) (auto simp: ty_ok_def common_def promoted_def int_type_def Let_def same_signness_def)

lemma c_less_same:
  assumes "ty_ok t" "ty_ok u" "same_signness t u" "fits t a" "fits u b"
  shows "c_less t a u b \<longleftrightarrow> a < b" "c_less u b t a \<longleftrightarrow> b < a" "c_le t a u b \<longleftrightarrow> a \<le> b"
  using assms by (simp_all add: c_less_def c_le_def common_commute conv_id fits_common common_ok)

lemma down_cast_eq:
  assumes "ty_ok t" and "ty_ok u" and "same_signness t u" and "fits u v"
  shows "down_cast_opt t u (Some v) = (if fits t v then Some v else None)"
proof -
  have "c_less t (tmax t) u v \<longleftrightarrow> tmax t < v" by (rule c_less_same(1) [OF assms(1-3) fits_ends(2) [OF assms(1)] assms(4)])
  moreover have "c_less u v t (tmin t) \<longleftrightarrow> v < tmin t" by (rule c_less_same(2) [OF assms(1-3) fits_ends(1) [OF assms(1)] assms(4)])
  ultimately have "c_less t (tmax t) u v \<or> c_less u v t (tmin t) \<longleftrightarrow> \<not> fits t v" by (auto simp: fits_def)
  then show ?thesis using assms(1) by (auto simp: down_cast_opt_def conv_id)
qed

text \<open>Between types of the same signedness, a narrowing cast gives the value if the target
  type has it and nothing otherwise.\<close>

theorem down_cast_exact:
  assumes "ty_ok t" and "ty_ok u" and "same_signness t u" and "fits u v"
  shows "down_cast t u v = (if fits t v then Some v else None)"
  using down_cast_eq [OF assms] by (simp add: down_cast_def)

lemma fits_nonneg: "ty_ok u \<Longrightarrow> ty_ok t \<Longrightarrow> fits u v \<Longrightarrow> 0 \<le> v \<Longrightarrow> ty_bits u \<le> ty_bits t \<Longrightarrow> ty_signed u \<Longrightarrow> fits t v"
  by (auto simp: ty_ok_def fits_def tmin_def tmax_def split: if_splits)

lemma from_signed_eq:
  assumes "ty_ok t" and "ty_ok u" and "ty_signed u" and "fits u v" and "ty_bits u \<le> ty_bits t"
  shows "from_signed_cast t v = (if 0 \<le> v then Some v else None)"
  using assms fits_nonneg [of u t v] by (simp add: from_signed_cast_def from_signed_cast_opt_def conv_id)

lemma down_cast_signed_eq:
  assumes "ty_ok t" and "ty_ok u" and "\<not> ty_signed t" and "ty_signed u" and "fits u v"
  shows "down_cast_signed t u v = (if fits t v then Some v else None)"
proof -
  have m: "ty_ok (make_unsigned u)" "same_signness t (make_unsigned u)" "ty_bits u \<le> ty_bits (make_unsigned u)"
    using assms by (simp_all add: ty_ok_def make_unsigned_def same_signness_def)
  have s: "sign_remove u v = (if 0 \<le> v then Some v else None)"
    using from_signed_eq [OF m(1) assms(2,4,5) m(3)] by (simp add: sign_remove_def)
  show ?thesis
  proof (cases "0 \<le> v")
    case True
    then have "fits (make_unsigned u) v" using fits_nonneg [OF assms(2) m(1) assms(5) _ m(3) assms(4)] by simp
    then show ?thesis using down_cast_eq [OF assms(1) m(1,2)] s True by (simp add: down_cast_signed_def)
  next
    case False
    then have "\<not> fits t v" using assms(3) by (simp add: fits_def tmin_def)
    then show ?thesis using s False by (simp add: down_cast_signed_def down_cast_opt_def)
  qed
qed

text \<open>The cast of a signed value to an unsigned type gives the value if the target type has it
  and nothing otherwise.\<close>

theorem down_cast_signed_exact:
  assumes "ty_ok t" and "ty_ok u" and "\<not> ty_signed t" and "ty_signed u" and "fits u v"
  shows "down_cast_signed t u v = (if fits t v then Some v else None)"
  by (rule down_cast_signed_eq [OF assms])

text \<open>Adding the sign to an unsigned value never fails: a value above the signed maximum comes
  back negative.\<close>

theorem sign_add_wraps:
  assumes "ty_ok u" and "\<not> ty_signed u" and "fits u v"
  shows "sign_add u v = ok (Some (if v \<le> tmax (make_signed u) then v else v - 2 ^ ty_bits u))"
proof -
  obtain b where u: "u = \<lparr>ty_signed = False, ty_bits = b\<rparr>" and b: "b \<in> {8, 16, 32, 64}"
    using assms(1,2) by (metis (full_types) ity.surjective old.unit.exhaust ty_ok_def ity.select_convs)
  have v: "0 \<le> v" "v < 2 ^ b" using assms(3) b by (auto simp: u fits_def tmin_def tmax_def)
  show ?thesis
    using b v
    by (elim insertE emptyE)
       (simp_all add: u sign_add_def to_signed_cast_def to_signed_cast_opt_def make_signed_def c_le_def c_sub_def c_add_def arith_def
         common_def promoted_def int_type_def conv_def fits_def tmin_def tmax_def Let_def)
qed

text \<open>The throwing cast of an unsigned value of 32 or 64 bits to a signed type throws for
  small values, which would fit: the lower limit is converted to a huge unsigned number before the
  comparison.\<close>

theorem try_down_cast_to_signed_throws:
  assumes "ty_ok t" and "ty_signed t" and "ty_ok u" and "\<not> ty_signed u" and "32 \<le> ty_bits u" and "ty_bits t \<le> ty_bits u"
    and "0 \<le> v" and "v < 2 ^ ty_bits u - 2 ^ (ty_bits t - 1)"
  shows "try_down_cast t u v = raise Cast_overflow"
proof -
  have c: "common u t = u"
    using assms(1-6) by (cases t; cases u) (auto simp: ty_ok_def common_def promoted_def int_type_def Let_def)
  define N where "N = (2 :: int) ^ ty_bits u"
  define p where "p = (2 :: int) ^ (ty_bits t - 1)"
  have p: "0 < p" "p \<le> N" unfolding p_def N_def using assms(6) by (auto intro!: power_increasing)
  have v: "v < N - p" using assms(8) by (simp add: N_def p_def)
  have "conv u v = v" using assms(4,7) v p by (simp add: conv_def tmin_def N_def [symmetric])
  moreover have "conv u (tmin t) = N - p"
  proof -
    have "conv u (tmin t) = (- p) mod N" using assms(2,4) by (simp add: conv_def tmin_def N_def p_def)
    also have "\<dots> = (N - p) mod N" by (metis add.commute diff_conv_add_uminus mod_add_self2)
    also have "\<dots> = N - p" using p by (intro mod_pos_pos_trivial) auto
    finally show ?thesis .
  qed
  ultimately show ?thesis using v by (simp add: try_down_cast_def c_less_def c)
qed

text \<open>The throwing cast of a negative value to an unsigned type of 32 or 64 bits does not
  throw and gives a huge number.\<close>

theorem try_down_cast_negative_passes:
  assumes "ty_ok t" and "\<not> ty_signed t" and "32 \<le> ty_bits t" and "ty_ok u" and "ty_signed u" and "ty_bits u \<le> ty_bits t"
    and "fits u v" and "v < 0"
  shows "try_down_cast t u v = ok (v + 2 ^ ty_bits t)"
proof -
  have c: "common u t = t" "common t u = t"
    using assms(1-6) by (cases t; cases u; auto simp: ty_ok_def common_def promoted_def int_type_def Let_def)+
  have "(2 :: int) ^ (ty_bits u - 1) \<le> 2 ^ ty_bits t" using assms(6) by (intro power_increasing) auto
  moreover have "- (2 ^ (ty_bits u - 1)) \<le> v" using assms(5,7) by (simp add: fits_def tmin_def)
  ultimately have v: "- (2 ^ ty_bits t) \<le> v" by linarith
  have "v mod 2 ^ ty_bits t = (v + 2 ^ ty_bits t) mod 2 ^ ty_bits t" by simp
  also have "\<dots> = v + 2 ^ ty_bits t" using v assms(8) by (intro mod_pos_pos_trivial) auto
  finally have "conv t v = v + 2 ^ ty_bits t" using assms(2) by (simp add: conv_def tmin_def)
  moreover have "conv t (tmax t) = tmax t" "conv t (tmin t) = 0" using assms(1,2) by (simp_all add: conv_id) (simp add: tmin_def)
  ultimately show ?thesis
    using assms(2,8) v by (simp add: try_down_cast_def c_less_def c tmax_def)
qed

section \<open>Sums and differences\<close>

lemma arith_ok: "ty_ok t \<Longrightarrow> fits t v \<Longrightarrow> arith t v = ok v"
  by (simp add: arith_def conv_id)

lemma c_add_self: "ty_ok t \<Longrightarrow> fits t a \<Longrightarrow> fits t b \<Longrightarrow> c_add t a t b = arith (promoted t) (a + b)"
  by (simp add: c_add_def conv_id promoted_ok fits_promoted)

lemma head_room:
  assumes "ty_ok t" and "fits (promoted t) a" and "0 \<le> a" and "fits (promoted t) (tmax t - a)"
  shows "c_sub t (tmax t) (promoted t) a = ok (tmax t - a)"
proof -
  have "common t (promoted t) = promoted t" by (auto simp: common_def promoted_def int_type_def Let_def)
  then show ?thesis
    using assms by (simp add: c_sub_def conv_id promoted_ok fits_promoted arith_ok)
qed

lemma safe_add2_unsigned:
  assumes "ty_ok t" and "\<not> ty_signed t" and "fits t a" and "fits t b"
  shows "safe_add2 t a b = ok (if fits t (a + b) then Some (a + b) else None)"
proof -
  have ab: "0 \<le> a" "0 \<le> b" "a \<le> tmax t" using assms by (simp_all add: fits_def tmin_def)
  have h: "c_sub t (tmax t) (promoted t) a = ok (tmax t - a)"
    using assms ab by (intro head_room fits_promoted) (auto simp: fits_def tmin_def)
  have "fits t (a + b) \<longleftrightarrow> \<not> tmax t - a < b" using ab assms(2) by (auto simp: fits_def tmin_def)
  moreover have "c_add t a t b = ok (a + b)" if "fits t (a + b)"
    using that assms(1,3,4) by (simp add: c_add_self arith_ok promoted_ok fits_promoted)
  ultimately show ?thesis using assms(1,2) h by (simp add: safe_add2_def Let_def conv_id)
qed


text \<open>The sum of two or more unsigned numbers is exact if the type has it and missing
  otherwise, for every width, although narrow types are added as \<^verbatim>\<open>int\<close>.\<close>

theorem safe_add_exact:
  assumes "ty_ok t" and "\<not> ty_signed t" and "\<And>x. x \<in> set xs \<Longrightarrow> fits t x" and "2 \<le> length xs"
  shows "safe_add t xs = ok (if fits t (sum_list xs) then Some (sum_list xs) else None)"
  using assms(3,4)
proof (induction xs)
  case (Cons a xs)
  have pos: "0 \<le> sum_list xs" using Cons.prems(1) assms(2) by (intro sum_list_nonneg) (auto simp: fits_def tmin_def)
  have a: "fits t a" "0 \<le> a" using Cons.prems(1) [of a] assms(2) by (auto simp: fits_def tmin_def)
  show ?case
  proof (cases "2 \<le> length xs")
    case True
    then obtain b c ys where xs: "xs = b # c # ys" by (cases xs; cases "tl xs") auto
    have ih: "safe_add t xs = ok (if fits t (sum_list xs) then Some (sum_list xs) else None)"
      using Cons.IH Cons.prems(1) True by auto
    have "safe_add t (a # xs) = (case safe_add t xs of Inl e \<Rightarrow> Inl e | Inr None \<Rightarrow> ok None | Inr (Some r) \<Rightarrow> safe_add2 t a r)"
      by (simp add: xs split: sum.splits option.splits)
    then show ?thesis
      using ih safe_add2_unsigned [OF assms(1,2) a(1), of "sum_list xs"] a(2) pos assms(2)
      by (auto simp: fits_def tmin_def)
  next
    case False
    then obtain b where xs: "xs = [b]" using Cons.prems(2) by (cases xs; cases "tl xs") auto
    then show ?thesis using safe_add2_unsigned [OF assms(1,2) a(1), of b] Cons.prems(1) by auto
  qed
qed simp

text \<open>C34: The difference of two unsigned numbers of any widths is exact if it is not negative and
  missing otherwise.\<close>

theorem unsigned_difference_exact:
  assumes "ty_ok t" and "ty_ok u" and "\<not> ty_signed t" and "\<not> ty_signed u" and "fits t a" and "fits u b"
  shows "num_sub t u (Some a) (Some b) = ok (if b \<le> a then Some (a - b) else None)"
proof -
  have s: "same_signness t u" using assms by (simp add: same_signness_def)
  have ab: "0 \<le> a" "0 \<le> b" "a \<le> tmax t" using assms by (simp_all add: fits_def tmin_def)
  have cr: "num_create t u b = (if fits t b then Some b else None)"
  proof (cases "can_static_cast t u")
    case True
    then have "ty_bits u \<le> ty_bits t" by (simp add: can_static_cast_def fitting_size_def)
    then have "(2 :: int) ^ ty_bits u \<le> 2 ^ ty_bits t" by (intro power_increasing) auto
    moreover have "b < 2 ^ ty_bits u" using assms(4,6) by (simp add: fits_def tmax_def)
    ultimately have "b < 2 ^ ty_bits t" by linarith
    then have "fits t b" using assms(3) ab by (simp add: fits_def tmin_def tmax_def)
    then show ?thesis using True assms(1) by (simp add: num_create_def conv_id)
  next
    case False
    then show ?thesis using assms(3,4) down_cast_eq [OF assms(1,2) s assms(6)] by (simp add: num_create_def down_cast_def)
  qed
  show ?thesis
  proof (cases "fits t b")
    case True
    have m: "c_add t (tmin t) t b = ok b"
      using c_add_self [OF assms(1) fits_ends(1) [OF assms(1)] True] assms(1,3) True
      by (simp add: arith_ok promoted_ok fits_promoted tmin_def)
    have le: "c_le (promoted t) b t a \<longleftrightarrow> b \<le> a"
    proof -
      have "common (promoted t) t = promoted t" by (auto simp: common_def promoted_def int_type_def Let_def)
      then show ?thesis using assms(1,5) True by (simp add: c_le_def conv_id promoted_ok fits_promoted)
    qed
    have "c_sub t a u b = ok (a - b)" if "b \<le> a"
    proof -
      have "fits t (a - b)" using that ab assms(3) by (simp add: fits_def tmin_def)
      then show ?thesis
        using fits_common [OF assms(1,2) s] assms(1,2,5,6) by (simp add: c_sub_def conv_id common_ok arith_ok)
    qed
    moreover have "fits t (a - b)" if "b \<le> a" using that ab assms(3) by (simp add: fits_def tmin_def)
    ultimately show ?thesis using cr True m le assms(1,4) by (simp add: num_sub_def Let_def is_negative_def conv_id)
  next
    case False
    then have "\<not> b \<le> a" using ab assms(3) by (auto simp: fits_def tmin_def)
    then show ?thesis using cr False by (simp add: num_sub_def Let_def)
  qed
qed

text \<open>Subtracting a negative number from a signed number of 32 or 64 bits overflows in the
  check itself, whatever the first number is.\<close>

theorem subtracting_negative_is_undefined:
  assumes "ty_ok t" and "ty_ok u" and "ty_signed t" and "ty_signed u" and "32 \<le> ty_bits t" and "ty_bits u \<le> ty_bits t"
    and "fits u b" and "b < 0"
  shows "num_sub t u (Some a) (Some b) = raise Undefined_behaviour"
proof -
  have c: "common t u = t"
    using assms(1-6) by (cases t; cases u) (auto simp: ty_ok_def common_def promoted_def int_type_def Let_def)
  have s: "same_signness t u" using assms by (simp add: same_signness_def)
  have "c_sub t (tmax t) u b = raise Undefined_behaviour"
    using assms(1,3,7,8) fits_common(2) [OF assms(1,2) s assms(7)] by (simp add: c_sub_def c conv_id arith_def fits_def)
  then show ?thesis
    using assms(3,4,6,8) by (simp add: num_sub_def Let_def is_negative_def num_create_def can_static_cast_def same_signness_def fitting_size_def)
qed

text \<open>The numeric cast of zero is missing: the value is tested where its presence was meant.\<close>

theorem numeric_cast_loses_zero: "numeric_cast t (Some 0) = ok None"
  by (simp add: numeric_cast_def num_value_def)

section \<open>Examples\<close>

definition u8_t :: ity where "u8_t = \<lparr>ty_signed = False, ty_bits = 8\<rparr>"
definition u16_t :: ity where "u16_t = \<lparr>ty_signed = False, ty_bits = 16\<rparr>"
definition u64_t :: ity where "u64_t = \<lparr>ty_signed = False, ty_bits = 64\<rparr>"

lemmas ity_simps = u8_t_def u16_t_def u64_t_def int_type_def ty_ok_def fits_def tmin_def tmax_def same_signness_def make_signed_def

theorem down_cast_exact_witness: "down_cast u16_t u64_t 4294967295 = None \<and> down_cast u16_t u64_t 65535 = Some 65535"
  using down_cast_exact [of u16_t u64_t 4294967295] down_cast_exact [of u16_t u64_t 65535] by (simp add: ity_simps)

theorem down_cast_signed_exact_witness: "down_cast_signed u16_t int_type (-345) = None \<and> down_cast_signed u16_t int_type 443 = Some 443"
  using down_cast_signed_exact [of u16_t int_type "-345"] down_cast_signed_exact [of u16_t int_type 443] by (simp add: ity_simps)

theorem sign_add_wraps_witness: "sign_add u64_t 18446744073709550615 = ok (Some (-1001))"
  using sign_add_wraps [of u64_t 18446744073709550615] by (simp add: ity_simps)

theorem try_down_cast_to_signed_throws_witness: "try_down_cast int_type u64_t 5 = raise Cast_overflow"
  using try_down_cast_to_signed_throws [of int_type u64_t 5] by (simp add: ity_simps)

theorem try_down_cast_negative_passes_witness: "try_down_cast u64_t int_type (-1) = ok 18446744073709551615"
  using try_down_cast_negative_passes [of u64_t int_type "-1"] by (simp add: ity_simps)

theorem safe_add_exact_witness:
  "safe_add u16_t [65435, 50, 50] = ok (Some 65535) \<and> safe_add u16_t [65435, 45, 45, 45] = ok None"
proof -
  have "safe_add u16_t xs = ok (if fits u16_t (sum_list xs) then Some (sum_list xs) else None)"
    if "xs \<in> {[65435, 50, 50], [65435, 45, 45, 45]}" for xs
    by (rule safe_add_exact) (use that in \<open>auto simp: ity_simps\<close>)
  from this [of "[65435, 50, 50]"] this [of "[65435, 45, 45, 45]"] show ?thesis
    by (simp add: fits_def tmin_def tmax_def u16_t_def del: safe_add.simps)
qed

theorem unsigned_difference_exact_witness:
  "num_sub u16_t u8_t (Some 45) (Some 3) = ok (Some 42) \<and> num_sub u8_t u16_t (Some 200) (Some 345) = ok None"
  using unsigned_difference_exact [of u16_t u8_t 45 3] unsigned_difference_exact [of u8_t u16_t 200 345] by (simp add: ity_simps)

theorem subtracting_negative_is_undefined_witness:
  "num_sub int_type int_type (Some 0) (Some (-15)) = raise Undefined_behaviour"
  using subtracting_negative_is_undefined [of int_type int_type "-15" 0] by (simp add: ity_simps)

section \<open>Numbers made from numbers\<close>








end
