(* ===== verification/Sobject.thy ===== *)
theory Sobject
  imports Prelude "HOL-Library.Sublist"
begin

text \<open>
  The registry of live objects and the rate meters: \<^verbatim>\<open>sobject.cpp\<close> and \<^verbatim>\<open>sobject.hpp\<close>.

  Every object derived from \<^verbatim>\<open>sobject\<close> is entered into two tables by its constructor, by address and by
  id, and taken out by its destructor (\<open>new_sobject\<close>, \<open>delete_sobject\<close>); ids come from a counter.
  A meter counts what it is told and keeps the counts of the last intervals on a small board. Clocks are
  arguments. The listings work on the views of the objects that their virtual members give.

  Shown: over every history of constructions and destructions the two tables agree with the live
  objects, an id is never given twice and neither operation fails; a meter loses nothing and its rate is
  exact for steady traffic; the criteria of the listings, and that the youngest age is always zero.
\<close>

unbundle bit_operations_syntax

section \<open>Meters\<close>

text \<open>Times are nanoseconds. \<open>mt_scoreboard\<close> has the newest score first.\<close>

record meter =
  mt_total :: u64
  mt_prev_counter :: u64
  mt_curr_counter :: u64
  mt_scoreboard :: "u64 list"
  mt_last_update :: int
  mt_interval :: u32
  mt_cnt_updates :: u32

definition scoreboard_sz :: nat where "scoreboard_sz = 3"

definition new_meter :: "u32 \<Rightarrow> int \<Rightarrow> meter" where
  "new_meter interval now = \<lparr>mt_total = 0, mt_prev_counter = 0, mt_curr_counter = 0,
     mt_scoreboard = replicate scoreboard_sz 0, mt_last_update = now, mt_interval = interval, mt_cnt_updates = 0\<rparr>"

definition seconds :: "int \<Rightarrow> int" where "seconds n = n * 1000000000"

definition push_score :: "u64 \<Rightarrow> meter \<Rightarrow> meter" where
  "push_score v m = m\<lparr>mt_scoreboard := v # butlast (mt_scoreboard m)\<rparr>"

fun score_loop :: "u32 \<Rightarrow> u32 \<Rightarrow> u64 list \<Rightarrow> u64 \<Rightarrow> u64" where
  "score_loop max_it cur_it [] ret = ret"
| "score_loop max_it cur_it (s # ss) ret =
     (let cur_it = cur_it + 1
      in if max_it < cur_it then ret else score_loop max_it cur_it ss (ret + s))"

definition sum_score :: "meter \<Rightarrow> u64" where
  "sum_score m = score_loop (mt_cnt_updates m) 0 (rev (mt_scoreboard m)) 0"

definition missed_scores :: "int \<Rightarrow> meter \<Rightarrow> nat" where
  "missed_scores now m =
     min scoreboard_sz (nat ((now - mt_last_update m) div seconds (uint (mt_interval m)) - 1))"

definition meter_update :: "int \<Rightarrow> u64 \<Rightarrow> meter \<Rightarrow> (u64 \<times> meter) result" where
  "meter_update now val m =
     (let m = m\<lparr>mt_total := mt_total m + val, mt_cnt_updates := mt_cnt_updates m + 1\<rparr>;
          late = now - mt_last_update m; iv = uint (mt_interval m)
      in if seconds iv \<le> late then
           if seconds (uint (2 * mt_interval m)) \<le> late \<and> iv = 0 then raise Undefined_behaviour
           else
             let m = (if seconds (uint (2 * mt_interval m)) \<le> late then (push_score 0 ^^ missed_scores now m) m else m);
                 m = push_score (mt_prev_counter m) (m\<lparr>mt_last_update := now\<rparr>);
                 m = m\<lparr>mt_prev_counter := mt_curr_counter m, mt_curr_counter := val\<rparr>
             in ok (mt_prev_counter m, m)
         else
           let m = m\<lparr>mt_curr_counter := mt_curr_counter m + val\<rparr> in ok (mt_prev_counter m, m))"

definition meter_get :: "int \<Rightarrow> meter \<Rightarrow> u64" where
  "meter_get now m =
     (if mt_last_update m + int (1 + scoreboard_sz) * seconds (uint (mt_interval m)) < now then 0
      else
        let d = (if mt_cnt_updates m < of_nat (1 + scoreboard_sz) then uint (mt_cnt_updates m) * uint (mt_interval m)
                 else int (1 + scoreboard_sz) * uint (mt_interval m));
            divisor = (word_of_int d :: u64);
            divisor = (if divisor = 0 then 1 else divisor)
        in (mt_prev_counter m + sum_score m) div divisor)"

section \<open>The registry\<close>

record objs =
  ob_oid :: "nat \<rightharpoonup> u64"
  ob_db :: "nat \<rightharpoonup> int"
  ob_oid_db :: "u64 \<rightharpoonup> nat"
  ob_id_current :: u64
  ob_created :: meter
  ob_deleted :: meter

definition id_start :: u64 where "id_start = 0xCABA1ACABA1A"

definition id_key :: u64 where "id_key = 0x3453ABC3450F"

definition no_objs :: "int \<Rightarrow> objs" where
  "no_objs now = \<lparr>ob_oid = Map.empty, ob_db = Map.empty, ob_oid_db = Map.empty, ob_id_current = id_start,
     ob_created = new_meter 1 now, ob_deleted = new_meter 1 now\<rparr>"

text \<open>The constructor and destructor. An entry of the table of ids owns its object: replacing one that is
  still there would delete that object, which is in use.\<close>

definition new_sobject :: "nat \<Rightarrow> int \<Rightarrow> objs \<Rightarrow> objs result" where
  "new_sobject p now s =
     (let oid = id_key XOR ob_id_current s
      in if ob_oid_db s oid \<noteq> None then raise Undefined_behaviour
         else
           let s = s\<lparr>ob_id_current := ob_id_current s + 1, ob_oid := (ob_oid s)(p \<mapsto> oid),
                     ob_oid_db := (ob_oid_db s)(oid \<mapsto> p), ob_db := (ob_db s)(p \<mapsto> now)\<rparr>
           in case meter_update (seconds now) 1 (ob_created s) of
                Inl e \<Rightarrow> Inl e
              | Inr (_, m) \<Rightarrow> ok (s\<lparr>ob_created := m\<rparr>))"

definition delete_sobject :: "nat \<Rightarrow> int \<Rightarrow> objs \<Rightarrow> objs result" where
  "delete_sobject p now s =
     (case ob_oid s p of
        None \<Rightarrow> raise Undefined_behaviour
      | Some oid \<Rightarrow>
          let s = s\<lparr>ob_oid := (ob_oid s)(p := None), ob_oid_db := (ob_oid_db s)(oid := None), ob_db := (ob_db s)(p := None)\<rparr>
          in case meter_update (seconds now) 1 (ob_deleted s) of
               Inl e \<Rightarrow> Inl e
             | Inr (_, m) \<Rightarrow> ok (s\<lparr>ob_deleted := m\<rparr>))"

definition ask_destroy :: "(nat \<Rightarrow> 's \<Rightarrow> bool \<times> 's) \<Rightarrow> nat \<Rightarrow> objs \<Rightarrow> 's \<Rightarrow> int \<times> 's" where
  "ask_destroy virtual p s w =
     (if ob_db s p = None then (- 1, w)
      else let (r, w) = virtual p w in (if r then 1 else 0, w))"

fun digits :: "nat \<Rightarrow> nat \<Rightarrow> string" where
  "digits b n = (if b < 2 \<or> n < b then [''0123456789abcdef'' ! n] else digits b (n div b) @ [''0123456789abcdef'' ! (n mod b)])"

declare digits.simps [simp del]

record obj_view =
  ov_ptr :: nat
  ov_oid :: u64
  ov_type :: string
  ov_text :: string
  ov_age :: "int option"

definition list_match :: "string \<Rightarrow> obj_view \<Rightarrow> bool" where
  "list_match criteria v =
     (if criteria = [] then True
      else if prefix ''0x'' criteria then ''0x'' @ digits 16 (ov_ptr v) = criteria
      else if prefix ''oid'' criteria then digits 10 (unat (ov_oid v)) = drop 3 criteria
      else ov_type v = criteria \<or> criteria = ''*'')"

definition list_entry :: "obj_view \<Rightarrow> string" where
  "list_entry v = ''OID: '' @ digits 16 (unat (ov_oid v)) @ '' ptr: 0x'' @ digits 16 (ov_ptr v) @ '' | '' @ ov_text v"

definition str_list :: "string option \<Rightarrow> string option \<Rightarrow> string option \<Rightarrow> obj_view list \<Rightarrow> string" where
  "str_list class_criteria delimiter content vs =
     concat (map (\<lambda>v. list_entry v @ (case delimiter of None \<Rightarrow> [CHR 0x0A] | Some d \<Rightarrow> d))
       (filter (\<lambda>v. list_match (case class_criteria of None \<Rightarrow> [] | Some c \<Rightarrow> c) v \<and>
                    (case content of None \<Rightarrow> True | Some c \<Rightarrow> sublist c (ov_text v))) vs))"

record ages =
  ag_count :: nat
  ag_youngest :: int
  ag_oldest :: int
  ag_sum :: int

fun stats_loop :: "string option \<Rightarrow> obj_view list \<Rightarrow> ages \<Rightarrow> ages" where
  "stats_loop criteria [] a = a"
| "stats_loop criteria (v # vs) a =
     stats_loop criteria vs
       (if criteria = None \<or> criteria = Some (ov_type v) then
          let a = a\<lparr>ag_count := ag_count a + 1\<rparr>
          in case ov_age v of
               None \<Rightarrow> a
             | Some age \<Rightarrow>
                 let a = a\<lparr>ag_sum := ag_sum a + age\<rparr>;
                     a = (if ag_oldest a < age then a\<lparr>ag_oldest := age\<rparr> else a)
                 in if age < ag_youngest a then a\<lparr>ag_youngest := age\<rparr> else a
        else a)"

definition str_stats :: "string option \<Rightarrow> obj_view list \<Rightarrow> ages" where
  "str_stats criteria vs = stats_loop criteria vs \<lparr>ag_count = 0, ag_youngest = 0, ag_oldest = 0, ag_sum = 0\<rparr>"

section \<open>What a meter counts\<close>

fun meter_run :: "(int \<times> u64) list \<Rightarrow> meter \<Rightarrow> meter result" where
  "meter_run [] m = ok m"
| "meter_run ((now, v) # us) m = (case meter_update now v m of Inl e \<Rightarrow> Inl e | Inr (_, m) \<Rightarrow> meter_run us m)"

text \<open>The scores that were ever pushed, newest first; the board shows the first of them.\<close>

definition accounts :: "u64 list \<Rightarrow> meter \<Rightarrow> bool" where
  "accounts hist m \<longleftrightarrow> mt_scoreboard m = take 3 (hist @ replicate 3 0) \<and>
     mt_total m = sum_list hist + mt_prev_counter m + mt_curr_counter m"

lemma push_score_board:
  assumes "mt_scoreboard m = take 3 (hist @ replicate 3 0)"
  shows "mt_scoreboard (push_score v m) = take 3 ((v # hist) @ replicate 3 0)"
  using assms by (cases hist; cases "tl hist"; cases "tl (tl hist)") (simp_all add: push_score_def numeral_3_eq_3)

lemma push_zeros:
  assumes "mt_scoreboard m = take 3 (hist @ replicate 3 0)"
  shows "\<exists>b. (push_score 0 ^^ n) m = m\<lparr>mt_scoreboard := b\<rparr> \<and> b = take 3 ((replicate n 0 @ hist) @ replicate 3 0)"
proof (induction n)
  case 0
  show ?case using assms by (intro exI [of _ "mt_scoreboard m"]) simp
next
  case (Suc n)
  then obtain b where b: "(push_score 0 ^^ n) m = m\<lparr>mt_scoreboard := b\<rparr>" "b = take 3 ((replicate n 0 @ hist) @ replicate 3 0)"
    by blast
  have "(push_score 0 ^^ Suc n) m = m\<lparr>mt_scoreboard := 0 # butlast b\<rparr>" using b(1) by (simp add: push_score_def)
  moreover have "0 # butlast b = take 3 ((0 # replicate n 0 @ hist) @ replicate 3 0)"
    using push_score_board [of "m\<lparr>mt_scoreboard := b\<rparr>" "replicate n 0 @ hist" 0] b(2) by (simp add: push_score_def)
  ultimately show ?case by simp
qed

lemma meter_update_accounts:
  assumes "accounts hist m" and "mt_interval m \<noteq> 0"
  shows "\<exists>r m' hist'. meter_update now v m = Inr (r, m') \<and> accounts hist' m' \<and> mt_interval m' = mt_interval m \<and>
     mt_total m' = mt_total m + v"
proof -
  define m1 where "m1 = m\<lparr>mt_total := mt_total m + v, mt_cnt_updates := mt_cnt_updates m + 1\<rparr>"
  have iv: "uint (mt_interval m) \<noteq> 0" using assms(2) by (simp add: uint_0_iff)
  show ?thesis
  proof (cases "seconds (uint (mt_interval m)) \<le> now - mt_last_update m")
    case True
    define z where "z = (if seconds (uint (2 * mt_interval m)) \<le> now - mt_last_update m then missed_scores now m1 else 0)"
    define m2 where "m2 = (push_score 0 ^^ z) m1"
    have "mt_scoreboard m1 = take 3 (hist @ replicate 3 0)" using assms(1) by (simp add: m1_def accounts_def)
    then obtain b where b: "m2 = m1\<lparr>mt_scoreboard := b\<rparr>" "b = take 3 ((replicate z 0 @ hist) @ replicate 3 0)"
      using push_zeros unfolding m2_def by blast
    define m3 where "m3 = push_score (mt_prev_counter m) (m2\<lparr>mt_last_update := now\<rparr>)"
    define m' where "m' = m3\<lparr>mt_prev_counter := mt_curr_counter m, mt_curr_counter := v\<rparr>"
    have m1: "mt_interval m1 = mt_interval m" "mt_last_update m1 = mt_last_update m" by (simp_all add: m1_def)
    have m2: "mt_prev_counter m2 = mt_prev_counter m" "mt_curr_counter m2 = mt_curr_counter m" by (simp_all add: b m1_def)
    have z: "(if seconds (uint (2 * mt_interval m)) \<le> now - mt_last_update m then (push_score 0 ^^ missed_scores now m1) m1 else m1) = m2"
      by (simp add: m2_def z_def)
    have "meter_update now v m = Inr (mt_curr_counter m, m')"
      using True iv m2 unfolding meter_update_def Let_def m1_def [symmetric] m1 z
      by (simp add: m'_def m3_def push_score_def)
    moreover have "accounts (mt_prev_counter m # replicate z 0 @ hist) m'"
      using push_score_board [of "m2\<lparr>mt_last_update := now\<rparr>" "replicate z 0 @ hist" "mt_prev_counter m"] b assms(1)
      by (simp add: accounts_def m'_def m3_def push_score_def m1_def sum_list_replicate add_ac)
    moreover have "mt_interval m' = mt_interval m" "mt_total m' = mt_total m + v"
      by (simp_all add: m'_def m3_def b push_score_def m1_def)
    ultimately show ?thesis by blast
  next
    case False
    then show ?thesis using assms(1) by (auto simp: meter_update_def Let_def accounts_def add_ac)
  qed
qed

text \<open>Over any sequence of updates, at any times, a meter returns; its total is the sum of the
  values, and each value is in the current count, the previous count or a score, of which the board
  shows the newest.\<close>

theorem meter_loses_nothing:
  assumes "interval \<noteq> 0"
  shows "\<exists>m hist. meter_run us (new_meter interval t0) = Inr m \<and> mt_total m = sum_list (map snd us) \<and>
     mt_scoreboard m = take 3 (hist @ replicate 3 0) \<and> mt_total m = sum_list hist + mt_prev_counter m + mt_curr_counter m"
proof -
  have "\<exists>m' hist'. meter_run us m = Inr m' \<and> mt_total m' = mt_total m + sum_list (map snd us) \<and> accounts hist' m'"
    if "accounts hist m" "mt_interval m \<noteq> 0" for m hist
    using that
  proof (induction us arbitrary: m hist)
    case Nil
    then show ?case by auto
  next
    case (Cons u us)
    obtain now v where u: "u = (now, v)" by force
    obtain r m1 h1 where m1: "meter_update now v m = Inr (r, m1)" "accounts h1 m1" "mt_interval m1 = mt_interval m"
        "mt_total m1 = mt_total m + v"
      using meter_update_accounts [OF Cons.prems] by blast
    then obtain m2 h2 where "meter_run us m1 = Inr m2" "mt_total m2 = mt_total m1 + sum_list (map snd us)" "accounts h2 m2"
      using Cons.IH [OF m1(2)] Cons.prems(2) by auto
    then show ?case using m1 by (auto simp: u add_ac)
  qed
  from this [of "[]" "new_meter interval t0"] show ?thesis
    using assms by (auto simp: accounts_def new_meter_def scoreboard_sz_def)
qed

text \<open>Updated once per interval with the same value, the rate is that value per interval.\<close>

definition ticks :: "u32 \<Rightarrow> int \<Rightarrow> u64 \<Rightarrow> nat \<Rightarrow> (int \<times> u64) list" where
  "ticks interval t0 v n = map (\<lambda>i. (t0 + int (Suc i) * seconds (uint interval), v)) [0..<n]"

lemma meter_run_append: "meter_run (us @ vs) m = (case meter_run us m of Inl e \<Rightarrow> Inl e | Inr m \<Rightarrow> meter_run vs m)"
  by (induction us m rule: meter_run.induct) (auto split: sum.splits)

lemma tick:
  assumes "mt_interval m \<noteq> 0" and "uint (mt_interval m) < 2 ^ 31" and "now = mt_last_update m + seconds (uint (mt_interval m))"
  shows "meter_update now v m =
    Inr (mt_curr_counter m, m\<lparr>mt_total := mt_total m + v, mt_cnt_updates := mt_cnt_updates m + 1,
      mt_scoreboard := mt_prev_counter m # butlast (mt_scoreboard m), mt_last_update := now,
      mt_prev_counter := mt_curr_counter m, mt_curr_counter := v\<rparr>)"
proof -
  have iv: "0 < uint (mt_interval m)" using assms(1) uint_nonnegative [of "mt_interval m"] uint_0_iff [of "mt_interval m"] by linarith
  have "uint (2 * mt_interval m) = 2 * uint (mt_interval m)"
    using assms(2) iv by (simp add: uint_word_ariths)
  then have "\<not> seconds (uint (2 * mt_interval m)) \<le> now - mt_last_update m" using assms(3) iv by (simp add: seconds_def)
  then show ?thesis using assms(3) by (simp add: meter_update_def Let_def push_score_def)
qed

lemma ticks_run:
  assumes "interval \<noteq> 0" and "uint interval < 2 ^ 31"
  shows "\<exists>m. meter_run (ticks interval t0 v n) (new_meter interval t0) = Inr m \<and> mt_interval m = interval \<and>
     mt_last_update m = t0 + int n * seconds (uint interval) \<and> mt_cnt_updates m = of_nat n \<and>
     mt_curr_counter m = (if 1 \<le> n then v else 0) \<and> mt_prev_counter m = (if 2 \<le> n then v else 0) \<and>
     mt_scoreboard m = [if 3 \<le> n then v else 0, if 4 \<le> n then v else 0, if 5 \<le> n then v else 0]"
proof (induction n)
  case 0
  show ?case by (simp add: ticks_def new_meter_def scoreboard_sz_def numeral_3_eq_3)
next
  case (Suc n)
  then obtain m where m: "meter_run (ticks interval t0 v n) (new_meter interval t0) = Inr m" "mt_interval m = interval"
      "mt_last_update m = t0 + int n * seconds (uint interval)" "mt_cnt_updates m = of_nat n"
      "mt_curr_counter m = (if 1 \<le> n then v else 0)" "mt_prev_counter m = (if 2 \<le> n then v else 0)"
      "mt_scoreboard m = [if 3 \<le> n then v else 0, if 4 \<le> n then v else 0, if 5 \<le> n then v else 0]"
    by blast
  let ?now = "t0 + int (Suc n) * seconds (uint interval)"
  have r: "meter_run (ticks interval t0 v (Suc n)) (new_meter interval t0) =
      (case meter_update ?now v m of Inl e \<Rightarrow> Inl e | Inr (_, m) \<Rightarrow> ok m)"
    using m(1) by (simp add: ticks_def meter_run_append split: sum.splits)
  have now: "?now = mt_last_update m + seconds (uint (mt_interval m))" using m(2,3) by (simp add: algebra_simps)
  show ?case
    unfolding r using tick [OF _ _ now, of v] assms m(2-7) by (auto simp: algebra_simps)
qed

text \<open>Told the same value once per interval, at least five times, a meter reports that value
  per interval.\<close>

theorem meter_steady_rate:
  assumes "interval \<noteq> 0" and "uint interval < 2 ^ 31" and "5 \<le> n" and "n < 2 ^ 32" and "unat v < 2 ^ 62"
  shows "\<exists>m. meter_run (ticks interval t0 v n) (new_meter interval t0) = Inr m \<and>
     unat (meter_get (t0 + int n * seconds (uint interval)) m) = unat v div unat interval"
proof -
  obtain m where m: "meter_run (ticks interval t0 v n) (new_meter interval t0) = Inr m" "mt_interval m = interval"
      "mt_last_update m = t0 + int n * seconds (uint interval)" "mt_cnt_updates m = of_nat n"
      "mt_prev_counter m = v" "mt_scoreboard m = [v, v, v]"
    using ticks_run [OF assms(1,2), of t0 v n] assms(3) by auto
  have n: "unat (of_nat n :: u32) = n" using assms(4) by (simp add: unat_of_nat take_bit_nat_eq_self)
  have c: "\<not> (of_nat n :: u32) < of_nat (1 + scoreboard_sz)" "\<not> (of_nat n :: u32) < 1" "\<not> (of_nat n :: u32) < 2" "\<not> (of_nat n :: u32) < 3"
    unfolding word_less_nat_alt n scoreboard_sz_def using assms(3) by simp_all
  have s: "sum_score m = v + v + v"
    unfolding sum_score_def m(4,6) using c(2-4) by (simp del: of_nat_numeral)
  have iv: "0 < uint interval" using assms(1) uint_nonnegative [of interval] uint_0_iff [of interval] by linarith
  define d where "d = (word_of_int (4 * uint interval) :: u64)"
  have "uint d = 4 * uint interval"
    unfolding d_def uint_word_of_int using iv assms(2) by (intro mod_pos_pos_trivial) simp_all
  then have "int (unat d) = int (4 * unat interval)" by simp
  then have d: "unat d = 4 * unat interval" by (simp only: of_nat_eq_iff)
  have g: "meter_get (t0 + int n * seconds (uint interval)) m = (v + (v + v + v)) div d"
  proof -
    have "d \<noteq> 0" using d assms(1) by (auto simp: unat_eq_zero)
    moreover have "0 \<le> seconds (uint interval)" by (simp add: seconds_def)
    ultimately show ?thesis
      using c(1) by (simp add: meter_get_def Let_def m(2-5) s scoreboard_sz_def d_def)
  qed
  have "unat (v + (v + v + v)) = 4 * unat v" using assms(5) by (simp add: unat_word_ariths)
  then show ?thesis using m(1) g d by (auto simp: unat_div_distrib)
qed

section \<open>The registry is exact\<close>

text \<open>The states of the registry after \<open>n\<close> constructions and \<open>d\<close> destructions.\<close>

inductive reg_reach :: "nat \<Rightarrow> nat \<Rightarrow> objs \<Rightarrow> bool" where
  reg_init: "reg_reach 0 0 (no_objs now)"
| reg_new: "reg_reach n d s \<Longrightarrow> ob_oid s p = None \<Longrightarrow> new_sobject p now s = Inr s' \<Longrightarrow> reg_reach (Suc n) d s'"
| reg_del: "reg_reach n d s \<Longrightarrow> delete_sobject p now s = Inr s' \<Longrightarrow> reg_reach n (Suc d) s'"

definition reg_ok :: "objs \<Rightarrow> bool" where
  "reg_ok s \<longleftrightarrow> dom (ob_db s) = dom (ob_oid s) \<and> (\<forall>p oid. ob_oid s p = Some oid \<longleftrightarrow> ob_oid_db s oid = Some p)"

definition ids_from :: "nat \<Rightarrow> objs \<Rightarrow> bool" where
  "ids_from n s \<longleftrightarrow> ob_id_current s = id_start + of_nat n \<and>
     (\<forall>oid. ob_oid_db s oid \<noteq> None \<longrightarrow> (\<exists>i < n. oid = id_key XOR (id_start + of_nat i)))"

lemma id_fresh:
  assumes "ids_from n s" and "n < 2 ^ 64"
  shows "ob_oid_db s (id_key XOR ob_id_current s) = None"
proof (rule ccontr)
  assume "ob_oid_db s (id_key XOR ob_id_current s) \<noteq> None"
  then obtain i where i: "i < n" "id_key XOR ob_id_current s = id_key XOR (id_start + of_nat i)"
    using assms(1) by (auto simp: ids_from_def)
  then have "id_key XOR (id_key XOR ob_id_current s) = id_key XOR (id_key XOR (id_start + of_nat i))" by simp
  then have "id_start + of_nat n = id_start + of_nat i"
    using assms(1) by (simp add: ids_from_def flip: xor.assoc)
  then have "(of_nat n :: u64) = of_nat i" by simp
  then have "unat (of_nat n :: u64) = unat (of_nat i :: u64)" by simp
  then show False using i(1) assms(2) by (simp add: unat_of_nat take_bit_nat_eq_self)
qed

lemma meter_update_keeps:
  assumes "meter_update now v m = Inr (r, m')"
  shows "mt_interval m' = mt_interval m" and "mt_total m' = mt_total m + v"
proof -
  have z: "mt_interval ((push_score 0 ^^ k) x) = mt_interval x" "mt_total ((push_score 0 ^^ k) x) = mt_total x" for k x
    by (induction k) (simp_all add: push_score_def)
  show "mt_interval m' = mt_interval m" "mt_total m' = mt_total m + v"
    using assms by (auto simp: meter_update_def Let_def push_score_def z split: if_splits)
qed

lemma meter_update_returns: "mt_interval m \<noteq> 0 \<Longrightarrow> \<exists>r m'. meter_update now v m = Inr (r, m')"
  using uint_0_iff [of "mt_interval m"] by (auto simp: meter_update_def Let_def)

text \<open>What the meters count: the total of the one is the number of constructions, that of the other the
  number of destructions, and the rest of the objects are alive.\<close>

definition counts_ok :: "nat \<Rightarrow> nat \<Rightarrow> objs \<Rightarrow> bool" where
  "counts_ok n d s \<longleftrightarrow> mt_interval (ob_created s) \<noteq> 0 \<and> mt_interval (ob_deleted s) \<noteq> 0 \<and>
     mt_total (ob_created s) = of_nat n \<and> mt_total (ob_deleted s) = of_nat d \<and>
     finite (dom (ob_oid s)) \<and> n = d + card (dom (ob_oid s))"

lemma new_sobject_ok:
  assumes "reg_ok s" and "ids_from n s" and "counts_ok n d s" and "ob_oid s p = None" and "new_sobject p now s = Inr s'"
  shows "reg_ok s' \<and> ids_from (Suc n) s' \<and> counts_ok (Suc n) d s'"
proof -
  let ?o = "id_key XOR ob_id_current s"
  obtain r m where f: "ob_oid_db s ?o = None" "meter_update (seconds now) 1 (ob_created s) = Inr (r, m)"
      and s': "s' = s\<lparr>ob_id_current := ob_id_current s + 1, ob_oid := (ob_oid s)(p \<mapsto> ?o),
        ob_oid_db := (ob_oid_db s)(?o \<mapsto> p), ob_db := (ob_db s)(p \<mapsto> now), ob_created := m\<rparr>"
    using assms(5) by (auto simp: new_sobject_def Let_def split: if_splits sum.splits)
  have "reg_ok s'"
    using assms(1,4) f(1) unfolding reg_ok_def s' by (auto split: if_splits) (metis option.distinct(1))+
  moreover have "ids_from (Suc n) s'"
    using assms(2) unfolding ids_from_def s' by (auto simp: less_Suc_eq)
  moreover have "p \<notin> dom (ob_oid s)" using assms(4) by (simp add: domIff)
  then have "counts_ok (Suc n) d s'"
    using assms(3) meter_update_keeps [OF f(2)] by (simp add: counts_ok_def s' add_ac)
  ultimately show ?thesis by blast
qed

lemma delete_sobject_ok:
  assumes "reg_ok s" and "ids_from n s" and "counts_ok n d s" and "delete_sobject p now s = Inr s'"
  shows "reg_ok s' \<and> ids_from n s' \<and> counts_ok n (Suc d) s'"
proof -
  obtain oid r m where f: "ob_oid s p = Some oid" "meter_update (seconds now) 1 (ob_deleted s) = Inr (r, m)"
      and s': "s' = s\<lparr>ob_oid := (ob_oid s)(p := None), ob_oid_db := (ob_oid_db s)(oid := None), ob_db := (ob_db s)(p := None),
        ob_deleted := m\<rparr>"
    using assms(4) by (auto simp: delete_sobject_def Let_def split: option.splits sum.splits)
  have "reg_ok s'"
    using assms(1) f(1) unfolding reg_ok_def s' by (auto split: if_splits) (metis option.inject)+
  moreover have "ids_from n s'" using assms(2) by (auto simp: ids_from_def s')
  moreover have "p \<in> dom (ob_oid s)" "finite (dom (ob_oid s))" using f(1) assms(3) by (auto simp: counts_ok_def)
  then have "0 < card (dom (ob_oid s))" "card (dom (ob_oid s) - {p}) = card (dom (ob_oid s)) - 1"
    by (auto simp: card_gt_0_iff)
  then have "counts_ok n (Suc d) s'"
    using assms(3) meter_update_keeps [OF f(2)] by (simp add: counts_ok_def s' add_ac)
  ultimately show ?thesis by blast
qed

lemma reg_reach_ok: "reg_reach n d s \<Longrightarrow> reg_ok s \<and> ids_from n s \<and> counts_ok n d s"
proof (induction rule: reg_reach.induct)
  case (reg_init now)
  show ?case by (simp add: reg_ok_def ids_from_def counts_ok_def no_objs_def new_meter_def)
next
  case (reg_new n d s p now s')
  then show ?case using new_sobject_ok by blast
next
  case (reg_del n d s p now s')
  then show ?case using delete_sobject_ok by blast
qed

text \<open>C33: After every history of constructions, fewer than \<open>2 ^ 64\<close>, and destructions, the table of
  addresses and the table of ids have exactly the live objects and agree on them; the meters of
  created and deleted objects have counted every construction and every destruction, so that their
  difference is the number of live objects; the next construction gets an id that is not in use, and
  every live object can be destroyed.\<close>

theorem registry_is_exact:
  assumes "reg_reach n d s" and "n < 2 ^ 64"
  shows "dom (ob_db s) = dom (ob_oid s) \<and> (\<forall>p oid. ob_oid s p = Some oid \<longleftrightarrow> ob_oid_db s oid = Some p) \<and>
    mt_total (ob_created s) = of_nat n \<and> mt_total (ob_deleted s) = of_nat d \<and>
    finite (dom (ob_oid s)) \<and> unat (mt_total (ob_created s) - mt_total (ob_deleted s)) = card (dom (ob_oid s)) \<and>
    (\<exists>s'. new_sobject p now s = Inr s') \<and> (\<forall>q \<in> dom (ob_oid s). \<exists>s'. delete_sobject q now s = Inr s')"
proof -
  note k = reg_reach_ok [OF assms(1)]
  have "\<exists>s'. new_sobject p now s = Inr s'"
    using id_fresh [of n s] meter_update_returns [of "ob_created s" "seconds now" 1] k assms(2)
    by (auto simp: new_sobject_def Let_def counts_ok_def)
  moreover have "\<exists>s'. delete_sobject q now s = Inr s'" if "q \<in> dom (ob_oid s)" for q
    using that meter_update_returns [of "ob_deleted s" "seconds now" 1] k by (auto simp: delete_sobject_def Let_def counts_ok_def)
  moreover have "unat (mt_total (ob_created s) - mt_total (ob_deleted s)) = card (dom (ob_oid s))"
  proof -
    have c: "n = d + card (dom (ob_oid s))" using k by (simp add: counts_ok_def)
    then have "mt_total (ob_created s) - mt_total (ob_deleted s) = of_nat (card (dom (ob_oid s)))"
      using k by (simp add: counts_ok_def)
    moreover have "card (dom (ob_oid s)) < 2 ^ 64" using c assms(2) by linarith
    ultimately show ?thesis by (simp add: unat_of_nat take_bit_nat_eq_self)
  qed
  ultimately show ?thesis using k unfolding reg_ok_def counts_ok_def by blast
qed

section \<open>Listings\<close>

definition undigits :: "nat \<Rightarrow> string \<Rightarrow> nat" where
  "undigits b s = foldl (\<lambda>n c. n * b + (if of_char c < (58 :: nat) then of_char c - 48 else of_char c - 87)) 0 s"

lemma undigits_digits: "2 \<le> b \<Longrightarrow> b \<le> 16 \<Longrightarrow> undigits b (digits b n) = n"
proof (induction b n rule: digits.induct)
  case (1 b n)
  have d: "(if of_char (''0123456789abcdef'' ! k) < (58 :: nat) then of_char (''0123456789abcdef'' ! k) - 48
      else of_char (''0123456789abcdef'' ! k) - 87) = k" if "k < 16" for k
  proof -
    have "k = 0 \<or> k = 1 \<or> k = 2 \<or> k = 3 \<or> k = 4 \<or> k = 5 \<or> k = 6 \<or> k = 7 \<or> k = 8 \<or> k = 9 \<or> k = 10 \<or> k = 11 \<or>
        k = 12 \<or> k = 13 \<or> k = 14 \<or> k = 15" using that by presburger
    then show ?thesis by (elim disjE) (simp_all add: of_char_def)
  qed
  show ?case
  proof (cases "n < b")
    case True
    then show ?thesis using d [of n] 1(3) by (simp add: digits.simps [of b n] undigits_def)
  next
    case False
    have "n mod b < 16" using 1(2,3) by (meson le_trans less_le_trans mod_less_divisor not_less zero_less_numeral)
    then show ?thesis using False 1 d [of "n mod b"] by (simp add: digits.simps [of b n] undigits_def)
  qed
qed

text \<open>The criterion made of \<^verbatim>\<open>oid\<close> and the decimal id selects exactly
  the object with that id. The listing itself prints ids in hexadecimal.\<close>

theorem oid_criterion_exact: "list_match (''oid'' @ digits 10 (unat oid)) v \<longleftrightarrow> ov_oid v = oid"
proof -
  have "digits 10 a = digits 10 b \<longleftrightarrow> a = b" for a b
  proof
    assume "digits 10 a = digits 10 b"
    then have "undigits 10 (digits 10 a) = undigits 10 (digits 10 b)" by simp
    then show "a = b" by (simp add: undigits_digits)
  qed simp
  then show ?thesis by (simp add: list_match_def word_unat_eq_iff)
qed

lemma stats_loop_eq:
  assumes "\<And>v age. v \<in> set vs \<Longrightarrow> ov_age v = Some age \<Longrightarrow> 0 \<le> age" and "ag_youngest a = 0"
  shows "ag_youngest (stats_loop c vs a) = 0 \<and>
     ag_count (stats_loop c vs a) = ag_count a + length (filter (\<lambda>v. c = None \<or> c = Some (ov_type v)) vs)"
  using assms
proof (induction vs arbitrary: a)
  case (Cons v vs)
  define a' where "a' = (if c = None \<or> c = Some (ov_type v) then
          let a = a\<lparr>ag_count := ag_count a + 1\<rparr>
          in case ov_age v of
               None \<Rightarrow> a
             | Some age \<Rightarrow>
                 let a = a\<lparr>ag_sum := ag_sum a + age\<rparr>;
                     a = (if ag_oldest a < age then a\<lparr>ag_oldest := age\<rparr> else a)
                 in if age < ag_youngest a then a\<lparr>ag_youngest := age\<rparr> else a
        else a)"
  have p: "0 \<le> age" if "ov_age v = Some age" for age using Cons.prems(1) [of v] that by simp
  have y: "ag_youngest a' = 0" using p Cons.prems(2) by (auto simp: a'_def Let_def split: option.splits)
  have n: "ag_count a' = (if c = None \<or> c = Some (ov_type v) then ag_count a + 1 else ag_count a)"
    by (simp add: a'_def Let_def split: option.splits)
  have l: "stats_loop c (v # vs) a = stats_loop c vs a'" by (simp add: a'_def)
  have "ag_youngest (stats_loop c vs a') = 0 \<and>
      ag_count (stats_loop c vs a') = ag_count a' + length (filter (\<lambda>v. c = None \<or> c = Some (ov_type v)) vs)"
    by (rule Cons.IH [OF _ y]) (use Cons.prems(1) in auto)
  then show ?case unfolding l n by simp
qed simp

text \<open>The statistics count the matching objects, but the youngest age is reported as zero
  whatever the ages are.\<close>

theorem youngest_is_always_zero:
  assumes "\<And>v age. v \<in> set vs \<Longrightarrow> ov_age v = Some age \<Longrightarrow> 0 \<le> age"
  shows "ag_youngest (str_stats c vs) = 0 \<and> ag_count (str_stats c vs) = length (filter (\<lambda>v. c = None \<or> c = Some (ov_type v)) vs)"
  using stats_loop_eq [OF assms] by (simp add: str_stats_def)

section \<open>Examples\<close>

theorem meter_loses_nothing_witness:
  "\<exists>m. meter_run [(5, 7), (2000000000, 3)] (new_meter 1 0) = Inr m \<and> mt_total m = 10"
  using meter_loses_nothing [of 1 "[(5, 7), (2000000000, 3)]" 0] by auto

theorem meter_steady_rate_witness:
  "\<exists>m. meter_run (ticks 2 0 100 6) (new_meter 2 0) = Inr m \<and> unat (meter_get 12000000000 m) = 50"
  using meter_steady_rate [of 2 6 100 0] by (simp add: seconds_def)

theorem registry_is_exact_witness:
  "\<exists>s. reg_reach 1 0 s \<and> ob_oid s 4096 \<noteq> None \<and> mt_total (ob_created s) = 1 \<and> card (dom (ob_oid s)) = 1 \<and>
     (\<exists>s'. new_sobject 8192 1 s = Inr s')"
proof -
  have r0: "reg_reach 0 0 (no_objs 0)" by (rule reg_init)
  obtain s where s: "new_sobject 4096 0 (no_objs 0) = Inr s" using registry_is_exact [OF r0, of 4096 0] by auto
  have r1: "reg_reach 1 0 s" using reg_new [OF r0 _ s] by (simp add: no_objs_def)
  moreover have "ob_oid s 4096 \<noteq> None" using s by (auto simp: new_sobject_def Let_def split: if_splits sum.splits)
  moreover have n: "(1 :: nat) < 2 ^ 64" by simp
  note k = registry_is_exact [OF r1 n, of 8192 1]
  have t: "mt_total (ob_created s) = 1" "mt_total (ob_deleted s) = 0" using k by simp_all
  moreover have "\<exists>s'. new_sobject 8192 1 s = Inr s'" using k by blast
  moreover have "unat (mt_total (ob_created s) - mt_total (ob_deleted s)) = card (dom (ob_oid s))" using k by blast
  then have "card (dom (ob_oid s)) = 1" by (simp add: t)
  ultimately show ?thesis by blast
qed

theorem youngest_is_always_zero_witness:
  "ag_youngest (str_stats None [\<lparr>ov_ptr = 16, ov_oid = 5, ov_type = ''a'', ov_text = [], ov_age = Some 30\<rparr>]) = 0"
  by (rule youngest_is_always_zero [THEN conjunct1]) auto

end
