(* ===== verification/Tcpcom.thy ===== *)
theory Tcpcom
  imports Prelude
begin

text \<open>
  TCP and Unix sockets: \<^verbatim>\<open>tcpcom.cpp\<close>, \<^verbatim>\<open>tcpcom.hpp\<close>, \<^verbatim>\<open>uxcom.cpp\<close> and the parts of
  \<^verbatim>\<open>basecom.cpp\<close> and \<^verbatim>\<open>basecom.hpp\<close> they rest on.

  The state is the com (its descriptor, flags and options) and \<open>sockets\<close>, what the kernel holds for the
  process: the open descriptors, the options set on them in order and the names they were bound to.
  What a system call answers is a field of \<open>addr_answer\<close>, \<open>bind_answer\<close> or \<open>status_answer\<close>.

  Shown: a connection attempt leaves one new descriptor open or none, and the com holds it; which
  sockets are bound to the source address; a Unix \<^verbatim>\<open>bind\<close> leaks nothing while a TCP one does when
  \<^verbatim>\<open>listen\<close> fails; a refused connection is taken for an established one.
\<close>

section \<open>Sockets\<close>

datatype sock_opt = Reuseaddr | Nodelay | Quickack | Transparent_v4 | Transparent_v6 | Nonblock

record sockets =
  nt_open :: "int set"
  nt_opts :: "(int \<times> sock_opt) list"
  nt_names :: "(int \<times> string \<times> nat) list"

datatype family = Fam_unspec | Fam_inet | Fam_inet6 | Fam_unix

record com_flags =
  fl_read :: bool
  fl_write :: bool
  fl_read_on_write :: bool
  fl_write_on_read :: bool
  fl_read_always :: bool
  fl_write_always :: bool

record tcp =
  tc_fd :: int
  tc_connect_proven :: bool
  tc_nonlocal_src :: bool
  tc_nonlocal_dst :: bool
  tc_src_host :: string
  tc_src_port :: nat
  tc_l3 :: family
  tc_bind_family :: family
  tc_flags :: com_flags

definition set_opt :: "int \<Rightarrow> sock_opt \<Rightarrow> sockets \<Rightarrow> sockets" where
  "set_opt fd o' n = n\<lparr>nt_opts := nt_opts n @ [(fd, o')]\<rparr>"

definition sys_open :: "int \<Rightarrow> sockets \<Rightarrow> sockets" where
  "sys_open fd n = (if 0 \<le> fd then n\<lparr>nt_open := insert fd (nt_open n)\<rparr> else n)"

definition sys_close :: "int \<Rightarrow> sockets \<Rightarrow> sockets" where
  "sys_close fd n = n\<lparr>nt_open := nt_open n - {fd}\<rparr>"

section \<open>The base of all coms\<close>

text \<open>The descriptor held before is not closed.\<close>

definition com_socket :: "int \<Rightarrow> tcp \<Rightarrow> int \<times> tcp" where
  "com_socket s c = (s, c\<lparr>tc_fd := s\<rparr>)"

definition com_close :: "int \<Rightarrow> sockets \<Rightarrow> sockets" where
  "com_close fd n = (if 0 < fd then sys_close fd n else n)"

definition unblock :: "bool \<Rightarrow> bool \<Rightarrow> int \<Rightarrow> sockets \<Rightarrow> int \<times> sockets" where
  "unblock blocking set_ok fd n =
     (if blocking then if set_ok then (0, set_opt fd Nonblock n) else (- 1, n) else (0, n))"

definition tcp_namesocket :: "int \<Rightarrow> int \<Rightarrow> int \<Rightarrow> string \<Rightarrow> nat \<Rightarrow> family \<Rightarrow> sockets \<Rightarrow> int \<times> sockets" where
  "tcp_namesocket ret_bind err fd addr port fam n =
     (let n = (if fam \<in> {Fam_inet, Fam_unspec} then set_opt fd Transparent_v4 n
               else if fam = Fam_inet6 then set_opt fd Transparent_v6 n
               else n)
      in if ret_bind \<noteq> 0 then (err, n) else (ret_bind, n\<lparr>nt_names := nt_names n @ [(fd, addr, port)]\<rparr>))"

definition nonlocal_bind :: "(tcp \<Rightarrow> sockets \<Rightarrow> int \<times> sockets) \<Rightarrow> tcp \<Rightarrow> sockets \<Rightarrow> int \<times> tcp \<times> sockets" where
  "nonlocal_bind bind c n =
     (let c = c\<lparr>tc_nonlocal_dst := True\<rparr>; (r, n) = bind c n
      in (r, if r < 0 then c\<lparr>tc_nonlocal_dst := False\<rparr> else c, n))"

definition forced_read_reset :: "com_flags \<Rightarrow> bool \<times> com_flags" where
  "forced_read_reset f = (fl_read f, if fl_read_always f then f else f\<lparr>fl_read := False\<rparr>)"

definition forced_write_reset :: "com_flags \<Rightarrow> bool \<times> com_flags" where
  "forced_write_reset f = (fl_write f, if fl_write_always f then f else f\<lparr>fl_write := False\<rparr>)"

definition forced_read_on_write_reset :: "com_flags \<Rightarrow> bool \<times> com_flags" where
  "forced_read_on_write_reset f = (fl_read_on_write f, f\<lparr>fl_read_on_write := False\<rparr>)"

definition forced_write_on_read_reset :: "com_flags \<Rightarrow> bool \<times> com_flags" where
  "forced_write_on_read_reset f = (fl_write_on_read f, f\<lparr>fl_write_on_read := False\<rparr>)"

definition forced_read_always :: "bool \<Rightarrow> com_flags \<Rightarrow> com_flags" where
  "forced_read_always b f = f\<lparr>fl_read := b, fl_read_always := b\<rparr>"

definition forced_write_always :: "bool \<Rightarrow> com_flags \<Rightarrow> com_flags" where
  "forced_write_always b f = f\<lparr>fl_write := b, fl_write_always := b\<rparr>"

section \<open>TCP\<close>

definition on_new_socket :: "int \<Rightarrow> sockets \<Rightarrow> sockets" where
  "on_new_socket fd n = (if 0 \<le> fd then set_opt fd Quickack (set_opt fd Nodelay n) else n)"

text \<open>What the kernel answers for one address: the new descriptor, the outcome of \<^verbatim>\<open>bind\<close> to the source
  address with its \<^verbatim>\<open>errno\<close>, the outcome of \<^verbatim>\<open>connect\<close> and whether it is in progress.\<close>

record addr_answer =
  aa_fd :: int
  aa_bind :: int
  aa_bind_errno :: int
  aa_connect :: int
  aa_in_progress :: bool

definition make_transparent :: "addr_answer \<Rightarrow> tcp \<Rightarrow> int \<Rightarrow> sockets \<Rightarrow> bool \<times> sockets" where
  "make_transparent a c sfd n =
     (let (bind_status, n) = tcp_namesocket (aa_bind a) (aa_bind_errno a) sfd (tc_src_host c) (tc_src_port c) (tc_l3 c) n
      in (bind_status = 0, n))"

text \<open>A source address that cannot be bound is only reported.\<close>

fun tcp_connect_loop :: "bool \<Rightarrow> addr_answer list \<Rightarrow> int \<Rightarrow> tcp \<Rightarrow> sockets \<Rightarrow> int \<times> tcp \<times> sockets" where
  "tcp_connect_loop blocking [] sfd c n = (sfd, c, n)"
| "tcp_connect_loop blocking (a # as) sfd c n =
     (let sfd = aa_fd a; n = sys_open sfd n
      in if sfd < 0 then tcp_connect_loop blocking as sfd c n
         else
           let n = on_new_socket sfd n;
               n = (if tc_nonlocal_src c then snd (make_transparent a c sfd n) else n)
           in if \<not> blocking then
                let n = snd (unblock True True sfd n)
                in if aa_connect a = 0 then (sfd, c\<lparr>tc_connect_proven := True\<rparr>, n)
                   else if aa_in_progress a then (sfd, c, n)
                   else tcp_connect_loop blocking as (- 1) c (sys_close sfd n)
              else if aa_connect a = 0 then (sfd, c, n)
              else tcp_connect_loop blocking as (- 1) c (sys_close sfd n))"

definition tcp_connect :: "bool \<Rightarrow> addr_answer list option \<Rightarrow> tcp \<Rightarrow> sockets \<Rightarrow> int \<times> tcp \<times> sockets" where
  "tcp_connect blocking gai c n =
     (case gai of
        None \<Rightarrow> (- 2, c, n)
      | Some as \<Rightarrow> let (sfd, c, n) = tcp_connect_loop blocking as (- 1) c n; (r, c) = com_socket sfd c in (r, c, n))"

record bind_answer =
  ba_fd :: int
  ba_bind :: int
  ba_listen :: int

definition tcp_bind :: "bind_answer \<Rightarrow> tcp \<Rightarrow> sockets \<Rightarrow> int \<times> sockets" where
  "tcp_bind a c n =
     (let sock = ba_fd a; n = sys_open sock n
      in if sock = - 1 then (- 129, n)
         else
           let n = set_opt sock Reuseaddr n;
               n = (if tc_nonlocal_dst c then
                      let n = (if tc_bind_family c \<in> {Fam_inet, Fam_inet6, Fam_unspec} then set_opt sock Transparent_v4 n else n)
                      in if tc_bind_family c = Fam_inet6 then set_opt sock Transparent_v6 n else n
                    else n)
           in if ba_bind a = - 1 then (- 130, sys_close sock n)
              else if ba_listen a = - 1 then (- 131, n)
              else (sock, n))"

definition tcp_accept :: "int \<Rightarrow> bool \<Rightarrow> sockets \<Rightarrow> int \<times> sockets" where
  "tcp_accept news again n =
     (if news < 0 then (if \<not> again then - 1 else news, n) else (news, on_new_socket news (sys_open news n)))"

definition tcp_write :: "int \<Rightarrow> bool \<Rightarrow> int" where
  "tcp_write r again = (if r < 0 \<and> again then 0 else r)"

text \<open>\<^verbatim>\<open>getsockopt\<close> stores the state of the connection in \<open>so_error\<close>; the variable is then overwritten
  with \<^verbatim>\<open>errno\<close>.\<close>

record status_answer =
  sa_getsockopt :: int
  sa_so_error :: int
  sa_errno :: int
  sa_in_write :: bool
  sa_in_read :: bool

definition EINPROGRESS :: int where "EINPROGRESS = 115"

definition is_connected :: "status_answer \<Rightarrow> tcp \<Rightarrow> bool \<times> tcp" where
  "is_connected a c =
     (if tc_connect_proven c then (True, c)
      else if tc_fd c = 0 then (True, c)
      else
        let error_code = sa_so_error a; error_code = sa_errno a
        in if sa_getsockopt a = 0 then
             let c = (if error_code = 0 then c\<lparr>tc_connect_proven := True\<rparr> else c)
             in if error_code = EINPROGRESS then
                  if sa_in_read a \<or> sa_in_write a then (True, c\<lparr>tc_connect_proven := True\<rparr>) else (False, c)
                else (True, c)
           else (False, c))"

definition com_status :: "status_answer \<Rightarrow> tcp \<Rightarrow> bool \<times> tcp" where
  "com_status a c = is_connected a c"

section \<open>Unix sockets\<close>

definition ux_connect :: "bool \<Rightarrow> addr_answer \<Rightarrow> tcp \<Rightarrow> sockets \<Rightarrow> int \<times> tcp \<times> sockets" where
  "ux_connect blocking a c n =
     (let sfd = aa_fd a; n = sys_open sfd n
      in if sfd = - 1 then (sfd, c, n)
         else
           let n = (if blocking then n else snd (unblock True True sfd n));
               failed = (if blocking then aa_connect a \<noteq> 0 else aa_connect a < 0 \<and> \<not> aa_in_progress a);
               n = (if failed then com_close sfd n else n);
               (r, c) = com_socket (if failed then 0 else sfd) c
           in (r, c, n))"

definition ux_bind :: "bind_answer \<Rightarrow> sockets \<Rightarrow> int \<times> sockets" where
  "ux_bind a n =
     (let s = ba_fd a; n = sys_open s n
      in if s = - 1 then (- 129, n)
         else
           let n = set_opt s Reuseaddr n
           in if ba_bind a = - 1 then (- 130, sys_close s n)
              else if ba_listen a = - 1 then (- 131, sys_close s n)
              else (s, n))"

section \<open>Descriptors\<close>

definition usable :: "bool \<Rightarrow> addr_answer \<Rightarrow> bool" where
  "usable blocking a \<longleftrightarrow> 0 \<le> aa_fd a \<and> (aa_connect a = 0 \<or> \<not> blocking \<and> aa_in_progress a)"

lemma net_simps [simp]:
  "nt_open (set_opt fd o' n) = nt_open n" "nt_open (on_new_socket fd n) = nt_open n"
  "nt_open (sys_open fd n) = (if 0 \<le> fd then insert fd (nt_open n) else nt_open n)"
  "nt_open (sys_close fd n) = nt_open n - {fd}" "nt_open (snd (unblock b s fd n)) = nt_open n"
  by (simp_all add: set_opt_def on_new_socket_def sys_open_def sys_close_def unblock_def)

lemma make_transparent_open [simp]: "nt_open (snd (make_transparent a c fd n)) = nt_open n"
  by (simp add: make_transparent_def tcp_namesocket_def Let_def)

lemma failed_address:
  assumes "\<not> aa_fd a < 0" and "\<not> usable blocking a"
    and "tcp_connect_loop blocking (a # as) sfd c n = (r, c', n')"
  obtains m where "nt_open m = insert (aa_fd a) (nt_open n)"
    and "tcp_connect_loop blocking as (- 1) c (sys_close (aa_fd a) m) = (r, c', n')"
proof -
  define k where "k = on_new_socket (aa_fd a) (sys_open (aa_fd a) n)"
  define m where "m = (let n = (if tc_nonlocal_src c then snd (make_transparent a c (aa_fd a) k) else k)
    in if blocking then n else snd (unblock True True (aa_fd a) n))"
  have "nt_open m = insert (aa_fd a) (nt_open n)" using assms(1) by (simp add: m_def k_def Let_def)
  moreover have "tcp_connect_loop blocking as (- 1) c (sys_close (aa_fd a) m) = (r, c', n')"
    using assms by (simp add: usable_def Let_def m_def k_def split: if_splits)
  ultimately show thesis by (rule that)
qed

lemma tcp_connect_loop_owns:
  assumes "\<And>a. a \<in> set as \<Longrightarrow> 0 \<le> aa_fd a \<Longrightarrow> aa_fd a \<notin> nt_open n" and "sfd < 0"
    and "tcp_connect_loop blocking as sfd c n = (r, c', n')"
  shows "(case find (usable blocking) as of
            Some a \<Rightarrow> r = aa_fd a \<and> nt_open n' = insert r (nt_open n) \<and>
              tc_connect_proven c' = (tc_connect_proven c \<or> \<not> blocking \<and> aa_connect a = 0)
          | None \<Rightarrow> r < 0 \<and> nt_open n' = nt_open n \<and> c' = c)"
  using assms
proof (induction as arbitrary: sfd n)
  case (Cons a as)
  show ?case
  proof (cases "aa_fd a < 0")
    case True
    then show ?thesis using Cons.prems Cons.IH [of n "aa_fd a"] by (simp add: usable_def sys_open_def)
  next
    case open_ok: False
    show ?thesis
    proof (cases "usable blocking a")
      case True
      then show ?thesis using Cons.prems(3) open_ok by (auto simp: usable_def Let_def split: if_splits)
    next
      case False
      obtain m where o: "nt_open m = insert (aa_fd a) (nt_open n)"
        and l: "tcp_connect_loop blocking as (- 1) c (sys_close (aa_fd a) m) = (r, c', n')"
        by (rule failed_address [OF open_ok False Cons.prems(3)])
      have m: "nt_open (sys_close (aa_fd a) m) = nt_open n" using o Cons.prems(1) [of a] open_ok by simp
      have "\<And>b. b \<in> set as \<Longrightarrow> 0 \<le> aa_fd b \<Longrightarrow> aa_fd b \<notin> nt_open (sys_close (aa_fd a) m)"
        unfolding m using Cons.prems(1) by simp
      from Cons.IH [OF this _ l, unfolded m] False show ?thesis by simp
    qed
  qed
qed simp

text \<open>C23: A connection attempt over the addresses of a host leaves exactly one new descriptor
  open, that of the first address that connected or is in progress, and the com holds it; if none
  did, no descriptor is left open and the result is negative. Sockets of the addresses that failed
  are closed.\<close>

theorem tcp_connect_owns_one_socket:
  assumes "\<And>a. a \<in> set as \<Longrightarrow> 0 \<le> aa_fd a \<Longrightarrow> aa_fd a \<notin> nt_open n"
    and "tcp_connect blocking (Some as) c n = (r, c', n')"
  shows "tc_fd c' = r \<and>
    (case find (usable blocking) as of
       Some a \<Rightarrow> r = aa_fd a \<and> nt_open n' = insert r (nt_open n) | None \<Rightarrow> r < 0 \<and> nt_open n' = nt_open n)"
proof -
  obtain c1 where l: "tcp_connect_loop blocking as (- 1) c n = (r, c1, n')" and c': "c' = c1\<lparr>tc_fd := r\<rparr>"
    using assms(2) by (auto simp: tcp_connect_def com_socket_def split: prod.splits)
  show ?thesis using tcp_connect_loop_owns [OF assms(1) _ l] c' by (auto split: option.splits)
qed

text \<open>If \<^verbatim>\<open>listen\<close> fails, the TCP \<^verbatim>\<open>bind\<close>
  returns an error and leaves the socket open: nobody holds its descriptor.\<close>

theorem failed_listen_leaks:
  assumes "0 \<le> ba_fd a" and "ba_bind a \<noteq> - 1" and "ba_listen a = - 1"
  shows "\<exists>n'. tcp_bind a c n = (- 131, n') \<and> ba_fd a \<in> nt_open n'"
  using assms by (simp add: tcp_bind_def Let_def)

text \<open>A Unix \<^verbatim>\<open>bind\<close> leaves exactly the socket it returns open, and
  none if it fails.\<close>

theorem ux_bind_owns_result:
  assumes "0 \<le> ba_fd a" and "ba_fd a \<notin> nt_open n" and "ux_bind a n = (r, n')"
  shows "nt_open n' = (if 0 \<le> r then insert r (nt_open n) else nt_open n)"
  using assms by (auto simp: ux_bind_def Let_def split: if_splits)

text \<open>A connection whose socket reports an error is taken for established, once and for all:
  the value of \<^verbatim>\<open>SO_ERROR\<close> is overwritten with
  \<^verbatim>\<open>errno\<close>, which is zero when \<^verbatim>\<open>getsockopt\<close>
  succeeds.\<close>

theorem refused_connection_counts_as_connected:
  assumes "tc_fd c \<noteq> 0" and "sa_getsockopt a = 0" and "sa_so_error a \<noteq> 0" and "sa_errno a = 0"
  shows "\<exists>c'. com_status a c = (True, c') \<and> tc_connect_proven c'"
  using assms by (auto simp: com_status_def is_connected_def EINPROGRESS_def)

text \<open>The names a connection gets on the way are only the configured source address, and only for a com with a
  non-local source.\<close>

lemma names_simps [simp]:
  "nt_names (set_opt fd o' n) = nt_names n" "nt_names (on_new_socket fd n) = nt_names n"
  "nt_names (sys_open fd n) = nt_names n" "nt_names (sys_close fd n) = nt_names n"
  "nt_names (snd (unblock b s fd n)) = nt_names n"
  by (simp_all add: set_opt_def on_new_socket_def sys_open_def sys_close_def unblock_def)

lemma make_transparent_names:
  "nt_names (snd (make_transparent a c fd n)) =
     nt_names n @ (if aa_bind a = 0 then [(fd, tc_src_host c, tc_src_port c)] else [])"
  by (simp add: make_transparent_def tcp_namesocket_def Let_def)

definition named_by :: "tcp \<Rightarrow> addr_answer list \<Rightarrow> (int \<times> string \<times> nat) list" where
  "named_by c as = (if tc_nonlocal_src c
     then map (\<lambda>a. (aa_fd a, tc_src_host c, tc_src_port c)) (filter (\<lambda>a. 0 \<le> aa_fd a \<and> aa_bind a = 0) as) else [])"

lemma named_by_simps [simp]: "named_by c [] = []"
  "named_by c (a # as) = (if tc_nonlocal_src c \<and> 0 \<le> aa_fd a \<and> aa_bind a = 0
     then [(aa_fd a, tc_src_host c, tc_src_port c)] else []) @ named_by c as"
  by (simp_all add: named_by_def)

lemma loop_names:
  assumes "tcp_connect_loop blocking as sfd c n = (r, c', n')"
  shows "nt_names n' = nt_names n @ named_by c (takeWhile (\<lambda>a. \<not> usable blocking a) as) @
     (case find (usable blocking) as of None \<Rightarrow> [] | Some a \<Rightarrow> named_by c [a])"
  using assms
  by (induction as arbitrary: sfd n)
     (auto simp: usable_def Let_def make_transparent_names sys_open_def split: if_splits)

text \<open>A com with a non-local source binds the sockets it tries to the configured source
  address, up to and including the one it returns, and no others; a socket that cannot be bound is
  used all the same.\<close>

theorem tcp_connect_names_its_source:
  assumes "tcp_connect blocking (Some as) c n = (r, c', n')"
  shows "nt_names n' = nt_names n @ named_by c (takeWhile (\<lambda>a. \<not> usable blocking a) as) @
     (case find (usable blocking) as of None \<Rightarrow> [] | Some a \<Rightarrow> named_by c [a])"
  using assms loop_names by (auto simp: tcp_connect_def split: prod.splits)

section \<open>Examples\<close>

definition demo_tcp_com :: tcp where
  "demo_tcp_com = \<lparr>tc_fd = 9, tc_connect_proven = False, tc_nonlocal_src = False, tc_nonlocal_dst = True,
     tc_src_host = ''192.0.2.1'', tc_src_port = 4000, tc_l3 = Fam_inet, tc_bind_family = Fam_inet6,
     tc_flags = \<lparr>fl_read = False, fl_write = False, fl_read_on_write = False, fl_write_on_read = False, fl_read_always = False,
       fl_write_always = False\<rparr>\<rparr>"

definition demo_sockets :: sockets where "demo_sockets = \<lparr>nt_open = {3, 4}, nt_opts = [], nt_names = []\<rparr>"

definition demo_addresses :: "addr_answer list" where
  "demo_addresses = [\<lparr>aa_fd = 5, aa_bind = 0, aa_bind_errno = 0, aa_connect = - 1, aa_in_progress = False\<rparr>, \<lparr>aa_fd = - 1, aa_bind = 0, aa_bind_errno = 0, aa_connect = 0, aa_in_progress = False\<rparr>,
     \<lparr>aa_fd = 5, aa_bind = 0, aa_bind_errno = 0, aa_connect = - 1, aa_in_progress = True\<rparr>]"

theorem tcp_connect_owns_one_socket_witness:
  "\<exists>c' n'. tcp_connect False (Some demo_addresses) demo_tcp_com demo_sockets = (5, c', n') \<and> nt_open n' = {3, 4, 5}"
proof -
  obtain r c' n' where s: "tcp_connect False (Some demo_addresses) demo_tcp_com demo_sockets = (r, c', n')" by (metis prod_cases3)
  have "tc_fd c' = r \<and> (case find (usable False) demo_addresses of
       Some a \<Rightarrow> r = aa_fd a \<and> nt_open n' = insert r (nt_open demo_sockets) | None \<Rightarrow> r < 0 \<and> nt_open n' = nt_open demo_sockets)"
    by (rule tcp_connect_owns_one_socket [OF _ s]) (auto simp: demo_addresses_def demo_sockets_def)
  then show ?thesis using s by (auto simp: demo_addresses_def usable_def demo_sockets_def)
qed

theorem failed_listen_leaks_witness:
  "\<exists>n'. tcp_bind \<lparr>ba_fd = 6, ba_bind = 0, ba_listen = - 1\<rparr> demo_tcp_com demo_sockets = (- 131, n') \<and> 6 \<in> nt_open n'"
  using failed_listen_leaks [of "\<lparr>ba_fd = 6, ba_bind = 0, ba_listen = - 1\<rparr>"] by simp

theorem ux_bind_owns_result_witness:
  "\<exists>r n'. ux_bind \<lparr>ba_fd = 6, ba_bind = 0, ba_listen = - 1\<rparr> demo_sockets = (r, n') \<and> nt_open n' = {3, 4}"
proof -
  have s: "ux_bind \<lparr>ba_fd = 6, ba_bind = 0, ba_listen = - 1\<rparr> demo_sockets =
      (- 131, snd (ux_bind \<lparr>ba_fd = 6, ba_bind = 0, ba_listen = - 1\<rparr> demo_sockets))"
    by (simp add: ux_bind_def Let_def)
  have "nt_open (snd (ux_bind \<lparr>ba_fd = 6, ba_bind = 0, ba_listen = - 1\<rparr> demo_sockets)) = {3, 4}"
    using ux_bind_owns_result [OF _ _ s] by (simp add: demo_sockets_def)
  then show ?thesis using s by blast
qed

theorem refused_connection_counts_as_connected_witness:
  "\<exists>c'. com_status \<lparr>sa_getsockopt = 0, sa_so_error = 111, sa_errno = 0, sa_in_write = True, sa_in_read = True\<rparr> demo_tcp_com = (True, c') \<and>
     tc_connect_proven c'"
  by (rule refused_connection_counts_as_connected) (simp_all add: demo_tcp_com_def)

theorem tcp_connect_names_its_source_witness:
  "\<exists>r c' n'. tcp_connect False (Some demo_addresses) (demo_tcp_com\<lparr>tc_nonlocal_src := True\<rparr>) demo_sockets = (r, c', n') \<and>
     nt_names n' = [(5, ''192.0.2.1'', 4000), (5, ''192.0.2.1'', 4000)]"
proof -
  define c where "c = demo_tcp_com\<lparr>tc_nonlocal_src := True\<rparr>"
  obtain r c' n' where s: "tcp_connect False (Some demo_addresses) c demo_sockets = (r, c', n')" by (metis prod_cases3)
  have "nt_names n' = [(5, ''192.0.2.1'', 4000), (5, ''192.0.2.1'', 4000)]"
    unfolding tcp_connect_names_its_source [OF s]
    by (simp add: demo_addresses_def usable_def demo_sockets_def named_by_def c_def demo_tcp_com_def)
  then show ?thesis using s unfolding c_def by blast
qed

end
