(* ===== verification/Sslhello.thy ===== *)
theory Sslhello
  imports Prelude
begin

text \<open>
  The ClientHello of the peer, as the TLS client side reads it before it connects:
  \<^verbatim>\<open>parse_peer_hello\<close> and \<^verbatim>\<open>parse_peer_hello_extensions\<close> of \<^verbatim>\<open>sslcom.tpp\<close>, and the
  matching of the bypass filter against the name found.

  The buffer is the whole block \<open>hb_mem\<close> and the part \<open>hb_size\<close> of it that was received:
  \<^verbatim>\<open>get_at\<close> checks its position against the size and throws, while the two
  \<^verbatim>\<open>s.append(b.data() + curpos, n)\<close> check nothing and read the block beyond the size, or, beyond the
  block, are undefined. A step of the parser yields the exception thrown, if any, and the state it
  leaves, because the handlers go on from that state. \<^verbatim>\<open>curpos\<close> is a natural number: it stays below the
  size plus 2 to the 16, far from the bound of \<^verbatim>\<open>unsigned int\<close>. The loop over the extensions may not
  end: it is a partial function, and \<open>None\<close> is not returning.
\<close>

section \<open>The parser\<close>

record hello =
  hb_mem :: "byte list"
  hb_size :: nat
  hs_sni :: "byte list"
  hs_alpn :: "byte list"
  hs_id :: string
  hs_pos :: nat
  hs_ret :: int
  hs_error :: bool

definition hex_digit :: "nat \<Rightarrow> char" where
  "hex_digit n = ''0123456789ABCDEF'' ! n"

definition hex_print :: "byte list \<Rightarrow> string" where
  "hex_print bs = concat (map (\<lambda>b. [hex_digit (unat b div 16), hex_digit (unat b mod 16)]) bs)"

definition skip :: "nat \<Rightarrow> hello \<Rightarrow> hello" where
  "skip n h = h\<lparr>hs_pos := hs_pos h + n\<rparr>"

definition hb_get8 :: "hello \<Rightarrow> (byte \<Rightarrow> exn option \<times> hello) \<Rightarrow> exn option \<times> hello" where
  "hb_get8 h k = (if hb_size h < hs_pos h + 1 then (Some Out_of_range, h) else k (hb_mem h ! hs_pos h))"

text \<open>\<^verbatim>\<open>ntohs(b.get_at<unsigned short>(curpos))\<close>.\<close>

definition hb_get16 :: "hello \<Rightarrow> (u16 \<Rightarrow> exn option \<times> hello) \<Rightarrow> exn option \<times> hello" where
  "hb_get16 h k =
     (if hb_size h < hs_pos h + 2 then (Some Out_of_range, h)
      else k (of_be (take 2 (drop (hs_pos h) (hb_mem h)))))"

definition hb_view :: "nat \<Rightarrow> hello \<Rightarrow> (byte list \<Rightarrow> exn option \<times> hello) \<Rightarrow> exn option \<times> hello" where
  "hb_view n h k =
     (if hs_pos h < hb_size h then k (take (min n (hb_size h - hs_pos h)) (drop (hs_pos h) (hb_mem h)))
      else (Some Out_of_range, h))"

definition hb_chars :: "nat \<Rightarrow> hello \<Rightarrow> (byte list \<Rightarrow> exn option \<times> hello) \<Rightarrow> exn option \<times> hello" where
  "hb_chars n h k =
     (if hs_pos h + n \<le> length (hb_mem h) then k (take n (drop (hs_pos h) (hb_mem h)))
      else (Some Undefined_behaviour, h))"

text \<open>\<^verbatim>\<open>parse_peer_hello_extensions\<close> works on a copy of \<^verbatim>\<open>curpos\<close> and returns how far to move on, in 16
  bits.\<close>

definition parse_peer_hello_extensions :: "hello \<Rightarrow> exn option \<times> u16 \<times> hello" where
  "parse_peer_hello_extensions h0 =
     (let put = (\<lambda>h. h\<lparr>hs_pos := hs_pos h0\<rparr>); len = (of_be (take 2 (drop (hs_pos h0 + 2) (hb_mem h0))) :: u16);
          (e, h) =
            hb_get16 h0 (\<lambda>ext_id. let h = skip 2 h0 in
            hb_get16 h (\<lambda>ext_length. let h = skip 2 h in
              if ext_id = 0 then
                hb_get16 h (\<lambda>sn_list_length. let h = skip 2 h in
                hb_get8 h (\<lambda>sn_type. let h = skip 1 h in
                  if sn_type = 0 then
                    hb_get16 h (\<lambda>n. let h = skip 2 h in hb_chars (unat n) h (\<lambda>s. (None, h\<lparr>hs_sni := s\<rparr>)))
                  else (None, h)))
              else if ext_id = 16 then
                hb_get16 h (\<lambda>n. let h = skip 2 h in hb_chars (unat n) h (\<lambda>s. (None, h\<lparr>hs_alpn := s\<rparr>)))
              else (None, h)))
      in (e, len + 4, put h))"

partial_function (option) hello_loop :: "hello \<Rightarrow> (exn option \<times> hello) option" where
  "hello_loop h =
     (if hs_pos h + 4 < hb_size h then
        (case parse_peer_hello_extensions h of
           (Some e, _, h) \<Rightarrow> Some (Some e, h)
         | (None, n, h) \<Rightarrow> hello_loop (skip (unat n) h))
      else Some (None, h))"

text \<open>The part of fixed layout, up to the compression methods; the inner \<^verbatim>\<open>try\<close> of the code. The
  cipher suites and the compression methods are only skipped.\<close>

definition hello_lists :: "hello \<Rightarrow> exn option \<times> hello" where
  "hello_lists h =
     hb_get16 h (\<lambda>ciphers. let h = skip 2 h in
       if hb_size h < hs_pos h + unat ciphers then (Some Clienthello_malformed, h)
       else let h = skip (unat ciphers) h in
       hb_get8 h (\<lambda>comp. let h = skip 1 h in
         if hb_size h < hs_pos h + unat comp then (Some Clienthello_malformed, h)
         else (None, skip (unat comp) h)))"

definition hello_fixed :: "hello \<Rightarrow> exn option \<times> hello" where
  "hello_fixed h =
     hb_get16 h (\<lambda>handshake_length. let h = skip 2 h in
     hb_get8 h (\<lambda>version_maj. let h = skip 1 h in
     hb_get8 h (\<lambda>version_min. let h = skip 1 h in
     hb_get8 h (\<lambda>unixtime. let h = skip 28 (skip 4 h) in
     hb_get8 h (\<lambda>sid_length. let h = (skip 1 h)\<lparr>hs_ret := 1\<rparr> in
       if 0 < sid_length then
         hb_view (unat sid_length) h
           (\<lambda>sid. hello_lists ((skip (unat sid_length) h)\<lparr>hs_id := hex_print sid\<rparr>))
       else hello_lists h)))))"

text \<open>The extension section.\<close>

definition hello_tail :: "hello \<Rightarrow> (exn option \<times> hello) option" where
  "hello_tail h =
     (let (len, h) = (if hs_pos h + 2 < hb_size h
                      then (of_be (take 2 (drop (hs_pos h) (hb_mem h))) :: u16, skip 2 h) else (0, h))
      in if hb_size h < hs_pos h + unat len then Some (Some Clienthello_malformed, h)
         else if 0 < len then hello_loop h else Some (None, h))"

definition hello_message :: "hello \<Rightarrow> (exn option \<times> hello) option" where
  "hello_message h =
     (case hello_fixed h of
        (Some Out_of_range, h) \<Rightarrow> hello_tail h
      | (Some e, h) \<Rightarrow> Some (Some e, h)
      | (None, h) \<Rightarrow> hello_tail h)"

text \<open>The body of the outer \<^verbatim>\<open>try\<close>. At least 34 bytes are there, so the reads of the record header cannot
  throw.\<close>

definition hello_record :: "hello \<Rightarrow> (exn option \<times> hello) option" where
  "hello_record h =
     (let m = hb_mem h; mt = m ! 0; maj = m ! 1; len = (of_be (take 2 (drop 3 m)) :: u16);
          ht = m ! 5; h = h\<lparr>hs_pos := 7\<rparr>
      in if maj \<noteq> 3 then Some (Some Clienthello_malformed, h)
         else if hb_size h \<noteq> unat len + 5 \<and> (mt \<noteq> 22 \<or> 5 < maj) then Some (None, h\<lparr>hs_ret := 0\<rparr>)
         else if mt = 22 \<and> ht = 1 then hello_message h
         else Some (None, h\<lparr>hs_ret := 1\<rparr>))"

text \<open>\<open>late\<close> is whether the time for the ClientHello has passed. The exception that is left can only be
  the malformed hello, or undefined behaviour.\<close>

definition parse_peer_hello :: "bool \<Rightarrow> hello \<Rightarrow> (exn option \<times> hello) option" where
  "parse_peer_hello late h =
     (let h = h\<lparr>hs_ret := - 1\<rparr>
      in if 34 \<le> hb_size h then
           map_option (\<lambda>(e, h). if e = Some Out_of_range then (None, h\<lparr>hs_error := True\<rparr>) else (e, h))
             (hello_record h)
         else Some (None, if late then h\<lparr>hs_error := True\<rparr> else h))"

section \<open>The bypass filter\<close>

text \<open>\<^verbatim>\<open>std::string::rfind\<close>: the last position at which the pattern occurs.\<close>

definition str_rfind :: "byte list \<Rightarrow> byte list \<Rightarrow> nat option" where
  "str_rfind s f =
     (let ps = filter (\<lambda>p. take (length f) (drop p s) = f) [0..<length s + 1]
      in if ps = [] then None else Some (last ps))"

definition strip_wildcard :: "byte list \<Rightarrow> byte list" where
  "strip_wildcard f = (if 1 < length f \<and> f ! 0 = 42 \<and> f ! 1 = 46 then drop 2 f else f)"

definition sni_filter_match :: "byte list \<Rightarrow> byte list \<Rightarrow> bool" where
  "sni_filter_match f sni =
     (let f = strip_wildcard f
      in case str_rfind sni f of
           None \<Rightarrow> False
         | Some pos \<Rightarrow> length sni \<le> pos + length f \<and> (if 0 < pos then sni ! (pos - 1) = 46 else True))"

section \<open>What the parser is to read\<close>

text \<open>A ClientHello record as the TLS standard lays it out: \<open>exts\<close> is the body of the extension section.\<close>

record client_hello =
  ch_version :: "byte \<times> byte"
  ch_random :: "byte list"
  ch_session_id :: "byte list"
  ch_ciphers :: "byte list"
  ch_compression :: "byte list"

abbreviation be16 :: "nat \<Rightarrow> byte list" where
  "be16 n \<equiv> be_bytes 2 (of_nat n :: u16)"

definition hello_body :: "client_hello \<Rightarrow> byte list \<Rightarrow> byte list" where
  "hello_body c exts = [fst (ch_version c), snd (ch_version c)] @ ch_random c @
     [of_nat (length (ch_session_id c))] @ ch_session_id c @
     be16 (length (ch_ciphers c)) @ ch_ciphers c @
     [of_nat (length (ch_compression c))] @ ch_compression c @
     be16 (length exts) @ exts"

definition hello_handshake :: "client_hello \<Rightarrow> byte list \<Rightarrow> byte list" where
  "hello_handshake c exts = [1, 0] @ be16 (length (hello_body c exts)) @ hello_body c exts"

definition hello_bytes :: "client_hello \<Rightarrow> byte list \<Rightarrow> byte list" where
  "hello_bytes c exts = [22, 3, 1] @ be16 (length (hello_handshake c exts)) @ hello_handshake c exts"

definition hello_ok :: "client_hello \<Rightarrow> byte list \<Rightarrow> bool" where
  "hello_ok c exts \<longleftrightarrow> length (ch_random c) = 32 \<and> length (ch_session_id c) < 256 \<and>
     length (ch_ciphers c) < 2 ^ 16 \<and> length (ch_compression c) < 256 \<and>
     length (hello_handshake c exts) < 2 ^ 16 \<and> exts \<noteq> []"

lemma be16_at: "n < 2 ^ 16 \<Longrightarrow> length p = i \<Longrightarrow> (of_be (take 2 (drop i (p @ be16 n @ r))) :: u16) = of_nat n"
  using be16.dec_at [of p "of_nat n" r] by simp

lemma length_hello_body: "hello_ok c exts \<Longrightarrow> length (hello_body c exts) = 35 + length (ch_session_id c) +
    2 + length (ch_ciphers c) + 1 + length (ch_compression c) + 2 + length exts"
  by (simp add: hello_ok_def hello_body_def)

lemma exts_short:
  assumes "hello_ok c exts"
  shows "length exts + 9 < 2 ^ 16"
proof -
  have "length (hello_handshake c exts) = 4 + length (hello_body c exts)" by (simp add: hello_handshake_def)
  moreover have "length (hello_handshake c exts) < 2 ^ 16" using assms by (simp only: hello_ok_def)
  ultimately show ?thesis using length_hello_body [OF assms] by linarith
qed

text \<open>The state in which the parser reads the extensions.\<close>

definition ext_start :: "client_hello \<Rightarrow> nat" where
  "ext_start c = 9 + 35 + length (ch_session_id c) + 2 + length (ch_ciphers c) + 1 + length (ch_compression c) + 2"

lemma hello_bytes_split:
  assumes "hello_ok c exts"
  shows "\<exists>p. length p + 2 = ext_start c \<and> hello_bytes c exts = p @ be16 (length exts) @ exts"
  using assms
  by (intro exI [of _ "[22, 3, 1] @ be16 (length (hello_handshake c exts)) @ [1, 0] @
      be16 (length (hello_body c exts)) @ [fst (ch_version c), snd (ch_version c)] @ ch_random c @
      [of_nat (length (ch_session_id c))] @ ch_session_id c @ be16 (length (ch_ciphers c)) @ ch_ciphers c @
      [of_nat (length (ch_compression c))] @ ch_compression c"])
     (auto simp: ext_start_def hello_ok_def hello_bytes_def hello_handshake_def hello_body_def)

lemma ext_start_length: "hello_ok c exts \<Longrightarrow> length (hello_bytes c exts) = ext_start c + length exts"
  by (simp add: ext_start_def hello_bytes_def hello_handshake_def length_hello_body)

lemma get8_at: "hs_pos h = length p \<Longrightarrow> hb_mem h = p @ b # r \<Longrightarrow> length p < hb_size h \<Longrightarrow> hb_get8 h k = k b"
  by (simp add: hb_get8_def)

lemma get16_at:
  "hs_pos h = length p \<Longrightarrow> hb_mem h = p @ be16 n @ r \<Longrightarrow> length p + 2 \<le> hb_size h \<Longrightarrow> n < 2 ^ 16 \<Longrightarrow>
   hb_get16 h k = k (of_nat n)"
  using be16_at [of n p "length p" r] by (simp add: hb_get16_def)

lemma skip_simps [simp]:
  "hs_pos (skip n h) = hs_pos h + n" "hb_mem (skip n h) = hb_mem h" "hb_size (skip n h) = hb_size h"
  "skip m (skip n h) = skip (n + m) h" "hs_ret (skip n h) = hs_ret h" "hs_sni (skip n h) = hs_sni h"
  "hs_alpn (skip n h) = hs_alpn h" "hs_error (skip n h) = hs_error h" "hs_id (skip n h) = hs_id h"
  by (simp_all add: skip_def)

lemma hello_fixed_ok:
  assumes ok: "hello_ok c exts"
    and h: "hb_mem h = hello_bytes c exts @ stale" "hb_size h = length (hello_bytes c exts)" "hs_pos h = 7"
  shows "\<exists>h'. hello_fixed h = (None, h') \<and> hs_pos h' + 2 = ext_start c \<and> hs_ret h' = 1 \<and> hb_mem h' = hb_mem h \<and>
     hb_size h' = hb_size h \<and> hs_sni h' = hs_sni h \<and> hs_alpn h' = hs_alpn h \<and> hs_error h' = hs_error h \<and>
     (ch_session_id c \<noteq> [] \<longrightarrow> hs_id h' = hex_print (ch_session_id c))"
proof -
  define sid where "sid = ch_session_id c"
  define cs where "cs = ch_ciphers c"
  define cm where "cm = ch_compression c"
  define n1 where "n1 = length (hello_handshake c exts)"
  define n2 where "n2 = length (hello_body c exts)"
  define n3 where "n3 = length exts"
  obtain v1 v2 where v: "ch_version c = (v1, v2)" by force
  define rnd where "rnd = ch_random c"
  have lens: "length rnd = 32" "length sid < 256" "length cs < 2 ^ 16" "length cm < 256" "n2 < 2 ^ 16"
    using ok by (auto simp: hello_ok_def rnd_def sid_def cs_def cm_def n2_def hello_handshake_def)
  obtain t rnd' where rnd: "rnd = t # rnd'" "length rnd' = 31" using lens(1) by (cases rnd) auto
  have size: "hb_size h = 44 + length sid + 2 + length cs + 1 + length cm + 2 + n3"
    using ext_start_length [OF ok] h(2) by (simp add: ext_start_def sid_def cs_def cm_def n3_def)
  have mem: "hb_mem h = ([22, 3, 1] @ be16 n1 @ [1, 0]) @ be16 n2 @ v1 # v2 # t # rnd' @ of_nat (length sid) # sid @
      be16 (length cs) @ cs @ of_nat (length cm) # cm @ be16 n3 @ exts @ stale"
    using v by (simp add: h(1) hello_bytes_def hello_handshake_def hello_body_def n1_def n2_def n3_def
        sid_def cs_def cm_def rnd(1) flip: rnd_def)
  define p0 where "p0 = [22, 3, 1] @ be16 n1 @ [1, 0]"
  define p1 where "p1 = p0 @ be16 n2"
  define p2 where "p2 = p1 @ [v1]"
  define p3 where "p3 = p2 @ [v2]"
  define p4 where "p4 = p3 @ t # rnd'"
  define p5 where "p5 = p4 @ of_nat (length sid) # sid"
  define p6 where "p6 = p5 @ be16 (length cs) @ cs"
  have lp: "length p0 = 7" "length p1 = 9" "length p2 = 10" "length p3 = 11" "length p4 = 43"
    "length p5 = 44 + length sid" "length p6 = 46 + length sid + length cs"
    using rnd(2) by (simp_all add: p0_def p1_def p2_def p3_def p4_def p5_def p6_def)
  define r5 where "r5 = be16 (length cs) @ cs @ of_nat (length cm) # cm @ be16 n3 @ exts @ stale"
  have mems: "hb_mem h = p0 @ be16 n2 @ v1 # v2 # t # rnd' @ of_nat (length sid) # sid @ r5"
    "hb_mem h = p1 @ v1 # v2 # t # rnd' @ of_nat (length sid) # sid @ r5"
    "hb_mem h = p2 @ v2 # t # rnd' @ of_nat (length sid) # sid @ r5"
    "hb_mem h = p3 @ t # rnd' @ of_nat (length sid) # sid @ r5"
    "hb_mem h = p4 @ of_nat (length sid) # sid @ r5"
    "hb_mem h = p5 @ be16 (length cs) @ cs @ of_nat (length cm) # cm @ be16 n3 @ exts @ stale"
    "hb_mem h = p6 @ of_nat (length cm) # cm @ be16 n3 @ exts @ stale"
    using mem by (simp_all add: p0_def p1_def p2_def p3_def p4_def p5_def p6_def r5_def)
  have lc: "unat (of_nat (length cs) :: u16) = length cs" "unat (of_nat (length cm) :: byte) = length cm"
    "unat (of_nat (length sid) :: byte) = length sid"
    using lens by (simp_all add: unat_of_nat take_bit_eq_mod)
  have rest: "hello_lists g = (None, skip (2 + length cs + 1 + length cm) g)"
    if g: "hs_pos g = length p5" "hb_mem g = hb_mem h" "hb_size g = hb_size h" for g
  proof -
    have 1: "hb_get16 g k = k (of_nat (length cs))" for k
      by (rule get16_at [OF g(1) g(2) [unfolded mems(6)]]) (use size lp lens g(3) in auto)
    have 2: "hb_get8 g' k = k (of_nat (length cm))"
      if "hs_pos g' = length p6" "hb_mem g' = hb_mem h" "hb_size g' = hb_size h" for g' k
      by (rule get8_at [of _ p6 _ "cm @ be16 n3 @ exts @ stale"]) (use size lp that mems(7) in auto)
    show ?thesis
      unfolding hello_lists_def 1 using size lp g by (simp add: Let_def lc 2 skip_def)
  qed
  define g where "g = (skip 37 h)\<lparr>hs_ret := 1\<rparr>"
  have gs: "hs_pos g = 44" "hb_mem g = hb_mem h" "hb_size g = hb_size h" by (simp_all add: g_def h(3))
  define g' where "g' = (if sid = [] then g else (skip (length sid) g)\<lparr>hs_id := hex_print sid\<rparr>)"
  have view: "hb_view (length sid) g k = k sid" for k
  proof -
    have "drop 44 (hb_mem h) = sid @ r5" using mems(5) lp by simp
    then show ?thesis using size gs by (simp add: hb_view_def)
  qed
  have g8: "hb_get8 g k = k v1" if "hs_pos g = 9" "hb_mem g = hb_mem h" "hb_size g = hb_size h" for g k
    by (rule get8_at [of _ p1 _ "v2 # t # rnd' @ of_nat (length sid) # sid @ r5"]) (use lp size mems(2) that in simp_all)
  have g8b: "hb_get8 g k = k v2" if "hs_pos g = 10" "hb_mem g = hb_mem h" "hb_size g = hb_size h" for g k
    by (rule get8_at [of _ p2 _ "t # rnd' @ of_nat (length sid) # sid @ r5"]) (use lp size mems(3) that in simp_all)
  have g8c: "hb_get8 g k = k t" if "hs_pos g = 11" "hb_mem g = hb_mem h" "hb_size g = hb_size h" for g k
    by (rule get8_at [of _ p3 _ "rnd' @ of_nat (length sid) # sid @ r5"]) (use lp size mems(4) that in simp_all)
  have g8d: "hb_get8 g k = k (of_nat (length sid))"
    if "hs_pos g = 43" "hb_mem g = hb_mem h" "hb_size g = hb_size h" for g k
    by (rule get8_at [of _ p4 _ "sid @ r5"]) (use lp size mems(5) that in simp_all)
  have g16: "hb_get16 h k = k (of_nat n2)" for k
    by (rule get16_at [OF _ mems(1)]) (use lp h(3) size lens in auto)
  have "hello_fixed h = (if 0 < (of_nat (length sid) :: byte)
      then hb_view (length sid) g (\<lambda>sid'. hello_lists ((skip (length sid) g)\<lparr>hs_id := hex_print sid'\<rparr>)) else hello_lists g)"
    unfolding hello_fixed_def g16 Let_def
    by (simp add: g8 g8b g8c g8d lc g_def Let_def h(3))
  also have "\<dots> = hello_lists g'"
  proof (cases "sid = []")
    case False
    then have "0 < (of_nat (length sid) :: byte)" using lc(3) by (auto simp: word_less_nat_alt)
    then show ?thesis using False by (simp add: view g'_def)
  qed (simp add: g'_def)
  also have "\<dots> = (None, skip (2 + length cs + 1 + length cm) g')"
    by (rule rest) (use lp gs in \<open>simp_all add: g'_def\<close>)
  finally show ?thesis
    using gs by (intro exI [of _ "skip (2 + length cs + 1 + length cm) g'"])
      (auto simp: g'_def g_def ext_start_def sid_def cs_def cm_def h(3) skip_def)
qed


section \<open>The extensions\<close>

lemma parse_ext_other:
  assumes "hs_pos h + 4 \<le> hb_size h" and "eid < 2 ^ 16" and "eid \<noteq> 0" and "eid \<noteq> 16"
    and "hb_mem h = p @ be16 eid @ be16 n @ r" and "hs_pos h = length p" and "n < 2 ^ 16"
  shows "parse_peer_hello_extensions h = (None, of_nat n + 4, h)"
proof -
  have i: "hb_get16 h k = k (of_nat eid)" for k
    by (rule get16_at [OF assms(6,5)]) (use assms in auto)
  have n: "hb_get16 g k = k (of_nat n)" if "hs_pos g = length p + 2" "hb_mem g = hb_mem h" "hb_size g = hb_size h" for g k
    by (rule get16_at [of _ "p @ be16 eid" _ r]) (use assms that in auto)
  have len: "(of_be (take 2 (drop (hs_pos h + 2) (hb_mem h))) :: u16) = of_nat n"
    using be16_at [of n "p @ be16 eid" "hs_pos h + 2" r] assms by simp
  have eid: "(of_nat eid :: u16) \<noteq> 0" "(of_nat eid :: u16) \<noteq> 16"
    using assms(2-4) by (auto simp: word_unat_eq_iff unat_of_nat take_bit_eq_mod)
  show ?thesis
    unfolding parse_peer_hello_extensions_def Let_def i len using eid assms(6) by (simp add: n skip_def)
qed

lemma hello_loop_stuck:
  assumes "hs_pos h + 4 < hb_size h" and "parse_peer_hello_extensions h = (None, 0, h)"
  shows "hello_loop h = None"
proof -
  have "g \<noteq> h" if "hello_loop g = Some r" for g r
  proof (rule hello_loop.raw_induct [of "\<lambda>g r. g \<noteq> h", OF _ that])
    fix f g r
    assume ih: "\<And>g r. f g = Some r \<Longrightarrow> g \<noteq> h"
      and f: "(if hs_pos g + 4 < hb_size g then
        (case parse_peer_hello_extensions g of
           (Some e, _, h) \<Rightarrow> Some (Some e, h)
         | (None, n, h) \<Rightarrow> f (skip (unat n) h))
      else Some (None, g)) = Some r"
    show "g \<noteq> h"
    proof
      assume "g = h"
      then have "f h = Some r" using f assms by (simp add: skip_def)
      then show False using ih by blast
    qed
  qed
  then show ?thesis by (cases "hello_loop h") auto
qed

text \<open>Positions from which the parser would not move on.\<close>

definition ext_length_at :: "nat \<Rightarrow> byte list \<Rightarrow> u16" where
  "ext_length_at p m = of_be (take 2 (drop (p + 2) m))"

lemma parse_ext_frame:
  assumes "parse_peer_hello_extensions h = (e, n, h')"
  shows "n = ext_length_at (hs_pos h) (hb_mem h) + 4" "hb_mem h' = hb_mem h" "hb_size h' = hb_size h"
    "hs_pos h' = hs_pos h"
proof -
  obtain e' g where g: "hb_get16 h (\<lambda>ext_id. let h = skip 2 h in
            hb_get16 h (\<lambda>ext_length. let h = skip 2 h in
              if ext_id = 0 then
                hb_get16 h (\<lambda>sn_list_length. let h = skip 2 h in
                hb_get8 h (\<lambda>sn_type. let h = skip 1 h in
                  if sn_type = 0 then
                    hb_get16 h (\<lambda>n. let h = skip 2 h in hb_chars (unat n) h (\<lambda>s. (None, h\<lparr>hs_sni := s\<rparr>)))
                  else (None, h)))
              else if ext_id = 16 then
                hb_get16 h (\<lambda>n. let h = skip 2 h in hb_chars (unat n) h (\<lambda>s. (None, h\<lparr>hs_alpn := s\<rparr>)))
              else (None, h))) = (e', g)" by force
  have "hb_mem g = hb_mem h" "hb_size g = hb_size h"
    using g by (auto simp: hb_get16_def hb_get8_def hb_chars_def Let_def split: if_splits)
  moreover have "n = ext_length_at (hs_pos h) (hb_mem h) + 4" "h' = g\<lparr>hs_pos := hs_pos h\<rparr>"
    using assms unfolding parse_peer_hello_extensions_def Let_def g [unfolded Let_def]
    by (simp_all add: ext_length_at_def)
  ultimately show "n = ext_length_at (hs_pos h) (hb_mem h) + 4" "hb_mem h' = hb_mem h" "hb_size h' = hb_size h"
    "hs_pos h' = hs_pos h" by simp_all
qed

text \<open>The positions of the extensions, as their claimed lengths lead from one to the next.\<close>

inductive ext_visits :: "byte list \<Rightarrow> nat \<Rightarrow> nat \<Rightarrow> nat \<Rightarrow> bool" for m n where
  here: "ext_visits m n s s"
| onward: "s + 4 < n \<Longrightarrow> ext_visits m n (s + unat (ext_length_at s m + 4)) p \<Longrightarrow> ext_visits m n s p"

lemma hello_loop_ends:
  assumes "\<And>p. ext_visits (hb_mem h) (hb_size h) (hs_pos h) p \<Longrightarrow> p + 4 < hb_size h \<Longrightarrow>
    ext_length_at p (hb_mem h) \<noteq> 65532"
  shows "\<exists>r. hello_loop h = Some r"
  using assms
proof (induction "hb_size h - hs_pos h" arbitrary: h rule: less_induct)
  case less
  show ?case
  proof (cases "hs_pos h + 4 < hb_size h")
    case True
    obtain e n h1 where p: "parse_peer_hello_extensions h = (e, n, h1)" by (metis prod_cases3)
    note f = parse_ext_frame [OF p]
    show ?thesis
    proof (cases e)
      case None
      have "n \<noteq> 0"
      proof
        assume "n = 0"
        then have "ext_length_at (hs_pos h) (hb_mem h) = - 4" using f(1) by (simp add: eq_neg_iff_add_eq_0)
        also have "\<dots> = 65532" by simp
        finally show False using less.prems [OF ext_visits.here] True by blast
      qed
      then have "0 < unat n" by (simp add: unat_gt_0)
      moreover have "ext_visits (hb_mem h) (hb_size h) (hs_pos h) q"
        if "ext_visits (hb_mem h) (hb_size h) (hs_pos h + unat n) q" for q
        using ext_visits.onward [OF True] that f(1) by simp
      ultimately have "\<exists>r. hello_loop (skip (unat n) h1) = Some r"
        using less.hyps [of "skip (unat n) h1"] less.prems f True by simp
      then show ?thesis using p None True by (subst hello_loop.simps) simp
    qed (use p True in \<open>subst hello_loop.simps, simp\<close>)
  qed (subst hello_loop.simps, simp)
qed

text \<open>The server name and the protocol list, with any claimed length \<open>n\<close>: nothing compares it with the
  length of the extension or with the size of what was received.\<close>

lemma parse_ext_sni:
  assumes m: "hb_mem h = p @ be16 0 @ be16 m @ be16 k @ 0 # be16 n @ r" and pos: "hs_pos h = length p"
    and size: "length p + 9 \<le> hb_size h" and lt: "m < 2 ^ 16" "k < 2 ^ 16" "n < 2 ^ 16"
  shows "parse_peer_hello_extensions h =
    (if n \<le> length r then None else Some Undefined_behaviour, of_nat m + 4,
     if n \<le> length r then h\<lparr>hs_sni := take n r\<rparr> else h)"
proof -
  have g1: "hb_get16 h c = c (of_nat 0)" for c
    by (rule get16_at [OF pos m]) (use size in auto)
  have g2: "hb_get16 g c = c (of_nat m)" if "hs_pos g = length p + 2" "hb_mem g = hb_mem h" "hb_size g = hb_size h" for g c
    by (rule get16_at [of _ "p @ be16 0" _ "be16 k @ 0 # be16 n @ r"]) (use assms that in auto)
  have g3: "hb_get16 g c = c (of_nat k)" if "hs_pos g = length p + 4" "hb_mem g = hb_mem h" "hb_size g = hb_size h" for g c
    by (rule get16_at [of _ "p @ be16 0 @ be16 m" _ "0 # be16 n @ r"]) (use assms that in auto)
  have g4: "hb_get8 g c = c 0" if "hs_pos g = length p + 6" "hb_mem g = hb_mem h" "hb_size g = hb_size h" for g c
    by (rule get8_at [of _ "p @ be16 0 @ be16 m @ be16 k" _ "be16 n @ r"]) (use assms that in auto)
  have g5: "hb_get16 g c = c (of_nat n)" if "hs_pos g = length p + 7" "hb_mem g = hb_mem h" "hb_size g = hb_size h" for g c
    by (rule get16_at [of _ "p @ be16 0 @ be16 m @ be16 k @ [0]" _ r]) (use assms that in auto)
  have len: "(of_be (take 2 (drop (hs_pos h + 2) (hb_mem h))) :: u16) = of_nat m"
    using be16_at [of m "p @ be16 0" "hs_pos h + 2" "be16 k @ 0 # be16 n @ r"] assms by simp
  have un: "unat (of_nat n :: u16) = n" using lt by (simp add: unat_of_nat take_bit_eq_mod)
  have lm: "length (hb_mem h) = length p + 9 + length r" "drop (length p + 9) (hb_mem h) = r"
    using m by simp_all
  have ch: "hb_chars n g c = (if n \<le> length r then c (take n r) else (Some Undefined_behaviour, g))"
    if "hs_pos g = length p + 9" "hb_mem g = hb_mem h" for g c
    using that lm by (simp add: hb_chars_def)
  show ?thesis
    unfolding parse_peer_hello_extensions_def Let_def g1 len using pos
    by (auto simp: g2 g3 g4 g5 un ch skip_def intro!: hello.equality)
qed

lemma parse_ext_alpn:
  assumes m: "hb_mem h = p @ be16 16 @ be16 m @ be16 n @ r" and pos: "hs_pos h = length p"
    and size: "length p + 6 \<le> hb_size h" and lt: "m < 2 ^ 16" "n < 2 ^ 16"
  shows "parse_peer_hello_extensions h =
    (if n \<le> length r then None else Some Undefined_behaviour, of_nat m + 4,
     if n \<le> length r then h\<lparr>hs_alpn := take n r\<rparr> else h)"
proof -
  have g1: "hb_get16 h c = c (of_nat 16)" for c
    by (rule get16_at [OF pos m]) (use size in auto)
  have g2: "hb_get16 g c = c (of_nat m)" if "hs_pos g = length p + 2" "hb_mem g = hb_mem h" "hb_size g = hb_size h" for g c
    by (rule get16_at [of _ "p @ be16 16" _ "be16 n @ r"]) (use assms that in auto)
  have g3: "hb_get16 g c = c (of_nat n)" if "hs_pos g = length p + 4" "hb_mem g = hb_mem h" "hb_size g = hb_size h" for g c
    by (rule get16_at [of _ "p @ be16 16 @ be16 m" _ r]) (use assms that in auto)
  have len: "(of_be (take 2 (drop (hs_pos h + 2) (hb_mem h))) :: u16) = of_nat m"
    using be16_at [of m "p @ be16 16" "hs_pos h + 2" "be16 n @ r"] assms by simp
  have un: "unat (of_nat n :: u16) = n" using lt by (simp add: unat_of_nat take_bit_eq_mod)
  have lm: "length (hb_mem h) = length p + 6 + length r" "drop (length p + 6) (hb_mem h) = r"
    using m by simp_all
  have ch: "hb_chars n g c = (if n \<le> length r then c (take n r) else (Some Undefined_behaviour, g))"
    if "hs_pos g = length p + 6" "hb_mem g = hb_mem h" for g c
    using that lm by (simp add: hb_chars_def)
  show ?thesis
    unfolding parse_peer_hello_extensions_def Let_def g1 len using pos
    by (auto simp: g2 g3 un ch skip_def intro!: hello.equality)
qed

datatype tls_ext = Ext_sni "byte list" | Ext_alpn "byte list" | Ext_other nat "byte list"

fun ext_bytes :: "tls_ext \<Rightarrow> byte list" where
  "ext_bytes (Ext_sni s) = be16 0 @ be16 (5 + length s) @ be16 (3 + length s) @ 0 # be16 (length s) @ s"
| "ext_bytes (Ext_alpn s) = be16 16 @ be16 (2 + length s) @ be16 (length s) @ s"
| "ext_bytes (Ext_other i s) = be16 i @ be16 (length s) @ s"

fun ext_ok :: "tls_ext \<Rightarrow> bool" where
  "ext_ok (Ext_other i s) \<longleftrightarrow> i < 2 ^ 16 \<and> i \<noteq> 0 \<and> i \<noteq> 16"
| "ext_ok _ \<longleftrightarrow> True"

text \<open>The names and protocol lists a client sends: the last of each counts.\<close>

definition last_or :: "'a \<Rightarrow> 'a list \<Rightarrow> 'a" where
  "last_or d xs = (if xs = [] then d else last xs)"

definition snis :: "tls_ext list \<Rightarrow> byte list list" where
  "snis es = concat (map (\<lambda>e. case e of Ext_sni s \<Rightarrow> [s] | _ \<Rightarrow> []) es)"

definition alpns :: "tls_ext list \<Rightarrow> byte list list" where
  "alpns es = concat (map (\<lambda>e. case e of Ext_alpn s \<Rightarrow> [s] | _ \<Rightarrow> []) es)"

definition take_ext :: "tls_ext \<Rightarrow> hello \<Rightarrow> hello" where
  "take_ext e h = (case e of Ext_sni s \<Rightarrow> h\<lparr>hs_sni := s\<rparr> | Ext_alpn s \<Rightarrow> h\<lparr>hs_alpn := s\<rparr> | Ext_other i s \<Rightarrow> h)"

lemma parse_ext_step:
  assumes "hb_mem h = p @ ext_bytes e @ r" and "hs_pos h = length p"
    and "length p + length (ext_bytes e) \<le> hb_size h" and "ext_ok e" and "length (ext_bytes e) < 2 ^ 16"
  shows "parse_peer_hello_extensions h = (None, of_nat (length (ext_bytes e)), take_ext e h)"
proof (cases e)
  case (Ext_sni s)
  have "hb_mem h = p @ be16 0 @ be16 (5 + length s) @ be16 (3 + length s) @ 0 # be16 (length s) @ s @ r"
    using assms(1) Ext_sni by simp
  from parse_ext_sni [OF this assms(2)] show ?thesis
    using assms Ext_sni by (simp add: take_ext_def add.commute)
next
  case (Ext_alpn s)
  have "hb_mem h = p @ be16 16 @ be16 (2 + length s) @ be16 (length s) @ s @ r"
    using assms(1) Ext_alpn by simp
  from parse_ext_alpn [OF this assms(2)] show ?thesis
    using assms Ext_alpn by (simp add: take_ext_def add.commute)
next
  case (Ext_other i s)
  have "hb_mem h = p @ be16 i @ be16 (length s) @ s @ r"
    using assms(1) Ext_other by simp
  from parse_ext_other [OF _ _ _ _ this assms(2)] show ?thesis
    using assms Ext_other by (simp add: take_ext_def add.commute)
qed

lemma length_ext_bytes: "4 \<le> length (ext_bytes e)"
  by (cases e) simp_all

lemma length_ext_four: "length (ext_bytes e) = 4 \<Longrightarrow> take_ext e h = h"
  by (cases e) (simp_all add: take_ext_def)

lemma take_ext_frame [simp]:
  "hb_mem (take_ext e h) = hb_mem h" "hb_size (take_ext e h) = hb_size h" "hs_pos (take_ext e h) = hs_pos h"
  by (simp_all add: take_ext_def split: tls_ext.split)

lemma hello_loop_exts:
  assumes "hb_mem h = p @ concat (map ext_bytes es) @ r" and "hs_pos h = length p"
    and "hb_size h = length p + length (concat (map ext_bytes es))" and "\<forall>e\<in>set es. ext_ok e"
    and "length (concat (map ext_bytes es)) < 2 ^ 16"
  shows "\<exists>n. hello_loop h = Some (None, fold take_ext es (h\<lparr>hs_pos := n\<rparr>))"
  using assms
proof (induction es arbitrary: h p)
  case Nil
  then have "hello_loop h = Some (None, h)" by (subst hello_loop.simps) simp
  then show ?case by (intro exI [of _ "hs_pos h"]) simp
next
  case (Cons e es)
  let ?n = "length (ext_bytes e)"
  have m: "hb_mem h = p @ ext_bytes e @ concat (map ext_bytes es) @ r" using Cons.prems(1) by simp
  show ?case
  proof (cases "es = [] \<and> ?n = 4")
    case True
    then have "hello_loop h = Some (None, h)"
      using Cons.prems by (subst hello_loop.simps) simp
    then show ?thesis using True by (intro exI [of _ "hs_pos h"]) (simp add: length_ext_four)
  next
    case False
    have "4 \<le> length (concat (map ext_bytes es))" if "es \<noteq> []"
      using that length_ext_bytes by (cases es) (simp_all add: trans_le_add1)
    then have lt: "hs_pos h + 4 < hb_size h"
      using False Cons.prems(2,3) length_ext_bytes [of e] by (cases "es = []") auto
    have step: "parse_peer_hello_extensions h = (None, of_nat ?n, take_ext e h)"
      by (rule parse_ext_step [OF m Cons.prems(2)]) (use Cons.prems in auto)
    have un: "unat (of_nat ?n :: u16) = ?n"
      using Cons.prems(5) by (simp add: unat_of_nat take_bit_eq_mod)
    have "\<exists>n. hello_loop (skip ?n (take_ext e h)) = Some (None, fold take_ext es ((skip ?n (take_ext e h))\<lparr>hs_pos := n\<rparr>))"
      by (rule Cons.IH [of _ "p @ ext_bytes e"]) (use Cons.prems in auto)
    then obtain n where n: "hello_loop (skip ?n (take_ext e h)) =
        Some (None, fold take_ext es ((skip ?n (take_ext e h))\<lparr>hs_pos := n\<rparr>))" by blast
    have "hello_loop h = hello_loop (skip ?n (take_ext e h))"
      using lt step un by (subst hello_loop.simps) simp
    moreover have "(skip ?n (take_ext e h))\<lparr>hs_pos := n\<rparr> = take_ext e (h\<lparr>hs_pos := n\<rparr>)"
      by (simp add: skip_def take_ext_def split: tls_ext.split)
    ultimately show ?thesis using n by (intro exI [of _ n]) simp
  qed
qed

lemma fold_take_ext:
  "hs_sni (fold take_ext es h) = last_or (hs_sni h) (snis es)"
  "hs_alpn (fold take_ext es h) = last_or (hs_alpn h) (alpns es)"
  "hs_ret (fold take_ext es h) = hs_ret h" "hs_error (fold take_ext es h) = hs_error h"
  "hs_id (fold take_ext es h) = hs_id h"
  by (induction es arbitrary: h)
     (auto simp: take_ext_def snis_def alpns_def last_or_def split: tls_ext.splits)


section \<open>Properties\<close>

text \<open>On a record of this layout the parser comes to the extension loop, whatever the extensions are.\<close>

definition caught :: "exn option \<times> hello \<Rightarrow> exn option \<times> hello" where
  "caught = (\<lambda>(e, h). if e = Some Out_of_range then (None, h\<lparr>hs_error := True\<rparr>) else (e, h))"

definition received :: "client_hello \<Rightarrow> byte list \<Rightarrow> byte list \<Rightarrow> hello \<Rightarrow> bool" where
  "received c exts stale h \<longleftrightarrow> hello_ok c exts \<and> hb_mem h = hello_bytes c exts @ stale \<and>
     hb_size h = length (hello_bytes c exts)"

lemma parse_reaches_extensions:
  assumes "received c exts stale h"
  shows "\<exists>g p. parse_peer_hello late h = map_option caught (hello_loop g) \<and>
     hb_mem g = p @ exts @ stale \<and> hs_pos g = length p \<and> hb_size g = length p + length exts \<and>
     hs_ret g = 1 \<and> hs_sni g = hs_sni h \<and> hs_alpn g = hs_alpn h \<and> hs_error g = hs_error h \<and>
     (ch_session_id c \<noteq> [] \<longrightarrow> hs_id g = hex_print (ch_session_id c))"
proof -
  have ok: "hello_ok c exts" and m: "hb_mem h = hello_bytes c exts @ stale"
    and size: "hb_size h = length (hello_bytes c exts)"
    using assms by (simp_all add: received_def)
  obtain q where q: "length q + 2 = ext_start c" "hello_bytes c exts = q @ be16 (length exts) @ exts"
    using hello_bytes_split [OF ok] by blast
  have el: "length exts < 2 ^ 16" "exts \<noteq> []"
    using ok length_hello_body [OF ok] by (auto simp: hello_ok_def hello_handshake_def)
  define h0 where "h0 = h\<lparr>hs_ret := - 1, hs_pos := 7\<rparr>"
  obtain g where g: "hello_fixed h0 = (None, g)" "hs_pos g + 2 = ext_start c" "hs_ret g = 1" "hb_mem g = hb_mem h"
      "hb_size g = hb_size h" "hs_sni g = hs_sni h" "hs_alpn g = hs_alpn h" "hs_error g = hs_error h"
      "ch_session_id c \<noteq> [] \<longrightarrow> hs_id g = hex_print (ch_session_id c)"
    using hello_fixed_ok [OF ok, of h0 stale] m size by (auto simp: h0_def)
  have len: "(of_be (take 2 (drop (hs_pos g) (hb_mem g))) :: u16) = of_nat (length exts)"
    using be16_at [OF el(1), of q "hs_pos g" "exts @ stale"] q g(2,4) m by simp
  have un: "unat (of_nat (length exts) :: u16) = length exts"
    using el(1) by (simp add: unat_of_nat take_bit_eq_mod)
  then have pos: "0 < (of_nat (length exts) :: u16)" using el(2) by (auto simp: word_less_nat_alt)
  have at: "hs_pos g = length q" "hb_size g = length q + 2 + length exts" "0 < length exts"
    using q g(2,5) size el by simp_all
  then have tail: "hello_message h0 = hello_loop (skip 2 g)"
    using pos un len [unfolded at(1)] by (simp add: hello_message_def g(1) hello_tail_def Let_def)
  define n1 where "n1 = length (hello_handshake c exts)"
  have mm: "hb_mem h ! 0 = 22" "hb_mem h ! 1 = 3" "hb_mem h ! 5 = 1"
    "(of_be (take 2 (drop 3 (hb_mem h))) :: u16) = of_nat n1"
  proof -
    have n1: "n1 < 2 ^ 16" using ok by (simp add: hello_ok_def n1_def)
    have hm: "hb_mem h = [22, 3, 1] @ be16 n1 @ [1, 0] @ be16 (length (hello_body c exts)) @ hello_body c exts @ stale"
      by (simp add: m hello_bytes_def hello_handshake_def n1_def)
    from be16_at [OF n1, of "[22, 3, 1]" 3 "[1, 0] @ be16 (length (hello_body c exts)) @ hello_body c exts @ stale"]
    show "(of_be (take 2 (drop 3 (hb_mem h))) :: u16) = of_nat n1" using hm by simp
    have "hb_mem h = ([22, 3, 1] @ be16 n1) @ 1 # 0 # be16 (length (hello_body c exts)) @ hello_body c exts @ stale"
      by (simp add: hm)
    then show "hb_mem h ! 5 = 1" by (simp add: nth_append)
    show "hb_mem h ! 0 = 22" "hb_mem h ! 1 = 3" by (simp_all add: hm)
  qed
  have "34 \<le> hb_size h" using size ext_start_length [OF ok] by (simp add: ext_start_def)
  then have "parse_peer_hello late h = map_option caught (hello_loop (skip 2 g))"
    using mm tail by (simp add: parse_peer_hello_def hello_record_def Let_def caught_def h0_def)
  moreover have "hb_mem (skip 2 g) = (q @ be16 (length exts)) @ exts @ stale" using g(4) m q(2) by simp
  moreover have "hs_pos (skip 2 g) = length (q @ be16 (length exts))"
    "hb_size (skip 2 g) = length (q @ be16 (length exts)) + length exts"
    using at by simp_all
  moreover have "hs_ret (skip 2 g) = 1" "hs_sni (skip 2 g) = hs_sni h" "hs_alpn (skip 2 g) = hs_alpn h"
    "hs_error (skip 2 g) = hs_error h" "ch_session_id c \<noteq> [] \<longrightarrow> hs_id (skip 2 g) = hex_print (ch_session_id c)"
    using g(3,6-9) by simp_all
  ultimately show ?thesis by blast
qed

text \<open>C6: The parser reads what a client wrote: on a complete ClientHello of any version, session id, cipher
  suites, compression methods and extensions it returns 1, and the server name, the protocol list
  and the session id are those of the message.\<close>

theorem hello_round_trip:
  assumes "received c (concat (map ext_bytes es)) stale h" and "\<forall>e\<in>set es. ext_ok e"
  shows "\<exists>h'. parse_peer_hello late h = Some (None, h') \<and> hs_ret h' = 1 \<and> hs_error h' = hs_error h \<and>
     hs_sni h' = last_or (hs_sni h) (snis es) \<and> hs_alpn h' = last_or (hs_alpn h) (alpns es) \<and>
     (ch_session_id c \<noteq> [] \<longrightarrow> hs_id h' = hex_print (ch_session_id c))"
proof -
  let ?exts = "concat (map ext_bytes es)"
  have "hello_ok c ?exts" using assms(1) by (simp add: received_def)
  then have lt: "length ?exts < 2 ^ 16"
    using exts_short by fastforce
  obtain g p where g: "parse_peer_hello late h = map_option caught (hello_loop g)" "hb_mem g = p @ ?exts @ stale"
      "hs_pos g = length p" "hb_size g = length p + length ?exts" "hs_ret g = 1" "hs_sni g = hs_sni h"
      "hs_alpn g = hs_alpn h" "hs_error g = hs_error h" "ch_session_id c \<noteq> [] \<longrightarrow> hs_id g = hex_print (ch_session_id c)"
    using parse_reaches_extensions [OF assms(1)] by blast
  obtain n where "hello_loop g = Some (None, fold take_ext es (g\<lparr>hs_pos := n\<rparr>))"
    using hello_loop_exts [OF g(2-4) assms(2) lt] by blast
  then show ?thesis using g by (simp add: caught_def fold_take_ext)
qed

text \<open>Where the extensions begin: after the two bytes of their total length, which follow the part of fixed
  layout, wherever the reading of that part ended.\<close>

definition ext_begin :: "hello \<Rightarrow> nat" where
  "ext_begin h = hs_pos (snd (hello_fixed (h\<lparr>hs_ret := - 1, hs_pos := 7\<rparr>))) + 2"

lemma hello_fixed_frame: "hello_fixed g = (e, g') \<Longrightarrow> hb_mem g' = hb_mem g \<and> hb_size g' = hb_size g"
  by (auto simp: hello_fixed_def hello_lists_def hb_get16_def hb_get8_def hb_view_def Let_def split: if_splits)

text \<open>C38: On every buffer the parser returns, unless one of the extensions it comes to -- walking from the
  beginning of the extensions by the lengths they claim, as long as more than four bytes are left --
  claims 65532 bytes: the loop moves on by that length plus 4, in 16 bits. What the other bytes of the
  message are does not matter.\<close>

theorem hello_parser_returns:
  assumes "\<And>p. ext_visits (hb_mem h) (hb_size h) (ext_begin h) p \<Longrightarrow> p + 4 < hb_size h \<Longrightarrow>
    ext_length_at p (hb_mem h) \<noteq> 65532"
  shows "\<exists>r. parse_peer_hello late h = Some r"
proof -
  define h0 where "h0 = h\<lparr>hs_ret := - 1, hs_pos := 7\<rparr>"
  obtain e g where f: "hello_fixed h0 = (e, g)" by force
  have g: "hb_mem g = hb_mem h" "hb_size g = hb_size h" "ext_begin h = hs_pos g + 2"
    using hello_fixed_frame [OF f] f by (simp_all add: h0_def ext_begin_def)
  have loop: "\<exists>r. hello_loop (skip 2 g) = Some r"
    by (rule hello_loop_ends) (use assms g in simp)
  have "\<exists>r. hello_tail g = Some r"
    using loop by (cases "hs_pos g + 2 < hb_size g") (auto simp: hello_tail_def Let_def)
  then have "\<exists>r. hello_message h0 = Some r" by (auto simp: hello_message_def f split: option.split exn.split)
  moreover have "hello_record (h\<lparr>hs_ret := - 1\<rparr>) = hello_message h0 \<or> (\<exists>r. hello_record (h\<lparr>hs_ret := - 1\<rparr>) = Some r)"
    by (simp add: hello_record_def h0_def Let_def)
  ultimately have "\<exists>r. hello_record (h\<lparr>hs_ret := - 1\<rparr>) = Some r" by metis
  then obtain r where "hello_record (h\<lparr>hs_ret := - 1\<rparr>) = Some r" by blast
  then show ?thesis by (simp add: parse_peer_hello_def Let_def)
qed

text \<open>C39: And it does not return when there is one: a ClientHello whose first extension claims 65532 bytes, of
  which one is enough to be there, keeps the parser in its loop for ever.\<close>

theorem hello_parser_hangs:
  assumes "received c (be16 i @ be16 65532 @ r) stale h" and "i < 2 ^ 16" and "i \<noteq> 0" and "i \<noteq> 16" and "r \<noteq> []"
  shows "parse_peer_hello late h = None"
proof -
  obtain g p where g: "parse_peer_hello late h = map_option caught (hello_loop g)"
      "hb_mem g = p @ (be16 i @ be16 65532 @ r) @ stale" "hs_pos g = length p"
      "hb_size g = length p + length (be16 i @ be16 65532 @ r)"
    using parse_reaches_extensions [OF assms(1)] by blast
  have m: "hb_mem g = p @ be16 i @ be16 65532 @ (r @ stale)" using g(2) by simp
  have "parse_peer_hello_extensions g = (None, of_nat 65532 + 4, g)"
    by (rule parse_ext_other [OF _ assms(2-4) m g(3)]) (use g in auto)
  moreover have "hs_pos g + 4 < hb_size g" using g(3,4) assms(5) by (cases r) auto
  ultimately have "hello_loop g = None" by (intro hello_loop_stuck) simp_all
  then show ?thesis using g(1) by simp
qed

text \<open>The length of the server name is believed: a message whose only extension is a server name with a
  claimed length \<open>n\<close> beyond the name that was sent yields the name followed by what the buffer
  held after the message, and undefined behaviour when the block is not that long.\<close>

theorem server_name_reads_beyond_message:
  assumes "received c (be16 0 @ be16 (5 + length s) @ be16 k @ 0 # be16 n @ s) stale h"
    and "k < 2 ^ 16" and "n < 2 ^ 16" and "length s < n"
  shows "\<exists>e h'. parse_peer_hello late h = Some (e, h') \<and>
     (if n \<le> length s + length stale then e = None \<and> hs_ret h' = 1 \<and> hs_sni h' = s @ take (n - length s) stale
      else e = Some Undefined_behaviour)"
proof -
  let ?e = "be16 0 @ be16 (5 + length s) @ be16 k @ 0 # be16 n @ s"
  have "hello_ok c ?e" using assms(1) by (simp add: received_def)
  then have lt: "length s + 9 < 2 ^ 16"
    using exts_short by fastforce
  obtain g p where g: "parse_peer_hello late h = map_option caught (hello_loop g)" "hb_mem g = p @ ?e @ stale"
      "hs_pos g = length p" "hb_size g = length p + length ?e" "hs_ret g = 1"
    using parse_reaches_extensions [OF assms(1)] by blast
  have m: "hb_mem g = p @ be16 0 @ be16 (5 + length s) @ be16 k @ 0 # be16 n @ (s @ stale)" using g(2) by simp
  note x = parse_ext_sni [OF m g(3) _ _ assms(2,3)]
  have un: "unat (of_nat (5 + length s) + 4 :: u16) = 9 + length s"
    using lt by (simp add: unat_word_ariths unat_of_nat take_bit_eq_mod)
  have "hello_loop g = (if n \<le> length (s @ stale)
     then hello_loop (skip (9 + length s) (g\<lparr>hs_sni := take n (s @ stale)\<rparr>)) else Some (Some Undefined_behaviour, g))"
    using g(3,4) lt x un by (subst hello_loop.simps) simp
  also have "hello_loop (skip (9 + length s) (g\<lparr>hs_sni := take n (s @ stale)\<rparr>)) =
     Some (None, skip (9 + length s) (g\<lparr>hs_sni := take n (s @ stale)\<rparr>))"
    using g(3,4) by (subst hello_loop.simps) simp
  finally show ?thesis using g(1,5) assms(4) by (auto simp: caught_def)
qed

lemma str_rfind_suffix:
  assumes "drop (length s - length f) s = f"
  shows "str_rfind s f = Some (length s - length f)"
proof -
  let ?m = "length s - length f"
  have l: "length f \<le> length s" using arg_cong [OF assms, of length] by simp
  define ps where "ps = filter (\<lambda>p. take (length f) (drop p s) = f) [0..<length s + 1]"
  have "take (length f) (drop p s) \<noteq> f" if "?m < p" "p \<le> length s" for p
  proof
    assume "take (length f) (drop p s) = f"
    then have "length (take (length f) (drop p s)) = length f" by simp
    then show False using that l by simp
  qed
  then have "filter (\<lambda>p. take (length f) (drop p s) = f) [?m + 1..<length s + 1] = []"
    by (auto simp: filter_empty_conv)
  moreover have "[0..<length s + 1] = [0..<?m] @ ?m # [?m + 1..<length s + 1]"
    using upt_add_eq_append [of 0 ?m "length s + 1 - ?m"] upt_conv_Cons [of ?m "length s + 1"] by simp
  ultimately have "ps = filter (\<lambda>p. take (length f) (drop p s) = f) [0..<?m] @ [?m]"
    using assms l by (simp add: ps_def)
  then show ?thesis unfolding str_rfind_def Let_def ps_def [symmetric] by simp
qed

lemma str_rfind_sound:
  assumes "str_rfind s f = Some p"
  shows "p \<le> length s" "take (length f) (drop p s) = f"
proof -
  define ps where "ps = filter (\<lambda>p. take (length f) (drop p s) = f) [0..<length s + 1]"
  have "ps \<noteq> []" "p = last ps" using assms unfolding str_rfind_def Let_def ps_def [symmetric]
    by (simp_all split: if_splits)
  then have "p \<in> set ps" by simp
  then have "p < length s + 1 \<and> take (length f) (drop p s) = f"
    unfolding ps_def set_filter set_upt mem_Collect_eq atLeastLessThan_iff by blast
  then show "p \<le> length s" "take (length f) (drop p s) = f" by simp_all
qed

text \<open>The filter is a test for the domain and its subdomains, as it is meant: a name passes when it is the
  domain of the entry (a leading wildcard label left out) or ends with a dot and that domain.\<close>

theorem sni_filter_is_domain_suffix:
  "sni_filter_match f sni \<longleftrightarrow>
     sni = strip_wildcard f \<or> (\<exists>p. sni = p @ 46 # strip_wildcard f)"
proof -
  define g where "g = strip_wildcard f"
  have m: "sni_filter_match f sni \<longleftrightarrow> (case str_rfind sni g of None \<Rightarrow> False
     | Some pos \<Rightarrow> length sni \<le> pos + length g \<and> (if 0 < pos then sni ! (pos - 1) = 46 else True))"
    unfolding sni_filter_match_def g_def Let_def by (rule refl)
  show ?thesis
    unfolding g_def [symmetric]
  proof
    assume "sni_filter_match f sni"
    then obtain pos where pos: "str_rfind sni g = Some pos" "length sni \<le> pos + length g"
        "0 < pos \<longrightarrow> sni ! (pos - 1) = 46"
      unfolding m by (auto split: option.splits if_splits)
    have d: "drop pos sni = g" using str_rfind_sound [OF pos(1)] pos(2) by simp
    show "sni = g \<or> (\<exists>p. sni = p @ 46 # g)"
    proof (cases pos)
      case (Suc q)
      have "q < length sni" using str_rfind_sound(1) [OF pos(1)] Suc by simp
      then have "sni = take q sni @ sni ! q # drop (Suc q) sni" by (rule id_take_nth_drop)
      then have "sni = take q sni @ 46 # g" using d pos(3) Suc by simp
      then show ?thesis by blast
    qed (use d in simp)
  next
    assume r: "sni = g \<or> (\<exists>p. sni = p @ 46 # g)"
    then have "drop (length sni - length g) sni = g" by auto
    from str_rfind_suffix [OF this] show "sni_filter_match f sni"
      unfolding m using r by auto
  qed
qed

section \<open>Examples\<close>

definition demo_hello :: client_hello where
  "demo_hello = \<lparr>ch_version = (3, 3), ch_random = replicate 32 7, ch_session_id = [171], ch_ciphers = [0, 5],
     ch_compression = [0]\<rparr>"

definition demo_state :: "byte list \<Rightarrow> byte list \<Rightarrow> hello" where
  "demo_state exts stale = \<lparr>hb_mem = hello_bytes demo_hello exts @ stale, hb_size = length (hello_bytes demo_hello exts),
     hs_sni = [], hs_alpn = [], hs_id = [], hs_pos = 0, hs_ret = 0, hs_error = False\<rparr>"

lemma demo_received: "exts \<noteq> [] \<Longrightarrow> length exts < 60000 \<Longrightarrow> received demo_hello exts stale (demo_state exts stale)"
  by (simp add: received_def demo_state_def hello_ok_def demo_hello_def hello_handshake_def hello_body_def)

theorem hello_round_trip_witness:
  "\<exists>h'. parse_peer_hello False (demo_state (concat (map ext_bytes [Ext_other 10 [1], Ext_sni [97, 46, 98]])) [9]) =
     Some (None, h') \<and> hs_ret h' = 1 \<and> hs_sni h' = [97, 46, 98] \<and> hs_id h' = ''AB''"
proof -
  let ?es = "[Ext_other 10 [1], Ext_sni [97, 46, 98]]"
  have "received demo_hello (concat (map ext_bytes ?es)) [9] (demo_state (concat (map ext_bytes ?es)) [9])"
    by (rule demo_received) simp_all
  from hello_round_trip [OF this, of False] show ?thesis
    by (auto simp: last_or_def snis_def demo_hello_def hex_print_def hex_digit_def)
qed

text \<open>A complete ClientHello whose random holds the bytes of 65532.\<close>

definition demo_hello2 :: client_hello where
  "demo_hello2 = demo_hello\<lparr>ch_random := replicate 16 255 @ replicate 16 252\<rparr>"

definition demo_state2 :: hello where
  "demo_state2 = (demo_state [] [])\<lparr>hb_mem := hello_bytes demo_hello2 (ext_bytes (Ext_other 10 [1])),
     hb_size := length (hello_bytes demo_hello2 (ext_bytes (Ext_other 10 [1])))\<rparr>"

theorem hello_parser_returns_witness: "\<exists>r. parse_peer_hello False demo_state2 = Some r"
proof (rule hello_parser_returns)
  let ?x = "ext_bytes (Ext_other 10 [1])" and ?s = "ext_start demo_hello2"
  have ok: "hello_ok demo_hello2 ?x"
    by (simp add: hello_ok_def demo_hello2_def demo_hello_def hello_handshake_def hello_body_def)
  have m: "hb_mem demo_state2 = hello_bytes demo_hello2 ?x" "hb_size demo_state2 = ?s + 5"
    using ext_start_length [OF ok] by (simp_all add: demo_state2_def)
  have b: "ext_begin demo_state2 = ?s"
    using hello_fixed_ok [OF ok, of "demo_state2\<lparr>hs_ret := - 1, hs_pos := 7\<rparr>" "[]"]
    by (auto simp: ext_begin_def demo_state2_def)
  have l: "ext_length_at ?s (hb_mem demo_state2) = 1"
  proof -
    obtain q where q: "length q + 2 = ?s" "hello_bytes demo_hello2 ?x = q @ be16 (length ?x) @ ?x"
      using hello_bytes_split [OF ok] by blast
    have "hb_mem demo_state2 = (q @ be16 (length ?x) @ be16 10) @ be16 1 @ [1]" using m(1) q(2) by simp
    moreover have "length (q @ be16 (length ?x) @ be16 10) = ?s + 2" using q(1) by simp
    ultimately show ?thesis unfolding ext_length_at_def
      using be16_at [of 1 "q @ be16 (length ?x) @ be16 10" "?s + 2" "[1]"] by (simp only:) simp
  qed
  fix p
  assume p: "ext_visits (hb_mem demo_state2) (hb_size demo_state2) (ext_begin demo_state2) p" "p + 4 < hb_size demo_state2"
  have "p = ?s"
    using p(1) unfolding b
  proof (cases rule: ext_visits.cases)
    case onward
    then have "ext_visits (hb_mem demo_state2) (?s + 5) (?s + 5) p" using l m(2) by simp
    then show ?thesis by (cases rule: ext_visits.cases) (use p(2) m(2) in simp_all)
  qed simp
  then show "ext_length_at p (hb_mem demo_state2) \<noteq> 65532" using l by simp
qed

theorem hello_parser_hangs_witness:
  "parse_peer_hello False (demo_state (be16 23 @ be16 65532 @ [0]) []) = None"
  by (rule hello_parser_hangs [OF demo_received]) simp_all

theorem server_name_reads_beyond_message_witness:
  "\<exists>h'. parse_peer_hello False (demo_state (be16 0 @ be16 (5 + length [97 :: byte]) @ be16 4 @ 0 # be16 3 @ [97]) [1, 2, 3]) =
     Some (None, h') \<and> hs_sni h' = [97, 1, 2]"
proof -
  have "received demo_hello (be16 0 @ be16 (5 + length [97 :: byte]) @ be16 4 @ 0 # be16 3 @ [97]) [1, 2, 3]
     (demo_state (be16 0 @ be16 (5 + length [97 :: byte]) @ be16 4 @ 0 # be16 3 @ [97]) [1, 2, 3])"
    by (rule demo_received) simp_all
  from server_name_reads_beyond_message [OF this, of False] show ?thesis by auto
qed

end
