(* ===== verification/Sslcom.thy ===== *)
theory Sslcom
  imports Sslhello
begin

text \<open>
  The TLS layer of a connection: \<^verbatim>\<open>sslcom.hpp\<close>, \<^verbatim>\<open>sslcom.tpp\<close>.

  \<open>sslcom\<close> is the state of one \<^verbatim>\<open>baseSSLCom\<close>; functions that reach over to the peer take and return
  both sides. OpenSSL is outside: what its calls answer are arguments, its error codes are the
  datatype \<open>ssl_error\<close>, the codes of the certificate check are \<open>x509_code\<close>. Requests to the poller and to
  OpenSSL that only have an effect there are recorded in \<open>sc_log\<close>. Logging is left out.
\<close>

section \<open>State\<close>

definition VRF_OK :: u32 where "VRF_OK = 0x1"
definition VRF_UNKNOWN_ISSUER :: u32 where "VRF_UNKNOWN_ISSUER = 0x2"
definition VRF_SELF_SIGNED :: u32 where "VRF_SELF_SIGNED = 0x4"
definition VRF_INVALID :: u32 where "VRF_INVALID = 0x8"
definition VRF_SELF_SIGNED_CHAIN :: u32 where "VRF_SELF_SIGNED_CHAIN = 0x10"
definition VRF_REVOKED :: u32 where "VRF_REVOKED = 0x20"
definition VRF_CLIENT_CERT_RQ :: u32 where "VRF_CLIENT_CERT_RQ = 0x40"
definition VRF_DEFERRED :: u32 where "VRF_DEFERRED = 0x1000"
definition VRF_EXTENDED_INFO :: u32 where "VRF_EXTENDED_INFO = 0x2000"
definition VRF_ALLFAILED :: u32 where "VRF_ALLFAILED = 0x4000"
definition VRF_NOTTESTED :: u32 where "VRF_NOTTESTED = 0x8000"

lemmas vrf_bits = VRF_OK_def VRF_UNKNOWN_ISSUER_def VRF_SELF_SIGNED_def VRF_INVALID_def
  VRF_SELF_SIGNED_CHAIN_def VRF_REVOKED_def VRF_CLIENT_CERT_RQ_def VRF_DEFERRED_def
  VRF_EXTENDED_INFO_def VRF_ALLFAILED_def VRF_NOTTESTED_def

datatype ret_handshake = HS_FATAL | HS_ERROR | HS_AGAIN | HS_SUCCESS | HS_BYPASS

datatype err_flags = ERROR_NONE | ERROR_UNSPEC | ERROR_READ | ERROR_WRITE | ERROR_SOCKET

datatype ssl_error =
    SSL_ERROR_NONE | SSL_ERROR_SSL | SSL_ERROR_WANT_READ | SSL_ERROR_WANT_WRITE | SSL_ERROR_WANT_X509_LOOKUP
  | SSL_ERROR_SYSCALL | SSL_ERROR_ZERO_RETURN | SSL_ERROR_WANT_CONNECT | SSL_ERROR_WANT_ACCEPT

datatype staple_code =
    NOT_PROCESSED | MISSING_BODY | PARSING_FAILED | STATUS_NOK | GET_BASIC_FAILED | BASIC_VERIFY_FAILED
  | CERT_TO_ID_FAILED | NO_FIND_STATUS | INVALID_TIME | STAPLE_SUCCESS

datatype verify_origin = ORIGIN_NONE | OCSP_STAPLING | OCSP_CACHE | OCSP | CRL_CACHE | CRL | EXEMPT

datatype x509_code =
    X509_V_OK
  | X509_V_ERR_UNABLE_TO_GET_ISSUER_CERT_LOCALLY
  | X509_V_ERR_UNABLE_TO_VERIFY_LEAF_SIGNATURE
  | X509_V_ERR_UNABLE_TO_GET_ISSUER_CERT
  | X509_V_ERR_SELF_SIGNED_CERT_IN_CHAIN
  | X509_V_ERR_CERT_UNTRUSTED
  | X509_V_ERR_DEPTH_ZERO_SELF_SIGNED_CERT
  | X509_V_ERR_CERT_NOT_YET_VALID
  | X509_V_ERR_ERROR_IN_CERT_NOT_BEFORE_FIELD
  | X509_V_ERR_CERT_HAS_EXPIRED
  | X509_V_ERR_ERROR_IN_CERT_NOT_AFTER_FIELD
  | X509_V_ERR_NO_EXPLICIT_POLICY
  | X509_V_ERR_other

datatype tls_cmd =
    Set_monitor int | Unset_monitor int | Set_write_monitor int | Set_write_monitor_only int
  | Rescan_read int | Rescan_write int | Set_enforce int | Modify_in int | Modify_inout int
  | Ssl_host_name "byte list" | Ssl_alpn_protos "byte list" | Ssl_shutdown | Ssl_free | Close_fd int

record tls_opts =
  allow_unknown_issuer :: bool
  allow_self_signed_chain :: bool
  allow_not_valid :: bool
  allow_self_signed :: bool
  failed_check_replacement :: bool
  client_cert_action :: int
  stapling_mode :: int
  alpn_block :: bool
  no_tickets :: bool

record sslcom =
  sc_fd :: int
  sc_dgram :: bool
  sc_ssl :: bool
  sc_ret :: int
  sc_waiting :: bool
  sc_fatal :: bool
  sc_server :: bool
  sc_read_blocked_on_write :: bool
  sc_write_blocked_on_read :: bool
  sc_write_blocked_on_write :: bool
  sc_auto_upgrade :: bool
  sc_upgraded :: bool
  sc_hello_received :: bool
  sc_hello :: hello
  sc_filters :: "byte list list option"
  sc_filter_matched :: bool
  sc_status :: bool
  sc_bypass :: bool
  sc_opt :: tls_opts
  sc_enforce_in_verify :: bool
  sc_verify :: u32
  sc_origin :: verify_origin
  sc_extended_sha1 :: nat
  sc_ocsp_revoked :: int
  sc_target_cert :: bool
  sc_target_issuer :: bool
  sc_want_read_cnt :: int
  sc_want_write_cnt :: int
  sc_read_want_read :: int
  sc_read_want_write :: int
  sc_write_want_read :: int
  sc_write_want_write :: int
  sc_forced_read :: bool
  sc_forced_write :: bool
  sc_forced_read_on_write :: bool
  sc_forced_write_on_read :: bool
  sc_error_flag :: err_flags
  sc_reused :: bool
  sc_log :: "tls_cmd list"

datatype peer = No_peer | Other_peer | Tls_peer sslcom

definition sc_do :: "tls_cmd \<Rightarrow> sslcom \<Rightarrow> sslcom" where
  "sc_do c x = x\<lparr>sc_log := sc_log x @ [c]\<rparr>"

definition rescan_threshold :: int where
  "rescan_threshold = 30"

section \<open>The verification status\<close>

definition flag_reset :: "u32 \<Rightarrow> u32 \<Rightarrow> u32" where
  "flag_reset v b = v AND NOT b"

definition verify_bitcheck :: "u32 \<Rightarrow> sslcom \<Rightarrow> bool" where
  "verify_bitcheck b x \<longleftrightarrow> sc_verify x AND b \<noteq> 0"

definition verify_bitset :: "u32 \<Rightarrow> sslcom \<Rightarrow> sslcom" where
  "verify_bitset b x = x\<lparr>sc_verify := sc_verify x OR b\<rparr>"

definition verify_bitreset :: "u32 \<Rightarrow> sslcom \<Rightarrow> sslcom" where
  "verify_bitreset b x = x\<lparr>sc_verify := flag_reset (sc_verify x) b\<rparr>"

definition verify_reset :: "u32 \<Rightarrow> sslcom \<Rightarrow> sslcom" where
  "verify_reset b x = x\<lparr>sc_verify := b\<rparr>"

definition is_verify_status_opt_allowed :: "sslcom \<Rightarrow> bool" where
  "is_verify_status_opt_allowed x =
     (let m = sc_verify x; o' = sc_opt x; allowed = True;
          (allowed, m) = (if allowed \<and> verify_bitcheck VRF_SELF_SIGNED x
                          then (allow_self_signed o', flag_reset m VRF_SELF_SIGNED) else (allowed, m));
          (allowed, m) = (if allowed \<and> verify_bitcheck VRF_SELF_SIGNED_CHAIN x
                          then (allow_self_signed_chain o', flag_reset m VRF_SELF_SIGNED_CHAIN) else (allowed, m));
          (allowed, m) = (if allowed \<and> verify_bitcheck VRF_INVALID x
                          then (allow_not_valid o', flag_reset m VRF_INVALID) else (allowed, m));
          (allowed, m) = (if allowed \<and> verify_bitcheck VRF_UNKNOWN_ISSUER x
                          then (allow_unknown_issuer o', flag_reset m VRF_UNKNOWN_ISSUER) else (allowed, m))
      in if allowed then
           let m = flag_reset (flag_reset (flag_reset m VRF_OK) VRF_DEFERRED) VRF_ALLFAILED
           in m = 0 \<or> m = VRF_CLIENT_CERT_RQ
         else False)"

text \<open>The callback of the chain verification: the bit and the option of each code.\<close>

definition vrfy_problem :: "x509_code \<Rightarrow> tls_opts \<Rightarrow> (u32 \<times> bool) option" where
  "vrfy_problem e o' =
     (if e \<in> {X509_V_ERR_UNABLE_TO_GET_ISSUER_CERT_LOCALLY, X509_V_ERR_UNABLE_TO_VERIFY_LEAF_SIGNATURE,
              X509_V_ERR_UNABLE_TO_GET_ISSUER_CERT} then Some (VRF_UNKNOWN_ISSUER, allow_unknown_issuer o')
      else if e \<in> {X509_V_ERR_SELF_SIGNED_CERT_IN_CHAIN, X509_V_ERR_CERT_UNTRUSTED}
      then Some (VRF_SELF_SIGNED_CHAIN, allow_self_signed_chain o')
      else if e = X509_V_ERR_DEPTH_ZERO_SELF_SIGNED_CERT then Some (VRF_SELF_SIGNED, allow_self_signed o')
      else if e \<in> {X509_V_ERR_CERT_NOT_YET_VALID, X509_V_ERR_ERROR_IN_CERT_NOT_BEFORE_FIELD,
                   X509_V_ERR_CERT_HAS_EXPIRED, X509_V_ERR_ERROR_IN_CERT_NOT_AFTER_FIELD, X509_V_ERR_other}
      then Some (VRF_INVALID, allow_not_valid o')
      else None)"

definition ssl_client_vrfy_callback ::
    "int \<Rightarrow> x509_code \<Rightarrow> nat \<Rightarrow> bool \<Rightarrow> bool \<Rightarrow> sslcom option \<Rightarrow> int \<times> sslcom option" where
  "ssl_client_vrfy_callback lib_preverify e depth has_cert sha1 com =
     (case com of
        None \<Rightarrow> (0, None)
      | Some x \<Rightarrow>
          let x = (if depth = 0 then x\<lparr>sc_target_cert := has_cert\<rparr>
                   else if depth = 1 then
                     let x = x\<lparr>sc_target_issuer := has_cert\<rparr>
                     in if has_cert \<and> sha1
                        then (verify_bitset VRF_EXTENDED_INFO x)\<lparr>sc_extended_sha1 := sc_extended_sha1 x + 1\<rparr>
                        else x
                   else x)
          in case vrfy_problem e (sc_opt x) of
               None \<Rightarrow> (lib_preverify, Some x)
             | Some (flag, allowed) \<Rightarrow>
                 (if allowed \<or> failed_check_replacement (sc_opt x) then 1 else lib_preverify,
                  Some (verify_bitset flag x)))"

section \<open>Revocation\<close>

text \<open>What the checks meet: the answer of the OCSP responder and its life time, the lists the certificate
  names, what a download of one gives (\<open>None\<close>: failed, \<open>Some None\<close>: not parsable), and what a list says.\<close>

record 'c revocation_env =
  rv_cn :: string
  rv_query :: int
  rv_crls :: "string list"
  rv_download :: "string \<Rightarrow> 'c option option"
  rv_trust :: "'c \<Rightarrow> bool"
  rv_revoked_by :: "'c \<Rightarrow> int"

text \<open>The two caches of the factory; entries that expire are the caller's business. A list is cached as
  \<open>None\<close> when its download failed.\<close>

record 'c factory =
  fc_verify_cache :: "string \<Rightarrow> int option"
  fc_crl_cache :: "string \<Rightarrow> 'c option option"

definition crl_answer :: "'c revocation_env \<Rightarrow> 'c option \<Rightarrow> int" where
  "crl_answer env crl =
     (case crl of None \<Rightarrow> - 1 | Some c \<Rightarrow> if \<not> rv_trust env c then - 1 else rv_revoked_by env c)"

text \<open>The loop over the lists: \<open>crl\<close> is \<^verbatim>\<open>crl_struct\<close>, which lives across the iterations and is set only by
  a download.\<close>

fun crl_loop :: "'c revocation_env \<Rightarrow> string list \<Rightarrow> 'c option \<Rightarrow> int \<times> verify_origin \<times> 'c factory \<Rightarrow>
    int \<times> verify_origin \<times> 'c factory" where
  "crl_loop env [] crl (res, origin, fc) = (res, origin, fc)"
| "crl_loop env (url # urls) crl (res, origin, fc) =
     (let (crl, origin, fc) =
        (case fc_crl_cache fc url of
           Some _ \<Rightarrow> (crl, CRL_CACHE, fc)
         | None \<Rightarrow>
             (case rv_download env url of
                None \<Rightarrow> (crl, origin, fc\<lparr>fc_crl_cache := (fc_crl_cache fc)(url := Some None)\<rparr>)
              | Some None \<Rightarrow> (None, origin, fc)
              | Some (Some c) \<Rightarrow> (Some c, origin, fc\<lparr>fc_crl_cache := (fc_crl_cache fc)(url := Some (Some c))\<rparr>)));
          r = crl_answer env crl
      in if 0 \<le> r then (r, CRL, fc) else crl_loop env urls crl (r, origin, fc))"

definition ocsp_lookup :: "'c revocation_env \<Rightarrow> 'c factory \<Rightarrow> int \<times> verify_origin \<times> 'c factory" where
  "ocsp_lookup env fc =
     (let (res, origin, fc) =
        (case fc_verify_cache fc (rv_cn env) of
           Some r \<Rightarrow> (r, OCSP_CACHE, fc)
         | None \<Rightarrow> (rv_query env, OCSP,
                    fc\<lparr>fc_verify_cache := (fc_verify_cache fc)(rv_cn env := Some (rv_query env))\<rparr>))
      in if res < 0 then crl_loop env (rv_crls env) None (res, origin, fc) else (res, origin, fc))"

text \<open>\<^verbatim>\<open>res.revoked\<close> starts as -1 when the certificate or its issuer is missing.\<close>

definition certificate_status_ocsp_check ::
    "'c revocation_env \<Rightarrow> 'c factory \<Rightarrow> sslcom \<Rightarrow> int \<times> 'c factory \<times> sslcom" where
  "certificate_status_ocsp_check env fc x =
     (let (res, origin, fc', x) =
        (if sc_target_cert x \<and> sc_target_issuer x then
           let (res, origin, fc') = ocsp_lookup env fc;
               first = (case fc_verify_cache fc (rv_cn env) of Some r \<Rightarrow> r | None \<Rightarrow> rv_query env)
           in (res, origin, fc', x\<lparr>sc_ocsp_revoked := first\<rparr>)
         else (- 1, ORIGIN_NONE, fc, x));
          x = x\<lparr>sc_origin := origin\<rparr>;
          x = (if 0 < res then verify_bitset VRF_REVOKED (verify_bitreset VRF_OK x)
               else if res = 0 then verify_bitset VRF_OK x
               else verify_bitset VRF_DEFERRED (verify_bitreset VRF_OK x))
      in (res, fc', x))"

definition certificate_status_oob_check ::
    "'c revocation_env \<Rightarrow> 'c factory \<Rightarrow> int \<Rightarrow> sslcom \<Rightarrow> int \<times> 'c factory \<times> sslcom" where
  "certificate_status_oob_check env fc dflt x =
     (let x = verify_bitreset VRF_DEFERRED x
      in if sc_enforce_in_verify x then
           let (res, fc, x) = certificate_status_ocsp_check env fc x
           in if res \<noteq> 0 then
                let x = (if 0 < res then verify_bitset VRF_REVOKED (verify_bitreset VRF_OK x)
                         else verify_bitset VRF_ALLFAILED (verify_bitreset VRF_OK x))
                in (of_bool (failed_check_replacement (sc_opt x)), fc, x)
              else (1, fc, x)
         else (dflt, fc, x))"

record stapling =
  st_body :: bool
  st_parsed :: bool
  st_successful :: bool
  st_basic :: bool
  st_verified :: bool
  st_id :: bool
  st_found :: bool
  st_in_time :: bool
  st_status :: "bool option"

text \<open>The second component is whether the certificate is good (\<open>Some True\<close>), revoked (\<open>Some False\<close>) or
  neither.\<close>

definition check_revocation_stapling :: "stapling \<Rightarrow> sslcom \<Rightarrow> staple_code \<times> bool option \<times> sslcom" where
  "check_revocation_stapling st x =
     (let enforce = x\<lparr>sc_enforce_in_verify := True\<rparr>
      in if \<not> st_body st then (MISSING_BODY, None, enforce)
         else if \<not> st_parsed st then (PARSING_FAILED, None, enforce)
         else if \<not> st_successful st then (STATUS_NOK, None, enforce)
         else if \<not> st_basic st then (GET_BASIC_FAILED, None, enforce)
         else if \<not> st_verified st then (BASIC_VERIFY_FAILED, None, x)
         else if \<not> st_id st then (CERT_TO_ID_FAILED, None, enforce)
         else if \<not> st_found st then (NO_FIND_STATUS, None, enforce)
         else if \<not> st_in_time st then (INVALID_TIME, st_status st, enforce)
         else (STAPLE_SUCCESS, st_status st, x))"

definition status_resp_callback ::
    "stapling \<Rightarrow> 'c revocation_env \<Rightarrow> 'c factory \<Rightarrow> sslcom \<Rightarrow> int \<times> 'c factory \<times> sslcom" where
  "status_resp_callback st env fc x =
     (let require = 2 \<le> stapling_mode (sc_opt x);
          non_ok = flag_reset (flag_reset (flag_reset (sc_verify x) VRF_NOTTESTED) VRF_DEFERRED) VRF_OK
      in if non_ok \<noteq> 0 \<and> sc_verify x \<noteq> VRF_OK \<and> \<not> verify_bitcheck VRF_CLIENT_CERT_RQ x then
           let x = verify_bitreset VRF_NOTTESTED x
           in if is_verify_status_opt_allowed x then (1, fc, (verify_bitset VRF_OK x)\<lparr>sc_origin := EXEMPT\<rparr>)
              else (of_bool (failed_check_replacement (sc_opt x)), fc,
                    verify_bitset VRF_ALLFAILED (verify_bitreset VRF_OK x))
         else
           let x = verify_bitreset VRF_NOTTESTED x
           in if \<not> sc_target_cert x \<or> \<not> sc_target_issuer x then
                certificate_status_oob_check env fc (if require then 0 else 1) (x\<lparr>sc_enforce_in_verify := True\<rparr>)
              else
                let (code, good, x) = check_revocation_stapling st x
                in if code = STAPLE_SUCCESS then
                     let x = verify_bitreset VRF_OK x
                     in case good of
                          Some True \<Rightarrow>
                            (1, fc, (verify_bitset VRF_OK x)\<lparr>sc_origin := OCSP_STAPLING, sc_ocsp_revoked := 0\<rparr>)
                        | Some False \<Rightarrow>
                            (of_bool (failed_check_replacement (sc_opt x)), fc,
                             (verify_bitset VRF_REVOKED x)\<lparr>sc_origin := OCSP_STAPLING, sc_ocsp_revoked := 1\<rparr>)
                        | None \<Rightarrow> certificate_status_oob_check env fc (if require then 0 else 1)
                            (if require then verify_bitreset VRF_OK (verify_bitset VRF_DEFERRED x) else x)
                   else certificate_status_oob_check env fc (if require then 0 else 1)
                          (if require then verify_bitreset VRF_OK (verify_bitset VRF_DEFERRED x) else x))"

definition ssl_client_cert_callback :: "sslcom \<Rightarrow> int \<times> sslcom" where
  "ssl_client_cert_callback x =
     (let x = verify_bitset VRF_CLIENT_CERT_RQ x
      in if client_cert_action (sc_opt x) = 0 then
           if failed_check_replacement (sc_opt x) then (0, x) else (1, x\<lparr>sc_error_flag := ERROR_UNSPEC\<rparr>)
         else if client_cert_action (sc_opt x) = 1 then (0, x)
         else (1, x))"

section \<open>The verification status, proved\<close>

lemma verify_sel [simp]:
  "sc_opt (verify_bitset b x) = sc_opt x" "sc_opt (verify_bitreset b x) = sc_opt x"
  "sc_verify (verify_bitset b x) = sc_verify x OR b"
  "sc_verify (verify_bitreset b x) = flag_reset (sc_verify x) b"
  "sc_target_cert (verify_bitset b x) = sc_target_cert x" "sc_target_cert (verify_bitreset b x) = sc_target_cert x"
  "sc_target_issuer (verify_bitset b x) = sc_target_issuer x"
  "sc_target_issuer (verify_bitreset b x) = sc_target_issuer x"
  "sc_enforce_in_verify (verify_bitset b x) = sc_enforce_in_verify x"
  "sc_enforce_in_verify (verify_bitreset b x) = sc_enforce_in_verify x"
  by (simp_all add: verify_bitset_def verify_bitreset_def)

text \<open>The problems a policy tolerates, and the bits that are no problems.\<close>

definition tolerated :: "tls_opts \<Rightarrow> u32" where
  "tolerated p = VRF_OK OR VRF_DEFERRED OR VRF_ALLFAILED OR VRF_CLIENT_CERT_RQ OR
     (if allow_self_signed p then VRF_SELF_SIGNED else 0) OR
     (if allow_self_signed_chain p then VRF_SELF_SIGNED_CHAIN else 0) OR
     (if allow_not_valid p then VRF_INVALID else 0) OR
     (if allow_unknown_issuer p then VRF_UNKNOWN_ISSUER else 0)"

lemma bit_vrf [simp]:
  "bit VRF_OK i \<longleftrightarrow> i = 0" "bit VRF_UNKNOWN_ISSUER i \<longleftrightarrow> i = 1" "bit VRF_SELF_SIGNED i \<longleftrightarrow> i = 2"
  "bit VRF_INVALID i \<longleftrightarrow> i = 3" "bit VRF_SELF_SIGNED_CHAIN i \<longleftrightarrow> i = 4" "bit VRF_REVOKED i \<longleftrightarrow> i = 5"
  "bit VRF_CLIENT_CERT_RQ i \<longleftrightarrow> i = 6" "bit VRF_DEFERRED i \<longleftrightarrow> i = 12" "bit VRF_EXTENDED_INFO i \<longleftrightarrow> i = 13"
  "bit VRF_ALLFAILED i \<longleftrightarrow> i = 14" "bit VRF_NOTTESTED i \<longleftrightarrow> i = 15"
proof -
  have p: "bit (2 ^ n :: u32) i \<longleftrightarrow> i = n" if "n < 32" for n
    using that by (auto simp: bit_exp_iff)
  show "bit VRF_OK i \<longleftrightarrow> i = 0" "bit VRF_UNKNOWN_ISSUER i \<longleftrightarrow> i = 1" "bit VRF_SELF_SIGNED i \<longleftrightarrow> i = 2"
    "bit VRF_INVALID i \<longleftrightarrow> i = 3" "bit VRF_SELF_SIGNED_CHAIN i \<longleftrightarrow> i = 4" "bit VRF_REVOKED i \<longleftrightarrow> i = 5"
    "bit VRF_CLIENT_CERT_RQ i \<longleftrightarrow> i = 6" "bit VRF_DEFERRED i \<longleftrightarrow> i = 12" "bit VRF_EXTENDED_INFO i \<longleftrightarrow> i = 13"
    "bit VRF_ALLFAILED i \<longleftrightarrow> i = 14" "bit VRF_NOTTESTED i \<longleftrightarrow> i = 15"
    using p [of 0] p [of 1] p [of 2] p [of 3] p [of 4] p [of 5] p [of 6] p [of 12] p [of 13] p [of 14] p [of 15]
    by (simp_all add: vrf_bits)
qed

lemma bit_flag_reset [simp]: "bit (flag_reset v b) i \<longleftrightarrow> bit v i \<and> \<not> bit b i"
  using bit_imp_le_length [of v i] by (auto simp: flag_reset_def bit_and_iff bit_not_iff)

lemma eq_zero_bits: "(v :: u32) = 0 \<longleftrightarrow> (\<forall>i. \<not> bit v i)"
proof
  show "\<forall>i. \<not> bit v i \<Longrightarrow> v = 0" by (rule bit_word_eqI) simp
qed simp

lemma eq_vrf_bits: "v = (w :: u32) \<longleftrightarrow> (\<forall>i. bit v i \<longleftrightarrow> bit w i)"
  by (auto intro: bit_word_eqI)

lemma bit_if: "bit (if P then v else w) i \<longleftrightarrow> (if P then bit v i else bit w i)"
  by simp

lemma and_vrf [simp]:
  "v AND VRF_OK \<noteq> 0 \<longleftrightarrow> bit v 0" "v AND VRF_UNKNOWN_ISSUER \<noteq> 0 \<longleftrightarrow> bit v 1"
  "v AND VRF_SELF_SIGNED \<noteq> 0 \<longleftrightarrow> bit v 2" "v AND VRF_INVALID \<noteq> 0 \<longleftrightarrow> bit v 3"
  "v AND VRF_SELF_SIGNED_CHAIN \<noteq> 0 \<longleftrightarrow> bit v 4" "v AND VRF_CLIENT_CERT_RQ \<noteq> 0 \<longleftrightarrow> bit v 6"
  "v AND VRF_NOTTESTED \<noteq> 0 \<longleftrightarrow> bit v 15"
  by (auto simp: eq_zero_bits bit_and_iff)

text \<open>The test of the policy is exact: it holds when every bit of the status is a problem the policy
  tolerates, or no problem.\<close>

lemma only_client_cert: "m = 0 \<or> m = VRF_CLIENT_CERT_RQ \<longleftrightarrow> (\<forall>i. bit m i \<longrightarrow> i = 6)"
proof
  assume r: "\<forall>i. bit m i \<longrightarrow> i = 6"
  show "m = 0 \<or> m = VRF_CLIENT_CERT_RQ"
  proof (cases "bit m 6")
    case True
    with r have "bit m n \<longleftrightarrow> n = 6" for n by metis
    then have "m = VRF_CLIENT_CERT_RQ" unfolding eq_vrf_bits bit_vrf by blast
    then show ?thesis ..
  next
    case False
    with r have "\<not> bit m n" for n by metis
    then have "m = 0" unfolding eq_zero_bits by blast
    then show ?thesis ..
  qed
next
  show "m = 0 \<or> m = VRF_CLIENT_CERT_RQ \<Longrightarrow> \<forall>i. bit m i \<longrightarrow> i = 6" by (erule disjE) simp_all
qed

lemma bit_tolerated:
  "bit (tolerated p) i \<longleftrightarrow> i \<in> {0, 12, 14, 6} \<or> i = 2 \<and> allow_self_signed p \<or> i = 4 \<and> allow_self_signed_chain p \<or>
     i = 3 \<and> allow_not_valid p \<or> i = 1 \<and> allow_unknown_issuer p"
  unfolding tolerated_def bit_or_iff bit_if bit_vrf by auto

theorem opt_allowed_exact:
  "is_verify_status_opt_allowed x \<longleftrightarrow> sc_verify x AND NOT (tolerated (sc_opt x)) = 0"
proof -
  define v where "v = sc_verify x"
  define p where "p = sc_opt x"
  have bits: "v AND NOT (tolerated p) = 0 \<longleftrightarrow>
      (\<forall>i. bit v i \<longrightarrow> i \<in> {0, 12, 14, 6} \<or> i = 2 \<and> allow_self_signed p \<or> i = 4 \<and> allow_self_signed_chain p \<or>
        i = 3 \<and> allow_not_valid p \<or> i = 1 \<and> allow_unknown_issuer p)"
    unfolding flag_reset_def [symmetric] eq_zero_bits bit_flag_reset bit_tolerated by blast
  have final: "(let m = flag_reset (flag_reset (flag_reset w VRF_OK) VRF_DEFERRED) VRF_ALLFAILED
           in m = 0 \<or> m = VRF_CLIENT_CERT_RQ) \<longleftrightarrow> (\<forall>i. bit w i \<longrightarrow> i \<in> {0, 12, 14, 6})" for w
    unfolding Let_def only_client_cert bit_flag_reset bit_vrf by blast
  define s1 where "s1 = (if True \<and> bit v 2 then (allow_self_signed p, flag_reset v VRF_SELF_SIGNED) else (True, v))"
  define s2 where "s2 = (if fst s1 \<and> bit v 4
    then (allow_self_signed_chain p, flag_reset (snd s1) VRF_SELF_SIGNED_CHAIN) else s1)"
  define s3 where "s3 = (if fst s2 \<and> bit v 3 then (allow_not_valid p, flag_reset (snd s2) VRF_INVALID) else s2)"
  define s4 where "s4 = (if fst s3 \<and> bit v 1
    then (allow_unknown_issuer p, flag_reset (snd s3) VRF_UNKNOWN_ISSUER) else s3)"
  have 1: "fst s1 \<longleftrightarrow> (bit v 2 \<longrightarrow> allow_self_signed p)" "bit (snd s1) i \<longleftrightarrow> bit v i \<and> i \<noteq> 2" for i
    by (auto simp: s1_def)
  have 2: "fst s2 \<longleftrightarrow> fst s1 \<and> (bit v 4 \<longrightarrow> allow_self_signed_chain p)"
      "fst s2 \<Longrightarrow> bit (snd s2) i \<longleftrightarrow> bit v i \<and> i \<notin> {2, 4}" for i
    using 1 by (auto simp: s2_def split: if_splits)
  have 3: "fst s3 \<longleftrightarrow> fst s2 \<and> (bit v 3 \<longrightarrow> allow_not_valid p)"
      "fst s3 \<Longrightarrow> bit (snd s3) i \<longleftrightarrow> bit v i \<and> i \<notin> {2, 4, 3}" for i
    using 2 by (auto simp: s3_def split: if_splits)
  have 4: "fst s4 \<longleftrightarrow> fst s3 \<and> (bit v 1 \<longrightarrow> allow_unknown_issuer p)"
      "fst s4 \<Longrightarrow> bit (snd s4) i \<longleftrightarrow> bit v i \<and> i \<notin> {2, 4, 3, 1}" for i
    using 3 by (auto simp: s4_def split: if_splits)
  have "is_verify_status_opt_allowed x \<longleftrightarrow> fst s4 \<and> (\<forall>i. bit (snd s4) i \<longrightarrow> i \<in> {0, 12, 14, 6})"
    unfolding is_verify_status_opt_allowed_def v_def [symmetric] p_def [symmetric] verify_bitcheck_def and_vrf
      Let_def [of v] Let_def [of p] Let_def [of True] s1_def [symmetric]
      Let_def [of s1] case_prod_beta s2_def [symmetric] prod.collapse
    unfolding Let_def [of s1] Let_def [of s2] case_prod_beta prod.collapse s2_def [symmetric] s3_def [symmetric]
    unfolding Let_def [of s2] Let_def [of s3] case_prod_beta prod.collapse s3_def [symmetric] s4_def [symmetric]
    unfolding Let_def [of s3] Let_def [of s4] case_prod_beta prod.collapse s4_def [symmetric] final by simp
  moreover have "fst s4 \<and> (\<forall>i. bit (snd s4) i \<longrightarrow> i \<in> {0, 12, 14, 6}) \<longleftrightarrow>
      (\<forall>i. bit v i \<longrightarrow> i \<in> {0, 12, 14, 6} \<or> i = 2 \<and> allow_self_signed p \<or> i = 4 \<and> allow_self_signed_chain p \<or>
        i = 3 \<and> allow_not_valid p \<or> i = 1 \<and> allow_unknown_issuer p)" (is "_ \<longleftrightarrow> ?all")
  proof
    assume h: "fst s4 \<and> (\<forall>i. bit (snd s4) i \<longrightarrow> i \<in> {0, 12, 14, 6})"
    then have h': "bit v i \<Longrightarrow> i \<notin> {2, 4, 3, 1} \<Longrightarrow> i \<in> {0, 12, 14, 6}" for i using 4(2) by blast
    show ?all
    proof (intro allI impI)
      fix i assume i: "bit v i"
      show "i \<in> {0, 12, 14, 6} \<or> i = 2 \<and> allow_self_signed p \<or> i = 4 \<and> allow_self_signed_chain p \<or>
        i = 3 \<and> allow_not_valid p \<or> i = 1 \<and> allow_unknown_issuer p"
      proof (cases "i \<in> {2, 4, 3, 1}")
        case True
        then show ?thesis using i h 4(1) 3(1) 2(1) 1(1) by blast
      qed (use h' [OF i] in blast)
    qed
  next
    assume h: ?all
    have "fst s4" using h [THEN spec, of 2] h [THEN spec, of 4] h [THEN spec, of 3] h [THEN spec, of 1] 4(1) 3(1) 2(1) 1(1)
      by simp
    moreover have "i \<in> {0, 12, 14, 6}" if "bit (snd s4) i" for i
      using h [THEN spec, of i] 4(2) [OF \<open>fst s4\<close>, of i] that by simp
    ultimately show "fst s4 \<and> (\<forall>i. bit (snd s4) i \<longrightarrow> i \<in> {0, 12, 14, 6})" by blast
  qed
  ultimately show ?thesis unfolding v_def [symmetric] p_def [symmetric] bits by blast
qed

lemma verify_sel2 [simp]:
  "sc_verify (x\<lparr>sc_origin := o'\<rparr>) = sc_verify x" "sc_verify (x\<lparr>sc_ocsp_revoked := n\<rparr>) = sc_verify x"
  "sc_verify (x\<lparr>sc_enforce_in_verify := b\<rparr>) = sc_verify x"
  by simp_all

lemma bit_bitset [simp]:
  "bit (sc_verify (verify_bitset b x)) i \<longleftrightarrow> bit (sc_verify x) i \<or> bit b i"
  "bit (sc_verify (verify_bitreset b x)) i \<longleftrightarrow> bit (sc_verify x) i \<and> \<not> bit b i"
  by (simp_all add: bit_or_iff)

lemma vrfy_problem_bit:
  assumes "vrfy_problem e p = Some (flag, allowed)"
  shows "\<exists>n \<in> {1, 2, 3, 4}. (\<forall>i. bit flag i \<longleftrightarrow> i = n) \<and> (bit (tolerated p) n \<longleftrightarrow> allowed)"
proof -
  have "(flag, allowed) \<in> {(VRF_UNKNOWN_ISSUER, allow_unknown_issuer p), (VRF_SELF_SIGNED_CHAIN, allow_self_signed_chain p),
      (VRF_SELF_SIGNED, allow_self_signed p), (VRF_INVALID, allow_not_valid p)}"
    using assms by (auto simp: vrfy_problem_def split: if_splits)
  then show ?thesis by (auto simp: bit_tolerated)
qed

lemma vrfy_callback_some:
  assumes "ssl_client_vrfy_callback pre e depth c sha (Some x) = (r, y)" and "vrfy_problem e (sc_opt x) = Some (flag, allowed)"
  shows "r = (if allowed \<or> failed_check_replacement (sc_opt x) then 1 else pre) \<and>
    (\<exists>x1. y = Some (verify_bitset flag x1) \<and> sc_opt x1 = sc_opt x \<and>
      (\<forall>i. i \<noteq> 13 \<longrightarrow> bit (sc_verify x1) i = bit (sc_verify x) i))"
proof -
  define x0 where "x0 = (if depth = 0 then x\<lparr>sc_target_cert := c\<rparr>
                   else if depth = 1 then
                     let x = x\<lparr>sc_target_issuer := c\<rparr>
                     in if c \<and> sha
                        then (verify_bitset VRF_EXTENDED_INFO x)\<lparr>sc_extended_sha1 := sc_extended_sha1 x + 1\<rparr>
                        else x
                   else x)"
  have x0: "sc_opt x0 = sc_opt x" "\<forall>i. i \<noteq> 13 \<longrightarrow> bit (sc_verify x0) i = bit (sc_verify x) i"
    by (simp_all add: x0_def Let_def bit_or_iff)
  have "ssl_client_vrfy_callback pre e depth c sha (Some x) =
      (if allowed \<or> failed_check_replacement (sc_opt x) then 1 else pre, Some (verify_bitset flag x0))"
    using assms(2) x0(1) unfolding ssl_client_vrfy_callback_def option.case x0_def [symmetric] Let_def [of x0] by simp
  then show ?thesis using assms(1) x0 by auto
qed

text \<open>C3: A certificate chain with a problem the policy does not tolerate is never reported as verified, unless the
  server asked for a client certificate: without replacement the chain check answers what the library
  said, the status callback does not set the bit of success, keeps the bit of the problem, and
  refuses, or lets the connection through to the replacement page.\<close>

theorem failed_chain_is_not_verified:
  assumes "vrfy_problem e (sc_opt x) = Some (flag, False)" and "\<not> verify_bitcheck VRF_CLIENT_CERT_RQ x"
    and "ssl_client_vrfy_callback pre e depth c sha (Some x) = (r1, Some x1)"
    and "status_resp_callback st env fc x1 = (r2, fc', x2)"
  shows "r1 = (if failed_check_replacement (sc_opt x) then 1 else pre) \<and>
    r2 = of_bool (failed_check_replacement (sc_opt x)) \<and>
    \<not> verify_bitcheck VRF_OK x2 \<and> verify_bitcheck flag x2 \<and> verify_bitcheck VRF_ALLFAILED x2"
proof -
  obtain n where n: "n \<in> {1, 2, 3, 4}" "\<And>i. bit flag i \<longleftrightarrow> i = n" "\<not> bit (tolerated (sc_opt x)) n"
    using vrfy_problem_bit [OF assms(1)] by blast
  obtain y where y: "x1 = verify_bitset flag y" "sc_opt y = sc_opt x"
      "\<And>i. i \<noteq> 13 \<Longrightarrow> bit (sc_verify y) i = bit (sc_verify x) i"
      "r1 = (if failed_check_replacement (sc_opt x) then 1 else pre)"
    using vrfy_callback_some [OF assms(3,1)] by auto
  define x3 where "x3 = verify_bitreset VRF_NOTTESTED x1"
  have b1: "bit (sc_verify x1) n" using y(1) n(2) by (simp add: bit_or_iff)
  have "bit (flag_reset (flag_reset (flag_reset (sc_verify x1) VRF_NOTTESTED) VRF_DEFERRED) VRF_OK) n"
    using b1 n(1) by auto
  then have nz: "flag_reset (flag_reset (flag_reset (sc_verify x1) VRF_NOTTESTED) VRF_DEFERRED) VRF_OK \<noteq> 0"
    by (metis bit_0_eq bot_apply bot_bool_def)
  have nok: "sc_verify x1 \<noteq> VRF_OK" using b1 n(1) by auto
  have ncc: "\<not> verify_bitcheck VRF_CLIENT_CERT_RQ x1"
    using assms(2) y(1,3) n by (auto simp: verify_bitcheck_def bit_or_iff)
  have b3: "bit (sc_verify x3) n" using b1 n(1) by (auto simp: x3_def)
  have "bit (sc_verify x3 AND NOT (tolerated (sc_opt x3))) n"
    using b3 n(1,3) y(1,2) bit_imp_le_length [OF b3] by (simp add: bit_and_iff bit_not_iff x3_def)
  then have "\<not> is_verify_status_opt_allowed x3"
    unfolding opt_allowed_exact by (metis bit_0_eq bot_apply bot_bool_def)
  then have "r2 = of_bool (failed_check_replacement (sc_opt x3))"
      "x2 = verify_bitset VRF_ALLFAILED (verify_bitreset VRF_OK x3)"
    using assms(4) nz nok ncc by (simp_all add: status_resp_callback_def Let_def x3_def)
  moreover have "verify_bitcheck flag z \<longleftrightarrow> bit (sc_verify z) n" for z
    using n(2) by (auto simp: verify_bitcheck_def eq_zero_bits bit_and_iff)
  moreover have "verify_bitcheck VRF_ALLFAILED z \<longleftrightarrow> bit (sc_verify z) 14" for z
    by (auto simp: verify_bitcheck_def eq_zero_bits bit_and_iff)
  moreover have "verify_bitcheck VRF_OK z \<longleftrightarrow> bit (sc_verify z) 0" for z
    by (auto simp: verify_bitcheck_def eq_zero_bits bit_and_iff)
  ultimately show ?thesis using y n b3 by (auto simp: x3_def bit_or_iff)
qed


text \<open>That exception is a hole: when the server has asked for a client certificate, the earlier failures are not
  looked at, and a good stapled answer reports success with the bits of the failures still set.\<close>

theorem client_cert_request_hides_failure:
  assumes "verify_bitcheck VRF_CLIENT_CERT_RQ x" and "sc_target_cert x" and "sc_target_issuer x"
    and "check_revocation_stapling st x = (STAPLE_SUCCESS, Some True, x)"
    and "status_resp_callback st env fc x = (r, fc', x')"
  shows "r = 1 \<and> verify_bitcheck VRF_OK x' \<and> (verify_bitcheck VRF_INVALID x \<longrightarrow> verify_bitcheck VRF_INVALID x')"
proof -
  have "check_revocation_stapling st (verify_bitreset VRF_NOTTESTED x) = (STAPLE_SUCCESS, Some True, verify_bitreset VRF_NOTTESTED x)"
    using assms(4) by (auto simp: check_revocation_stapling_def Let_def split: if_splits)
  then have "r = 1" "sc_verify x' = (flag_reset (flag_reset (sc_verify x) VRF_NOTTESTED) VRF_OK) OR VRF_OK"
    using assms(1-3,5) by (auto simp: status_resp_callback_def Let_def)
  moreover have "verify_bitcheck VRF_OK z \<longleftrightarrow> bit (sc_verify z) 0" "verify_bitcheck VRF_INVALID z \<longleftrightarrow> bit (sc_verify z) 3" for z
    by (auto simp: verify_bitcheck_def eq_zero_bits bit_and_iff)
  ultimately show ?thesis by (simp add: bit_or_iff)
qed

section \<open>Revocation, proved\<close>

lemma ocsp_check_bits:
  assumes "certificate_status_ocsp_check env fc x = (r, fc', x')"
  shows "sc_opt x' = sc_opt x"
    "bit (sc_verify x') 5 \<longleftrightarrow> bit (sc_verify x) 5 \<or> 0 < r" "bit (sc_verify x') 0 \<longleftrightarrow> r = 0"
  using assms
  by (auto simp: certificate_status_ocsp_check_def Let_def split_beta bit_or_iff split: if_splits)

lemma oob_check_bits:
  assumes "certificate_status_oob_check env fc d x = (r, fc', x')" and "\<not> bit (sc_verify x) 5"
  shows "sc_opt x' = sc_opt x"
    "bit (sc_verify x') 5 \<Longrightarrow> r = of_bool (failed_check_replacement (sc_opt x)) \<and> \<not> bit (sc_verify x') 0"
proof -
  obtain q f y where c: "certificate_status_ocsp_check env fc (verify_bitreset VRF_DEFERRED x) = (q, f, y)"
    by (metis prod_cases3)
  note b = ocsp_check_bits [OF c]
  show "sc_opt x' = sc_opt x"
    "bit (sc_verify x') 5 \<Longrightarrow> r = of_bool (failed_check_replacement (sc_opt x)) \<and> \<not> bit (sc_verify x') 0"
    using assms b c by (auto simp: certificate_status_oob_check_def Let_def bit_or_iff split: if_splits)
qed

lemma stapling_keeps:
  assumes "check_revocation_stapling st x = (c, g, x')"
  shows "sc_verify x' = sc_verify x" "sc_opt x' = sc_opt x"
  using assms by (auto simp: check_revocation_stapling_def Let_def split: if_splits)

text \<open>C24: A certificate that the status callback finds revoked, by the stapled answer, by asking the responder or by
  a revocation list, is never reported as verified: the success bit is off, and the callback
  refuses unless the connection is to be replaced by the warning page.\<close>

theorem revoked_is_refused:
  assumes "status_resp_callback st env fc x = (r, fc', x')" and "\<not> verify_bitcheck VRF_REVOKED x"
    and "verify_bitcheck VRF_REVOKED x'"
  shows "\<not> verify_bitcheck VRF_OK x' \<and> r = of_bool (failed_check_replacement (sc_opt x))"
proof -
  have vb: "verify_bitcheck VRF_OK z \<longleftrightarrow> bit (sc_verify z) 0" "verify_bitcheck VRF_REVOKED z \<longleftrightarrow> bit (sc_verify z) 5" for z
    by (auto simp: verify_bitcheck_def eq_zero_bits bit_and_iff)
  have n5: "\<not> bit (sc_verify x) 5" "bit (sc_verify x') 5" using assms(2,3) vb by auto
  define x1 where "x1 = verify_bitreset VRF_NOTTESTED x"
  have x1: "\<not> bit (sc_verify x1) 5" "sc_opt x1 = sc_opt x" using n5 by (simp_all add: x1_def)
  obtain c g y where st: "check_revocation_stapling st x1 = (c, g, y)" by (metis prod_cases3)
  have y: "\<not> bit (sc_verify y) 5" "sc_opt y = sc_opt x" using stapling_keeps [OF st] x1 by simp_all
  define d :: int where "d = (if 2 \<le> stapling_mode (sc_opt x) then 0 else 1)"
  define z1 where "z1 = x1\<lparr>sc_enforce_in_verify := True\<rparr>"
  have oob: "\<not> verify_bitcheck VRF_OK x' \<and> r = of_bool (failed_check_replacement (sc_opt x))"
    if "certificate_status_oob_check env fc d z = (r, fc', x')" "\<not> bit (sc_verify z) 5" "sc_opt z = sc_opt x" for z
    using oob_check_bits(2) [OF that(1,2) n5(2)] that(3) vb by simp
  define z2 where "z2 = (if 2 \<le> stapling_mode (sc_opt x) then verify_bitreset VRF_OK (verify_bitset VRF_DEFERRED y) else y)"
  define z3 where "z3 = (if 2 \<le> stapling_mode (sc_opt x)
     then verify_bitreset VRF_OK (verify_bitset VRF_DEFERRED (verify_bitreset VRF_OK y)) else verify_bitreset VRF_OK y)"
  have z: "\<not> bit (sc_verify z1) 5" "sc_opt z1 = sc_opt x" "\<not> bit (sc_verify z2) 5" "sc_opt z2 = sc_opt x"
    "\<not> bit (sc_verify z3) 5" "sc_opt z3 = sc_opt x"
    using x1 y by (simp_all add: z1_def z2_def z3_def bit_or_iff)
  define early where "early \<longleftrightarrow> flag_reset (flag_reset (flag_reset (sc_verify x) VRF_NOTTESTED) VRF_DEFERRED) VRF_OK \<noteq> 0 \<and>
     sc_verify x \<noteq> VRF_OK \<and> \<not> verify_bitcheck VRF_CLIENT_CERT_RQ x"
  have eq: "status_resp_callback st env fc x =
    (if early then if is_verify_status_opt_allowed x1 then (1, fc, (verify_bitset VRF_OK x1)\<lparr>sc_origin := EXEMPT\<rparr>)
        else (of_bool (failed_check_replacement (sc_opt x1)), fc, verify_bitset VRF_ALLFAILED (verify_bitreset VRF_OK x1))
     else if \<not> sc_target_cert x1 \<or> \<not> sc_target_issuer x1 then certificate_status_oob_check env fc d z1
     else if c = STAPLE_SUCCESS then
       case g of
         Some True \<Rightarrow> (1, fc, (verify_bitset VRF_OK (verify_bitreset VRF_OK y))\<lparr>sc_origin := OCSP_STAPLING, sc_ocsp_revoked := 0\<rparr>)
       | Some False \<Rightarrow> (of_bool (failed_check_replacement (sc_opt (verify_bitreset VRF_OK y))), fc,
            (verify_bitset VRF_REVOKED (verify_bitreset VRF_OK y))\<lparr>sc_origin := OCSP_STAPLING, sc_ocsp_revoked := 1\<rparr>)
       | None \<Rightarrow> certificate_status_oob_check env fc d z3
     else certificate_status_oob_check env fc d z2)"
    unfolding status_resp_callback_def Let_def early_def [symmetric] x1_def [symmetric] st prod.case d_def [symmetric]
      z1_def [symmetric] z2_def [symmetric] z3_def [symmetric] by (rule refl)
  show ?thesis
  proof (cases early)
    case True
    then show ?thesis using assms(1) n5 x1 unfolding eq by (auto simp: bit_or_iff split: if_splits)
  next
    case False
    show ?thesis
    proof (cases "\<not> sc_target_cert x1 \<or> \<not> sc_target_issuer x1")
      case True
      then have "certificate_status_oob_check env fc d z1 = (r, fc', x')" using assms(1) False unfolding eq by simp
      from oob [OF this z(1,2)] show ?thesis .
    next
      case cert: False
      show ?thesis
      proof (cases "c = STAPLE_SUCCESS \<and> g \<noteq> None")
        case True
        then show ?thesis using assms(1) n5 y False cert vb unfolding eq
          by (auto simp: bit_or_iff split: option.splits bool.splits)
      next
        case rest: False
        then have "certificate_status_oob_check env fc d z2 = (r, fc', x') \<or> certificate_status_oob_check env fc d z3 = (r, fc', x')"
          using assms(1) False cert unfolding eq by (auto split: option.splits if_splits)
        then show ?thesis using oob [OF _ z(3,4)] oob [OF _ z(5,6)] by blast
      qed
    qed
  qed
qed

text \<open>Even if the routine that reads a list reports revoked certificates, it works once. The first check of a
  certificate, when the responder is silent, downloads the
  list and finds the certificate revoked; the second check finds the list in the cache and does
  not use it, because \<^verbatim>\<open>crl_struct\<close> is only set by a download: the status is unknown.\<close>

theorem cached_list_is_ignored:
  assumes "rv_query env < 0" and "rv_crls env = [url]" and "rv_download env url = Some (Some c)"
    and "rv_trust env c" and "0 < rv_revoked_by env c"
    and "fc_verify_cache fc (rv_cn env) = None" and "fc_crl_cache fc url = None"
    and "sc_target_cert x" and "sc_target_issuer x"
    and "certificate_status_ocsp_check env fc x = (r1, fc1, x1)"
    and "certificate_status_ocsp_check env fc1 y = (r2, fc2, y1)"
    and "sc_target_cert y" and "sc_target_issuer y" and "\<not> verify_bitcheck VRF_REVOKED y"
  shows "0 < r1 \<and> verify_bitcheck VRF_REVOKED x1 \<and> r2 = - 1 \<and> \<not> verify_bitcheck VRF_REVOKED y1"
proof -
  have "ocsp_lookup env fc = (rv_revoked_by env c, CRL, fc\<lparr>fc_verify_cache := (fc_verify_cache fc)(rv_cn env \<mapsto> rv_query env),
      fc_crl_cache := (fc_crl_cache fc)(url \<mapsto> Some c)\<rparr>)"
    using assms(1-7) by (simp add: ocsp_lookup_def crl_answer_def Let_def)
  then have 1: "r1 = rv_revoked_by env c" "fc1 = fc\<lparr>fc_verify_cache := (fc_verify_cache fc)(rv_cn env \<mapsto> rv_query env),
      fc_crl_cache := (fc_crl_cache fc)(url \<mapsto> Some c)\<rparr>"
    using assms(8-10) by (auto simp: certificate_status_ocsp_check_def Let_def)
  then have "ocsp_lookup env fc1 = (- 1, CRL_CACHE, fc1)"
    using assms(1,2) by (simp add: ocsp_lookup_def crl_answer_def Let_def)
  then have 2: "r2 = - 1" using assms(11-13) by (auto simp: certificate_status_ocsp_check_def Let_def)
  have vb: "verify_bitcheck VRF_REVOKED z \<longleftrightarrow> bit (sc_verify z) 5" for z
    by (auto simp: verify_bitcheck_def eq_zero_bits bit_and_iff)
  show ?thesis
    using ocsp_check_bits(2) [OF assms(10)] ocsp_check_bits(2) [OF assms(11)] 1 2 assms(5,14) vb by simp
qed

section \<open>Examples\<close>

definition demo_opts :: tls_opts where
  "demo_opts = \<lparr>allow_unknown_issuer = False, allow_self_signed_chain = False, allow_not_valid = False,
     allow_self_signed = False, failed_check_replacement = False, client_cert_action = 1, stapling_mode = 0,
     alpn_block = False, no_tickets = False\<rparr>"

definition demo_tls :: sslcom where
  "demo_tls = \<lparr>sc_fd = 7, sc_dgram = False, sc_ssl = True, sc_ret = 0, sc_waiting = True, sc_fatal = False, sc_server = False,
     sc_read_blocked_on_write = False, sc_write_blocked_on_read = False, sc_write_blocked_on_write = False,
     sc_auto_upgrade = True, sc_upgraded = False, sc_hello_received = False, sc_hello = demo_state [] [],
     sc_filters = None, sc_filter_matched = False, sc_status = False, sc_bypass = False, sc_opt = demo_opts,
     sc_enforce_in_verify = False, sc_verify = VRF_NOTTESTED, sc_origin = ORIGIN_NONE, sc_extended_sha1 = 0,
     sc_ocsp_revoked = -1, sc_target_cert = True, sc_target_issuer = True, sc_want_read_cnt = 0, sc_want_write_cnt = 0,
     sc_read_want_read = 0, sc_read_want_write = 0, sc_write_want_read = 0, sc_write_want_write = 0,
     sc_forced_read = False, sc_forced_write = False, sc_forced_read_on_write = False, sc_forced_write_on_read = False,
     sc_error_flag = ERROR_NONE, sc_reused = False, sc_log = []\<rparr>"

definition demo_staple :: "bool option \<Rightarrow> stapling" where
  "demo_staple s = \<lparr>st_body = True, st_parsed = True, st_successful = True, st_basic = True, st_verified = True,
     st_id = True, st_found = True, st_in_time = True, st_status = s\<rparr>"

definition demo_rev :: "unit revocation_env" where
  "demo_rev = \<lparr>rv_cn = ''cn'', rv_query = - 1, rv_crls = [''u''], rv_download = (\<lambda>_. Some (Some ())),
     rv_trust = (\<lambda>_. True), rv_revoked_by = (\<lambda>_. 1)\<rparr>"

definition demo_factory :: "unit factory" where
  "demo_factory = \<lparr>fc_verify_cache = Map.empty, fc_crl_cache = Map.empty\<rparr>"

theorem failed_chain_is_not_verified_witness:
  "\<exists>x1 r2 fc' x2. ssl_client_vrfy_callback 0 X509_V_ERR_CERT_HAS_EXPIRED 0 True False (Some demo_tls) = (0, Some x1) \<and>
     status_resp_callback (demo_staple (Some True)) demo_rev demo_factory x1 = (r2, fc', x2) \<and> r2 = 0 \<and>
     \<not> verify_bitcheck VRF_OK x2"
proof -
  have p: "vrfy_problem X509_V_ERR_CERT_HAS_EXPIRED (sc_opt demo_tls) = Some (VRF_INVALID, False)"
    by (simp add: vrfy_problem_def demo_tls_def demo_opts_def)
  have c: "\<not> verify_bitcheck VRF_CLIENT_CERT_RQ demo_tls"
    by (simp add: verify_bitcheck_def demo_tls_def)
  obtain r1 x1 where v: "ssl_client_vrfy_callback 0 X509_V_ERR_CERT_HAS_EXPIRED 0 True False (Some demo_tls) = (r1, Some x1)"
    using vrfy_callback_some [OF _ p] by (metis surj_pair)
  obtain r2 fc' x2 where s: "status_resp_callback (demo_staple (Some True)) demo_rev demo_factory x1 = (r2, fc', x2)"
    by (metis prod_cases3)
  from failed_chain_is_not_verified [OF p c v s] show ?thesis
    using v s by (auto simp: demo_tls_def demo_opts_def)
qed

theorem client_cert_request_hides_failure_witness:
  "\<exists>r fc' x'. status_resp_callback (demo_staple (Some True)) demo_rev demo_factory
       (verify_bitset VRF_CLIENT_CERT_RQ (verify_bitset VRF_INVALID demo_tls)) = (r, fc', x') \<and> r = 1 \<and>
     verify_bitcheck VRF_OK x' \<and> verify_bitcheck VRF_INVALID x'"
proof -
  let ?x = "verify_bitset VRF_CLIENT_CERT_RQ (verify_bitset VRF_INVALID demo_tls)"
  have b: "verify_bitcheck VRF_CLIENT_CERT_RQ ?x" "verify_bitcheck VRF_INVALID ?x"
    by (auto simp: verify_bitcheck_def eq_zero_bits bit_and_iff bit_or_iff)
  have t: "sc_target_cert ?x" "sc_target_issuer ?x" by (simp_all add: demo_tls_def)
  have c: "check_revocation_stapling (demo_staple (Some True)) ?x = (STAPLE_SUCCESS, Some True, ?x)"
    by (simp add: check_revocation_stapling_def demo_staple_def)
  obtain r fc' x' where s: "status_resp_callback (demo_staple (Some True)) demo_rev demo_factory ?x = (r, fc', x')"
    by (metis prod_cases3)
  from client_cert_request_hides_failure [OF b(1) t c s] b(2) s show ?thesis by blast
qed

theorem revoked_is_refused_witness:
  "\<exists>r fc' x'. status_resp_callback (demo_staple (Some False)) demo_rev demo_factory demo_tls = (r, fc', x') \<and>
     verify_bitcheck VRF_REVOKED x' \<and> \<not> verify_bitcheck VRF_OK x' \<and> r = 0"
proof -
  obtain r fc' x' where s: "status_resp_callback (demo_staple (Some False)) demo_rev demo_factory demo_tls = (r, fc', x')"
    by (metis prod_cases3)
  have n: "\<not> verify_bitcheck VRF_REVOKED demo_tls"
    by (simp add: verify_bitcheck_def demo_tls_def vrf_bits)
  have "flag_reset (flag_reset (flag_reset (sc_verify demo_tls) VRF_NOTTESTED) VRF_DEFERRED) VRF_OK = 0"
    by (simp add: eq_zero_bits demo_tls_def)
  moreover have "check_revocation_stapling (demo_staple (Some False)) y = (STAPLE_SUCCESS, Some False, y)" for y
    by (simp add: check_revocation_stapling_def demo_staple_def)
  moreover have "sc_target_cert demo_tls" "sc_target_issuer demo_tls" by (simp_all add: demo_tls_def)
  ultimately have "sc_verify x' = flag_reset (flag_reset (sc_verify demo_tls) VRF_NOTTESTED) VRF_OK OR VRF_REVOKED"
    using s by (auto simp: status_resp_callback_def Let_def)
  then have "verify_bitcheck VRF_REVOKED x'"
    by (auto simp: verify_bitcheck_def eq_zero_bits bit_and_iff bit_or_iff)
  from revoked_is_refused [OF s n this] this s show ?thesis by (auto simp: demo_tls_def demo_opts_def)
qed

theorem cached_list_is_ignored_witness:
  "\<exists>r1 fc1 x1 r2 fc2 x2. certificate_status_ocsp_check demo_rev demo_factory demo_tls = (r1, fc1, x1) \<and>
     certificate_status_ocsp_check demo_rev fc1 demo_tls = (r2, fc2, x2) \<and> 0 < r1 \<and> r2 = - 1"
proof -
  obtain r1 fc1 x1 where 1: "certificate_status_ocsp_check demo_rev demo_factory demo_tls = (r1, fc1, x1)"
    by (metis prod_cases3)
  obtain r2 fc2 x2 where 2: "certificate_status_ocsp_check demo_rev fc1 demo_tls = (r2, fc2, x2)"
    by (metis prod_cases3)
  have "0 < r1 \<and> verify_bitcheck VRF_REVOKED x1 \<and> r2 = - 1 \<and> \<not> verify_bitcheck VRF_REVOKED x2"
    by (rule cached_list_is_ignored [OF _ _ _ _ _ _ _ _ _ 1 2, of "''u''" "()"])
       (simp_all add: demo_rev_def demo_factory_def demo_tls_def verify_bitcheck_def vrf_bits)
  with 1 2 show ?thesis by blast
qed

end
