(* ===== verification/Certval.thy ===== *)
theory Certval
  imports Sslcom
begin

text \<open>
  Certificate validation: \<^verbatim>\<open>sslcertval.cpp\<close> and \<^verbatim>\<open>sslcertval.hpp\<close>, as compiled for OpenSSL 1.1 and later.

  Revocation lists, OCSP responses, the blocking OCSP query and \<^verbatim>\<open>OcspQuery\<close>, the same query as a state
  machine that is run until it returns false. What OpenSSL answers (signatures, parsed entries, the
  progress of a connection) are fields of the environment records; loops that wait for the network run
  over the list of these answers. The pointer to the connection is one of the states \<open>bio\<close>, so that a
  use after free would show. \<open>crl_env\<close> puts the routines for revocation lists into the out-of-band check
  of \<open>Sslcom\<close>.

  Shown: the verdict of a response is that of the entry for the certificate, if no entry follows it;
  the last responder decides; a query that meets no obstacle delivers the verdict in one run. Of the
  other paths it is shown that a revocation list never makes a certificate revoked, that entries for
  other certificates and expired ones are believed, and that a query never ends after a connection
  timeout or without a usable responder.
\<close>

type_synonym str = "byte list"

section \<open>Revocation lists\<close>

text \<open>What OpenSSL says of a list: whether its signature verifies with the issuer's key, and whether it has an
  entry for the serial number; and the outcome of \<^verbatim>\<open>X509_verify_cert\<close> with the list in the store.\<close>

record crl =
  cl_signed :: bool
  cl_entry :: bool
  cl_store :: bool
  cl_ctx :: bool
  cl_verify_cert :: int

text \<open>An entry found is printed; the result stays 0.\<close>

definition crl_is_revoked_by :: "bool \<Rightarrow> bool \<Rightarrow> crl option \<Rightarrow> int" where
  "crl_is_revoked_by issuer ikey c =
     (if issuer then
        (case c of
           Some c \<Rightarrow>
             if ikey \<and> cl_signed c then
               let is_revoked = 0 in if cl_entry c then is_revoked else is_revoked
             else - 1
         | None \<Rightarrow> - 1)
      else - 1)"

definition crl_verify_trust :: "crl \<Rightarrow> int" where
  "crl_verify_trust c = (if \<not> cl_store c then 0 else if cl_ctx c then cl_verify_cert c else 0)"

text \<open>Distribution points: a general name that is not a URI is read as if it were one.\<close>

datatype dist_name = URI str | Not_URI

datatype dist_point = No_name | Fullname "dist_name list" | Relativename "str list"

fun uris :: "dist_name list \<Rightarrow> str list result" where
  "uris [] = ok []"
| "uris (URI u # ns) = (case uris ns of Inl e \<Rightarrow> Inl e | Inr us \<Rightarrow> ok (u # us))"
| "uris (Not_URI # ns) = raise Undefined_behaviour"

fun crl_urls :: "dist_point list \<Rightarrow> str list result" where
  "crl_urls [] = ok []"
| "crl_urls (No_name # ds) = raise Undefined_behaviour"
| "crl_urls (Fullname ns # ds) =
     (case uris ns of
        Inl e \<Rightarrow> Inl e
      | Inr us \<Rightarrow> (case crl_urls ds of Inl e \<Rightarrow> Inl e | Inr vs \<Rightarrow> ok (us @ vs)))"
| "crl_urls (Relativename us # ds) = (case crl_urls ds of Inl e \<Rightarrow> Inl e | Inr vs \<Rightarrow> ok (us @ vs))"

section \<open>OCSP\<close>

text \<open>The vector is made with the final length and then appended to. The number of elements of a missing stack is
  -1, as a size: the vector cannot be made.\<close>

definition ocsp_urls :: "str list option \<Rightarrow> str list result" where
  "ocsp_urls l = (case l of None \<Rightarrow> raise Out_of_range | Some us \<Rightarrow> ok (replicate (length us) [] @ us))"

record request_env =
  rq_new :: bool
  rq_cert_id :: bool
  rq_push :: bool
  rq_add_id :: bool

definition ocsp_prepare_request :: "request_env \<Rightarrow> bool \<Rightarrow> bool \<Rightarrow> int \<times> bool" where
  "ocsp_prepare_request env issuer req =
     (if \<not> issuer then (0, req)
      else
        let req = (req \<or> rq_new env)
        in if \<not> req then (0, req)
           else if \<not> rq_cert_id env \<or> \<not> rq_push env then (0, req)
           else if \<not> rq_add_id env then (0, req)
           else (1, req))"

text \<open>The blocking query. A round of its loop: what \<^verbatim>\<open>OCSP_sendreq_nbio\<close> returns, what the connection waits
  for, and what the poller says.\<close>

record query_round =
  qr_send :: int
  qr_read :: bool
  qr_write :: bool
  qr_wait :: int

fun send_loop :: "int \<Rightarrow> 'r \<Rightarrow> query_round list \<Rightarrow> 'r option option" where
  "send_loop timeout rsp [] = None"
| "send_loop timeout rsp (q # qs) =
     (if qr_send q \<noteq> - 1 then Some (if qr_send q = 1 then Some rsp else None)
      else if timeout = - 1 then send_loop timeout rsp qs
      else if \<not> qr_read q \<and> \<not> qr_write q then Some None
      else if qr_wait q = 0 \<or> qr_wait q = - 1 then Some None
      else send_loop timeout rsp qs)"

record responder_env =
  re_connect :: int
  re_retry :: bool
  re_epoll :: bool
  re_fd :: bool
  re_wait :: int
  re_ctx :: bool
  re_header :: bool
  re_req :: bool

definition ocsp_query_responder :: "responder_env \<Rightarrow> int \<Rightarrow> 'r \<Rightarrow> query_round list \<Rightarrow> 'r option option" where
  "ocsp_query_responder env timeout rsp qs =
     (if re_connect env \<le> 0 \<and> (timeout = - 1 \<or> \<not> re_retry env) then Some None
      else if \<not> re_epoll env \<or> \<not> re_fd env then Some None
      else if timeout \<noteq> - 1 \<and> re_connect env \<le> 0 \<and> re_wait env \<le> 0 then Some None
      else if \<not> re_ctx env \<or> \<not> re_header env \<or> \<not> re_req env then Some None
      else send_loop timeout rsp qs)"

definition ocsp_send_request :: "responder_env \<Rightarrow> bool \<Rightarrow> bool \<Rightarrow> int \<Rightarrow> 'r \<Rightarrow> query_round list \<Rightarrow> 'r option option" where
  "ocsp_send_request env cbio use_ssl timeout rsp qs =
     (if cbio \<and> \<not> use_ssl then ocsp_query_responder env timeout rsp qs else Some None)"

datatype certstatus = REVOKED | GOOD | UNKNOWN | OTHER_STATUS

text \<open>One entry of a response. \<open>sr_diff\<close> is what \<^verbatim>\<open>ASN1_TIME_diff\<close> gives for the time of the next update: days
  and seconds from now, negative when it is over; nothing if the time cannot be read.\<close>

record single_response =
  sr_match :: bool
  sr_status :: certstatus
  sr_diff :: "(int \<times> int) option"

record ocsp_response =
  or_basic :: bool
  or_verify :: int
  or_singles :: "single_response list"

record verify_status =
  vs_revoked :: int
  vs_ttl :: int

fun single_loop :: "single_response list \<Rightarrow> bool \<Rightarrow> verify_status \<Rightarrow> bool \<times> verify_status" where
  "single_loop [] matching_ids v = (matching_ids, v)"
| "single_loop (s # ss) matching_ids v =
     (let matching_ids = (if sr_match s then True else matching_ids)
      in if \<not> matching_ids then single_loop ss matching_ids v
         else
           let v = (case sr_status s of REVOKED \<Rightarrow> v\<lparr>vs_revoked := 1\<rparr> | GOOD \<Rightarrow> v\<lparr>vs_revoked := 0\<rparr> | _ \<Rightarrow> v);
               v = (case sr_diff s of
                      Some (days, secs) \<Rightarrow> v\<lparr>vs_ttl := days * 24 * 60 * 60 + secs\<rparr>
                    | None \<Rightarrow> v\<lparr>vs_revoked := 1\<rparr>)
           in single_loop ss matching_ids v)"

definition ocsp_verify_response :: "ocsp_response \<Rightarrow> verify_status" where
  "ocsp_verify_response r =
     (let v = \<lparr>vs_revoked = - 1, vs_ttl = 60\<rparr>
      in if \<not> or_basic r then v
         else if or_verify r \<le> 0 then v
         else
           let (m, v) = single_loop (or_singles r) False v
           in if m then v else v\<lparr>vs_revoked := - 1\<rparr>)"

text \<open>One url of the certificate: whether it can be parsed and names a plain HTTP responder, and the response
  that was received with its status, if there was one.\<close>

record url_answer =
  ua_parsed :: bool
  ua_ssl :: bool
  ua_response :: "(bool \<times> ocsp_response) option"

text \<open>\<open>is_revoked\<close> is the loop's own variable, which nothing changes.\<close>

fun check_loop :: "url_answer list \<Rightarrow> int \<Rightarrow> verify_status \<Rightarrow> verify_status" where
  "check_loop [] is_revoked ret = ret"
| "check_loop (u # us) is_revoked ret =
     (if is_revoked \<noteq> - 1 then ret
      else
        check_loop us is_revoked
          (if ua_parsed u \<and> \<not> ua_ssl u then
             (case ua_response u of
                Some (successful, r) \<Rightarrow> if successful then ocsp_verify_response r else ret
              | None \<Rightarrow> ret)
           else ret))"

definition ocsp_check_cert :: "bool \<Rightarrow> url_answer list \<Rightarrow> verify_status" where
  "ocsp_check_cert issuer us =
     (let ret = \<lparr>vs_revoked = - 1, vs_ttl = 60\<rparr> in if issuer then check_loop us (- 1) ret else ret)"

section \<open>The query as a state machine\<close>

datatype oq_state_t = ST_INIT | ST_CONNECTING | ST_CONNECTED | ST_REQ_INPROGRESS | ST_REQ_SENT | ST_RESP_RECEIVED | ST_FINISHED
  | ST_CLOSED

datatype oq_yield_t = RET_CONNFAIL | RET_UNKNOWN | RET_REVOKED | RET_VALID | RET_UNKNOWNSTATUS | RET_NOOCSP_TARGETS

text \<open>The connection: not there, open, or freed with the pointer still set.\<close>

datatype bio = Null | Open | Freed

record target =
  tg_host :: str
  tg_port :: str
  tg_path :: str
  tg_ssl :: bool

record ocsp_query =
  oq_state :: oq_state_t
  oq_yield :: oq_yield_t
  oq_bio :: bio
  oq_targets :: "target list"
  oq_index :: int
  oq_current :: "target option"
  oq_timer :: int
  oq_resp :: "ocsp_response option"

definition timeout_connect :: int where "timeout_connect = 2"

definition timeout_request :: int where "timeout_request = 5"

record query_env =
  qe_now :: int
  qe_urls :: "target option list"
  qe_new_connect :: "target \<Rightarrow> bool"
  qe_connect :: int
  qe_retry :: bool
  qe_read :: bool
  qe_write :: bool
  qe_ctx :: bool
  qe_headers :: bool
  qe_set_req :: bool
  qe_send :: int
  qe_response :: ocsp_response

definition new_query :: "int \<Rightarrow> ocsp_query" where
  "new_query now = \<lparr>oq_state = ST_INIT, oq_yield = RET_UNKNOWN, oq_bio = Null, oq_targets = [], oq_index = - 1,
     oq_current = None, oq_timer = now, oq_resp = None\<rparr>"

definition parse_cert :: "query_env \<Rightarrow> ocsp_query \<Rightarrow> ocsp_query" where
  "parse_cert env q = q\<lparr>oq_targets := oq_targets q @ concat (map (\<lambda>u. case u of None \<Rightarrow> [] | Some t \<Rightarrow> [t]) (qe_urls env))\<rparr>"

definition do_init :: "query_env \<Rightarrow> ocsp_query \<Rightarrow> bool \<times> ocsp_query" where
  "do_init env q =
     (let q = parse_cert env q
      in if oq_targets q = [] then (False, q\<lparr>oq_state := ST_FINISHED, oq_yield := RET_NOOCSP_TARGETS\<rparr>) else (True, q))"

definition free_bio :: "ocsp_query \<Rightarrow> ocsp_query result" where
  "free_bio q =
     (case oq_bio q of Null \<Rightarrow> ok q | Open \<Rightarrow> ok (q\<lparr>oq_bio := Freed\<rparr>) | Freed \<Rightarrow> raise Undefined_behaviour)"

fun target_loop :: "query_env \<Rightarrow> target list \<Rightarrow> int \<Rightarrow> ocsp_query \<Rightarrow> ocsp_query result" where
  "target_loop env [] skp q = ok q"
| "target_loop env (t # ts) skp q =
     (let q = q\<lparr>oq_index := oq_index q + 1\<rparr>
      in if 0 < skp then target_loop env ts (skp - 1) q
         else
           (case free_bio (q\<lparr>oq_timer := qe_now env\<rparr>) of
              Inl e \<Rightarrow> Inl e
            | Inr q \<Rightarrow>
                let q = q\<lparr>oq_current := Some t\<rparr>
                in if tg_ssl t then target_loop env ts skp q
                   else if qe_new_connect env t then ok (q\<lparr>oq_bio := Open, oq_state := ST_CONNECTING\<rparr>)
                   else target_loop env ts skp (q\<lparr>oq_bio := Null\<rparr>)))"

definition do_prepare_target :: "query_env \<Rightarrow> ocsp_query \<Rightarrow> (bool \<times> ocsp_query) result" where
  "do_prepare_target env q =
     (let skp = (if 0 \<le> oq_index q then oq_index q else 0)
      in case target_loop env (oq_targets q) skp (q\<lparr>oq_index := - 1\<rparr>) of
           Inl e \<Rightarrow> Inl e
         | Inr q \<Rightarrow> ok (oq_bio q \<noteq> Null, q))"

definition do_connect :: "query_env \<Rightarrow> ocsp_query \<Rightarrow> (bool \<times> ocsp_query) result" where
  "do_connect env q =
     (case (if oq_bio q = Null then do_prepare_target env q else ok (True, q)) of
        Inl e \<Rightarrow> Inl e
      | Inr (False, q) \<Rightarrow> ok (True, q\<lparr>oq_state := ST_FINISHED, oq_yield := RET_NOOCSP_TARGETS\<rparr>)
      | Inr (True, q) \<Rightarrow>
          if oq_bio q = Freed then raise Undefined_behaviour
          else if qe_connect env \<le> 0 then
            if qe_retry env then
              if timeout_connect < qe_now env - oq_timer q
              then ok (False, q\<lparr>oq_bio := Null, oq_index := oq_index q + 1, oq_state := ST_CLOSED, oq_yield := RET_CONNFAIL\<rparr>)
              else ok (False, q)
            else ok (oq_state q = ST_CONNECTED, q)
          else ok (True, q\<lparr>oq_timer := qe_now env, oq_state := ST_CONNECTED\<rparr>))"

definition send_failed :: "ocsp_query \<Rightarrow> (bool \<times> ocsp_query) result" where
  "send_failed q =
     (case free_bio q of
        Inl e \<Rightarrow> Inl e
      | Inr q \<Rightarrow> ok (False, q\<lparr>oq_bio := Null, oq_state := ST_CONNECTING, oq_index := oq_index q + 1\<rparr>))"

definition send_in_progress :: "query_env \<Rightarrow> ocsp_query \<Rightarrow> (bool \<times> ocsp_query) result" where
  "send_in_progress env q =
     (if qe_send env = - 1 then
        if timeout_request < qe_now env - oq_timer q then send_failed q
        else if oq_bio q = Null then raise Undefined_behaviour
        else if \<not> qe_read env \<and> \<not> qe_write env then send_failed q
        else ok (False, q)
      else if qe_send env = 1 then ok (True, q\<lparr>oq_state := ST_RESP_RECEIVED, oq_resp := Some (qe_response env)\<rparr>)
      else ok (False, q))"

definition do_send_request :: "query_env \<Rightarrow> ocsp_query \<Rightarrow> (bool \<times> ocsp_query) result" where
  "do_send_request env q =
     (case oq_state q of
        ST_CONNECTED \<Rightarrow>
          if \<not> qe_ctx env \<or> \<not> qe_headers env \<or> \<not> qe_set_req env then send_failed q
          else send_in_progress env (q\<lparr>oq_state := ST_REQ_INPROGRESS\<rparr>)
      | ST_REQ_INPROGRESS \<Rightarrow> send_in_progress env q
      | _ \<Rightarrow> ok (False, q))"

definition do_process_response :: "ocsp_query \<Rightarrow> bool \<times> ocsp_query" where
  "do_process_response q =
     (let q = q\<lparr>oq_state := ST_FINISHED\<rparr>
      in case oq_resp q of
           None \<Rightarrow> (False, q\<lparr>oq_yield := RET_UNKNOWN\<rparr>)
         | Some r \<Rightarrow>
             let v = vs_revoked (ocsp_verify_response r)
             in (True, q\<lparr>oq_yield := (if v = - 1 then RET_UNKNOWN else if v = 0 then RET_VALID else if v = 1 then RET_REVOKED
                                      else RET_UNKNOWNSTATUS)\<rparr>))"

definition run_send :: "query_env \<Rightarrow> ocsp_query \<Rightarrow> (bool \<times> ocsp_query) result" where
  "run_send env q =
     (case do_send_request env q of
        Inl e \<Rightarrow> Inl e
      | Inr (False, q) \<Rightarrow> ok (True, q)
      | Inr (True, q) \<Rightarrow> ok (False, snd (do_process_response (q\<lparr>oq_state := ST_REQ_SENT\<rparr>))))"

definition run_connect :: "query_env \<Rightarrow> ocsp_query \<Rightarrow> (bool \<times> ocsp_query) result" where
  "run_connect env q =
     (case do_connect env q of
        Inl e \<Rightarrow> Inl e
      | Inr (False, q) \<Rightarrow> ok (oq_state q \<noteq> ST_CONNECTING, q)
      | Inr (True, q) \<Rightarrow> run_send env (q\<lparr>oq_state := ST_CONNECTED\<rparr>))"

definition query_run :: "query_env \<Rightarrow> ocsp_query \<Rightarrow> (bool \<times> ocsp_query) result" where
  "query_run env q =
     (case oq_state q of
        ST_INIT \<Rightarrow> run_connect env (snd (do_init env q))
      | ST_CONNECTING \<Rightarrow> run_connect env q
      | ST_CONNECTED \<Rightarrow> run_send env q
      | ST_REQ_INPROGRESS \<Rightarrow> run_send env q
      | ST_RESP_RECEIVED \<Rightarrow> ok (False, snd (do_process_response q))
      | ST_FINISHED \<Rightarrow> ok (False, q)
      | _ \<Rightarrow> ok (True, q))"

section \<open>Revocation lists revoke nothing\<close>

lemma crl_never_revokes: "crl_is_revoked_by issuer ikey c \<le> 0"
  by (simp add: crl_is_revoked_by_def split: option.splits)

text \<open>The out-of-band check of \<open>Sslcom\<close> with these routines.\<close>

definition crl_env :: "bool \<Rightarrow> crl revocation_env \<Rightarrow> crl revocation_env" where
  "crl_env ikey env = env\<lparr>rv_trust := (\<lambda>c. crl_verify_trust c \<noteq> 0), rv_revoked_by := (\<lambda>c. crl_is_revoked_by True ikey (Some c))\<rparr>"

lemma crl_loop_never_revokes:
  assumes "res \<le> 0"
  shows "fst (crl_loop (crl_env ikey env) urls c (res, origin, fc)) \<le> 0"
  using assms
proof (induction urls arbitrary: c res origin fc)
  case (Cons url urls)
  have a: "crl_answer (crl_env ikey env) d \<le> 0" for d
    using crl_never_revokes by (auto simp: crl_answer_def crl_env_def split: option.splits)
  define p where "p = (case fc_crl_cache fc url of
           Some _ \<Rightarrow> (c, CRL_CACHE, fc)
         | None \<Rightarrow>
             (case rv_download (crl_env ikey env) url of
                None \<Rightarrow> (c, origin, fc\<lparr>fc_crl_cache := (fc_crl_cache fc)(url := Some None)\<rparr>)
              | Some None \<Rightarrow> (None, origin, fc)
              | Some (Some c) \<Rightarrow> (Some c, origin, fc\<lparr>fc_crl_cache := (fc_crl_cache fc)(url := Some (Some c))\<rparr>)))"
  obtain c1 o1 f1 where p: "p = (c1, o1, f1)" by (cases p) auto
  have "crl_loop (crl_env ikey env) (url # urls) c (res, origin, fc) =
      (let r = crl_answer (crl_env ikey env) c1
       in if 0 \<le> r then (r, CRL, f1) else crl_loop (crl_env ikey env) urls c1 (r, o1, f1))"
    unfolding crl_loop.simps p_def [symmetric] p by simp
  then show ?case using a [of c1] Cons.IH [OF a] by (simp add: Let_def)
qed simp

text \<open>C25: The check by OCSP and revocation lists, with the routines of this file: unless the OCSP
  responder (or its cached answer) says revoked, the result is never revoked, even if a trusted list
  that is downloaded has an entry for the certificate.\<close>

theorem no_list_ever_revokes:
  assumes "rv_query env \<le> 0" and "\<And>r. fc_verify_cache fc (rv_cn env) = Some r \<Longrightarrow> r \<le> 0"
    and "\<not> verify_bitcheck VRF_REVOKED x"
    and "certificate_status_ocsp_check (crl_env ikey env) fc x = (r, fc', x')"
  shows "r \<le> 0 \<and> \<not> verify_bitcheck VRF_REVOKED x'"
proof -
  have e: "rv_query (crl_env ikey env) = rv_query env" "rv_cn (crl_env ikey env) = rv_cn env" by (simp_all add: crl_env_def)
  have "fst (ocsp_lookup (crl_env ikey env) fc) \<le> 0"
    using crl_loop_never_revokes assms(1,2) unfolding ocsp_lookup_def
    by (auto simp: Let_def e split: option.splits)
  then have r: "r \<le> 0"
    using assms(4) by (auto simp: certificate_status_ocsp_check_def Let_def split: if_splits prod.splits)
  have vb: "verify_bitcheck VRF_REVOKED z \<longleftrightarrow> bit (sc_verify z) 5" for z
    by (auto simp: verify_bitcheck_def eq_zero_bits bit_and_iff)
  show ?thesis using ocsp_check_bits(2) [OF assms(4)] r assms(3) vb by simp
qed

section \<open>Responses\<close>

lemma single_loop_append:
  "single_loop (ss @ ts) m v = (case single_loop ss m v of (m, v) \<Rightarrow> single_loop ts m v)"
  by (induction ss m v rule: single_loop.induct) (simp_all add: Let_def)

lemma single_loop_skips: "\<forall>s \<in> set ss. \<not> sr_match s \<Longrightarrow> single_loop ss False v = (False, v)"
  by (induction ss) simp_all

definition entry_verdict :: "single_response \<Rightarrow> int \<Rightarrow> int" where
  "entry_verdict s old = (if sr_diff s = None \<or> sr_status s = REVOKED then 1 else if sr_status s = GOOD then 0 else old)"

lemma single_loop_last: "single_loop [s] True v = (True, snd (single_loop [s] True v)) \<and>
    vs_revoked (snd (single_loop [s] True v)) = entry_verdict s (vs_revoked v)"
  by (cases s; auto simp: entry_verdict_def Let_def split: certstatus.splits option.splits)

text \<open>If the last entry of a verified response is the only one for the certificate, the
  verdict is that entry's: revoked, good or unknown, and revoked if its time cannot be read.\<close>

theorem response_verdict:
  assumes "or_basic r" and "0 < or_verify r" and "or_singles r = ss @ [s]" and "\<forall>x \<in> set ss. \<not> sr_match x" and "sr_match s"
  shows "vs_revoked (ocsp_verify_response r) = entry_verdict s (- 1)"
proof -
  let ?v = "\<lparr>vs_revoked = - 1, vs_ttl = 60\<rparr>"
  have "single_loop (or_singles r) False ?v = single_loop [s] True ?v"
    using assms(3-5) by (simp add: single_loop_append single_loop_skips)
  then show ?thesis using assms(1,2) single_loop_last [of s ?v] by (simp add: ocsp_verify_response_def Let_def split: prod.splits)
qed

text \<open>An entry for another certificate that follows the entry for this one is taken as well: a
  revoked certificate is reported as good.\<close>

theorem other_entry_overrides:
  assumes "or_basic r" and "0 < or_verify r" and "or_singles r = [s, other]" and "sr_match s" and "sr_status s = REVOKED"
    and "\<not> sr_match other" and "sr_status other = GOOD" and "sr_diff other = Some d"
  shows "vs_revoked (ocsp_verify_response r) = 0"
  using assms by (cases d) (auto simp: ocsp_verify_response_def Let_def split: option.splits)

text \<open>A response whose next update lies in the past is believed: the code tests whether the
  difference of times could be computed, not its sign. The time to live is negative.\<close>

theorem expired_response_is_good:
  assumes "or_basic r" and "0 < or_verify r" and "or_singles r = [s]" and "sr_match s" and "sr_status s = GOOD"
    and "sr_diff s = Some (days, secs)" and "days < 0" and "secs \<le> 0"
  shows "vs_revoked (ocsp_verify_response r) = 0 \<and> vs_ttl (ocsp_verify_response r) < 0"
  using assms by (simp add: ocsp_verify_response_def Let_def)

text \<open>Every responder is asked and the last one that answers decides.\<close>

definition answers :: "url_answer list \<Rightarrow> ocsp_response list" where
  "answers us = concat (map (\<lambda>u. if ua_parsed u \<and> \<not> ua_ssl u then (case ua_response u of Some (True, r) \<Rightarrow> [r] | _ \<Rightarrow> []) else []) us)"

lemma check_loop_eq: "check_loop us (- 1) ret = (if answers us = [] then ret else ocsp_verify_response (last (answers us)))"
proof (induction us arbitrary: ret)
  case Nil
  show ?case by (simp add: answers_def)
next
  case (Cons u us)
  have c: "answers (u # us) = (if ua_parsed u \<and> \<not> ua_ssl u then (case ua_response u of Some (True, r) \<Rightarrow> [r] | _ \<Rightarrow> []) else []) @ answers us"
    by (simp add: answers_def)
  show ?case unfolding c by (auto simp: Cons.IH split: option.splits prod.splits)
qed

text \<open>With several responders all are asked, and the last one with a successful response
  decides, whatever the others said.\<close>

theorem last_responder_decides:
  assumes "answers us \<noteq> []"
  shows "ocsp_check_cert True us = ocsp_verify_response (last (answers us))"
  using assms by (simp add: ocsp_check_cert_def check_loop_eq)

text \<open>The list of OCSP addresses has an empty string for every address in front.\<close>

theorem ocsp_urls_doubled: "ocsp_urls (Some us) = ok vs \<Longrightarrow> length vs = 2 * length us \<and> drop (length us) vs = us"
  by (auto simp: ocsp_urls_def)

text \<open>The blocking query ends if it has a time limit and the poller answers at most \<open>n\<close> times.\<close>

text \<open>A blocking query with a time limit ends with the first round in which the request is
  done, the poller times out or fails, or there is nothing to wait for.\<close>

theorem send_loop_ends:
  assumes "timeout \<noteq> - 1" and "q \<in> set qs" and "qr_send q \<noteq> - 1 \<or> qr_wait q \<in> {0, - 1} \<or> (\<not> qr_read q \<and> \<not> qr_write q)"
  shows "send_loop timeout rsp qs \<noteq> None"
  using assms by (induction qs) auto

section \<open>Running a query\<close>

text \<open>The caller runs a query until it returns false.\<close>

fun drive :: "query_env list \<Rightarrow> ocsp_query \<Rightarrow> ocsp_query option result" where
  "drive [] q = ok None"
| "drive (e # es) q =
     (case query_run e q of
        Inl x \<Rightarrow> Inl x
      | Inr (True, q) \<Rightarrow> drive es q
      | Inr (False, q) \<Rightarrow> ok (Some q))"

definition yield_of :: "int \<Rightarrow> oq_yield_t" where
  "yield_of v = (if v = - 1 then RET_UNKNOWN else if v = 0 then RET_VALID else if v = 1 then RET_REVOKED else RET_UNKNOWNSTATUS)"

text \<open>C17: If the first responder of the certificate can be used and nothing blocks, one run of a
  new query finishes with the verdict of the response.\<close>

theorem query_delivers_verdict:
  assumes "qe_urls env = Some t # us" and "\<not> tg_ssl t" and "qe_new_connect env t" and "0 < qe_connect env"
    and "qe_ctx env" and "qe_headers env" and "qe_set_req env" and "qe_send env = 1"
  shows "\<exists>q. query_run env (new_query now) = ok (False, q) \<and> oq_state q = ST_FINISHED \<and>
     oq_yield q = yield_of (vs_revoked (ocsp_verify_response (qe_response env)))"
proof -
  define q0 where "q0 = snd (do_init env (new_query now))"
  have q0: "oq_bio q0 = Null" "oq_index q0 = - 1" "\<exists>ts. oq_targets q0 = t # ts"
    using assms(1) by (auto simp: q0_def do_init_def parse_cert_def new_query_def Let_def)
  obtain ts where ts: "oq_targets q0 = t # ts" using q0(3) by blast
  define q1 where "q1 = q0\<lparr>oq_index := 0, oq_timer := qe_now env, oq_current := Some t, oq_bio := Open, oq_state := ST_CONNECTED\<rparr>"
  have "do_connect env q0 = ok (True, q1)"
    using q0(1,2) ts assms(2-4) by (simp add: do_connect_def do_prepare_target_def Let_def free_bio_def q1_def)
  then have "query_run env (new_query now) = run_send env q1"
    by (simp add: query_run_def new_query_def run_connect_def q0_def [unfolded new_query_def] q1_def)
  also have "\<dots> = ok (False, snd (do_process_response (q1\<lparr>oq_state := ST_RESP_RECEIVED, oq_resp := Some (qe_response env), oq_state := ST_REQ_SENT\<rparr>)))"
    using assms(5-8) by (simp add: run_send_def do_send_request_def send_in_progress_def q1_def)
  finally show ?thesis by (auto simp: do_process_response_def Let_def yield_of_def)
qed

lemma closed_is_stuck: "oq_state q = ST_CLOSED \<Longrightarrow> drive envs q = ok None"
  by (induction envs) (simp_all add: query_run_def)

text \<open>When a connection times out the query goes to a state that no run leaves: the other
  responders are not tried, and running it until it returns false does not end.\<close>

theorem connect_timeout_is_final:
  assumes "oq_state q = ST_CONNECTING" and "oq_bio q = Open" and "qe_connect env \<le> 0" and "qe_retry env"
    and "timeout_connect < qe_now env - oq_timer q"
  shows "\<exists>q'. query_run env q = ok (True, q') \<and> oq_targets q' = oq_targets q \<and> oq_yield q' = RET_CONNFAIL \<and> (\<forall>envs. drive envs q' = ok None)"
proof -
  let ?q = "q\<lparr>oq_bio := Null, oq_index := oq_index q + 1, oq_state := ST_CLOSED, oq_yield := RET_CONNFAIL\<rparr>"
  have "query_run env q = ok (True, ?q)" using assms by (simp add: query_run_def run_connect_def do_connect_def)
  then show ?thesis using closed_is_stuck [of ?q] by auto
qed

text \<open>A connection that fails at once is kept: every later run meets the same connection, and
  no other responder is tried.\<close>

theorem refused_connection_is_kept:
  assumes "oq_state q = ST_CONNECTING" and "oq_bio q = Open" and "qe_connect env \<le> 0" and "\<not> qe_retry env"
  shows "query_run env q = ok (False, q)"
  using assms by (simp add: query_run_def run_connect_def do_connect_def)

text \<open>No responder that can be used: none at all, or none but those over TLS.\<close>

definition hopeless :: "ocsp_query \<Rightarrow> bool" where
  "hopeless q \<longleftrightarrow> oq_bio q = Null \<and> (\<forall>t \<in> set (oq_targets q). tg_ssl t)"

lemma target_loop_hopeless:
  assumes "\<forall>t \<in> set ts. tg_ssl t" and "oq_bio q = Null"
  shows "\<exists>q'. target_loop env ts k q = ok q' \<and> oq_bio q' = Null \<and> oq_targets q' = oq_targets q"
  using assms
proof (induction ts arbitrary: k q)
  case (Cons t ts)
  show ?case
    using Cons.prems Cons.IH [of "q\<lparr>oq_index := oq_index q + 1\<rparr>" "k - 1"]
      Cons.IH [of "q\<lparr>oq_index := oq_index q + 1, oq_timer := qe_now env, oq_current := Some t\<rparr>" k]
    by (auto simp: Let_def free_bio_def)
qed simp

lemma connect_hopeless:
  assumes "hopeless q"
  shows "\<exists>q'. do_connect env q = ok (True, q') \<and> hopeless q'"
proof -
  obtain q' where "target_loop env (oq_targets q) (if 0 \<le> oq_index q then oq_index q else 0) (q\<lparr>oq_index := - 1\<rparr>) = ok q'"
      "oq_bio q' = Null" "oq_targets q' = oq_targets q"
    using target_loop_hopeless [of "oq_targets q" "q\<lparr>oq_index := - 1\<rparr>" env "if 0 \<le> oq_index q then oq_index q else 0"] assms
    by (auto simp: hopeless_def)
  then show ?thesis using assms by (auto simp: do_connect_def do_prepare_target_def hopeless_def Let_def)
qed

lemma send_failed_hopeless:
  assumes "hopeless q"
  shows "\<exists>q'. send_failed q = ok (False, q') \<and> hopeless q' \<and> oq_state q' = ST_CONNECTING"
  using assms by (simp add: send_failed_def free_bio_def hopeless_def)

lemma in_progress_hopeless:
  assumes "hopeless q" and "oq_state q = ST_REQ_INPROGRESS" and "qe_send env \<noteq> 1"
  shows "send_in_progress env q = raise Undefined_behaviour \<or>
    (\<exists>q'. send_in_progress env q = ok (False, q') \<and> hopeless q' \<and> oq_state q' \<in> {ST_CONNECTING, ST_REQ_INPROGRESS})"
  using assms send_failed_hopeless [OF assms(1)] by (simp add: send_in_progress_def hopeless_def) blast

lemma send_hopeless:
  assumes "hopeless q" and "oq_state q \<in> {ST_CONNECTED, ST_REQ_INPROGRESS}" and "qe_send env \<noteq> 1"
  shows "run_send env q = raise Undefined_behaviour \<or>
    (\<exists>q'. run_send env q = ok (True, q') \<and> hopeless q' \<and> oq_state q' \<in> {ST_CONNECTING, ST_REQ_INPROGRESS})"
proof -
  have h: "hopeless (q\<lparr>oq_state := ST_REQ_INPROGRESS\<rparr>)" using assms(1) by (simp add: hopeless_def)
  have "do_send_request env q = raise Undefined_behaviour \<or>
      (\<exists>q'. do_send_request env q = ok (False, q') \<and> hopeless q' \<and> oq_state q' \<in> {ST_CONNECTING, ST_REQ_INPROGRESS})"
  proof (cases "oq_state q = ST_CONNECTED")
    case True
    then show ?thesis
      using in_progress_hopeless [OF h _ assms(3)] send_failed_hopeless [OF assms(1)] by (simp add: do_send_request_def) blast
  next
    case False
    then show ?thesis using in_progress_hopeless [OF assms(1) _ assms(3)] assms(2) by (simp add: do_send_request_def)
  qed
  then show ?thesis by (auto simp: run_send_def)
qed

lemma run_hopeless:
  assumes "hopeless q" and "oq_state q \<in> {ST_CONNECTING, ST_REQ_INPROGRESS}" and "qe_send env \<noteq> 1"
  shows "query_run env q = raise Undefined_behaviour \<or>
    (\<exists>q'. query_run env q = ok (True, q') \<and> hopeless q' \<and> oq_state q' \<in> {ST_CONNECTING, ST_REQ_INPROGRESS})"
proof (cases "oq_state q = ST_CONNECTING")
  case True
  obtain q' where c: "do_connect env q = ok (True, q')" "hopeless q'" using connect_hopeless [OF assms(1)] by blast
  then have "query_run env q = run_send env (q'\<lparr>oq_state := ST_CONNECTED\<rparr>)" using True by (simp add: query_run_def run_connect_def)
  moreover have "hopeless (q'\<lparr>oq_state := ST_CONNECTED\<rparr>)" using c(2) by (simp add: hopeless_def)
  ultimately show ?thesis using send_hopeless [of "q'\<lparr>oq_state := ST_CONNECTED\<rparr>"] assms(3) by simp
next
  case False
  then show ?thesis using send_hopeless [OF assms(1) _ assms(3)] assms(2) by (simp add: query_run_def)
qed

lemma drive_hopeless:
  assumes "hopeless q" and "oq_state q \<in> {ST_CONNECTING, ST_REQ_INPROGRESS}" and "\<forall>e \<in> set envs. qe_send e \<noteq> 1"
  shows "drive envs q \<in> {ok None, raise Undefined_behaviour}"
  using assms
proof (induction envs arbitrary: q)
  case (Cons e envs)
  have "qe_send e \<noteq> 1" using Cons.prems(3) by simp
  from run_hopeless [OF Cons.prems(1,2) this] show ?case
  proof (elim disjE exE conjE)
    fix q' assume "query_run e q = ok (True, q')" "hopeless q'" "oq_state q' \<in> {ST_CONNECTING, ST_REQ_INPROGRESS}"
    then show ?thesis using Cons.IH [of q'] Cons.prems(3) by simp
  qed simp
qed simp

text \<open>C26: A query for a certificate without responders, or with responders over TLS only, is never
  finished: however often it is run, it does not return false, or it uses the missing connection.\<close>

theorem query_without_responder_never_ends:
  assumes "\<And>t. Some t \<in> set (qe_urls e) \<Longrightarrow> tg_ssl t" and "\<forall>e' \<in> set (e # envs). qe_send e' \<noteq> 1"
  shows "drive (e # envs) (new_query now) \<in> {ok None, raise Undefined_behaviour}"
proof -
  define q0 where "q0 = snd (do_init e (new_query now))"
  have "hopeless q0"
    using assms(1) by (auto simp: q0_def hopeless_def do_init_def parse_cert_def new_query_def Let_def split: option.splits)
  then obtain q' where c: "do_connect e q0 = ok (True, q')" "hopeless q'" using connect_hopeless by blast
  have h: "hopeless (q'\<lparr>oq_state := ST_CONNECTED\<rparr>)" using c(2) by (simp add: hopeless_def)
  have r: "query_run e (new_query now) = run_send e (q'\<lparr>oq_state := ST_CONNECTED\<rparr>)"
    using c(1) by (simp add: query_run_def new_query_def run_connect_def q0_def [unfolded new_query_def])
  have "qe_send e \<noteq> 1" using assms(2) by simp
  then consider "query_run e (new_query now) = raise Undefined_behaviour"
    | q2 where "query_run e (new_query now) = ok (True, q2)" "hopeless q2" "oq_state q2 \<in> {ST_CONNECTING, ST_REQ_INPROGRESS}"
    using send_hopeless [OF h, of e] unfolding r by auto
  then show ?thesis
  proof cases
    case 2
    then show ?thesis using drive_hopeless [OF 2(2,3), of envs] assms(2) by simp
  qed simp
qed

section \<open>Examples\<close>

definition demo_single :: "bool \<Rightarrow> certstatus \<Rightarrow> int \<Rightarrow> single_response" where
  "demo_single m s d = \<lparr>sr_match = m, sr_status = s, sr_diff = Some (d, 0)\<rparr>"

definition demo_response :: "single_response list \<Rightarrow> ocsp_response" where
  "demo_response ss = \<lparr>or_basic = True, or_verify = 1, or_singles = ss\<rparr>"

definition demo_target :: "bool \<Rightarrow> target" where
  "demo_target s = \<lparr>tg_host = [97], tg_port = [], tg_path = [47], tg_ssl = s\<rparr>"

definition demo_query_env :: "target option list \<Rightarrow> int \<Rightarrow> int \<Rightarrow> bool \<Rightarrow> int \<Rightarrow> query_env" where
  "demo_query_env us now connect retry send = \<lparr>qe_now = now, qe_urls = us, qe_new_connect = (\<lambda>_. True), qe_connect = connect,
     qe_retry = retry, qe_read = True, qe_write = False, qe_ctx = True, qe_headers = True, qe_set_req = True, qe_send = send,
     qe_response = demo_response [demo_single True REVOKED 3]\<rparr>"

lemmas demo_query = demo_single_def demo_response_def demo_target_def demo_query_env_def

definition demo_crl :: crl where
  "demo_crl = \<lparr>cl_signed = True, cl_entry = True, cl_store = True, cl_ctx = True, cl_verify_cert = 1\<rparr>"

definition demo_crl_env :: "crl revocation_env" where
  "demo_crl_env = \<lparr>rv_cn = ''cn'', rv_query = - 1, rv_crls = [''u''], rv_download = (\<lambda>_. Some (Some demo_crl)),
     rv_trust = (\<lambda>_. True), rv_revoked_by = (\<lambda>_. 1)\<rparr>"

theorem no_list_ever_revokes_witness:
  "\<exists>r fc' x'. certificate_status_ocsp_check (crl_env True demo_crl_env) \<lparr>fc_verify_cache = Map.empty, fc_crl_cache = Map.empty\<rparr> demo_tls =
     (r, fc', x') \<and> r \<le> 0 \<and> \<not> verify_bitcheck VRF_REVOKED x'"
proof -
  let ?fc = "\<lparr>fc_verify_cache = Map.empty, fc_crl_cache = Map.empty\<rparr>"
  obtain r fc' x' where s: "certificate_status_ocsp_check (crl_env True demo_crl_env) ?fc demo_tls = (r, fc', x')"
    by (metis prod_cases3)
  have "r \<le> 0 \<and> \<not> verify_bitcheck VRF_REVOKED x'"
    by (rule no_list_ever_revokes [OF _ _ _ s]) (simp_all add: demo_crl_env_def verify_bitcheck_def demo_tls_def vrf_bits)
  with s show ?thesis by blast
qed

theorem response_verdict_witness:
  "vs_revoked (ocsp_verify_response (demo_response [demo_single False GOOD 3, demo_single True REVOKED 3])) = 1"
  using response_verdict [of "demo_response [demo_single False GOOD 3, demo_single True REVOKED 3]" "[demo_single False GOOD 3]"
      "demo_single True REVOKED 3"]
  by (simp add: demo_query entry_verdict_def)

theorem other_entry_overrides_witness:
  "vs_revoked (ocsp_verify_response (demo_response [demo_single True REVOKED 3, demo_single False GOOD 3])) = 0"
  by (rule other_entry_overrides [of _ "demo_single True REVOKED 3" "demo_single False GOOD 3" "(3, 0)"]) (simp_all add: demo_query)

theorem expired_response_is_good_witness:
  "vs_revoked (ocsp_verify_response (demo_response [demo_single True GOOD (- 30)])) = 0"
  using expired_response_is_good [of "demo_response [demo_single True GOOD (- 30)]" "demo_single True GOOD (- 30)" "- 30" 0]
  by (simp add: demo_query)

theorem last_responder_decides_witness:
  "vs_revoked (ocsp_check_cert True
     [\<lparr>ua_parsed = True, ua_ssl = False, ua_response = Some (True, demo_response [demo_single True REVOKED 3])\<rparr>,
      \<lparr>ua_parsed = True, ua_ssl = False, ua_response = Some (True, demo_response [])\<rparr>]) = - 1"
proof -
  let ?us = "[\<lparr>ua_parsed = True, ua_ssl = False, ua_response = Some (True, demo_response [demo_single True REVOKED 3])\<rparr>,
      \<lparr>ua_parsed = True, ua_ssl = False, ua_response = Some (True, demo_response [])\<rparr>]"
  have a: "answers ?us = [demo_response [demo_single True REVOKED 3], demo_response []]" by (simp add: answers_def)
  show ?thesis using last_responder_decides [of ?us] unfolding a by (simp add: ocsp_verify_response_def demo_query Let_def)
qed

theorem send_loop_ends_witness:
  "send_loop 2 () [\<lparr>qr_send = - 1, qr_read = True, qr_write = False, qr_wait = 1\<rparr>, \<lparr>qr_send = - 1, qr_read = True, qr_write = False, qr_wait = 0\<rparr>] \<noteq> None"
  by (rule send_loop_ends [of _ "\<lparr>qr_send = - 1, qr_read = True, qr_write = False, qr_wait = 0\<rparr>"]) simp_all

theorem ocsp_urls_doubled_witness: "length [[], [97 :: byte]] = 2 * length [[97 :: byte]]"
  using ocsp_urls_doubled [of "[[97]]" "[[], [97]]"] by (simp add: ocsp_urls_def)

theorem query_delivers_verdict_witness:
  "\<exists>q. query_run (demo_query_env [Some (demo_target False)] 0 1 False 1) (new_query 0) = ok (False, q) \<and> oq_yield q = RET_REVOKED"
proof -
  let ?e = "demo_query_env [Some (demo_target False)] 0 1 False 1"
  have "\<exists>q. query_run ?e (new_query 0) = ok (False, q) \<and> oq_state q = ST_FINISHED \<and>
     oq_yield q = yield_of (vs_revoked (ocsp_verify_response (qe_response ?e)))"
    by (rule query_delivers_verdict [of _ "demo_target False" "[]"]) (simp_all add: demo_query)
  moreover have "yield_of (vs_revoked (ocsp_verify_response (qe_response ?e))) = RET_REVOKED"
    by (simp add: demo_query ocsp_verify_response_def yield_of_def)
  ultimately show ?thesis by auto
qed

theorem connect_timeout_is_final_witness:
  "\<exists>q'. query_run (demo_query_env [] 9 0 True 0) ((new_query 0)\<lparr>oq_state := ST_CONNECTING, oq_bio := Open\<rparr>) = ok (True, q') \<and>
     drive [demo_query_env [] 10 1 True 1] q' = ok None"
proof -
  let ?q = "(new_query 0)\<lparr>oq_state := ST_CONNECTING, oq_bio := Open\<rparr>"
  have "\<exists>q'. query_run (demo_query_env [] 9 0 True 0) ?q = ok (True, q') \<and> oq_targets q' = oq_targets ?q \<and>
      oq_yield q' = RET_CONNFAIL \<and> (\<forall>envs. drive envs q' = ok None)"
    by (rule connect_timeout_is_final) (simp_all add: demo_query timeout_connect_def new_query_def)
  then show ?thesis by blast
qed

theorem refused_connection_is_kept_witness:
  "query_run (demo_query_env [] 900 0 False 0) ((new_query 0)\<lparr>oq_state := ST_CONNECTING, oq_bio := Open\<rparr>) =
     ok (False, (new_query 0)\<lparr>oq_state := ST_CONNECTING, oq_bio := Open\<rparr>)"
  by (rule refused_connection_is_kept) (simp_all add: demo_query)

theorem query_without_responder_never_ends_witness:
  "drive [demo_query_env [Some (demo_target True)] 0 1 True 0, demo_query_env [] 1 1 True 0] (new_query 0) \<in> {ok None, raise Undefined_behaviour}"
  by (rule query_without_responder_never_ends) (auto simp: demo_query)

end
