(* ===== verification/Ltv.thy ===== *)
theory Ltv
  imports Prelude
begin

text \<open>
  Length-type-value messages: \<^verbatim>\<open>common/ltventry.hpp\<close>, \<^verbatim>\<open>common/ltventry.cpp\<close>.

  An \<open>LTVEntry\<close> is a header (32-bit length in network order, id, type), the bytes its data pointer
  leads to, and, for a container, its sub-entries. \<open>ltv_data\<close> is the memory reachable from
  \<^verbatim>\<open>data_\<close>: exactly the allocated array for an entry that owns its data, everything up to the end
  of the enclosing allocation for one that points into its parent. Reading past it is
  \<open>Undefined_behaviour\<close>.

  \<^verbatim>\<open>unpack\<close> recurses on containers and loops over sub-entries with a 32-bit index that may wrap:
  \<open>unpack_f\<close> and \<open>unpack_loop\<close> take fuel, and \<open>None\<close> means it ran out. For messages below 2 GiB
  \<open>(n + 2)^2\<close> is enough for a message of length \<open>n\<close> (\<open>unpack_terminates\<close>).

  \<open>ltv\<close> is the abstract message, \<open>ltv_enc\<close> its wire format. The round trip goes through both:
  \<open>pack\<close> writes the wire format of the message an entry was built for, and \<open>unpack\<close> reads it back.
\<close>

datatype LTVEntry =
  LTVEntry (ltv_contains: "LTVEntry list") (ltv_len: u32) (ltv_id: byte) (ltv_type: byte)
    (ltv_data: "byte list") (ltv_owner: bool)

definition typ_cont :: byte where "typ_cont = 6"
definition typ_str :: byte where "typ_str = 5"
definition typ_num :: byte where "typ_num = 3"

definition ltv_header_size :: nat where
  "ltv_header_size = 6"

definition ltv_get_length :: "byte list \<Rightarrow> u32" where
  "ltv_get_length d = of_be (take 4 d)"

definition ltv_set_length :: "byte list \<Rightarrow> nat \<Rightarrow> u32 \<Rightarrow> byte list" where
  "ltv_set_length d pos l = take pos d @ be_bytes 4 l @ drop (pos + 4) d"

definition ltv_get_id :: "byte list \<Rightarrow> byte" where
  "ltv_get_id d = d ! 4"

definition ltv_set_id :: "byte list \<Rightarrow> byte \<Rightarrow> byte list" where
  "ltv_set_id d i = d[4 := i]"

definition ltv_get_type :: "byte list \<Rightarrow> byte" where
  "ltv_get_type d = d ! 5"

definition ltv_set_type :: "byte list \<Rightarrow> byte \<Rightarrow> byte list" where
  "ltv_set_type d t = d[5 := t]"

definition new_LTVEntry :: LTVEntry where
  "new_LTVEntry = LTVEntry [] 0 0 0 [] True"

definition set_owner :: "LTVEntry \<Rightarrow> bool \<Rightarrow> LTVEntry" where
  "set_owner e b = LTVEntry (ltv_contains e) (ltv_len e) (ltv_id e) (ltv_type e) (ltv_data e) b"

definition ltv_add :: "LTVEntry \<Rightarrow> LTVEntry \<Rightarrow> LTVEntry" where
  "ltv_add e s = LTVEntry (ltv_contains e @ [s]) (ltv_len e) (ltv_id e) (ltv_type e) (ltv_data e)
     (ltv_owner e)"

definition ltv_at :: "LTVEntry \<Rightarrow> nat \<Rightarrow> LTVEntry option" where
  "ltv_at e i = (if i < length (ltv_contains e) then Some (ltv_contains e ! i) else None)"

definition ltv_clear :: "LTVEntry \<Rightarrow> LTVEntry" where
  "ltv_clear e = LTVEntry (ltv_contains e) 0 0 0 [] False"

subsection \<open>Building entries\<close>

text \<open>All the setters end alike: an array with six bytes for the header and the payload behind it, the
  header written field by field. What \<^verbatim>\<open>new\<close> leaves in the header bytes is \<open>junk\<close>.\<close>

definition junk :: "byte list" where
  "junk = replicate 6 0"

definition set_payload :: "LTVEntry \<Rightarrow> byte \<Rightarrow> byte \<Rightarrow> byte list \<Rightarrow> LTVEntry" where
  "set_payload e i t p =
     (let len = of_nat (ltv_header_size + length p)
      in LTVEntry (ltv_contains (ltv_clear e)) len i t
           (ltv_set_id (ltv_set_type (ltv_set_length (junk @ p) 0 len) t) i) True)"

definition set_str :: "LTVEntry \<Rightarrow> byte \<Rightarrow> byte \<Rightarrow> byte list \<Rightarrow> LTVEntry" where
  "set_str e i t str = set_payload e i t str"

definition set_bytes :: "LTVEntry \<Rightarrow> byte \<Rightarrow> byte \<Rightarrow> byte list \<Rightarrow> nat \<Rightarrow> LTVEntry result" where
  "set_bytes e i t str n =
     (if n < length str then raise Undefined_behaviour
      else ok (set_payload e i t (str @ replicate (n - length str) 0)))"

definition set_num :: "LTVEntry \<Rightarrow> byte \<Rightarrow> byte \<Rightarrow> u32 \<Rightarrow> LTVEntry" where
  "set_num e i t d = set_payload e i t (be_bytes 4 d)"

definition container :: "LTVEntry \<Rightarrow> byte \<Rightarrow> LTVEntry" where
  "container e i =
     LTVEntry (ltv_contains (ltv_clear e)) (of_nat ltv_header_size) i typ_cont
       (ltv_set_id (ltv_set_type junk typ_cont) i) True"

definition ltv_datalen :: "LTVEntry \<Rightarrow> nat" where
  "ltv_datalen e = sz_sub (unat (ltv_len e)) ltv_header_size"

definition data_int :: "LTVEntry \<Rightarrow> u32 result" where
  "data_int e =
     (if length (ltv_data e) < 10 then raise Undefined_behaviour
      else ok (of_be (take 4 (drop 6 (ltv_data e)))))"

definition write_int :: "LTVEntry \<Rightarrow> u32 \<Rightarrow> LTVEntry result" where
  "write_int e d =
     (if 4 \<le> ltv_datalen e then
        if length (ltv_data e) < 10 then raise Undefined_behaviour
        else ok (LTVEntry (ltv_contains e) (ltv_len e) (ltv_id e) (ltv_type e)
              (ltv_set_length (ltv_data e) 6 d) (ltv_owner e))
      else raise Invalid_argument)"

definition data_str :: "LTVEntry \<Rightarrow> byte list result" where
  "data_str e =
     (if length (ltv_data e) < 6 + sz_sub (unat (ltv_len e)) 6 then raise Undefined_behaviour
      else ok (take (sz_sub (unat (ltv_len e)) 6) (drop 6 (ltv_data e))))"

subsection \<open>Unpacking\<close>

definition to_int32 :: "nat \<Rightarrow> int" where
  "to_int32 n = (if n < 2 ^ 31 then int n else int n - 2 ^ 32)"

fun unpack_f :: "nat \<Rightarrow> LTVEntry \<Rightarrow> byte list \<Rightarrow> nat \<Rightarrow> (int \<times> LTVEntry) result option"
  and unpack_loop :: "nat \<Rightarrow> byte list \<Rightarrow> nat \<Rightarrow> nat \<Rightarrow> LTVEntry list \<Rightarrow> LTVEntry list result option"
  where
  "unpack_f 0 e mem buflen = None"
| "unpack_f (Suc n) e mem buflen =
     (if buflen < 4 then Some (ok (- 1, e))
      else if length mem < 4 then Some (raise Undefined_behaviour)
      else
        let len = ltv_get_length mem
        in if buflen < unat len then
             Some (ok (0, LTVEntry (ltv_contains e) len (ltv_id e) (ltv_type e) (ltv_data e) (ltv_owner e)))
           else if length mem < 6 \<or> ltv_owner e \<and> length mem < unat len
           then Some (raise Undefined_behaviour)
           else
             let i = ltv_get_id mem; t = ltv_get_type mem;
                 d = (if ltv_owner e then take (unat len) mem else mem)
             in if t = typ_cont \<and> ltv_header_size < unat len then
                  (case unpack_loop n d (unat len - ltv_header_size) 0 (ltv_contains e) of
                     None \<Rightarrow> None
                   | Some (Inl x) \<Rightarrow> Some (Inl x)
                   | Some (Inr subs) \<Rightarrow>
                       Some (ok (to_int32 (unat len), LTVEntry subs len i t d (ltv_owner e))))
                else Some (ok (to_int32 (unat len), LTVEntry (ltv_contains e) len i t d (ltv_owner e))))"
| "unpack_loop 0 d payload_len data_index subs = None"
| "unpack_loop (Suc n) d payload_len data_index subs =
     (case unpack_f n (set_owner new_LTVEntry False) (drop (6 + data_index) d) payload_len of
        None \<Rightarrow> None
      | Some (Inl x) \<Rightarrow> Some (Inl x)
      | Some (Inr (r, l)) \<Rightarrow>
          let sub_red = nat (r mod 2 ^ 32)
          in if 0 < sub_red then
               let data_index = (data_index + sub_red) mod 2 ^ 32
               in if payload_len \<le> data_index then Some (ok (subs @ [l]))
                  else unpack_loop n d payload_len data_index (subs @ [l])
             else Some (ok subs))"

subsection \<open>Packing\<close>

text \<open>\<open>pack_into\<close> is \<^verbatim>\<open>pack(buf)\<close> with a buffer to append to: the number of bytes, the buffer and
  the entry afterwards.\<close>

fun pack_into :: "LTVEntry \<Rightarrow> byte list \<Rightarrow> (u32 \<times> byte list \<times> LTVEntry) result"
  and pack_subs :: "LTVEntry list \<Rightarrow> byte list \<Rightarrow> (u32 \<times> byte list \<times> LTVEntry list) result"
  where
  "pack_into (LTVEntry subs len i t d own) b =
     (if t = typ_cont then
        if length d < unat len then raise Undefined_behaviour
        else
          (case pack_subs subs (b @ take (unat len) d) of
             Inl x \<Rightarrow> Inl x
           | Inr (sub_bytes, b', subs') \<Rightarrow>
               let len' = len + sub_bytes
               in ok (len', ltv_set_length b' (length b) len', LTVEntry subs' len' i t d own))
      else if 0 < len then
        if length d < unat len then raise Undefined_behaviour
        else ok (len, b @ take (unat len) d, LTVEntry subs len i t d own)
      else ok (0, b, LTVEntry subs len i t d own))"
| "pack_subs [] b = ok (0, b, [])"
| "pack_subs (e # es) b =
     (case pack_into e b of
        Inl x \<Rightarrow> Inl x
      | Inr (n, b', e') \<Rightarrow>
          (case pack_subs es b' of
             Inl x \<Rightarrow> Inl x
           | Inr (m, b'', es') \<Rightarrow> ok (n + m, b'', e' # es')))"

text \<open>\<^verbatim>\<open>pack()\<close> without a buffer, on the entry at the top: its own array becomes the buffer. For a scalar
  the array is appended to itself, after the growth of the buffer has freed it.\<close>

definition ltv_pack :: "LTVEntry \<Rightarrow> (u32 \<times> LTVEntry) result" where
  "ltv_pack e =
     (if ltv_type e = typ_cont then
        if length (ltv_data e) < unat (ltv_len e) then raise Undefined_behaviour
        else
          (case pack_subs (ltv_contains e) (take (unat (ltv_len e)) (ltv_data e)) of
             Inl x \<Rightarrow> Inl x
           | Inr (sub_bytes, b, subs) \<Rightarrow>
               let len = ltv_len e + sub_bytes
               in ok (len, LTVEntry subs len (ltv_id e) (ltv_type e) (ltv_set_length b 0 len) True))
      else if 0 < ltv_len e then raise Undefined_behaviour
      else ok (0, e))"

definition ltv_search :: "LTVEntry \<Rightarrow> int list \<Rightarrow> LTVEntry option" where
  "ltv_search e path =
     fold (\<lambda>path_element current.
             case current of
               None \<Rightarrow> None
             | Some _ \<Rightarrow> find (\<lambda>s. int (unat (ltv_id s)) = path_element) (ltv_contains e))
       path (Some e)"


subsection \<open>Fuel\<close>

lemma unpack_mono_both:
  "(unpack_f n e mem b = Some r \<longrightarrow> n \<le> m \<longrightarrow> unpack_f m e mem b = Some r) \<and>
   (unpack_loop n d p i subs = Some s \<longrightarrow> n \<le> m \<longrightarrow> unpack_loop m d p i subs = Some s)"
proof (induction n arbitrary: m e mem b r d p i subs s)
  case 0
  then show ?case by simp
next
  case (Suc n)
  have IH: "n \<le> k \<Longrightarrow> unpack_f n e mem b = Some r \<Longrightarrow> unpack_f k e mem b = Some r"
    "n \<le> k \<Longrightarrow> unpack_loop n d p i subs = Some s \<Longrightarrow> unpack_loop k d p i subs = Some s"
    for k e mem b r d p i subs s
    using Suc.IH by blast+
  have 1: "unpack_f m e mem b = Some r" if u: "unpack_f (Suc n) e mem b = Some r" "Suc n \<le> m"
  proof -
    obtain k where k: "m = Suc k" "n \<le> k" using u(2) by (cases m) auto
    define D where "D = (if ltv_owner e then take (unat (ltv_get_length mem)) mem else mem)"
    define P where "P = unat (ltv_get_length mem) - ltv_header_size"
    have "unpack_loop n D P 0 (ltv_contains e) = None \<or>
        unpack_loop k D P 0 (ltv_contains e) = unpack_loop n D P 0 (ltv_contains e)"
      using IH(2) [OF k(2)] by (cases "unpack_loop n D P 0 (ltv_contains e)") auto
    then show ?thesis
    proof
      assume "unpack_loop n D P 0 (ltv_contains e) = None"
      then show ?thesis
        using u(1) unfolding k(1) unpack_f.simps Let_def D_def [symmetric] P_def [symmetric]
        by (auto split: if_splits)
    next
      assume H: "unpack_loop k D P 0 (ltv_contains e) = unpack_loop n D P 0 (ltv_contains e)"
      have "unpack_f (Suc k) e mem b = unpack_f (Suc n) e mem b"
        unfolding unpack_f.simps Let_def D_def [symmetric] P_def [symmetric] H ..
      then show ?thesis using u(1) by (simp only: k(1))
    qed
  qed
  have 2: "unpack_loop m d p i subs = Some s"
    if u: "unpack_loop (Suc n) d p i subs = Some s" "Suc n \<le> m"
  proof -
    obtain k where k: "m = Suc k" "n \<le> k" using u(2) by (cases m) auto
    obtain x where x: "unpack_f n (set_owner new_LTVEntry False) (drop (6 + i) d) p = Some x"
      using u(1) by (auto split: option.splits)
    note x' = IH(1) [OF k(2) x]
    show ?thesis
    proof (cases x)
      case (Inl y)
      then show ?thesis using u(1) x x' by (simp add: k(1))
    next
      case (Inr rl)
      obtain r l where rl: "rl = (r, l)" by force
      show ?thesis
        using u(1) x x' IH(2) [OF k(2)]
        by (auto simp: k(1) Inr rl Let_def split: if_splits)
    qed
  qed
  show ?case by (intro conjI impI) (rule 1, assumption+, rule 2, assumption+)
qed

lemma unpack_mono: "unpack_f n e mem b = Some r \<Longrightarrow> n \<le> m \<Longrightarrow> unpack_f m e mem b = Some r"
  by (rule unpack_mono_both [THEN conjunct1, rule_format])

lemma uint_le_int_iff: "uint (w :: 'a::len word) \<le> int b \<longleftrightarrow> unat w \<le> b"
  by (metis of_nat_le_iff of_nat_unat)

lemma unpack_result:
  assumes "unpack_f n e mem b = Some (Inr (r, l))" and "b < 2 ^ 31"
  shows "r = - 1 \<and> b < 4 \<or> 4 \<le> b \<and> 0 \<le> r \<and> r \<le> int b"
proof (cases n)
  case 0
  then show ?thesis using assms(1) by simp
next
  case (Suc k)
  then show ?thesis
    using assms
    by (auto simp: Let_def to_int32_def uint_le_int_iff split: if_splits option.splits sum.splits)
qed

lemma unpack_fuel:
  "(b < 2 ^ 31 \<longrightarrow> (b + 2)\<^sup>2 \<le> n \<longrightarrow> unpack_f n e mem b \<noteq> None) \<and>
   (p < 2 ^ 31 \<longrightarrow> i < p \<longrightarrow> (p < 4 \<longrightarrow> i = 0) \<longrightarrow> p - i + 1 + (p + 2)\<^sup>2 \<le> n \<longrightarrow>
    unpack_loop n d p i subs \<noteq> None)"
proof (induction n arbitrary: e mem b d p i subs)
  case 0
  then show ?case by simp
next
  case (Suc n)
  have 1: "unpack_f (Suc n) e mem b \<noteq> None" if b: "b < 2 ^ 31" "(b + 2)\<^sup>2 \<le> Suc n"
  proof -
    have "unpack_loop n d q 0 subs \<noteq> None" if "q + 6 \<le> b" "0 < q" for d q subs
    proof -
      have "(q + 8)\<^sup>2 \<le> (b + 2)\<^sup>2" using that(1) by (intro power_mono) simp_all
      then have "q - 0 + 1 + (q + 2)\<^sup>2 \<le> n" using b(2) by (simp add: power2_eq_square algebra_simps)
      moreover have "q < 2 ^ 31" using that(1) b(1) by linarith
      ultimately show ?thesis using Suc.IH [where p = q and i = 0 and d = d and subs = subs] that(2) by blast
    qed
    then have N: "unpack_loop n d (unat (ltv_get_length mem) - 6) 0 subs \<noteq> None"
      if "6 < unat (ltv_get_length mem)" "\<not> b < unat (ltv_get_length mem)" for d subs
      using that by simp
    define D where "D = (if ltv_owner e then take (unat (ltv_get_length mem)) mem else mem)"
    show ?thesis
      using N [of D "ltv_contains e"]
      unfolding unpack_f.simps Let_def ltv_header_size_def D_def [symmetric]
      by (cases "unpack_loop n D (unat (ltv_get_length mem) - 6) 0 (ltv_contains e)")
         (auto split: sum.splits)
  qed
  have 2: "unpack_loop (Suc n) d p i subs \<noteq> None"
    if p: "p < 2 ^ 31" "i < p" "p < 4 \<longrightarrow> i = 0" "p - i + 1 + (p + 2)\<^sup>2 \<le> Suc n"
  proof -
    let ?u = "unpack_f n (set_owner new_LTVEntry False) (drop (6 + i) d) p"
    have "(p + 2)\<^sup>2 \<le> n" using p(2,4) by linarith
    then have u: "?u \<noteq> None" using Suc.IH p(1) by blast
    show ?thesis
    proof (cases "\<exists>r l. ?u = Some (Inr (r, l))")
      case False
      then show ?thesis using u by (auto split: sum.splits)
    next
      case True
      then obtain r l where r: "?u = Some (Inr (r, l))" by blast
      define k where "k = nat (r mod 2 ^ 32)"
      define j where "j = (i + k) mod 2 ^ 32"
      have "unpack_loop n d p j (subs @ [l]) \<noteq> None" if "0 < k" "j < p"
      proof -
        have k': "k \<le> p" "4 \<le> p"
          using unpack_result [OF r p(1)] that p(1,2,3) by (auto simp: k_def j_def)
        then have "j = i + k" using p(1,2) by (simp add: j_def)
        then show ?thesis
          using Suc.IH [where p = p and i = j and d = d and subs = "subs @ [l]"] p that k' by auto
      qed
      then show ?thesis using r by (simp add: Let_def k_def j_def)
    qed
  qed
  from 1 2 show ?case by blast
qed

definition ltv_unpack :: "LTVEntry \<Rightarrow> byte list \<Rightarrow> nat \<Rightarrow> (int \<times> LTVEntry) result" where
  "ltv_unpack e mem buflen = the (unpack_f ((buflen + 2)\<^sup>2) e mem buflen)"

lemma ltv_unpack_eq:
  assumes "b < 2 ^ 31" and "unpack_f n e mem b = Some r"
  shows "ltv_unpack e mem b = r"
proof -
  obtain s where s: "unpack_f ((b + 2)\<^sup>2) e mem b = Some s"
    using unpack_fuel [of b "(b + 2)\<^sup>2" e mem 0 0 "[]" "[]"] assms(1) by blast
  have "unpack_f (max n ((b + 2)\<^sup>2)) e mem b = Some s" "unpack_f (max n ((b + 2)\<^sup>2)) e mem b = Some r"
    using unpack_mono [OF s, of "max n ((b + 2)\<^sup>2)"]
      unpack_mono [OF assms(2), of "max n ((b + 2)\<^sup>2)"] by simp_all
  then have "s = r" by simp
  then show ?thesis using s unfolding ltv_unpack_def by simp
qed


subsection \<open>Messages and their wire format\<close>

datatype ltv = Leaf byte byte "byte list" | Node byte "ltv list"

definition ltv_frame :: "byte \<Rightarrow> byte \<Rightarrow> byte list \<Rightarrow> byte list" where
  "ltv_frame i t p = be_bytes 4 (of_nat (6 + length p) :: u32) @ [i, t] @ p"

primrec ltv_enc :: "ltv \<Rightarrow> byte list" where
  "ltv_enc (Leaf i t p) = ltv_frame i t p"
| "ltv_enc (Node i es) = ltv_frame i typ_cont (concat (map ltv_enc es))"

text \<open>The entry a program builds for a message: setters for the leaves, \<^verbatim>\<open>container\<close> and \<^verbatim>\<open>add\<close>.\<close>

primrec ltv_build :: "ltv \<Rightarrow> LTVEntry" where
  "ltv_build (Leaf i t p) = set_payload new_LTVEntry i t p"
| "ltv_build (Node i es) = foldl ltv_add (container new_LTVEntry i) (map ltv_build es)"

text \<open>What a program reads from an entry: id, type, payload, sub-entries.\<close>

fun ltv_view :: "LTVEntry \<Rightarrow> ltv" where
  "ltv_view (LTVEntry subs len i t d own) =
     (if t = typ_cont then Node i (map ltv_view subs)
      else Leaf i t (take (unat len - 6) (drop 6 d)))"

primrec ltv_valid :: "ltv \<Rightarrow> bool" where
  "ltv_valid (Leaf i t p) = (t \<noteq> typ_cont)"
| "ltv_valid (Node i es) = list_all ltv_valid es"

lemma length_ltv_frame [simp]: "length (ltv_frame i t p) = 6 + length p"
  by (simp add: ltv_frame_def)

lemma ltv_enc_length: "6 \<le> length (ltv_enc m)"
  by (cases m) simp_all

lemma ltv_enc_nonempty [simp]: "ltv_enc m \<noteq> []"
  using ltv_enc_length [of m] by auto

lemma list4: "length xs = 4 \<Longrightarrow> \<exists>a b c d. xs = [a, b, c, d]"
  by (auto simp: length_Suc_conv eval_nat_numeral)

lemma junk_set:
  "ltv_set_id (ltv_set_type (ltv_set_length (junk @ p) 0 l) t) i = be_bytes 4 l @ [i, t] @ p"
proof -
  obtain a b c d where "be_bytes 4 l = [a, b, c, d]" using list4 [of "be_bytes 4 l"] by auto
  then show ?thesis
    by (simp add: ltv_set_id_def ltv_set_type_def ltv_set_length_def junk_def eval_nat_numeral)
qed

lemma ltv_build_leaf:
  "ltv_build (Leaf i t p) = LTVEntry [] (of_nat (6 + length p)) i t (ltv_frame i t p) True"
  unfolding ltv_build.simps set_payload_def Let_def junk_set
  by (simp add: ltv_frame_def new_LTVEntry_def ltv_clear_def ltv_header_size_def)

lemma foldl_ltv_add:
  "foldl ltv_add e es =
     LTVEntry (ltv_contains e @ es) (ltv_len e) (ltv_id e) (ltv_type e) (ltv_data e) (ltv_owner e)"
  by (induction es arbitrary: e) (simp_all add: ltv_add_def)

definition node_header :: "byte \<Rightarrow> byte list" where
  "node_header i = [0, 0, 0, 0, i, typ_cont]"

lemma length_node_header [simp]: "length (node_header i) = 6"
  by (simp add: node_header_def)

lemma ltv_build_node:
  "ltv_build (Node i es) = LTVEntry (map ltv_build es) 6 i typ_cont (node_header i) True"
  by (simp add: foldl_ltv_add container_def new_LTVEntry_def ltv_clear_def ltv_header_size_def
      ltv_set_id_def ltv_set_type_def junk_def node_header_def eval_nat_numeral)

lemma set_length_header:
  "ltv_set_length (b @ node_header i @ body) (length b) l = b @ be_bytes 4 l @ [i, typ_cont] @ body"
  by (simp add: ltv_set_length_def node_header_def)

subsection \<open>Packing writes the wire format\<close>

lemma u32_small: "n < 2 ^ 32 \<Longrightarrow> unat (of_nat n :: u32) = n"
  by (simp add: unat_of_nat take_bit_eq_mod)

lemma pack_build:
  "ltv_valid m \<Longrightarrow> length (ltv_enc m) < 2 ^ 32 \<Longrightarrow>
     \<exists>e. pack_into (ltv_build m) b = ok (of_nat (length (ltv_enc m)), b @ ltv_enc m, e)"
proof (induction m arbitrary: b)
  case (Leaf i t p)
  then have "unat (of_nat (6 + length p) :: u32) = 6 + length p"
    by (intro u32_small) simp
  then have "0 < (of_nat (6 + length p) :: u32)" "unat (of_nat (6 + length p) :: u32) = 6 + length p"
    by (auto simp: word_less_nat_alt simp del: of_nat_add)
  then show ?case using Leaf(1) unfolding ltv_build_leaf by (simp del: of_nat_add)
next
  case (Node i es)
  let ?body = "concat (map ltv_enc es)"
  have subs: "list_all ltv_valid xs \<Longrightarrow> length (concat (map ltv_enc xs)) < 2 ^ 32 \<Longrightarrow> set xs \<subseteq> set es \<Longrightarrow>
      \<exists>ys. pack_subs (map ltv_build xs) b =
        ok (of_nat (length (concat (map ltv_enc xs))), b @ concat (map ltv_enc xs), ys)" for xs b
  proof (induction xs arbitrary: b)
    case Nil
    then show ?case by simp
  next
    case (Cons x xs)
    obtain e where e: "pack_into (ltv_build x) b = ok (of_nat (length (ltv_enc x)), b @ ltv_enc x, e)"
      using Node.IH [of x b] Cons.prems by auto
    obtain ys where "pack_subs (map ltv_build xs) (b @ ltv_enc x) =
        ok (of_nat (length (concat (map ltv_enc xs))), (b @ ltv_enc x) @ concat (map ltv_enc xs), ys)"
      using Cons.IH [of "b @ ltv_enc x"] Cons.prems by auto
    with e show ?case by simp
  qed
  have "\<exists>ys. pack_subs (map ltv_build es) (b @ node_header i) =
      ok (of_nat (length ?body), (b @ node_header i) @ ?body, ys)"
    using Node.prems by (intro subs) simp_all
  then obtain ys where ys: "pack_subs (map ltv_build es) (b @ node_header i) =
      ok (of_nat (length ?body), (b @ node_header i) @ ?body, ys)" by blast
  have "ltv_set_length ((b @ node_header i) @ ?body) (length b) l = b @ be_bytes 4 l @ [i, typ_cont] @ ?body" for l
    using set_length_header [of b i ?body l] by simp
  then show ?case
    using ys unfolding ltv_build_node
    by (simp add: node_header_def ltv_frame_def Let_def)
qed

lemma pack_top_build:
  assumes "ltv_valid (Node i es)" and "length (ltv_enc (Node i es)) < 2 ^ 32"
  shows "\<exists>e. ltv_pack (ltv_build (Node i es)) = ok (of_nat (length (ltv_enc (Node i es))), e) \<and>
             ltv_data e = ltv_enc (Node i es)"
proof -
  obtain e where e: "pack_into (ltv_build (Node i es)) [] =
      ok (of_nat (length (ltv_enc (Node i es))), ltv_enc (Node i es), e)"
    using pack_build [OF assms, of "[]"] by auto
  then show ?thesis
    unfolding ltv_build_node ltv_pack_def
    by (auto simp: Let_def split: sum.splits)
qed

subsection \<open>Unpacking reads it back\<close>

lemma frame_fields:
  assumes "length p + 6 < 2 ^ 32"
  shows "unat (ltv_get_length (ltv_frame i t p @ r)) = 6 + length p"
    and "ltv_get_id (ltv_frame i t p @ r) = i" and "ltv_get_type (ltv_frame i t p @ r) = t"
    and "drop 6 (ltv_frame i t p) = p"
proof -
  have "ltv_get_length (ltv_frame i t p @ r) = of_nat (6 + length p)"
    by (simp add: ltv_get_length_def ltv_frame_def bytes_simps del: of_nat_add)
  then show "unat (ltv_get_length (ltv_frame i t p @ r)) = 6 + length p"
    using assms by (simp add: u32_small del: of_nat_add)
  show "ltv_get_id (ltv_frame i t p @ r) = i" and "ltv_get_type (ltv_frame i t p @ r) = t"
    and "drop 6 (ltv_frame i t p) = p"
    by (simp_all add: ltv_get_id_def ltv_get_type_def ltv_frame_def nth_append)
qed

definition reads_back :: "ltv \<Rightarrow> bool" where
  "reads_back m \<longleftrightarrow>
     (\<forall>own r b. length (ltv_enc m) \<le> b \<longrightarrow> b < 2 ^ 31 \<longrightarrow>
        (\<exists>n l. unpack_f n (set_owner new_LTVEntry own) (ltv_enc m @ r) b =
             Some (ok (int (length (ltv_enc m)), l)) \<and> ltv_view l = m))"

lemma loop_reads_back:
  assumes "list_all reads_back xs" and "xs \<noteq> []" and "length hdr = 6"
    and "p = length (pre @ concat (map ltv_enc xs))" and "p < 2 ^ 31"
  shows "\<exists>n ls. unpack_loop n (hdr @ pre @ concat (map ltv_enc xs) @ r) p (length pre) subs =
           Some (ok (subs @ ls)) \<and> map ltv_view ls = xs"
  using assms
proof (induction xs arbitrary: pre subs)
  case Nil
  then show ?case by simp
next
  case (Cons x xs)
  let ?rest = "concat (map ltv_enc xs)"
  have dr: "drop (6 + length pre) (hdr @ pre @ concat (map ltv_enc (x # xs)) @ r) = ltv_enc x @ ?rest @ r"
    using Cons.prems(3) by simp
  have lx: "length (ltv_enc x) \<le> p" "0 < length (ltv_enc x)"
    using Cons.prems(4) ltv_enc_length [of x] by (simp, linarith)
  have "reads_back x" using Cons.prems(1) by simp
  then obtain n l where u: "unpack_f n (set_owner new_LTVEntry False) (ltv_enc x @ ?rest @ r) p =
      Some (ok (int (length (ltv_enc x)), l))" "ltv_view l = x"
    unfolding reads_back_def using Cons.prems(5) lx(1) by blast
  have k: "nat (int (length (ltv_enc x)) mod 2 ^ 32) = length (ltv_enc x)"
      "(length pre + length (ltv_enc x)) mod 2 ^ 32 = length (pre @ ltv_enc x)"
    using Cons.prems(4,5) by simp_all
  show ?case
  proof (cases "xs = []")
    case True
    then have "p \<le> length (pre @ ltv_enc x)" using Cons.prems(4) by simp
    then have "unpack_loop (Suc n) (hdr @ pre @ concat (map ltv_enc (x # xs)) @ r) p (length pre) subs =
        Some (ok (subs @ [l]))"
      using u(1) lx(2) k unfolding unpack_loop.simps dr Let_def by simp
    then show ?thesis using u(2) True by (intro exI [of _ "Suc n"] exI [of _ "[l]"]) simp
  next
    case False
    obtain m ls where ls: "unpack_loop m (hdr @ (pre @ ltv_enc x) @ ?rest @ r) p
        (length (pre @ ltv_enc x)) (subs @ [l]) = Some (ok ((subs @ [l]) @ ls))" "map ltv_view ls = xs"
      using Cons.IH [of "pre @ ltv_enc x" "subs @ [l]"] Cons.prems False by auto
    have "\<not> p \<le> length (pre @ ltv_enc x)"
      using Cons.prems(4) False ltv_enc_length [of "hd xs"] by (cases xs) simp_all
    moreover have "unpack_f (max n m) (set_owner new_LTVEntry False) (ltv_enc x @ ?rest @ r) p =
        Some (ok (int (length (ltv_enc x)), l))"
      by (rule unpack_mono [OF u(1)]) simp
    moreover have "unpack_loop (max n m) (hdr @ pre @ concat (map ltv_enc (x # xs)) @ r) p
        (length (pre @ ltv_enc x)) (subs @ [l]) = Some (ok ((subs @ [l]) @ ls))"
      using unpack_mono_both [THEN conjunct2, rule_format, OF ls(1), of "max n m"] by simp
    ultimately have "unpack_loop (Suc (max n m)) (hdr @ pre @ concat (map ltv_enc (x # xs)) @ r) p
        (length pre) subs = Some (ok (subs @ l # ls))"
      using lx(2) k unfolding unpack_loop.simps dr Let_def by simp
    then show ?thesis using u(2) ls(2) by (intro exI [of _ "Suc (max n m)"] exI [of _ "l # ls"]) simp
  qed
qed


lemma reads_back_all: "ltv_valid m \<Longrightarrow> reads_back m"
proof (induction m)
  case (Leaf i t p)
  have "\<exists>n l. unpack_f n (set_owner new_LTVEntry own) (ltv_frame i t p @ r) b =
      Some (ok (int (length (ltv_frame i t p)), l)) \<and> ltv_view l = Leaf i t p"
    if b: "length (ltv_frame i t p) \<le> b" "b < 2 ^ 31" for own r b
  proof -
    have "length p + 6 < 2 ^ 32" using b by simp
    note ff = frame_fields [OF this, of i t]
    define d where "d = (if own then take (6 + length p) (ltv_frame i t p @ r) else ltv_frame i t p @ r)"
    have "take (length p) (drop 6 d) = p"
      by (simp add: d_def ff(4))
    then show ?thesis
      using b Leaf
      by (intro exI [of _ "Suc 0"]
          exI [of _ "LTVEntry [] (ltv_get_length (ltv_frame i t p @ r)) i t d own"])
         (simp add: ff(1-3) Let_def d_def to_int32_def set_owner_def new_LTVEntry_def)
  qed
  then show ?case by (simp add: reads_back_def)
next
  case (Node i es)
  let ?p = "concat (map ltv_enc es)" and ?f = "ltv_frame i typ_cont (concat (map ltv_enc es))"
  have all: "list_all reads_back es" using Node by (auto simp: list_all_iff)
  have "\<exists>n l. unpack_f n (set_owner new_LTVEntry own) (?f @ r) b =
      Some (ok (int (length ?f), l)) \<and> ltv_view l = Node i es"
    if b: "length ?f \<le> b" "b < 2 ^ 31" for own r b
  proof -
    have "length ?p + 6 < 2 ^ 32" using b by simp
    note ff = frame_fields [OF this, of i typ_cont]
    define r' where "r' = (if own then [] else r)"
    have d: "(if own then take (6 + length ?p) (?f @ r) else ?f @ r) = ?f @ r'"
      by (simp add: r'_def)
    have so: "ltv_owner (set_owner new_LTVEntry own) = own" "ltv_contains (set_owner new_LTVEntry own) = []"
      by (simp_all add: set_owner_def new_LTVEntry_def)
    show ?thesis
    proof (cases "es = []")
      case True
      then show ?thesis
        using b ff(1-3) [of r]
        by (intro exI [of _ "Suc 0"]
            exI [of _ "LTVEntry [] (ltv_get_length (?f @ r)) i typ_cont (?f @ r') own"])
           (simp add: Let_def to_int32_def set_owner_def new_LTVEntry_def ltv_header_size_def r'_def)
    next
      case False
      have "0 < length ?p" using False ltv_enc_length [of "hd es"] by (cases es) simp_all
      define hdr where "hdr = be_bytes 4 (of_nat (6 + length ?p) :: u32) @ [i, typ_cont]"
      have fr: "hdr @ ?p @ r' = ?f @ r'" by (simp add: ltv_frame_def hdr_def)
      have "\<exists>n ls. unpack_loop n (hdr @ [] @ ?p @ r') (length ?p) (length ([] :: byte list)) [] =
          Some (ok ([] @ ls)) \<and> map ltv_view ls = es"
        by (rule loop_reads_back [OF all False]) (use b in \<open>simp_all add: hdr_def\<close>)
      then obtain n ls where ls: "unpack_loop n (?f @ r') (length ?p) 0 [] = Some (ok ls)"
          "map ltv_view ls = es"
        unfolding append_Nil fr list.size by (elim exE conjE) (rule that)
      have "unpack_f (Suc n) (set_owner new_LTVEntry own) (?f @ r) b =
          Some (ok (int (length ?f), LTVEntry ls (ltv_get_length (?f @ r)) i typ_cont (?f @ r') own))"
        using b ls(1) \<open>0 < length ?p\<close>
        unfolding unpack_f.simps Let_def so ff(1) [of r] ff(2) [of r] ff(3) [of r] d
        by (simp add: ltv_header_size_def to_int32_def)
      then show ?thesis using ls(2) by (intro exI) (rule conjI, assumption, simp)
    qed
  qed
  then show ?case by (simp add: reads_back_def)
qed


subsection \<open>What the messages promise\<close>

text \<open>C40: \<open>unpack\<close> always returns, whatever bytes it is given: nesting and the loop over
  sub-entries are bounded by the message length (below 2 GiB).\<close>

theorem unpack_terminates:
  assumes "buflen < 2 ^ 31"
  shows "\<exists>r. unpack_f ((buflen + 2)\<^sup>2) e mem buflen = Some r"
  using unpack_fuel [of buflen "(buflen + 2)\<^sup>2" e mem 0 0 "[]" "[]"] assms by blast

theorem unpack_terminates_witness:
  "\<exists>r. unpack_f 144 new_LTVEntry [0, 0, 0, 10, 1, 6, 0, 0, 0, 0] 10 = Some r"
  using unpack_terminates [of 10 new_LTVEntry "[0, 0, 0, 10, 1, 6, 0, 0, 0, 0]"] by simp

text \<open>C18: Round trip. A container tree built with the setters, \<^verbatim>\<open>container\<close> and \<^verbatim>\<open>add\<close>, packed, and
  unpacked from a stream that continues with anything, gives back the same ids, types, payloads
  and nesting, and reports the length of the message.\<close>

theorem ltv_round_trip:
  assumes "ltv_valid (Node i es)" and "length (ltv_enc (Node i es)) + length rest < 2 ^ 31"
  shows "\<exists>e l. ltv_pack (ltv_build (Node i es)) = ok (of_nat (length (ltv_enc (Node i es))), e) \<and>
           ltv_unpack new_LTVEntry (ltv_data e @ rest) (length (ltv_data e @ rest)) =
             ok (int (length (ltv_enc (Node i es))), l) \<and>
           ltv_view l = Node i es"
proof -
  let ?m = "Node i es"
  obtain e where e: "ltv_pack (ltv_build ?m) = ok (of_nat (length (ltv_enc ?m)), e)"
      "ltv_data e = ltv_enc ?m"
    using pack_top_build [OF assms(1)] assms(2) by auto
  have own: "set_owner new_LTVEntry True = new_LTVEntry"
    by (simp add: set_owner_def new_LTVEntry_def)
  have "length (ltv_enc ?m) \<le> length (ltv_enc ?m @ rest)" "length (ltv_enc ?m @ rest) < 2 ^ 31"
    using assms(2) by simp_all
  then obtain n l where "unpack_f n new_LTVEntry (ltv_enc ?m @ rest) (length (ltv_enc ?m @ rest)) =
      Some (ok (int (length (ltv_enc ?m)), l))" "ltv_view l = ?m"
    using reads_back_all [OF assms(1)] own unfolding reads_back_def by metis
  then show ?thesis
    using ltv_unpack_eq e assms(2) by (intro exI [of _ e] exI [of _ l]) simp
qed

theorem ltv_round_trip_witness:
  "\<exists>e l. ltv_pack (ltv_build (Node 1 [Leaf 2 3 [0, 0, 0, 7], Node 4 [Leaf 5 5 [65]]])) = ok (29, e) \<and>
     ltv_unpack new_LTVEntry (ltv_data e @ [9]) (length (ltv_data e @ [9])) = ok (29, l) \<and>
     ltv_view l = Node 1 [Leaf 2 3 [0, 0, 0, 7], Node 4 [Leaf 5 5 [65]]]"
  using ltv_round_trip [of 1 "[Leaf 2 3 [0, 0, 0, 7], Node 4 [Leaf 5 5 [65]]]" "[9]"]
  by (simp add: typ_cont_def)

text \<open>Framing. Of an incomplete message nothing is consumed: fewer than four bytes give \<open>-1\<close>, a
  proper prefix of at least four bytes gives \<open>0\<close>, without reading past what has arrived.\<close>

theorem unpack_waits_for_whole_message:
  assumes "k < length (ltv_enc m)" and "length (ltv_enc m) < 2 ^ 31"
  shows "\<exists>l. ltv_unpack new_LTVEntry (take k (ltv_enc m)) k = ok (if k < 4 then - 1 else 0, l)"
proof -
  obtain i t p where m: "ltv_enc m = ltv_frame i t p" by (cases m) auto
  have "ltv_get_length (take k (ltv_frame i t p)) = ltv_get_length (ltv_frame i t p @ [])" if "4 \<le> k"
    using that by (simp add: ltv_get_length_def min_def)
  then have len: "4 \<le> k \<Longrightarrow> unat (ltv_get_length (take k (ltv_frame i t p))) = 6 + length p"
    using frame_fields(1) [of p i t "[]"] assms(2) m by simp
  have "\<exists>l. unpack_f (Suc 0) new_LTVEntry (take k (ltv_enc m)) k = Some (ok (if k < 4 then - 1 else 0, l))"
    using len assms(1) by (simp add: m Let_def)
  then show ?thesis using ltv_unpack_eq [of k] assms by (metis less_trans)
qed

theorem unpack_waits_for_whole_message_witness:
  "\<exists>l. ltv_unpack new_LTVEntry (take 9 (ltv_enc (Leaf 2 5 [65, 66, 67, 68]))) 9 = ok (0, l)"
  using unpack_waits_for_whole_message [of 9 "Leaf 2 5 [65, 66, 67, 68]"] by simp

text \<open>A crafted message makes \<open>unpack\<close> read past its own copy. Sub-entries are unpacked with the
  length of the whole payload instead of what is left of it: a container of 13 bytes whose first
  sub-entry takes 6 of the 7 payload bytes lets the next one read a length field of which only one
  byte exists.\<close>

theorem unpack_overreads:
  assumes "t \<noteq> typ_cont"
  shows "ltv_unpack new_LTVEntry
           (be_bytes 4 (13 :: u32) @ [i, typ_cont] @ be_bytes 4 (6 :: u32) @ [j, t] @ [x] @ rest)
           (13 + k) = raise Undefined_behaviour \<or> 2 ^ 31 \<le> 13 + k"
proof (cases "2 ^ 31 \<le> 13 + k")
  case False
  have be: "be_bytes 4 (13 :: u32) = [0, 0, 0, 13]" "be_bytes 4 (6 :: u32) = [0, 0, 0, 6]"
    by code_simp+
  have ob: "of_be [0, 0, 0, 13] = (13 :: u32)" "of_be [0, 0, 0, 6] = (6 :: u32)"
    by code_simp+
  have gl: "ltv_get_length (0 # 0 # 0 # 13 # xs) = 13" "ltv_get_length (0 # 0 # 0 # 6 # xs) = 6" for xs
    by (simp_all add: ltv_get_length_def ob)
  have s1: "unpack_f (Suc 0) (set_owner new_LTVEntry False) [0, 0, 0, 6, j, t, x] 7 =
      Some (ok (6, LTVEntry [] 6 j t [0, 0, 0, 6, j, t, x] False))"
    using assms unfolding unpack_f.simps gl Let_def
    by (simp add: ltv_get_id_def ltv_get_type_def new_LTVEntry_def set_owner_def to_int32_def)
  have s2: "unpack_f (Suc 0) (set_owner new_LTVEntry False) [x] 7 = Some (raise Undefined_behaviour)"
    by simp
  let ?D = "[0, 0, 0, 13, i, typ_cont, 0, 0, 0, 6, j, t, x]"
  have d: "drop (6 + 0) ?D = [0, 0, 0, 6, j, t, x]" "drop (6 + 6) ?D = [x]"
    by (simp_all add: drop_Cons')
  have m: "nat (6 mod 2 ^ 32) = 6" "(0 + 6) mod 2 ^ 32 = (6 :: nat)"
    by simp_all
  have l2: "unpack_loop (Suc (Suc 0)) ?D 7 6 [e] = Some (raise Undefined_behaviour)" for e
    by (subst unpack_loop.simps(2)) (simp only: d s2 option.case sum.case)
  have l1: "unpack_loop (Suc (Suc (Suc 0))) ?D 7 0 [] = Some (raise Undefined_behaviour)"
    using l2 unpack_mono [OF s1, of "Suc (Suc 0)"]
    by (subst unpack_loop.simps(2)) (simp add: d(1) m del: unpack_f.simps unpack_loop.simps)
  have c: "ltv_get_length (?D @ rest) = 13" "take 13 (?D @ rest) = ?D" "ltv_get_id (?D @ rest) = i"
    "ltv_get_type (?D @ rest) = typ_cont"
    by (simp_all add: gl ltv_get_id_def ltv_get_type_def)
  have "unpack_f (Suc (Suc (Suc (Suc 0)))) new_LTVEntry (?D @ rest) (13 + k) = Some (raise Undefined_behaviour)"
    unfolding unpack_f.simps(2) Let_def c
    using l1 by (simp add: new_LTVEntry_def ltv_header_size_def del: unpack_f.simps unpack_loop.simps append_Cons)
  then have "ltv_unpack new_LTVEntry (?D @ rest) (13 + k) = raise Undefined_behaviour"
    by (rule ltv_unpack_eq [rotated]) (use False in simp)
  then show ?thesis unfolding be by simp
qed simp

theorem unpack_overreads_witness:
  "ltv_unpack new_LTVEntry
     (be_bytes 4 (13 :: u32) @ [1, typ_cont] @ be_bytes 4 (6 :: u32) @ [2, typ_str] @ [0] @ []) 13
   = raise Undefined_behaviour"
  using unpack_overreads [of typ_str 1 2 0 "[]" 0] by (simp add: typ_str_def typ_cont_def)

text \<open>\<open>search\<close> never descends: every element of the path is looked up among the direct
  sub-entries of the entry searched, so a path of any length yields a direct sub-entry with the
  last id, or nothing.\<close>

theorem search_never_descends:
  assumes "path \<noteq> []" and "ltv_search e path = Some s"
  shows "s \<in> set (ltv_contains e) \<and> int (unat (ltv_id s)) = last path"
  using assms
proof (induction path rule: rev_induct)
  case Nil
  then show ?case by simp
next
  case (snoc x xs)
  then have "find (\<lambda>s. int (unat (ltv_id s)) = x) (ltv_contains e) = Some s"
    by (auto simp: ltv_search_def split: option.splits)
  then show ?case by (auto simp: find_Some_iff)
qed

definition demo_nested :: LTVEntry where
  "demo_nested = ltv_build (Node 1 [Node 2 [Leaf 3 5 [65]], Leaf 4 5 [66]])"

theorem search_never_descends_witness:
  "\<exists>s. ltv_search demo_nested [2, 4] = Some s \<and> s \<in> set (ltv_contains demo_nested) \<and>
       int (unat (ltv_id s)) = last [2, 4]"
proof -
  have n: "ltv_contains demo_nested = [ltv_build (Node 2 [Leaf 3 5 [65]]), ltv_build (Leaf 4 5 [66])]"
    by (simp only: demo_nested_def ltv_build_node list.map LTVEntry.sel)
  have "ltv_search demo_nested [2, 4] = Some (ltv_build (Leaf 4 5 [66]))"
    by (simp only: ltv_search_def fold.simps n) (simp add: ltv_build_node ltv_build_leaf del: ltv_build.simps)
  from search_never_descends [OF _ this] this show ?thesis by blast
qed

lemma pack_leaves:
  "length (concat (map ltv_enc (map (\<lambda>(i, t, p). Leaf i t p) ls))) < 2 ^ 32 \<Longrightarrow>
     list_all (\<lambda>(i, t, p). t \<noteq> typ_cont) ls \<Longrightarrow>
     pack_subs (map ltv_build (map (\<lambda>(i, t, p). Leaf i t p) ls)) b =
       ok (of_nat (length (concat (map ltv_enc (map (\<lambda>(i, t, p). Leaf i t p) ls)))),
           b @ concat (map ltv_enc (map (\<lambda>(i, t, p). Leaf i t p) ls)),
           map ltv_build (map (\<lambda>(i, t, p). Leaf i t p) ls))"
proof (induction ls arbitrary: b)
  case Nil
  then show ?case by simp
next
  case (Cons x ls)
  obtain i t p where x: "x = (i, t, p)" by (metis prod_cases3)
  have u: "unat (of_nat (6 + length p) :: u32) = 6 + length p"
    using Cons.prems(1) by (intro u32_small) (simp add: x)
  then have "0 < (of_nat (6 + length p) :: u32)" by (simp add: word_less_nat_alt del: of_nat_add)
  then have "pack_into (ltv_build (Leaf i t p)) b =
      ok (of_nat (6 + length p), b @ ltv_enc (Leaf i t p), ltv_build (Leaf i t p))"
    using u Cons.prems(2) unfolding ltv_build_leaf by (simp add: x del: of_nat_add)
  then show ?case using Cons by (simp add: x del: ltv_build.simps)
qed

text \<open>Packing is not repeatable: a second \<open>pack\<close> of the same container writes every sub-entry
  again behind the first copy.\<close>

theorem pack_twice_duplicates:
  assumes "list_all (\<lambda>(i, t, p). t \<noteq> typ_cont) ls"
    and "body = concat (map ltv_enc (map (\<lambda>(i, t, p). Leaf i t p) ls))" and "length body < 2 ^ 30"
    and "ltv_pack (ltv_build (Node i (map (\<lambda>(i, t, p). Leaf i t p) ls))) = ok (n, e)"
  shows "\<exists>e'. ltv_pack e = ok (of_nat (6 + 2 * length body), e') \<and>
           ltv_data e' = ltv_frame i typ_cont (body @ body)"
proof -
  let ?subs = "map ltv_build (map (\<lambda>(i, t, p). Leaf i t p) ls)"
  have ps: "pack_subs ?subs b = ok (of_nat (length body), b @ body, ?subs)" for b
    using pack_leaves [of ls b] assms(1,3) by (simp add: assms(2))
  have "ltv_pack (ltv_build (Node i (map (\<lambda>(i, t, p). Leaf i t p) ls))) =
      ok (6 + of_nat (length body),
        LTVEntry ?subs (6 + of_nat (length body)) i typ_cont (ltv_frame i typ_cont body) True)"
    using ps [of "node_header i"] set_length_header [of "[]" i body]
    unfolding ltv_build_node ltv_pack_def LTVEntry.sel
    by (simp add: Let_def ltv_frame_def)
  then have e: "e = LTVEntry ?subs (6 + of_nat (length body)) i typ_cont (ltv_frame i typ_cont body) True"
    using assms(4) by (metis Inr_inject prod.inject)
  have "(6 + of_nat (length body) :: u32) = of_nat (6 + length body)" by simp
  then have u: "unat (6 + of_nat (length body) :: u32) = 6 + length body"
    using u32_small [of "6 + length body"] assms(3) by (simp del: of_nat_add)
  have sl: "ltv_set_length (ltv_frame i typ_cont body @ body) 0 l =
      be_bytes 4 l @ [i, typ_cont] @ body @ body" for l
    by (simp add: ltv_set_length_def ltv_frame_def)
  have f: "length (ltv_frame i typ_cont body) = 6 + length body" by simp
  show ?thesis
    unfolding e ltv_pack_def LTVEntry.sel u
    using ps [of "ltv_frame i typ_cont body"] sl f
    by (simp add: Let_def) (simp add: ltv_frame_def ac_simps)
qed

theorem pack_twice_duplicates_witness:
  "\<exists>n e e'. ltv_pack (ltv_build (Node 1 [Leaf 2 5 [65]])) = ok (n, e) \<and> ltv_pack e = ok (20, e') \<and>
     ltv_data e' = ltv_frame 1 typ_cont (ltv_enc (Leaf 2 5 [65]) @ ltv_enc (Leaf 2 5 [65]))"
proof -
  obtain e where e: "ltv_pack (ltv_build (Node 1 [Leaf 2 5 [65]])) = ok (13, e)"
    using pack_top_build [of 1 "[Leaf 2 5 [65]]"] by (auto simp: typ_cont_def simp del: ltv_build.simps)
  from pack_twice_duplicates [of "[(2, 5, [65])]" _ 1 13 e, OF _ refl] e show ?thesis
    by (simp add: typ_cont_def del: ltv_build.simps)
qed

end
