(* ===== verification/Sockinfo.thy ===== *)
theory Sockinfo
  imports Prelude
begin

text \<open>
  Socket addresses: \<^verbatim>\<open>socketinfo.hpp\<close>, \<^verbatim>\<open>socketinfo.cpp\<close>.

  A \<^verbatim>\<open>sockaddr_storage\<close> is its 128 bytes; the code reads and writes it through the two casts
  \<^verbatim>\<open>sockaddr_in\<close> and \<^verbatim>\<open>sockaddr_in6\<close>, which are offsets here. The conversions between text and
  address of the C library are the fields of \<open>inet_api\<close>; the pseudo-random draw seeded with a list of
  words is an argument \<open>draw\<close>.
\<close>

definition AF_INET :: nat where "AF_INET = 2"
definition AF_INET6 :: nat where "AF_INET6 = 10"

record inet_api =
  pton4 :: "string \<Rightarrow> byte list option"
  pton6 :: "string \<Rightarrow> byte list option"
  ntop4 :: "byte list \<Rightarrow> string"
  ntop6 :: "byte list \<Rightarrow> string"

definition poke :: "nat \<Rightarrow> byte list \<Rightarrow> byte list \<Rightarrow> byte list" where
  "poke pos bs ss = take pos ss @ bs @ drop (pos + length bs) ss"

definition ss_family :: "byte list \<Rightarrow> nat" where
  "ss_family ss = unat (of_le (take 2 ss) :: u16)"

definition set_family :: "nat \<Rightarrow> byte list \<Rightarrow> byte list" where
  "set_family f ss = poke 0 (le_bytes 2 (of_nat f :: u16)) ss"

definition sin_port :: "byte list \<Rightarrow> byte list" where
  "sin_port ss = take 2 (drop 2 ss)"

definition sin_addr :: "byte list \<Rightarrow> byte list" where
  "sin_addr ss = take 4 (drop 4 ss)"

definition sin6_port :: "byte list \<Rightarrow> byte list" where
  "sin6_port ss = take 2 (drop 2 ss)"

definition sin6_addr :: "byte list \<Rightarrow> byte list" where
  "sin6_addr ss = take 16 (drop 8 ss)"

definition zero_storage :: "byte list" where
  "zero_storage = replicate 128 0"

record AddressInfo =
  ai_ss :: "byte list option"
  ai_family :: nat
  ai_host :: string
  ai_port :: u16

record SocketInfo =
  si_src :: AddressInfo
  si_dst :: AddressInfo

definition pack_ss :: "inet_api \<Rightarrow> nat \<Rightarrow> string \<Rightarrow> u16 \<Rightarrow> byte list" where
  "pack_ss api family host port =
     (if family = AF_INET6 then
        poke 2 (be_bytes 2 port)
          (set_family AF_INET6
            (case pton6 api host of None \<Rightarrow> zero_storage | Some a \<Rightarrow> poke 8 a zero_storage))
      else
        poke 2 (be_bytes 2 port)
          (set_family AF_INET
            (case pton4 api host of None \<Rightarrow> zero_storage | Some a \<Rightarrow> poke 4 a zero_storage)))"

definition ai_pack :: "inet_api \<Rightarrow> AddressInfo \<Rightarrow> AddressInfo" where
  "ai_pack api a = a\<lparr>ai_ss := Some (pack_ss api (ai_family a) (ai_host a) (ai_port a))\<rparr>"

text \<open>\<^verbatim>\<open>find("::ffff:") == 0\<close>, then \<^verbatim>\<open>substr(7)\<close>.\<close>

definition strip_mapped :: "string \<Rightarrow> string option" where
  "strip_mapped s = (if take 7 s = ''::ffff:'' then Some (drop 7 s) else None)"

definition ss_address_unpack :: "inet_api \<Rightarrow> byte list \<Rightarrow> nat \<times> string \<times> u16" where
  "ss_address_unpack api ss =
     (let family = ss_family ss;
          (b, val_port) =
            (if family = AF_INET6 then (ntop6 api (sin6_addr ss), of_be (sin6_port ss))
             else if family = AF_INET then (ntop4 api (sin_addr ss), of_be (sin_port ss))
             else ([], 0))
      in case strip_mapped b of
           Some b \<Rightarrow> (AF_INET, b, val_port)
         | None \<Rightarrow> (family, b, val_port))"

definition ss_address_remap :: "inet_api \<Rightarrow> byte list \<Rightarrow> byte list \<Rightarrow> nat \<times> byte list" where
  "ss_address_remap api orig mapped =
     (let (fa, ip, port) = ss_address_unpack api orig
      in (fa,
          if fa = AF_INET then
            set_family fa (poke 2 (be_bytes 2 port)
              (case pton4 api ip of None \<Rightarrow> mapped | Some a \<Rightarrow> poke 4 a mapped))
          else if fa = AF_INET6 then
            set_family fa (poke 2 (be_bytes 2 port)
              (case pton6 api ip of None \<Rightarrow> mapped | Some a \<Rightarrow> poke 8 a mapped))
          else mapped))"

definition ai_unpack :: "inet_api \<Rightarrow> AddressInfo \<Rightarrow> AddressInfo result" where
  "ai_unpack api a =
     (case ai_ss a of
        None \<Rightarrow> raise Socket_info_error
      | Some ss \<Rightarrow>
          let (f, h, p) = ss_address_unpack api ss
          in ok (a\<lparr>ai_family := f, ai_host := h, ai_port := p\<rparr>))"

definition si_pack :: "inet_api \<Rightarrow> SocketInfo \<Rightarrow> SocketInfo" where
  "si_pack api s = s\<lparr>si_src := ai_pack api (si_src s), si_dst := ai_pack api (si_dst s)\<rparr>"

definition si_unpack :: "inet_api \<Rightarrow> SocketInfo \<Rightarrow> SocketInfo result" where
  "si_unpack api s =
     (case ai_unpack api (si_src s) of
        Inl x \<Rightarrow> Inl x
      | Inr a \<Rightarrow>
          (case ai_unpack api (si_dst s) of
             Inl x \<Rightarrow> Inl x
           | Inr b \<Rightarrow> ok (s\<lparr>si_src := a, si_dst := b\<rparr>)))"

subsection \<open>Session keys\<close>

definition sign_bit :: "bool \<Rightarrow> u32 \<Rightarrow> u32" where
  "sign_bit negative r =
     (if negative then r OR push_bit 31 1 else r AND NOT (push_bit 31 1))"

definition create_session_key4 :: "(u32 list \<Rightarrow> u32) \<Rightarrow> byte list \<Rightarrow> byte list \<Rightarrow> bool \<Rightarrow> u32" where
  "create_session_key4 draw from orig negative =
     sign_bit negative
       (draw [of_le (sin_addr from), of_le (sin_addr orig),
              ucast (of_be (sin_port from) :: u16), ucast (of_be (sin_port orig) :: u16)])"

definition word_at :: "byte list \<Rightarrow> nat \<Rightarrow> u32" where
  "word_at a i = of_le (take 4 (drop (4 * i) a))"

definition create_session_key6 :: "(u32 list \<Rightarrow> u32) \<Rightarrow> byte list \<Rightarrow> byte list \<Rightarrow> bool \<Rightarrow> u32" where
  "create_session_key6 draw from orig negative =
     (let s = sin6_addr from; d = sin6_addr orig
      in sign_bit negative
       (draw [word_at s 0, word_at d 0, word_at s 1, word_at d 1,
              word_at s 2, word_at d 2, word_at s 3, word_at d 3,
              ucast (of_be (sin6_port from) :: u16), ucast (of_be (sin6_port orig) :: u16)]))"

definition create_session_key :: "inet_api \<Rightarrow> (u32 list \<Rightarrow> u32) \<Rightarrow> bool \<Rightarrow> SocketInfo \<Rightarrow> u32 \<times> SocketInfo" where
  "create_session_key api draw negative s =
     (let s = (if ai_ss (si_src s) = None then s\<lparr>si_src := ai_pack api (si_src s)\<rparr> else s);
          s = (if ai_ss (si_dst s) = None then s\<lparr>si_dst := ai_pack api (si_dst s)\<rparr> else s);
          a = the (ai_ss (si_src s)); b = the (ai_ss (si_dst s))
      in (if ai_family (si_src s) = AF_INET6 then create_session_key6 draw a b negative
          else create_session_key4 draw a b negative, s))"

subsection \<open>Properties\<close>

lemma length_zero_storage [simp]: "length zero_storage = 128"
  by (simp add: zero_storage_def)

lemma length_poke [simp]: "pos + length bs \<le> length ss \<Longrightarrow> length (poke pos bs ss) = length ss"
  by (simp add: poke_def)

lemma poke_get: "pos + length bs \<le> length ss \<Longrightarrow> take (length bs) (drop pos (poke pos bs ss)) = bs"
  by (simp add: poke_def)

lemma poke_other:
  assumes "pos + length bs \<le> length ss"
    and "at + n \<le> pos \<or> pos + length bs \<le> at"
  shows "take n (drop at (poke pos bs ss)) = take n (drop at ss)"
  using assms(2)
proof
  assume "at + n \<le> pos"
  then show ?thesis using assms(1) by (simp add: poke_def take_drop)
next
  assume "pos + length bs \<le> at"
  then show ?thesis using assms(1) by (simp add: poke_def drop_append)
qed

lemma length_set_family [simp]: "2 \<le> length ss \<Longrightarrow> length (set_family f ss) = length ss"
  by (simp add: set_family_def)

lemma family_set: "2 \<le> length ss \<Longrightarrow> f < 2 ^ 16 \<Longrightarrow> ss_family (set_family f ss) = f"
  using poke_get [of 0 "le_bytes 2 (of_nat f :: u16)" ss]
  by (simp add: ss_family_def set_family_def bytes_simps unat_of_nat)

lemma set_family_other: "2 \<le> at \<Longrightarrow> 2 \<le> length ss \<Longrightarrow> take n (drop at (set_family f ss)) = take n (drop at ss)"
  unfolding set_family_def by (rule poke_other) simp_all

lemma pack_ss_fields:
  assumes "\<And>a. pton4 api h = Some a \<Longrightarrow> length a = 4" and "\<And>a. pton6 api h = Some a \<Longrightarrow> length a = 16"
  shows "ss_family (pack_ss api f h p) = (if f = AF_INET6 then AF_INET6 else AF_INET)"
    and "sin_port (pack_ss api f h p) = be_bytes 2 p"
    and "f = AF_INET6 \<Longrightarrow> pton6 api h = Some a \<Longrightarrow> sin6_addr (pack_ss api f h p) = a"
    and "f \<noteq> AF_INET6 \<Longrightarrow> pton4 api h = Some a \<Longrightarrow> sin_addr (pack_ss api f h p) = a"
    and "length (pack_ss api f h p) = 128"
proof -
  define z where "z = (if f = AF_INET6
      then set_family AF_INET6 (case pton6 api h of None \<Rightarrow> zero_storage | Some a \<Rightarrow> poke 8 a zero_storage)
      else set_family AF_INET (case pton4 api h of None \<Rightarrow> zero_storage | Some a \<Rightarrow> poke 4 a zero_storage))"
  have p: "pack_ss api f h p = poke 2 (be_bytes 2 p) z" by (simp add: pack_ss_def z_def)
  have l: "length z = 128" using assms by (auto simp: z_def split: option.split)
  show "length (pack_ss api f h p) = 128" by (simp add: p l)
  show "sin_port (pack_ss api f h p) = be_bytes 2 p"
    using poke_get [of 2 "be_bytes 2 p" z] by (simp add: p l sin_port_def)
  have "ss_family z = (if f = AF_INET6 then AF_INET6 else AF_INET)"
    using assms by (auto simp: z_def family_set AF_INET_def AF_INET6_def split: option.split)
  then show "ss_family (pack_ss api f h p) = (if f = AF_INET6 then AF_INET6 else AF_INET)"
    using poke_other [of 2 "be_bytes 2 p" z 0 2] by (simp add: p l ss_family_def)
  show "sin6_addr (pack_ss api f h p) = a" if "f = AF_INET6" "pton6 api h = Some a"
    using that assms(2) [of a] poke_other [of 2 "be_bytes 2 p" z 8 16] poke_get [of 8 a zero_storage]
    unfolding p sin6_addr_def by (simp add: l z_def set_family_other)
  show "sin_addr (pack_ss api f h p) = a" if "f \<noteq> AF_INET6" "pton4 api h = Some a"
    using that assms(1) [of a] poke_other [of 2 "be_bytes 2 p" z 4 4] poke_get [of 4 a zero_storage]
    unfolding p sin_addr_def by (simp add: l z_def set_family_other)
qed

lemma sin6_port_eq: "sin6_port = sin_port"
  by (rule ext) (simp add: sin6_port_def sin_port_def)

text \<open>Packing an address and port and unpacking them again gives them back, for a host in the form
  the library prints it in.\<close>

theorem address_round_trip:
  assumes "ai_family a = AF_INET \<and> pton4 api (ai_host a) = Some x \<and> ntop4 api x = ai_host a \<or>
      ai_family a = AF_INET6 \<and> pton6 api (ai_host a) = Some x \<and> ntop6 api x = ai_host a"
    and "\<And>x. pton4 api (ai_host a) = Some x \<Longrightarrow> length x = 4"
    and "\<And>x. pton6 api (ai_host a) = Some x \<Longrightarrow> length x = 16"
    and "take 7 (ai_host a) \<noteq> ''::ffff:''"
  shows "ai_unpack api (ai_pack api a) = ok (ai_pack api a)"
proof -
  note f = pack_ss_fields [OF assms(2,3), where f = "ai_family a" and p = "ai_port a"]
  have "ss_address_unpack api (pack_ss api (ai_family a) (ai_host a) (ai_port a)) =
      (ai_family a, ai_host a, ai_port a)"
    using assms(1,4) f(1-4)
    by (auto simp: ss_address_unpack_def strip_mapped_def sin6_port_eq bytes_simps AF_INET_def AF_INET6_def Let_def)
  then show ?thesis by (simp add: ai_unpack_def ai_pack_def)
qed

definition demo_inet :: inet_api where
  "demo_inet = \<lparr>pton4 = (\<lambda>s. if s = ''127.0.0.1'' then Some [127, 0, 0, 1] else None), pton6 = (\<lambda>s. None),
                ntop4 = (\<lambda>a. if a = [127, 0, 0, 1] then ''127.0.0.1'' else ''0.0.0.0''), ntop6 = (\<lambda>a. ''::'')\<rparr>"

theorem address_round_trip_witness:
  "\<exists>a. a = \<lparr>ai_ss = None, ai_family = AF_INET, ai_host = ''127.0.0.1'', ai_port = 53\<rparr> \<and>
     ai_unpack demo_inet (ai_pack demo_inet a) = ok (ai_pack demo_inet a)"
  using address_round_trip [of "\<lparr>ai_ss = None, ai_family = AF_INET, ai_host = ''127.0.0.1'', ai_port = 53\<rparr>"
      demo_inet "[127, 0, 0, 1]"]
  by (simp add: demo_inet_def)

text \<open>A session key is a virtual socket number when it is asked to be: as a signed 32-bit number it is
  negative exactly for \<open>negative\<close>, whatever is drawn.\<close>

theorem session_key_sign:
  "sint (fst (create_session_key api draw negative s)) < 0 \<longleftrightarrow> negative"
proof -
  have "sint (sign_bit negative r) < 0 \<longleftrightarrow> negative" for r
  proof -
    have "sint (sign_bit negative r) < 0 \<longleftrightarrow> bit (sign_bit negative r) 31"
      by (simp add: sint_uint signed_take_bit_negative_iff bit_uint_iff)
    also have "\<dots> \<longleftrightarrow> negative" by (simp add: sign_bit_def bit_simps)
    finally show ?thesis .
  qed
  then show ?thesis
    by (simp add: create_session_key_def create_session_key4_def create_session_key6_def Let_def)
qed

end
