(* ===== verification/Pcap.thy ===== *)
theory Pcap
  imports Sockinfo
begin

text \<open>
  Capture files: \<^verbatim>\<open>traflog/pcapapi.hpp\<close>, \<^verbatim>\<open>traflog/pcapapi.cpp\<close>.

  The writers append to a \<^verbatim>\<open>buffer\<close>; here it is its bytes, since appending concatenates (the buffer's
  own theory shows when). The header structs of the C library are written field by field into their
  bytes: a field assigned through \<^verbatim>\<open>htons\<close> or \<^verbatim>\<open>htonl\<close> is \<open>be_bytes\<close>, one assigned directly is
  \<open>le_bytes\<close>, an address copied from a socket address is its bytes. \<open>now\<close> is what \<^verbatim>\<open>gettimeofday\<close>
  returns, \<open>calc\<close> the flag \<^verbatim>\<open>CONFIG::CALCULATE_CHECKSUMS\<close>. \<^verbatim>\<open>tcp_details\<close> derives from
  \<^verbatim>\<open>connection_details\<close>, as the record extends it.
\<close>

section \<open>Connections\<close>

record connection_details =
  cd_source :: "byte list"
  cd_destination :: "byte list"
  ip_id_in :: u16
  ip_id_out :: u16
  ip_version :: byte
  next_proto :: u16
  cd_ttl :: byte
  tun_proto :: u16
  tun_ttl :: byte
  tun_details :: "SocketInfo option"
  max_data_size :: int

record tcp_details = connection_details +
  seq_in :: u32
  seq_out :: u32
  tcp_lastack_in :: u32
  tcp_lastack_out :: u32

record pcap_env =
  pe_inet :: inet_api
  pe_calc :: bool
  pe_sec :: u32
  pe_usec :: u32

definition proto_TCP :: u16 where "proto_TCP = 6"
definition proto_UDP :: u16 where "proto_UDP = 17"
definition tunnel_GRE :: u16 where "tunnel_GRE = 47"

lemmas pcap_protos = proto_TCP_def proto_UDP_def tunnel_GRE_def

definition extract_ports :: "'a connection_details_scheme \<Rightarrow> byte list \<times> byte list" where
  "extract_ports d =
     (if ip_version d = 4 then (sin_port (cd_source d), sin_port (cd_destination d))
      else if ip_version d = 6 then (sin6_port (cd_source d), sin6_port (cd_destination d))
      else ([0, 0], [0, 0]))"

definition l4_header_sz :: "'a connection_details_scheme \<Rightarrow> nat result" where
  "l4_header_sz d =
     (if next_proto d = proto_TCP \<or> next_proto d = 0 then ok 20
      else if next_proto d = proto_UDP then ok 8
      else raise Invalid_argument)"

definition l3_header_sz :: "'a connection_details_scheme \<Rightarrow> nat result" where
  "l3_header_sz d =
     (if ip_version d = 4 \<or> ip_version d = 0 then ok 20
      else if ip_version d = 6 then ok 40
      else raise Invalid_argument)"

section \<open>Checksums\<close>

text \<open>The 32-bit sum is a natural number with the wrap-around written out.\<close>

fun be_words :: "byte list \<Rightarrow> nat list" where
  "be_words (a # b # xs) = unat (of_be [a, b] :: u16) # be_words xs"
| "be_words xs = []"

lemma carry_shrinks:
  assumes "65536 \<le> s"
  shows "s mod 65536 + s div 65536 < (s :: nat)"
proof -
  have "s div 65536 * 65536 + s mod 65536 = s" by (rule div_mult_mod_eq)
  moreover have "1 \<le> s div 65536" using div_le_mono [OF assms, of 65536] by simp
  ultimately show ?thesis by linarith
qed

function fold_carry :: "nat \<Rightarrow> nat" where
  "fold_carry s = (if 65536 \<le> s then fold_carry (s mod 65536 + s div 65536) else s)"
  by pat_completeness auto
termination
  by (relation "measure id") (simp_all add: carry_shrinks)

declare fold_carry.simps [simp del]

definition iphdr_cksum :: "bool \<Rightarrow> byte list \<Rightarrow> u16" where
  "iphdr_cksum calc data =
     (if \<not> calc then 0 else NOT (of_nat (fold_carry (sum_list (be_words data) mod 2 ^ 32)) :: u16))"

definition l4hdr_cksum :: "bool \<Rightarrow> byte list \<Rightarrow> byte list \<Rightarrow> byte list \<Rightarrow> u16" where
  "l4hdr_cksum calc hdr nxt payload =
     (if \<not> calc then 0
      else iphdr_cksum calc (hdr @ nxt @ payload @ (if odd (length payload) then [0] else [])))"

text \<open>The pseudo header: addresses, a zero, the protocol, the length of the next header and the
  payload.\<close>

definition pseudoheader :: "byte list \<Rightarrow> byte list \<Rightarrow> byte \<Rightarrow> nat \<Rightarrow> nat \<Rightarrow> byte list" where
  "pseudoheader src dst proto payload_size next_sz =
     src @ dst @ [0, proto] @ be_bytes 2 (of_nat (payload_size + next_sz) :: u16)"

definition L4_chksum :: "bool \<Rightarrow> 'a connection_details_scheme \<Rightarrow> int \<Rightarrow> byte list \<Rightarrow> byte list \<Rightarrow> u16" where
  "L4_chksum calc d dir nxt payload =
     (if ip_version d = 4 \<or> ip_version d = 0 then
        (let (src, dst) = (if dir \<noteq> 0 then (sin_addr (cd_destination d), sin_addr (cd_source d))
                           else (sin_addr (cd_source d), sin_addr (cd_destination d)))
         in l4hdr_cksum calc (pseudoheader src dst (ucast (next_proto d)) (length payload) (length nxt))
              nxt payload)
      else if ip_version d = 6 then
        (let (src, dst) = (if dir \<noteq> 0 then (sin6_addr (cd_destination d), sin6_addr (cd_source d))
                           else (sin6_addr (cd_source d), sin6_addr (cd_destination d)))
         in l4hdr_cksum calc (pseudoheader src dst (ucast (next_proto d)) (length payload) (length nxt))
              nxt payload)
      else 0)"

section \<open>Headers\<close>

definition append_PCAP_magic :: "byte list \<Rightarrow> nat \<times> byte list" where
  "append_PCAP_magic out =
     (24, out @ le_bytes 4 (0xa1b2c3d4 :: u32) @ le_bytes 2 (2 :: u16) @ le_bytes 2 (4 :: u16) @
            le_bytes 4 (0 :: u32) @ le_bytes 4 (0 :: u32) @ le_bytes 4 (65535 :: u32) @
            le_bytes 4 (113 :: u32))"

definition pcap_caplen :: "'a connection_details_scheme \<Rightarrow> nat \<Rightarrow> nat" where
  "pcap_caplen d payload_size =
     (let l3_hdr_size = (if ip_version d = 4 \<or> ip_version d = 0 then 20 else 0);
          l3_hdr_size = (if ip_version d = 6 then 40 else l3_hdr_size);
          l4_hdr_size = (if next_proto d = proto_TCP \<or> next_proto d = 0 then 20
                         else if next_proto d = proto_UDP then 8 else 0)
      in 16 + l3_hdr_size + l4_hdr_size + payload_size)"

definition append_PCAP_header :: "pcap_env \<Rightarrow> 'a connection_details_scheme \<Rightarrow> nat \<Rightarrow> byte list \<Rightarrow> byte list" where
  "append_PCAP_header env d payload_size out =
     out @ le_bytes 4 (pe_sec env) @ le_bytes 4 (pe_usec env) @
       le_bytes 4 (of_nat (pcap_caplen d payload_size) :: u32) @
       le_bytes 4 (of_nat (pcap_caplen d payload_size) :: u32)"

definition append_LCC_header :: "'a connection_details_scheme \<Rightarrow> int \<Rightarrow> byte list \<Rightarrow> byte list" where
  "append_LCC_header d dir out =
     out @ be_bytes 2 (if dir \<noteq> 0 then 0 else 4 :: u16) @ be_bytes 2 (1 :: u16) @ be_bytes 2 (6 :: u16) @
       replicate 6 (if dir \<noteq> 0 then 2 else 1) @ [0, 0] @
       be_bytes 2 (if ip_version d = 4 then 0x0800 else if ip_version d = 6 then 0x86DD else 0 :: u16)"

definition append_GRE_header :: "'a connection_details_scheme \<Rightarrow> byte list \<Rightarrow> byte list" where
  "append_GRE_header d out =
     out @ [0, 0] @ be_bytes 2 (if ip_version d = 6 then 0x86DD else 0x0800 :: u16)"

record iphdr =
  ih_tot_len :: u16
  ih_id :: u16
  ih_ttl :: byte
  ih_protocol :: byte
  ih_check :: u16
  ih_saddr :: "byte list"
  ih_daddr :: "byte list"

definition iphdr_bytes :: "iphdr \<Rightarrow> byte list" where
  "iphdr_bytes h =
     [0x45, 0] @ be_bytes 2 (ih_tot_len h) @ le_bytes 2 (ih_id h) @ be_bytes 2 (0x4000 :: u16) @
     [ih_ttl h, ih_protocol h] @ be_bytes 2 (ih_check h) @ ih_saddr h @ ih_daddr h"

record ip6_hdr =
  i6_plen :: u16
  i6_nxt :: byte
  i6_hops :: byte
  i6_src :: "byte list"
  i6_dst :: "byte list"

definition ip6_hdr_bytes :: "ip6_hdr \<Rightarrow> byte list" where
  "ip6_hdr_bytes h =
     be_bytes 4 (0x60000000 :: u32) @ be_bytes 2 (i6_plen h) @ [i6_nxt h, i6_hops h] @ i6_src h @ i6_dst h"

text \<open>The end points as the packet has them. A tunneled odd direction packs the tunnel's addresses first,
  an even one takes them as they are.\<close>

definition tun_packed :: "pcap_env \<Rightarrow> 'a connection_details_scheme \<Rightarrow> 'a connection_details_scheme" where
  "tun_packed env d = d\<lparr>tun_details := map_option (si_pack (pe_inet env)) (tun_details d)\<rparr>"

definition ip_end_points :: "pcap_env \<Rightarrow> (byte list \<Rightarrow> byte list) \<Rightarrow> int \<Rightarrow>
    'a connection_details_scheme \<Rightarrow> (byte list \<times> byte list \<times> 'a connection_details_scheme) result" where
  "ip_end_points env addr dir d =
     (if dir mod 2 \<noteq> 0 then
        (if 1 < dir \<and> tun_details d \<noteq> None then
           (let d = tun_packed env d; t = the (tun_details d)
            in case ai_ss (si_dst t) of
                 None \<Rightarrow> raise Bad_optional_access
               | Some a \<Rightarrow>
                   (case ai_ss (si_src t) of
                      None \<Rightarrow> raise Bad_optional_access
                    | Some b \<Rightarrow> ok (addr a, addr b, d)))
         else ok (addr (cd_destination d), addr (cd_source d), d))
      else
        (if 1 < dir \<and> tun_details d \<noteq> None then
           (let t = the (tun_details d)
            in case ai_ss (si_src t) of
                 None \<Rightarrow> raise Bad_optional_access
               | Some a \<Rightarrow>
                   (case ai_ss (si_dst t) of
                      None \<Rightarrow> raise Bad_optional_access
                    | Some b \<Rightarrow> ok (addr a, addr b, d)))
         else ok (addr (cd_source d), addr (cd_destination d), d)))"

definition next_ip_id :: "int \<Rightarrow> 'a connection_details_scheme \<Rightarrow> u16 \<times> 'a connection_details_scheme" where
  "next_ip_id dir d =
     (if dir mod 2 \<noteq> 0 then (ip_id_in d, d\<lparr>ip_id_in := ip_id_in d + 1\<rparr>)
      else (ip_id_out d, d\<lparr>ip_id_out := ip_id_out d + 1\<rparr>))"

definition create_IPv4_header :: "pcap_env \<Rightarrow> int \<Rightarrow> nat \<Rightarrow> 'a connection_details_scheme \<Rightarrow>
    (iphdr \<times> 'a connection_details_scheme) result" where
  "create_IPv4_header env dir payload_size d =
     (case l4_header_sz d of
        Inl x \<Rightarrow> Inl x
      | Inr l4_sz \<Rightarrow>
          (case (if dir \<le> 1 then ok (20 + l4_sz + payload_size, ucast (next_proto d))
                 else case l3_header_sz d of
                        Inl x \<Rightarrow> Inl x
                      | Inr l3_sz \<Rightarrow>
                          if tun_proto d = tunnel_GRE
                          then ok (20 + 4 + l3_sz + l4_sz + payload_size, 47)
                          else raise Invalid_argument) of
             Inl x \<Rightarrow> Inl x
           | Inr (tot_len, proto) \<Rightarrow>
               (let (i, d) = next_ip_id dir d
                in case ip_end_points env sin_addr dir d of
                     Inl x \<Rightarrow> Inl x
                   | Inr (src, dst, d) \<Rightarrow>
                       let h = \<lparr>ih_tot_len = of_nat tot_len, ih_id = i, ih_ttl = cd_ttl d,
                                ih_protocol = proto, ih_check = 0, ih_saddr = src, ih_daddr = dst\<rparr>
                       in ok (h\<lparr>ih_check := iphdr_cksum (pe_calc env) (iphdr_bytes h)\<rparr>, d))))"

definition create_IPv6_header :: "pcap_env \<Rightarrow> int \<Rightarrow> nat \<Rightarrow> 'a connection_details_scheme \<Rightarrow>
    (ip6_hdr \<times> 'a connection_details_scheme) result" where
  "create_IPv6_header env dir payload_size d =
     (case l4_header_sz d of
        Inl x \<Rightarrow> Inl x
      | Inr l4_sz \<Rightarrow>
          (case (if dir \<le> 1 then ok (l4_sz + payload_size, ucast (next_proto d))
                 else case l3_header_sz d of
                        Inl x \<Rightarrow> Inl x
                      | Inr l3_sz \<Rightarrow>
                          if tun_proto d = tunnel_GRE
                          then ok (4 + l3_sz + l4_sz + payload_size, 47)
                          else raise Invalid_argument) of
             Inl x \<Rightarrow> Inl x
           | Inr (plen, proto) \<Rightarrow>
               (case ip_end_points env sin6_addr dir d of
                  Inl x \<Rightarrow> Inl x
                | Inr (src, dst, d) \<Rightarrow>
                    ok (\<lparr>i6_plen = of_nat plen, i6_nxt = proto, i6_hops = cd_ttl d,
                         i6_src = src, i6_dst = dst\<rparr>, d))))"

text \<open>The tunnel header replaces protocol, time to live and addresses of the header created for it; for
  IPv4 its checksum is the one of the fields before they were replaced.\<close>

definition encapulate_gre_v4 :: "pcap_env \<Rightarrow> int \<Rightarrow> nat \<Rightarrow> byte list \<Rightarrow> 'a connection_details_scheme \<Rightarrow>
    (byte list \<times> 'a connection_details_scheme) result" where
  "encapulate_gre_v4 env dir payload_size out d =
     (case create_IPv4_header env (dir + 2) payload_size d of
        Inl x \<Rightarrow> Inl x
      | Inr (h, d) \<Rightarrow>
          (let h = h\<lparr>ih_protocol := 47, ih_ttl := tun_ttl d, ih_saddr := [0, 0, 0, 0],
                     ih_daddr := [0, 0, 0, 0]\<rparr>;
               d = tun_packed env d;
               h = (case tun_details d of
                      None \<Rightarrow> h
                    | Some t \<Rightarrow>
                        (let h = (case ai_ss (si_src t) of
                                    Some ss \<Rightarrow> if ai_family (si_src t) = AF_INET
                                               then h\<lparr>ih_saddr := sin_addr ss\<rparr> else h
                                  | None \<Rightarrow> h)
                         in case ai_ss (si_dst t) of
                              Some ss \<Rightarrow> if ai_family (si_dst t) = AF_INET
                                         then h\<lparr>ih_daddr := sin_addr ss\<rparr> else h
                            | None \<Rightarrow> h))
           in ok (append_GRE_header d (out @ iphdr_bytes h), d)))"

definition encapsulate_gre_v6 :: "pcap_env \<Rightarrow> int \<Rightarrow> nat \<Rightarrow> byte list \<Rightarrow> 'a connection_details_scheme \<Rightarrow>
    (byte list \<times> 'a connection_details_scheme) result" where
  "encapsulate_gre_v6 env dir payload_size out d =
     (case create_IPv6_header env (dir + 2) payload_size d of
        Inl x \<Rightarrow> Inl x
      | Inr (h, d) \<Rightarrow>
          (let h = h\<lparr>i6_nxt := 47, i6_hops := tun_ttl d, i6_src := replicate 16 0,
                     i6_dst := replicate 16 0\<rparr>;
               d = tun_packed env d;
               h = (case tun_details d of
                      None \<Rightarrow> h
                    | Some t \<Rightarrow>
                        (let h = (case ai_ss (si_src t) of
                                    Some ss \<Rightarrow> if ai_family (si_src t) = AF_INET6
                                               then h\<lparr>i6_src := sin6_addr ss\<rparr> else h
                                  | None \<Rightarrow> h)
                         in case ai_ss (si_dst t) of
                              Some ss \<Rightarrow> if ai_family (si_dst t) = AF_INET6
                                         then h\<lparr>i6_dst := sin6_addr ss\<rparr> else h
                            | None \<Rightarrow> h))
           in ok (append_GRE_header d (out @ ip6_hdr_bytes h), d)))"

definition encapsulate :: "pcap_env \<Rightarrow> int \<Rightarrow> nat \<Rightarrow> byte list \<Rightarrow> 'a connection_details_scheme \<Rightarrow>
    (byte list \<times> 'a connection_details_scheme) result" where
  "encapsulate env dir payload_size out d =
     (if tun_proto d = tunnel_GRE then
        (case tun_details d of
           Some t \<Rightarrow> if ai_family (si_src t) = AF_INET6 then encapsulate_gre_v6 env dir payload_size out d
                     else encapulate_gre_v4 env dir payload_size out d
         | None \<Rightarrow> encapulate_gre_v4 env dir payload_size out d)
      else ok (out, d))"

definition append_IPv4_header :: "pcap_env \<Rightarrow> int \<Rightarrow> nat \<Rightarrow> byte list \<Rightarrow> 'a connection_details_scheme \<Rightarrow>
    (byte list \<times> 'a connection_details_scheme) result" where
  "append_IPv4_header env dir payload_size out d =
     (case create_IPv4_header env dir payload_size d of
        Inl x \<Rightarrow> Inl x
      | Inr (h, d) \<Rightarrow>
          (case encapsulate env dir payload_size out d of
             Inl x \<Rightarrow> Inl x
           | Inr (out, d) \<Rightarrow> ok (out @ iphdr_bytes h, d)))"

definition append_IPv6_header :: "pcap_env \<Rightarrow> int \<Rightarrow> nat \<Rightarrow> byte list \<Rightarrow> 'a connection_details_scheme \<Rightarrow>
    (byte list \<times> 'a connection_details_scheme) result" where
  "append_IPv6_header env dir payload_size out d =
     (case create_IPv6_header env dir payload_size d of
        Inl x \<Rightarrow> Inl x
      | Inr (h, d) \<Rightarrow>
          (case encapsulate env dir payload_size out d of
             Inl x \<Rightarrow> Inl x
           | Inr (out, d) \<Rightarrow> ok (out @ ip6_hdr_bytes h, d)))"

definition append_IP_header :: "pcap_env \<Rightarrow> int \<Rightarrow> nat \<Rightarrow> byte list \<Rightarrow> 'a connection_details_scheme \<Rightarrow>
    (byte list \<times> 'a connection_details_scheme) result" where
  "append_IP_header env dir payload_size out d =
     (if ip_version d = 4 then append_IPv4_header env dir payload_size out d
      else if ip_version d = 6 then append_IPv6_header env dir payload_size out d
      else ok (out, d))"

section \<open>Transport headers and frames\<close>

record tcphdr =
  th_source :: "byte list"
  th_dest :: "byte list"
  th_seq :: u32
  th_ack_seq :: u32
  th_syn :: bool
  th_fin :: bool
  th_ack :: bool
  th_check :: u16

definition tcphdr_bytes :: "tcphdr \<Rightarrow> byte list" where
  "tcphdr_bytes h =
     th_source h @ th_dest h @ be_bytes 4 (th_seq h) @ be_bytes 4 (th_ack_seq h) @
     [0x50, (if th_fin h then 1 else 0) + (if th_syn h then 2 else 0) + (if th_ack h then 16 else 0)] @
     be_bytes 2 (32768 :: u16) @ be_bytes 2 (th_check h) @ [0, 0]"

definition TCPFLAG_SYN :: byte where "TCPFLAG_SYN = 1"
definition TCPFLAG_FIN :: byte where "TCPFLAG_FIN = 2"
definition TCPFLAG_ACK :: byte where "TCPFLAG_ACK = 4"

text \<open>The sequence and acknowledge bookkeeping of one segment, then its header.\<close>

definition tcp_segment :: "int \<Rightarrow> nat \<Rightarrow> byte \<Rightarrow> 'a tcp_details_scheme \<Rightarrow> tcphdr \<times> 'a tcp_details_scheme" where
  "tcp_segment dir payload_size tcpflags d =
     (let (sport, dport) = extract_ports d;
          syn = (tcpflags AND TCPFLAG_SYN \<noteq> 0);
          fin = (tcpflags AND TCPFLAG_FIN \<noteq> 0);
          ack = (tcpflags AND TCPFLAG_ACK \<noteq> 0 \<or> tcpflags = 0);
          step = (if syn \<or> fin then 1 else of_nat payload_size) :: u32
      in if dir \<noteq> 0 then
           let h = \<lparr>th_source = dport, th_dest = sport, th_seq = seq_in d, th_ack_seq = seq_out d,
                    th_syn = syn, th_fin = fin, th_ack = ack, th_check = 0\<rparr>;
               d = d\<lparr>seq_in := seq_in d + step\<rparr>
           in if seq_out d \<noteq> tcp_lastack_in d
              then (h\<lparr>th_ack := ack \<or> \<not> syn\<rparr>, d\<lparr>tcp_lastack_in := seq_out d\<rparr>)
              else (h, d)
         else
           let h = \<lparr>th_source = sport, th_dest = dport, th_seq = seq_out d, th_ack_seq = seq_in d,
                    th_syn = syn, th_fin = fin, th_ack = ack, th_check = 0\<rparr>;
               d = d\<lparr>seq_out := seq_out d + step\<rparr>
           in if seq_in d \<noteq> tcp_lastack_out d
              then (h\<lparr>th_ack := ack \<or> \<not> syn\<rparr>, d\<lparr>tcp_lastack_out := seq_in d\<rparr>)
              else (h, d))"

definition append_TCP_header :: "pcap_env \<Rightarrow> int \<Rightarrow> byte list \<Rightarrow> byte \<Rightarrow> byte list \<Rightarrow> 'a tcp_details_scheme \<Rightarrow>
    byte list \<times> 'a tcp_details_scheme" where
  "append_TCP_header env dir payload tcpflags out d =
     (let (h, d) = tcp_segment dir (length payload) tcpflags d;
          h = h\<lparr>th_check := L4_chksum (pe_calc env) d dir (tcphdr_bytes h) payload\<rparr>
      in (out @ tcphdr_bytes h, d))"

definition udphdr_bytes :: "byte list \<Rightarrow> byte list \<Rightarrow> u16 \<Rightarrow> u16 \<Rightarrow> byte list" where
  "udphdr_bytes source dest len check = source @ dest @ be_bytes 2 len @ be_bytes 2 check"

definition append_UDP_header :: "pcap_env \<Rightarrow> int \<Rightarrow> byte list \<Rightarrow> byte list \<Rightarrow> 'a connection_details_scheme \<Rightarrow>
    byte list" where
  "append_UDP_header env dir payload out d =
     (let (sport, dport) = extract_ports d;
          (source, dest) = (if dir \<noteq> 0 then (dport, sport) else (sport, dport));
          len = of_nat (8 + length payload) :: u16;
          check = L4_chksum (pe_calc env) d dir (udphdr_bytes source dest len 0) payload
      in out @ udphdr_bytes source dest len check)"

text \<open>A frame: the data, the bytes written and the details afterwards. A negative size is the one
  failure.\<close>

definition append_TCP_frame :: "pcap_env \<Rightarrow> byte list \<Rightarrow> int \<Rightarrow> byte \<Rightarrow> byte list \<Rightarrow> 'a tcp_details_scheme \<Rightarrow>
    (byte list \<times> 'a tcp_details_scheme) result" where
  "append_TCP_frame env data dir tcpflags out d =
     (let out = append_PCAP_header env d (length data) out; out = append_LCC_header d dir out
      in case append_IP_header env dir (length data) out d of
           Inl x \<Rightarrow> Inl x
         | Inr (out, d) \<Rightarrow>
             (let (out, d) = append_TCP_header env dir data tcpflags out d in ok (out @ data, d)))"

definition append_UDP_frame :: "pcap_env \<Rightarrow> byte list \<Rightarrow> int \<Rightarrow> byte list \<Rightarrow> 'a connection_details_scheme \<Rightarrow>
    (byte list \<times> 'a connection_details_scheme) result" where
  "append_UDP_frame env data dir out d =
     (let out = append_PCAP_header env d (length data) out; out = append_LCC_header d dir out
      in case append_IP_header env dir (length data) out d of
           Inl x \<Rightarrow> Inl x
         | Inr (out, d) \<Rightarrow> ok (append_UDP_header env dir data out d @ data, d))"

section \<open>Next generation blocks\<close>

definition padding_sz32 :: "nat \<Rightarrow> nat" where
  "padding_sz32 s = (let p = 4 - sz_add s 4 mod 4 in if p = 4 then 0 else p)"

definition padding_append :: "byte list \<Rightarrow> nat \<Rightarrow> byte \<Rightarrow> byte list" where
  "padding_append out n c = out @ replicate n c"

record pcapng_shb =
  shb_options :: "byte list option"

definition shb_size :: "pcapng_shb \<Rightarrow> nat" where
  "shb_size b = (case shb_options b of None \<Rightarrow> 0 | Some o' \<Rightarrow> length o') + 28"

definition shb_append :: "pcapng_shb \<Rightarrow> byte list \<Rightarrow> nat \<times> byte list" where
  "shb_append b out =
     (let total = of_nat (shb_size b) :: u32;
          blk = le_bytes 4 (0x0A0D0D0A :: u32) @ le_bytes 4 total @ le_bytes 4 (0x1A2B3C4D :: u32) @
                le_bytes 2 (1 :: u16) @ le_bytes 2 (0 :: u16) @ le_bytes 8 (- 1 :: u64) @
                (case shb_options b of None \<Rightarrow> [] | Some o' \<Rightarrow> o') @ le_bytes 4 total
      in (length blk, out @ blk))"

record pcapng_ifb =
  ifb_link_type :: u16
  ifb_snaplen :: u32
  ifb_options :: "byte list option"

definition ifb_size :: "pcapng_ifb \<Rightarrow> nat" where
  "ifb_size b = (case ifb_options b of None \<Rightarrow> 0 | Some o' \<Rightarrow> length o') + 20"

definition ifb_append :: "pcapng_ifb \<Rightarrow> byte list \<Rightarrow> nat \<times> byte list" where
  "ifb_append b out =
     (let total = of_nat (ifb_size b) :: u32;
          blk = le_bytes 4 (1 :: u32) @ le_bytes 4 total @ le_bytes 2 (ifb_link_type b) @
                le_bytes 2 (0 :: u16) @ le_bytes 4 (ifb_snaplen b) @
                (case ifb_options b of None \<Rightarrow> [] | Some o' \<Rightarrow> o') @ le_bytes 4 total
      in (length blk, out @ blk))"

record ng_entry =
  ne_code :: u16
  ne_len :: u16
  ne_data :: "byte list option"

definition entry_size :: "ng_entry \<Rightarrow> nat" where
  "entry_size e =
     (case ne_data e of
        None \<Rightarrow> 0
      | Some d \<Rightarrow> if d = [] then 0 else 2 + 2 + length d + padding_sz32 (length d) + 4)"

definition entry_append :: "ng_entry \<Rightarrow> byte list \<Rightarrow> nat \<times> byte list" where
  "entry_append e out =
     (if entry_size e = 0 then (0, out)
      else let d = (case ne_data e of Some d \<Rightarrow> d | None \<Rightarrow> []);
               out' = padding_append (out @ le_bytes 2 (ne_code e) @ le_bytes 2 (of_nat (length d) :: u16) @ d)
                        (padding_sz32 (length d)) 0xCC
           in (length out' - length out, out'))"

definition options_size :: "ng_entry list \<Rightarrow> nat" where
  "options_size es = sum_list (map entry_size es)"

definition options_append :: "ng_entry list \<Rightarrow> byte list \<Rightarrow> nat \<times> byte list" where
  "options_append es out =
     (let (wrt, out) = fold (\<lambda>e (wrt, out). if 0 < entry_size e
                                           then let (n, out) = entry_append e out in (wrt + n, out)
                                           else (wrt, out)) es (0, out)
      in (wrt, if 0 < wrt then out @ le_bytes 4 (0 :: u32) else out))"

record pcapng_epb =
  epb_iface_id :: u32
  epb_timestamp_high :: u32
  epb_timestamp_low :: u32
  epb_captured_len :: u32
  epb_original_len :: u32
  epb_packet_data :: "byte list option"
  epb_options :: "ng_entry list option"
  epb_hook :: bool
  epb_hooked :: "byte list list"

definition epb_size :: "pcapng_epb \<Rightarrow> nat" where
  "epb_size b =
     (case epb_packet_data b of None \<Rightarrow> 0 | Some p \<Rightarrow> padding_sz32 (length p) + length p) +
     (case epb_options b of None \<Rightarrow> 0 | Some es \<Rightarrow> options_size es) + 32"

definition epb_append :: "pcap_env \<Rightarrow> pcapng_epb \<Rightarrow> byte list \<Rightarrow> nat \<times> byte list \<times> pcapng_epb" where
  "epb_append env b out =
     (let total = of_nat (epb_size b) :: u32;
          b = (if epb_timestamp_high b = 0 \<and> epb_timestamp_low b = 0
               then b\<lparr>epb_timestamp_high := pe_sec env, epb_timestamp_low := pe_usec env\<rparr> else b);
          b = (case epb_packet_data b of
                 None \<Rightarrow> b | Some p \<Rightarrow> b\<lparr>epb_captured_len := of_nat (length p)\<rparr>);
          b = b\<lparr>epb_original_len := epb_captured_len b\<rparr>;
          out1 = out @ le_bytes 4 (6 :: u32) @ le_bytes 4 total @ le_bytes 4 (epb_iface_id b) @
                 le_bytes 4 (epb_timestamp_high b) @ le_bytes 4 (epb_timestamp_low b) @
                 le_bytes 4 (epb_captured_len b) @ le_bytes 4 (epb_original_len b);
          out1 = (case epb_packet_data b of
                    None \<Rightarrow> out1 | Some p \<Rightarrow> out1 @ p @ replicate (padding_sz32 (length p)) 0xCC);
          out1 = (case epb_options b of None \<Rightarrow> out1 | Some es \<Rightarrow> snd (options_append es out1));
          out1 = out1 @ le_bytes 4 total
      in (length out1 - length out, out1, b))"

definition epb_comment :: "pcapng_epb \<Rightarrow> byte list \<Rightarrow> pcapng_epb" where
  "epb_comment b s =
     (let es = (case epb_options b of None \<Rightarrow> [] | Some es \<Rightarrow> es)
      in b\<lparr>epb_options := Some (es @ [\<lparr>ne_code = 1, ne_len = 0, ne_data = Some s\<rparr>])\<rparr>)"

text \<open>One turn of the loop of \<^verbatim>\<open>append_TCP\<close>, for the next \<open>chunk\<close> of the data, and the loop: \<open>rest\<close> is
  what is left to write, \<open>to_write\<close> the size of the next chunk.\<close>

definition epb_TCP_packet :: "pcap_env \<Rightarrow> byte list \<Rightarrow> int \<Rightarrow> byte \<Rightarrow> 'a tcp_details_scheme \<Rightarrow>
    (byte list \<times> 'a tcp_details_scheme) result" where
  "epb_TCP_packet env chunk dir tcpflags d =
     (case append_IP_header env dir (length chunk) (append_LCC_header d dir []) d of
        Inl x \<Rightarrow> Inl x
      | Inr (p, d) \<Rightarrow>
          (let (p, d) = append_TCP_header env dir chunk tcpflags p d in ok (p @ chunk, d)))"

definition with_packet :: "byte list \<Rightarrow> pcapng_epb \<Rightarrow> pcapng_epb" where
  "with_packet p b =
     (let b = b\<lparr>epb_packet_data := Some p\<rparr>
      in if epb_hook b then b\<lparr>epb_hooked := epb_hooked b @ [drop 16 p]\<rparr> else b)"

function append_TCP_loop :: "pcap_env \<Rightarrow> int \<Rightarrow> byte \<Rightarrow> nat \<Rightarrow> byte list \<Rightarrow> byte list \<Rightarrow> pcapng_epb \<Rightarrow>
    'a tcp_details_scheme \<Rightarrow> (byte list \<times> pcapng_epb \<times> 'a tcp_details_scheme) result" where
  "append_TCP_loop env dir tcpflags to_write rest out b d =
     (case epb_TCP_packet env (take to_write rest) dir tcpflags d of
        Inl x \<Rightarrow> Inl x
      | Inr (p, d) \<Rightarrow>
          (let (_, out, b) = epb_append env (with_packet p b) out; rest' = drop to_write rest
           in if rest' = [] \<or> to_write = 0 then ok (out, b, d)
              else append_TCP_loop env dir tcpflags (min to_write (length rest')) rest' out b d))"
  by pat_completeness auto
termination
  by (relation "measure (\<lambda>(_, _, _, _, rest, _, _, _). length rest)") auto

definition append_TCP :: "pcap_env \<Rightarrow> byte list \<Rightarrow> int \<Rightarrow> byte \<Rightarrow> byte list \<Rightarrow> pcapng_epb \<Rightarrow>
    'a tcp_details_scheme \<Rightarrow> (byte list \<times> pcapng_epb \<times> 'a tcp_details_scheme) result" where
  "append_TCP env data dir tcpflags out b d =
     (let to_write = (if max_data_size d \<le> 0 then length data else min (nat (max_data_size d)) (length data))
      in append_TCP_loop env dir tcpflags to_write data out b d)"

definition append_UDP :: "pcap_env \<Rightarrow> byte list \<Rightarrow> int \<Rightarrow> byte list \<Rightarrow> pcapng_epb \<Rightarrow>
    'a connection_details_scheme \<Rightarrow> (byte list \<times> pcapng_epb \<times> 'a connection_details_scheme) result" where
  "append_UDP env data dir out b d =
     (case append_IP_header env dir (length data) (append_LCC_header d dir []) d of
        Inl x \<Rightarrow> Inl x
      | Inr (p, d) \<Rightarrow>
          (let (_, out, b) = epb_append env (with_packet (append_UDP_header env dir data p d @ data) b) out
           in ok (out, b, d)))"


section \<open>Sizes of blocks\<close>

lemma padding_aligns: "s < 2 ^ 60 \<Longrightarrow> (s + padding_sz32 s) mod 4 = 0 \<and> padding_sz32 s < 4"
  unfolding padding_sz32_def Let_def by (simp add: sz_simps) presburger

definition nonempty :: "ng_entry \<Rightarrow> bool" where
  "nonempty e \<longleftrightarrow> (\<exists>d. ne_data e = Some d \<and> d \<noteq> [])"

lemma entry_size_pos: "0 < entry_size e \<longleftrightarrow> nonempty e"
  by (auto simp: entry_size_def nonempty_def split: option.split)

lemma entry_append_length:
  "entry_append e out = (n, out') \<Longrightarrow>
    n = entry_size e - 4 \<and> (\<exists>bs. out' = out @ bs \<and> length bs = entry_size e - 4)"
  by (auto simp: entry_append_def entry_size_def padding_append_def Let_def split: if_splits option.splits)

lemma options_fold:
  assumes "fold (\<lambda>e (wrt, out). if 0 < entry_size e
              then let (n, out) = entry_append e out in (wrt + n, out) else (wrt, out)) es (w, out) = (w', out')"
  shows "w' = w + sum_list (map (\<lambda>e. entry_size e - 4) es) \<and>
    (\<exists>bs. out' = out @ bs \<and> length bs = sum_list (map (\<lambda>e. entry_size e - 4) es))"
  using assms
proof (induction es arbitrary: w out)
  case (Cons e es)
  obtain n o1 where e: "entry_append e out = (n, o1)" by force
  from entry_append_length [OF e] obtain bs where
    bs: "n = entry_size e - 4" "o1 = out @ bs" "length bs = entry_size e - 4" by blast
  show ?case
  proof (cases "0 < entry_size e")
    case True
    then obtain cs where "w' = w + n + sum_list (map (\<lambda>e. entry_size e - 4) es)" "out' = o1 @ cs"
        "length cs = sum_list (map (\<lambda>e. entry_size e - 4) es)"
      using Cons.IH [of "w + n" o1] Cons.prems e by auto
    then show ?thesis using bs by auto
  next
    case False
    then show ?thesis using Cons.IH [of w out] Cons.prems by auto
  qed
qed simp

lemma entry_size_split: "entry_size e = (entry_size e - 4) + (if nonempty e then 4 else 0)"
  by (auto simp: entry_size_def nonempty_def split: option.split)

lemma options_size_split:
  "options_size es = sum_list (map (\<lambda>e. entry_size e - 4) es) + 4 * length (filter nonempty es)"
proof (induction es)
  case (Cons e es)
  then show ?case using entry_size_split [of e] by (auto simp: options_size_def split: if_splits)
qed (simp add: options_size_def)

lemma options_append_length:
  "\<exists>bs. snd (options_append es out) = out @ bs \<and>
     length bs + 4 * length (filter nonempty es) =
       options_size es + (if filter nonempty es = [] then 0 else 4)"
proof -
  obtain w o1 where f: "fold (\<lambda>e (wrt, out). if 0 < entry_size e
      then let (n, out) = entry_append e out in (wrt + n, out) else (wrt, out)) es (0, out) = (w, o1)"
    by force
  from options_fold [OF f] obtain bs where
    w: "w = sum_list (map (\<lambda>e. entry_size e - 4) es)" "o1 = out @ bs" "length bs = w" by auto
  have "0 < w \<longleftrightarrow> filter nonempty es \<noteq> []"
    unfolding w(1) by (induction es) (auto simp: entry_size_def nonempty_def split: option.split)
  then show ?thesis
    using f w options_size_split [of es] by (auto simp: options_append_def)
qed

text \<open>An enhanced packet block says how long it is, to the byte, as long as it
  carries at most one comment; with \<open>n\<close> comments the length it states is \<open>4 * (n - 1)\<close> bytes more
  than what is written.\<close>

theorem epb_states_its_length:
  assumes "epb_append env b out = (n, out', b')"
  shows "\<exists>blk. out' = out @ blk \<and> n = length blk \<and> take 4 (drop 4 blk) = le_bytes 4 (of_nat (epb_size b) :: u32) \<and>
    length blk + 4 * (length (filter nonempty (case epb_options b of None \<Rightarrow> [] | Some es \<Rightarrow> es)) - 1)
      = epb_size b"
proof -
  define b1 where "b1 = (if epb_timestamp_high b = 0 \<and> epb_timestamp_low b = 0
     then b\<lparr>epb_timestamp_high := pe_sec env, epb_timestamp_low := pe_usec env\<rparr> else b)"
  define b2 where "b2 = (case epb_packet_data b1 of
     None \<Rightarrow> b1 | Some p \<Rightarrow> b1\<lparr>epb_captured_len := of_nat (length p)\<rparr>)"
  define b3 where "b3 = b2\<lparr>epb_original_len := epb_captured_len b2\<rparr>"
  have f: "epb_packet_data b3 = epb_packet_data b" "epb_options b3 = epb_options b"
    by (auto simp: b3_def b2_def b1_def split: option.split)
  define hd where "hd = le_bytes 4 (6 :: u32) @ le_bytes 4 (of_nat (epb_size b) :: u32) @ le_bytes 4 (epb_iface_id b3) @
     le_bytes 4 (epb_timestamp_high b3) @ le_bytes 4 (epb_timestamp_low b3) @
     le_bytes 4 (epb_captured_len b3) @ le_bytes 4 (epb_original_len b3)"
  define pk where "pk = (case epb_packet_data b of
     None \<Rightarrow> [] | Some p \<Rightarrow> p @ replicate (padding_sz32 (length p)) (0xCC :: byte))"
  define es where "es = (case epb_options b of None \<Rightarrow> [] | Some es \<Rightarrow> es)"
  obtain bs where bs: "snd (options_append es (out @ hd @ pk)) = out @ hd @ pk @ bs"
      "length bs + 4 * length (filter nonempty es) = options_size es + (if filter nonempty es = [] then 0 else 4)"
    using options_append_length [of es "out @ hd @ pk"] by auto
  define blk where "blk = hd @ pk @ bs @ le_bytes 4 (of_nat (epb_size b) :: u32)"
  have o1: "(case epb_packet_data b of
         None \<Rightarrow> out @ hd | Some p \<Rightarrow> (out @ hd) @ p @ replicate (padding_sz32 (length p)) 0xCC) = out @ hd @ pk"
    by (simp add: pk_def split: option.split)
  have o2: "(case epb_options b of
         None \<Rightarrow> out @ hd @ pk | Some es \<Rightarrow> snd (options_append es (out @ hd @ pk))) = out @ hd @ pk @ bs"
    using bs(1) by (cases "epb_options b") (simp_all add: es_def options_append_def)
  have r: "n = length blk" "out' = out @ blk"
    using assms unfolding epb_append_def Let_def b1_def [symmetric] b2_def [symmetric] b3_def [symmetric] f
      hd_def [symmetric] o1 o2 by (simp_all add: blk_def)
  have z: "epb_size b = length pk + options_size es + 32"
    by (simp add: epb_size_def pk_def es_def options_size_def split: option.split)
  have "length blk = 32 + length pk + length bs" by (simp add: blk_def hd_def)
  moreover have "length (filter nonempty es) = 0 \<longleftrightarrow> filter nonempty es = []" by simp
  ultimately have "length blk + 4 * (length (filter nonempty es) - 1) = epb_size b"
    using bs(2) z by (cases "length (filter nonempty es)") (auto split: if_splits)
  moreover have "take 4 (drop 4 blk) = le_bytes 4 (of_nat (epb_size b) :: u32)"
    by (simp add: blk_def hd_def)
  ultimately show ?thesis using r unfolding es_def by blast
qed

theorem epb_states_its_length_witness:
  "\<exists>n out' b' blk. epb_append \<lparr>pe_inet = demo_inet, pe_calc = False, pe_sec = 1, pe_usec = 2\<rparr>
      (epb_comment (epb_comment \<lparr>epb_iface_id = 0, epb_timestamp_high = 0, epb_timestamp_low = 0,
         epb_captured_len = 0, epb_original_len = 0, epb_packet_data = Some [1, 2, 3], epb_options = None,
         epb_hook = False, epb_hooked = []\<rparr> [65]) [66]) [] = (n, out', b') \<and> out' = blk \<and> length blk + 4 = 60"
proof -
  let ?e = "\<lparr>pe_inet = demo_inet, pe_calc = False, pe_sec = 1, pe_usec = 2\<rparr>"
  let ?b = "epb_comment (epb_comment \<lparr>epb_iface_id = 0, epb_timestamp_high = 0, epb_timestamp_low = 0,
         epb_captured_len = 0, epb_original_len = 0, epb_packet_data = Some [1, 2, 3], epb_options = None,
         epb_hook = False, epb_hooked = []\<rparr> [65]) [66]"
  obtain n out' b' where r: "epb_append ?e ?b [] = (n, out', b')" by (metis prod_cases3)
  have "epb_size ?b = 60"
    by (simp add: epb_size_def epb_comment_def options_size_def entry_size_def padding_sz32_def sz_add_def)
  then show ?thesis
    using epb_states_its_length [OF r] r by (auto simp: epb_comment_def nonempty_def)
qed

section \<open>Checksums verify\<close>

lemma fold_carry_bound: "fold_carry s < 65536"
proof (induction s rule: fold_carry.induct)
  case (1 s)
  then show ?case by (cases "65536 \<le> s") (simp_all add: fold_carry.simps [of s])
qed

lemma fold_carry_mod: "fold_carry s mod 65535 = s mod 65535"
proof (induction s rule: fold_carry.induct)
  case (1 s)
  have "(s mod 65536 + s div 65536) mod 65535 = s mod 65535"
  proof -
    have "s mod 65535 = (s div 65536 * 65536 + s mod 65536) mod 65535" by simp
    also have "s div 65536 * 65536 + s mod 65536 = 65535 * (s div 65536) + (s mod 65536 + s div 65536)" by simp
    finally show ?thesis by (metis mod_mult_self4 mult.commute)
  qed
  with 1 show ?case by (cases "65536 \<le> s") (simp_all add: fold_carry.simps [of s])
qed

lemma fold_carry_pos: "0 < s \<Longrightarrow> 0 < fold_carry s"
proof (induction s rule: fold_carry.induct)
  case (1 s)
  show ?case
  proof (cases "65536 \<le> s")
    case True
    then have "0 < s div 65536" by simp
    then show ?thesis using 1 True by (simp add: fold_carry.simps [of s])
  next
    case False
    then show ?thesis using 1 by (simp add: fold_carry.simps [of s])
  qed
qed

text \<open>Adding the complement of the folded sum gives a sum that folds to all ones.\<close>

lemma complement_folds:
  assumes "0 < s"
  shows "fold_carry (s + (65535 - fold_carry s)) = 65535"
proof -
  let ?f = "fold_carry s"
  have f: "?f \<le> 65535" using fold_carry_bound [of s] by simp
  have "(s + (65535 - ?f)) mod 65535 = (?f + (65535 - ?f)) mod 65535"
    using fold_carry_mod [of s] by (metis mod_add_left_eq)
  also have "\<dots> = 0" using f by simp
  finally have "fold_carry (s + (65535 - ?f)) mod 65535 = 0" by (simp add: fold_carry_mod)
  moreover have "0 < fold_carry (s + (65535 - ?f))" using assms by (intro fold_carry_pos) simp
  moreover have "fold_carry (s + (65535 - ?f)) < 65536" by (rule fold_carry_bound)
  moreover obtain k where "fold_carry (s + (65535 - ?f)) = 65535 * k" using calculation(1) by auto
  ultimately show ?thesis by (cases k) auto
qed

lemma be_words_append: "even (length xs) \<Longrightarrow> be_words (xs @ ys) = be_words xs @ be_words ys"
  by (induction xs rule: be_words.induct) simp_all

lemma be_words_bound: "\<forall>w\<in>set (be_words xs). w < 65536"
proof (induction xs rule: be_words.induct)
  case (1 a b xs)
  have "unat (of_be [a, b] :: u16) < 65536" using unsigned_less [of "of_be [a, b] :: u16", where 'a = nat] by simp
  with 1 show ?case by simp
qed simp_all

lemma length_be_words: "length (be_words xs) = length xs div 2"
  by (induction xs rule: be_words.induct) simp_all

lemma sum_be_words: "length xs \<le> 65536 \<Longrightarrow> sum_list (be_words xs) < 2 ^ 31 + 1"
proof -
  assume l: "length xs \<le> 65536"
  have "sum_list (be_words xs) \<le> length (be_words xs) * 65535"
  proof -
    have "\<forall>w\<in>set ws. w < 65536 \<Longrightarrow> sum_list ws \<le> length ws * 65535" for ws :: "nat list"
      by (induction ws) auto
    then show ?thesis using be_words_bound [of xs] by blast
  qed
  also have "\<dots> \<le> 32768 * 65535" using l by (intro mult_right_mono) (simp_all add: length_be_words)
  finally show ?thesis by simp
qed

lemma be_words_single: "be_words (be_bytes 2 (c :: u16)) = [unat c]"
proof -
  have "be_bytes 2 c = [be_bytes 2 c ! 0, be_bytes 2 c ! 1]"
    by (rule nth_equalityI) (auto simp: less_Suc_eq numeral_2_eq_2)
  then obtain a b where ab: "be_bytes 2 c = [a, b]" by blast
  then have "of_be [a, b] = c" using be16.dec_enc [of c] by simp
  then show ?thesis by (simp add: ab)
qed

lemma unat_not_of_nat: "n \<le> 65535 \<Longrightarrow> unat (NOT (of_nat n :: u16)) = 65535 - n"
proof -
  assume n: "n \<le> 65535"
  have "NOT (of_nat n :: u16) = - of_nat n - 1" by (rule not_eq_complement)
  also have "\<dots> = of_nat (65535 - n)" using n by (simp add: of_nat_diff)
  finally show ?thesis using n by (simp add: unat_of_nat del: of_nat_diff)
qed

lemma checksum_verifies:
  assumes "even (length pre)" and "length pre + 2 + length post \<le> 65536"
    and "0 < sum_list (be_words pre)"
    and "c = iphdr_cksum True (pre @ [0, 0] @ post)"
  shows "iphdr_cksum True (pre @ be_bytes 2 c @ post) = 0"
proof -
  define s where "s = sum_list (be_words pre) + sum_list (be_words post)"
  have z: "be_words ([0, 0] @ post) = 0 # be_words post" by (simp add: of_be_def)
  have b: "s < 2 ^ 31 + 1"
    using sum_be_words [of "pre @ post"] assms(1,2) by (simp add: s_def be_words_append)
  have w: "be_words (pre @ [0, 0] @ post) = be_words pre @ 0 # be_words post"
    unfolding be_words_append [OF assms(1)] z ..
  have c: "c = NOT (of_nat (fold_carry s) :: u16)"
    using b unfolding assms(4) iphdr_cksum_def w by (simp add: s_def)
  have uc: "unat c = 65535 - fold_carry s"
    unfolding c using fold_carry_bound [of s] by (intro unat_not_of_nat) simp
  have "be_words (pre @ be_bytes 2 c @ post) = be_words pre @ unat c # be_words post"
    by (simp add: be_words_append assms(1) be_words_single)
  then have "sum_list (be_words (pre @ be_bytes 2 c @ post)) = s + (65535 - fold_carry s)"
    by (simp add: s_def uc)
  moreover have "s + (65535 - fold_carry s) < 2 ^ 32" using b by simp
  moreover have "0 < s" using assms(3) by (simp add: s_def)
  ultimately show ?thesis by (simp add: iphdr_cksum_def complement_folds)
qed

lemma be_zero: "be_bytes 2 (0 :: u16) = [0, 0]"
  by code_simp

text \<open>The IPv4 headers of captured packets verify: with checksums on, summing a created header gives zero.\<close>

theorem ip_header_checksum_verifies:
  assumes "create_IPv4_header env dir n d = ok (h, d')" and "pe_calc env"
    and "length (ih_saddr h) = 4" and "length (ih_daddr h) = 4"
  shows "iphdr_cksum True (iphdr_bytes h) = 0"
proof -
  define h0 where "h0 = h\<lparr>ih_check := 0\<rparr>"
  have c: "ih_check h = iphdr_cksum True (iphdr_bytes h0)"
    using assms(1,2)
    by (auto simp: create_IPv4_header_def h0_def Let_def split_beta split: sum.splits if_splits)
  define pre where "pre = [0x45, 0] @ be_bytes 2 (ih_tot_len h) @ le_bytes 2 (ih_id h) @
     be_bytes 2 (0x4000 :: u16) @ [ih_ttl h, ih_protocol h]"
  have b: "iphdr_bytes h = pre @ be_bytes 2 (ih_check h) @ ih_saddr h @ ih_daddr h"
    "iphdr_bytes h0 = pre @ [0, 0] @ ih_saddr h @ ih_daddr h"
    by (simp_all add: iphdr_bytes_def pre_def h0_def be_zero)
  have "0 < sum_list (be_words pre)"
  proof -
    have "unat (of_be [0x45, 0 :: byte] :: u16) = 0x4500" by code_simp
    then show ?thesis by (simp add: pre_def)
  qed
  moreover have "even (length pre)" "length pre + 2 + length (ih_saddr h @ ih_daddr h) \<le> 65536"
    using assms(3,4) by (simp_all add: pre_def)
  ultimately show ?thesis unfolding b(1) by (intro checksum_verifies c [unfolded b(2)])
qed

definition demo_env :: pcap_env where
  "demo_env = \<lparr>pe_inet = demo_inet, pe_calc = True, pe_sec = 1, pe_usec = 2\<rparr>"

definition demo_conn :: tcp_details where
  "demo_conn = \<lparr>cd_source = replicate 128 1, cd_destination = replicate 128 2, ip_id_in = 0, ip_id_out = 0,
     ip_version = 4, next_proto = 6, cd_ttl = 32, tun_proto = 0, tun_ttl = 1, tun_details = None,
     max_data_size = 1380, seq_in = 0, seq_out = 0, tcp_lastack_in = 0, tcp_lastack_out = 0\<rparr>"

theorem ip_header_checksum_verifies_witness:
  "\<exists>h d'. create_IPv4_header demo_env 0 10 demo_conn = ok (h, d') \<and> iphdr_cksum True (iphdr_bytes h) = 0"
proof -
  obtain h d' where r: "create_IPv4_header demo_env 0 10 demo_conn = ok (h, d')"
      "length (ih_saddr h) = 4" "length (ih_daddr h) = 4"
    by (simp add: create_IPv4_header_def demo_conn_def l4_header_sz_def pcap_protos next_ip_id_def
        ip_end_points_def sin_addr_def)
  then show ?thesis using ip_header_checksum_verifies [OF r(1)] by (auto simp: demo_env_def)
qed

section \<open>Capture files read back\<close>

definition l3_len :: "'a connection_details_scheme \<Rightarrow> nat" where
  "l3_len d = (if ip_version d = 6 then 40 else 20)"

text \<open>A TCP connection over IPv4 or IPv6, not tunneled.\<close>

definition plain_tcp :: "'a connection_details_scheme \<Rightarrow> bool" where
  "plain_tcp d \<longleftrightarrow> tun_proto d \<noteq> tunnel_GRE \<and> ip_version d \<in> {4, 6} \<and> next_proto d = proto_TCP \<and>
     length (cd_source d) = 128 \<and> length (cd_destination d) = 128"

lemma plain_tcp_ids [simp]: "plain_tcp (d\<lparr>ip_id_in := i, ip_id_out := j\<rparr>) = plain_tcp d"
  by (simp add: plain_tcp_def)

lemma l3_len_ids [simp]: "l3_len (d\<lparr>ip_id_in := i, ip_id_out := j\<rparr>) = l3_len d"
  by (simp add: l3_len_def)

lemma ids_self: "(d :: 'a connection_details_scheme)\<lparr>ip_id_in := ip_id_in d, ip_id_out := ip_id_out d\<rparr> = d"
  by simp

lemma append_IP_plain:
  assumes "plain_tcp d" and "dir \<le> 1"
  shows "\<exists>h i j. append_IP_header env dir n out d = ok (out @ h, d\<lparr>ip_id_in := i, ip_id_out := j\<rparr>) \<and>
    length h = l3_len d"
proof -
  have l4: "l4_header_sz d = ok 20" using assms(1) by (simp add: plain_tcp_def l4_header_sz_def)
  have lens: "length (sin_addr (cd_source d)) = 4" "length (sin_addr (cd_destination d)) = 4"
    "length (sin6_addr (cd_source d)) = 16" "length (sin6_addr (cd_destination d)) = 16"
    using assms(1) by (simp_all add: plain_tcp_def sin_addr_def sin6_addr_def)
  have enc: "encapsulate env dir n out x = ok (out, x)" if "tun_proto x = tun_proto d" for x
    using assms(1) that by (simp add: encapsulate_def plain_tcp_def)
  show ?thesis
  proof (cases "ip_version d = 4")
    case True
    have v6: "ip_version d \<noteq> 6" using True by simp
    have "\<exists>h i j. create_IPv4_header env dir n d = ok (h, d\<lparr>ip_id_in := i, ip_id_out := j\<rparr>) \<and>
        length (iphdr_bytes h) = 20"
    proof (cases "dir mod 2 \<noteq> 0")
      case odd: True
      show ?thesis
        using assms(2) odd lens
        by (simp add: create_IPv4_header_def l4 next_ip_id_def ip_end_points_def iphdr_bytes_def Let_def)
           (rule exI [of _ "ip_id_in d + 1"], rule exI [of _ "ip_id_out d"], simp)
    next
      case even: False
      then show ?thesis
        using assms(2) lens
        by (simp add: create_IPv4_header_def l4 next_ip_id_def ip_end_points_def iphdr_bytes_def Let_def)
           (rule exI [of _ "ip_id_in d"], rule exI [of _ "ip_id_out d + 1"], simp)
    qed
    then obtain h i j where h: "create_IPv4_header env dir n d = ok (h, d\<lparr>ip_id_in := i, ip_id_out := j\<rparr>)"
        "length (iphdr_bytes h) = 20" by blast
    have "append_IP_header env dir n out d = ok (out @ iphdr_bytes h, d\<lparr>ip_id_in := i, ip_id_out := j\<rparr>)"
      using True h(1) enc [of "d\<lparr>ip_id_in := i, ip_id_out := j\<rparr>"]
      by (simp add: append_IP_header_def append_IPv4_header_def)
    then show ?thesis using h(2) v6 by (auto simp: l3_len_def)
  next
    case False
    then have v6: "ip_version d = 6" using assms(1) by (simp add: plain_tcp_def)
    have "\<exists>h. create_IPv6_header env dir n d = ok (h, d) \<and> length (ip6_hdr_bytes h) = 40"
      using assms(2) lens
      by (cases "dir mod 2 \<noteq> 0")
         (simp_all add: create_IPv6_header_def l4 ip_end_points_def ip6_hdr_bytes_def)
    then obtain h where h: "create_IPv6_header env dir n d = ok (h, d)" "length (ip6_hdr_bytes h) = 40"
      by blast
    have "append_IP_header env dir n out d = ok (out @ ip6_hdr_bytes h, d)"
      using v6 h(1) enc [of d] by (simp add: append_IP_header_def append_IPv6_header_def)
    then show ?thesis using h(2) v6 ids_self [of d] by (metis l3_len_def)
  qed
qed

lemma plain_tcp_seqs [simp]:
  "plain_tcp (d\<lparr>seq_in := a\<rparr>) = plain_tcp d" "plain_tcp (d\<lparr>seq_out := a\<rparr>) = plain_tcp d"
  "plain_tcp (d\<lparr>tcp_lastack_in := a\<rparr>) = plain_tcp d" "plain_tcp (d\<lparr>tcp_lastack_out := a\<rparr>) = plain_tcp d"
  by (simp_all add: plain_tcp_def)

lemma l3_len_seqs [simp]:
  "l3_len (d\<lparr>seq_in := a\<rparr>) = l3_len d" "l3_len (d\<lparr>seq_out := a\<rparr>) = l3_len d"
  "l3_len (d\<lparr>tcp_lastack_in := a\<rparr>) = l3_len d" "l3_len (d\<lparr>tcp_lastack_out := a\<rparr>) = l3_len d"
  by (simp_all add: l3_len_def)

definition my_seq :: "int \<Rightarrow> 'a tcp_details_scheme \<Rightarrow> u32" where
  "my_seq dir d = (if dir \<noteq> 0 then seq_in d else seq_out d)"

definition seq_step :: "byte \<Rightarrow> nat \<Rightarrow> u32" where
  "seq_step tcpflags n =
     (if tcpflags AND TCPFLAG_SYN \<noteq> 0 \<or> tcpflags AND TCPFLAG_FIN \<noteq> 0 then 1 else of_nat n)"

lemma my_seq_ids [simp]: "my_seq dir (d\<lparr>ip_id_in := i, ip_id_out := j\<rparr>) = my_seq dir d"
  by (simp add: my_seq_def)

lemma ports_len:
  "plain_tcp d \<Longrightarrow> length (fst (extract_ports d)) = 2 \<and> length (snd (extract_ports d)) = 2"
  by (auto simp: extract_ports_def plain_tcp_def sin_port_def sin6_port_def)

lemma tcp_segment_props:
  assumes "plain_tcp d" and "tcp_segment dir n fl d = (h, d')"
  shows "length (tcphdr_bytes (h\<lparr>th_check := c\<rparr>)) = 20"
    and "th_seq h = my_seq dir d" and "my_seq dir d' = my_seq dir d + seq_step fl n"
    and "plain_tcp d'" and "l3_len d' = l3_len d" and "max_data_size d' = max_data_size d"
  using assms ports_len [OF assms(1)]
  by (auto simp: tcp_segment_def Let_def split_beta my_seq_def seq_step_def tcphdr_bytes_def split: if_splits)

lemma tcphdr_seq: "length (th_source h) = 2 \<Longrightarrow> length (th_dest h) = 2 \<Longrightarrow>
    take 4 (drop 4 (tcphdr_bytes h)) = be_bytes 4 (th_seq h)"
  by (simp add: tcphdr_bytes_def)

lemma append_TCP_header_plain:
  assumes "plain_tcp d"
  shows "\<exists>h d'. append_TCP_header env dir payload fl out d = (out @ h, d') \<and> length h = 20 \<and>
    take 4 (drop 4 h) = be_bytes 4 (my_seq dir d) \<and>
    my_seq dir d' = my_seq dir d + seq_step fl (length payload) \<and> plain_tcp d' \<and> l3_len d' = l3_len d \<and>
    max_data_size d' = max_data_size d"
proof -
  obtain h d' where s: "tcp_segment dir (length payload) fl d = (h, d')" by force
  note p = tcp_segment_props [OF assms s]
  have "length (th_source h) = 2" "length (th_dest h) = 2"
    using s ports_len [OF assms]
    by (auto simp: tcp_segment_def Let_def split_beta split: if_splits)
  then show ?thesis
    using p by (simp add: append_TCP_header_def s tcphdr_seq)
qed

lemma pcap_caplen_plain: "plain_tcp d \<Longrightarrow> pcap_caplen d n = 36 + l3_len d + n"
  by (auto simp: pcap_caplen_def plain_tcp_def l3_len_def Let_def)

lemma LCC_len: "append_LCC_header d dir out = out @ append_LCC_header d dir []"
  "length (append_LCC_header d dir []) = 16"
  by (simp_all add: append_LCC_header_def)

lemma append_TCP_frame_plain:
  assumes "plain_tcp d" and "dir \<le> 1"
  shows "\<exists>body d'. append_TCP_frame env data dir fl out d =
      ok (out @ le_bytes 4 (pe_sec env) @ le_bytes 4 (pe_usec env) @
          le_bytes 4 (of_nat (length body + length data) :: u32) @
          le_bytes 4 (of_nat (length body + length data) :: u32) @ body @ data, d') \<and>
    length body = 36 + l3_len d \<and> plain_tcp d' \<and> l3_len d' = l3_len d"
proof -
  define o1 where "o1 = append_LCC_header d dir (append_PCAP_header env d (length data) out)"
  obtain h i j where h: "append_IP_header env dir (length data) o1 d = ok (o1 @ h, d\<lparr>ip_id_in := i, ip_id_out := j\<rparr>)"
      "length h = l3_len d"
    using append_IP_plain [OF assms] by blast
  have p: "plain_tcp (d\<lparr>ip_id_in := i, ip_id_out := j\<rparr>)" using assms(1) by simp
  obtain t d' where t: "append_TCP_header env dir data fl (o1 @ h) (d\<lparr>ip_id_in := i, ip_id_out := j\<rparr>) =
      ((o1 @ h) @ t, d')" "length t = 20" "plain_tcp d'" "l3_len d' = l3_len d"
    using append_TCP_header_plain [OF p, of env dir data fl "o1 @ h"] by auto
  let ?body = "append_LCC_header d dir [] @ h @ t"
  have l: "length ?body = 36 + l3_len d" using h(2) t(2) LCC_len(2) [of d dir] by simp
  have o1: "o1 = append_PCAP_header env d (length data) out @ append_LCC_header d dir []"
    unfolding o1_def by (rule LCC_len(1))
  have c: "pcap_caplen d (length data) = length ?body + length data"
    using pcap_caplen_plain [OF assms(1)] l by simp
  have "append_TCP_frame env data dir fl out d = ok (o1 @ h @ t @ data, d')"
    unfolding append_TCP_frame_def Let_def o1_def [symmetric] using h(1) t(1) by simp
  also have "o1 @ h @ t @ data = out @ le_bytes 4 (pe_sec env) @ le_bytes 4 (pe_usec env) @
      le_bytes 4 (of_nat (length ?body + length data) :: u32) @
      le_bytes 4 (of_nat (length ?body + length data) :: u32) @ ?body @ data"
    unfolding o1 append_PCAP_header_def c by simp
  finally show ?thesis using l t(3,4) by blast
qed

fun write_frames :: "pcap_env \<Rightarrow> (byte list \<times> int \<times> byte) list \<Rightarrow> byte list \<Rightarrow> 'a tcp_details_scheme \<Rightarrow>
    (byte list \<times> 'a tcp_details_scheme) result" where
  "write_frames env [] out d = ok (out, d)"
| "write_frames env ((data, dir, fl) # ms) out d =
     (case append_TCP_frame env data dir fl out d of
        Inl x \<Rightarrow> Inl x
      | Inr (out, d) \<Rightarrow> write_frames env ms out d)"

text \<open>What a reader of the format does: 16 bytes of header, then as many bytes as the capture length
  at offset 8 says.\<close>

definition read_frame :: "byte list \<Rightarrow> (byte list \<times> byte list) option" where
  "read_frame bs =
     (let c = unat (of_le (take 4 (drop 8 bs)) :: u32)
      in if length bs < 16 + c then None else Some (take c (drop 16 bs), drop (16 + c) bs))"

fun read_frames :: "nat \<Rightarrow> byte list \<Rightarrow> byte list list option" where
  "read_frames 0 bs = (if bs = [] then Some [] else None)"
| "read_frames (Suc n) bs =
     (case read_frame bs of
        None \<Rightarrow> None
      | Some (f, bs) \<Rightarrow> map_option ((#) f) (read_frames n bs))"

lemma read_frame_written:
  assumes "length body < 2 ^ 32"
  shows "read_frame (le_bytes 4 s @ le_bytes 4 u @ le_bytes 4 (of_nat (length body) :: u32) @
     le_bytes 4 l @ body @ rest) = Some (body, rest)"
proof -
  have "unat (of_nat (length body) :: u32) = length body" using assms by (simp add: unat_of_nat)
  then show ?thesis by (simp add: read_frame_def bytes_simps)
qed

text \<open>C11: A capture file is readable: the frames written for a connection that is not tunneled, in any
  number, directions and flags, come back one by one, each ending with its data.\<close>

theorem capture_reads_back:
  assumes "plain_tcp d" and "\<forall>(data, dir, fl)\<in>set ms. dir \<le> 1 \<and> length data + 76 < 2 ^ 32"
  shows "\<exists>out' d' fs. write_frames env ms out d = ok (out @ out', d') \<and>
    read_frames (length ms) out' = Some fs \<and>
    list_all2 (\<lambda>(data, dir, fl) f. length f = 36 + l3_len d + length data \<and>
                 drop (36 + l3_len d) f = data) ms fs"
  using assms
proof (induction ms arbitrary: out d)
  case Nil
  then show ?case by (simp add: exI [of _ "[]"])
next
  case (Cons m ms)
  obtain data dir fl where m: "m = (data, dir, fl)" by (metis prod_cases3)
  have dir: "dir \<le> 1" "length data + 76 < 2 ^ 32" using Cons.prems(2) by (auto simp: m)
  obtain body d1 where f: "append_TCP_frame env data dir fl out d =
      ok (out @ le_bytes 4 (pe_sec env) @ le_bytes 4 (pe_usec env) @
          le_bytes 4 (of_nat (length body + length data) :: u32) @
          le_bytes 4 (of_nat (length body + length data) :: u32) @ body @ data, d1)"
      "length body = 36 + l3_len d" "plain_tcp d1" "l3_len d1 = l3_len d"
    using append_TCP_frame_plain [OF Cons.prems(1) dir(1)] by blast
  let ?fr = "le_bytes 4 (pe_sec env) @ le_bytes 4 (pe_usec env) @
          le_bytes 4 (of_nat (length body + length data) :: u32) @
          le_bytes 4 (of_nat (length body + length data) :: u32) @ body @ data"
  have ms: "\<forall>(data, dir, fl)\<in>set ms. dir \<le> 1 \<and> length data + 76 < 2 ^ 32" using Cons.prems(2) by simp
  obtain out' d' fs where r: "write_frames env ms (out @ ?fr) d1 = ok ((out @ ?fr) @ out', d')"
      "read_frames (length ms) out' = Some fs"
      "list_all2 (\<lambda>(data, dir, fl) f. length f = 36 + l3_len d1 + length data \<and> drop (36 + l3_len d1) f = data) ms fs"
    using Cons.IH [OF f(3) ms, of "out @ ?fr"] by blast
  have "l3_len d \<le> 40" by (simp add: l3_len_def)
  then have "read_frame (?fr @ out') = Some (body @ data, out')"
    using read_frame_written [of "body @ data"] f(2) dir(2) by simp
  then have "read_frames (length (m # ms)) (?fr @ out') = Some ((body @ data) # fs)"
    using r(2) by simp
  moreover have "write_frames env (m # ms) out d = ok (out @ ?fr @ out', d')"
    using f(1) r(1) by (simp add: m)
  moreover have "list_all2 (\<lambda>(data, dir, fl) f. length f = 36 + l3_len d + length data \<and>
      drop (36 + l3_len d) f = data) (m # ms) ((body @ data) # fs)"
    using r(3) f(2,4) by (simp add: m)
  ultimately show ?case by blast
qed

theorem capture_reads_back_witness:
  "\<exists>out' d' fs. write_frames demo_env [([1, 2], 0, 4), ([3], 1, 0)] [] demo_conn = ok (out', d') \<and>
     read_frames 2 out' = Some fs"
proof -
  let ?ms = "[([1, 2], 0, 4), ([3], 1, 0)] :: (byte list \<times> int \<times> byte) list"
  have p: "plain_tcp demo_conn" by (simp add: demo_conn_def plain_tcp_def pcap_protos)
  have "\<forall>(data, dir, fl)\<in>set ?ms. dir \<le> 1 \<and> length data + 76 < 2 ^ 32" by simp
  from capture_reads_back [OF p this, of demo_env "[]"] show ?thesis
    by (auto simp: numeral_2_eq_2)
qed

section \<open>Segmentation\<close>

text \<open>A stream as a receiver sees it: the packets carry the chunks in order and number them by their
  offset.\<close>

fun carries :: "nat \<Rightarrow> u32 \<Rightarrow> byte list list \<Rightarrow> byte list list \<Rightarrow> bool" where
  "carries l sq [] [] = True"
| "carries l sq (c # cs) (p # ps) =
     (length p = l + 20 + length c \<and> drop (l + 20) p = c \<and> take 4 (drop (l + 4) p) = be_bytes 4 sq \<and>
      carries l (sq + of_nat (length c)) cs ps)"
| "carries l sq _ _ = False"

lemma max_size_ids [simp]: "max_data_size (d\<lparr>ip_id_in := i, ip_id_out := j\<rparr>) = max_data_size d"
  by simp

lemma epb_append_hook:
  "epb_append env b out = (n, out', b') \<Longrightarrow> epb_hook b' = epb_hook b \<and> epb_hooked b' = epb_hooked b"
  by (auto simp: epb_append_def Let_def split: option.splits if_splits)

lemma epb_TCP_packet_plain:
  assumes "plain_tcp d" and "dir \<le> 1" and "fl AND TCPFLAG_SYN = 0" and "fl AND TCPFLAG_FIN = 0"
  shows "\<exists>p d'. epb_TCP_packet env c dir fl d = ok (p, d') \<and>
    carries (l3_len d) (my_seq dir d) [c] [drop 16 p] \<and>
    my_seq dir d' = my_seq dir d + of_nat (length c) \<and> plain_tcp d' \<and> l3_len d' = l3_len d"
proof -
  let ?o = "append_LCC_header d dir []"
  obtain h i j where h: "append_IP_header env dir (length c) ?o d = ok (?o @ h, d\<lparr>ip_id_in := i, ip_id_out := j\<rparr>)"
      "length h = l3_len d"
    using append_IP_plain [OF assms(1,2)] by blast
  have p: "plain_tcp (d\<lparr>ip_id_in := i, ip_id_out := j\<rparr>)" using assms(1) by simp
  obtain t d' where t: "append_TCP_header env dir c fl (?o @ h) (d\<lparr>ip_id_in := i, ip_id_out := j\<rparr>) =
      ((?o @ h) @ t, d')" "length t = 20" "take 4 (drop 4 t) = be_bytes 4 (my_seq dir d)"
      "my_seq dir d' = my_seq dir d + seq_step fl (length c)" "plain_tcp d'" "l3_len d' = l3_len d"
    using append_TCP_header_plain [OF p, of env dir c fl "?o @ h"] by auto
  have "epb_TCP_packet env c dir fl d = ok (?o @ h @ t @ c, d')"
    unfolding epb_TCP_packet_def using h(1) t(1) by simp
  moreover have "carries (l3_len d) (my_seq dir d) [c] [drop 16 (?o @ h @ t @ c)]"
  proof -
    have dr: "drop 16 (?o @ h @ t @ c) = h @ t @ c" using LCC_len(2) [of d dir] by simp
    show ?thesis unfolding dr using h(2) t(2,3) by simp
  qed
  moreover have "my_seq dir d' = my_seq dir d + of_nat (length c)"
    using t(4) assms(3,4) by (simp add: seq_step_def)
  ultimately show ?thesis using t(5,6) by blast
qed

lemma append_TCP_loop_carries:
  assumes "dir \<le> 1" and "fl AND TCPFLAG_SYN = 0" and "fl AND TCPFLAG_FIN = 0"
  shows "plain_tcp d \<Longrightarrow> epb_hook b \<Longrightarrow> (tw = 0 \<longrightarrow> rest = []) \<Longrightarrow> tw \<le> length rest \<Longrightarrow>
    \<exists>out' b' d' cs ps. append_TCP_loop env dir fl tw rest out b d = ok (out', b', d') \<and>
      concat cs = rest \<and> (\<forall>c\<in>set cs. length c \<le> tw) \<and> epb_hooked b' = epb_hooked b @ ps \<and>
      carries (l3_len d) (my_seq dir d) cs ps \<and> my_seq dir d' = my_seq dir d + of_nat (length rest)"
proof (induction "length rest" arbitrary: tw rest out b d rule: less_induct)
  case less
  let ?c = "take tw rest"
  have lc: "length ?c = tw" using less.prems(4) by simp
  obtain p d1 where p: "epb_TCP_packet env ?c dir fl d = ok (p, d1)"
      "carries (l3_len d) (my_seq dir d) [?c] [drop 16 p]"
      "my_seq dir d1 = my_seq dir d + of_nat tw" "plain_tcp d1" "l3_len d1 = l3_len d"
    using epb_TCP_packet_plain [OF less.prems(1) assms, of env ?c] lc by auto
  obtain n o1 b1 where e: "epb_append env (with_packet p b) out = (n, o1, b1)" by (metis prod_cases3)
  have b1: "epb_hook b1" "epb_hooked b1 = epb_hooked b @ [drop 16 p]"
    using epb_append_hook [OF e] less.prems(2) by (simp_all add: with_packet_def Let_def)
  note step = append_TCP_loop.simps [of env dir fl tw rest out b d]
  show ?case
  proof (cases "drop tw rest = [] \<or> tw = 0")
    case True
    then have all: "?c = rest" using less.prems(3) by auto
    have "append_TCP_loop env dir fl tw rest out b d = ok (o1, b1, d1)"
      using True by (subst step) (simp add: p(1) e)
    moreover have "tw = length rest" using all lc by simp
    ultimately show ?thesis
      using p(2,3) b1(2) unfolding all
      by (intro exI [of _ o1] exI [of _ b1] exI [of _ d1] exI [of _ "[rest]"] exI [of _ "[drop 16 p]"] conjI)
         simp_all
  next
    case False
    let ?r = "drop tw rest"
    have "length ?r < length rest" using False by auto
    have c: "min tw (length ?r) = 0 \<longrightarrow> ?r = []" "min tw (length ?r) \<le> length ?r" using False by auto
    from less.hyps [OF \<open>length ?r < length rest\<close> p(4) b1(1) c, of o1] obtain out' b' d' cs ps where
      r: "append_TCP_loop env dir fl (min tw (length ?r)) ?r o1 b1 d1 = ok (out', b', d')"
        "concat cs = ?r" "\<forall>c\<in>set cs. length c \<le> min tw (length ?r)" "epb_hooked b' = epb_hooked b1 @ ps"
        "carries (l3_len d1) (my_seq dir d1) cs ps" "my_seq dir d' = my_seq dir d1 + of_nat (length ?r)"
      by blast
    have "append_TCP_loop env dir fl tw rest out b d = ok (out', b', d')"
      using False r(1) by (subst step) (simp add: p(1) e)
    moreover have "concat (?c # cs) = rest" using r(2) by simp
    moreover have "\<forall>c\<in>set (?c # cs). length c \<le> tw" using r(3) by auto
    moreover have "epb_hooked b' = epb_hooked b @ (drop 16 p # ps)" using r(4) b1(2) by simp
    moreover have "carries (l3_len d) (my_seq dir d) (?c # cs) (drop 16 p # ps)"
      using p(2,3,5) r(5) lc by simp
    moreover have "my_seq dir d' = my_seq dir d + of_nat (length rest)"
    proof -
      have "length rest = tw + length ?r" using less.prems(4) by simp
      then have "(of_nat (length rest) :: u32) = of_nat tw + of_nat (length ?r)" by (metis of_nat_add)
      then show ?thesis using p(3) r(6) by (simp add: add.assoc)
    qed
    ultimately show ?thesis by blast
  qed
qed

text \<open>Segmentation loses nothing: \<open>append_TCP\<close> always returns, its packets carry the data in order in
  pieces no larger than the limit, every packet is numbered by the offset of its data, and the
  connection's sequence number has advanced by the length of the data.\<close>

theorem append_TCP_carries_data:
  assumes "plain_tcp d" and "dir \<le> 1" and "epb_hook b"
    and "fl AND TCPFLAG_SYN = 0" and "fl AND TCPFLAG_FIN = 0"
  shows "\<exists>out' b' d' cs ps. append_TCP env data dir fl out b d = ok (out', b', d') \<and>
      concat cs = data \<and> (0 < max_data_size d \<longrightarrow> (\<forall>c\<in>set cs. int (length c) \<le> max_data_size d)) \<and>
      epb_hooked b' = epb_hooked b @ ps \<and> carries (l3_len d) (my_seq dir d) cs ps \<and>
      my_seq dir d' = my_seq dir d + of_nat (length data)"
proof -
  define tw where "tw = (if max_data_size d \<le> 0 then length data
     else min (nat (max_data_size d)) (length data))"
  have "tw = 0 \<longrightarrow> data = []" "tw \<le> length data" by (auto simp: tw_def min_def split: if_splits)
  from append_TCP_loop_carries [OF assms(2,4,5,1,3) this, of env out] obtain out' b' d' cs ps where
    r: "append_TCP_loop env dir fl tw data out b d = ok (out', b', d')" "concat cs = data"
      "\<forall>c\<in>set cs. length c \<le> tw" "epb_hooked b' = epb_hooked b @ ps"
      "carries (l3_len d) (my_seq dir d) cs ps" "my_seq dir d' = my_seq dir d + of_nat (length data)"
    by blast
  have "append_TCP env data dir fl out b d = ok (out', b', d')"
    unfolding append_TCP_def Let_def tw_def [symmetric] by (rule r(1))
  moreover have "0 < max_data_size d \<longrightarrow> (\<forall>c\<in>set cs. int (length c) \<le> max_data_size d)"
    using r(3) by (fastforce simp: tw_def)
  ultimately show ?thesis using r by blast
qed

definition demo_epb :: pcapng_epb where
  "demo_epb = \<lparr>epb_iface_id = 0, epb_timestamp_high = 0, epb_timestamp_low = 0, epb_captured_len = 0,
     epb_original_len = 0, epb_packet_data = None, epb_options = None, epb_hook = True, epb_hooked = []\<rparr>"

theorem append_TCP_carries_data_witness:
  "\<exists>out' b' d'. append_TCP demo_env [1, 2, 3] 0 0 [] demo_epb (demo_conn\<lparr>max_data_size := 2\<rparr>) = ok (out', b', d') \<and>
     my_seq 0 d' = 3"
proof -
  have "plain_tcp (demo_conn\<lparr>max_data_size := 2\<rparr>)" by (simp add: demo_conn_def plain_tcp_def pcap_protos)
  moreover have "epb_hook demo_epb" by (simp add: demo_epb_def)
  ultimately obtain out' b' d' where "append_TCP demo_env [1, 2, 3] 0 0 [] demo_epb (demo_conn\<lparr>max_data_size := 2\<rparr>) =
      ok (out', b', d')" "my_seq 0 d' = my_seq 0 (demo_conn\<lparr>max_data_size := 2\<rparr>) + of_nat 3"
    using append_TCP_carries_data [of "demo_conn\<lparr>max_data_size := 2\<rparr>" 0 demo_epb 0 demo_env "[1, 2, 3]" "[]"]
    by auto
  then show ?thesis by (simp add: my_seq_def demo_conn_def)
qed

section \<open>Tunnels\<close>

text \<open>The headers of a GRE tunnel are written but not counted: the capture length of a tunneled frame is
  24 bytes short, so a reader takes the rest of the packet for the next frame header.\<close>

lemma create_IPv4_untouched:
  assumes "next_proto d = proto_TCP" and "ip_version d = 4" and "tun_proto d = tunnel_GRE"
    and "tun_details d = None" and "length (cd_source d) = 128" and "length (cd_destination d) = 128"
  shows "\<exists>h i j. create_IPv4_header env dir n d = ok (h, d\<lparr>ip_id_in := i, ip_id_out := j\<rparr>) \<and>
    length (iphdr_bytes h) = 20"
proof -
  have l: "l4_header_sz d = ok 20" "l3_header_sz d = ok 20"
    using assms(1,2) by (simp_all add: l4_header_sz_def l3_header_sz_def)
  have lens: "length (sin_addr (cd_source d)) = 4" "length (sin_addr (cd_destination d)) = 4"
    using assms(5,6) by (simp_all add: sin_addr_def)
  obtain tot pr where tp: "(if dir \<le> 1 then ok (20 + 20 + n, ucast (next_proto d) :: byte)
      else ok (20 + 4 + 20 + 20 + n, 47)) = ok (tot, pr)" by (cases "dir \<le> 1") auto
  have e: "ip_end_points env sin_addr dir x =
      ok (if dir mod 2 \<noteq> 0 then (sin_addr (cd_destination x), sin_addr (cd_source x), x)
          else (sin_addr (cd_source x), sin_addr (cd_destination x), x))" if "tun_details x = None" for x :: "'a connection_details_scheme"
    using that by (simp add: ip_end_points_def)
  show ?thesis
  proof (cases "dir mod 2 \<noteq> 0")
    case True
    then have "next_ip_id dir d = (ip_id_in d, d\<lparr>ip_id_in := ip_id_in d + 1, ip_id_out := ip_id_out d\<rparr>)"
      by (simp add: next_ip_id_def)
    then show ?thesis
      using tp True lens assms(3,4)
      by (simp add: create_IPv4_header_def l e Let_def iphdr_bytes_def)
         (rule exI [of _ "ip_id_in d + 1"], rule exI [of _ "ip_id_out d"], simp)
  next
    case False
    then have "next_ip_id dir d = (ip_id_out d, d\<lparr>ip_id_in := ip_id_in d, ip_id_out := ip_id_out d + 1\<rparr>)"
      by (simp add: next_ip_id_def)
    then show ?thesis
      using tp False lens assms(3,4)
      by (simp add: create_IPv4_header_def l e Let_def iphdr_bytes_def)
         (rule exI [of _ "ip_id_in d"], rule exI [of _ "ip_id_out d + 1"], simp)
  qed
qed

lemma gre_not_in_caplen:
  assumes "next_proto d = proto_TCP" and "ip_version d = 4" and "tun_proto d = tunnel_GRE"
    and "tun_details d = None" and "length (cd_source d) = 128" and "length (cd_destination d) = 128"
  shows "\<exists>h d'. append_IP_header env dir n out d = ok (out @ h, d') \<and>
    16 + length h + 20 + n = pcap_caplen d n + 24"
proof -
  obtain h i j where h: "create_IPv4_header env dir n d = ok (h, d\<lparr>ip_id_in := i, ip_id_out := j\<rparr>)"
      "length (iphdr_bytes h) = 20"
    using create_IPv4_untouched [OF assms] by blast
  let ?d = "d\<lparr>ip_id_in := i, ip_id_out := j\<rparr>"
  obtain g k l where g: "create_IPv4_header env (dir + 2) n ?d = ok (g, ?d\<lparr>ip_id_in := k, ip_id_out := l\<rparr>)"
    using create_IPv4_untouched [of ?d env "dir + 2" n] assms by auto
  have "\<exists>t d'. encapsulate env dir n out ?d = ok (out @ t, d') \<and> length t = 24"
    using assms(3,4) g
    by (simp add: encapsulate_def encapulate_gre_v4_def tun_packed_def append_GRE_header_def iphdr_bytes_def)
  then obtain t d' where t: "encapsulate env dir n out ?d = ok (out @ t, d')" "length t = 24" by blast
  have "append_IP_header env dir n out d = ok (out @ t @ iphdr_bytes h, d')"
    using assms(2) h(1) t(1) by (simp add: append_IP_header_def append_IPv4_header_def)
  moreover have "pcap_caplen d n = 56 + n" using assms(1,2) by (simp add: pcap_caplen_def)
  ultimately show ?thesis using h(2) t(2) by (intro exI [of _ "t @ iphdr_bytes h"]) simp
qed

end
