(* ===== verification/PtrCache.thy ===== *)
theory PtrCache
  imports Prelude
begin

text \<open>
  The bounded object cache: \<^verbatim>\<open>common/ptr_cache.hpp\<close>.

  A cache is a map from keys to data blocks (\<open>pc_cache\<close>, the \<^verbatim>\<open>unordered_map\<close>) and the list of
  keys in order of age, newest first (\<open>pc_items\<close>). The two are separate containers in the code, and
  keeping them in step is what the invariants are about. An operation that would read past the end of
  a container returns \<open>Undefined_behaviour\<close>. The expiry test reads the clock: it is a field that the
  caller may change between calls.

  The locale \<open>bounded_cache\<close> is the contract users rely on; it is interpreted on \<open>cache_set\<close> and
  \<open>cache_get\<close> for caches without erased keys and without expiry check, in both eviction modes. \<open>lookup\<close>
  is not an operation of the code but what a cache holds for a key, used to state the laws.
\<close>

datatype mode_t = FIFO | LRU

record 'v DataBlock =
  db_ptr :: 'v
  db_counter :: u32
  db_has_stats :: bool

record ('k, 'v) ptr_cache =
  pc_mode :: mode_t
  pc_max_size :: nat
  pc_items :: "'k list"
  pc_dbs :: "u32 option"
  pc_cache :: "'k \<rightharpoonup> 'v DataBlock"
  pc_expired :: "('v \<Rightarrow> bool) option"

definition mode_lru :: "('k, 'v) ptr_cache \<Rightarrow> ('k, 'v) ptr_cache" where
  "mode_lru c = c\<lparr>pc_mode := LRU, pc_dbs := (case pc_dbs c of None \<Rightarrow> Some 0 | Some n \<Rightarrow> Some n)\<rparr>"

definition mode_fifo :: "('k, 'v) ptr_cache \<Rightarrow> ('k, 'v) ptr_cache" where
  "mode_fifo c = c\<lparr>pc_mode := FIFO\<rparr>"

definition expiration_check :: "('v \<Rightarrow> bool) \<Rightarrow> ('k, 'v) ptr_cache \<Rightarrow> ('k, 'v) ptr_cache" where
  "expiration_check f c = c\<lparr>pc_expired := Some f\<rparr>"

definition empty_cache :: "nat \<Rightarrow> ('k, 'v) ptr_cache" where
  "empty_cache n = \<lparr>pc_mode = FIFO, pc_max_size = n, pc_items = [], pc_dbs = None,
     pc_cache = (\<lambda>_. None), pc_expired = None\<rparr>"

definition new_ptr_cache :: "nat \<Rightarrow> ('v \<Rightarrow> bool) option \<Rightarrow> ('k, 'v) ptr_cache" where
  "new_ptr_cache n fn_exp =
     (case fn_exp of None \<Rightarrow> empty_cache n | Some f \<Rightarrow> expiration_check f (empty_cache n))"

definition new_ptr_cache_mode :: "nat \<Rightarrow> mode_t \<Rightarrow> ('k, 'v) ptr_cache" where
  "new_ptr_cache_mode n m = (if m = LRU then mode_lru (empty_cache n) else empty_cache n)"

definition new_block :: "('k, 'v) ptr_cache \<Rightarrow> 'v \<Rightarrow> 'v DataBlock" where
  "new_block c v = \<lparr>db_ptr = v, db_counter = 0, db_has_stats = (pc_dbs c \<noteq> None)\<rparr>"

definition touch :: "'k \<Rightarrow> 'v DataBlock \<Rightarrow> ('k, 'v) ptr_cache \<Rightarrow> ('k, 'v) ptr_cache" where
  "touch k b c =
     c\<lparr>pc_cache := (pc_cache c)(k \<mapsto> b\<lparr>db_counter := db_counter b + 1\<rparr>),
       pc_dbs := (if db_has_stats b then map_option (\<lambda>n. n + 1) (pc_dbs c) else pc_dbs c)\<rparr>"

definition cache_clear :: "('k, 'v) ptr_cache \<Rightarrow> ('k, 'v) ptr_cache" where
  "cache_clear c = c\<lparr>pc_cache := (\<lambda>_. None), pc_items := []\<rparr>"

definition cache_erase :: "'k \<Rightarrow> ('k, 'v) ptr_cache \<Rightarrow> bool \<times> ('k, 'v) ptr_cache" where
  "cache_erase k c =
     (case pc_cache c k of
        Some b \<Rightarrow> (True, c\<lparr>pc_cache := (pc_cache c)(k := None)\<rparr>)
      | None \<Rightarrow> (False, c))"

definition delete_last :: "('k, 'v) ptr_cache \<Rightarrow> (bool \<times> ('k, 'v) ptr_cache) result" where
  "delete_last c =
     (if pc_items c = [] then raise Undefined_behaviour
      else let (r, c) = cache_erase (last (pc_items c)) c
           in ok (r, c\<lparr>pc_items := butlast (pc_items c)\<rparr>))"

text \<open>The first block is dereferenced before the test that it exists; the criterion is cut to
  32 bits.\<close>

definition lru_reoder :: "('k, 'v) ptr_cache \<Rightarrow> (bool \<times> ('k, 'v) ptr_cache) result" where
  "lru_reoder c =
     (if pc_items c = [] then raise Undefined_behaviour
      else case pc_cache c (hd (pc_items c)) of
        None \<Rightarrow> raise Undefined_behaviour
      | Some first \<Rightarrow>
          (let criteria =
             (case pc_dbs c of
                Some tot \<Rightarrow> of_nat (unat tot div length (pc_items c)) :: u32
              | None \<Rightarrow> db_counter first)
           in case pc_cache c (last (pc_items c)) of
                Some block \<Rightarrow>
                  if criteria < db_counter block
                  then ok (True, c\<lparr>pc_items := last (pc_items c) # butlast (pc_items c)\<rparr>)
                  else ok (False, c)
              | None \<Rightarrow> ok (False, c\<lparr>pc_items := butlast (pc_items c)\<rparr>)))"

definition cache_get :: "'k \<Rightarrow> ('k, 'v) ptr_cache \<Rightarrow> ('v option \<times> ('k, 'v) ptr_cache) result" where
  "cache_get k c =
     (case pc_cache c k of
        None \<Rightarrow> ok (None, c)
      | Some b \<Rightarrow>
          if (case pc_expired c of Some f \<Rightarrow> f (db_ptr b) | None \<Rightarrow> False)
          then ok (None, snd (cache_erase k c))
          else if pc_mode c = LRU then
            (case lru_reoder (touch k b c) of
               Inl e \<Rightarrow> Inl e
             | Inr (_, c) \<Rightarrow> ok (Some (db_ptr b), c))
          else ok (Some (db_ptr b), c))"

text \<open>The loop of \<^verbatim>\<open>set\<close> that makes room; every iteration takes at least one key off the list.\<close>

lemma delete_last_shorter:
  "delete_last c = Inr (r, c') \<Longrightarrow> length (pc_items c') < length (pc_items c)"
  by (cases "pc_items c = []")
     (auto simp: delete_last_def cache_erase_def Let_def split: option.splits)

lemma lru_reoder_length:
  "lru_reoder c = Inr (r, c') \<Longrightarrow> length (pc_items c') \<le> length (pc_items c)"
  by (auto simp: lru_reoder_def Let_def split: option.splits if_splits)

lemma make_room_shorter:
  assumes "(if pc_mode c = LRU then lru_reoder c else ok (False, c)) = Inr (x, c1)"
    and "delete_last c1 = Inr (w, c2)"
  shows "length (pc_items c2) < length (pc_items c)"
proof -
  have "length (pc_items c1) \<le> length (pc_items c)"
    using assms(1) lru_reoder_length [of c x c1] by (auto split: if_splits)
  with delete_last_shorter [OF assms(2)] show ?thesis by simp
qed

function make_room :: "('k, 'v) ptr_cache \<Rightarrow> ('k, 'v) ptr_cache result" where
  "make_room c =
     (if length (pc_items c) < pc_max_size c then ok c
      else
        case (if pc_mode c = LRU then lru_reoder c else ok (False, c)) of
          Inl e \<Rightarrow> Inl e
        | Inr (_, c1) \<Rightarrow>
            (case delete_last c1 of
               Inl e \<Rightarrow> Inl e
             | Inr (_, c2) \<Rightarrow> make_room c2))"
  by pat_completeness auto

termination
  by (relation "measure (\<lambda>c. length (pc_items c))") (use make_room_shorter in \<open>simp, fastforce\<close>)

declare make_room.simps [simp del]

definition cache_set :: "'k \<Rightarrow> 'v \<Rightarrow> ('k, 'v) ptr_cache \<Rightarrow> (bool \<times> ('k, 'v) ptr_cache) result" where
  "cache_set k v c =
     (case pc_cache c k of
        Some b \<Rightarrow> ok (True, c\<lparr>pc_cache := (pc_cache c)(k \<mapsto> new_block c v)\<rparr>)
      | None \<Rightarrow>
          (case (if 0 < pc_max_size c then make_room c else ok c) of
             Inl e \<Rightarrow> Inl e
           | Inr c \<Rightarrow>
               ok (False, c\<lparr>pc_cache := (pc_cache c)(k \<mapsto> new_block c v),
                            pc_items := k # pc_items c\<rparr>)))"

definition cache_size :: "('k, 'v) ptr_cache \<Rightarrow> nat" where
  "cache_size c = card (dom (pc_cache c))"

definition lookup :: "('k, 'v) ptr_cache \<Rightarrow> 'k \<Rightarrow> 'v option" where
  "lookup c k = map_option db_ptr (pc_cache c k)"


subsection \<open>The two containers in step\<close>

definition cache_ok :: "('k, 'v) ptr_cache \<Rightarrow> bool" where
  "cache_ok c \<longleftrightarrow>
     dom (pc_cache c) = set (pc_items c) \<and> distinct (pc_items c) \<and>
     (0 < pc_max_size c \<longrightarrow> length (pc_items c) \<le> pc_max_size c)"

lemma cache_ok_hd_last:
  assumes "cache_ok c" and "pc_items c \<noteq> []"
  shows "\<exists>b. pc_cache c (hd (pc_items c)) = Some b" and "\<exists>b. pc_cache c (last (pc_items c)) = Some b"
proof -
  have "hd (pc_items c) \<in> dom (pc_cache c)" "last (pc_items c) \<in> dom (pc_cache c)"
    using assms by (simp_all add: cache_ok_def)
  then show "\<exists>b. pc_cache c (hd (pc_items c)) = Some b" "\<exists>b. pc_cache c (last (pc_items c)) = Some b"
    by auto
qed

lemma rotate_props:
  assumes "xs \<noteq> []"
  shows "set (last xs # butlast xs) = set xs" "distinct (last xs # butlast xs) = distinct xs"
    "length (last xs # butlast xs) = length xs"
proof -
  have "mset_eq": "xs = butlast xs @ [last xs]" using assms by simp
  show "set (last xs # butlast xs) = set xs" by (subst (3) mset_eq) simp
  show "distinct (last xs # butlast xs) = distinct xs" by (subst (3) mset_eq) auto
  show "length (last xs # butlast xs) = length xs" by (subst (3) mset_eq) simp
qed

lemma lru_reoder_ok:
  assumes "cache_ok c" and "pc_items c \<noteq> []"
  shows "\<exists>r xs. lru_reoder c = Inr (r, c\<lparr>pc_items := xs\<rparr>) \<and> set xs = set (pc_items c) \<and>
           distinct xs \<and> length xs = length (pc_items c)"
proof -
  obtain a b where ab: "pc_cache c (hd (pc_items c)) = Some a" "pc_cache c (last (pc_items c)) = Some b"
    using cache_ok_hd_last [OF assms] by blast
  let ?xs = "last (pc_items c) # butlast (pc_items c)"
  have d: "distinct (pc_items c)" using assms(1) by (simp add: cache_ok_def)
  have "lru_reoder c \<in> {Inr (True, c\<lparr>pc_items := ?xs\<rparr>), Inr (False, c\<lparr>pc_items := pc_items c\<rparr>)}"
    using ab assms(2) by (simp add: lru_reoder_def Let_def)
  then consider "lru_reoder c = Inr (True, c\<lparr>pc_items := ?xs\<rparr>)"
    | "lru_reoder c = Inr (False, c\<lparr>pc_items := pc_items c\<rparr>)" by blast
  then show ?thesis
  proof cases
    case 1
    then show ?thesis
      by (rule exI [of _ True, OF exI [of _ ?xs, OF conjI]]) (use rotate_props [OF assms(2)] d in simp)
  next
    case 2
    then show ?thesis
      by (rule exI [of _ False, OF exI [of _ "pc_items c", OF conjI]]) (use d in simp)
  qed
qed

lemma delete_last_ok:
  assumes "cache_ok c" and "pc_items c \<noteq> []"
  shows "delete_last c = Inr (True, c\<lparr>pc_items := butlast (pc_items c),
           pc_cache := (pc_cache c)(last (pc_items c) := None)\<rparr>)"
  using cache_ok_hd_last(2) [OF assms] assms(2)
  by (auto simp: delete_last_def cache_erase_def)

lemma cache_ok_drop_last:
  assumes "cache_ok c" and "pc_items c \<noteq> []"
  shows "cache_ok (c\<lparr>pc_items := butlast (pc_items c),
           pc_cache := (pc_cache c)(last (pc_items c) := None)\<rparr>)"
proof -
  have eq: "pc_items c = butlast (pc_items c) @ [last (pc_items c)]" using assms(2) by simp
  then have "distinct (butlast (pc_items c))" "last (pc_items c) \<notin> set (butlast (pc_items c))"
      "set (pc_items c) = insert (last (pc_items c)) (set (butlast (pc_items c)))"
    using assms(1) unfolding cache_ok_def by (metis distinct_append distinct_butlast,
      metis distinct_append disjoint_iff list.set_intros(1), metis set_append list.simps(15)
      Un_insert_right list.set(1) sup_bot.right_neutral)
  then show ?thesis using assms(1) by (auto simp: cache_ok_def)
qed

text \<open>What making room leaves: the same cache with some keys gone, still in step, with a free
  place.\<close>

definition fewer :: "('k, 'v) ptr_cache \<Rightarrow> ('k, 'v) ptr_cache \<Rightarrow> bool" where
  "fewer c c' \<longleftrightarrow>
     pc_max_size c' = pc_max_size c \<and> pc_dbs c' = pc_dbs c \<and> pc_expired c' = pc_expired c \<and>
     pc_mode c' = pc_mode c \<and> pc_cache c' \<subseteq>\<^sub>m pc_cache c"

lemma make_room_ok:
  assumes "cache_ok c" and "0 < pc_max_size c"
  shows "\<exists>c'. make_room c = Inr c' \<and> cache_ok c' \<and> fewer c c' \<and> length (pc_items c') < pc_max_size c"
proof (cases "length (pc_items c) < pc_max_size c")
  case True
  then show ?thesis using assms by (simp add: make_room.simps fewer_def)
next
  case False
  then have ne: "pc_items c \<noteq> []" using assms(2) by auto
  have len: "length (pc_items c) = pc_max_size c" using False assms by (simp add: cache_ok_def)
  obtain r xs where l: "lru_reoder c = Inr (r, c\<lparr>pc_items := xs\<rparr>)" "set xs = set (pc_items c)"
      "distinct xs" "length xs = length (pc_items c)"
    using lru_reoder_ok [OF assms(1) ne] by blast
  define c1 where "c1 = c\<lparr>pc_items := (if pc_mode c = LRU then xs else pc_items c)\<rparr>"
  have c1: "cache_ok c1" "pc_items c1 \<noteq> []" "length (pc_items c1) = pc_max_size c"
    using assms l ne len by (auto simp: c1_def cache_ok_def)
  have st: "(if pc_mode c = LRU then lru_reoder c else ok (False, c)) =
      Inr (if pc_mode c = LRU then r else False, c1)"
    using l(1) by (simp add: c1_def)
  define c2 where "c2 = c1\<lparr>pc_items := butlast (pc_items c1),
      pc_cache := (pc_cache c1)(last (pc_items c1) := None)\<rparr>"
  have c2: "cache_ok c2" "delete_last c1 = Inr (True, c2)"
    using cache_ok_drop_last [OF c1(1,2)] delete_last_ok [OF c1(1,2)] by (simp_all add: c2_def)
  have room: "length (pc_items c2) < pc_max_size c" "pc_max_size c2 = pc_max_size c"
    using c1(3) assms(2) by (simp_all add: c2_def c1_def)
  have "make_room c = make_room c2"
    using False st c2(2) by (subst make_room.simps) simp
  also have "\<dots> = Inr c2" using room by (subst make_room.simps) simp
  finally have "make_room c = Inr c2" .
  moreover have "fewer c c2" by (auto simp: fewer_def c2_def c1_def map_le_def)
  ultimately show ?thesis using c2(1) room(1) by blast
qed

lemma cache_set_ok:
  assumes "cache_ok c"
  shows "\<exists>r c'. cache_set k v c = Inr (r, c') \<and> cache_ok c' \<and> lookup c' k = Some v \<and>
           r = (k \<in> dom (pc_cache c)) \<and> pc_max_size c' = pc_max_size c \<and> pc_expired c' = pc_expired c \<and>
           (\<forall>j. j \<noteq> k \<longrightarrow> lookup c' j = lookup c j \<or> lookup c' j = None)"
proof (cases "pc_cache c k")
  case (Some b)
  let ?c = "c\<lparr>pc_cache := (pc_cache c)(k \<mapsto> new_block c v)\<rparr>"
  have "cache_ok ?c" using assms Some by (auto simp: cache_ok_def)
  then show ?thesis using Some by (auto simp: cache_set_def lookup_def new_block_def)
next
  case None
  obtain d where d: "(if 0 < pc_max_size c then make_room c else ok c) = Inr d" "cache_ok d"
      "fewer c d" "0 < pc_max_size c \<longrightarrow> length (pc_items d) < pc_max_size c"
    using make_room_ok [OF assms] assms by (cases "0 < pc_max_size c") (auto simp: fewer_def)
  have kd: "pc_cache d k = None"
    using d(3) None by (auto simp: fewer_def map_le_def) (metis domI option.exhaust option.distinct(1))
  let ?c = "d\<lparr>pc_cache := (pc_cache d)(k \<mapsto> new_block d v), pc_items := k # pc_items d\<rparr>"
  have "cache_ok ?c"
    using d kd by (auto simp: cache_ok_def fewer_def)
  moreover have "lookup ?c j = lookup c j \<or> lookup ?c j = None" if "j \<noteq> k" for j
    using d(3) that by (cases "pc_cache d j") (auto simp: lookup_def fewer_def map_le_def dom_def)
  moreover have "cache_set k v c = Inr (False, ?c)"
    using None d(1) by (simp add: cache_set_def)
  ultimately show ?thesis using None d(3) by (auto simp: lookup_def new_block_def fewer_def)
qed


text \<open>Without an expiry check \<^verbatim>\<open>get\<close> answers what the map holds. In LRU mode it counts the hit and may move
  the oldest key to the front; nothing is lost or bound anew by that.\<close>

lemma cache_get_ok:
  assumes "cache_ok c" and "pc_expired c = None"
  shows "\<exists>c'. cache_get k c = Inr (lookup c k, c') \<and> cache_ok c' \<and> pc_expired c' = None \<and> lookup c' = lookup c \<and>
    pc_max_size c' = pc_max_size c"
proof (cases "pc_cache c k")
  case None
  then show ?thesis using assms by (simp add: cache_get_def lookup_def)
next
  case (Some b)
  define t where "t = touch k b c"
  have t: "cache_ok t" "lookup t = lookup c" "pc_expired t = None" "pc_max_size t = pc_max_size c" "pc_items t \<noteq> []"
    using assms Some by (auto simp: t_def touch_def cache_ok_def lookup_def fun_eq_iff)
  show ?thesis
  proof (cases "pc_mode c = LRU")
    case True
    obtain r xs where l: "lru_reoder t = Inr (r, t\<lparr>pc_items := xs\<rparr>)" "set xs = set (pc_items t)" "distinct xs"
        "length xs = length (pc_items t)"
      using lru_reoder_ok [OF t(1,5)] by blast
    have "cache_get k c = Inr (lookup c k, t\<lparr>pc_items := xs\<rparr>)"
      using Some True assms(2) l(1) by (simp add: cache_get_def lookup_def t_def)
    moreover have "cache_ok (t\<lparr>pc_items := xs\<rparr>)" using t(1) l(2-4) by (simp add: cache_ok_def)
    moreover have "lookup (t\<lparr>pc_items := xs\<rparr>) = lookup c" using t(2) by (simp add: lookup_def fun_eq_iff)
    ultimately show ?thesis using t(3,4) by simp
  next
    case False
    then show ?thesis using Some assms by (simp add: cache_get_def lookup_def)
  qed
qed

subsection \<open>The contract of a bounded cache\<close>

fun put_all :: "('k \<Rightarrow> 'v \<Rightarrow> 'c \<Rightarrow> ('r \<times> 'c) result) \<Rightarrow> ('k \<times> 'v) list \<Rightarrow> 'c \<Rightarrow> 'c result" where
  "put_all put [] c = ok c"
| "put_all put ((k, v) # kvs) c =
     (case put k v c of Inl e \<Rightarrow> Inl e | Inr (_, c') \<Rightarrow> put_all put kvs c')"

text \<open>A history of insertions and lookups, with the answers of the lookups.\<close>

datatype ('k, 'v) cache_op = Put 'k 'v | Get 'k

fun cache_run :: "('k \<Rightarrow> 'v \<Rightarrow> 'c \<Rightarrow> ('r \<times> 'c) result) \<Rightarrow> ('k \<Rightarrow> 'c \<Rightarrow> ('v option \<times> 'c) result) \<Rightarrow>
    ('k, 'v) cache_op list \<Rightarrow> 'c \<Rightarrow> ('v option list \<times> 'c) result" where
  "cache_run put get [] c = ok ([], c)"
| "cache_run put get (Put k v # ops) c = (case put k v c of Inl e \<Rightarrow> Inl e | Inr (_, c') \<Rightarrow> cache_run put get ops c')"
| "cache_run put get (Get k # ops) c =
     (case get k c of
        Inl e \<Rightarrow> Inl e
      | Inr (r, c') \<Rightarrow> (case cache_run put get ops c' of Inl e \<Rightarrow> Inl e | Inr (rs, c'') \<Rightarrow> ok (r # rs, c'')))"

text \<open>What a history leaves to expect: the value set last for each key; the last key set and its value.\<close>

fun last_put :: "('k, 'v) cache_op list \<Rightarrow> ('k \<rightharpoonup> 'v) \<Rightarrow> 'k \<rightharpoonup> 'v" where
  "last_put [] m = m"
| "last_put (Put k v # ops) m = last_put ops (m(k \<mapsto> v))"
| "last_put (Get k # ops) m = last_put ops m"

fun newest_put :: "('k, 'v) cache_op list \<Rightarrow> ('k \<times> 'v) option \<Rightarrow> ('k \<times> 'v) option" where
  "newest_put [] p = p"
| "newest_put (Put k v # ops) p = newest_put ops (Some (k, v))"
| "newest_put (Get k # ops) p = newest_put ops p"

text \<open>Each answer of a lookup in the history is the value set last before it, or nothing.\<close>

fun answers_fit :: "('k, 'v) cache_op list \<Rightarrow> 'v option list \<Rightarrow> ('k \<rightharpoonup> 'v) \<Rightarrow> bool" where
  "answers_fit [] rs m \<longleftrightarrow> rs = []"
| "answers_fit (Put k v # ops) rs m \<longleftrightarrow> answers_fit ops rs (m(k \<mapsto> v))"
| "answers_fit (Get k # ops) rs m \<longleftrightarrow> (case rs of [] \<Rightarrow> False | r # rs \<Rightarrow> (r = None \<or> r = m k) \<and> answers_fit ops rs m)"

locale bounded_cache =
  fixes put :: "'k \<Rightarrow> 'v \<Rightarrow> 'c \<Rightarrow> ('r \<times> 'c) result" and get :: "'k \<Rightarrow> 'c \<Rightarrow> ('v option \<times> 'c) result"
    and look :: "'c \<Rightarrow> 'k \<Rightarrow> 'v option" and inv :: "'c \<Rightarrow> bool" and limit :: "'c \<Rightarrow> nat"
  assumes put_law: "inv c \<Longrightarrow> \<exists>r c'. put k v c = Inr (r, c') \<and> inv c' \<and> look c' k = Some v \<and>
            limit c' = limit c \<and> (\<forall>j. j \<noteq> k \<longrightarrow> look c' j = look c j \<or> look c' j = None)"
    and get_law: "inv c \<Longrightarrow> \<exists>c'. get k c = Inr (look c k, c') \<and> inv c' \<and> look c' = look c \<and> limit c' = limit c"
    and bound_law: "inv c \<Longrightarrow> 0 < limit c \<Longrightarrow> finite (dom (look c)) \<and> card (dom (look c)) \<le> limit c"
begin

text \<open>Over any history of insertions and lookups: nothing fails; a lookup gives the value inserted last for
  its key, or nothing; the newest insertion is present; the bound holds.\<close>

lemma run_law:
  "inv c \<Longrightarrow> (\<forall>k v. look c k = Some v \<longrightarrow> m k = Some v) \<Longrightarrow> (\<forall>k v. p = Some (k, v) \<longrightarrow> look c k = Some v) \<Longrightarrow>
   \<exists>rs c'. cache_run put get ops c = Inr (rs, c') \<and> inv c' \<and> limit c' = limit c \<and> answers_fit ops rs m \<and>
     (\<forall>k v. look c' k = Some v \<longrightarrow> last_put ops m k = Some v) \<and>
     (\<forall>k v. newest_put ops p = Some (k, v) \<longrightarrow> look c' k = Some v)"
proof (induction ops arbitrary: c m p)
  case Nil
  then show ?case by simp
next
  case (Cons op ops)
  show ?case
  proof (cases op)
    case (Put k v)
    obtain r d where d: "put k v c = Inr (r, d)" "inv d" "look d k = Some v" "limit d = limit c"
        "\<forall>j. j \<noteq> k \<longrightarrow> look d j = look c j \<or> look d j = None"
      using put_law [OF Cons.prems(1)] by blast
    have m: "\<forall>j w. look d j = Some w \<longrightarrow> (m(k \<mapsto> v)) j = Some w"
      using d(3,5) Cons.prems(2) by (metis fun_upd_apply option.distinct(1) option.inject)
    have "\<forall>j w. Some (k, v) = Some (j, w) \<longrightarrow> look d j = Some w" using d(3) by simp
    from Cons.IH [OF d(2) m this] obtain rs c' where "cache_run put get ops d = Inr (rs, c')" "inv c'" "limit c' = limit d"
        "answers_fit ops rs (m(k \<mapsto> v))" "\<forall>j w. look c' j = Some w \<longrightarrow> last_put ops (m(k \<mapsto> v)) j = Some w"
        "\<forall>j w. newest_put ops (Some (k, v)) = Some (j, w) \<longrightarrow> look c' j = Some w" by blast
    then show ?thesis using d(1,4) by (intro exI [of _ rs] exI [of _ c']) (simp add: Put del: fun_upd_apply)
  next
    case (Get k)
    obtain d where d: "get k c = Inr (look c k, d)" "inv d" "look d = look c" "limit d = limit c"
      using get_law [OF Cons.prems(1)] by blast
    have m: "\<forall>j w. look d j = Some w \<longrightarrow> m j = Some w" "\<forall>j w. p = Some (j, w) \<longrightarrow> look d j = Some w"
      using d(3) Cons.prems(2,3) by simp_all
    have a: "look c k = None \<or> look c k = m k" using Cons.prems(2) by (cases "look c k") auto
    from Cons.IH [OF d(2) m] obtain rs c' where "cache_run put get ops d = Inr (rs, c')" "inv c'" "limit c' = limit d"
        "answers_fit ops rs m" "\<forall>k v. look c' k = Some v \<longrightarrow> last_put ops m k = Some v"
        "\<forall>k v. newest_put ops p = Some (k, v) \<longrightarrow> look c' k = Some v" by blast
    then show ?thesis using d(1,4) a by (intro exI [of _ "look c k # rs"] exI [of _ c']) (simp add: Get)
  qed
qed

end

lemma cache_ok_bound:
  assumes "cache_ok c" and "0 < pc_max_size c"
  shows "finite (dom (lookup c)) \<and> card (dom (lookup c)) \<le> pc_max_size c"
proof -
  have "dom (lookup c) = set (pc_items c)"
    using assms(1) by (auto simp: lookup_def cache_ok_def dom_def)
  moreover have "card (set (pc_items c)) \<le> length (pc_items c)" by (rule card_length)
  ultimately show ?thesis using assms by (simp add: cache_ok_def)
qed

interpretation pc: bounded_cache cache_set cache_get lookup "\<lambda>c. cache_ok c \<and> pc_expired c = None" pc_max_size
proof
  fix c :: "('k, 'v) ptr_cache" and k v
  assume "cache_ok c \<and> pc_expired c = None"
  then show "\<exists>r c'. cache_set k v c = Inr (r, c') \<and> (cache_ok c' \<and> pc_expired c' = None) \<and> lookup c' k = Some v \<and>
          pc_max_size c' = pc_max_size c \<and> (\<forall>j. j \<noteq> k \<longrightarrow> lookup c' j = lookup c j \<or> lookup c' j = None)"
    using cache_set_ok [of c k v] by (elim conjE) (drule meta_mp, assumption, elim exE conjE, intro exI conjI, simp_all)
next
  fix c :: "('k, 'v) ptr_cache" and k
  assume "cache_ok c \<and> pc_expired c = None"
  then show "\<exists>c'. cache_get k c = Inr (lookup c k, c') \<and> (cache_ok c' \<and> pc_expired c' = None) \<and> lookup c' = lookup c \<and>
          pc_max_size c' = pc_max_size c"
    using cache_get_ok [of c k] by blast
qed (use cache_ok_bound in blast)

lemma cache_ok_empty [simp]: "cache_ok (empty_cache n)"
  by (simp add: cache_ok_def empty_cache_def)

lemma cache_ok_new [simp]: "cache_ok (new_ptr_cache_mode n m)"
  by (simp add: new_ptr_cache_mode_def mode_lru_def cache_ok_def empty_cache_def)

lemma fifo_set_new:
  assumes "cache_ok c" and "pc_mode c = FIFO" and "0 < pc_max_size c" and "k \<notin> set (pc_items c)"
  shows "\<exists>c'. cache_set k v c = Inr (False, c') \<and> cache_ok c' \<and> pc_mode c' = FIFO \<and>
           pc_max_size c' = pc_max_size c \<and> pc_items c' = take (pc_max_size c) (k # pc_items c)"
proof (cases "length (pc_items c) < pc_max_size c")
  case True
  have "pc_cache c k = None" using assms(1,4) by (auto simp: cache_ok_def)
  then have s: "cache_set k v c = Inr (False, c\<lparr>pc_cache := (pc_cache c)(k \<mapsto> new_block c v),
      pc_items := k # pc_items c\<rparr>)"
    using True assms(3) by (simp add: cache_set_def make_room.simps)
  show ?thesis using cache_set_ok [OF assms(1), of k v] s assms(2) True by auto
next
  case False
  then have ne: "pc_items c \<noteq> []" and len: "length (pc_items c) = pc_max_size c"
    using assms(1,3) by (auto simp: cache_ok_def)
  have kn: "pc_cache c k = None" using assms(1,4) by (auto simp: cache_ok_def)
  define d where "d = c\<lparr>pc_items := butlast (pc_items c),
      pc_cache := (pc_cache c)(last (pc_items c) := None)\<rparr>"
  have room: "length (pc_items d) < pc_max_size d"
    using len assms(3) by (simp add: d_def)
  have "make_room c = make_room d"
    using False delete_last_ok [OF assms(1) ne] assms(2) by (subst make_room.simps) (simp add: d_def)
  also have "\<dots> = Inr d" using room by (subst make_room.simps) simp
  finally have s: "cache_set k v c = Inr (False, d\<lparr>pc_cache := (pc_cache d)(k \<mapsto> new_block d v),
      pc_items := k # pc_items d\<rparr>)"
    using kn assms(3) by (simp add: cache_set_def)
  have "take (pc_max_size c) (k # pc_items c) = k # butlast (pc_items c)"
    using len assms(3) by (simp add: butlast_conv_take take_Cons')
  then show ?thesis using cache_set_ok [OF assms(1), of k v] s assms(2) by (auto simp: d_def)
qed

lemma fifo_put_all:
  "cache_ok c \<Longrightarrow> pc_mode c = FIFO \<Longrightarrow> 0 < pc_max_size c \<Longrightarrow> distinct (map fst kvs) \<Longrightarrow>
   set (map fst kvs) \<inter> set (pc_items c) = {} \<Longrightarrow>
   \<exists>c'. put_all cache_set kvs c = Inr c' \<and>
     pc_items c' = take (pc_max_size c) (rev (map fst kvs) @ pc_items c)"
proof (induction kvs arbitrary: c)
  case Nil
  then show ?case by (simp add: cache_ok_def)
next
  case (Cons kv kvs)
  obtain k v where kv: "kv = (k, v)" by force
  obtain d where d: "cache_set k v c = Inr (False, d)" "cache_ok d" "pc_mode d = FIFO"
      "pc_max_size d = pc_max_size c" "pc_items d = take (pc_max_size c) (k # pc_items c)"
    using fifo_set_new [OF Cons.prems(1-3), of k v] Cons.prems(5) by (auto simp: kv)
  have sub: "set (pc_items d) \<subseteq> insert k (set (pc_items c))"
    using set_take_subset [of "pc_max_size c" "k # pc_items c"] by (simp add: d(5))
  then have "set (map fst kvs) \<inter> set (pc_items d) = {}"
    using Cons.prems(4,5) by (auto simp: kv)
  then obtain e where e: "put_all cache_set kvs d = Inr e"
      "pc_items e = take (pc_max_size d) (rev (map fst kvs) @ pc_items d)"
    using Cons.IH [OF d(2,3)] Cons.prems(3,4) d(4) by auto
  have "take (pc_max_size c) (xs @ take (pc_max_size c) ys) = take (pc_max_size c) (xs @ ys)"
    for xs ys :: "'a list" by (simp add: min_def)
  with e d show ?case by (simp add: kv)
qed

subsection \<open>What the cache promises\<close>

text \<open>C32: In both eviction modes, over any history of \<^verbatim>\<open>set\<close> and \<^verbatim>\<open>get\<close> of a cache without expiry check, as
  long as no key is erased: nothing fails, although a \<^verbatim>\<open>get\<close> of an LRU cache counts hits and reorders the
  keys; every \<^verbatim>\<open>get\<close> in the history, and any one after it, answers with the value set last for its key or
  with nothing, never with an older value; the latest insertion is found, also after further lookups; and
  a bounded cache never holds more keys than its maximum.\<close>

theorem cache_never_stale:
  "\<exists>rs c. cache_run cache_set cache_get ops (new_ptr_cache_mode n m) = Inr (rs, c) \<and> answers_fit ops rs Map.empty \<and>
     (\<forall>k. \<exists>r c'. cache_get k c = Inr (r, c') \<and> (r = None \<or> r = last_put ops Map.empty k)) \<and>
     (\<forall>k v. newest_put ops None = Some (k, v) \<longrightarrow> (\<exists>c'. cache_get k c = Inr (Some v, c'))) \<and>
     (0 < n \<longrightarrow> cache_size c \<le> n)"
proof -
  have e: "lookup (new_ptr_cache_mode n m) k = None" "pc_max_size (new_ptr_cache_mode n m) = n"
      "pc_expired (new_ptr_cache_mode n m) = None" for k
    by (simp_all add: lookup_def new_ptr_cache_mode_def mode_lru_def empty_cache_def)
  have i: "cache_ok (new_ptr_cache_mode n m) \<and> pc_expired (new_ptr_cache_mode n m) = None"
      "\<forall>k v. lookup (new_ptr_cache_mode n m) k = Some v \<longrightarrow> Map.empty k = Some v"
      "\<forall>k v. None = Some (k, v) \<longrightarrow> lookup (new_ptr_cache_mode n m) k = Some v"
    using cache_ok_new [of n m] by (simp_all add: e)
  obtain rs c where c: "cache_run cache_set cache_get ops (new_ptr_cache_mode n m) = Inr (rs, c)"
      "cache_ok c \<and> pc_expired c = None" "pc_max_size c = n" "answers_fit ops rs Map.empty"
      "\<forall>k v. lookup c k = Some v \<longrightarrow> last_put ops Map.empty k = Some v"
      "\<forall>k v. newest_put ops None = Some (k, v) \<longrightarrow> lookup c k = Some v"
    using pc.run_law [OF i, of ops] unfolding e(2) by blast
  have g: "\<exists>c'. cache_get k c = Inr (lookup c k, c')" for k using cache_get_ok [OF c(2) [THEN conjunct1] c(2) [THEN conjunct2]] by blast
  have "lookup c k = None \<or> lookup c k = last_put ops Map.empty k" for k using c(5) by (cases "lookup c k") simp_all
  then have r: "\<exists>r c'. cache_get k c = Inr (r, c') \<and> (r = None \<or> r = last_put ops Map.empty k)" for k using g by blast
  have "\<exists>c'. cache_get k c = Inr (Some v, c')" if "newest_put ops None = Some (k, v)" for k v
    using g [of k] c(6) that by simp
  moreover have "dom (lookup c) = dom (pc_cache c)" by (auto simp: lookup_def dom_def)
  then have "0 < n \<longrightarrow> cache_size c \<le> n"
    using cache_ok_bound [of c] c(2,3) by (simp add: cache_size_def)
  ultimately show ?thesis using c(1,4) r by blast
qed

theorem cache_never_stale_witness:
  "\<exists>rs c c'. cache_run cache_set cache_get [Put (1 :: nat) ''a'', Put 2 ''b'', Get 1, Put 1 ''c'', Get 2]
       (new_ptr_cache_mode 2 LRU) = Inr (rs, c) \<and> length rs = 2 \<and> cache_get 1 c = Inr (Some ''c'', c')"
proof -
  let ?ops = "[Put (1 :: nat) ''a'', Put 2 ''b'', Get 1, Put 1 ''c'', Get 2]"
  obtain rs c where c: "cache_run cache_set cache_get ?ops (new_ptr_cache_mode 2 LRU) = Inr (rs, c)"
      "answers_fit ?ops rs Map.empty" "\<forall>k v. newest_put ?ops None = Some (k, v) \<longrightarrow> (\<exists>c'. cache_get k c = Inr (Some v, c'))"
    using cache_never_stale [of ?ops 2 LRU] by blast
  have "length rs = 2" using c(2) by (auto split: list.splits)
  moreover have "\<exists>c'. cache_get 1 c = Inr (Some ''c'', c')" using c(3) [rule_format, of 1 "''c''"] by simp
  ultimately show ?thesis using c(1) by blast
qed

text \<open>A FIFO cache of size \<open>n\<close> keeps exactly the \<open>n\<close> keys inserted last, newest first.\<close>

theorem fifo_keeps_newest:
  assumes "0 < n" and "distinct (map fst kvs)"
  shows "\<exists>c. put_all cache_set kvs (empty_cache n) = Inr c \<and> pc_items c = take n (rev (map fst kvs))"
  using fifo_put_all [OF cache_ok_empty _ _ assms(2), of n] assms(1) by (simp add: empty_cache_def)

theorem fifo_keeps_newest_witness:
  "\<exists>c. put_all cache_set [(1 :: nat, ''a''), (2, ''b''), (3, ''c'')] (empty_cache 2) = Inr c \<and>
     pc_items c = [3, 2]"
  using fifo_keeps_newest [of 2 "[(1 :: nat, ''a''), (2, ''b''), (3, ''c'')]"] by simp

text \<open>\<^verbatim>\<open>erase\<close> forgets the value but leaves the key in the list of ages. Erase the oldest key
  of a FIFO cache that is one short of full, and set it again: it is now listed twice. The next
  insertion of a new key finds the list full and throws out the value that was just set.\<close>

theorem erased_key_evicts_fresh_value:
  assumes "cache_ok c" and "pc_mode c = FIFO" and "pc_items c \<noteq> []"
    and "length (pc_items c) + 1 = pc_max_size c" and "k = last (pc_items c)"
    and "j \<noteq> k" and "j \<notin> set (pc_items c)"
  shows "\<exists>c1 c2. cache_set k v (snd (cache_erase k c)) = Inr (False, c1) \<and> lookup c1 k = Some v \<and>
           cache_set j w c1 = Inr (False, c2) \<and> lookup c2 k = None"
proof -
  obtain b where b: "pc_cache c k = Some b" using cache_ok_hd_last(2) [OF assms(1,3)] assms(5) by blast
  define c0 where "c0 = c\<lparr>pc_cache := (pc_cache c)(k := None)\<rparr>"
  have er: "cache_erase k c = (True, c0)" using b by (simp add: cache_erase_def c0_def)
  have mx: "0 < pc_max_size c" using assms(4) by linarith
  define c1 where "c1 = c0\<lparr>pc_cache := (pc_cache c0)(k \<mapsto> new_block c0 v), pc_items := k # pc_items c0\<rparr>"
  have s1: "cache_set k v c0 = Inr (False, c1)"
    using assms(4) by (simp add: cache_set_def c0_def c1_def make_room.simps)
  have jn: "pc_cache c j = None" using assms(1,7) by (auto simp: cache_ok_def)
  define c2 where "c2 = c1\<lparr>pc_cache := (pc_cache c1)(k := None), pc_items := butlast (pc_items c1)\<rparr>"
  have "delete_last c1 = Inr (True, c2)"
    using assms(3,5) by (simp add: delete_last_def cache_erase_def c1_def c0_def c2_def)
  moreover have "\<not> length (pc_items c1) < pc_max_size c1" "length (pc_items c2) < pc_max_size c2"
    using assms(3,4) by (simp_all add: c1_def c0_def c2_def)
  ultimately have "make_room c1 = Inr c2"
    using assms(2) by (subst make_room.simps) (simp add: c1_def c0_def, simp add: make_room.simps)
  then have s2: "cache_set j w c1 = Inr (False, c2\<lparr>pc_cache := (pc_cache c2)(j \<mapsto> new_block c2 w),
      pc_items := j # pc_items c2\<rparr>)"
    using jn assms(6) mx by (simp add: cache_set_def c1_def c0_def)
  show ?thesis
    using s1 s2 assms(6) by (simp add: er lookup_def c1_def c2_def new_block_def)
qed

theorem erased_key_evicts_fresh_value_witness:
  "\<exists>c c1 c2. cache_set 1 ''a'' (empty_cache 2) = Inr (False, c) \<and>
     cache_set 1 ''b'' (snd (cache_erase (1 :: nat) c)) = Inr (False, c1) \<and> lookup c1 1 = Some ''b'' \<and>
     cache_set 2 ''c'' c1 = Inr (False, c2) \<and> lookup c2 1 = None"
proof -
  obtain c where c: "cache_set (1 :: nat) ''a'' (empty_cache 2) = Inr (False, c)" "cache_ok c"
      "pc_mode c = FIFO" "pc_max_size c = 2" "pc_items c = [1]"
    using fifo_set_new [OF cache_ok_empty _ _ _, of 2 1 "''a''"] that
    by (force simp: empty_cache_def)
  from erased_key_evicts_fresh_value [OF c(2,3), of 1 2 "''b''" "''c''"] c show ?thesis by simp
qed

text \<open>In LRU mode, once the newest key has been erased, every further hit dereferences the end
  iterator of the map: \<open>lru_reoder\<close> reads the block of the front key before it tests that there is
  one.\<close>

theorem lru_hit_after_erase_is_undefined:
  assumes "cache_ok c" and "pc_mode c = LRU" and "pc_items c = k # j # xs" and "pc_expired c = None"
  shows "cache_get j (snd (cache_erase k c)) = Inl Undefined_behaviour"
proof -
  have "j \<in> dom (pc_cache c)" "k \<in> dom (pc_cache c)" "j \<noteq> k"
    using assms(1,3) by (auto simp: cache_ok_def)
  then obtain b where b: "pc_cache c j = Some b" by auto
  have "cache_erase k c = (True, c\<lparr>pc_cache := (pc_cache c)(k := None)\<rparr>)"
    using \<open>k \<in> dom (pc_cache c)\<close> by (auto simp: cache_erase_def)
  then show ?thesis
    using b assms(2-4) \<open>j \<noteq> k\<close> by (simp add: cache_get_def lru_reoder_def touch_def)
qed

theorem lru_hit_after_erase_is_undefined_witness:
  "\<exists>c. put_all cache_set [(1 :: nat, ''a''), (2, ''b'')] (new_ptr_cache_mode 4 LRU) = Inr c \<and>
     cache_get 1 (snd (cache_erase 2 c)) = Inl Undefined_behaviour"
proof -
  obtain c where c: "put_all cache_set [(1 :: nat, ''a''), (2, ''b'')] (new_ptr_cache_mode 4 LRU) = Inr c"
    by (auto simp: new_ptr_cache_mode_def mode_lru_def empty_cache_def cache_set_def make_room.simps)
  have ok: "cache_ok c"
    using c by (auto simp: new_ptr_cache_mode_def mode_lru_def empty_cache_def cache_set_def make_room.simps cache_ok_def
        split: if_splits)
  have "pc_mode c = LRU" "pc_items c = [2, 1]" "pc_expired c = None"
    using c by (auto simp: new_ptr_cache_mode_def mode_lru_def empty_cache_def cache_set_def
        make_room.simps)
  with c lru_hit_after_erase_is_undefined [OF ok, of 2 1 "[]"] show ?thesis by blast
qed

end
