(* ===== verification/Pcaplog.thy ===== *)
theory Pcaplog
  imports Pcap PtrCache
begin

text \<open>
  Writing captures to files: \<^verbatim>\<open>traflog/pcaplog.cpp\<close>, \<^verbatim>\<open>traflog/poolwriter.cpp\<close>,
  \<^verbatim>\<open>traflog/threadedpoolwriter.cpp\<close>, \<^verbatim>\<open>traflog/filewriter.cpp\<close>, \<^verbatim>\<open>traflog/fsoutput.cpp\<close> and
  \<^verbatim>\<open>traflog/traflog.cpp\<close>.

  \<open>files\<close> is a directory of names over numbered files, so that a stream keeps its file when the name is
  moved or removed; bytes count as written when the stream has them. The pool of streams is the cache
  of \<open>PtrCache\<close>, the packets are those of \<open>Pcap\<close>. The worker thread is a step of the threaded writer;
  dates, times and the outcome of calls that move and create files are in the environment. If a packet
  cannot be made, the exception is the result of the operation.

  Shown: the queue with the pool refines appending to files; the capture of a connection ends up
  complete and in order. Also what goes wrong when a file is removed or rotated while packets are
  queued, and that the stream of an ended capture is opened again.
\<close>

section \<open>Files\<close>

text \<open>A directory of names over numbered files: a stream keeps the file it was opened on when the name is
  removed or moved.\<close>

record files =
  fs_dir :: "string \<rightharpoonup> nat"
  fs_data :: "nat \<Rightarrow> byte list"
  fs_next :: nat

definition no_files :: files where
  "no_files = \<lparr>fs_dir = (\<lambda>_. None), fs_data = (\<lambda>_. []), fs_next = 0\<rparr>"

definition content :: "files \<Rightarrow> string \<Rightarrow> byte list" where
  "content f n = (case fs_dir f n of None \<Rightarrow> [] | Some i \<Rightarrow> fs_data f i)"

definition create_file :: "string \<Rightarrow> files \<Rightarrow> files" where
  "create_file n f =
     f\<lparr>fs_dir := (fs_dir f)(n \<mapsto> fs_next f), fs_data := (fs_data f)(fs_next f := []), fs_next := fs_next f + 1\<rparr>"

definition open_append :: "string \<Rightarrow> files \<Rightarrow> nat \<times> files" where
  "open_append n f =
     (case fs_dir f n of Some i \<Rightarrow> (i, f) | None \<Rightarrow> (fs_next f, create_file n f))"

definition append_file :: "nat \<Rightarrow> byte list \<Rightarrow> files \<Rightarrow> files" where
  "append_file i bs f = f\<lparr>fs_data := (fs_data f)(i := fs_data f i @ bs)\<rparr>"

definition unlink :: "string \<Rightarrow> files \<Rightarrow> files" where
  "unlink n f = f\<lparr>fs_dir := (fs_dir f)(n := None)\<rparr>"

definition rename_file :: "string \<Rightarrow> string \<Rightarrow> files \<Rightarrow> files" where
  "rename_file a b f = f\<lparr>fs_dir := (fs_dir f)(a := None, b := fs_dir f a)\<rparr>"

definition truncate_file :: "string \<Rightarrow> files \<Rightarrow> files" where
  "truncate_file n f = (case fs_dir f n of Some i \<Rightarrow> f\<lparr>fs_data := (fs_data f)(i := [])\<rparr> | None \<Rightarrow> create_file n f)"

section \<open>The plain writer\<close>

text \<open>The stream, if there is one, with the file it is open on. A stream that could not be opened, or was
  closed, is open on none and drops what is written.\<close>

record file_writer =
  fw_writer :: "nat option option"
  fw_opened :: bool
  fw_filename :: string

definition new_file_writer :: file_writer where
  "new_file_writer = \<lparr>fw_writer = None, fw_opened = False, fw_filename = []\<rparr>"

definition stream_put :: "nat option \<Rightarrow> byte list \<Rightarrow> files \<Rightarrow> files" where
  "stream_put s bs f = (case s of None \<Rightarrow> f | Some i \<Rightarrow> append_file i bs f)"

definition fw_write :: "byte list \<Rightarrow> file_writer \<Rightarrow> files \<Rightarrow> nat \<times> files" where
  "fw_write bs w f = (case fw_writer w of None \<Rightarrow> (0, f) | Some s \<Rightarrow> (length bs, stream_put s bs f))"

definition fw_close :: "file_writer \<Rightarrow> file_writer" where
  "fw_close w =
     (case fw_writer w of
        None \<Rightarrow> w\<lparr>fw_opened := False\<rparr>
      | Some s \<Rightarrow> w\<lparr>fw_opened := False, fw_writer := Some None, fw_filename := []\<rparr>)"

definition fw_open :: "bool \<Rightarrow> bool \<Rightarrow> string \<Rightarrow> file_writer \<Rightarrow> files \<Rightarrow> bool \<times> file_writer \<times> files" where
  "fw_open openable chmod_ok fnm w f =
     (if fw_writer w \<noteq> None then (True, w, f)
      else if fnm = [] then (False, w, f)
      else
        let (s, f) = (if openable then let (i, f) = open_append fnm f in (Some i, f) else (None, f));
            w = w\<lparr>fw_writer := Some s\<rparr>
        in if chmod_ok then (False, fw_close w, f)
           else if s \<noteq> None then (True, w\<lparr>fw_filename := fnm, fw_opened := True\<rparr>, f)
           else (False, fw_close w, f))"

definition fw_flush :: "file_writer \<Rightarrow> bool" where
  "fw_flush w \<longleftrightarrow> fw_writer w \<noteq> None"

section \<open>The pool of streams\<close>

record pool_writer =
  pw_pool :: "(string, nat option) ptr_cache"
  pw_files :: files

definition new_pool_writer :: pool_writer where
  "new_pool_writer = \<lparr>pw_pool = new_ptr_cache 30 None, pw_files = no_files\<rparr>"

definition get_ofstream :: "(string \<Rightarrow> bool) \<Rightarrow> string \<Rightarrow> bool \<Rightarrow> pool_writer \<Rightarrow> (nat option option \<times> pool_writer) result" where
  "get_ofstream openable fnm create w =
     (case cache_get fnm (pw_pool w) of
        Inl e \<Rightarrow> Inl e
      | Inr (Some s, c) \<Rightarrow> ok (Some s, w\<lparr>pw_pool := c\<rparr>)
      | Inr (None, c) \<Rightarrow>
          if \<not> create then ok (None, w\<lparr>pw_pool := c\<rparr>)
          else
            let (s, f) = (if openable fnm then let (i, f) = open_append fnm (pw_files w) in (Some i, f) else (None, pw_files w))
            in case cache_set fnm s c of
                 Inl e \<Rightarrow> Inl e
               | Inr (_, c) \<Rightarrow>
                   (case cache_get fnm c of
                      Inl e \<Rightarrow> Inl e
                    | Inr (r, c) \<Rightarrow> ok (r, \<lparr>pw_pool = c, pw_files = f\<rparr>)))"

text \<open>Writing a string and writing a buffer differ for an empty buffer only.\<close>

definition pw_write :: "(string \<Rightarrow> bool) \<Rightarrow> string \<Rightarrow> byte list \<Rightarrow> pool_writer \<Rightarrow> (nat \<times> pool_writer) result" where
  "pw_write openable fnm bs w =
     (case get_ofstream openable fnm True w of
        Inl e \<Rightarrow> Inl e
      | Inr (None, w) \<Rightarrow> ok (0, w)
      | Inr (Some s, w) \<Rightarrow>
          if bs = [] then ok (0, w) else ok (length bs, w\<lparr>pw_files := stream_put s bs (pw_files w)\<rparr>))"

definition pw_flush :: "string \<Rightarrow> pool_writer \<Rightarrow> (bool \<times> pool_writer) result" where
  "pw_flush fnm w =
     (case get_ofstream (\<lambda>_. True) fnm False w of Inl e \<Rightarrow> Inl e | Inr (s, w) \<Rightarrow> ok (s \<noteq> None, w))"

definition pw_close :: "string \<Rightarrow> pool_writer \<Rightarrow> (bool \<times> pool_writer) result" where
  "pw_close fnm w =
     (case get_ofstream (\<lambda>_. True) fnm False w of
        Inl e \<Rightarrow> Inl e
      | Inr (None, w) \<Rightarrow> ok (False, w)
      | Inr (Some _, w) \<Rightarrow> ok (True, w\<lparr>pw_pool := snd (cache_erase fnm (pw_pool w))\<rparr>))"

definition pw_open :: "(string \<Rightarrow> bool) \<Rightarrow> string \<Rightarrow> pool_writer \<Rightarrow> (bool \<times> pool_writer) result" where
  "pw_open openable fnm w =
     (case get_ofstream openable fnm True w of Inl e \<Rightarrow> Inl e | Inr (s, w) \<Rightarrow> ok (s \<noteq> None, w))"

definition pw_recreate :: "string \<Rightarrow> pool_writer \<Rightarrow> (bool \<times> pool_writer) result" where
  "pw_recreate fnm w =
     (if fs_dir (pw_files w) fnm = None then (case pw_close fnm w of Inl e \<Rightarrow> Inl e | Inr (_, w) \<Rightarrow> ok (True, w))
      else ok (False, w))"

section \<open>The queue in front of the pool\<close>

record threaded_writer =
  tw_queue :: "(string \<times> byte list) list"
  tw_pool :: pool_writer

definition tw_write :: "string \<Rightarrow> byte list \<Rightarrow> threaded_writer \<Rightarrow> nat \<times> threaded_writer" where
  "tw_write fnm bs t = (length bs, t\<lparr>tw_queue := tw_queue t @ [(fnm, bs)]\<rparr>)"

text \<open>One turn of the worker's loop; false when it has to wait.\<close>

definition tw_worker :: "(string \<Rightarrow> bool) \<Rightarrow> threaded_writer \<Rightarrow> (bool \<times> threaded_writer) result" where
  "tw_worker openable t =
     (case tw_queue t of
        [] \<Rightarrow> ok (False, t)
      | (fnm, bs) # rest \<Rightarrow>
          (case pw_write openable fnm bs (tw_pool t) of
             Inl e \<Rightarrow> Inl e
           | Inr (_, p) \<Rightarrow> ok (True, \<lparr>tw_queue = rest, tw_pool = p\<rparr>)))"

text \<open>The destructor: the worker leaves its loop at the next turn and the queue is destroyed.\<close>

definition tw_stop :: "threaded_writer \<Rightarrow> files" where
  "tw_stop t = pw_files (tw_pool t)"

definition on_pool :: "(pool_writer \<Rightarrow> ('a \<times> pool_writer) result) \<Rightarrow> threaded_writer \<Rightarrow> ('a \<times> threaded_writer) result" where
  "on_pool f t = (case f (tw_pool t) of Inl e \<Rightarrow> Inl e | Inr (r, p) \<Rightarrow> ok (r, t\<lparr>tw_pool := p\<rparr>))"

section \<open>A queue refines appending to files\<close>

lemma make_room_fifo:
  assumes "pc_mode c = FIFO" and "0 < pc_max_size c"
  shows "\<exists>d. make_room c = ok d \<and> pc_mode d = FIFO \<and> pc_max_size d = pc_max_size c \<and> pc_expired d = pc_expired c \<and>
    (\<forall>j. pc_cache d j = pc_cache c j \<or> pc_cache d j = None)"
  using assms
proof (induction c rule: make_room.induct)
  case (1 c)
  show ?case
  proof (cases "length (pc_items c) < pc_max_size c")
    case True
    then show ?thesis using 1 by (subst make_room.simps) auto
  next
    case False
    then have ne: "pc_items c \<noteq> []" using 1 by auto
    obtain r c2 where d: "delete_last c = ok (r, c2)"
      using ne by (cases "cache_erase (last (pc_items c)) c") (auto simp: delete_last_def)
    have c2: "pc_mode c2 = FIFO" "pc_max_size c2 = pc_max_size c" "pc_expired c2 = pc_expired c"
        "\<forall>j. pc_cache c2 j = pc_cache c j \<or> pc_cache c2 j = None"
      using d ne 1(2) by (auto simp: delete_last_def cache_erase_def Let_def split: option.splits prod.splits if_splits)
    have "make_room c = make_room c2" using False d 1(2) by (subst make_room.simps) simp
    then show ?thesis using 1(1) [OF False _ refl d] c2 1(2,3) by (metis mode_t.distinct(1) )
  qed
qed

lemma fifo_set:
  assumes "pc_mode c = FIFO" and "0 < pc_max_size c"
  shows "\<exists>r d. cache_set k v c = ok (r, d) \<and> pc_mode d = FIFO \<and> pc_max_size d = pc_max_size c \<and> pc_expired d = pc_expired c \<and>
    lookup d k = Some v \<and> (\<forall>j. j \<noteq> k \<longrightarrow> lookup d j = lookup c j \<or> lookup d j = None)"
proof (cases "pc_cache c k")
  case None
  obtain d where "make_room c = ok d" "pc_mode d = FIFO" "pc_max_size d = pc_max_size c" "pc_expired d = pc_expired c"
      "\<forall>j. pc_cache d j = pc_cache c j \<or> pc_cache d j = None"
    using make_room_fifo [OF assms] by blast
  moreover from this(5) have "lookup d j = lookup c j \<or> lookup d j = None" for j by (metis lookup_def option.map_disc_iff)
  ultimately show ?thesis using None assms by (auto simp: cache_set_def lookup_def new_block_def)
next
  case (Some b)
  then show ?thesis using assms by (auto simp: cache_set_def lookup_def new_block_def)
qed

lemma pool_get: "pc_mode c = FIFO \<Longrightarrow> pc_expired c = None \<Longrightarrow> cache_get k c = ok (lookup c k, c)"
  by (auto simp: cache_get_def lookup_def split: option.splits)

text \<open>Streams of the pool are open on the file their name stands for.\<close>

definition files_ok :: "files \<Rightarrow> bool" where
  "files_ok f \<longleftrightarrow> (\<forall>n i. fs_dir f n = Some i \<longrightarrow> i < fs_next f) \<and>
     (\<forall>m n i. fs_dir f m = Some i \<longrightarrow> fs_dir f n = Some i \<longrightarrow> m = n)"

definition pool_ok :: "pool_writer \<Rightarrow> bool" where
  "pool_ok w \<longleftrightarrow> files_ok (pw_files w) \<and> pc_mode (pw_pool w) = FIFO \<and> 0 < pc_max_size (pw_pool w) \<and> pc_expired (pw_pool w) = None \<and>
     (\<forall>n s. lookup (pw_pool w) n = Some s \<longrightarrow> s \<noteq> None \<and> s = fs_dir (pw_files w) n)"

lemma open_append_ok:
  assumes "files_ok f" and "open_append n f = (i, g)"
  shows "files_ok g \<and> fs_dir g n = Some i \<and> content g = content f \<and> (\<forall>m j. fs_dir f m = Some j \<longrightarrow> fs_dir g m = Some j)"
proof (cases "fs_dir f n")
  case (Some j)
  then show ?thesis using assms by (simp add: open_append_def)
next
  case None
  then have g: "i = fs_next f" "g = create_file n f" using assms(2) by (simp_all add: open_append_def)
  have b: "fs_dir f m = Some j \<Longrightarrow> j < fs_next f" for m j using assms(1) by (auto simp: files_ok_def)
  have "files_ok g"
    using assms(1) b by (auto simp: files_ok_def g create_file_def less_Suc_eq split: if_splits) blast+
  moreover have "content g m = content f m" for m
    using None b [of m] by (auto simp: content_def g create_file_def split: option.splits)
  ultimately show ?thesis using None by (auto simp: g create_file_def)
qed

lemma get_ofstream_ok:
  assumes "pool_ok w" and "openable fnm"
  shows "\<exists>i w'. get_ofstream openable fnm True w = ok (Some (Some i), w') \<and> pool_ok w' \<and> fs_dir (pw_files w') fnm = Some i \<and>
    content (pw_files w') = content (pw_files w) \<and> lookup (pw_pool w') fnm = Some (Some i)"
proof (cases "lookup (pw_pool w) fnm")
  case (Some s)
  then obtain i where "s = Some i" "fs_dir (pw_files w) fnm = Some i" using assms(1) by (auto simp: pool_ok_def)
  then show ?thesis using Some assms(1) by (auto simp: get_ofstream_def pool_get pool_ok_def)
next
  case None
  obtain i g where g: "open_append fnm (pw_files w) = (i, g)" by force
  note og = open_append_ok [OF _ g]
  obtain r c where c: "cache_set fnm (Some i) (pw_pool w) = ok (r, c)" "pc_mode c = FIFO" "0 < pc_max_size c" "pc_expired c = None"
      "lookup c fnm = Some (Some i)" "\<forall>j. j \<noteq> fnm \<longrightarrow> lookup c j = lookup (pw_pool w) j \<or> lookup c j = None"
    using fifo_set [of "pw_pool w" fnm "Some i"] assms(1) by (auto simp: pool_ok_def)
  have "pool_ok \<lparr>pw_pool = c, pw_files = g\<rparr>"
    using c og assms(1) unfolding pool_ok_def by (auto) (metis option.distinct(1) option.inject option.exhaust)+
  moreover have "get_ofstream openable fnm True w = ok (Some (Some i), \<lparr>pw_pool = c, pw_files = g\<rparr>)"
    using None assms c g by (simp add: get_ofstream_def pool_get pool_ok_def)
  ultimately show ?thesis using og c(5) assms(1) by (auto simp: pool_ok_def)
qed

lemma append_file_content:
  assumes "files_ok f" and "fs_dir f n = Some i"
  shows "content (append_file i bs f) = (content f)(n := content f n @ bs) \<and> files_ok (append_file i bs f)"
  using assms by (auto simp: content_def append_file_def files_ok_def fun_eq_iff split: option.splits)

lemma pw_write_ok:
  assumes "pool_ok w" and "openable fnm"
  shows "\<exists>k w'. pw_write openable fnm bs w = ok (k, w') \<and> pool_ok w' \<and>
    content (pw_files w') = (content (pw_files w))(fnm := content (pw_files w) fnm @ bs) \<and> lookup (pw_pool w') fnm \<noteq> None"
proof -
  obtain i w1 where g: "get_ofstream openable fnm True w = ok (Some (Some i), w1)" "pool_ok w1" "fs_dir (pw_files w1) fnm = Some i"
      "content (pw_files w1) = content (pw_files w)" "lookup (pw_pool w1) fnm = Some (Some i)"
    using get_ofstream_ok [of w openable fnm] assms by blast
  have f: "files_ok (pw_files w1)" using g(2) by (simp add: pool_ok_def)
  have "pool_ok (w1\<lparr>pw_files := append_file i bs (pw_files w1)\<rparr>)"
    using g(2) append_file_content [OF f g(3)] by (auto simp: pool_ok_def append_file_def)
  then show ?thesis using g append_file_content [OF f g(3), of bs] by (auto simp: pw_write_def stream_put_def)
qed

lemma get_existing:
  assumes "pool_ok w"
  shows "get_ofstream openable fnm False w = ok (lookup (pw_pool w) fnm, w)"
  using assms by (auto simp: get_ofstream_def pool_get pool_ok_def split: option.splits)

lemma pw_close_ok:
  assumes "pool_ok w"
  shows "\<exists>b w'. pw_close fnm w = ok (b, w') \<and> pool_ok w' \<and> pw_files w' = pw_files w \<and> lookup (pw_pool w') fnm = None"
  using assms
  by (cases "lookup (pw_pool w) fnm")
     (auto simp: pw_close_def get_existing pool_ok_def cache_erase_def lookup_def split: option.splits if_splits)

lemma pw_flush_ok: "pool_ok w \<Longrightarrow> \<exists>b. pw_flush fnm w = ok (b, w)"
  by (simp add: pw_flush_def get_existing)

text \<open>The contract: a file holds, or will hold, what was written to its name.\<close>

definition eventual :: "threaded_writer \<Rightarrow> string \<Rightarrow> byte list" where
  "eventual t n = content (pw_files (tw_pool t)) n @ concat (map snd (filter (\<lambda>e. fst e = n) (tw_queue t)))"

datatype tw_op = Log string "byte list" | Turn | Flush string | Close string

primrec tw_do :: "(string \<Rightarrow> bool) \<Rightarrow> tw_op \<Rightarrow> threaded_writer \<Rightarrow> threaded_writer result" where
  "tw_do openable (Log n bs) t = ok (snd (tw_write n bs t))"
| "tw_do openable Turn t = (case tw_worker openable t of Inl e \<Rightarrow> Inl e | Inr (_, t) \<Rightarrow> ok t)"
| "tw_do openable (Flush n) t = (case on_pool (pw_flush n) t of Inl e \<Rightarrow> Inl e | Inr (_, t) \<Rightarrow> ok t)"
| "tw_do openable (Close n) t = (case on_pool (pw_close n) t of Inl e \<Rightarrow> Inl e | Inr (_, t) \<Rightarrow> ok t)"

fun tw_run :: "(string \<Rightarrow> bool) \<Rightarrow> tw_op list \<Rightarrow> threaded_writer \<Rightarrow> threaded_writer result" where
  "tw_run openable [] t = ok t"
| "tw_run openable (x # xs) t = (case tw_do openable x t of Inl e \<Rightarrow> Inl e | Inr t \<Rightarrow> tw_run openable xs t)"

primrec op_log :: "tw_op \<Rightarrow> string \<Rightarrow> byte list" where
  "op_log (Log n bs) m = (if m = n then bs else [])"
| "op_log Turn m = []"
| "op_log (Flush n) m = []"
| "op_log (Close n) m = []"

lemma worker_ok:
  assumes "pool_ok (tw_pool t)" and "\<forall>n. openable n"
  shows "\<exists>b t'. tw_worker openable t = ok (b, t') \<and> pool_ok (tw_pool t') \<and> eventual t' = eventual t \<and> tw_queue t' = tl (tw_queue t)"
proof (cases "tw_queue t")
  case Nil
  then show ?thesis using assms by (auto simp: tw_worker_def)
next
  case (Cons e rest)
  obtain n bs where e: "e = (n, bs)" by force
  obtain k w where "pw_write openable n bs (tw_pool t) = ok (k, w)" "pool_ok w"
      "content (pw_files w) = (content (pw_files (tw_pool t)))(n := content (pw_files (tw_pool t)) n @ bs)"
    using pw_write_ok [OF assms(1), of openable n bs] assms(2) by blast
  then show ?thesis by (auto simp: tw_worker_def Cons e eventual_def fun_eq_iff)
qed

lemma tw_do_ok:
  assumes "pool_ok (tw_pool t)" and "\<forall>n. openable n"
  shows "\<exists>t'. tw_do openable x t = ok t' \<and> pool_ok (tw_pool t') \<and> eventual t' = (\<lambda>m. eventual t m @ op_log x m)"
proof (cases x)
  case (Log n bs)
  then show ?thesis using assms by (auto simp: tw_write_def eventual_def fun_eq_iff)
next
  case Turn
  then show ?thesis using worker_ok [OF assms] by auto
next
  case (Flush n)
  then show ?thesis using pw_flush_ok [OF assms(1), of n] assms by (auto simp: on_pool_def eventual_def fun_eq_iff)
next
  case (Close n)
  then show ?thesis using pw_close_ok [OF assms(1), of n] by (auto simp: on_pool_def eventual_def fun_eq_iff)
qed

lemma tw_run_ok:
  "pool_ok (tw_pool t) \<Longrightarrow> \<forall>n. openable n \<Longrightarrow>
   \<exists>t'. tw_run openable xs t = ok t' \<and> pool_ok (tw_pool t') \<and> eventual t' = (\<lambda>m. eventual t m @ concat (map (\<lambda>x. op_log x m) xs))"
proof (induction xs arbitrary: t)
  case (Cons x xs)
  obtain u where u: "tw_do openable x t = ok u" "pool_ok (tw_pool u)" "eventual u = (\<lambda>m. eventual t m @ op_log x m)"
    using tw_do_ok [OF Cons.prems] by blast
  show ?case using Cons.IH [OF u(2) Cons.prems(2)] u by auto
qed simp

lemma drain_ok:
  "pool_ok (tw_pool t) \<Longrightarrow> \<forall>n. openable n \<Longrightarrow> length (tw_queue t) \<le> k \<Longrightarrow>
   \<exists>t'. tw_run openable (replicate k Turn) t = ok t' \<and> tw_queue t' = [] \<and> pool_ok (tw_pool t') \<and>
     content (pw_files (tw_pool t')) = eventual t"
proof (induction k arbitrary: t)
  case 0
  then show ?case by (simp add: eventual_def)
next
  case (Suc k)
  obtain b u where u: "tw_worker openable t = ok (b, u)" "pool_ok (tw_pool u)" "eventual u = eventual t" "tw_queue u = tl (tw_queue t)"
    using worker_ok [OF Suc.prems(1,2)] by blast
  have "length (tw_queue u) \<le> k" using Suc.prems(3) u(4) by simp
  from Suc.IH [OF u(2) Suc.prems(2) this] show ?case using u by auto
qed

text \<open>C19: The queue in front of the files refines appending to them: whatever is queued, flushed
  and closed in any order, with turns of the worker in between, once the worker has had as many
  turns as the queue is long each file holds exactly the bytes written to it, in order, although
  streams are evicted and opened again.\<close>

theorem queued_writes_reach_files:
  assumes "pool_ok (tw_pool t)" and "\<forall>n. openable n"
  shows "\<exists>u. tw_run openable xs t = ok u \<and>
    (\<forall>k. length (tw_queue u) \<le> k \<longrightarrow>
      (\<exists>v. tw_run openable (replicate k Turn) u = ok v \<and> tw_queue v = [] \<and>
        content (pw_files (tw_pool v)) = (\<lambda>m. eventual t m @ concat (map (\<lambda>x. op_log x m) xs))))"
proof -
  obtain u where u: "tw_run openable xs t = ok u" "pool_ok (tw_pool u)"
      "eventual u = (\<lambda>m. eventual t m @ concat (map (\<lambda>x. op_log x m) xs))"
    using tw_run_ok [OF assms] by blast
  have "\<exists>v. tw_run openable (replicate k Turn) u = ok v \<and> tw_queue v = [] \<and>
      content (pw_files (tw_pool v)) = (\<lambda>m. eventual t m @ concat (map (\<lambda>x. op_log x m) xs))" if "length (tw_queue u) \<le> k" for k
    using drain_ok [OF u(2) assms(2) that] unfolding u(3) by blast
  with u(1) show ?thesis by blast
qed

text \<open>When the writer is destroyed, a file is complete only if nothing for it is left in the
  queue.\<close>

theorem stopping_loses_queue:
  "content (tw_stop t) n = eventual t n \<longleftrightarrow> (\<forall>e \<in> set (tw_queue t). fst e = n \<longrightarrow> snd e = [])"
  by (auto simp: tw_stop_def eventual_def)

text \<open>The plain writer never writes: if the mode of the file can be set, opening it fails, the
  next attempt reports success without opening, and writing drops the bytes and reports their
  number.\<close>

theorem plain_writer_writes_nothing:
  assumes "fw_writer w = None" and "fnm \<noteq> []"
  shows "\<exists>w1 f1. fw_open openable True fnm w f = (False, w1, f1) \<and> fw_open openable c fnm w1 f1 = (True, w1, f1) \<and>
    fw_write bs w1 f1 = (length bs, f1)"
proof -
  define w1 where "w1 = w\<lparr>fw_opened := False, fw_writer := Some None, fw_filename := []\<rparr>"
  have "\<exists>f1. fw_open openable True fnm w f = (False, w1, f1)"
    using assms by (cases openable; cases "open_append fnm f") (auto simp: fw_open_def fw_close_def w1_def)
  moreover have "fw_open openable c fnm w1 f1 = (True, w1, f1) \<and> fw_write bs w1 f1 = (length bs, f1)" for f1
    by (simp add: fw_open_def fw_write_def stream_put_def w1_def)
  ultimately show ?thesis by blast
qed

section \<open>Names of capture files\<close>

record end_point =
  ep_host :: string
  ep_name :: string
  ep_port :: u16
  ep_l3 :: nat
  ep_stream :: bool

text \<open>What the logger sees of a proxy: its contexts and bound contexts on both sides.\<close>

record proxy_view =
  pv_com :: bool
  pv_ls :: "end_point list"
  pv_lda :: "end_point list"
  pv_rs :: "end_point list"
  pv_rda :: "end_point list"
  pv_lsize :: int
  pv_rsize :: int

definition first_of :: "end_point list \<Rightarrow> end_point list \<Rightarrow> (end_point \<Rightarrow> string) \<Rightarrow> string" where
  "first_of xs ys f = (if xs \<noteq> [] then f (hd xs) else if ys \<noteq> [] then f (hd ys) else [])"

definition traflog_dir_key :: "proxy_view \<Rightarrow> string" where
  "traflog_dir_key p = first_of (pv_ls p) (pv_lda p) ep_host"

definition traflog_file_key :: "proxy_view option \<Rightarrow> bool \<Rightarrow> string" where
  "traflog_file_key proxy left =
     (case proxy of
        None \<Rightarrow> []
      | Some p \<Rightarrow>
          let l = first_of (pv_ls p) (pv_lda p) ep_name; r = first_of (pv_rs p) (pv_rda p) ep_name
          in if left then
               (if 0 < pv_lsize p \<and> 0 < pv_rsize p then l @ ''-'' @ r
                else if 0 < pv_lsize p then l @ ''-unknown''
                else if 0 < pv_rsize p then ''unknown-'' @ r
                else ''unknown-unknown'')
             else
               (if 0 < pv_lsize p \<and> 0 < pv_rsize p then r @ ''-'' @ l
                else if 0 < pv_rsize p then r @ ''-unknown''
                else if 0 < pv_lsize p then ''unknown-'' @ l
                else ''unknown-unknown''))"

record fs_output =
  fo_filename :: string
  fo_data_dir :: string
  fo_prefix :: string
  fo_suffix :: string
  fo_host_l :: string
  fo_key_l :: string
  fo_key_r :: string

text \<open>The date and the time are texts; directories are not modelled.\<close>

definition generate_filename :: "string \<Rightarrow> string \<Rightarrow> proxy_view \<Rightarrow> fs_output \<Rightarrow> string \<times> fs_output" where
  "generate_filename date time p o' =
     (let o' = o'\<lparr>fo_host_l := traflog_dir_key p, fo_key_l := traflog_file_key (Some p) True,
                  fo_key_r := traflog_file_key (Some p) False\<rparr>
      in if fo_key_l o' = [] \<or> fo_key_r o' = [] then ([], o')
         else
           let name = fo_data_dir o' @ ''/'' @ fo_host_l o' @ ''/'' @ date @ ''/'' @ fo_prefix o' @ time @ ''_'' @ fo_key_l o' @ ''.'' @
                 fo_suffix o'
           in (name, o'\<lparr>fo_filename := name\<rparr>))"

definition generate_filename_single :: "string \<Rightarrow> string \<Rightarrow> string \<Rightarrow> fs_output \<Rightarrow> string \<times> fs_output" where
  "generate_filename_single filename date time o' =
     (let name = fo_data_dir o' @ ''/'' @ fo_prefix o' @ filename @ ''-'' @ date @ ''--'' @ time @ ''.'' @ fo_suffix o'
      in (name, o'\<lparr>fo_filename := name\<rparr>))"

definition new_fs_output :: "string \<Rightarrow> string \<Rightarrow> proxy_view option \<Rightarrow> string \<Rightarrow> string \<Rightarrow> string \<Rightarrow> fs_output" where
  "new_fs_output date time proxy dir prefix suffix =
     (let o' = \<lparr>fo_filename = [], fo_data_dir = dir, fo_prefix = prefix, fo_suffix = suffix, fo_host_l = [],
                fo_key_l = ''???:???'', fo_key_r = ''???:???''\<rparr>
      in snd (case proxy of Some p \<Rightarrow> generate_filename date time p o' | None \<Rightarrow> generate_filename_single ''capture'' date time o'))"

section \<open>The capture of a connection\<close>

record pcap_log =
  lg_parent :: bool
  lg_details :: tcp_details
  lg_writer :: bool
  lg_fs :: fs_output
  lg_hook :: bool
  lg_hooked :: "byte list list"
  lg_single_only :: bool
  lg_header_written :: bool
  lg_tcp_start_written :: bool
  lg_bytes_written :: int
  lg_bytes_quota :: int
  lg_rotate_now :: bool
  lg_comlog :: "byte list"

record log_env =
  le_pcap :: pcap_env
  le_hook_only :: bool
  le_remove_ok :: bool
  le_rename_ok :: bool
  le_creat_ok :: bool
  le_date :: string
  le_time :: string

definition default_details :: tcp_details where
  "default_details = \<lparr>cd_source = zero_storage, cd_destination = zero_storage, ip_id_in = 0, ip_id_out = 0, ip_version = 4,
     next_proto = proto_TCP, cd_ttl = 32, tun_proto = 0, tun_ttl = 1, tun_details = None, max_data_size = 1380,
     seq_in = 0, seq_out = 0, tcp_lastack_in = 0, tcp_lastack_out = 0\<rparr>"

text \<open>The assignments of a null pointer in the constructor are to its argument, the member keeps the
  proxy.\<close>

definition new_pcap_log :: "inet_api \<Rightarrow> u32 \<Rightarrow> u32 \<Rightarrow> fs_output \<Rightarrow> proxy_view option \<Rightarrow> pcap_log" where
  "new_pcap_log api rand_in rand_out fs parent =
     (let g = \<lparr>lg_parent = (parent \<noteq> None), lg_details = default_details, lg_writer = False, lg_fs = fs, lg_hook = False,
               lg_hooked = [], lg_single_only = False, lg_header_written = False, lg_tcp_start_written = False,
               lg_bytes_written = 0, lg_bytes_quota = 0, lg_rotate_now = False, lg_comlog = []\<rparr>
      in case parent of
           None \<Rightarrow> g
         | Some p \<Rightarrow>
             let ls = (if pv_ls p = [] then pv_lda p else pv_ls p); rs = (if pv_rs p = [] then pv_rda p else pv_rs p)
             in if \<not> pv_com p \<or> ls = [] \<or> rs = [] then g
                else
                  let l = hd ls; r = hd rs; d = default_details;
                      d = d\<lparr>cd_source := pack_ss api (ep_l3 l) (ep_host l) (ep_port l),
                            cd_destination := pack_ss api (ep_l3 r) (ep_host r) (ep_port r)\<rparr>;
                      d = d\<lparr>ip_version := (if ep_l3 l = AF_INET6 then 6 else 4),
                            next_proto := (if ep_stream l then proto_TCP else proto_UDP)\<rparr>;
                      d = (if next_proto d = proto_TCP then d\<lparr>seq_in := rand_in, seq_out := rand_out\<rparr> else d)
                  in g\<lparr>lg_details := d, lg_writer := True\<rparr>)"

definition comment_frame :: "pcapng_epb \<Rightarrow> pcap_log \<Rightarrow> bool \<times> pcapng_epb \<times> pcap_log" where
  "comment_frame f g =
     (if lg_comlog g \<noteq> [] then (True, epb_comment f (lg_comlog g), g\<lparr>lg_comlog := []\<rparr>) else (False, f, g))"

definition new_frame :: "bool \<Rightarrow> pcapng_epb" where
  "new_frame hook = \<lparr>epb_iface_id = 0, epb_timestamp_high = 0, epb_timestamp_low = 0, epb_captured_len = 0, epb_original_len = 0,
     epb_packet_data = None, epb_options = None, epb_hook = hook, epb_hooked = []\<rparr>"

definition capture_header :: "byte list" where
  "capture_header = snd (ifb_append \<lparr>ifb_link_type = 113, ifb_snaplen = 20000, ifb_options = None\<rparr>
     (snd (shb_append \<lparr>shb_options = None\<rparr> [])))"

text \<open>Writing of prepared bytes, unless only the hook wants them.\<close>

definition emit :: "log_env \<Rightarrow> byte list \<Rightarrow> pcap_log \<Rightarrow> threaded_writer \<Rightarrow> pcap_log \<times> threaded_writer" where
  "emit env out g t =
     (if le_hook_only env then (g, t)
      else let (wr, t) = tw_write (fo_filename (lg_fs g)) out t in (g\<lparr>lg_bytes_written := lg_bytes_written g + int wr\<rparr>, t))"

definition write_pcap_header :: "log_env \<Rightarrow> bool \<Rightarrow> pcap_log \<Rightarrow> threaded_writer \<Rightarrow> pcap_log \<times> threaded_writer" where
  "write_pcap_header env is_recreated g t =
     (if \<not> lg_header_written g \<or> is_recreated then
        let (g, t) = emit env capture_header g t in (g\<lparr>lg_header_written := True\<rparr>, t)
      else (g, t))"

definition tcp_frames :: "pcap_env \<Rightarrow> bool \<Rightarrow> tcp_details \<Rightarrow> (byte list \<times> byte list list \<times> tcp_details) result" where
  "tcp_frames env hook d =
     (case append_TCP env [] 0 TCPFLAG_SYN [] (new_frame hook) d of
        Inl e \<Rightarrow> Inl e
      | Inr (out, syn1, d) \<Rightarrow>
          (case append_TCP env [] 1 (TCPFLAG_SYN OR TCPFLAG_ACK) out (new_frame hook) d of
             Inl e \<Rightarrow> Inl e
           | Inr (out, syn_ack, d) \<Rightarrow>
               (case append_TCP env [] 0 TCPFLAG_ACK out (new_frame hook) d of
                  Inl e \<Rightarrow> Inl e
                | Inr (out, ack, d) \<Rightarrow> ok (out, epb_hooked syn1 @ epb_hooked syn_ack @ epb_hooked ack, d))))"

definition write_tcp_start ::
    "log_env \<Rightarrow> tcp_details \<Rightarrow> pcap_log \<Rightarrow> threaded_writer \<Rightarrow> (tcp_details \<times> pcap_log \<times> threaded_writer) result" where
  "write_tcp_start env d g t =
     (case tcp_frames (le_pcap env) (lg_hook g) d of
        Inl e \<Rightarrow> Inl e
      | Inr (out, hooked, d) \<Rightarrow>
          let (g, t) = emit env out (g\<lparr>lg_hooked := lg_hooked g @ hooked\<rparr>) t
          in if le_hook_only env then ok (d, g, t)
             else (case on_pool (pw_flush (fo_filename (lg_fs g))) t of Inl e \<Rightarrow> Inl e | Inr (_, t) \<Rightarrow> ok (d, g, t)))"

definition write_tcp_data ::
    "log_env \<Rightarrow> bool \<Rightarrow> byte list \<Rightarrow> tcp_details \<Rightarrow> pcap_log \<Rightarrow> threaded_writer \<Rightarrow>
     (tcp_details \<times> pcap_log \<times> threaded_writer) result" where
  "write_tcp_data env right bs d g t =
     (let (_, f, g) = comment_frame (new_frame (lg_hook g)) g
      in case append_TCP (le_pcap env) bs (if right then 1 else 0) TCPFLAG_ACK [] f d of
           Inl e \<Rightarrow> Inl e
         | Inr (out, f, d) \<Rightarrow>
             let g = g\<lparr>lg_hooked := lg_hooked g @ epb_hooked f\<rparr>
             in if out \<noteq> [] then let (g, t) = emit env out g t in ok (d, g, t) else ok (d, g, t))"

definition write_udp_data ::
    "log_env \<Rightarrow> bool \<Rightarrow> byte list \<Rightarrow> tcp_details \<Rightarrow> pcap_log \<Rightarrow> threaded_writer \<Rightarrow>
     (tcp_details \<times> pcap_log \<times> threaded_writer) result" where
  "write_udp_data env right bs d g t =
     (let (_, f, g) = comment_frame (new_frame (lg_hook g)) g
      in case append_UDP (le_pcap env) bs (if right then 1 else 0) [] f d of
           Inl e \<Rightarrow> Inl e
         | Inr (out, f, d) \<Rightarrow>
             let g = g\<lparr>lg_hooked := lg_hooked g @ epb_hooked f\<rparr>
             in if out \<noteq> [] then let (g, t) = emit env out g t in ok (d, g, t) else ok (d, g, t))"

text \<open>Rotation and the check that the file still exists. \<^verbatim>\<open>stat\<close> looks at the directory; whether the system
  lets files be removed, moved and created is in the environment.\<close>

definition map_files :: "(files \<Rightarrow> files) \<Rightarrow> threaded_writer \<Rightarrow> threaded_writer" where
  "map_files f t = t\<lparr>tw_pool := (tw_pool t)\<lparr>pw_files := f (pw_files (tw_pool t))\<rparr>\<rparr>"

definition old_name :: "fs_output \<Rightarrow> string" where
  "old_name o' = fo_data_dir o' @ ''/'' @ fo_prefix o' @ ''smithproxy.old.'' @ fo_suffix o'"

definition move_current :: "log_env \<Rightarrow> pcap_log \<Rightarrow> threaded_writer \<Rightarrow> (pcap_log \<times> threaded_writer) result" where
  "move_current env g t =
     (let name = fo_filename (lg_fs g)
      in case on_pool (pw_close name) t of
           Inl e \<Rightarrow> Inl e
         | Inr (_, t) \<Rightarrow>
             if le_rename_ok env \<and> fs_dir (pw_files (tw_pool t)) name \<noteq> None then
               let t = map_files (rename_file name (old_name (lg_fs g))) t;
                   (_, fs) = generate_filename_single ''smithproxy'' (le_date env) (le_time env) (lg_fs g)
               in ok (g\<lparr>lg_fs := fs, lg_bytes_written := 0\<rparr>, t)
             else ok (g, t))"

definition rotate_file :: "log_env \<Rightarrow> pcap_log \<Rightarrow> threaded_writer \<Rightarrow> (pcap_log \<times> threaded_writer) result" where
  "rotate_file env g t =
     (let g = (if 0 < lg_bytes_quota g \<and> lg_bytes_quota g \<le> 10000000 then g\<lparr>lg_bytes_quota := 10000000\<rparr> else g)
      in if 0 < lg_bytes_quota g \<and> lg_bytes_quota g \<le> lg_bytes_written g \<or> lg_rotate_now g then
           let g = g\<lparr>lg_rotate_now := False\<rparr>
           in if fs_dir (pw_files (tw_pool t)) (old_name (lg_fs g)) \<noteq> None then
                (if le_remove_ok env then move_current env g (map_files (unlink (old_name (lg_fs g))) t) else ok (g, t))
              else move_current env g t
         else ok (g, t))"

definition prepare_file :: "log_env \<Rightarrow> bool \<Rightarrow> pcap_log \<Rightarrow> threaded_writer \<Rightarrow> (bool \<times> pcap_log \<times> threaded_writer) result" where
  "prepare_file env single g t =
     (case (if single then rotate_file env g t else ok (g, t)) of
        Inl e \<Rightarrow> Inl e
      | Inr (g, t) \<Rightarrow>
          let name = fo_filename (lg_fs g)
          in case on_pool (pw_recreate name) t of
               Inl e \<Rightarrow> Inl e
             | Inr (r, t) \<Rightarrow> ok (r, g, if r \<and> le_creat_ok env then map_files (truncate_file name) t else t))"

text \<open>The logger of a connection and the one for all connections; a logger set to write to a single file
  uses the latter's file, counters and comments, and its own connection.\<close>

record log_world =
  lw_this :: pcap_log
  lw_single :: pcap_log
  lw_writer :: threaded_writer

definition self :: "log_world \<Rightarrow> pcap_log" where
  "self w = (if lg_single_only (lw_this w) then lw_single w else lw_this w)"

definition put_self :: "pcap_log \<times> threaded_writer \<Rightarrow> log_world \<Rightarrow> log_world" where
  "put_self gt w =
     (if lg_single_only (lw_this w) then w\<lparr>lw_single := fst gt, lw_writer := snd gt\<rparr>
      else w\<lparr>lw_this := fst gt, lw_writer := snd gt\<rparr>)"

definition put_details :: "tcp_details \<Rightarrow> log_world \<Rightarrow> log_world" where
  "put_details d w = w\<lparr>lw_this := (lw_this w)\<lparr>lg_details := d\<rparr>\<rparr>"

definition log_prologue :: "log_env \<Rightarrow> log_world \<Rightarrow> log_world result" where
  "log_prologue env w =
     (let w = put_self ((self w)\<lparr>lg_writer := True\<rparr>, lw_writer w) w
      in if le_hook_only env then ok w
         else
           case prepare_file env (lg_single_only (lw_this w)) (self w) (lw_writer w) of
             Inl e \<Rightarrow> Inl e
           | Inr (is_recreated, g, t) \<Rightarrow>
               let g = (if is_recreated then g\<lparr>lg_bytes_written := 0\<rparr> else g)
               in ok (put_self (write_pcap_header env is_recreated g t) w))"

definition log_tcp_start :: "log_env \<Rightarrow> log_world \<Rightarrow> log_world result" where
  "log_tcp_start env w =
     (if lg_tcp_start_written (lw_this w) then ok w
      else
        case write_tcp_start env (lg_details (lw_this w)) (self w) (lw_writer w) of
          Inl e \<Rightarrow> Inl e
        | Inr (d, g, t) \<Rightarrow>
            let w = put_details d (put_self (g, t) w) in ok (w\<lparr>lw_this := (lw_this w)\<lparr>lg_tcp_start_written := True\<rparr>\<rparr>))"

definition log_write :: "log_env \<Rightarrow> bool \<Rightarrow> byte list \<Rightarrow> log_world \<Rightarrow> log_world result" where
  "log_write env right bs w =
     (case log_prologue env w of
        Inl e \<Rightarrow> Inl e
      | Inr w \<Rightarrow>
          if next_proto (lg_details (lw_this w)) = proto_TCP then
            (case log_tcp_start env w of
               Inl e \<Rightarrow> Inl e
             | Inr w \<Rightarrow>
                 (case write_tcp_data env right bs (lg_details (lw_this w)) (self w) (lw_writer w) of
                    Inl e \<Rightarrow> Inl e
                  | Inr (d, gt) \<Rightarrow> ok (put_details d (put_self gt w))))
          else if next_proto (lg_details (lw_this w)) = proto_UDP then
            (case write_udp_data env right bs (lg_details (lw_this w)) (self w) (lw_writer w) of
               Inl e \<Rightarrow> Inl e
             | Inr (d, gt) \<Rightarrow> ok (put_details d (put_self gt w)))
          else ok w)"

definition log_comment :: "byte list \<Rightarrow> log_world \<Rightarrow> log_world" where
  "log_comment s w = w\<lparr>lw_this := (lw_this w)\<lparr>lg_comlog := lg_comlog (lw_this w) @ s\<rparr>\<rparr>"

text \<open>The end of a connection. Both frames are written from the first block.\<close>

definition closing_frames :: "log_env \<Rightarrow> log_world \<Rightarrow> log_world result" where
  "closing_frames env w =
     (if next_proto (lg_details (lw_this w)) = proto_TCP \<and> lg_tcp_start_written (lw_this w) then
        let g = self w;
            (_, f1, this) = comment_frame (new_frame (lg_hook g)) (lw_this w);
            w = w\<lparr>lw_this := this\<rparr>;
            fl = TCPFLAG_FIN OR TCPFLAG_ACK
        in case append_TCP (le_pcap env) [] 0 fl [] f1 (lg_details this) of
             Inl e \<Rightarrow> Inl e
           | Inr (out, f1, d) \<Rightarrow>
               (case append_TCP (le_pcap env) [] 1 fl out f1 d of
                  Inl e \<Rightarrow> Inl e
                | Inr (out, f1, d) \<Rightarrow>
                    let w = put_details d w; g = self w; g = g\<lparr>lg_hooked := lg_hooked g @ epb_hooked f1\<rparr>;
                        t = (if le_hook_only env then lw_writer w else snd (tw_write (fo_filename (lg_fs g)) out (lw_writer w)))
                    in ok (put_self (g, t) w))
      else ok w)"

definition log_destroy :: "log_env \<Rightarrow> log_world \<Rightarrow> log_world result" where
  "log_destroy env w =
     (if lg_writer (lw_this w) \<and> lg_parent (lw_this w) then
        case closing_frames env w of
          Inl e \<Rightarrow> (if e \<in> {Invalid_argument, Out_of_range} then ok w else Inl e)
        | Inr w \<Rightarrow>
            let name = fo_filename (lg_fs (lw_this w))
            in case on_pool (pw_flush name) (lw_writer w) of
                 Inl e \<Rightarrow> Inl e
               | Inr (_, t) \<Rightarrow>
                   (case on_pool (pw_close name) t of Inl e \<Rightarrow> Inl e | Inr (_, t) \<Rightarrow> ok (w\<lparr>lw_writer := t\<rparr>))
      else ok w)"

section \<open>A capture of one connection\<close>

definition frame_of :: "pcap_env \<Rightarrow> bool \<Rightarrow> byte list \<Rightarrow> bool \<Rightarrow> byte list \<Rightarrow> tcp_details \<Rightarrow> (byte list \<times> tcp_details) result" where
  "frame_of env hook comment right bs d =
     (let f = (if comment \<noteq> [] then epb_comment (new_frame hook) comment else new_frame hook)
      in case append_TCP env bs (if right then 1 else 0) TCPFLAG_ACK [] f d of Inl e \<Rightarrow> Inl e | Inr (out, _, d) \<Rightarrow> ok (out, d))"

fun capture :: "pcap_env \<Rightarrow> bool \<Rightarrow> byte list \<Rightarrow> (bool \<times> byte list) list \<Rightarrow> tcp_details \<Rightarrow> (byte list \<times> tcp_details) result" where
  "capture env hook comment [] d = ok ([], d)"
| "capture env hook comment ((right, bs) # ms) d =
     (case frame_of env hook comment right bs d of
        Inl e \<Rightarrow> Inl e
      | Inr (out, d) \<Rightarrow> (case capture env hook [] ms d of Inl e \<Rightarrow> Inl e | Inr (out', d) \<Rightarrow> ok (out @ out', d)))"

fun log_all :: "log_env \<Rightarrow> (bool \<times> byte list) list \<Rightarrow> log_world \<Rightarrow> log_world result" where
  "log_all env [] w = ok w"
| "log_all env ((right, bs) # ms) w = (case log_write env right bs w of Inl e \<Rightarrow> Inl e | Inr w \<Rightarrow> log_all env ms w)"

lemma append_TCP_loop_ok:
  "plain_tcp d \<Longrightarrow> dir \<le> 1 \<Longrightarrow> \<exists>out' b' d'. append_TCP_loop env dir fl tw rest out b d = ok (out', b', d') \<and> plain_tcp d'"
proof (induction "length rest" arbitrary: tw rest out b d rule: less_induct)
  case less
  obtain h i j where h: "append_IP_header env dir (length (take tw rest)) (append_LCC_header d dir []) d =
      ok (append_LCC_header d dir [] @ h, d\<lparr>ip_id_in := i, ip_id_out := j\<rparr>)"
    using append_IP_plain [OF less.prems] by blast
  have "plain_tcp (d\<lparr>ip_id_in := i, ip_id_out := j\<rparr>)" using less.prems(1) by simp
  then obtain t d1 where t: "append_TCP_header env dir (take tw rest) fl (append_LCC_header d dir [] @ h)
      (d\<lparr>ip_id_in := i, ip_id_out := j\<rparr>) = ((append_LCC_header d dir [] @ h) @ t, d1)" "plain_tcp d1"
    using append_TCP_header_plain by blast
  have p: "epb_TCP_packet env (take tw rest) dir fl d = ok ((append_LCC_header d dir [] @ h @ t) @ take tw rest, d1)"
    unfolding epb_TCP_packet_def using h t(1) by simp
  obtain n o1 b1 where e: "epb_append env (with_packet ((append_LCC_header d dir [] @ h @ t) @ take tw rest) b) out = (n, o1, b1)"
    by (metis prod_cases3)
  show ?case
  proof (cases "drop tw rest = [] \<or> tw = 0")
    case True
    then show ?thesis by (subst append_TCP_loop.simps) (use p e t(2) in simp)
  next
    case False
    then have "length (drop tw rest) < length rest" by (cases rest) auto
    from less.hyps [OF this t(2) less.prems(2)]
    show ?thesis by (subst append_TCP_loop.simps) (use p e False in \<open>simp add: Let_def\<close>)
  qed
qed

lemma append_TCP_ok:
  "plain_tcp d \<Longrightarrow> dir \<le> 1 \<Longrightarrow> \<exists>out' b' d'. append_TCP env bs dir fl out b d = ok (out', b', d') \<and> plain_tcp d'"
  unfolding append_TCP_def Let_def by (rule append_TCP_loop_ok)

lemma tcp_frames_ok: "plain_tcp d \<Longrightarrow> \<exists>hs hooked d'. tcp_frames env hook d = ok (hs, hooked, d') \<and> plain_tcp d'"
proof -
  assume d: "plain_tcp d"
  obtain o1 b1 d1 where 1: "append_TCP env [] 0 TCPFLAG_SYN [] (new_frame hook) d = ok (o1, b1, d1)" "plain_tcp d1"
    using append_TCP_ok [of d 0] d by force
  obtain o2 b2 d2 where 2: "append_TCP env [] 1 (TCPFLAG_SYN OR TCPFLAG_ACK) o1 (new_frame hook) d1 = ok (o2, b2, d2)" "plain_tcp d2"
    using append_TCP_ok [of d1 1] 1(2) by force
  obtain o3 b3 d3 where 3: "append_TCP env [] 0 TCPFLAG_ACK o2 (new_frame hook) d2 = ok (o3, b3, d3)" "plain_tcp d3"
    using append_TCP_ok [of d2 0] 2(2) by force
  show ?thesis using 1 2 3 by (simp add: tcp_frames_def)
qed

lemma frame_of_ok: "plain_tcp d \<Longrightarrow> \<exists>out d'. frame_of env hook c right bs d = ok (out, d') \<and> plain_tcp d'"
proof -
  assume d: "plain_tcp d"
  let ?f = "if c \<noteq> [] then epb_comment (new_frame hook) c else new_frame hook"
  obtain o1 b1 d1 where "append_TCP env bs (if right then 1 else 0) TCPFLAG_ACK [] ?f d = ok (o1, b1, d1)" "plain_tcp d1"
    using append_TCP_ok [OF d, of "if right then 1 else 0" "env" bs TCPFLAG_ACK "[]" "?f"] by (cases right) auto
  then show ?thesis by (simp add: frame_of_def Let_def)
qed

lemma plain_is_tcp: "plain_tcp d \<Longrightarrow> next_proto d = proto_TCP"
  by (simp add: plain_tcp_def)

text \<open>What the writer's operations leave of the directory.\<close>

lemma get_ofstream_dir:
  "get_ofstream openable n c w = ok (r, w') \<Longrightarrow> (\<forall>m. m \<noteq> n \<longrightarrow> fs_dir (pw_files w') m = fs_dir (pw_files w) m) \<and>
     (\<forall>m i. fs_dir (pw_files w) m = Some i \<longrightarrow> fs_dir (pw_files w') m = Some i)"
  by (auto simp: get_ofstream_def open_append_def create_file_def split: sum.splits option.splits prod.splits if_splits)

lemma pw_write_dir:
  assumes "pw_write openable n bs w = ok (k, w')"
  shows "(\<forall>m. m \<noteq> n \<longrightarrow> fs_dir (pw_files w') m = fs_dir (pw_files w) m) \<and>
     (\<forall>m i. fs_dir (pw_files w) m = Some i \<longrightarrow> fs_dir (pw_files w') m = Some i)"
proof -
  obtain r w1 where g: "get_ofstream openable n True w = ok (r, w1)"
    using assms by (auto simp: pw_write_def split: sum.splits option.splits)
  have "fs_dir (pw_files w') = fs_dir (pw_files w1)"
    using assms g by (auto simp: pw_write_def stream_put_def append_file_def split: option.splits if_splits)
  then show ?thesis using get_ofstream_dir [OF g] by simp
qed

lemma pw_flush_dir: "pw_flush n w = ok (b, w') \<Longrightarrow> pw_files w' = pw_files w"
  by (auto simp: pw_flush_def get_ofstream_def split: sum.splits option.splits)

lemma pw_close_dir: "pw_close n w = ok (b, w') \<Longrightarrow> pw_files w' = pw_files w"
  by (auto simp: pw_close_def get_ofstream_def split: sum.splits option.splits)

definition named :: "threaded_writer \<Rightarrow> string \<Rightarrow> bool" where
  "named t n \<longleftrightarrow> fs_dir (pw_files (tw_pool t)) n \<noteq> None"

definition untouched :: "threaded_writer \<Rightarrow> string \<Rightarrow> bool" where
  "untouched t n \<longleftrightarrow> \<not> named t n \<and> n \<notin> fst ` set (tw_queue t)"

lemma worker_dir:
  assumes "tw_worker openable t = ok (b, t')"
  shows "(named t n \<longrightarrow> named t' n) \<and> (untouched t n \<longrightarrow> untouched t' n)"
proof (cases "tw_queue t")
  case Nil
  then show ?thesis using assms by (auto simp: tw_worker_def)
next
  case (Cons e rest)
  then obtain k w where w: "pw_write openable (fst e) (snd e) (tw_pool t) = ok (k, w)" "t' = \<lparr>tw_queue = rest, tw_pool = w\<rparr>"
    using assms by (auto simp: tw_worker_def split: sum.splits prod.splits)
  then show ?thesis using pw_write_dir [OF w(1)] Cons by (fastforce simp: named_def untouched_def)
qed

lemma tw_do_dir:
  assumes "tw_do openable x t = ok t'" and "\<And>bs. x \<noteq> Log n bs"
  shows "(named t n \<longrightarrow> named t' n) \<and> (untouched t n \<longrightarrow> untouched t' n)"
proof (cases x)
  case (Log m bs)
  then have "m \<noteq> n" using assms(2) by blast
  then show ?thesis using assms(1) Log by (force simp: tw_write_def named_def untouched_def)
next
  case Turn
  then show ?thesis using assms(1) worker_dir by (auto split: sum.splits)
next
  case (Flush m)
  then show ?thesis using assms(1) by (auto simp: on_pool_def named_def untouched_def dest!: pw_flush_dir split: sum.splits)
next
  case (Close m)
  then show ?thesis using assms(1) by (auto simp: on_pool_def named_def untouched_def dest!: pw_close_dir split: sum.splits)
qed

lemma untouched_eventual: "untouched t n \<Longrightarrow> eventual t n = []"
  by (force simp: untouched_def named_def eventual_def content_def filter_empty_conv split: option.splits)

lemma truncate_new:
  assumes "pool_ok w" and "fs_dir (pw_files w) n = None" and "lookup (pw_pool w) n = None"
  shows "pool_ok (w\<lparr>pw_files := truncate_file n (pw_files w)\<rparr>) \<and>
    content (truncate_file n (pw_files w)) = content (pw_files w) \<and> fs_dir (truncate_file n (pw_files w)) n \<noteq> None"
proof -
  obtain i g where g: "open_append n (pw_files w) = (i, g)" "g = truncate_file n (pw_files w)"
    using assms(2) by (simp add: open_append_def truncate_file_def)
  then show ?thesis
    using open_append_ok [OF _ g(1)] assms by (fastforce simp: pool_ok_def)
qed

lemma tw_write_eventual:
  "eventual (snd (tw_write n bs t)) = (eventual t)(n := eventual t n @ bs)" "tw_pool (snd (tw_write n bs t)) = tw_pool t"
  by (auto simp: tw_write_def eventual_def fun_eq_iff)

lemma named_write [simp]: "named (snd (tw_write n bs t)) m = named t m"
  by (simp add: named_def tw_write_def)

lemma prepare_ok:
  assumes "pool_ok (tw_pool t)" and "le_creat_ok env" and "fo_filename (lg_fs g) = n"
  shows "\<exists>t'. prepare_file env False g t = ok (\<not> named t n, g, t') \<and> pool_ok (tw_pool t') \<and> eventual t' = eventual t \<and> named t' n"
proof (cases "named t n")
  case True
  then show ?thesis using assms by (auto simp: prepare_file_def on_pool_def pw_recreate_def named_def)
next
  case False
  obtain b w where w: "pw_close n (tw_pool t) = ok (b, w)" "pool_ok w" "pw_files w = pw_files (tw_pool t)" "lookup (pw_pool w) n = None"
    using pw_close_ok [OF assms(1)] by blast
  have n: "fs_dir (pw_files w) n = None" using False w(3) by (simp add: named_def)
  show ?thesis
    using assms(2,3) w n truncate_new [OF w(2) n w(4)]
    by (auto simp: prepare_file_def on_pool_def pw_recreate_def named_def map_files_def eventual_def)
qed

definition logging :: "log_env \<Rightarrow> string \<Rightarrow> bool \<Rightarrow> tcp_details \<Rightarrow> byte list \<Rightarrow> bool \<Rightarrow> log_world \<Rightarrow> bool" where
  "logging env n hook d c started w \<longleftrightarrow>
     \<not> le_hook_only env \<and> le_creat_ok env \<and> pool_ok (tw_pool (lw_writer w)) \<and> plain_tcp d \<and>
     (let g = lw_this w
      in \<not> lg_single_only g \<and> fo_filename (lg_fs g) = n \<and> lg_hook g = hook \<and> lg_details g = d \<and> lg_comlog g = c \<and>
        lg_header_written g = started \<and> lg_tcp_start_written g = started)"

definition capturing :: "log_env \<Rightarrow> string \<Rightarrow> bool \<Rightarrow> tcp_details \<Rightarrow> byte list \<Rightarrow> bool \<Rightarrow> log_world \<Rightarrow> bool" where
  "capturing env n hook d c started w \<longleftrightarrow> logging env n hook d c started w \<and>
     (if started then named (lw_writer w) n else untouched (lw_writer w) n)"

lemma emit_write:
  "\<not> le_hook_only env \<Longrightarrow> emit env out g t =
     (g\<lparr>lg_bytes_written := lg_bytes_written g + int (length out)\<rparr>, snd (tw_write (fo_filename (lg_fs g)) out t))"
  by (simp add: emit_def tw_write_def)

lemma prologue_ok:
  assumes "logging env n hook d c s w"
  shows "\<exists>w1 k. log_prologue env w = ok w1 \<and> pool_ok (tw_pool (lw_writer w1)) \<and> named (lw_writer w1) n \<and>
    lw_this w1 = (lw_this w)\<lparr>lg_writer := True, lg_bytes_written := k, lg_header_written := True\<rparr> \<and>
    eventual (lw_writer w1) n = eventual (lw_writer w) n @ (if s \<and> named (lw_writer w) n then [] else capture_header)"
proof -
  define g where "g = (lw_this w)\<lparr>lg_writer := True\<rparr>"
  have c: "\<not> le_hook_only env" "le_creat_ok env" "pool_ok (tw_pool (lw_writer w))" "\<not> lg_single_only (lw_this w)"
      "fo_filename (lg_fs g) = n" "lg_header_written g = s"
    using assms by (auto simp: logging_def Let_def g_def)
  obtain t where t: "prepare_file env False g (lw_writer w) = ok (\<not> named (lw_writer w) n, g, t)" "pool_ok (tw_pool t)"
      "eventual t = eventual (lw_writer w)" "named t n"
    using prepare_ok [OF c(3,2,5)] by blast
  have p: "log_prologue env w = ok (put_self (write_pcap_header env (\<not> named (lw_writer w) n)
      (if \<not> named (lw_writer w) n then g\<lparr>lg_bytes_written := 0\<rparr> else g) t) w)"
    using c(1,4) t(1) by (simp add: log_prologue_def put_self_def self_def g_def Let_def)
  have g2: "fo_filename (lg_fs (g\<lparr>lg_bytes_written := 0\<rparr>)) = n" "lg_header_written (g\<lparr>lg_bytes_written := 0\<rparr>) = s"
    using c(5,6) by simp_all
  show ?thesis
  proof (cases "s \<and> named (lw_writer w) n")
    case True
    have "lg_header_written (lw_this w)" using c(6) True by (simp add: g_def)
    then have "g = (lw_this w)\<lparr>lg_writer := True, lg_bytes_written := lg_bytes_written g, lg_header_written := True\<rparr>"
      by (simp add: g_def)
    then show ?thesis using p t c(4,6) True by (auto simp: write_pcap_header_def put_self_def)
  next
    case False
    then show ?thesis
      using p t c tw_write_eventual [of n capture_header t]
      by (auto simp: write_pcap_header_def put_self_def emit_write g_def Let_def)
  qed
qed

lemma data_ok:
  assumes "frame_of (le_pcap env) (lg_hook g) (lg_comlog g) right bs d = ok (out, d')" and "\<not> le_hook_only env"
  shows "\<exists>k hk t'. write_tcp_data env right bs d g t =
      ok (d', g\<lparr>lg_comlog := [], lg_hooked := hk, lg_bytes_written := k\<rparr>, t') \<and>
    tw_pool t' = tw_pool t \<and> eventual t' (fo_filename (lg_fs g)) = eventual t (fo_filename (lg_fs g)) @ out"
proof -
  let ?f = "if lg_comlog g \<noteq> [] then epb_comment (new_frame (lg_hook g)) (lg_comlog g) else new_frame (lg_hook g)"
  obtain f where f: "append_TCP (le_pcap env) bs (if right then 1 else 0) TCPFLAG_ACK [] ?f d = ok (out, f, d')"
    using assms(1) by (auto simp: frame_of_def Let_def split: sum.splits)
  have c: "comment_frame (new_frame (lg_hook g)) g = (lg_comlog g \<noteq> [], ?f, g\<lparr>lg_comlog := []\<rparr>)"
    by (simp add: comment_frame_def)
  have e: "write_tcp_data env right bs d g t =
      (let g = g\<lparr>lg_comlog := [], lg_hooked := lg_hooked g @ epb_hooked f\<rparr>
       in if out \<noteq> [] then let (g, t) = emit env out g t in ok (d', g, t) else ok (d', g, t))"
    unfolding write_tcp_data_def c using f by (simp add: Let_def)
  show ?thesis
  proof (cases "out = []")
    case True
    then show ?thesis unfolding e by (simp add: Let_def) (metis pcap_log.surjective pcap_log.update_convs(10))
  next
    case False
    then show ?thesis unfolding e using tw_write_eventual [of "fo_filename (lg_fs g)" out t]
      by (auto simp: Let_def emit_write [OF assms(2)])
  qed
qed

lemma start_ok:
  assumes "tcp_frames (le_pcap env) (lg_hook (lw_this w)) (lg_details (lw_this w)) = ok (hs, hk, d')" and "\<not> le_hook_only env"
    and "\<not> lg_single_only (lw_this w)" and "\<not> lg_tcp_start_written (lw_this w)" and "pool_ok (tw_pool (lw_writer w))"
    and "fo_filename (lg_fs (lw_this w)) = n"
  shows "\<exists>w1 k hk'. log_tcp_start env w = ok w1 \<and> pool_ok (tw_pool (lw_writer w1)) \<and>
    (named (lw_writer w) n \<longrightarrow> named (lw_writer w1) n) \<and>
    lw_this w1 = (lw_this w)\<lparr>lg_hooked := hk', lg_bytes_written := k, lg_details := d', lg_tcp_start_written := True\<rparr> \<and>
    eventual (lw_writer w1) n = eventual (lw_writer w) n @ hs"
proof -
  define t where "t = snd (tw_write n hs (lw_writer w))"
  have t: "tw_pool t = tw_pool (lw_writer w)" "eventual t n = eventual (lw_writer w) n @ hs"
    using tw_write_eventual [of n hs "lw_writer w"] by (simp_all add: t_def)
  obtain b where fl: "pw_flush n (tw_pool t) = ok (b, tw_pool t)" using pw_flush_ok assms(5) t(1) by metis
  have tt: "t\<lparr>tw_pool := tw_pool t\<rparr> = t" by simp
  have "write_tcp_start env (lg_details (lw_this w)) (lw_this w) (lw_writer w) =
      ok (d', (lw_this w)\<lparr>lg_hooked := lg_hooked (lw_this w) @ hk, lg_bytes_written := lg_bytes_written (lw_this w) + int (length hs)\<rparr>, t)"
    using assms(1,2,6) fl by (simp add: write_tcp_start_def emit_write on_pool_def t_def [symmetric] Let_def tt)
  then show ?thesis
    using assms(3,4,5) t
    by (auto simp: log_tcp_start_def self_def put_self_def put_details_def Let_def named_def)
qed

lemma write_logging:
  assumes "logging env n hook d c s w"
  shows "\<exists>w' hs hk d1 out d2. log_write env right bs w = ok w' \<and>
    (if s then hs = [] \<and> d1 = d else tcp_frames (le_pcap env) hook d = ok (hs, hk, d1)) \<and>
    frame_of (le_pcap env) hook c right bs d1 = ok (out, d2) \<and> capturing env n hook d2 [] True w' \<and>
    eventual (lw_writer w') n = eventual (lw_writer w) n @ (if s \<and> named (lw_writer w) n then [] else capture_header) @ hs @ out"
proof -
  have C: "\<not> le_hook_only env" "le_creat_ok env" "plain_tcp d" "\<not> lg_single_only (lw_this w)" "fo_filename (lg_fs (lw_this w)) = n"
      "lg_hook (lw_this w) = hook" "lg_details (lw_this w) = d" "lg_comlog (lw_this w) = c" "lg_tcp_start_written (lw_this w) = s"
    using assms by (simp_all add: logging_def Let_def)
  obtain w1 k where w1: "log_prologue env w = ok w1" "pool_ok (tw_pool (lw_writer w1))" "named (lw_writer w1) n"
      "lw_this w1 = (lw_this w)\<lparr>lg_writer := True, lg_bytes_written := k, lg_header_written := True\<rparr>"
      "eventual (lw_writer w1) n = eventual (lw_writer w) n @ (if s \<and> named (lw_writer w) n then [] else capture_header)"
    using prologue_ok [OF assms] by blast
  have "\<exists>w2 hs hk d1. log_tcp_start env w1 = ok w2 \<and> (if s then hs = [] \<and> d1 = d else tcp_frames (le_pcap env) hook d = ok (hs, hk, d1)) \<and>
      plain_tcp d1 \<and> pool_ok (tw_pool (lw_writer w2)) \<and> named (lw_writer w2) n \<and>
      eventual (lw_writer w2) n = eventual (lw_writer w1) n @ hs \<and> \<not> lg_single_only (lw_this w2) \<and>
      fo_filename (lg_fs (lw_this w2)) = n \<and> lg_hook (lw_this w2) = hook \<and> lg_details (lw_this w2) = d1 \<and>
      lg_comlog (lw_this w2) = c \<and> lg_header_written (lw_this w2) \<and> lg_tcp_start_written (lw_this w2)"
  proof (cases s)
    case True
    then show ?thesis using w1 C by (auto simp: log_tcp_start_def)
  next
    case False
    obtain hs hk d1 where h: "tcp_frames (le_pcap env) hook d = ok (hs, hk, d1)" "plain_tcp d1" using tcp_frames_ok [OF C(3)] by blast
    have "tcp_frames (le_pcap env) (lg_hook (lw_this w1)) (lg_details (lw_this w1)) = ok (hs, hk, d1)" using h w1(4) C by simp
    from start_ok [OF this C(1) _ _ w1(2)] obtain w2 k' hk' where "log_tcp_start env w1 = ok w2" "pool_ok (tw_pool (lw_writer w2))"
        "named (lw_writer w1) n \<longrightarrow> named (lw_writer w2) n"
        "lw_this w2 = (lw_this w1)\<lparr>lg_hooked := hk', lg_bytes_written := k', lg_details := d1, lg_tcp_start_written := True\<rparr>"
        "eventual (lw_writer w2) n = eventual (lw_writer w1) n @ hs"
      using w1(4) C False by auto
    then show ?thesis using h w1 C False by (intro exI [of _ w2] exI [of _ hs] exI [of _ hk] exI [of _ d1]) simp
  qed
  then obtain w2 hs hk d1 where w2: "log_tcp_start env w1 = ok w2"
      "if s then hs = [] \<and> d1 = d else tcp_frames (le_pcap env) hook d = ok (hs, hk, d1)" "plain_tcp d1"
      "pool_ok (tw_pool (lw_writer w2))" "named (lw_writer w2) n" "eventual (lw_writer w2) n = eventual (lw_writer w1) n @ hs"
      "\<not> lg_single_only (lw_this w2)" "fo_filename (lg_fs (lw_this w2)) = n" "lg_hook (lw_this w2) = hook"
      "lg_details (lw_this w2) = d1" "lg_comlog (lw_this w2) = c" "lg_header_written (lw_this w2)" "lg_tcp_start_written (lw_this w2)"
    by blast
  obtain out d2 where f: "frame_of (le_pcap env) hook c right bs d1 = ok (out, d2)" "plain_tcp d2" using frame_of_ok [OF w2(3)] by blast
  have "frame_of (le_pcap env) (lg_hook (lw_this w2)) (lg_comlog (lw_this w2)) right bs d1 = ok (out, d2)" using f(1) w2(9,11) by simp
  from data_ok [OF this C(1), of "lw_writer w2"] obtain k2 hk2 t where
    t: "write_tcp_data env right bs d1 (lw_this w2) (lw_writer w2) =
        ok (d2, (lw_this w2)\<lparr>lg_comlog := [], lg_hooked := hk2, lg_bytes_written := k2\<rparr>, t)" "tw_pool t = tw_pool (lw_writer w2)"
      "eventual t n = eventual (lw_writer w2) n @ out"
    using w2(8) by blast
  have p: "next_proto (lg_details (lw_this w1)) = proto_TCP" using w1(4) C(3,7) plain_is_tcp by simp
  define w3 where "w3 = put_details d2 (put_self ((lw_this w2)\<lparr>lg_comlog := [], lg_hooked := hk2, lg_bytes_written := k2\<rparr>, t) w2)"
  have "log_write env right bs w = ok w3"
    unfolding log_write_def w1(1) using p w2(1,7,10) t(1) by (simp add: self_def w3_def)
  moreover have "capturing env n hook d2 [] True w3"
    using C(1,2) f(2) w2 t(2) by (simp add: capturing_def logging_def w3_def put_details_def put_self_def Let_def named_def)
  moreover have "eventual (lw_writer w3) n = eventual (lw_writer w) n @ (if s \<and> named (lw_writer w) n then [] else capture_header) @ hs @ out"
    using w2(6,7) t(3) w1(5) by (simp add: w3_def put_details_def put_self_def)
  ultimately show ?thesis using w2(2) f(1) by blast
qed

lemma write_capturing:
  assumes "capturing env n hook d c s w"
  shows "\<exists>w' hs hk d1 out d2. log_write env right bs w = ok w' \<and>
    (if s then hs = [] \<and> d1 = d else tcp_frames (le_pcap env) hook d = ok (hs, hk, d1)) \<and>
    frame_of (le_pcap env) hook c right bs d1 = ok (out, d2) \<and> capturing env n hook d2 [] True w' \<and>
    eventual (lw_writer w') n = eventual (lw_writer w) n @ (if s then [] else capture_header) @ hs @ out"
proof -
  have "logging env n hook d c s w" "s = (s \<and> named (lw_writer w) n)" using assms by (auto simp: capturing_def)
  then show ?thesis using write_logging [of env n hook d c s w right bs] by presburger
qed

datatype log_event = Data bool "byte list" | Background tw_op

fun log_events :: "log_env \<Rightarrow> (string \<Rightarrow> bool) \<Rightarrow> log_event list \<Rightarrow> log_world \<Rightarrow> log_world result" where
  "log_events env openable [] w = ok w"
| "log_events env openable (Data right bs # es) w =
     (case log_write env right bs w of Inl e \<Rightarrow> Inl e | Inr w \<Rightarrow> log_events env openable es w)"
| "log_events env openable (Background x # es) w =
     (case tw_do openable x (lw_writer w) of Inl e \<Rightarrow> Inl e | Inr t \<Rightarrow> log_events env openable es (w\<lparr>lw_writer := t\<rparr>))"

fun log_data :: "log_event list \<Rightarrow> (bool \<times> byte list) list" where
  "log_data [] = []"
| "log_data (Data right bs # es) = (right, bs) # log_data es"
| "log_data (Background x # es) = log_data es"

definition full_capture ::
    "pcap_env \<Rightarrow> bool \<Rightarrow> byte list \<Rightarrow> (bool \<times> byte list) list \<Rightarrow> tcp_details \<Rightarrow> byte list result" where
  "full_capture env hook c ms d =
     (if ms = [] then ok []
      else case tcp_frames env hook d of
             Inl e \<Rightarrow> Inl e
           | Inr (hs, _, d) \<Rightarrow> (case capture env hook c ms d of Inl e \<Rightarrow> Inl e | Inr (out, _) \<Rightarrow> ok (capture_header @ hs @ out)))"

lemma background_ok:
  assumes "capturing env n hook d c s w" and "\<forall>m. openable m" and "\<And>bs. x \<noteq> Log n bs"
  shows "\<exists>t. tw_do openable x (lw_writer w) = ok t \<and> capturing env n hook d c s (w\<lparr>lw_writer := t\<rparr>) \<and>
    eventual t n = eventual (lw_writer w) n"
proof -
  obtain t where t: "tw_do openable x (lw_writer w) = ok t" "pool_ok (tw_pool t)"
      "eventual t = (\<lambda>m. eventual (lw_writer w) m @ op_log x m)"
    using tw_do_ok [of "lw_writer w" openable x] assms(1,2) by (auto simp: capturing_def logging_def)
  have "op_log x n = []" using assms(3) by (cases x) auto
  then show ?thesis using t tw_do_dir [OF t(1) assms(3)] assms(1) by (auto simp: capturing_def logging_def Let_def split: if_splits)
qed

lemma started_events:
  "capturing env n hook d c True w \<Longrightarrow> \<forall>m. openable m \<Longrightarrow> \<forall>bs. Background (Log n bs) \<notin> set es \<Longrightarrow>
   \<exists>w' out d'. log_events env openable es w = ok w' \<and> capture (le_pcap env) hook c (log_data es) d = ok (out, d') \<and>
     pool_ok (tw_pool (lw_writer w')) \<and> eventual (lw_writer w') n = eventual (lw_writer w) n @ out"
proof (induction es arbitrary: w d c)
  case Nil
  then show ?case by (simp add: capturing_def logging_def)
next
  case (Cons e es)
  have es: "\<forall>bs. Background (Log n bs) \<notin> set es" using Cons.prems(3) by simp
  show ?case
  proof (cases e)
    case (Data right bs)
    obtain w1 out d1 where w1: "log_write env right bs w = ok w1" "frame_of (le_pcap env) hook c right bs d = ok (out, d1)"
        "capturing env n hook d1 [] True w1" "eventual (lw_writer w1) n = eventual (lw_writer w) n @ out"
      using write_capturing [OF Cons.prems(1), of right bs] by auto
    from Cons.IH [OF w1(3) Cons.prems(2) es] show ?thesis using w1 Data by auto
  next
    case (Background x)
    have x: "\<And>bs. x \<noteq> Log n bs" using Cons.prems(3) Background by auto
    obtain t where t: "tw_do openable x (lw_writer w) = ok t" "capturing env n hook d c True (w\<lparr>lw_writer := t\<rparr>)"
        "eventual t n = eventual (lw_writer w) n"
      using background_ok [OF Cons.prems(1,2) x] by blast
    from Cons.IH [OF t(2) Cons.prems(2) es] show ?thesis using t Background by auto
  qed
qed

lemma fresh_events:
  "capturing env n hook d c False w \<Longrightarrow> \<forall>m. openable m \<Longrightarrow> \<forall>bs. Background (Log n bs) \<notin> set es \<Longrightarrow>
   \<exists>w' out. log_events env openable es w = ok w' \<and> full_capture (le_pcap env) hook c (log_data es) d = ok out \<and>
     pool_ok (tw_pool (lw_writer w')) \<and> eventual (lw_writer w') n = out"
proof (induction es arbitrary: w)
  case Nil
  then show ?case by (auto simp: capturing_def logging_def full_capture_def untouched_eventual)
next
  case (Cons e es)
  have es: "\<forall>bs. Background (Log n bs) \<notin> set es" using Cons.prems(3) by simp
  show ?case
  proof (cases e)
    case (Data right bs)
    obtain w1 hs hk d0 out d1 where w1: "log_write env right bs w = ok w1" "tcp_frames (le_pcap env) hook d = ok (hs, hk, d0)"
        "frame_of (le_pcap env) hook c right bs d0 = ok (out, d1)" "capturing env n hook d1 [] True w1"
        "eventual (lw_writer w1) n = eventual (lw_writer w) n @ capture_header @ hs @ out"
      using write_capturing [OF Cons.prems(1), of right bs] by auto
    have "eventual (lw_writer w) n = []" using Cons.prems(1) by (simp add: capturing_def untouched_eventual)
    with started_events [OF w1(4) Cons.prems(2) es] show ?thesis using w1 Data by (auto simp: full_capture_def)
  next
    case (Background x)
    have x: "\<And>bs. x \<noteq> Log n bs" using Cons.prems(3) Background by auto
    obtain t where t: "tw_do openable x (lw_writer w) = ok t" "capturing env n hook d c False (w\<lparr>lw_writer := t\<rparr>)"
        "eventual t n = eventual (lw_writer w) n"
      using background_ok [OF Cons.prems(1,2) x] by blast
    from Cons.IH [OF t(2) Cons.prems(2) es] show ?thesis using t Background by auto
  qed
qed

text \<open>C12: The capture of a TCP connection is complete: whatever is logged in both directions, with
  the worker and other loggers going on in between, the file ends up with the header of the format,
  the opening packets and the data packets of every write in order, and nothing else.\<close>

theorem capture_is_complete:
  assumes "capturing env n hook d c False w" and "\<forall>m. openable m" and "\<forall>bs. Background (Log n bs) \<notin> set es"
  shows "\<exists>w' out. log_events env openable es w = ok w' \<and> full_capture (le_pcap env) hook c (log_data es) d = ok out \<and>
    (\<forall>k. length (tw_queue (lw_writer w')) \<le> k \<longrightarrow>
      (\<exists>t. tw_run openable (replicate k Turn) (lw_writer w') = ok t \<and> content (pw_files (tw_pool t)) n = out))"
proof -
  obtain w' out where w': "log_events env openable es w = ok w'" "full_capture (le_pcap env) hook c (log_data es) d = ok out"
      "pool_ok (tw_pool (lw_writer w'))" "eventual (lw_writer w') n = out"
    using fresh_events [OF assms] by blast
  have "\<exists>t. tw_run openable (replicate k Turn) (lw_writer w') = ok t \<and> content (pw_files (tw_pool t)) n = out"
    if "length (tw_queue (lw_writer w')) \<le> k" for k
    using drain_ok [OF w'(3) assms(2) that] w'(4) by auto
  with w' show ?thesis by blast
qed

section \<open>What goes wrong\<close>

text \<open>If the file of a capture is removed, the new one starts with what was queued for the old
  one; the header of the format comes after it.\<close>

theorem removed_file_loses_its_start:
  assumes "logging env n hook d c True w" and "\<not> named (lw_writer w) n"
  shows "\<exists>w' out d'. log_write env right bs w = ok w' \<and> frame_of (le_pcap env) hook c right bs d = ok (out, d') \<and>
    eventual (lw_writer w') n = concat (map snd (filter (\<lambda>e. fst e = n) (tw_queue (lw_writer w)))) @ capture_header @ out"
proof -
  have "eventual (lw_writer w) n = concat (map snd (filter (\<lambda>e. fst e = n) (tw_queue (lw_writer w))))"
    using assms(2) by (auto simp: eventual_def content_def named_def)
  with write_logging [OF assms(1), of right bs] assms(2) show ?thesis by auto
qed

lemma drain_last:
  "pool_ok (tw_pool t) \<Longrightarrow> \<forall>m. openable m \<Longrightarrow> tw_queue t = q @ [(n, bs)] \<Longrightarrow>
   \<exists>t'. tw_run openable (replicate (length q + 1) Turn) t = ok t' \<and> tw_queue t' = [] \<and> lookup (pw_pool (tw_pool t')) n \<noteq> None"
proof (induction q arbitrary: t)
  case Nil
  obtain k w where "pw_write openable n bs (tw_pool t) = ok (k, w)" "lookup (pw_pool w) n \<noteq> None"
    using pw_write_ok [OF Nil.prems(1), of openable n bs] Nil.prems(2) by blast
  then show ?case using Nil.prems(3) by (simp add: tw_worker_def)
next
  case (Cons e q)
  obtain b u where u: "tw_worker openable t = ok (b, u)" "pool_ok (tw_pool u)" "tw_queue u = tl (tw_queue t)"
    using worker_ok [OF Cons.prems(1,2)] by blast
  have "tw_queue u = q @ [(n, bs)]" using u(3) Cons.prems(3) by simp
  from Cons.IH [OF u(2) Cons.prems(2) this] show ?case using u(1) by simp
qed

text \<open>Ending a capture queues its closing packets and closes the stream at once: the worker
  opens the stream again for them, and it stays in the pool.\<close>

theorem ended_capture_keeps_its_stream:
  assumes "capturing env n hook d c True w" and "lg_writer (lw_this w)" and "lg_parent (lw_this w)" and "\<forall>m. openable m"
  shows "\<exists>w' t. log_destroy env w = ok w' \<and> length (tw_queue (lw_writer w')) = length (tw_queue (lw_writer w)) + 1 \<and>
    tw_run openable (replicate (length (tw_queue (lw_writer w'))) Turn) (lw_writer w') = ok t \<and> tw_queue t = [] \<and>
    lookup (pw_pool (tw_pool t)) n \<noteq> None"
proof -
  have C: "\<not> le_hook_only env" "plain_tcp d" "\<not> lg_single_only (lw_this w)" "fo_filename (lg_fs (lw_this w)) = n"
      "lg_details (lw_this w) = d" "lg_tcp_start_written (lw_this w)" "pool_ok (tw_pool (lw_writer w))"
    using assms(1) by (simp_all add: capturing_def logging_def Let_def)
  obtain cm f1 g1 where f: "comment_frame (new_frame (lg_hook (lw_this w))) (lw_this w) = (cm, f1, g1)" by (metis prod_cases3)
  have g1: "\<not> lg_single_only g1" "lg_details g1 = d" "fo_filename (lg_fs g1) = n"
    using f C by (auto simp: comment_frame_def split: if_splits)
  let ?fl = "TCPFLAG_FIN OR TCPFLAG_ACK"
  obtain o1 b1 d1 where 1: "append_TCP (le_pcap env) [] 0 ?fl [] f1 d = ok (o1, b1, d1)" "plain_tcp d1"
    using append_TCP_ok [of d 0] C(2) by force
  obtain o2 b2 d2 where 2: "append_TCP (le_pcap env) [] 1 ?fl o1 b1 d1 = ok (o2, b2, d2)"
    using append_TCP_ok [of d1 1] 1(2) by force
  define t where "t = snd (tw_write n o2 (lw_writer w))"
  have t: "tw_pool t = tw_pool (lw_writer w)" "tw_queue t = tw_queue (lw_writer w) @ [(n, o2)]" by (simp_all add: t_def tw_write_def)
  define g2 where "g2 = g1\<lparr>lg_details := d2, lg_hooked := lg_hooked g1 @ epb_hooked b2\<rparr>"
  have cf: "closing_frames env w = ok (w\<lparr>lw_this := g2, lw_writer := t\<rparr>)"
    using f C g1 1 2 plain_is_tcp [OF C(2)]
    by (simp add: closing_frames_def self_def put_details_def put_self_def Let_def t_def [symmetric] g2_def)
  have g2: "fo_filename (lg_fs g2) = n" using g1 by (simp add: g2_def)
  obtain b p where p: "pw_close n (tw_pool t) = ok (b, p)" "pool_ok p" using pw_close_ok C(7) t(1) by metis
  obtain b' where fl: "pw_flush n (tw_pool t) = ok (b', tw_pool t)" using pw_flush_ok C(7) t(1) by metis
  define w' where "w' = w\<lparr>lw_this := g2, lw_writer := t\<lparr>tw_pool := p\<rparr>\<rparr>"
  have w': "log_destroy env w = ok w'"
    using assms(2,3) cf g2 p(1) fl by (simp add: log_destroy_def on_pool_def w'_def Let_def)
  have "pool_ok (tw_pool (t\<lparr>tw_pool := p\<rparr>))" "tw_queue (t\<lparr>tw_pool := p\<rparr>) = tw_queue (lw_writer w) @ [(n, o2)]"
    using p(2) t(2) by simp_all
  from drain_last [OF this(1) assms(4) this(2)] show ?thesis using w' t(2) by (auto simp: w'_def)
qed

text \<open>In the mode with a single file the comments of a connection are collected in its own logger, while the
  logger of the file looks for them in itself.\<close>

lemma put_simps [simp]:
  "lg_single_only (lw_this w) \<Longrightarrow> lw_this (put_self gt w) = lw_this w"
  "lw_this (put_details d w) = (lw_this w)\<lparr>lg_details := d\<rparr>"
  by (simp_all add: put_self_def put_details_def)

text \<open>When all connections are logged to a single file, comments on a connection are not put
  on its data packets.\<close>

theorem single_file_omits_comments:
  assumes "lg_single_only (lw_this w)" and "log_write env right bs (log_comment s w) = ok w'"
  shows "lg_comlog (lw_this w') = lg_comlog (lw_this w) @ s"
proof -
  define v where "v = log_comment s w"
  have v: "lg_single_only (lw_this v)" "lg_comlog (lw_this v) = lg_comlog (lw_this w) @ s"
    using assms(1) by (simp_all add: v_def log_comment_def)
  obtain v1 where v1: "log_prologue env v = ok v1" using assms(2) by (auto simp: log_write_def v_def split: sum.splits)
  have "lw_this v1 = lw_this v"
    using v1 v(1) by (auto simp: log_prologue_def Let_def split: if_splits sum.splits prod.splits)
  then have 1: "lg_single_only (lw_this v1)" "lg_comlog (lw_this v1) = lg_comlog (lw_this v)" using v by simp_all
  have t: "lg_comlog (lw_this v2) = lg_comlog (lw_this v1) \<and> lg_single_only (lw_this v2)" if "log_tcp_start env v1 = ok v2" for v2
    using that 1(1) by (auto simp: log_tcp_start_def Let_def split: if_splits sum.splits prod.splits)
  consider (tcp) v2 d gt where "log_tcp_start env v1 = ok v2" "w' = put_details d (put_self gt v2)"
    | (udp) d gt where "w' = put_details d (put_self gt v1)" | (other) "w' = v1"
    using assms(2) v1 unfolding v_def [symmetric] log_write_def
    by (auto split: sum.splits if_splits prod.splits)
  then show ?thesis
  proof cases
    case tcp
    then show ?thesis using t [OF tcp(1)] 1 v(2) by simp
  next
    case udp
    then show ?thesis using 1 v(2) by simp
  next
    case other
    then show ?thesis using 1 v(2) by simp
  qed
qed

text \<open>A file below ten million bytes is not rotated unless that is asked for, whatever the
  quota.\<close>

theorem small_files_are_not_rotated:
  assumes "\<not> lg_rotate_now g" and "lg_bytes_written g < 10000000"
  shows "\<exists>g'. rotate_file env g t = ok (g', t) \<and> lg_fs g' = lg_fs g \<and> lg_bytes_written g' = lg_bytes_written g"
  using assms by (auto simp: rotate_file_def Let_def)

text \<open>Rotation moves the file, but not what is queued for it: these packets will make a new
  file of the old name, without a header.\<close>

theorem rotation_splits_queue:
  assumes "pool_ok (tw_pool t)" and "lg_rotate_now g" and "fo_filename (lg_fs g) = n" and "named t n"
    and "\<not> named t (old_name (lg_fs g))" and "le_rename_ok env" and "n \<noteq> old_name (lg_fs g)"
  shows "\<exists>g' t'. rotate_file env g t = ok (g', t') \<and> lg_bytes_written g' = 0 \<and>
    content (pw_files (tw_pool t')) (old_name (lg_fs g)) = content (pw_files (tw_pool t)) n \<and> \<not> named t' n \<and>
    eventual t' n = concat (map snd (filter (\<lambda>e. fst e = n) (tw_queue t)))"
proof -
  obtain b p where p: "pw_close n (tw_pool t) = ok (b, p)" "pw_files p = pw_files (tw_pool t)"
    using pw_close_ok [OF assms(1)] by blast
  show ?thesis
    using assms(2-7) p
    by (auto simp: rotate_file_def move_current_def on_pool_def map_files_def rename_file_def content_def eventual_def named_def
        generate_filename_single_def Let_def)
qed

text \<open>A logger for a proxy without a com keeps the proxy, with the default details of a
  connection: the null pointer is assigned to the argument of the constructor.\<close>

theorem logger_without_com_keeps_parent:
  assumes "\<not> pv_com p"
  shows "lg_parent (new_pcap_log api a b fs (Some p)) \<and> lg_details (new_pcap_log api a b fs (Some p)) = default_details"
  using assms by (simp add: new_pcap_log_def Let_def)

section \<open>Examples\<close>

definition demo_log :: pcap_log where
  "demo_log = \<lparr>lg_parent = True, lg_details = demo_conn, lg_writer = True,
     lg_fs = \<lparr>fo_filename = ''a.pcapng'', fo_data_dir = ''/d'', fo_prefix = [], fo_suffix = ''pcapng'', fo_host_l = [], fo_key_l = [], fo_key_r = []\<rparr>,
     lg_hook = False, lg_hooked = [], lg_single_only = False, lg_header_written = False, lg_tcp_start_written = False,
     lg_bytes_written = 0, lg_bytes_quota = 0, lg_rotate_now = False, lg_comlog = []\<rparr>"

definition demo_log_env :: log_env where
  "demo_log_env = \<lparr>le_pcap = demo_env, le_hook_only = False, le_remove_ok = True, le_rename_ok = True, le_creat_ok = True,
     le_date = ''2024-01-01'', le_time = ''10-00-00''\<rparr>"

definition demo_queue :: threaded_writer where "demo_queue = \<lparr>tw_queue = [], tw_pool = new_pool_writer\<rparr>"

definition demo_world :: log_world where "demo_world = \<lparr>lw_this = demo_log, lw_single = demo_log, lw_writer = demo_queue\<rparr>"

lemma new_pool_ok [simp]: "pool_ok new_pool_writer"
  by (simp add: pool_ok_def new_pool_writer_def files_ok_def no_files_def new_ptr_cache_def empty_cache_def lookup_def)

lemma demo_plain: "plain_tcp demo_conn"
  by (simp add: demo_conn_def plain_tcp_def pcap_protos)

lemma demo_capturing: "capturing demo_log_env ''a.pcapng'' False demo_conn [] False demo_world"
  by (simp add: capturing_def logging_def demo_log_env_def demo_world_def demo_log_def demo_queue_def demo_plain Let_def
      untouched_def named_def new_pool_writer_def no_files_def) (simp flip: no_files_def new_pool_writer_def)

theorem queued_writes_reach_files_witness:
  "\<exists>u v. tw_run (\<lambda>_. True) [Log ''a'' [1], Turn, Log ''b'' [2], Log ''a'' [3]] demo_queue = ok u \<and>
     tw_run (\<lambda>_. True) (replicate (length (tw_queue u)) Turn) u = ok v \<and> content (pw_files (tw_pool v)) ''a'' = [1, 3]"
proof -
  have p: "pool_ok (tw_pool demo_queue)" by (simp add: demo_queue_def)
  from queued_writes_reach_files [OF p, of "\<lambda>_. True" "[Log ''a'' [1], Turn, Log ''b'' [2], Log ''a'' [3]]"]
  show ?thesis by (fastforce simp: demo_queue_def eventual_def new_pool_writer_def no_files_def content_def)
qed

theorem capture_is_complete_witness:
  "\<exists>w' out. log_events demo_log_env (\<lambda>_. True) [Background Turn, Data False [1, 2], Background (Log ''b'' [9]), Data True [3]] demo_world = ok w' \<and>
     full_capture demo_env False [] [(False, [1, 2]), (True, [3])] demo_conn = ok out"
  using capture_is_complete [OF demo_capturing, of "\<lambda>_. True" "[Background Turn, Data False [1, 2], Background (Log ''b'' [9]), Data True [3]]"]
  by (auto simp: demo_log_env_def)

theorem plain_writer_writes_nothing_witness:
  "\<exists>w1 f1. fw_open True True ''a'' new_file_writer no_files = (False, w1, f1) \<and> fw_write [1, 2] w1 f1 = (2, f1)"
  using plain_writer_writes_nothing [of new_file_writer "''a''" True no_files True "[1, 2]"] by (auto simp: new_file_writer_def)

definition demo_started :: log_world where
  "demo_started = demo_world\<lparr>lw_this := demo_log\<lparr>lg_header_written := True, lg_tcp_start_written := True\<rparr>,
     lw_writer := demo_queue\<lparr>tw_queue := [(''a.pcapng'', [7])]\<rparr>\<rparr>"

lemma demo_logging: "logging demo_log_env ''a.pcapng'' False demo_conn [] True demo_started"
  using demo_capturing by (simp add: demo_started_def capturing_def logging_def demo_world_def demo_queue_def Let_def)

theorem removed_file_loses_its_start_witness:
  "\<exists>w' out d'. log_write demo_log_env True [5] demo_started = ok w' \<and> frame_of demo_env False [] True [5] demo_conn = ok (out, d') \<and>
     eventual (lw_writer w') ''a.pcapng'' = 7 # capture_header @ out"
proof -
  have n: "\<not> named (lw_writer demo_started) ''a.pcapng''"
    by (simp add: named_def demo_started_def demo_world_def demo_queue_def new_pool_writer_def no_files_def)
  from removed_file_loses_its_start [OF demo_logging n, of True "[5]"] show ?thesis
    by (auto simp: demo_started_def demo_log_env_def)
qed

definition demo_running :: log_world where
  "demo_running = demo_started\<lparr>lw_writer := map_files (create_file ''a.pcapng'') demo_queue\<rparr>"

lemma demo_running_ok: "capturing demo_log_env ''a.pcapng'' False demo_conn [] True demo_running"
  using demo_logging
  by (simp add: capturing_def logging_def demo_running_def Let_def named_def map_files_def create_file_def demo_queue_def
      pool_ok_def new_pool_writer_def files_ok_def no_files_def new_ptr_cache_def empty_cache_def lookup_def)

theorem ended_capture_keeps_its_stream_witness:
  "\<exists>w' (t :: threaded_writer). log_destroy demo_log_env demo_running = ok w' \<and> tw_queue t = [] \<and> lookup (pw_pool (tw_pool t)) ''a.pcapng'' \<noteq> None"
proof -
  have "lg_writer (lw_this demo_running)" "lg_parent (lw_this demo_running)"
    by (simp_all add: demo_running_def demo_started_def demo_world_def demo_log_def)
  from ended_capture_keeps_its_stream [OF demo_running_ok this, of "\<lambda>_. True", OF allI [OF TrueI]] show ?thesis by blast
qed

theorem small_files_are_not_rotated_witness:
  "\<exists>g'. rotate_file demo_log_env (demo_log\<lparr>lg_bytes_quota := 5, lg_bytes_written := 9999999\<rparr>) demo_queue = ok (g', demo_queue)"
  using small_files_are_not_rotated [of "demo_log\<lparr>lg_bytes_quota := 5, lg_bytes_written := 9999999\<rparr>"]
  by (auto simp: demo_log_def)

theorem rotation_splits_queue_witness:
  "\<exists>g' t'. rotate_file demo_log_env (demo_log\<lparr>lg_rotate_now := True\<rparr>) ((lw_writer demo_running)\<lparr>tw_queue := [(''a.pcapng'', [1])]\<rparr>) = ok (g', t') \<and>
     eventual t' ''a.pcapng'' = [1]"
proof -
  let ?t = "(lw_writer demo_running)\<lparr>tw_queue := [(''a.pcapng'', [1 :: byte])]\<rparr>"
  have p: "pool_ok (tw_pool ?t)" using demo_running_ok by (simp add: capturing_def logging_def)
  have "named ?t ''a.pcapng''" "\<not> named ?t (old_name (lg_fs (demo_log\<lparr>lg_rotate_now := True\<rparr>)))"
      "''a.pcapng'' \<noteq> old_name (lg_fs (demo_log\<lparr>lg_rotate_now := True\<rparr>))"
    by (simp_all add: named_def demo_running_def map_files_def create_file_def demo_queue_def new_pool_writer_def no_files_def
        old_name_def demo_log_def)
  from rotation_splits_queue [OF p _ _ this(1,2) _ this(3), of demo_log_env] show ?thesis
    by (auto simp: demo_log_def demo_log_env_def)
qed

theorem single_file_omits_comments_witness:
  "\<exists>w'. log_write (demo_log_env\<lparr>le_hook_only := True\<rparr>) False [1] (log_comment [65] (demo_world\<lparr>lw_this := demo_log\<lparr>lg_single_only := True\<rparr>\<rparr>)) = ok w' \<and>
     lg_comlog (lw_this w') = [65]"
  (is "\<exists>w'. log_write ?env False [1] ?w = ok w' \<and> _")
proof -
  obtain hs hk d1 where h: "tcp_frames demo_env False demo_conn = ok (hs, hk, d1)" "plain_tcp d1" using tcp_frames_ok [OF demo_plain] by blast
  obtain out f d2 where o': "append_TCP demo_env [1] 0 TCPFLAG_ACK [] (new_frame False) d1 = ok (out, f, d2)"
    using append_TCP_ok [OF h(2), of 0] by force
  obtain w' where w': "log_write ?env False [1] ?w = ok w'"
    using h(1) o' plain_is_tcp [OF demo_plain]
    by (cases "out = []") (simp_all add: log_write_def log_prologue_def log_comment_def log_tcp_start_def write_tcp_start_def write_tcp_data_def
        comment_frame_def emit_def put_self_def put_details_def self_def demo_world_def demo_log_def demo_log_env_def Let_def)
  then show ?thesis
    using single_file_omits_comments [of "demo_world\<lparr>lw_this := demo_log\<lparr>lg_single_only := True\<rparr>\<rparr>" ?env False "[1]" "[65]" w']
    by (simp add: demo_log_def)
qed

theorem logger_without_com_keeps_parent_witness:
  "lg_parent (new_pcap_log (pe_inet demo_env) 1 2 (lg_fs demo_log)
     (Some \<lparr>pv_com = False, pv_ls = [], pv_lda = [], pv_rs = [], pv_rda = [], pv_lsize = 0, pv_rsize = 0\<rparr>))"
  using logger_without_com_keeps_parent by simp

end
