(* ===== verification/Hostcx.thy ===== *)
theory Hostcx
  imports Prelude
begin

text \<open>
  The host context: \<^verbatim>\<open>hostcx.hpp\<close> and \<^verbatim>\<open>hostcx.cpp\<close>, the buffered socket every proxy is built of.

  A context is the record \<open>baseHostCX\<close>; each member function maps the context (and what it
  returns) to the context after the call. What lies outside is an argument:

  \<^item> the \<^verbatim>\<open>baseCom\<close> below the context: the outcome of \<^verbatim>\<open>com()->read\<close> is a function \<open>io\<close> from the
    length asked for to \<open>io_result\<close>, that of \<^verbatim>\<open>com()->write\<close> a function \<open>iow\<close> from the bytes
    offered to the number accepted; every request made to the com is recorded in \<open>cx_com_log\<close>;
  \<^item> the peer context, by what the code reads of it (\<open>peer_view\<close>);
  \<^item> the clock, as \<open>now\<close>;
  \<^item> the virtual hooks (\<^verbatim>\<open>pre_read\<close>, \<^verbatim>\<open>process_in\<close> and the others), as the record \<open>hooks\<close>, with
    \<open>base_hooks\<close> for the base class;
  \<^item> the rounding of capacities by the memory pool, as \<open>rnd\<close>.

  The two buffers are byte lists with a capacity (\<open>lbuf\<close>); the theory of buffers proves that the
  memory-level operations refine these.
\<close>

subsection \<open>Buffers as byte lists with a capacity\<close>

record lbuf =
  lb_bytes :: "byte list"
  lb_cap :: nat

abbreviation lb_size :: "lbuf \<Rightarrow> nat" where
  "lb_size b \<equiv> length (lb_bytes b)"

definition lb_capacity :: "(nat \<Rightarrow> nat) \<Rightarrow> lbuf \<Rightarrow> nat \<Rightarrow> lbuf \<times> bool" where
  "lb_capacity rnd b c = (if c \<le> lb_cap b then (b, False) else (b\<lparr>lb_cap := rnd c\<rparr>, True))"

definition lb_append :: "(nat \<Rightarrow> nat) \<Rightarrow> lbuf \<Rightarrow> byte list \<Rightarrow> lbuf" where
  "lb_append rnd b bs =
     (if bs = [] then b
      else (fst (lb_capacity rnd b (lb_size b + length bs)))\<lparr>lb_bytes := lb_bytes b @ bs\<rparr>)"

definition lb_flush :: "lbuf \<Rightarrow> nat \<Rightarrow> lbuf" where
  "lb_flush b n = b\<lparr>lb_bytes := (if n = 0 then [] else drop n (lb_bytes b))\<rparr>"

subsection \<open>State\<close>

record params_t =
  buffsize :: nat
  buffsize_maxmul :: nat
  write_full :: nat
  com_not_ready_slowdown :: u16
  fast_copy_start :: u64

definition default_params :: params_t where
  "default_params = \<lparr>buffsize = 2048, buffsize_maxmul = 1024, write_full = 200000,
     com_not_ready_slowdown = 20, fast_copy_start = 20 * 1024\<rparr>"

definition get_max_buffsize :: "params_t \<Rightarrow> nat" where
  "get_max_buffsize par = (buffsize_maxmul par * buffsize par) mod 2 ^ 64"

datatype com_cmd =
    Com_init
  | Com_cleanup
  | Com_close int
  | Com_shutdown int
  | Com_rescan_read int
  | Com_rescan_write int
  | Com_set_write_monitor int
  | Com_change_monitor_in int
  | Com_change_monitor int u32
  | Com_unset_monitor int
  | Com_clear_poll_handler int
  | Com_written "byte list"
  | Com_accept_socket int
  | Com_delay_socket int
  | Peer_rescan_read
  | Peer_set_monitor
  | Peer_rescan_write
  | Peer_set_write_monitor

record baseHostCX =
  cx_host :: string
  cx_port :: string
  cx_fds :: int
  cx_closing_fds :: int
  cx_error :: bool
  cx_permanent :: bool
  cx_last_reconnect :: int
  cx_reconnect_delay :: int
  cx_idle_delay :: int
  cx_t_connected :: int
  cx_w_activity :: int
  cx_r_activity :: int
  cx_readbuf :: lbuf
  cx_writebuf :: lbuf
  cx_processed_in_total :: u64
  cx_processed_out_total :: u64
  cx_processed_in :: nat
  cx_processed_out :: nat
  cx_read_limit :: "nat option"
  cx_auto_finish :: bool
  cx_read_waiting :: bool
  cx_write_waiting :: bool
  cx_close_after_write :: bool
  cx_opening :: bool
  cx_io_disabled :: bool
  cx_parent_proxy :: "nat option"
  cx_parent_flag :: char
  cx_rescan_out_flag :: bool
  cx_com_not_ready :: u16
  cx_read_count :: u32
  cx_write_count :: u32
  cx_read_bytes :: u64
  cx_write_bytes :: u64
  cx_has_com :: bool
  cx_com_error :: bool
  cx_com_log :: "com_cmd list"

record peer_view =
  pr_writebuf_size :: nat
  pr_com_status :: "bool option"

datatype io_result = Io_fail | Io_data "byte list"

record hooks =
  h_pre_read :: "baseHostCX \<Rightarrow> baseHostCX"
  h_post_read :: "baseHostCX \<Rightarrow> baseHostCX"
  h_pre_write :: "baseHostCX \<Rightarrow> baseHostCX"
  h_post_write :: "baseHostCX \<Rightarrow> baseHostCX"
  h_process_in :: "baseHostCX \<Rightarrow> nat \<times> baseHostCX"
  h_process_out :: "baseHostCX \<Rightarrow> nat \<times> baseHostCX"

definition com_do :: "baseHostCX \<Rightarrow> com_cmd \<Rightarrow> baseHostCX" where
  "com_do cx c = cx\<lparr>cx_com_log := cx_com_log cx @ [c]\<rparr>"

subsection \<open>Construction, accessors\<close>

definition cx_set_opening :: "int \<Rightarrow> baseHostCX \<Rightarrow> bool \<Rightarrow> baseHostCX" where
  "cx_set_opening now cx b =
     (if b then cx\<lparr>cx_opening := b, cx_t_connected := now, cx_w_activity := now, cx_r_activity := now\<rparr>
      else cx\<lparr>cx_opening := b\<rparr>)"

definition blank_cx :: "string \<Rightarrow> string \<Rightarrow> int \<Rightarrow> baseHostCX" where
  "blank_cx h p s =
     \<lparr>cx_host = h, cx_port = p, cx_fds = s, cx_closing_fds = 0, cx_error = False,
      cx_permanent = False, cx_last_reconnect = 0, cx_reconnect_delay = 7, cx_idle_delay = 3600,
      cx_t_connected = 0, cx_w_activity = 0, cx_r_activity = 0,
      cx_readbuf = \<lparr>lb_bytes = [], lb_cap = 0\<rparr>, cx_writebuf = \<lparr>lb_bytes = [], lb_cap = 0\<rparr>,
      cx_processed_in_total = 0, cx_processed_out_total = 0, cx_processed_in = 0,
      cx_processed_out = 0, cx_read_limit = None, cx_auto_finish = True,
      cx_read_waiting = False, cx_write_waiting = False, cx_close_after_write = False,
      cx_opening = False, cx_io_disabled = False, cx_parent_proxy = None,
      cx_parent_flag = CHR ''0'', cx_rescan_out_flag = False, cx_com_not_ready = 0,
      cx_read_count = 0, cx_write_count = 0, cx_read_bytes = 0, cx_write_bytes = 0,
      cx_has_com = False, cx_com_error = False, cx_com_log = []\<rparr>"

definition new_cx ::
    "params_t \<Rightarrow> (nat \<Rightarrow> nat) \<Rightarrow> int \<Rightarrow> bool \<Rightarrow> baseHostCX \<Rightarrow> baseHostCX result" where
  "new_cx par rnd now c cx =
     (let cx = cx\<lparr>cx_writebuf := fst (lb_capacity rnd (cx_writebuf cx) (buffsize par)),
                  cx_readbuf := fst (lb_capacity rnd (cx_readbuf cx) (buffsize par))\<rparr>;
          cx = cx_set_opening now cx True
      in if \<not> c then raise Com_is_null
         else ok (com_do (cx\<lparr>cx_has_com := True\<rparr>) Com_init))"

definition baseHostCX_host ::
    "params_t \<Rightarrow> (nat \<Rightarrow> nat) \<Rightarrow> int \<Rightarrow> bool \<Rightarrow> string \<Rightarrow> string \<Rightarrow> baseHostCX result" where
  "baseHostCX_host par rnd now c h p = new_cx par rnd now c (blank_cx h p 0)"

definition baseHostCX_socket ::
    "params_t \<Rightarrow> (nat \<Rightarrow> nat) \<Rightarrow> int \<Rightarrow> bool \<Rightarrow> int \<Rightarrow> baseHostCX result" where
  "baseHostCX_socket par rnd now c s = new_cx par rnd now c (blank_cx [] [] s)"

definition destroy_cx :: "baseHostCX \<Rightarrow> baseHostCX" where
  "destroy_cx cx =
     (let cx = com_do cx Com_cleanup;
          cx = (if 0 < cx_fds cx
                then com_do (com_do cx (Com_clear_poll_handler (cx_fds cx))) (Com_close (cx_fds cx))
                else cx)
      in if 0 < cx_closing_fds cx
         then com_do (com_do cx (Com_clear_poll_handler (cx_closing_fds cx)))
                (Com_close (cx_closing_fds cx))
         else cx)"

definition cx_errored :: "baseHostCX \<Rightarrow> bool" where
  "cx_errored cx = (if cx_has_com cx then cx_error cx \<or> cx_com_error cx else cx_error cx)"

definition cx_valid :: "baseHostCX \<Rightarrow> bool" where
  "cx_valid cx \<longleftrightarrow> 0 < cx_fds cx \<and> \<not> cx_errored cx"

definition cx_reduced :: "baseHostCX \<Rightarrow> bool" where
  "cx_reduced cx \<longleftrightarrow> cx_host cx = [] \<and> cx_port cx = []"

definition cx_set_socket :: "baseHostCX \<Rightarrow> int \<Rightarrow> baseHostCX" where
  "cx_set_socket cx s = (if s \<noteq> 0 then cx\<lparr>cx_fds := s\<rparr> else cx)"

definition cx_remove_socket :: "baseHostCX \<Rightarrow> baseHostCX" where
  "cx_remove_socket cx = cx\<lparr>cx_fds := 0, cx_closing_fds := 0\<rparr>"

definition set_read_limit :: "baseHostCX \<Rightarrow> nat \<Rightarrow> baseHostCX" where
  "set_read_limit cx s = cx\<lparr>cx_read_limit := (if s = 0 then None else Some s)\<rparr>"

definition read_unlimited :: "baseHostCX \<Rightarrow> baseHostCX" where
  "read_unlimited cx = cx\<lparr>cx_read_limit := None\<rparr>"

definition read_force_eagain :: "baseHostCX \<Rightarrow> baseHostCX" where
  "read_force_eagain cx = cx\<lparr>cx_read_limit := Some 0\<rparr>"

definition read_eagain :: "baseHostCX \<Rightarrow> bool" where
  "read_eagain cx = (case cx_read_limit cx of Some v \<Rightarrow> v = 0 | None \<Rightarrow> False)"

subsection \<open>Connecting, timeouts, closing\<close>

definition cx_connect :: "bool \<Rightarrow> int \<Rightarrow> int \<Rightarrow> baseHostCX \<Rightarrow> int \<times> baseHostCX" where
  "cx_connect blocking now fd cx =
     (if \<not> cx_has_com cx then (- 1, cx)
      else
        let cx = cx_set_opening now cx True;
            cx = cx\<lparr>cx_fds := fd, cx_error := False\<rparr>;
            cx = (if 0 < cx_fds cx \<and> blocking then cx_set_opening now cx False
                  else if blocking then cx_set_opening now cx False
                  else cx)
        in (cx_fds cx, cx))"

definition opening_timeout :: "int \<Rightarrow> baseHostCX \<Rightarrow> bool" where
  "opening_timeout now cx \<longleftrightarrow> cx_opening cx \<and> now - cx_t_connected cx > cx_reconnect_delay cx"

definition idle_timeout :: "int \<Rightarrow> baseHostCX \<Rightarrow> bool" where
  "idle_timeout now cx \<longleftrightarrow>
     (now - cx_w_activity cx > cx_idle_delay cx \<and> now - cx_w_activity cx \<noteq> 0) \<and>
     (now - cx_r_activity cx > cx_idle_delay cx \<and> now - cx_r_activity cx \<noteq> 0)"

definition should_reconnect_now :: "int \<Rightarrow> baseHostCX \<Rightarrow> bool" where
  "should_reconnect_now now cx \<longleftrightarrow>
     now - cx_last_reconnect cx > cx_reconnect_delay cx \<and> \<not> cx_reduced cx"

definition unhandle :: "baseHostCX \<Rightarrow> baseHostCX" where
  "unhandle cx =
     (if cx_has_com cx then
        if cx_closing_fds cx \<noteq> 0 then
          com_do (com_do cx (Com_unset_monitor (cx_closing_fds cx)))
            (Com_clear_poll_handler (cx_closing_fds cx))
        else if cx_fds cx \<noteq> 0 then
          com_do (com_do cx (Com_unset_monitor (cx_fds cx))) (Com_clear_poll_handler (cx_fds cx))
        else cx
      else cx)"

definition cx_shutdown :: "baseHostCX \<Rightarrow> baseHostCX" where
  "cx_shutdown cx =
     (let cx = cx\<lparr>cx_parent_proxy := None, cx_parent_flag := CHR ''-''\<rparr>
      in if cx_fds cx \<noteq> 0 then
           let cx = cx\<lparr>cx_closing_fds := cx_fds cx\<rparr>;
               cx = (if cx_has_com cx then unhandle (com_do cx (Com_shutdown (cx_closing_fds cx)))
                     else cx)
           in cx\<lparr>cx_fds := 0\<rparr>
         else cx)"

definition cx_reconnect :: "bool \<Rightarrow> int \<Rightarrow> int \<Rightarrow> baseHostCX \<Rightarrow> bool \<times> baseHostCX" where
  "cx_reconnect blocking now fd cx =
     (if should_reconnect_now now cx \<and> cx_permanent cx then
        let cx = cx_shutdown cx; (r, cx) = cx_connect blocking now fd cx
        in (True, cx\<lparr>cx_last_reconnect := now\<rparr>)
      else if \<not> cx_permanent cx then (False, cx)
      else if cx_reduced cx then (False, cx\<lparr>cx_last_reconnect := now\<rparr>)
      else (False, cx))"


subsection \<open>Waiting for the peer\<close>

definition read_waiting_for_peercom ::
    "params_t \<Rightarrow> peer_view option \<Rightarrow> baseHostCX \<Rightarrow> bool \<times> baseHostCX" where
  "read_waiting_for_peercom par pv cx =
     (let cx =
        (if cx_read_waiting cx then
           case Option.bind pv pr_com_status of
             Some True \<Rightarrow> cx\<lparr>cx_read_waiting := False, cx_com_not_ready := 0\<rparr>
           | Some False \<Rightarrow>
               let cx = cx\<lparr>cx_com_not_ready := cx_com_not_ready cx + 1\<rparr>
               in com_do cx (if com_not_ready_slowdown par < cx_com_not_ready cx
                             then Peer_rescan_read else Peer_set_monitor)
           | None \<Rightarrow> cx
         else cx)
      in (cx_read_waiting cx, cx))"

definition write_waiting_for_peercom ::
    "params_t \<Rightarrow> peer_view option \<Rightarrow> baseHostCX \<Rightarrow> bool \<times> baseHostCX" where
  "write_waiting_for_peercom par pv cx =
     (let cx =
        (if cx_write_waiting cx then
           case Option.bind pv pr_com_status of
             Some True \<Rightarrow> cx\<lparr>cx_write_waiting := False, cx_com_not_ready := 0\<rparr>
           | Some False \<Rightarrow>
               let cx = cx\<lparr>cx_com_not_ready := cx_com_not_ready cx + 1\<rparr>
               in com_do cx (if com_not_ready_slowdown par < cx_com_not_ready cx
                             then Peer_rescan_write else Peer_set_write_monitor)
           | None \<Rightarrow> cx\<lparr>cx_error := True\<rparr>
         else cx)
      in (cx_write_waiting cx, cx))"

definition waiting_for_peercom :: "baseHostCX \<Rightarrow> bool \<Rightarrow> baseHostCX" where
  "waiting_for_peercom cx p = cx\<lparr>cx_read_waiting := p, cx_write_waiting := p\<rparr>"

subsection \<open>Reading\<close>

definition cx_process_in :: "baseHostCX \<Rightarrow> nat \<times> baseHostCX" where
  "cx_process_in cx = (lb_size (cx_readbuf cx), cx)"

definition cx_process_out :: "baseHostCX \<Rightarrow> nat \<times> baseHostCX" where
  "cx_process_out cx = (lb_size (cx_writebuf cx), cx)"

definition base_hooks :: hooks where
  "base_hooks = \<lparr>h_pre_read = (\<lambda>cx. cx), h_post_read = (\<lambda>cx. cx), h_pre_write = (\<lambda>cx. cx),
     h_post_write = (\<lambda>cx. cx), h_process_in = cx_process_in, h_process_out = cx_process_out\<rparr>"

definition cx_finish :: "baseHostCX \<Rightarrow> nat \<times> baseHostCX" where
  "cx_finish cx =
     (let p = cx_processed_in cx; b = cx_readbuf cx
      in if unat (of_nat p :: u32) \<le> lb_size b \<and> 0 < p then (p, cx\<lparr>cx_readbuf := lb_flush b p\<rparr>)
         else if lb_bytes b = [] then (0, cx)
         else (lb_size b, cx\<lparr>cx_readbuf := lb_flush b (lb_size b)\<rparr>))"

definition grow_buffer :: "params_t \<Rightarrow> (nat \<Rightarrow> nat) \<Rightarrow> baseHostCX \<Rightarrow> baseHostCX" where
  "grow_buffer par rnd cx =
     (let b = cx_readbuf cx
      in if (lb_cap b * 2) mod 2 ^ 64 \<le> get_max_buffsize par
         then cx\<lparr>cx_readbuf := fst (lb_capacity rnd b ((lb_cap b * 2) mod 2 ^ 64))\<rparr>
         else cx)"

definition after_read :: "hooks \<Rightarrow> int \<Rightarrow> nat \<Rightarrow> baseHostCX \<Rightarrow> baseHostCX" where
  "after_read H now n cx =
     (let cx = cx\<lparr>cx_read_bytes := cx_read_bytes cx + of_nat n,
                  cx_read_count := cx_read_count cx + 1, cx_r_activity := now\<rparr>;
          cx = (if cx_opening cx then cx_set_opening now cx False else cx);
          cx = cx\<lparr>cx_processed_in := 0\<rparr>;
          cx = (if cx_processed_in_total cx < cx_read_bytes cx then
                  let (p, cx) = h_process_in H cx
                  in cx\<lparr>cx_processed_in := p,
                        cx_processed_in_total := cx_processed_in_total cx + of_nat p\<rparr>
                else cx)
      in h_post_read H cx)"

definition down_cast_int :: "int \<Rightarrow> int" where
  "down_cast_int n = (if - (2 ^ 31) \<le> n \<and> n < 2 ^ 31 then n else 2 ^ 31 - 1)"

text \<open>The room offered to the com: what is left of the capacity, or the read limit if smaller.
  The \<^verbatim>\<open>while(true)\<close> of \<^verbatim>\<open>read()\<close> leaves its body on every path of the first iteration.\<close>

definition read_room :: "baseHostCX \<Rightarrow> nat" where
  "read_room cx =
     (let limit = (case cx_read_limit cx of Some l \<Rightarrow> l | None \<Rightarrow> 0);
          left = sz_sub (lb_cap (cx_readbuf cx)) (lb_size (cx_readbuf cx))
      in if 0 < limit \<and> limit < left then limit else left)"

definition read_step ::
    "params_t \<Rightarrow> (nat \<Rightarrow> nat) \<Rightarrow> (nat \<Rightarrow> io_result) \<Rightarrow> baseHostCX \<Rightarrow> int \<times> baseHostCX" where
  "read_step par rnd io cx =
     (let limit = (case cx_read_limit cx of Some l \<Rightarrow> l | None \<Rightarrow> 0)
      in case io (read_room cx) of
           Io_fail \<Rightarrow> (- 1, cx)
         | Io_data bs \<Rightarrow>
             if bs = [] then (0, cx\<lparr>cx_error := True\<rparr>)
             else
               let cx = cx\<lparr>cx_readbuf := lb_append rnd (cx_readbuf cx) bs\<rparr>
               in (int (length bs),
                   if 0 < limit \<and> limit \<le> length bs then cx
                   else if lb_cap (cx_readbuf cx) \<le> lb_size (cx_readbuf cx)
                   then grow_buffer par rnd cx else cx))"

definition cx_read ::
    "hooks \<Rightarrow> params_t \<Rightarrow> (nat \<Rightarrow> nat) \<Rightarrow> (nat \<Rightarrow> io_result) \<Rightarrow> int \<Rightarrow> peer_view option \<Rightarrow>
     baseHostCX \<Rightarrow> int \<times> baseHostCX" where
  "cx_read H par rnd io now pv cx =
     (let (waiting, cx) = read_waiting_for_peercom par pv cx
      in if waiting then (- 1, cx)
         else if (case pv of Some p \<Rightarrow> write_full par < pr_writebuf_size p | None \<Rightarrow> False) then
           (- 1, com_do cx (Com_rescan_read (cx_fds cx)))
         else
           let cx = h_pre_read H cx
           in if read_eagain cx then (- 1, read_unlimited cx)
              else
                let cx = (if cx_auto_finish cx then snd (cx_finish cx) else cx);
                    (n, cx) = read_step par rnd io cx;
                    cx = (if 0 < n then after_read H now (nat n) cx
                          else if n = 0 then cx\<lparr>cx_error := True\<rparr>
                          else cx\<lparr>cx_processed_in := 0\<rparr>)
                in (down_cast_int n, read_unlimited cx))"

subsection \<open>Writing\<close>

text \<open>What follows a successful send of \<open>l\<close> bytes.\<close>

definition after_write :: "hooks \<Rightarrow> int \<Rightarrow> nat \<Rightarrow> baseHostCX \<Rightarrow> baseHostCX" where
  "after_write H now l cx =
     (let cx = cx\<lparr>cx_write_bytes := cx_write_bytes cx + of_nat l,
                  cx_write_count := cx_write_count cx + 1, cx_w_activity := now\<rparr>;
          cx = (if cx_opening cx then cx_set_opening now cx False else cx);
          cx = h_post_write H cx;
          cx = (if l < lb_size (cx_writebuf cx) then
                  (com_do cx (Com_set_write_monitor (cx_fds cx)))\<lparr>cx_rescan_out_flag := True\<rparr>
                else if cx_rescan_out_flag cx then
                  com_do (cx\<lparr>cx_rescan_out_flag := False\<rparr>) (Com_change_monitor_in (cx_fds cx))
                else cx);
          cx = cx\<lparr>cx_writebuf := lb_flush (cx_writebuf cx) l\<rparr>
      in if cx_close_after_write cx \<and> lb_bytes (cx_writebuf cx) = [] then cx_shutdown cx else cx)"

definition process_out_step :: "hooks \<Rightarrow> baseHostCX \<Rightarrow> baseHostCX" where
  "process_out_step H cx =
     (let tx = lb_size (cx_writebuf cx); cx = cx\<lparr>cx_processed_out := 0\<rparr>
      in if cx_processed_out_total cx < cx_write_bytes cx + of_nat tx then
           let (p, cx) = h_process_out H cx
           in cx\<lparr>cx_processed_out := p,
                 cx_processed_out_total := cx_processed_out_total cx + of_nat p\<rparr>
         else cx\<lparr>cx_processed_out := tx\<rparr>)"

definition cx_write ::
    "hooks \<Rightarrow> params_t \<Rightarrow> (byte list \<Rightarrow> int) \<Rightarrow> int \<Rightarrow> peer_view option \<Rightarrow> baseHostCX \<Rightarrow>
     int \<times> baseHostCX" where
  "cx_write H par iow now pv cx =
     (let (waiting, cx) = write_waiting_for_peercom par pv cx
      in if waiting then (0, cx)
         else
           let cx = process_out_step H (h_pre_write H cx);
               offered = take (cx_processed_out cx) (lb_bytes (cx_writebuf cx));
               l = iow offered;
               cx = (if 0 < l then
                       after_write H now (nat l) (com_do cx (Com_written (take (nat l) offered)))
                     else if l = 0 \<and> lb_bytes (cx_writebuf cx) \<noteq> [] then
                       (com_do cx (Com_rescan_write (cx_fds cx)))\<lparr>cx_rescan_out_flag := True\<rparr>
                     else cx)
           in (down_cast_int l, cx))"

definition to_write :: "(nat \<Rightarrow> nat) \<Rightarrow> byte list \<Rightarrow> baseHostCX \<Rightarrow> baseHostCX" where
  "to_write rnd bs cx =
     com_do (cx\<lparr>cx_writebuf := lb_append rnd (cx_writebuf cx) bs\<rparr>) (Com_set_write_monitor (cx_fds cx))"

text \<open>\<^verbatim>\<open>to_write(buffer&)\<close>: returns the caller's buffer as well. On the fast lane the two buffers are
  swapped and the caller's comes back empty; on the slow lane it is left as it is.\<close>

definition to_write_buffer ::
    "params_t \<Rightarrow> (nat \<Rightarrow> nat) \<Rightarrow> lbuf \<Rightarrow> baseHostCX \<Rightarrow> lbuf \<times> baseHostCX" where
  "to_write_buffer par rnd b cx =
     (let fastlane = (lb_bytes (cx_writebuf cx) = [] \<and> fast_copy_start par < cx_write_bytes cx);
          (b', cx) =
            (if fastlane then
               let w = b; b = cx_writebuf cx
               in ((fst (lb_capacity rnd b (lb_cap w)))\<lparr>lb_bytes := []\<rparr>, cx\<lparr>cx_writebuf := w\<rparr>)
             else (b, cx\<lparr>cx_writebuf := lb_append rnd (cx_writebuf cx) (lb_bytes b)\<rparr>))
      in (b', com_do cx (Com_set_write_monitor (cx_fds cx))))"

definition cx_send :: "(nat \<Rightarrow> nat) \<Rightarrow> byte list \<Rightarrow> baseHostCX \<Rightarrow> baseHostCX" where
  "cx_send rnd bs cx = cx\<lparr>cx_writebuf := lb_append rnd (cx_writebuf cx) bs\<rparr>"

definition on_accept_socket :: "int \<Rightarrow> string \<times> string \<Rightarrow> baseHostCX \<Rightarrow> baseHostCX" where
  "on_accept_socket fd src cx =
     (let cx = com_do cx (Com_accept_socket fd)
      in if cx_reduced cx then cx\<lparr>cx_host := fst src, cx_port := snd src\<rparr> else cx)"

definition on_delay_socket :: "int \<Rightarrow> baseHostCX \<Rightarrow> baseHostCX" where
  "on_delay_socket fd cx = com_do cx (Com_delay_socket fd)"


subsection \<open>Basic facts\<close>

named_theorems cx_simps \<open>what the elementary steps leave alone\<close>

lemma com_do_simps [simp]:
  "cx_com_log (com_do cx c) = cx_com_log cx @ [c]" "cx_writebuf (com_do cx c) = cx_writebuf cx"
  "cx_readbuf (com_do cx c) = cx_readbuf cx" "cx_fds (com_do cx c) = cx_fds cx"
  "cx_closing_fds (com_do cx c) = cx_closing_fds cx" "cx_has_com (com_do cx c) = cx_has_com cx"
  "cx_read_waiting (com_do cx c) = cx_read_waiting cx" "cx_auto_finish (com_do cx c) = cx_auto_finish cx"
  "cx_processed_in (com_do cx c) = cx_processed_in cx" "cx_read_bytes (com_do cx c) = cx_read_bytes cx"
  "cx_processed_in_total (com_do cx c) = cx_processed_in_total cx"
  by (simp_all add: com_do_def)

lemma cx_set_opening_simps [simp]:
  "cx_com_log (cx_set_opening now cx b) = cx_com_log cx"
  "cx_writebuf (cx_set_opening now cx b) = cx_writebuf cx"
  "cx_readbuf (cx_set_opening now cx b) = cx_readbuf cx"
  "cx_fds (cx_set_opening now cx b) = cx_fds cx"
  "cx_closing_fds (cx_set_opening now cx b) = cx_closing_fds cx"
  "cx_has_com (cx_set_opening now cx b) = cx_has_com cx"
  "cx_read_bytes (cx_set_opening now cx b) = cx_read_bytes cx"
  "cx_processed_in_total (cx_set_opening now cx b) = cx_processed_in_total cx"
  "cx_auto_finish (cx_set_opening now cx b) = cx_auto_finish cx"
  by (simp_all add: cx_set_opening_def)

lemma lb_append_bytes [simp]: "lb_bytes (lb_append rnd b bs) = lb_bytes b @ bs"
  by (simp add: lb_append_def)

lemma lb_flush_bytes: "lb_bytes (lb_flush b n) = (if n = 0 then [] else drop n (lb_bytes b))"
  and lb_flush_cap [simp]: "lb_cap (lb_flush b n) = lb_cap b"
  by (simp_all add: lb_flush_def)

lemma lb_capacity_bytes [simp]: "lb_bytes (fst (lb_capacity rnd b c)) = lb_bytes b"
  by (simp add: lb_capacity_def)

text \<open>The bytes a log of com requests has put on the wire.\<close>

primrec written :: "com_cmd list \<Rightarrow> byte list" where
  "written [] = []"
| "written (c # cs) = (case c of Com_written bs \<Rightarrow> bs | _ \<Rightarrow> []) @ written cs"

lemma written_append [simp]: "written (xs @ ys) = written xs @ written ys"
  by (induction xs) auto

abbreviation sent :: "baseHostCX \<Rightarrow> byte list" where
  "sent cx \<equiv> written (cx_com_log cx)"

text \<open>Steps that neither put bytes on the wire nor touch the write buffer.\<close>

definition out_frame :: "baseHostCX \<Rightarrow> baseHostCX \<Rightarrow> bool" where
  "out_frame cx cx' \<longleftrightarrow> cx_writebuf cx' = cx_writebuf cx \<and> sent cx' = sent cx"

lemma out_frame_refl [simp]: "out_frame cx cx"
  by (simp add: out_frame_def)

lemma out_frame_trans: "out_frame a b \<Longrightarrow> out_frame b c \<Longrightarrow> out_frame a c"
  by (simp add: out_frame_def)

lemma shutdown_frame: "out_frame cx (cx_shutdown cx)"
  by (simp add: out_frame_def cx_shutdown_def unhandle_def Let_def)

lemma read_waiting_frame: "out_frame cx (snd (read_waiting_for_peercom par pv cx))"
  by (simp add: out_frame_def read_waiting_for_peercom_def Let_def split: option.splits bool.splits)

lemma write_waiting_frame: "out_frame cx (snd (write_waiting_for_peercom par pv cx))"
  by (simp add: out_frame_def write_waiting_for_peercom_def Let_def split: option.splits bool.splits)

lemma read_unlimited_frame: "out_frame cx (read_unlimited cx)"
  by (simp add: out_frame_def read_unlimited_def)

lemma finish_frame: "out_frame cx (snd (cx_finish cx))"
  by (simp add: out_frame_def cx_finish_def Let_def)

lemma read_step_frame: "out_frame cx (snd (read_step par rnd io cx))"
  by (simp add: out_frame_def read_step_def grow_buffer_def Let_def split: io_result.splits)

subsection \<open>The contract of the hooks on the way out\<close>

text \<open>A subclass may count bytes in \<^verbatim>\<open>process_in\<close> and \<^verbatim>\<open>process_out\<close> as it likes. As long as its hooks
  do not rewrite the write buffer and do not send by themselves, the context neither loses,
  duplicates nor reorders a byte on the way to the wire.\<close>

definition iow_ok :: "(byte list \<Rightarrow> int) \<Rightarrow> bool" where
  "iow_ok iow \<longleftrightarrow> (\<forall>bs. iow bs \<le> int (length bs))"

datatype cx_op =
    Op_to_write "byte list"
  | Op_to_write_buffer lbuf
  | Op_send "byte list"
  | Op_write "byte list \<Rightarrow> int" int "peer_view option"
  | Op_read "nat \<Rightarrow> io_result" int "peer_view option"

primrec cx_apply ::
    "hooks \<Rightarrow> params_t \<Rightarrow> (nat \<Rightarrow> nat) \<Rightarrow> cx_op \<Rightarrow> baseHostCX \<Rightarrow> baseHostCX" where
  "cx_apply H par rnd (Op_to_write bs) cx = to_write rnd bs cx"
| "cx_apply H par rnd (Op_to_write_buffer b) cx = snd (to_write_buffer par rnd b cx)"
| "cx_apply H par rnd (Op_send bs) cx = cx_send rnd bs cx"
| "cx_apply H par rnd (Op_write iow now pv) cx = snd (cx_write H par iow now pv cx)"
| "cx_apply H par rnd (Op_read io now pv) cx = snd (cx_read H par rnd io now pv cx)"

primrec op_input :: "cx_op \<Rightarrow> byte list" where
  "op_input (Op_to_write bs) = bs"
| "op_input (Op_to_write_buffer b) = lb_bytes b"
| "op_input (Op_send bs) = bs"
| "op_input (Op_write iow now pv) = []"
| "op_input (Op_read io now pv) = []"

primrec op_ok :: "cx_op \<Rightarrow> bool" where
  "op_ok (Op_to_write bs) = True"
| "op_ok (Op_to_write_buffer b) = True"
| "op_ok (Op_send bs) = True"
| "op_ok (Op_write iow now pv) = iow_ok iow"
| "op_ok (Op_read io now pv) = True"

locale passive_hooks =
  fixes H :: hooks
  assumes pre_read: "out_frame cx (h_pre_read H cx)"
    and post_read: "out_frame cx (h_post_read H cx)"
    and pre_write: "out_frame cx (h_pre_write H cx)"
    and post_write: "out_frame cx (h_post_write H cx)"
    and process_in: "out_frame cx (snd (h_process_in H cx))"
    and process_out: "out_frame cx (snd (h_process_out H cx))"
begin

lemma after_read_frame: "out_frame cx (after_read H now n cx)"
proof -
  define b where "b = cx\<lparr>cx_read_bytes := cx_read_bytes cx + of_nat n,
    cx_read_count := cx_read_count cx + 1, cx_r_activity := now\<rparr>"
  define c where "c = (if cx_opening b then cx_set_opening now b False else b)\<lparr>cx_processed_in := 0\<rparr>"
  obtain p d where pd: "h_process_in H c = (p, d)" by force
  define e where "e = (if cx_processed_in_total c < cx_read_bytes c
    then d\<lparr>cx_processed_in := p, cx_processed_in_total := cx_processed_in_total d + of_nat p\<rparr> else c)"
  have "out_frame cx c" by (simp add: b_def c_def out_frame_def)
  moreover have "out_frame c d" using process_in [of c] pd by simp
  then have "out_frame c e" by (simp add: e_def out_frame_def)
  moreover have "after_read H now n cx = h_post_read H e"
    unfolding after_read_def Let_def b_def [symmetric] c_def [symmetric] pd e_def by simp
  ultimately show ?thesis using post_read out_frame_trans by metis
qed

lemma cx_read_frame: "out_frame cx (snd (cx_read H par rnd io now pv cx))"
proof -
  obtain w a where w: "read_waiting_for_peercom par pv cx = (w, a)" by force
  define b where "b = h_pre_read H a"
  define c where "c = (if cx_auto_finish b then snd (cx_finish b) else b)"
  obtain n d where d: "read_step par rnd io c = (n, d)" by force
  define e where "e = (if 0 < n then after_read H now (nat n) d
    else if n = 0 then d\<lparr>cx_error := True\<rparr> else d\<lparr>cx_processed_in := 0\<rparr>)"
  have a: "out_frame cx a" using read_waiting_frame [of cx par pv] w by simp
  have b: "out_frame a b" by (simp add: b_def pre_read)
  have c: "out_frame b c" by (simp add: c_def finish_frame)
  have d': "out_frame c d" using read_step_frame [of c par rnd io] d by simp
  have e: "out_frame d e" using after_read_frame by (simp add: e_def out_frame_def)
  have "snd (cx_read H par rnd io now pv cx) \<in>
      {a, com_do a (Com_rescan_read (cx_fds a)), read_unlimited b, read_unlimited e}"
    unfolding cx_read_def Let_def w prod.case b_def [symmetric] c_def [symmetric] d
      e_def [symmetric] by simp
  then show ?thesis
    using a b c d' e by (auto simp: out_frame_def read_unlimited_def)
qed

lemma process_out_step_frame: "out_frame cx (process_out_step H cx)"
proof -
  obtain p d where pd: "h_process_out H (cx\<lparr>cx_processed_out := 0\<rparr>) = (p, d)" by force
  have "out_frame (cx\<lparr>cx_processed_out := 0\<rparr>) d"
    using process_out [of "cx\<lparr>cx_processed_out := 0\<rparr>"] pd by simp
  then show ?thesis using pd by (simp add: process_out_step_def out_frame_def Let_def)
qed

lemma after_write_out:
  assumes "0 < l"
  shows "lb_bytes (cx_writebuf (after_write H now l cx)) = drop l (lb_bytes (cx_writebuf cx)) \<and>
         sent (after_write H now l cx) = sent cx"
proof -
  define b where "b = cx\<lparr>cx_write_bytes := cx_write_bytes cx + of_nat l,
    cx_write_count := cx_write_count cx + 1, cx_w_activity := now\<rparr>"
  define c where "c = (if cx_opening b then cx_set_opening now b False else b)"
  define d where "d = h_post_write H c"
  define e where "e = (if l < lb_size (cx_writebuf d)
      then (com_do d (Com_set_write_monitor (cx_fds d)))\<lparr>cx_rescan_out_flag := True\<rparr>
      else if cx_rescan_out_flag d
      then com_do (d\<lparr>cx_rescan_out_flag := False\<rparr>) (Com_change_monitor_in (cx_fds d)) else d)"
  define f where "f = e\<lparr>cx_writebuf := lb_flush (cx_writebuf e) l\<rparr>"
  have "out_frame cx d"
    unfolding d_def using post_write [of c] by (simp add: b_def c_def out_frame_def)
  then have e: "out_frame cx e" by (simp add: e_def out_frame_def)
  have "after_write H now l cx \<in> {f, cx_shutdown f}"
    unfolding after_write_def Let_def b_def [symmetric] c_def [symmetric] d_def [symmetric]
      e_def [symmetric] f_def [symmetric] by simp
  moreover have "lb_bytes (cx_writebuf f) = drop l (lb_bytes (cx_writebuf cx))" "sent f = sent cx"
    using e assms by (simp_all add: f_def out_frame_def lb_flush_bytes)
  ultimately show ?thesis
    using shutdown_frame [of f] by (auto simp: out_frame_def)
qed

lemma cx_write_out:
  assumes "iow_ok iow" and cx'_def: "cx' = snd (cx_write H par iow now pv cx)"
  shows "sent cx' @ lb_bytes (cx_writebuf cx') = sent cx @ lb_bytes (cx_writebuf cx)"
proof -
  obtain w a where w: "write_waiting_for_peercom par pv cx = (w, a)" by force
  define b where "b = process_out_step H (h_pre_write H a)"
  have a: "out_frame cx a" using write_waiting_frame [of cx par pv] w by simp
  have "out_frame a b"
    unfolding b_def by (rule out_frame_trans [OF pre_write process_out_step_frame])
  with a have ab: "out_frame cx b" by (rule out_frame_trans)
  define o' where "o' = take (cx_processed_out b) (lb_bytes (cx_writebuf b))"
  define l where "l = iow o'"
  have ll: "nat l \<le> length o'" using assms(1) by (simp add: iow_ok_def l_def nat_le_iff)
  define c where "c = com_do b (Com_written (take (nat l) o'))"
  have cx': "cx' = (if w then a else if 0 < l then after_write H now (nat l) c
      else if l = 0 \<and> lb_bytes (cx_writebuf b) \<noteq> []
      then (com_do b (Com_rescan_write (cx_fds b)))\<lparr>cx_rescan_out_flag := True\<rparr> else b)"
    unfolding cx'_def cx_write_def Let_def w prod.case b_def [symmetric] o'_def [symmetric]
      l_def [symmetric] c_def [symmetric] by simp
  have "take (nat l) o' @ drop (nat l) (lb_bytes (cx_writebuf b)) = lb_bytes (cx_writebuf b)"
    using ll by (simp add: o'_def min_absorb1)
  then have "sent (after_write H now (nat l) c) @
      lb_bytes (cx_writebuf (after_write H now (nat l) c)) = sent cx @ lb_bytes (cx_writebuf cx)"
    if "0 < l"
    using after_write_out [of "nat l" now c] that ab by (simp add: c_def out_frame_def)
  with a ab show ?thesis by (simp add: cx' out_frame_def)
qed

lemma cx_apply_out:
  assumes "op_ok op"
  shows "sent (cx_apply H par rnd op cx) @ lb_bytes (cx_writebuf (cx_apply H par rnd op cx))
         = sent cx @ lb_bytes (cx_writebuf cx) @ op_input op"
proof (cases op)
  case (Op_write iow now pv)
  then show ?thesis using cx_write_out [OF _ refl, of iow par now pv cx] assms by simp
next
  case (Op_read io now pv)
  then show ?thesis using cx_read_frame [of cx par rnd io now pv] by (simp add: out_frame_def)
qed (simp_all add: to_write_def to_write_buffer_def cx_send_def Let_def)

lemma run_out:
  "list_all op_ok ops \<Longrightarrow>
     sent (fold (cx_apply H par rnd) ops cx) @ lb_bytes (cx_writebuf (fold (cx_apply H par rnd) ops cx))
     = sent cx @ lb_bytes (cx_writebuf cx) @ concat (map op_input ops)"
proof (induction ops arbitrary: cx)
  case Nil
  then show ?case by simp
next
  case (Cons op ops)
  then have "op_ok op" by simp
  with Cons cx_apply_out [OF this, of par rnd cx] show ?case by (simp flip: append_assoc)
qed

end

interpretation base: passive_hooks base_hooks
  by unfold_locales (simp_all add: base_hooks_def cx_process_in_def cx_process_out_def)


subsection \<open>The way in\<close>

definition io_ok :: "(nat \<Rightarrow> io_result) \<Rightarrow> bool" where
  "io_ok io \<longleftrightarrow> (\<forall>n bs. io n = Io_data bs \<longrightarrow> length bs \<le> n)"

text \<open>The pool rounds a request up, to at most its largest chunk.\<close>

definition rnd_ok :: "(nat \<Rightarrow> nat) \<Rightarrow> bool" where
  "rnd_ok rnd \<longleftrightarrow> (\<forall>c. c \<le> rnd c \<and> rnd c \<le> max c (50 * 1024))"

definition buf_bounded :: "params_t \<Rightarrow> lbuf \<Rightarrow> bool" where
  "buf_bounded par b \<longleftrightarrow>
     lb_size b \<le> lb_cap b \<and> lb_cap b \<le> max (get_max_buffsize par) (50 * 1024)"

lemma read_room_le:
  assumes "lb_size (cx_readbuf cx) \<le> lb_cap (cx_readbuf cx)" and "lb_cap (cx_readbuf cx) < 2 ^ 64"
  shows "read_room cx \<le> lb_cap (cx_readbuf cx) - lb_size (cx_readbuf cx)"
  using assms by (auto simp: read_room_def Let_def sz_simps)

lemma lb_append_fits: "lb_size b + length bs \<le> lb_cap b \<Longrightarrow> lb_append rnd b bs = b\<lparr>lb_bytes := lb_bytes b @ bs\<rparr>"
  by (simp add: lb_append_def lb_capacity_def)

lemma grow_buffer_bounded:
  assumes "rnd_ok rnd" and "buf_bounded par (cx_readbuf cx)" and "get_max_buffsize par < 2 ^ 31"
  shows "\<exists>b. grow_buffer par rnd cx = cx\<lparr>cx_readbuf := b\<rparr> \<and> lb_bytes b = lb_bytes (cx_readbuf cx) \<and>
             buf_bounded par b"
proof -
  let ?b = "cx_readbuf cx" and ?c = "lb_cap (cx_readbuf cx)"
  have m: "(?c * 2) mod 2 ^ 64 = ?c * 2"
    using assms(2,3) by (intro mod_less) (auto simp: buf_bounded_def)
  have r: "?c * 2 \<le> rnd (?c * 2)" "rnd (?c * 2) \<le> max (?c * 2) (50 * 1024)"
    using assms(1) by (simp_all add: rnd_ok_def)
  have gb: "grow_buffer par rnd cx = (if ?c * 2 \<le> get_max_buffsize par
      then cx\<lparr>cx_readbuf := fst (lb_capacity rnd ?b (?c * 2))\<rparr> else cx)"
    unfolding grow_buffer_def Let_def m ..
  show ?thesis
  proof (cases "?c * 2 \<le> get_max_buffsize par")
    case True
    then have "buf_bounded par (fst (lb_capacity rnd ?b (?c * 2)))"
      using assms(2) r by (auto simp: buf_bounded_def lb_capacity_def)
    with True show ?thesis
      by (intro exI [of _ "fst (lb_capacity rnd ?b (?c * 2))"]) (simp add: gb)
  next
    case False
    then show ?thesis
      using assms(2) by (intro exI [of _ ?b]) (simp add: gb)
  qed
qed

lemma read_step_cases:
  assumes "io_ok io" and "rnd_ok rnd" and bb: "buf_bounded par (cx_readbuf c)"
    and mx: "get_max_buffsize par < 2 ^ 31" and "read_step par rnd io c = (n, d)"
  obtains (fail) "n = - 1" "d = c"
  | (eof) "n = 0" "d = c\<lparr>cx_error := True\<rparr>"
  | (data) bs b where "io (read_room c) = Io_data bs" "bs \<noteq> []" "n = int (length bs)"
      "d = c\<lparr>cx_readbuf := b\<rparr>" "lb_bytes b = lb_bytes (cx_readbuf c) @ bs" "buf_bounded par b"
proof (cases "io (read_room c)")
  case Io_fail
  then show ?thesis using assms(5) fail by (simp add: read_step_def)
next
  case (Io_data bs)
  show ?thesis
  proof (cases "bs = []")
    case True
    then show ?thesis using assms(5) Io_data eof by (simp add: read_step_def)
  next
    case False
    let ?b = "cx_readbuf c"
    have "length bs \<le> read_room c" using assms(1) Io_data by (simp add: io_ok_def)
    also have "\<dots> \<le> lb_cap ?b - lb_size ?b"
      using bb mx by (intro read_room_le) (auto simp: buf_bounded_def)
    finally have fit: "lb_size ?b + length bs \<le> lb_cap ?b"
      using bb unfolding buf_bounded_def by linarith
    define c1 where "c1 = c\<lparr>cx_readbuf := ?b\<lparr>lb_bytes := lb_bytes ?b @ bs\<rparr>\<rparr>"
    have b1: "buf_bounded par (cx_readbuf c1)" using bb fit by (simp add: c1_def buf_bounded_def)
    obtain b where b: "grow_buffer par rnd c1 = c1\<lparr>cx_readbuf := b\<rparr>"
        "lb_bytes b = lb_bytes (cx_readbuf c1)" "buf_bounded par b"
      using grow_buffer_bounded [OF assms(2) b1 mx] by blast
    have n: "n = int (length bs)" and dd: "d = c1 \<or> d = c1\<lparr>cx_readbuf := b\<rparr>"
      using assms(5) Io_data False fit b(1)
      by (auto simp: read_step_def lb_append_fits Let_def simp flip: c1_def split: if_splits)
    from dd show ?thesis
    proof
      assume "d = c1"
      then show ?thesis using data [OF Io_data False n, of "cx_readbuf c1"] b1 by (simp add: c1_def)
    next
      assume "d = c1\<lparr>cx_readbuf := b\<rparr>"
      then show ?thesis using data [OF Io_data False n, of b] b by (simp add: c1_def)
    qed
  qed
qed


text \<open>The state between two reads of a context with the default hooks: everything read so far has
  been counted as processed, and what is left in the read buffer is what the last read processed,
  to be dropped by the next one.\<close>

definition rd_inv :: "params_t \<Rightarrow> baseHostCX \<Rightarrow> bool" where
  "rd_inv par cx \<longleftrightarrow>
     cx_auto_finish cx \<and> cx_processed_in_total cx = cx_read_bytes cx \<and>
     (lb_bytes (cx_readbuf cx) = [] \<or> cx_processed_in cx = lb_size (cx_readbuf cx)) \<and>
     buf_bounded par (cx_readbuf cx)"

lemma read_waiting_rd:
  "read_waiting_for_peercom par pv cx = (w, a) \<Longrightarrow>
     cx_readbuf a = cx_readbuf cx \<and> cx_auto_finish a = cx_auto_finish cx \<and>
     cx_processed_in a = cx_processed_in cx \<and> cx_read_bytes a = cx_read_bytes cx \<and>
     cx_processed_in_total a = cx_processed_in_total cx"
  by (auto simp: read_waiting_for_peercom_def Let_def split: option.splits bool.splits if_splits)

lemma finish_rd:
  assumes "rd_inv par cx" and "lb_cap (cx_readbuf cx) < 2 ^ 31"
  shows "snd (cx_finish cx) = cx\<lparr>cx_readbuf := (cx_readbuf cx)\<lparr>lb_bytes := []\<rparr>\<rparr>"
proof (cases "lb_bytes (cx_readbuf cx) = []")
  case True
  then have b: "(cx_readbuf cx)\<lparr>lb_bytes := []\<rparr> = cx_readbuf cx" by simp
  show ?thesis unfolding b using True by (simp add: cx_finish_def Let_def lb_flush_def)
next
  case False
  then have p: "cx_processed_in cx = lb_size (cx_readbuf cx)" using assms(1) by (simp add: rd_inv_def)
  moreover have "lb_size (cx_readbuf cx) < 2 ^ 32"
    using assms by (simp add: rd_inv_def buf_bounded_def)
  ultimately show ?thesis using False
    by (simp add: cx_finish_def Let_def lb_flush_def)
qed

lemma after_read_base:
  assumes t: "cx_processed_in_total d = cx_read_bytes d" and n: "n = lb_size (cx_readbuf d)" "0 < n"
    and nw: "unat (cx_read_bytes d) + n < 2 ^ 64" and e_def: "e = after_read base_hooks now n d"
  shows "cx_readbuf e = cx_readbuf d" "cx_processed_in e = n"
    "cx_processed_in_total e = cx_read_bytes e" "cx_read_bytes e = cx_read_bytes d + of_nat n"
    "cx_auto_finish e = cx_auto_finish d"
proof -
  have "cx_read_bytes d < cx_read_bytes d + of_nat n"
    using nw n(2) by (simp add: word_less_nat_alt unat_word_ariths unat_of_nat)
  then show "cx_readbuf e = cx_readbuf d" "cx_processed_in e = n"
    "cx_processed_in_total e = cx_read_bytes e" "cx_read_bytes e = cx_read_bytes d + of_nat n"
    "cx_auto_finish e = cx_auto_finish d"
    using t n(1)
    by (simp_all add: e_def after_read_def base_hooks_def cx_process_in_def Let_def)
qed

lemma cx_read_base_cases:
  assumes "cx_read base_hooks par rnd io now pv cx = (n, cx')"
  obtains (skip) "n = - 1" "cx_readbuf cx' = cx_readbuf cx"
      "cx_auto_finish cx' = cx_auto_finish cx" "cx_processed_in cx' = cx_processed_in cx"
      "cx_read_bytes cx' = cx_read_bytes cx" "cx_processed_in_total cx' = cx_processed_in_total cx"
  | (step) w a m d where "read_waiting_for_peercom par pv cx = (w, a)"
      "read_step par rnd io (if cx_auto_finish a then snd (cx_finish a) else a) = (m, d)"
      "n = down_cast_int m"
      "cx' = read_unlimited (if 0 < m then after_read base_hooks now (nat m) d
         else if m = 0 then d\<lparr>cx_error := True\<rparr> else d\<lparr>cx_processed_in := 0\<rparr>)"
proof -
  obtain w a where w: "read_waiting_for_peercom par pv cx = (w, a)" by force
  note wa = read_waiting_rd [OF w]
  have pre: "h_pre_read base_hooks a = a" by (simp add: base_hooks_def)
  define c where "c = (if cx_auto_finish a then snd (cx_finish a) else a)"
  obtain m d where d: "read_step par rnd io c = (m, d)" by force
  define e where "e = (if 0 < m then after_read base_hooks now (nat m) d
         else if m = 0 then d\<lparr>cx_error := True\<rparr> else d\<lparr>cx_processed_in := 0\<rparr>)"
  have "(n, cx') \<in> {(- 1, a), (- 1, com_do a (Com_rescan_read (cx_fds a))), (- 1, read_unlimited a),
      (down_cast_int m, read_unlimited e)}"
    using assms unfolding cx_read_def Let_def w prod.case pre c_def [symmetric] d
      e_def [symmetric] by (simp split: if_splits)
  then show ?thesis
    using skip step [OF w d [unfolded c_def]] wa unfolding e_def
    by (auto simp: read_unlimited_def)
qed


lemma cx_read_delivers:
  assumes inv: "rd_inv par cx" and io: "io_ok io" and rnd: "rnd_ok rnd"
    and mx: "get_max_buffsize par < 2 ^ 31" and nw: "unat (cx_read_bytes cx) + 2 ^ 31 < 2 ^ 64"
    and r: "cx_read base_hooks par rnd io now pv cx = (n, cx')"
  shows "rd_inv par cx' \<and>
         (if 0 < n then \<exists>m bs. m \<le> lb_cap (cx_readbuf cx) \<and> io m = Io_data bs \<and>
              lb_bytes (cx_readbuf cx') = bs \<and> n = int (length bs) \<and>
              cx_read_bytes cx' = cx_read_bytes cx + of_nat (length bs)
          else cx_read_bytes cx' = cx_read_bytes cx)"
  using r
proof (cases rule: cx_read_base_cases)
  case skip
  then show ?thesis using inv by (simp add: rd_inv_def)
next
  case (step w a m d)
  have cap: "lb_cap (cx_readbuf cx) < 2 ^ 31" using inv mx by (auto simp: rd_inv_def buf_bounded_def)
  note wa = read_waiting_rd [OF step(1)]
  have ai: "rd_inv par a" "cx_auto_finish a" using inv wa by (simp_all add: rd_inv_def)
  define c where "c = a\<lparr>cx_readbuf := (cx_readbuf a)\<lparr>lb_bytes := []\<rparr>\<rparr>"
  have fc: "(if cx_auto_finish a then snd (cx_finish a) else a) = c"
    using finish_rd [OF ai(1)] cap wa ai(2) by (simp add: c_def)
  have cb: "buf_bounded par (cx_readbuf c)" using ai(1) by (simp add: c_def rd_inv_def buf_bounded_def)
  note st = step(2) [unfolded fc]
  have cc: "lb_bytes (cx_readbuf c) = []" "cx_processed_in_total c = cx_read_bytes cx"
      "cx_read_bytes c = cx_read_bytes cx" "cx_auto_finish c" "lb_cap (cx_readbuf c) = lb_cap (cx_readbuf cx)"
    using wa inv ai by (simp_all add: c_def rd_inv_def)
  show ?thesis
  proof (cases rule: read_step_cases [OF io rnd cb mx st])
    case 1
    then show ?thesis
      using step(3,4) cc cb by (simp add: rd_inv_def read_unlimited_def down_cast_int_def)
  next
    case 2
    then show ?thesis
      using step(3,4) cc cb by (simp add: rd_inv_def read_unlimited_def down_cast_int_def)
  next
    case data: (3 bs b)
    have room: "read_room c \<le> lb_cap (cx_readbuf cx)"
      using read_room_le [of c] cb cap cc by (simp add: buf_bounded_def)
    have len: "length bs \<le> read_room c" using io data(1) by (simp add: io_ok_def)
    have lt: "length bs < 2 ^ 31" using len room cap by linarith
    have d: "cx_processed_in_total d = cx_read_bytes d" "length bs = lb_size (cx_readbuf d)"
        "0 < length bs" "unat (cx_read_bytes d) + length bs < 2 ^ 64"
      using data cc nw lt by (simp_all)
    note ar = after_read_base [OF d refl, of now]
    have n: "n = int (length bs)" "0 < n"
      using step(3) data(2,3) lt by (simp_all add: down_cast_int_def)
    have cx': "cx' = read_unlimited (after_read base_hooks now (length bs) d)"
      using step(4) data(2,3) by simp
    have "rd_inv par cx'"
      using ar data cc by (simp add: rd_inv_def cx' read_unlimited_def)
    moreover have "lb_bytes (cx_readbuf cx') = bs" "cx_read_bytes cx' = cx_read_bytes cx + of_nat (length bs)"
      using ar data cc by (simp_all add: cx' read_unlimited_def)
    ultimately show ?thesis using n room data(1) by auto
  qed
qed

subsection \<open>What the host context promises\<close>

definition demo_cx :: baseHostCX where
  "demo_cx = (blank_cx ''h'' ''1'' 5)\<lparr>cx_has_com := True,
     cx_readbuf := \<lparr>lb_bytes = [], lb_cap = 2048\<rparr>, cx_writebuf := \<lparr>lb_bytes = [], lb_cap = 2048\<rparr>\<rparr>"

text \<open>C5: Whatever sequence of \<^verbatim>\<open>to_write\<close>, \<^verbatim>\<open>send\<close>, \<^verbatim>\<open>write\<close> and \<^verbatim>\<open>read\<close> calls a context goes
  through, with partial writes, refused writes, waiting for the peer and the fast-lane buffer swap
  in any order: the bytes accepted by the com, followed by the bytes still in the write buffer, are
  exactly the bytes handed in, in order. Nothing is lost, repeated or reordered.\<close>

theorem write_stream_intact:
  assumes "list_all op_ok ops"
  shows "sent (fold (cx_apply base_hooks par rnd) ops cx) @
           lb_bytes (cx_writebuf (fold (cx_apply base_hooks par rnd) ops cx))
         = sent cx @ lb_bytes (cx_writebuf cx) @ concat (map op_input ops)"
  using assms by (rule base.run_out)

theorem write_stream_intact_witness:
  "sent (fold (cx_apply base_hooks default_params id)
       [Op_to_write [1, 2, 3], Op_write (\<lambda>bs. min 2 (int (length bs))) 0 None, Op_send [4],
        Op_write (\<lambda>bs. int (length bs)) 0 None] demo_cx) @
     lb_bytes (cx_writebuf (fold (cx_apply base_hooks default_params id)
       [Op_to_write [1, 2, 3], Op_write (\<lambda>bs. min 2 (int (length bs))) 0 None, Op_send [4],
        Op_write (\<lambda>bs. int (length bs)) 0 None] demo_cx)) = [1, 2, 3, 4]"
  by (subst write_stream_intact) (simp_all add: iow_ok_def demo_cx_def blank_cx_def)

text \<open>With the default hooks every successful \<^verbatim>\<open>read\<close> leaves in the read buffer exactly the bytes
  the com delivered in that call: the bytes of the previous read are gone, none of the new ones is
  missing, no more than the free capacity was asked for, and the meter counts them. A read that
  returns no data changes no meter. Buffer sizes stay within capacity, and capacity within the
  configured maximum.\<close>

theorem read_delivers_exactly:
  assumes "rd_inv par cx" and "io_ok io" and "rnd_ok rnd"
    and "get_max_buffsize par < 2 ^ 31" and "unat (cx_read_bytes cx) + 2 ^ 31 < 2 ^ 64"
    and "cx_read base_hooks par rnd io now pv cx = (n, cx')"
  shows "rd_inv par cx' \<and>
         (if 0 < n then \<exists>m bs. m \<le> lb_cap (cx_readbuf cx) \<and> io m = Io_data bs \<and>
              lb_bytes (cx_readbuf cx') = bs \<and> n = int (length bs) \<and>
              cx_read_bytes cx' = cx_read_bytes cx + of_nat (length bs)
          else cx_read_bytes cx' = cx_read_bytes cx)"
  using assms by (rule cx_read_delivers)

lemma demo_rd: "rd_inv default_params demo_cx" "rnd_ok id" "io_ok (\<lambda>n. Io_data (take n [7, 8]))"
  by (simp_all add: rd_inv_def demo_cx_def blank_cx_def buf_bounded_def rnd_ok_def io_ok_def)

theorem read_delivers_exactly_witness:
  "rd_inv default_params
     (snd (cx_read base_hooks default_params id (\<lambda>n. Io_data (take n [7, 8])) 9 None demo_cx))"
proof -
  obtain n cx' where r: "cx_read base_hooks default_params id (\<lambda>n. Io_data (take n [7, 8])) 9 None
      demo_cx = (n, cx')" by force
  from read_delivers_exactly [OF demo_rd(1,3,2) _ _ r] r show ?thesis
    by (simp add: get_max_buffsize_def default_params_def demo_cx_def blank_cx_def)
qed

text \<open>Bytes a subclass has not processed are lost: when \<^verbatim>\<open>processed_in_\<close> is zero and the read
  buffer is not empty -- the state after a read that returned no data, or after a
  \<^verbatim>\<open>process_in\<close> that wants more input -- the next \<^verbatim>\<open>read\<close> empties the buffer before reading, so it
  ends up with the new bytes only.\<close>

theorem read_drops_unprocessed:
  assumes "cx_auto_finish cx" and "cx_processed_in cx = 0" and "lb_bytes (cx_readbuf cx) \<noteq> []"
    and "\<not> cx_read_waiting cx" and "cx_read_limit cx = None"
    and "buf_bounded par (cx_readbuf cx)" and "rnd_ok rnd" and "get_max_buffsize par < 2 ^ 31"
    and "io_ok io" and "io (lb_cap (cx_readbuf cx)) = Io_data bs" and "bs \<noteq> []"
    and "cx_read (base_hooks\<lparr>h_process_in := \<lambda>cx. (count cx, cx)\<rparr>) par rnd io now None cx = (n, cx')"
  shows "lb_bytes (cx_readbuf cx') = bs"
proof -
  let ?H = "base_hooks\<lparr>h_process_in := \<lambda>cx. (count cx, cx)\<rparr>"
  define c where "c = cx\<lparr>cx_readbuf := (cx_readbuf cx)\<lparr>lb_bytes := []\<rparr>\<rparr>"
  have w: "read_waiting_for_peercom par None cx = (False, cx)"
    using assms(4) by (simp add: read_waiting_for_peercom_def)
  have pre: "h_pre_read ?H cx = cx" by (simp add: base_hooks_def)
  have fc: "snd (cx_finish cx) = c"
    using assms(2,3) by (simp add: cx_finish_def Let_def lb_flush_def c_def)
  have cb: "buf_bounded par (cx_readbuf c)" using assms(6) by (simp add: c_def buf_bounded_def)
  have "lb_cap (cx_readbuf cx) < 2 ^ 64" using assms(6,8) by (auto simp: buf_bounded_def)
  then have room: "read_room c = lb_cap (cx_readbuf cx)"
    using assms(5) by (simp add: read_room_def c_def sz_simps)
  obtain m d where d: "read_step par rnd io c = (m, d)" by force
  have m: "m = int (length bs)"
    using d assms(10,11) room by (simp add: read_step_def Let_def)
  have md: "lb_bytes (cx_readbuf d) = bs" "0 < m"
    by (cases rule: read_step_cases [OF assms(9,7) cb assms(8) d],
        use m assms(10,11) room in \<open>auto simp: c_def\<close>)+
  have cx': "cx' = read_unlimited (after_read ?H now (nat m) d)"
    using assms(12) md(2) unfolding cx_read_def Let_def w prod.case option.case pre fc
    using assms(1,5) d by (simp add: read_eagain_def)
  have "cx_readbuf (after_read ?H now (nat m) d) = cx_readbuf d"
    by (simp add: after_read_def base_hooks_def Let_def)
  then show ?thesis using md(1) by (simp add: cx' read_unlimited_def)
qed

theorem read_drops_unprocessed_witness:
  "lb_bytes (cx_readbuf (snd (cx_read (base_hooks\<lparr>h_process_in := \<lambda>cx. (0, cx)\<rparr>) default_params id
     (\<lambda>n. Io_data (take n [7, 8])) 9 None
     (demo_cx\<lparr>cx_readbuf := \<lparr>lb_bytes = [1, 2, 3], lb_cap = 2048\<rparr>\<rparr>)))) = [7, 8]"
proof -
  let ?cx = "demo_cx\<lparr>cx_readbuf := \<lparr>lb_bytes = [1, 2, 3], lb_cap = 2048\<rparr>\<rparr>"
  obtain n cx' where r: "cx_read (base_hooks\<lparr>h_process_in := \<lambda>cx. (0, cx)\<rparr>) default_params id
     (\<lambda>n. Io_data (take n [7, 8])) 9 None ?cx = (n, cx')" by force
  have "lb_bytes (cx_readbuf cx') = [7, 8]"
    by (rule read_drops_unprocessed [OF _ _ _ _ _ _ demo_rd(2) _ demo_rd(3) _ _ r])
       (simp_all add: demo_cx_def blank_cx_def buf_bounded_def get_max_buffsize_def default_params_def)
  then show ?thesis using r by simp
qed

lemma shutdown_counters [simp]:
  "cx_write_bytes (cx_shutdown cx) = cx_write_bytes cx"
  "cx_processed_out_total (cx_shutdown cx) = cx_processed_out_total cx"
  "cx_write_waiting (cx_shutdown cx) = cx_write_waiting cx"
  by (simp_all add: cx_shutdown_def unhandle_def com_do_def Let_def)

lemma after_write_base:
  assumes e: "e = after_write base_hooks now l d"
  shows "cx_write_bytes e = cx_write_bytes d + of_nat l"
    "cx_processed_out_total e = cx_processed_out_total d" "cx_write_waiting e = cx_write_waiting d"
  by (simp_all add: e after_write_def base_hooks_def cx_set_opening_def com_do_def Let_def)

lemma process_out_step_base:
  "process_out_step base_hooks cx =
     cx\<lparr>cx_processed_out := lb_size (cx_writebuf cx),
        cx_processed_out_total :=
          (if cx_processed_out_total cx < cx_write_bytes cx + of_nat (lb_size (cx_writebuf cx))
           then cx_processed_out_total cx + of_nat (lb_size (cx_writebuf cx))
           else cx_processed_out_total cx)\<rparr>"
  by (simp add: process_out_step_def base_hooks_def cx_process_out_def Let_def)

lemma cx_write_base:
  assumes "\<not> cx_write_waiting cx" and l: "iow (lb_bytes (cx_writebuf cx)) = int l" "0 < l"
    and cx': "cx' = snd (cx_write base_hooks par iow now pv cx)"
  shows "lb_bytes (cx_writebuf cx') = drop l (lb_bytes (cx_writebuf cx))"
    "cx_write_bytes cx' = cx_write_bytes cx + of_nat l" "\<not> cx_write_waiting cx'"
    "cx_processed_out_total cx' =
       (if cx_processed_out_total cx < cx_write_bytes cx + of_nat (lb_size (cx_writebuf cx))
        then cx_processed_out_total cx + of_nat (lb_size (cx_writebuf cx))
        else cx_processed_out_total cx)"
proof -
  have w: "write_waiting_for_peercom par pv cx = (False, cx)"
    using assms(1) by (simp add: write_waiting_for_peercom_def)
  have pre: "h_pre_write base_hooks cx = cx" by (simp add: base_hooks_def)
  define b where "b = process_out_step base_hooks cx"
  define c where "c = com_do b (Com_written (take l (lb_bytes (cx_writebuf cx))))"
  have b: "take (cx_processed_out b) (lb_bytes (cx_writebuf b)) = lb_bytes (cx_writebuf cx)"
    by (simp add: b_def process_out_step_base)
  have cx'': "cx' = after_write base_hooks now l c"
    unfolding cx' cx_write_def Let_def w prod.case pre b_def [symmetric] b
    using l by (simp add: c_def)
  show "lb_bytes (cx_writebuf cx') = drop l (lb_bytes (cx_writebuf cx))"
    using base.after_write_out [OF l(2), of now c]
    by (simp add: cx'' c_def b_def process_out_step_base)
  show "cx_write_bytes cx' = cx_write_bytes cx + of_nat l" "\<not> cx_write_waiting cx'"
    "cx_processed_out_total cx' =
       (if cx_processed_out_total cx < cx_write_bytes cx + of_nat (lb_size (cx_writebuf cx))
        then cx_processed_out_total cx + of_nat (lb_size (cx_writebuf cx))
        else cx_processed_out_total cx)"
    using assms(1) by (simp_all add: after_write_base [OF cx''] c_def com_do_def b_def process_out_step_base)
qed

lemma after_write_hook: "after_write (H\<lparr>h_process_out := h\<rparr>) = after_write H"
  by (simp add: after_write_def fun_eq_iff)

lemma pre_write_base: "h_pre_write base_hooks cx = cx"
  by (simp add: base_hooks_def)

lemma to_write_base:
  "lb_bytes (cx_writebuf (to_write rnd bs cx)) = lb_bytes (cx_writebuf cx) @ bs"
  "cx_write_bytes (to_write rnd bs cx) = cx_write_bytes cx"
  "cx_processed_out_total (to_write rnd bs cx) = cx_processed_out_total cx"
  "cx_write_waiting (to_write rnd bs cx) = cx_write_waiting cx"
  by (simp_all add: to_write_def com_do_def)

text \<open>\<^verbatim>\<open>process_out\<close> can be skipped for bytes it has never seen. \<^verbatim>\<open>processed_out_total_\<close> counts
  bytes again that stayed in the buffer after a partial write, so it runs ahead of
  \<^verbatim>\<open>meter_write_bytes\<close> and the test for unseen data fails. Take a fresh context, write \<open>xs\<close> of
  which only \<open>k\<close> bytes are accepted, add \<open>ys\<close>, write everything: now the buffer is empty, and up
  to \<open>length xs - k\<close> further bytes are sent without the hook -- the result of \<^verbatim>\<open>write\<close> is the
  same for every \<^verbatim>\<open>process_out\<close>.\<close>

theorem process_out_skips_new_data:
  assumes "\<not> cx_write_waiting cx0" and "lb_bytes (cx_writebuf cx0) = []"
    and "cx_write_bytes cx0 = 0" and "cx_processed_out_total cx0 = 0"
    and "0 < k" and "k < length xs" and "ys \<noteq> []" and "length xs + length ys < 2 ^ 32"
    and "cx1 = snd (cx_write base_hooks par (\<lambda>_. int k) t1 pv (to_write rnd xs cx0))"
    and "cx2 = snd (cx_write base_hooks par (\<lambda>bs. int (length bs)) t2 pv (to_write rnd ys cx1))"
    and "length bs + k \<le> length xs"
  shows "lb_bytes (cx_writebuf cx2) = [] \<and>
         cx_write (base_hooks\<lparr>h_process_out := h\<rparr>) par iow t3 pv (to_write rnd bs cx2)
         = cx_write base_hooks par iow t3 pv (to_write rnd bs cx2)"
proof -
  have lt: "(of_nat (length xs) :: u64) < of_nat (length xs) + of_nat (length ys)"
    using assms(7,8) by (simp add: word_less_nat_alt unat_word_ariths unat_of_nat take_bit_eq_mod)
  have "(0 :: u64) < of_nat (length xs)"
    using assms(6,8) by (auto simp: word_less_nat_alt unat_of_nat take_bit_eq_mod)
  then have c1: "lb_bytes (cx_writebuf cx1) = drop k xs" "cx_write_bytes cx1 = of_nat k"
      "\<not> cx_write_waiting cx1" "cx_processed_out_total cx1 = of_nat (length xs)"
    using cx_write_base [OF _ _ assms(5) assms(9)] assms(1-4) by (simp_all add: to_write_base)
  define n where "n = length (drop k xs @ ys)"
  have kn: "of_nat k + of_nat n = (of_nat (length xs) + of_nat (length ys) :: u64)"
    using assms(6) by (simp add: n_def flip: of_nat_add)
  have n: "lb_size (cx_writebuf (to_write rnd ys cx1)) = n" "0 < n"
    using c1(1) assms(7) by (simp_all add: to_write_base n_def)
  have nw: "\<not> cx_write_waiting (to_write rnd ys cx1)" using c1(3) by (simp add: to_write_base)
  note w2 = cx_write_base [OF nw _ n(2) assms(10), unfolded n(1)]
  have c2: "lb_bytes (cx_writebuf cx2) = []"
      "cx_write_bytes cx2 = of_nat (length xs) + of_nat (length ys)" "\<not> cx_write_waiting cx2"
      "cx_processed_out_total cx2 = of_nat (length xs) + of_nat n"
    using w2 n(1) c1 kn lt by (simp_all add: to_write_base(2-4))
  define d where "d = to_write rnd bs cx2"
  have "cx_processed_out_total d = of_nat (length xs + n)"
      "cx_write_bytes d + of_nat (lb_size (cx_writebuf d)) = of_nat (length xs + length ys + length bs)"
    using c2 by (simp_all add: d_def to_write_base)
  moreover have "length xs + length ys + length bs \<le> length xs + n" "length xs + n < 2 ^ 64"
    using assms(6,8,11) by (simp_all add: n_def)
  ultimately have "\<not> cx_processed_out_total d < cx_write_bytes d + of_nat (lb_size (cx_writebuf d))"
    by (simp only: word_less_nat_alt) (simp add: unat_of_nat take_bit_eq_mod del: of_nat_add)
  then have "process_out_step (base_hooks\<lparr>h_process_out := h\<rparr>) d = process_out_step base_hooks d"
    by (simp add: process_out_step_def)
  moreover have "\<not> cx_write_waiting d" using c2 by (simp add: d_def to_write_base)
  ultimately have "cx_write (base_hooks\<lparr>h_process_out := h\<rparr>) par iow t3 pv d
         = cx_write base_hooks par iow t3 pv d"
    by (simp add: cx_write_def write_waiting_for_peercom_def after_write_hook pre_write_base Let_def)
  then show ?thesis using c2(1) by (simp add: d_def)
qed

theorem process_out_skips_new_data_witness:
  "\<exists>cx. lb_bytes (cx_writebuf cx) = [] \<and>
     cx_write (base_hooks\<lparr>h_process_out := (\<lambda>cx. (0, cx))\<rparr>) default_params (\<lambda>bs. int (length bs)) 3 None
       (to_write id [3, 3] cx)
     = cx_write base_hooks default_params (\<lambda>bs. int (length bs)) 3 None (to_write id [3, 3] cx)"
proof -
  have "\<not> cx_write_waiting demo_cx" "lb_bytes (cx_writebuf demo_cx) = []"
      "cx_write_bytes demo_cx = 0" "cx_processed_out_total demo_cx = 0"
    by (simp_all add: demo_cx_def blank_cx_def)
  from process_out_skips_new_data [OF this _ _ _ _ refl refl, of 4 "replicate 10 1" "[2, 2]" "[3, 3]"]
  show ?thesis by (intro exI) simp
qed

text \<open>C20: Reconnecting twice leaks a socket. \<^verbatim>\<open>shutdown\<close> remembers one descriptor to close later; a
  second reconnect overwrites it. After it the context is destroyed without ever closing the first
  socket.\<close>

definition closes :: "com_cmd list \<Rightarrow> int list" where
  "closes log = concat (map (\<lambda>c. case c of Com_close fd \<Rightarrow> [fd] | _ \<Rightarrow> []) log)"

theorem reconnect_leaks_socket:
  assumes "cx_fds cx = a" and "0 < a" and "0 < b" and "0 < c" and "a \<noteq> b" and "a \<noteq> c"
    and "cx_has_com cx" and "cx_permanent cx" and "cx_host cx \<noteq> []" and "cx_closing_fds cx = 0"
    and "cx_com_log cx = []"
    and "cx_last_reconnect cx + cx_reconnect_delay cx < t1" and "t1 + cx_reconnect_delay cx < t2"
    and "cx' = snd (cx_reconnect bl t2 c (snd (cx_reconnect bl t1 b cx)))"
  shows "closes (cx_com_log (destroy_cx cx')) = [c, b]"
  unfolding assms(14)
  using assms(1-13)
  by (simp add: cx_reconnect_def should_reconnect_now_def cx_reduced_def cx_shutdown_def unhandle_def
      cx_connect_def cx_set_opening_def com_do_def destroy_cx_def closes_def Let_def)

theorem reconnect_leaks_socket_witness:
  "closes (cx_com_log (destroy_cx (snd (cx_reconnect False 200 7 (snd (cx_reconnect False 100 6
     (demo_cx\<lparr>cx_permanent := True\<rparr>))))))) = [7, 6]"
  by (rule reconnect_leaks_socket [OF refl _ _ _ _ _ _ _ _ _ _ _ _ refl])
     (simp_all add: demo_cx_def blank_cx_def)

end
