(* ===== verification/Epoll.thy ===== *)
theory Epoll
  imports Prelude "HOL-Library.FSet"
begin

text \<open>
  The event poller: \<^verbatim>\<open>common/epoll.hpp\<close>, \<^verbatim>\<open>common/epoll.cpp\<close> and the calls of \<^verbatim>\<open>baseCom\<close> that
  reach it (\<^verbatim>\<open>basecom.hpp\<close>, \<^verbatim>\<open>basecom.cpp\<close>).

  \<open>epoll\<close> is the struct of that name: one \<^verbatim>\<open>std::set<int>\<close> per purpose (an \<open>fset\<close>), the array of
  events, the rescan timer and the idle machinery. The interest list of the kernel is behind
  \<^verbatim>\<open>epoll_ctl\<close>; it is the component \<open>ep_kernel\<close> of an abstract type, changed only by the argument
  \<open>ctl\<close> of the definitions, and what the manual page promises of it is \<open>ctl_laws\<close>. What \<^verbatim>\<open>epoll_wait\<close>
  answers is a list argument, one answer per call: a run that exhausts it is still blocked
  (\<open>None\<close>). Time points are nanoseconds.

  \<open>epoller\<close> adds the lazy creation of the poller and the table of handlers. Handlers point back to
  the poller they are registered with, so handlers and pollers live in a store, \<open>net\<close>.
\<close>

section \<open>The poller\<close>

definition EPOLLIN :: u32 where "EPOLLIN = 1"
definition EPOLLOUT :: u32 where "EPOLLOUT = 4"
definition EPOLLERR :: u32 where "EPOLLERR = 8"
definition EPOLLHUP :: u32 where "EPOLLHUP = 16"

lemmas epoll_masks = EPOLLIN_def EPOLLOUT_def EPOLLERR_def EPOLLHUP_def

definition EPOLLER_MAX_EVENTS :: nat where "EPOLLER_MAX_EVENTS = 50"

definition rescan_msec :: int where "rescan_msec = 100"
definition poll_msec :: int where "poll_msec = 10000"

datatype ctl_op = CTL_ADD | CTL_MOD | CTL_DEL

datatype ctl_errno = EEXIST | ENOENT | EOTHER

type_synonym 'k ctl = "ctl_op \<Rightarrow> int \<Rightarrow> u32 \<Rightarrow> 'k \<Rightarrow> ctl_errno option \<times> 'k"

datatype wait_answer = Ready "(int \<times> u32) list" | Interrupted | Wait_failed

record 'k epoll =
  ep_kernel :: 'k
  events :: "(int \<times> u32) list"
  epoll_fd :: int
  hint_fd :: int
  auto_epollout_remove :: bool
  in_set :: "int fset"
  out_set :: "int fset"
  err_set :: "int fset"
  enforce_in_set :: "int fset"
  rescan_set_in :: "int fset"
  rescan_set_out :: "int fset"
  rescan_timer :: int
  idle_timeout_ms :: int
  idle_counter :: int
  idle_round :: bool
  idle_watched_pre :: "int fset"
  idle_watched :: "int fset"
  idle_set :: "int fset"

text \<open>A new \<^verbatim>\<open>epoll\<close>, then \<^verbatim>\<open>init\<close>: \<open>c\<close> is what \<^verbatim>\<open>epoll_create\<close> returns.\<close>

definition new_epoll :: "'k \<Rightarrow> 'k epoll" where
  "new_epoll k =
     \<lparr>ep_kernel = k, events = replicate EPOLLER_MAX_EVENTS (0, 0), epoll_fd = 0, hint_fd = 0,
      auto_epollout_remove = True, in_set = {||}, out_set = {||}, err_set = {||},
      enforce_in_set = {||}, rescan_set_in = {||}, rescan_set_out = {||}, rescan_timer = 0,
      idle_timeout_ms = 1000, idle_counter = 0, idle_round = True, idle_watched_pre = {||},
      idle_watched = {||}, idle_set = {||}\<rparr>"

definition epoll_init :: "int \<Rightarrow> int \<Rightarrow> 'k epoll \<Rightarrow> int \<times> 'k epoll" where
  "epoll_init now c e = (c, e\<lparr>epoll_fd := c, rescan_timer := now\<rparr>)"

subsection \<open>The interest list\<close>

definition epoll_add :: "'k ctl \<Rightarrow> int \<Rightarrow> u32 \<Rightarrow> 'k epoll \<Rightarrow> bool \<times> 'k epoll" where
  "epoll_add ctl s msk e =
     (let (r, k) = ctl CTL_ADD s msk (ep_kernel e)
      in (r = None \<or> r = Some EEXIST, e\<lparr>ep_kernel := k\<rparr>))"

definition epoll_modify :: "'k ctl \<Rightarrow> int \<Rightarrow> u32 \<Rightarrow> 'k epoll \<Rightarrow> bool \<times> 'k epoll" where
  "epoll_modify ctl s msk e =
     (let (r, k) = ctl CTL_MOD s msk (ep_kernel e); e = e\<lparr>ep_kernel := k\<rparr>
      in case r of
           None \<Rightarrow> (True, e)
         | Some err \<Rightarrow> if err = ENOENT then (False, snd (epoll_add ctl s msk e)) else (False, e))"

definition epoll_del :: "'k ctl \<Rightarrow> int \<Rightarrow> 'k epoll \<Rightarrow> bool \<times> 'k epoll" where
  "epoll_del ctl s e =
     (let (r, k) = ctl CTL_DEL s 0 (ep_kernel e) in (r = None, e\<lparr>ep_kernel := k\<rparr>))"

definition epoll_hint_socket :: "'k ctl \<Rightarrow> int \<Rightarrow> 'k epoll \<Rightarrow> bool \<times> 'k epoll" where
  "epoll_hint_socket ctl s e =
     (let e = (if 0 < hint_fd e
               then e\<lparr>ep_kernel := snd (ctl CTL_DEL (hint_fd e) EPOLLIN (ep_kernel e))\<rparr> else e);
          (r, e) = epoll_add ctl s EPOLLIN e
      in if r then (True, e\<lparr>hint_fd := s\<rparr>) else (False, e))"

subsection \<open>Queries, rescans and idle watch\<close>

definition in_read_set :: "int \<Rightarrow> 'k epoll \<Rightarrow> bool" where
  "in_read_set s e = (s |\<in>| in_set e)"

definition in_write_set :: "int \<Rightarrow> 'k epoll \<Rightarrow> bool" where
  "in_write_set s e = True"

definition in_idle_set :: "int \<Rightarrow> 'k epoll \<Rightarrow> bool" where
  "in_idle_set s e = (s |\<in>| idle_set e)"

definition in_idle_watched_set :: "int \<Rightarrow> 'k epoll \<Rightarrow> bool" where
  "in_idle_watched_set s e = (s |\<in>| idle_watched e)"

definition rescans_empty :: "'k epoll \<Rightarrow> bool" where
  "rescans_empty e = (rescan_set_in e = {||} \<and> rescan_set_out e = {||})"

definition rescan_in :: "'k ctl \<Rightarrow> int \<Rightarrow> int \<Rightarrow> 'k epoll \<Rightarrow> bool \<times> 'k epoll" where
  "rescan_in ctl now s e =
     (if 0 < s then
        let e = snd (epoll_del ctl s e);
            e = (if rescan_set_in e = {||} then e\<lparr>rescan_timer := now\<rparr> else e)
        in (True, e\<lparr>rescan_set_in := finsert s (rescan_set_in e)\<rparr>)
      else (False, e))"

definition rescan_out :: "'k ctl \<Rightarrow> int \<Rightarrow> int \<Rightarrow> 'k epoll \<Rightarrow> bool \<times> 'k epoll" where
  "rescan_out ctl now s e =
     (if 0 < s then
        let e = snd (epoll_del ctl s e);
            e = (if rescan_set_out e = {||} then e\<lparr>rescan_timer := now\<rparr> else e)
        in (True, e\<lparr>rescan_set_out := finsert s (rescan_set_out e)\<rparr>)
      else (False, e))"

definition enforce_in :: "int \<Rightarrow> 'k epoll \<Rightarrow> bool \<times> 'k epoll" where
  "enforce_in s e =
     (True, if 0 < s then e\<lparr>enforce_in_set := finsert s (enforce_in_set e)\<rparr> else e)"

definition set_erase :: "int \<Rightarrow> int fset \<Rightarrow> nat \<times> int fset" where
  "set_erase s A = (if s |\<in>| A then 1 else 0, A |-| {|s|})"

definition cancel_rescan_in :: "int \<Rightarrow> 'k epoll \<Rightarrow> nat \<times> 'k epoll" where
  "cancel_rescan_in s e =
     (if 0 < s then
        let (n, A) = set_erase s (rescan_set_in e) in (n, e\<lparr>rescan_set_in := A\<rparr>)
      else (0, e))"

definition cancel_rescan_out :: "int \<Rightarrow> 'k epoll \<Rightarrow> nat \<times> 'k epoll" where
  "cancel_rescan_out s e =
     (if 0 < s then
        let (n, A) = set_erase s (rescan_set_out e) in (n, e\<lparr>rescan_set_out := A\<rparr>)
      else (0, e))"

definition set_idle_watch :: "int \<Rightarrow> 'k epoll \<Rightarrow> 'k epoll" where
  "set_idle_watch s e = e\<lparr>idle_watched_pre := finsert s (idle_watched_pre e)\<rparr>"

definition clear_idle_watch :: "int \<Rightarrow> 'k epoll \<Rightarrow> nat \<times> 'k epoll" where
  "clear_idle_watch s e =
     (let (ip, A) = set_erase s (idle_watched_pre e); e = e\<lparr>idle_watched_pre := A\<rparr>
      in if ip \<le> 0 then
           let (iw, B) = set_erase s (idle_watched e) in (iw + ip, e\<lparr>idle_watched := B\<rparr>)
         else (ip, e))"

subsection \<open>Waiting\<close>

definition trunc_div :: "int \<Rightarrow> int \<Rightarrow> int" where
  "trunc_div a b = (if a < 0 then - (- a div b) else a div b)"

definition click_timer_now :: "int \<Rightarrow> 'k epoll \<Rightarrow> bool \<times> 'k epoll" where
  "click_timer_now now e =
     (let ms_diff = trunc_div (now - rescan_timer e) 1000000
      in if rescan_msec < ms_diff
         then (True, e\<lparr>rescan_timer := now, idle_counter := idle_counter e + ms_diff\<rparr>)
         else (False, e))"

definition epoll_clear :: "'k epoll \<Rightarrow> 'k epoll" where
  "epoll_clear e = e\<lparr>in_set := {||}, out_set := {||}, idle_set := {||}, err_set := {||}\<rparr>"

definition process_event :: "'k ctl \<Rightarrow> int \<times> u32 \<Rightarrow> 'k epoll \<Rightarrow> 'k epoll" where
  "process_event ctl ev e =
     (let (s, m) = ev
      in if m AND EPOLLIN \<noteq> 0 then
           snd (clear_idle_watch s (e\<lparr>in_set := finsert s (in_set e)\<rparr>))
         else if m AND EPOLLOUT \<noteq> 0 then
           let e = snd (clear_idle_watch s (e\<lparr>out_set := finsert s (out_set e)\<rparr>))
           in if auto_epollout_remove e then snd (epoll_modify ctl s EPOLLIN e) else e
         else if m AND EPOLLERR \<noteq> 0 \<or> m AND EPOLLHUP \<noteq> 0 then
           e\<lparr>err_set := finsert s (err_set e)\<rparr>
         else e\<lparr>err_set := finsert s (err_set e)\<rparr>)"

text \<open>\<open>n\<close> entries of the array are processed; it has no more than \<open>EPOLLER_MAX_EVENTS\<close>.\<close>

definition process_epoll_events :: "'k ctl \<Rightarrow> int \<Rightarrow> 'k epoll \<Rightarrow> (int \<times> 'k epoll) result" where
  "process_epoll_events ctl n e =
     (if int EPOLLER_MAX_EVENTS < n then raise Undefined_behaviour
      else ok (max n 0, fold (process_event ctl) (take (nat n) (events e)) e))"

definition process_pre_wait_idles :: "'k epoll \<Rightarrow> 'k epoll" where
  "process_pre_wait_idles e =
     (if idle_timeout_ms e < idle_counter e then
        let e = e\<lparr>idle_counter := 0, idle_round := \<not> idle_round e\<rparr>
        in if \<not> idle_round e
           then e\<lparr>idle_watched := idle_watched e |\<union>| idle_watched_pre e, idle_watched_pre := {||}\<rparr>
           else e\<lparr>idle_set := idle_set e |\<union>| idle_watched e, idle_watched := {||}\<rparr>
      else e)"

definition add_all :: "'k ctl \<Rightarrow> u32 \<Rightarrow> int fset \<Rightarrow> 'k epoll \<Rightarrow> 'k epoll" where
  "add_all ctl msk A e = fold (\<lambda>s e. snd (epoll_add ctl s msk e)) (sorted_list_of_fset A) e"

definition process_pre_wait_rescans :: "'k ctl \<Rightarrow> 'k epoll \<Rightarrow> 'k epoll" where
  "process_pre_wait_rescans ctl e =
     (let e = (add_all ctl EPOLLIN (rescan_set_in e) e)\<lparr>rescan_set_in := {||}\<rparr>
      in (add_all ctl (EPOLLIN OR EPOLLOUT) (rescan_set_out e) e)\<lparr>rescan_set_out := {||}\<rparr>)"

definition enforced_to_inset :: "'k epoll \<Rightarrow> 'k epoll" where
  "enforced_to_inset e =
     e\<lparr>in_set := in_set e |\<union>| enforce_in_set e, enforce_in_set := {||}\<rparr>"

fun wait_loop :: "'k ctl \<Rightarrow> wait_answer list \<Rightarrow> int \<Rightarrow> 'k epoll \<Rightarrow> (int \<times> 'k epoll) result option" where
  "wait_loop ctl [] nfds e = None"
| "wait_loop ctl (Interrupted # as) nfds e = Some (ok (nfds, e))"
| "wait_loop ctl (Wait_failed # as) nfds e = Some (ok (- 1, e))"
| "wait_loop ctl (Ready evs # as) nfds e =
     (let e = e\<lparr>events := evs @ drop (length evs) (events e)\<rparr>; nfds = nfds + int (length evs)
      in case process_epoll_events ctl nfds e of
           Inl x \<Rightarrow> Some (Inl x)
         | Inr (_, e) \<Rightarrow>
             if length evs = EPOLLER_MAX_EVENTS then wait_loop ctl as nfds e
             else Some (ok (nfds, enforced_to_inset e)))"

definition epoll_wait :: "'k ctl \<Rightarrow> int \<Rightarrow> wait_answer list \<Rightarrow> 'k epoll \<Rightarrow> (int \<times> 'k epoll) result option"
  where
  "epoll_wait ctl now as e =
     (let (clicked, e) = click_timer_now now (epoll_clear e);
          e = (if clicked then process_pre_wait_idles (process_pre_wait_rescans ctl e) else e)
      in wait_loop ctl as 0 e)"

section \<open>The poller holder and its handlers\<close>

record 'k kernel_api =
  api_ctl :: "'k ctl"
  api_create :: int
  api_new :: 'k

record 'k epoller =
  poller :: "'k epoll option"
  handler_db :: "int \<rightharpoonup> nat \<times> nat option"

record epoll_handler =
  registrant :: "nat option"
  registered_sockets :: "int fset"

text \<open>The store: pollers by number, live handlers by number, the descriptors closed so far, the
  pollers already destroyed. An entry
  of \<open>handler_db\<close> is the call counter and the handler (\<open>None\<close> for a null pointer).\<close>

record 'k net =
  n_pollers :: "nat \<Rightarrow> 'k epoller"
  n_handlers :: "nat \<rightharpoonup> epoll_handler"
  n_closed :: "int list"
  n_gone :: "nat list"

definition init_if_null :: "'k kernel_api \<Rightarrow> int \<Rightarrow> 'k epoller \<Rightarrow> 'k epoller result" where
  "init_if_null api now p =
     (case poller p of
        Some _ \<Rightarrow> ok p
      | None \<Rightarrow>
          let (r, e) = epoll_init now (api_create api) (new_epoll (api_new api))
          in if r < 0 then raise Process_exit else ok (p\<lparr>poller := Some e\<rparr>))"

text \<open>Every forwarding method of \<open>epoller\<close> has this shape: initialise, forward, keep the result.\<close>

definition forward :: "'k kernel_api \<Rightarrow> int \<Rightarrow> ('k epoll \<Rightarrow> 'a \<times> 'k epoll) \<Rightarrow> 'a \<Rightarrow> nat \<Rightarrow> 'k net \<Rightarrow>
    ('a \<times> 'k net) result" where
  "forward api now f dflt i n =
     (case init_if_null api now (n_pollers n i) of
        Inl x \<Rightarrow> Inl x
      | Inr p \<Rightarrow>
          (case poller p of
             None \<Rightarrow> ok (dflt, n\<lparr>n_pollers := (n_pollers n)(i := p)\<rparr>)
           | Some e \<Rightarrow>
               let (r, e) = f e
               in ok (r, n\<lparr>n_pollers := (n_pollers n)(i := p\<lparr>poller := Some e\<rparr>)\<rparr>)))"

definition poller_add :: "'k kernel_api \<Rightarrow> int \<Rightarrow> nat \<Rightarrow> int \<Rightarrow> u32 \<Rightarrow> 'k net \<Rightarrow> (bool \<times> 'k net) result" where
  "poller_add api now i s m = forward api now (epoll_add (api_ctl api) s m) False i"

definition poller_modify :: "'k kernel_api \<Rightarrow> int \<Rightarrow> nat \<Rightarrow> int \<Rightarrow> u32 \<Rightarrow> 'k net \<Rightarrow> (bool \<times> 'k net) result" where
  "poller_modify api now i s m = forward api now (epoll_modify (api_ctl api) s m) False i"

definition poller_rescans_empty :: "'k kernel_api \<Rightarrow> int \<Rightarrow> nat \<Rightarrow> 'k net \<Rightarrow> (bool \<times> 'k net) result" where
  "poller_rescans_empty api now i = forward api now (\<lambda>e. (rescans_empty e, e)) True i"

definition poller_rescan_in :: "'k kernel_api \<Rightarrow> int \<Rightarrow> nat \<Rightarrow> int \<Rightarrow> 'k net \<Rightarrow> (bool \<times> 'k net) result" where
  "poller_rescan_in api now i s = forward api now (rescan_in (api_ctl api) now s) False i"

definition poller_rescan_out :: "'k kernel_api \<Rightarrow> int \<Rightarrow> nat \<Rightarrow> int \<Rightarrow> 'k net \<Rightarrow> (bool \<times> 'k net) result" where
  "poller_rescan_out api now i s = forward api now (rescan_out (api_ctl api) now s) False i"

definition poller_enforce_in :: "'k kernel_api \<Rightarrow> int \<Rightarrow> nat \<Rightarrow> int \<Rightarrow> 'k net \<Rightarrow> (bool \<times> 'k net) result" where
  "poller_enforce_in api now i s = forward api now (enforce_in s) False i"

definition poller_cancel_rescan_in :: "'k kernel_api \<Rightarrow> int \<Rightarrow> nat \<Rightarrow> int \<Rightarrow> 'k net \<Rightarrow> (nat \<times> 'k net) result" where
  "poller_cancel_rescan_in api now i s = forward api now (cancel_rescan_in s) 0 i"

definition poller_cancel_rescan_out :: "'k kernel_api \<Rightarrow> int \<Rightarrow> nat \<Rightarrow> int \<Rightarrow> 'k net \<Rightarrow> (nat \<times> 'k net) result" where
  "poller_cancel_rescan_out api now i s = forward api now (cancel_rescan_out s) 0 i"

definition poller_click_timer_now :: "'k kernel_api \<Rightarrow> int \<Rightarrow> nat \<Rightarrow> 'k net \<Rightarrow> (bool \<times> 'k net) result" where
  "poller_click_timer_now api now i = forward api now (click_timer_now now) False i"

definition poller_hint_socket :: "'k kernel_api \<Rightarrow> int \<Rightarrow> nat \<Rightarrow> int \<Rightarrow> 'k net \<Rightarrow> (bool \<times> 'k net) result" where
  "poller_hint_socket api now i s = forward api now (epoll_hint_socket (api_ctl api) s) False i"

definition poller_in_read_set :: "'k kernel_api \<Rightarrow> int \<Rightarrow> nat \<Rightarrow> int \<Rightarrow> 'k net \<Rightarrow> (bool \<times> 'k net) result" where
  "poller_in_read_set api now i s = forward api now (\<lambda>e. (in_read_set s e, e)) False i"

definition poller_in_write_set :: "'k kernel_api \<Rightarrow> int \<Rightarrow> nat \<Rightarrow> int \<Rightarrow> 'k net \<Rightarrow> (bool \<times> 'k net) result" where
  "poller_in_write_set api now i s = forward api now (\<lambda>e. (in_write_set s e, e)) False i"

definition poller_in_idle_set :: "'k kernel_api \<Rightarrow> int \<Rightarrow> nat \<Rightarrow> int \<Rightarrow> 'k net \<Rightarrow> (bool \<times> 'k net) result" where
  "poller_in_idle_set api now i s = forward api now (\<lambda>e. (in_idle_set s e, e)) False i"

definition poller_set_idle_watch :: "'k kernel_api \<Rightarrow> int \<Rightarrow> nat \<Rightarrow> int \<Rightarrow> 'k net \<Rightarrow> (unit \<times> 'k net) result" where
  "poller_set_idle_watch api now i s = forward api now (\<lambda>e. ((), set_idle_watch s e)) () i"

definition poller_clear_idle_watch :: "'k kernel_api \<Rightarrow> int \<Rightarrow> nat \<Rightarrow> int \<Rightarrow> 'k net \<Rightarrow> (unit \<times> 'k net) result" where
  "poller_clear_idle_watch api now i s = forward api now (\<lambda>e. ((), snd (clear_idle_watch s e))) () i"

definition poller_wait :: "'k kernel_api \<Rightarrow> int \<Rightarrow> nat \<Rightarrow> wait_answer list \<Rightarrow> 'k net \<Rightarrow>
    (int \<times> 'k net) result option" where
  "poller_wait api now i as n =
     (case init_if_null api now (n_pollers n i) of
        Inl x \<Rightarrow> Some (Inl x)
      | Inr p \<Rightarrow>
          (case poller p of
             None \<Rightarrow> Some (ok (0, n\<lparr>n_pollers := (n_pollers n)(i := p)\<rparr>))
           | Some e \<Rightarrow>
               (case epoll_wait (api_ctl api) now as e of
                  None \<Rightarrow> None
                | Some (Inl x) \<Rightarrow> Some (Inl x)
                | Some (Inr (r, e)) \<Rightarrow>
                    Some (ok (r, n\<lparr>n_pollers := (n_pollers n)(i := p\<lparr>poller := Some e\<rparr>)\<rparr>)))))"

subsection \<open>Handlers\<close>

definition get_handler :: "nat \<Rightarrow> int \<Rightarrow> 'k net \<Rightarrow> nat option" where
  "get_handler i s n = (case handler_db (n_pollers n i) s of None \<Rightarrow> None | Some (_, h) \<Rightarrow> h)"

definition clear_handler :: "nat \<Rightarrow> int \<Rightarrow> 'k net \<Rightarrow> 'k net" where
  "clear_handler i s n =
     (let p = n_pollers n i;
          p = p\<lparr>handler_db := (handler_db p)(s := None)\<rparr>;
          p = p\<lparr>poller := map_option
                 (\<lambda>e. let e = e\<lparr>rescan_set_in := snd (set_erase s (rescan_set_in e))\<rparr>;
                          e = e\<lparr>rescan_set_out := snd (set_erase s (rescan_set_out e))\<rparr>
                      in snd (clear_idle_watch s e)) (poller p)\<rparr>
      in n\<lparr>n_pollers := (n_pollers n)(i := p)\<rparr>)"

text \<open>\<^verbatim>\<open>handler_db[s].handler = h\<close>: an entry that did not exist starts with a zero counter.\<close>

definition db_put :: "nat \<Rightarrow> int \<Rightarrow> nat \<Rightarrow> 'k net \<Rightarrow> 'k net" where
  "db_put i s h n =
     (let p = n_pollers n i;
          c = (case handler_db p s of None \<Rightarrow> 0 | Some (c, _) \<Rightarrow> c)
      in n\<lparr>n_pollers := (n_pollers n)(i := p\<lparr>handler_db := (handler_db p)(s \<mapsto> (c, Some h))\<rparr>)\<rparr>)"

definition db_move :: "nat \<Rightarrow> nat \<Rightarrow> int \<Rightarrow> 'k net \<Rightarrow> 'k net" where
  "db_move i h s n =
     (let p = n_pollers n i
      in n\<lparr>n_pollers := (n_pollers n)(i := p\<lparr>handler_db := (handler_db p)(s \<mapsto> (0, Some h))\<rparr>)\<rparr>)"

definition set_handler :: "nat \<Rightarrow> int \<Rightarrow> nat option \<Rightarrow> 'k net \<Rightarrow> 'k net result" where
  "set_handler i s hp n =
     (case hp of
        None \<Rightarrow> ok (clear_handler i s n)
      | Some h \<Rightarrow>
          let n = db_put i s h n
          in case n_handlers n h of
               None \<Rightarrow> raise Undefined_behaviour
             | Some H \<Rightarrow>
                 let n = (if registrant H \<noteq> None \<and> registrant H \<noteq> Some i
                          then fold (db_move i h) (sorted_list_of_fset (registered_sockets H)) n else n);
                     H = H\<lparr>registrant := Some i, registered_sockets := finsert s (registered_sockets H)\<rparr>
                 in ok (n\<lparr>n_handlers := (n_handlers n)(h \<mapsto> H)\<rparr>))"

definition new_handler :: "nat \<Rightarrow> 'k net \<Rightarrow> 'k net" where
  "new_handler h n = n\<lparr>n_handlers := (n_handlers n)(h \<mapsto> \<lparr>registrant = None, registered_sockets = {||}\<rparr>)\<rparr>"

text \<open>The two destructors: of a handler, and of the holder.\<close>

definition unregister :: "nat \<Rightarrow> nat \<Rightarrow> int \<Rightarrow> 'k net \<Rightarrow> 'k net" where
  "unregister i h s n = (if get_handler i s n = Some h then clear_handler i s n else n)"

definition delete_handler :: "nat \<Rightarrow> 'k net \<Rightarrow> 'k net result" where
  "delete_handler h n =
     (case n_handlers n h of
        None \<Rightarrow> raise Undefined_behaviour
      | Some H \<Rightarrow>
          if \<exists>i\<in>set (n_gone n). registrant H = Some i then raise Undefined_behaviour
          else
          let n = (case registrant H of
                     None \<Rightarrow> n
                   | Some i \<Rightarrow> fold (unregister i h) (sorted_list_of_fset (registered_sockets H)) n)
          in ok (n\<lparr>n_handlers := (n_handlers n)(h := None)\<rparr>))"

definition delete_epoller :: "nat \<Rightarrow> 'k net \<Rightarrow> 'k net result" where
  "delete_epoller i n =
     (let hs = {h. \<exists>s c. handler_db (n_pollers n i) s = Some (c, h)}
      in if \<exists>h\<in>hs. h = None \<or> n_handlers n (the h) = None then raise Undefined_behaviour
         else ok (n\<lparr>n_handlers :=
                 (\<lambda>h. if Some h \<in> hs then map_option (registrant_update (\<lambda>_. None)) (n_handlers n h)
                      else n_handlers n h),
               n_pollers := (n_pollers n)(i := \<lparr>poller = None, handler_db = (\<lambda>_. None)\<rparr>),
               n_gone := i # n_gone n\<rparr>))"

section \<open>What a communication object asks of the poller of its master\<close>

text \<open>\<open>i\<close> is the poller of \<^verbatim>\<open>master()\<close>; \<open>tr\<close> is the master's \<^verbatim>\<open>translate_socket\<close>, which maps
  negative (virtual) sockets to real ones.\<close>

definition real_socket :: "(int \<Rightarrow> int) \<Rightarrow> int \<Rightarrow> int" where
  "real_socket tr xs = (if xs < 0 then tr xs else xs)"

definition on_real :: "(int \<Rightarrow> int) \<Rightarrow> int \<Rightarrow> (int \<Rightarrow> 'k net \<Rightarrow> ('a \<times> 'k net) result) \<Rightarrow> 'k net \<Rightarrow> 'k net result"
  where
  "on_real tr xs f n =
     (let s = real_socket tr xs in if 0 < s then map_sum id snd (f s n) else ok n)"

definition com_set_monitor :: "'k kernel_api \<Rightarrow> (int \<Rightarrow> int) \<Rightarrow> int \<Rightarrow> nat \<Rightarrow> int \<Rightarrow> 'k net \<Rightarrow> 'k net result" where
  "com_set_monitor api tr now i xs = on_real tr xs (\<lambda>s. poller_add api now i s EPOLLIN)"

definition com_set_enforce :: "'k kernel_api \<Rightarrow> (int \<Rightarrow> int) \<Rightarrow> int \<Rightarrow> nat \<Rightarrow> int \<Rightarrow> 'k net \<Rightarrow> 'k net result" where
  "com_set_enforce api tr now i xs = on_real tr xs (poller_enforce_in api now i)"

definition com_set_write_monitor :: "'k kernel_api \<Rightarrow> (int \<Rightarrow> int) \<Rightarrow> int \<Rightarrow> nat \<Rightarrow> int \<Rightarrow> 'k net \<Rightarrow> 'k net result"
  where
  "com_set_write_monitor api tr now i xs =
     on_real tr xs (\<lambda>s. poller_modify api now i s (EPOLLIN OR EPOLLOUT))"

definition com_set_write_monitor_only ::
    "'k kernel_api \<Rightarrow> (int \<Rightarrow> int) \<Rightarrow> int \<Rightarrow> nat \<Rightarrow> int \<Rightarrow> 'k net \<Rightarrow> 'k net result" where
  "com_set_write_monitor_only api tr now i xs =
     on_real tr xs (\<lambda>s. poller_modify api now i s EPOLLOUT)"

definition com_change_monitor ::
    "'k kernel_api \<Rightarrow> (int \<Rightarrow> int) \<Rightarrow> int \<Rightarrow> nat \<Rightarrow> int \<Rightarrow> u32 \<Rightarrow> 'k net \<Rightarrow> 'k net result" where
  "com_change_monitor api tr now i xs m = on_real tr xs (\<lambda>s. poller_modify api now i s m)"

definition poller_del :: "'k kernel_api \<Rightarrow> int \<Rightarrow> nat \<Rightarrow> int \<Rightarrow> 'k net \<Rightarrow> (bool \<times> 'k net) result" where
  "poller_del api now i s n =
     (case init_if_null api now (n_pollers n i) of
        Inl x \<Rightarrow> Inl x
      | Inr p \<Rightarrow>
          let n = n\<lparr>n_pollers := (n_pollers n)(i := p)\<rparr>
          in case poller p of
               None \<Rightarrow> ok (False, clear_handler i s n)
             | Some e \<Rightarrow>
                 let (r, e) = epoll_del (api_ctl api) s e
                 in ok (r, n\<lparr>n_pollers := (n_pollers n)(i := p\<lparr>poller := Some e\<rparr>)\<rparr>))"

definition com_unset_monitor :: "'k kernel_api \<Rightarrow> (int \<Rightarrow> int) \<Rightarrow> int \<Rightarrow> nat \<Rightarrow> int \<Rightarrow> 'k net \<Rightarrow> 'k net result" where
  "com_unset_monitor api tr now i xs =
     on_real tr xs (\<lambda>s n.
       case poller_del api now i s n of
         Inl x \<Rightarrow> Inl x
       | Inr (_, n) \<Rightarrow>
           (case poller_cancel_rescan_in api now i s n of
              Inl x \<Rightarrow> Inl x
            | Inr (_, n) \<Rightarrow> poller_cancel_rescan_out api now i s n))"

definition com_set_poll_handler :: "(int \<Rightarrow> int) \<Rightarrow> nat \<Rightarrow> int \<Rightarrow> nat option \<Rightarrow> 'k net \<Rightarrow> 'k net result" where
  "com_set_poll_handler tr i xs h n =
     (case set_handler i (real_socket tr xs) h n of
        Inl x \<Rightarrow> Inl x
      | Inr n \<Rightarrow> if xs < 0 then set_handler i xs h n else ok n)"

definition com_get_poll_handler :: "nat \<Rightarrow> int \<Rightarrow> 'k net \<Rightarrow> nat option" where
  "com_get_poll_handler i s n = get_handler i s n"

definition com_set_idle_watch :: "'k kernel_api \<Rightarrow> (int \<Rightarrow> int) \<Rightarrow> int \<Rightarrow> nat \<Rightarrow> int \<Rightarrow> 'k net \<Rightarrow> 'k net result" where
  "com_set_idle_watch api tr now i xs = on_real tr xs (poller_set_idle_watch api now i)"

definition com_clear_idle_watch :: "'k kernel_api \<Rightarrow> (int \<Rightarrow> int) \<Rightarrow> int \<Rightarrow> nat \<Rightarrow> int \<Rightarrow> 'k net \<Rightarrow> 'k net result"
  where
  "com_clear_idle_watch api tr now i xs = on_real tr xs (poller_clear_idle_watch api now i)"

definition com_rescan_read :: "'k kernel_api \<Rightarrow> (int \<Rightarrow> int) \<Rightarrow> int \<Rightarrow> nat \<Rightarrow> int \<Rightarrow> 'k net \<Rightarrow> 'k net result" where
  "com_rescan_read api tr now i xs = on_real tr xs (poller_rescan_in api now i)"

definition com_rescan_write :: "'k kernel_api \<Rightarrow> (int \<Rightarrow> int) \<Rightarrow> int \<Rightarrow> nat \<Rightarrow> int \<Rightarrow> 'k net \<Rightarrow> 'k net result" where
  "com_rescan_write api tr now i xs = on_real tr xs (poller_rescan_out api now i)"

text \<open>\<^verbatim>\<open>baseCom::poll\<close>: the time it may block, and the result of the wait.\<close>

definition com_poll :: "'k kernel_api \<Rightarrow> int \<Rightarrow> nat \<Rightarrow> wait_answer list \<Rightarrow> 'k net \<Rightarrow>
    (int \<times> int \<times> 'k net) result option" where
  "com_poll api now i as n =
     (case poller_rescans_empty api now i n of
        Inl x \<Rightarrow> Some (Inl x)
      | Inr (b, n) \<Rightarrow>
          let wait_time = (if b then poll_msec else rescan_msec)
          in (case poller_wait api now i as n of
                None \<Rightarrow> None
              | Some (Inl x) \<Rightarrow> Some (Inl x)
              | Some (Inr (r, n)) \<Rightarrow> Some (ok (wait_time, r, n))))"

subsection \<open>Socket states\<close>

definition SS_NONE :: int where "SS_NONE = - 1"
definition SS_CLOSING :: int where "SS_CLOSING = 0"
definition SS_OPENING :: int where "SS_OPENING = 1"

record socket_state =
  ss_socket :: int
  ss_handler :: "nat option"
  ss_com :: "nat option"
  ss_state :: int
  ss_owner :: bool

definition new_socket_state :: socket_state where
  "new_socket_state =
     \<lparr>ss_socket = 0, ss_handler = None, ss_com = None, ss_state = SS_NONE, ss_owner = True\<rparr>"

definition ss_set :: "int \<Rightarrow> nat option \<Rightarrow> nat option \<Rightarrow> bool \<Rightarrow> socket_state \<Rightarrow> socket_state" where
  "ss_set s h c own ss = ss\<lparr>ss_socket := s, ss_handler := h, ss_com := c, ss_owner := own\<rparr>"

definition ss_update :: "'k kernel_api \<Rightarrow> (int \<Rightarrow> int) \<Rightarrow> int \<Rightarrow> int \<Rightarrow> socket_state \<times> 'k net \<Rightarrow>
    (socket_state \<times> 'k net) result" where
  "ss_update api tr now st ssn =
     (let (ss, n) = ssn
      in case ss_com ss of
           None \<Rightarrow> ok (ss\<lparr>ss_state := st\<rparr>, n)
         | Some i \<Rightarrow>
             if ss_socket ss = 0 then ok (ss\<lparr>ss_state := st\<rparr>, n)
             else if st = SS_CLOSING then
               (case com_unset_monitor api tr now i (ss_socket ss) n of
                  Inl x \<Rightarrow> Inl x
                | Inr n \<Rightarrow>
                    (case com_set_poll_handler tr i (ss_socket ss) None n of
                       Inl x \<Rightarrow> Inl x
                     | Inr n \<Rightarrow>
                         if ss_owner ss
                         then ok (ss\<lparr>ss_socket := 0, ss_state := SS_NONE\<rparr>,
                                  n\<lparr>n_closed := n_closed n @ [ss_socket ss]\<rparr>)
                         else ok (ss\<lparr>ss_state := SS_NONE\<rparr>, n)))
             else if st = SS_OPENING then
               (case com_set_write_monitor api tr now i (ss_socket ss) n of
                  Inl x \<Rightarrow> Inl x
                | Inr n \<Rightarrow>
                    (case com_set_poll_handler tr i (ss_socket ss) (ss_handler ss) n of
                       Inl x \<Rightarrow> Inl x
                     | Inr n \<Rightarrow> map_sum id (Pair ss) (com_set_idle_watch api tr now i (ss_socket ss) n)))
             else ok (ss\<lparr>ss_state := st\<rparr>, n))"

definition ss_opening :: "'k kernel_api \<Rightarrow> (int \<Rightarrow> int) \<Rightarrow> int \<Rightarrow> socket_state \<times> 'k net \<Rightarrow>
    (socket_state \<times> 'k net) result" where
  "ss_opening api tr now = ss_update api tr now SS_OPENING"

definition ss_closing :: "'k kernel_api \<Rightarrow> (int \<Rightarrow> int) \<Rightarrow> int \<Rightarrow> socket_state \<times> 'k net \<Rightarrow>
    (socket_state \<times> 'k net) result" where
  "ss_closing api tr now = ss_update api tr now SS_CLOSING"

definition ss_mon :: "'k kernel_api \<Rightarrow> (int \<Rightarrow> int) \<Rightarrow> int \<Rightarrow> u32 \<Rightarrow> socket_state \<Rightarrow> 'k net \<Rightarrow> 'k net result" where
  "ss_mon api tr now m ss n =
     (case ss_com ss of
        None \<Rightarrow> ok n
      | Some i \<Rightarrow>
          if ss_socket ss = 0 then ok n else com_change_monitor api tr now i (ss_socket ss) m n)"

definition ss_mon_read :: "'k kernel_api \<Rightarrow> (int \<Rightarrow> int) \<Rightarrow> int \<Rightarrow> socket_state \<Rightarrow> 'k net \<Rightarrow> 'k net result" where
  "ss_mon_read api tr now = ss_mon api tr now EPOLLIN"

definition ss_mon_write :: "'k kernel_api \<Rightarrow> (int \<Rightarrow> int) \<Rightarrow> int \<Rightarrow> socket_state \<Rightarrow> 'k net \<Rightarrow> 'k net result" where
  "ss_mon_write api tr now = ss_mon api tr now EPOLLOUT"

definition ss_mon_none :: "'k kernel_api \<Rightarrow> (int \<Rightarrow> int) \<Rightarrow> int \<Rightarrow> socket_state \<Rightarrow> 'k net \<Rightarrow> 'k net result" where
  "ss_mon_none api tr now ss n =
     (case ss_com ss of
        None \<Rightarrow> ok n
      | Some i \<Rightarrow>
          if ss_socket ss = 0 then ok n else com_unset_monitor api tr now i (ss_socket ss) n)"

definition delete_socket_state :: "socket_state \<Rightarrow> 'k net \<Rightarrow> 'k net" where
  "delete_socket_state ss n =
     (if ss_owner ss \<and> 0 < ss_socket ss then n\<lparr>n_closed := n_closed n @ [ss_socket ss]\<rparr> else n)"

section \<open>What the kernel promises\<close>

text \<open>The manual page of \<^verbatim>\<open>epoll_ctl\<close>, for an interest list observed by \<open>mon\<close>: adding fails with
  \<^verbatim>\<open>EEXIST\<close> when the descriptor is registered, modifying and deleting with \<^verbatim>\<open>ENOENT\<close> when it is not,
  other descriptors are never touched. \<open>valid\<close> are the descriptors that can be polled at all.\<close>

definition ctl_laws :: "'k ctl \<Rightarrow> ('k \<Rightarrow> int \<Rightarrow> u32 option) \<Rightarrow> (int \<Rightarrow> bool) \<Rightarrow> bool" where
  "ctl_laws ctl mon valid \<longleftrightarrow>
     (\<forall>op s m k t. t \<noteq> s \<longrightarrow> mon (snd (ctl op s m k)) t = mon k t) \<and>
     (\<forall>s m k. valid s \<longrightarrow>
        (mon k s = None \<longrightarrow> fst (ctl CTL_ADD s m k) = None \<and> mon (snd (ctl CTL_ADD s m k)) s = Some m) \<and>
        (mon k s \<noteq> None \<longrightarrow>
           fst (ctl CTL_ADD s m k) = Some EEXIST \<and> mon (snd (ctl CTL_ADD s m k)) s = mon k s) \<and>
        (mon k s = None \<longrightarrow>
           fst (ctl CTL_MOD s m k) = Some ENOENT \<and> mon (snd (ctl CTL_MOD s m k)) s = None) \<and>
        (mon k s \<noteq> None \<longrightarrow> fst (ctl CTL_MOD s m k) = None \<and> mon (snd (ctl CTL_MOD s m k)) s = Some m) \<and>
        mon (snd (ctl CTL_DEL s m k)) s = None)"

text \<open>The interest list of the manual page, as a map: the kernel the examples run on.\<close>

fun map_ctl :: "(int \<rightharpoonup> u32) ctl" where
  "map_ctl CTL_ADD s m k = (case k s of None \<Rightarrow> (None, k(s \<mapsto> m)) | Some _ \<Rightarrow> (Some EEXIST, k))"
| "map_ctl CTL_MOD s m k = (case k s of None \<Rightarrow> (Some ENOENT, k) | Some _ \<Rightarrow> (None, k(s \<mapsto> m)))"
| "map_ctl CTL_DEL s m k = (case k s of None \<Rightarrow> (Some ENOENT, k) | Some _ \<Rightarrow> (None, k(s := None)))"

lemma map_ctl_laws: "ctl_laws map_ctl (\<lambda>k. k) (\<lambda>s. True)"
  unfolding ctl_laws_def by (auto split: option.splits) (case_tac op; auto split: option.splits)

lemma ctl_other: "ctl_laws ctl mon valid \<Longrightarrow> t \<noteq> s \<Longrightarrow> mon (snd (ctl op s m k)) t = mon k t"
  unfolding ctl_laws_def by blast

lemma add_monitors:
  assumes "ctl_laws ctl mon valid" and "valid s"
  shows "mon (ep_kernel (snd (epoll_add ctl t m e))) s =
    (if s = t \<and> mon (ep_kernel e) s = None then Some m else mon (ep_kernel e) s)"
proof (cases "s = t")
  case True
  then show ?thesis
    using assms unfolding ctl_laws_def epoll_add_def
    by (cases "mon (ep_kernel e) s") (auto simp: Let_def split_beta)
next
  case False
  then show ?thesis
    using ctl_other [OF assms(1), of s t] unfolding epoll_add_def by (auto simp: Let_def split_beta)
qed

lemma modify_monitors:
  assumes "ctl_laws ctl mon valid" and "valid s"
  shows "mon (ep_kernel (snd (epoll_modify ctl t m e))) s = (if s = t then Some m else mon (ep_kernel e) s)"
proof (cases "s = t")
  case True
  then show ?thesis
    using assms unfolding ctl_laws_def epoll_modify_def epoll_add_def
    by (cases "mon (ep_kernel e) s") (auto simp: Let_def split_beta split: option.splits)
next
  case False
  then show ?thesis
    using ctl_other [OF assms(1), of s t] unfolding epoll_modify_def epoll_add_def
    by (auto simp: Let_def split_beta split: option.splits)
qed

lemma del_monitors:
  assumes "ctl_laws ctl mon valid" and "valid s"
  shows "mon (ep_kernel (snd (epoll_del ctl t e))) s = (if s = t then None else mon (ep_kernel e) s)"
  using assms ctl_other [OF assms(1), of s t] unfolding ctl_laws_def epoll_del_def
  by (auto simp: Let_def split_beta)

subsection \<open>What each operation leaves alone\<close>

named_theorems epoll_frame \<open>fields an operation of the poller does not touch\<close>

lemma only_kernel:
  "\<exists>k. snd (epoll_add ctl s m e) = e\<lparr>ep_kernel := k\<rparr>"
  "\<exists>k. snd (epoll_modify ctl s m e) = e\<lparr>ep_kernel := k\<rparr>"
  "\<exists>k. snd (epoll_del ctl s e) = e\<lparr>ep_kernel := k\<rparr>"
  by (auto simp: epoll_add_def epoll_modify_def epoll_del_def split_beta Let_def split: option.splits)

lemma kernel_frame:
  assumes "\<exists>k. e' = e\<lparr>ep_kernel := k\<rparr>"
  shows "in_set e' = in_set e" "out_set e' = out_set e" "err_set e' = err_set e"
    "enforce_in_set e' = enforce_in_set e" "rescan_set_in e' = rescan_set_in e"
    "rescan_set_out e' = rescan_set_out e" "hint_fd e' = hint_fd e" "events e' = events e"
    "idle_watched_pre e' = idle_watched_pre e" "idle_watched e' = idle_watched e"
    "idle_set e' = idle_set e" "auto_epollout_remove e' = auto_epollout_remove e"
    "rescan_timer e' = rescan_timer e"
  using assms by auto

lemmas add_frame [epoll_frame] = kernel_frame [OF only_kernel(1)]
lemmas modify_frame [epoll_frame] = kernel_frame [OF only_kernel(2)]
lemmas del_frame [epoll_frame] = kernel_frame [OF only_kernel(3)]

lemma idle_frame [epoll_frame]:
  "ep_kernel (snd (clear_idle_watch s e)) = ep_kernel e"
  "in_set (snd (clear_idle_watch s e)) = in_set e"
  "out_set (snd (clear_idle_watch s e)) = out_set e"
  "err_set (snd (clear_idle_watch s e)) = err_set e"
  "enforce_in_set (snd (clear_idle_watch s e)) = enforce_in_set e"
  "rescan_set_in (snd (clear_idle_watch s e)) = rescan_set_in e"
  "rescan_set_out (snd (clear_idle_watch s e)) = rescan_set_out e"
  "hint_fd (snd (clear_idle_watch s e)) = hint_fd e"
  "events (snd (clear_idle_watch s e)) = events e"
  "idle_set (snd (clear_idle_watch s e)) = idle_set e"
  "auto_epollout_remove (snd (clear_idle_watch s e)) = auto_epollout_remove e"
  by (simp_all add: clear_idle_watch_def split_beta Let_def)

lemma process_event_frame [epoll_frame]:
  "enforce_in_set (process_event ctl ev e) = enforce_in_set e"
  "rescan_set_in (process_event ctl ev e) = rescan_set_in e"
  "rescan_set_out (process_event ctl ev e) = rescan_set_out e"
  "hint_fd (process_event ctl ev e) = hint_fd e"
  "events (process_event ctl ev e) = events e"
  "idle_set (process_event ctl ev e) = idle_set e"
  by (simp_all add: process_event_def split_beta Let_def epoll_frame)

definition readable_event :: "u32 \<Rightarrow> bool" where
  "readable_event m = (m AND EPOLLIN \<noteq> 0)"

definition writable_event :: "u32 \<Rightarrow> bool" where
  "writable_event m = (m AND EPOLLIN = 0 \<and> m AND EPOLLOUT \<noteq> 0)"

definition with_event :: "(u32 \<Rightarrow> bool) \<Rightarrow> (int \<times> u32) list \<Rightarrow> int fset" where
  "with_event p evs = fset_of_list (map fst (filter (\<lambda>(s, m). p m) evs))"

lemma process_event_sets:
  "in_set (process_event ctl ev e) = in_set e |\<union>| with_event readable_event [ev]"
  "out_set (process_event ctl ev e) = out_set e |\<union>| with_event writable_event [ev]"
  "err_set (process_event ctl ev e) =
     err_set e |\<union>| with_event (\<lambda>m. \<not> readable_event m \<and> \<not> writable_event m) [ev]"
  by (auto simp: process_event_def split_beta Let_def epoll_frame with_event_def readable_event_def
      writable_event_def)

lemma with_event_Cons: "with_event p (ev # evs) = with_event p [ev] |\<union>| with_event p evs"
  by (auto simp: with_event_def)

lemma process_events_sets:
  "in_set (fold (process_event ctl) evs e) = in_set e |\<union>| with_event readable_event evs"
  "out_set (fold (process_event ctl) evs e) = out_set e |\<union>| with_event writable_event evs"
  "err_set (fold (process_event ctl) evs e) =
     err_set e |\<union>| with_event (\<lambda>m. \<not> readable_event m \<and> \<not> writable_event m) evs"
proof (induction evs arbitrary: e)
  case (Cons ev evs)
  note c = with_event_Cons [of _ ev evs]
  { case 1 show ?case by (simp add: Cons c process_event_sets funion_assoc) }
  { case 2 show ?case by (simp add: Cons c process_event_sets funion_assoc) }
  { case 3 show ?case by (simp add: Cons c process_event_sets funion_assoc) }
qed (simp_all add: with_event_def)

lemma process_events_frame [epoll_frame]:
  "enforce_in_set (fold (process_event ctl) evs e) = enforce_in_set e"
  "rescan_set_in (fold (process_event ctl) evs e) = rescan_set_in e"
  "rescan_set_out (fold (process_event ctl) evs e) = rescan_set_out e"
  "hint_fd (fold (process_event ctl) evs e) = hint_fd e"
  "events (fold (process_event ctl) evs e) = events e"
  "idle_set (fold (process_event ctl) evs e) = idle_set e"
  by (induction evs arbitrary: e) (simp_all add: epoll_frame)

lemma add_all_kernel: "\<exists>k. add_all ctl m A e = e\<lparr>ep_kernel := k\<rparr>"
proof -
  have "\<exists>k. fold (\<lambda>s e. snd (epoll_add ctl s m e)) ss e = e\<lparr>ep_kernel := k\<rparr>" for ss
  proof (induction ss arbitrary: e)
    case Nil
    then show ?case by (auto intro: exI [of _ "ep_kernel e"])
  next
    case (Cons s ss)
    obtain k where "snd (epoll_add ctl s m e) = e\<lparr>ep_kernel := k\<rparr>" using only_kernel(1) [of ctl s m e] by blast
    then show ?case using Cons [of "e\<lparr>ep_kernel := k\<rparr>"] by auto
  qed
  then show ?thesis by (simp add: add_all_def)
qed

lemmas add_all_frame [epoll_frame] = kernel_frame [OF add_all_kernel]

lemma add_all_monitors:
  assumes "ctl_laws ctl mon valid" and "valid s"
  shows "mon (ep_kernel (add_all ctl m A e)) s =
    (if s |\<in>| A \<and> mon (ep_kernel e) s = None then Some m else mon (ep_kernel e) s)"
proof -
  have "mon (ep_kernel (fold (\<lambda>s e. snd (epoll_add ctl s m e)) ss e)) s =
      (if s \<in> set ss \<and> mon (ep_kernel e) s = None then Some m else mon (ep_kernel e) s)" for ss
    by (induction ss arbitrary: e) (auto simp: add_monitors [OF assms])
  then show ?thesis by (simp add: add_all_def)
qed

lemma pre_wait_rescans:
  assumes "ctl_laws ctl mon valid" and "valid s"
  shows "mon (ep_kernel (process_pre_wait_rescans ctl e)) s =
    (case mon (ep_kernel e) s of
       Some m \<Rightarrow> Some m
     | None \<Rightarrow> if s |\<in>| rescan_set_in e then Some EPOLLIN
               else if s |\<in>| rescan_set_out e then Some (EPOLLIN OR EPOLLOUT) else None)"
  by (simp add: process_pre_wait_rescans_def Let_def add_all_monitors [OF assms] epoll_frame
      split: option.split)

lemma pre_wait_frame [epoll_frame]:
  "in_set (process_pre_wait_rescans ctl e) = in_set e"
  "out_set (process_pre_wait_rescans ctl e) = out_set e"
  "err_set (process_pre_wait_rescans ctl e) = err_set e"
  "enforce_in_set (process_pre_wait_rescans ctl e) = enforce_in_set e"
  "hint_fd (process_pre_wait_rescans ctl e) = hint_fd e"
  "events (process_pre_wait_rescans ctl e) = events e"
  by (simp_all add: process_pre_wait_rescans_def Let_def epoll_frame)

lemma pre_idle_frame [epoll_frame]:
  "ep_kernel (process_pre_wait_idles e) = ep_kernel e"
  "in_set (process_pre_wait_idles e) = in_set e"
  "out_set (process_pre_wait_idles e) = out_set e"
  "err_set (process_pre_wait_idles e) = err_set e"
  "enforce_in_set (process_pre_wait_idles e) = enforce_in_set e"
  "rescan_set_in (process_pre_wait_idles e) = rescan_set_in e"
  "rescan_set_out (process_pre_wait_idles e) = rescan_set_out e"
  "hint_fd (process_pre_wait_idles e) = hint_fd e"
  "events (process_pre_wait_idles e) = events e"
  by (simp_all add: process_pre_wait_idles_def Let_def)

lemma sorted_list_of_fset_single [simp]: "sorted_list_of_fset {|x|} = [x]"
  by (simp add: sorted_list_of_fset.rep_eq)

lemma idles_rescans_frame:
  "mon (ep_kernel (process_pre_wait_idles (process_pre_wait_rescans ctl e))) s =
   mon (ep_kernel (process_pre_wait_rescans ctl e)) s"
  by (simp add: epoll_frame)

section \<open>Waiting reports what happened\<close>

text \<open>What the poller looks like when the events of a wait come in.\<close>

definition before_wait :: "'k ctl \<Rightarrow> int \<Rightarrow> 'k epoll \<Rightarrow> 'k epoll" where
  "before_wait ctl now e =
     (let (clicked, e) = click_timer_now now (epoll_clear e)
      in if clicked then process_pre_wait_idles (process_pre_wait_rescans ctl e) else e)"

lemma epoll_wait_eq: "epoll_wait ctl now as e = wait_loop ctl as 0 (before_wait ctl now e)"
  by (simp add: epoll_wait_def before_wait_def split_beta Let_def)

lemma before_wait_frame:
  "in_set (before_wait ctl now e) = {||}"
  "out_set (before_wait ctl now e) = {||}"
  "err_set (before_wait ctl now e) = {||}"
  "enforce_in_set (before_wait ctl now e) = enforce_in_set e"
  "hint_fd (before_wait ctl now e) = hint_fd e"
  "events (before_wait ctl now e) = events e"
  by (simp_all add: before_wait_def split_beta Let_def epoll_frame click_timer_now_def epoll_clear_def)

lemma wait_loop_short:
  assumes "length evs < EPOLLER_MAX_EVENTS"
  shows "wait_loop ctl (Ready evs # as) 0 e =
    Some (ok (int (length evs), enforced_to_inset (fold (process_event ctl) evs
      (e\<lparr>events := evs @ drop (length evs) (events e)\<rparr>))))"
  using assms by (simp add: Let_def process_epoll_events_def)

section \<open>Steps\<close>

datatype epoll_op =
    Op_add int u32 | Op_modify int u32 | Op_del int | Op_hint int
  | Op_rescan_in int int | Op_rescan_out int int | Op_cancel_in int | Op_cancel_out int
  | Op_enforce int | Op_idle_watch int | Op_clear_idle int
  | Op_wait int "wait_answer list"

inductive epoll_step :: "'k ctl \<Rightarrow> 'k epoll \<Rightarrow> epoll_op \<Rightarrow> 'k epoll \<Rightarrow> bool" for ctl where
  step_add: "epoll_step ctl e (Op_add s m) (snd (epoll_add ctl s m e))"
| step_modify: "epoll_step ctl e (Op_modify s m) (snd (epoll_modify ctl s m e))"
| step_del: "epoll_step ctl e (Op_del s) (snd (epoll_del ctl s e))"
| step_hint: "epoll_step ctl e (Op_hint s) (snd (epoll_hint_socket ctl s e))"
| step_rescan_in: "epoll_step ctl e (Op_rescan_in now s) (snd (rescan_in ctl now s e))"
| step_rescan_out: "epoll_step ctl e (Op_rescan_out now s) (snd (rescan_out ctl now s e))"
| step_cancel_in: "epoll_step ctl e (Op_cancel_in s) (snd (cancel_rescan_in s e))"
| step_cancel_out: "epoll_step ctl e (Op_cancel_out s) (snd (cancel_rescan_out s e))"
| step_enforce: "epoll_step ctl e (Op_enforce s) (snd (enforce_in s e))"
| step_idle_watch: "epoll_step ctl e (Op_idle_watch s) (set_idle_watch s e)"
| step_clear_idle: "epoll_step ctl e (Op_clear_idle s) (snd (clear_idle_watch s e))"
| step_wait: "epoll_wait ctl now as e = Some (ok (r, e')) \<Longrightarrow> epoll_step ctl e (Op_wait now as) e'"

inductive epoll_run :: "'k ctl \<Rightarrow> 'k epoll \<Rightarrow> epoll_op list \<Rightarrow> 'k epoll \<Rightarrow> bool" for ctl where
  run_done: "epoll_run ctl e [] e"
| run_step: "epoll_step ctl e op e' \<Longrightarrow> epoll_run ctl e' ops e'' \<Longrightarrow> epoll_run ctl e (op # ops) e''"

inductive_cases epoll_stepE: "epoll_step ctl e op e'"
inductive_simps epoll_run_Nil: "epoll_run ctl e [] e'"
inductive_simps epoll_run_Cons: "epoll_run ctl e (op # ops) e'"

text \<open>A socket is covered when the kernel reports its events or a rescan is due for it; an operation
  withdraws it when it says so by name.\<close>

definition covered :: "('k \<Rightarrow> int \<Rightarrow> u32 option) \<Rightarrow> int \<Rightarrow> 'k epoll \<Rightarrow> bool" where
  "covered mon s e \<longleftrightarrow>
     mon (ep_kernel e) s \<noteq> None \<or> s |\<in>| rescan_set_in e \<or> s |\<in>| rescan_set_out e"

definition withdraws :: "int \<Rightarrow> epoll_op \<Rightarrow> bool" where
  "withdraws s op \<longleftrightarrow> op \<in> {Op_del s, Op_hint s, Op_cancel_in s, Op_cancel_out s}"

lemma wait_loop_invariant:
  assumes "\<And>e evs. P e \<Longrightarrow> P (e\<lparr>events := evs\<rparr>)"
    and "\<And>e ev. P e \<Longrightarrow> P (process_event ctl ev e)"
    and "\<And>e. P e \<Longrightarrow> P (enforced_to_inset e)"
  shows "P e \<Longrightarrow> wait_loop ctl as n e = Some (ok (r, e')) \<Longrightarrow> P e'"
proof (induction as arbitrary: n e)
  case (Cons a as)
  show ?case
  proof (cases a)
    case (Ready evs)
    define e1 where "e1 = e\<lparr>events := evs @ drop (length evs) (events e)\<rparr>"
    define e2 where "e2 = fold (process_event ctl) (take (nat (n + int (length evs))) (events e1)) e1"
    have "P (fold (process_event ctl) xs x)" if "P x" for xs x
      using that by (induction xs arbitrary: x) (simp_all add: assms(2))
    then have 2: "P e2" using Cons.prems(1) assms(1) by (simp add: e1_def e2_def)
    show ?thesis
      using Cons.prems(2) Cons.IH [OF 2, of "n + int (length evs)"] assms(3) [OF 2]
      unfolding Ready wait_loop.simps Let_def e1_def [symmetric] process_epoll_events_def e2_def [symmetric]
      by (auto split: if_splits)
  qed (use Cons.prems in auto)
qed simp

lemma process_event_monitors:
  assumes "ctl_laws ctl mon valid" and "valid s" and "mon (ep_kernel e) s \<noteq> None"
  shows "mon (ep_kernel (process_event ctl ev e)) s \<noteq> None"
  using assms(3)
  by (simp add: process_event_def split_beta Let_def epoll_frame modify_monitors [OF assms(1,2)])

lemma wait_loop_monitors:
  assumes "ctl_laws ctl mon valid" and "valid s"
  shows "mon (ep_kernel e) s \<noteq> None \<Longrightarrow> wait_loop ctl as n e = Some (ok (r, e')) \<Longrightarrow>
    mon (ep_kernel e') s \<noteq> None"
  by (rule wait_loop_invariant [where P = "\<lambda>e. mon (ep_kernel e) s \<noteq> None"])
     (simp_all add: process_event_monitors [OF assms] enforced_to_inset_def del: not_None_eq)

lemma covered_wait_loop:
  assumes "ctl_laws ctl mon valid" and "valid s"
  shows "covered mon s e \<Longrightarrow> wait_loop ctl as n e = Some (ok (r, e')) \<Longrightarrow> covered mon s e'"
proof (rule wait_loop_invariant [where P = "covered mon s"])
  fix e ev
  show "covered mon s e \<Longrightarrow> covered mon s (process_event ctl ev e)"
    unfolding covered_def epoll_frame using process_event_monitors [OF assms] by blast
qed (simp_all add: enforced_to_inset_def covered_def)

lemma wait_loop_hint: "wait_loop ctl as n e = Some (ok (r, e')) \<Longrightarrow> hint_fd e' = hint_fd e"
  by (rule wait_loop_invariant [where P = "\<lambda>x. hint_fd x = hint_fd e", OF _ _ _ refl])
     (simp_all add: epoll_frame enforced_to_inset_def)

lemma before_wait_covered:
  assumes "ctl_laws ctl mon valid" and "valid s" and "covered mon s e"
  shows "covered mon s (before_wait ctl now e) \<and>
    (fst (click_timer_now now e) \<longrightarrow> mon (ep_kernel (before_wait ctl now e)) s \<noteq> None)"
proof -
  define c where "c = snd (click_timer_now now (epoll_clear e))"
  have f: "ep_kernel c = ep_kernel e" "rescan_set_in c = rescan_set_in e" "rescan_set_out c = rescan_set_out e"
    by (simp_all add: c_def click_timer_now_def epoll_clear_def Let_def)
  have fst: "fst (click_timer_now now (epoll_clear e)) = fst (click_timer_now now e)"
    by (simp add: click_timer_now_def epoll_clear_def Let_def)
  have "mon (ep_kernel (process_pre_wait_rescans ctl c)) s \<noteq> None"
    using assms(3) by (auto simp: pre_wait_rescans [OF assms(1,2)] covered_def f split: option.split)
  then show ?thesis
    using assms(3) f
    by (auto simp: before_wait_def split_beta Let_def fst covered_def epoll_frame simp flip: c_def)
qed

lemma covered_step:
  assumes "ctl_laws ctl mon valid" and "valid s" and "0 < s"
    and "epoll_step ctl e op e'" and "\<not> withdraws s op" and "covered mon s e" and "hint_fd e \<noteq> s"
  shows "covered mon s e' \<and> hint_fd e' \<noteq> s"
  using assms(4)
proof cases
  case (step_wait now as r)
  note w = step_wait(2) [unfolded epoll_wait_eq]
  have "hint_fd e' \<noteq> s" using wait_loop_hint [OF w] assms(7) by (simp add: before_wait_frame)
  moreover have "covered mon s e'"
    using covered_wait_loop [OF assms(1,2) _ w] before_wait_covered [OF assms(1,2,6)] by blast
  ultimately show ?thesis by blast
next
  case (step_hint t)
  then show ?thesis
    using assms(5-7) ctl_other [OF assms(1), of s "hint_fd e"]
    by (auto simp: epoll_hint_socket_def Let_def split_beta covered_def withdraws_def epoll_frame
        add_monitors [OF assms(1,2)])
qed (use assms(5-7) in \<open>auto simp: covered_def withdraws_def epoll_frame add_monitors [OF assms(1,2)]
   modify_monitors [OF assms(1,2)] del_monitors [OF assms(1,2)] epoll_hint_socket_def Let_def split_beta
   rescan_in_def rescan_out_def cancel_rescan_in_def cancel_rescan_out_def set_erase_def enforce_in_def
   set_idle_watch_def\<close>)


lemma covered_run:
  assumes "ctl_laws ctl mon valid" and "valid s" and "0 < s"
  shows "epoll_run ctl e ops e' \<Longrightarrow> \<forall>op\<in>set ops. \<not> withdraws s op \<Longrightarrow> covered mon s e \<Longrightarrow>
    hint_fd e \<noteq> s \<Longrightarrow> covered mon s e'"
proof (induction rule: epoll_run.induct)
  case (run_step e op e' ops e'')
  then show ?case using covered_step [OF assms run_step.hyps(1)] by simp
qed

section \<open>Handlers\<close>

text \<open>No table entry leads to a null pointer or to a dead handler, and a handler knows the poller and the
  sockets of every entry that leads to it.\<close>

definition net_ok :: "'k net \<Rightarrow> bool" where
  "net_ok n \<longleftrightarrow>
     (\<forall>i s c hp. handler_db (n_pollers n i) s = Some (c, hp) \<longrightarrow>
        (\<exists>h H. hp = Some h \<and> n_handlers n h = Some H \<and> registrant H = Some i \<and>
               s |\<in>| registered_sockets H))"

lemma net_okD:
  "net_ok n \<Longrightarrow> handler_db (n_pollers n i) s = Some (c, hp) \<Longrightarrow>
    \<exists>h H. hp = Some h \<and> n_handlers n h = Some H \<and> registrant H = Some i \<and> s |\<in>| registered_sockets H"
  unfolding net_ok_def by blast

lemma clear_handler_fields:
  "handler_db (n_pollers (clear_handler i s n) j) =
     (if i = j then (handler_db (n_pollers n j))(s := None) else handler_db (n_pollers n j))"
  "n_handlers (clear_handler i s n) = n_handlers n" "n_gone (clear_handler i s n) = n_gone n"
  "n_closed (clear_handler i s n) = n_closed n"
  by (simp_all add: clear_handler_def Let_def)

lemma clear_handler_ok: "net_ok n \<Longrightarrow> net_ok (clear_handler i s n)"
  unfolding net_ok_def clear_handler_fields by (auto split: if_splits)

lemma unregister_fields:
  "n_handlers (unregister i h s n) = n_handlers n"
  "handler_db (n_pollers (unregister i h s n) j) t = Some v \<Longrightarrow>
     handler_db (n_pollers n j) t = Some v \<and> \<not> (j = i \<and> t = s \<and> snd v = Some h)"
  by (auto simp: unregister_def clear_handler_fields get_handler_def split_beta split: if_splits)

lemma unregister_all:
  "n_handlers (fold (unregister i h) ss n) = n_handlers n"
  "handler_db (n_pollers (fold (unregister i h) ss n) j) t = Some v \<Longrightarrow>
     handler_db (n_pollers n j) t = Some v \<and> \<not> (j = i \<and> t \<in> set ss \<and> snd v = Some h)"
proof (induction ss arbitrary: n)
  case (Cons s ss)
  { case 1 show ?case by (simp add: Cons unregister_fields(1)) }
  { case 2
    then have "handler_db (n_pollers (unregister i h s n) j) t = Some v" "\<not> (j = i \<and> t \<in> set ss \<and> snd v = Some h)"
      using Cons.IH(2) [of "unregister i h s n"] by simp_all
    then show ?case using unregister_fields(2) [of i h s n j t v] by auto }
qed simp_all

lemma delete_handler_ok:
  assumes "net_ok n" and "delete_handler h n = ok n'"
  shows "net_ok n' \<and> n_handlers n' h = None"
proof -
  obtain H where H: "n_handlers n h = Some H"
    using assms(2) by (auto simp: delete_handler_def split: option.splits)
  define m where "m = (case registrant H of None \<Rightarrow> n
     | Some i \<Rightarrow> fold (unregister i h) (sorted_list_of_fset (registered_sockets H)) n)"
  have n': "n' = m\<lparr>n_handlers := (n_handlers m)(h := None)\<rparr>" and mh: "n_handlers m = n_handlers n"
    using assms(2) H
    by (auto simp: delete_handler_def m_def unregister_all Let_def split: if_splits option.splits)
  have "\<exists>g G. hp = Some g \<and> g \<noteq> h \<and> n_handlers n g = Some G \<and> registrant G = Some i \<and>
      s |\<in>| registered_sockets G"
    if "handler_db (n_pollers m i) s = Some (c, hp)" for i s c hp
  proof -
    have "handler_db (n_pollers n i) s = Some (c, hp)"
      and *: "\<not> (registrant H = Some i \<and> s |\<in>| registered_sockets H \<and> hp = Some h)"
      using that unregister_all(2) [of i h "sorted_list_of_fset (registered_sockets H)" n i s "(c, hp)"]
        unregister_all(2) [of _ h "sorted_list_of_fset (registered_sockets H)" n i s "(c, hp)"]
      by (auto simp: m_def split: option.splits)
    from net_okD [OF assms(1) this(1)] obtain g G where
      "hp = Some g" "n_handlers n g = Some G" "registrant G = Some i" "s |\<in>| registered_sockets G"
      by blast
    then show ?thesis using * H by auto
  qed
  then show ?thesis unfolding net_ok_def n' by (simp add: mh) blast
qed

lemma new_handler_ok:
  assumes "net_ok n" and "n_handlers n h = None"
  shows "net_ok (new_handler h n)"
  using assms unfolding net_ok_def new_handler_def by fastforce

lemma set_handler_fields:
  assumes "n_handlers n h = Some H" and "registrant H \<in> {None, Some i}"
  shows "\<exists>c. set_handler i s (Some h) n = ok (n
     \<lparr>n_pollers := (n_pollers n)(i := (n_pollers n i)\<lparr>handler_db := (handler_db (n_pollers n i))(s \<mapsto> (c, Some h))\<rparr>),
      n_handlers := (n_handlers n)(h \<mapsto> H\<lparr>registrant := Some i, registered_sockets := finsert s (registered_sockets H)\<rparr>)\<rparr>)"
  using assms by (auto simp: set_handler_def db_put_def Let_def)

lemma set_handler_ok:
  assumes "net_ok n" and "n_handlers n h = Some H" and "registrant H \<in> {None, Some i}"
    and "set_handler i s (Some h) n = ok n'"
  shows "net_ok n'"
proof -
  define H' where "H' = H\<lparr>registrant := Some i, registered_sockets := finsert s (registered_sockets H)\<rparr>"
  obtain c where n': "n' = n
     \<lparr>n_pollers := (n_pollers n)(i := (n_pollers n i)\<lparr>handler_db := (handler_db (n_pollers n i))(s \<mapsto> (c, Some h))\<rparr>),
      n_handlers := (n_handlers n)(h \<mapsto> H')\<rparr>"
    using set_handler_fields [OF assms(2,3), of s] assms(4) unfolding H'_def by auto
  show ?thesis
    unfolding net_ok_def
  proof (intro allI impI)
    fix j t d hp
    assume e: "handler_db (n_pollers n' j) t = Some (d, hp)"
    show "\<exists>g G. hp = Some g \<and> n_handlers n' g = Some G \<and> registrant G = Some j \<and> t |\<in>| registered_sockets G"
    proof (cases "j = i \<and> t = s")
      case True
      then have "hp = Some h" using e by (simp add: n')
      then show ?thesis using True by (intro exI [of _ h]) (simp add: n' H'_def)
    next
      case False
      then have "handler_db (n_pollers n j) t = Some (d, hp)" using e by (auto simp: n' split: if_splits)
      from net_okD [OF assms(1) this] obtain g G where
        g: "hp = Some g" "n_handlers n g = Some G" "registrant G = Some j" "t |\<in>| registered_sockets G"
        by blast
      then show ?thesis using assms(2,3) by (cases "g = h") (auto simp: n' H'_def)
    qed
  qed
qed

lemma delete_epoller_ok:
  assumes "net_ok n" and "delete_epoller i n = ok n'"
  shows "net_ok n'"
proof -
  define hs where "hs = {h. \<exists>s c. handler_db (n_pollers n i) s = Some (c, h)}"
  have n': "n' = n\<lparr>n_handlers :=
                 (\<lambda>h. if Some h \<in> hs then map_option (registrant_update (\<lambda>_. None)) (n_handlers n h)
                      else n_handlers n h),
               n_pollers := (n_pollers n)(i := \<lparr>poller = None, handler_db = (\<lambda>_. None)\<rparr>),
               n_gone := i # n_gone n\<rparr>"
    using assms(2) unfolding delete_epoller_def Let_def hs_def [symmetric] by (auto split: if_splits)
  show ?thesis
    unfolding net_ok_def
  proof (intro allI impI)
    fix j t d hp
    assume e: "handler_db (n_pollers n' j) t = Some (d, hp)"
    then have j: "j \<noteq> i" and o: "handler_db (n_pollers n j) t = Some (d, hp)"
      by (auto simp: n' split: if_splits)
    from net_okD [OF assms(1) o] obtain g G where
      g: "hp = Some g" "n_handlers n g = Some G" "registrant G = Some j" "t |\<in>| registered_sockets G"
      by blast
    have "Some g \<notin> hs" using net_okD [OF assms(1)] g(2,3) j unfolding hs_def by fastforce
    then show "\<exists>g G. hp = Some g \<and> n_handlers n' g = Some G \<and> registrant G = Some j \<and>
        t |\<in>| registered_sockets G"
      using g by (simp add: n')
  qed
qed

datatype handler_op =
    H_new nat | H_set nat int nat | H_clear nat int | H_delete nat | H_delete_epoller nat

fun handler_exec :: "handler_op \<Rightarrow> 'k net \<Rightarrow> 'k net result" where
  "handler_exec (H_new h) n = (if n_handlers n h = None then ok (new_handler h n) else ok n)"
| "handler_exec (H_set i s h) n = set_handler i s (Some h) n"
| "handler_exec (H_clear i s) n = set_handler i s None n"
| "handler_exec (H_delete h) n = delete_handler h n"
| "handler_exec (H_delete_epoller i) n = delete_epoller i n"

fun handler_run :: "handler_op list \<Rightarrow> 'k net \<Rightarrow> 'k net result" where
  "handler_run [] n = ok n"
| "handler_run (op # ops) n = (case handler_exec op n of Inl x \<Rightarrow> Inl x | Inr n \<Rightarrow> handler_run ops n)"

text \<open>Every handler sticks to the poller \<open>home\<close> assigns to it.\<close>

definition sticks :: "(nat \<Rightarrow> nat) \<Rightarrow> handler_op \<Rightarrow> bool" where
  "sticks home op = (case op of H_set i s h \<Rightarrow> i = home h | _ \<Rightarrow> True)"

definition homes :: "(nat \<Rightarrow> nat) \<Rightarrow> 'k net \<Rightarrow> bool" where
  "homes home n \<longleftrightarrow> (\<forall>h H. n_handlers n h = Some H \<longrightarrow> registrant H \<in> {None, Some (home h)})"

lemma handler_exec_ok:
  assumes "net_ok n" and "homes home n" and "sticks home op" and "handler_exec op n = ok n'"
  shows "net_ok n' \<and> homes home n'"
proof (cases op)
  case (H_new h)
  have "homes home n'"
    using assms(2,4) unfolding H_new homes_def
    by (fastforce simp: new_handler_def split: if_splits)
  then show ?thesis
    using assms(1,4) new_handler_ok [OF assms(1), of h] H_new by (auto split: if_splits)
next
  case (H_set i s h)
  then obtain H where H: "n_handlers n h = Some H"
    using assms(4) by (auto simp: set_handler_def db_put_def Let_def split: option.splits)
  have r: "registrant H \<in> {None, Some i}" using assms(2,3) H H_set by (auto simp: homes_def sticks_def)
  obtain H' where nh: "n_handlers n' = (n_handlers n)(h \<mapsto> H')" "registrant H' = Some i"
    using set_handler_fields [OF H r, of s] assms(4) H_set by auto
  have "homes home n'"
    using assms(2,3) nh H_set unfolding homes_def sticks_def by simp
  then show ?thesis using set_handler_ok [OF assms(1) H r] assms(4) H_set by simp
next
  case (H_clear i s)
  then have "n' = clear_handler i s n" using assms(4) by (simp add: set_handler_def)
  then show ?thesis
    using assms(2) clear_handler_ok [OF assms(1), of i s] by (simp add: homes_def clear_handler_fields)
next
  case (H_delete h)
  then have "n_handlers n' = (n_handlers n)(h := None)"
    using assms(4)
    by (auto simp: delete_handler_def Let_def unregister_all split: option.splits if_splits)
  then show ?thesis
    using delete_handler_ok [OF assms(1), of h n'] assms(2,4) H_delete by (auto simp: homes_def)
next
  case (H_delete_epoller i)
  then have nh: "\<exists>G. n_handlers n g = Some G \<and> registrant K \<in> {None, registrant G}"
    if "n_handlers n' g = Some K" for g K
    using that assms(4) by (auto simp: delete_epoller_def Let_def split: if_splits)
  have "homes home n'"
    unfolding homes_def
  proof (intro allI impI)
    fix g K
    assume "n_handlers n' g = Some K"
    then obtain G where "n_handlers n g = Some G" "registrant K \<in> {None, registrant G}" using nh by blast
    then show "registrant K \<in> {None, Some (home g)}"
      using assms(2) [unfolded homes_def, rule_format, of g G] by auto
  qed
  then show ?thesis using delete_epoller_ok [OF assms(1), of i n'] assms(4) H_delete_epoller by simp
qed

lemma handler_run_ok:
  "net_ok n \<Longrightarrow> homes home n \<Longrightarrow> list_all (sticks home) ops \<Longrightarrow> handler_run ops n = ok n' \<Longrightarrow>
    net_ok n' \<and> homes home n'"
proof (induction ops arbitrary: n)
  case (Cons op ops)
  then obtain m where m: "handler_exec op n = ok m" "handler_run ops m = ok n'"
    by (auto split: sum.splits)
  then have "net_ok m \<and> homes home m" using handler_exec_ok [OF Cons.prems(1,2) _ m(1)] Cons.prems by simp
  then show ?case using Cons.IH [of m] Cons.prems(3) m(2) by simp
qed simp

section \<open>What the poller promises\<close>

text \<open>C27: A wait with fewer events than the array holds reports exactly what the kernel reported: readable
  sockets and those enforced, writable ones, and everything else as errors; the enforced sockets are
  used up.\<close>

theorem epoll_wait_reports:
  assumes "length evs < EPOLLER_MAX_EVENTS"
  shows "\<exists>e'. epoll_wait ctl now (Ready evs # as) e = Some (ok (int (length evs), e')) \<and>
           in_set e' = with_event readable_event evs |\<union>| enforce_in_set e \<and>
           out_set e' = with_event writable_event evs \<and>
           err_set e' = with_event (\<lambda>m. \<not> readable_event m \<and> \<not> writable_event m) evs \<and>
           enforce_in_set e' = {||}"
  unfolding epoll_wait_eq wait_loop_short [OF assms]
  by (simp add: enforced_to_inset_def process_events_sets process_events_frame before_wait_frame)

theorem epoll_wait_reports_witness:
  "\<exists>e'. epoll_wait map_ctl 0 [Ready [(4, EPOLLIN), (5, EPOLLOUT), (6, EPOLLHUP)]]
          (snd (enforce_in 7 (new_epoll Map.empty))) = Some (ok (3, e')) \<and>
        in_set e' = {|7, 4|} \<and> out_set e' = {|5|} \<and> err_set e' = {|6|}"
  using epoll_wait_reports [of "[(4, EPOLLIN), (5, EPOLLOUT), (6, EPOLLHUP)]" map_ctl 0 "[]"
      "snd (enforce_in 7 (new_epoll Map.empty))"]
  by (simp add: EPOLLER_MAX_EVENTS_def with_event_def readable_event_def writable_event_def epoll_masks
      enforce_in_def new_epoll_def) blast

text \<open>C7: A socket, once monitored, is never lost: whatever sequence of operations follows, as long as none
  of them withdraws it by name, the next wait whose rescan timer has run out has the kernel report its
  events again.\<close>

theorem monitored_socket_never_lost:
  assumes "ctl_laws ctl mon valid" and "valid s" and "0 < s"
    and "covered mon s e" and "hint_fd e \<noteq> s"
    and "epoll_run ctl e ops e1" and "\<forall>op\<in>set ops. \<not> withdraws s op"
    and "epoll_wait ctl now as e1 = Some (ok (r, e'))" and "fst (click_timer_now now e1)"
  shows "mon (ep_kernel e') s \<noteq> None"
  using wait_loop_monitors [OF assms(1,2) _ assms(8) [unfolded epoll_wait_eq]]
    before_wait_covered [OF assms(1,2) covered_run [OF assms(1-3,6,7,4,5)]] assms(9) by blast

theorem monitored_socket_never_lost_witness:
  "\<exists>e1 r e'. epoll_run map_ctl (snd (epoll_add map_ctl 5 EPOLLIN (new_epoll Map.empty)))
       [Op_rescan_in 0 5] e1 \<and>
     ep_kernel e1 5 = None \<and> epoll_wait map_ctl 200000000 [Ready []] e1 = Some (ok (r, e')) \<and>
     ep_kernel e' 5 \<noteq> None"
proof -
  let ?e = "snd (epoll_add map_ctl 5 EPOLLIN (new_epoll Map.empty))"
  let ?e1 = "snd (rescan_in map_ctl 0 5 ?e)"
  have e1: "ep_kernel ?e1 5 = None" "rescan_timer ?e1 = 0"
    by (simp_all add: rescan_in_def epoll_del_def epoll_add_def new_epoll_def Let_def)
  have run: "epoll_run map_ctl ?e [Op_rescan_in 0 5] ?e1"
    by (rule run_step [OF step_rescan_in run_done])
  have cov: "covered (\<lambda>k. k) 5 ?e" "hint_fd ?e \<noteq> 5"
    by (simp_all add: covered_def epoll_add_def new_epoll_def)
  have click: "fst (click_timer_now 200000000 ?e1)"
    by (simp add: click_timer_now_def e1 trunc_div_def rescan_msec_def Let_def)
  obtain r e' where w: "epoll_wait map_ctl 200000000 [Ready []] ?e1 = Some (ok (r, e'))"
    using wait_loop_short [of "[]" map_ctl "[]"] by (auto simp: epoll_wait_eq EPOLLER_MAX_EVENTS_def)
  show ?thesis
    using monitored_socket_never_lost [OF map_ctl_laws TrueI _ cov run _ w click] run e1(1) w
    by (auto simp: withdraws_def)
qed

text \<open>When the kernel fills the whole array and has more, the events of both calls are counted together
  and the loop runs past the end of the array.\<close>

theorem full_array_then_more_is_undefined:
  assumes "length evs = EPOLLER_MAX_EVENTS" and "evs2 \<noteq> []"
  shows "epoll_wait ctl now (Ready evs # Ready evs2 # as) e = Some (raise Undefined_behaviour)"
  using assms unfolding epoll_wait_eq
  by (simp add: Let_def process_epoll_events_def)

theorem full_array_then_more_is_undefined_witness:
  "epoll_wait map_ctl 0 [Ready (replicate 50 (4, EPOLLIN)), Ready [(5, EPOLLIN)], Ready []]
     (new_epoll Map.empty) = Some (raise Undefined_behaviour)"
  using full_array_then_more_is_undefined [of "replicate 50 (4, EPOLLIN)" "[(5, EPOLLIN)]"]
  by (simp add: EPOLLER_MAX_EVENTS_def)

text \<open>A socket waiting to be rescanned for both reading and writing comes back monitored for reading
  only: the second registration finds the first and is taken for success.\<close>

theorem rescan_both_loses_write:
  assumes "ctl_laws ctl mon valid" and "valid s" and "0 < s"
  shows "mon (ep_kernel (process_pre_wait_rescans ctl
           (snd (rescan_out ctl now s (snd (rescan_in ctl now' s e)))))) s = Some EPOLLIN"
proof -
  have "mon (ep_kernel (snd (rescan_out ctl now s (snd (rescan_in ctl now' s e))))) s = None"
    using assms(3) by (simp add: rescan_out_def Let_def del_monitors [OF assms(1,2)])
  moreover have "s |\<in>| rescan_set_in (snd (rescan_out ctl now s (snd (rescan_in ctl now' s e))))"
    using assms(3) by (simp add: rescan_out_def rescan_in_def Let_def epoll_frame)
  ultimately show ?thesis by (simp add: pre_wait_rescans [OF assms(1,2)])
qed

theorem rescan_both_loses_write_witness:
  "ep_kernel (process_pre_wait_rescans map_ctl
     (snd (rescan_out map_ctl 0 5 (snd (rescan_in map_ctl 0 5 (new_epoll Map.empty)))))) 5 = Some EPOLLIN"
  using rescan_both_loses_write [OF map_ctl_laws, of 5] by simp

text \<open>The table of handlers never leads to a dead handler, over any sequence of creating handlers,
  setting and clearing them and destroying handlers and pollers, as long as every handler is used with one
  poller: whatever \<open>get_handler\<close> finds is alive.\<close>

theorem handlers_found_are_alive:
  assumes "\<And>i. handler_db (n_pollers n i) = Map.empty" and "n_handlers n = Map.empty"
    and "list_all (sticks home) ops" and "handler_run ops n = ok n'" and "get_handler i s n' = Some h"
  shows "\<exists>H. n_handlers n' h = Some H \<and> registrant H = Some i \<and> i = home h"
proof -
  have "net_ok n" "homes home n" using assms(1,2) by (simp_all add: net_ok_def homes_def)
  from handler_run_ok [OF this assms(3,4)] have ok': "net_ok n'" "homes home n'" by simp_all
  obtain c where "handler_db (n_pollers n' i) s = Some (c, Some h)"
    using assms(5) by (auto simp: get_handler_def split: option.splits)
  from net_okD [OF ok'(1) this] obtain H where "n_handlers n' h = Some H" "registrant H = Some i"
    by auto
  then show ?thesis using ok'(2) unfolding homes_def by fastforce
qed

definition empty_net :: "(int \<rightharpoonup> u32) net" where
  "empty_net = \<lparr>n_pollers = (\<lambda>_. \<lparr>poller = None, handler_db = Map.empty\<rparr>), n_handlers = Map.empty,
                n_closed = [], n_gone = []\<rparr>"

theorem handlers_found_are_alive_witness:
  "\<exists>n'. handler_run [H_new 1, H_new 2, H_set 0 5 1, H_set 0 6 2, H_delete 1] empty_net = ok n' \<and>
        get_handler 0 5 n' = None \<and> get_handler 0 6 n' = Some 2 \<and> n_handlers n' 2 \<noteq> None"
proof -
  let ?ops = "[H_new 1, H_new 2, H_set 0 5 1, H_set 0 6 2, H_delete 1]"
  obtain n' where n': "handler_run ?ops empty_net = ok n'" "get_handler 0 5 n' = None"
      "get_handler 0 6 n' = Some 2"
    by (simp add: empty_net_def new_handler_def set_handler_def db_put_def Let_def delete_handler_def
        unregister_def get_handler_def clear_handler_def)
  then show ?thesis
    using handlers_found_are_alive [of empty_net "\<lambda>_. 0" ?ops n' 0 6 2]
    by (auto simp: empty_net_def sticks_def)
qed

text \<open>With two pollers the table of the first keeps leading to a handler that is gone.\<close>

lemma two_pollers_leave_dangling_handler:
  "\<exists>n'. handler_run [H_new 1, H_set 0 5 1, H_set 1 6 1, H_delete 1] empty_net = ok n' \<and>
        get_handler 0 5 n' = Some 1 \<and> n_handlers n' 1 = None"
  by (simp add: empty_net_def new_handler_def set_handler_def db_put_def db_move_def Let_def delete_handler_def
      sorted_list_of_fset.rep_eq unregister_def get_handler_def clear_handler_def)


lemma forward_ok:
  assumes "forward api now f d i n = ok (r, n')"
  shows "\<exists>e. poller (n_pollers n' i) = Some (snd (f e)) \<and>
    (\<forall>e0. poller (n_pollers n i) = Some e0 \<longrightarrow> e = e0) \<and> n_handlers n' = n_handlers n \<and>
    n_closed n' = n_closed n \<and> handler_db (n_pollers n' j) = handler_db (n_pollers n j)"
  using assms
  by (auto simp: forward_def init_if_null_def epoll_init_def Let_def split_beta
      split: option.splits sum.splits if_splits)

lemma unset_monitor_ok:
  assumes "ctl_laws (api_ctl api) mon valid" and "valid s" and "0 < s"
    and "com_unset_monitor api tr now i s n = ok n'"
  shows "\<exists>e. poller (n_pollers n' i) = Some e \<and> \<not> covered mon s e \<and> n_closed n' = n_closed n"
proof -
  obtain r1 n1 where 1: "poller_del api now i s n = ok (r1, n1)"
    using assms(3,4) by (auto simp: com_unset_monitor_def on_real_def real_socket_def Let_def split: sum.splits)
  obtain r2 n2 where 2: "poller_cancel_rescan_in api now i s n1 = ok (r2, n2)"
    using assms(3,4) 1 by (auto simp: com_unset_monitor_def on_real_def real_socket_def Let_def split: sum.splits)
  obtain r3 where 3: "poller_cancel_rescan_out api now i s n2 = ok (r3, n')"
    using assms(3,4) 1 2
    by (cases "poller_cancel_rescan_out api now i s n2")
       (auto simp: com_unset_monitor_def on_real_def real_socket_def Let_def)
  obtain e1 where e1: "poller (n_pollers n1 i) = Some e1" "mon (ep_kernel e1) s = None" "n_closed n1 = n_closed n"
    using 1 del_monitors [OF assms(1,2), of s]
    by (auto simp: poller_del_def init_if_null_def epoll_init_def Let_def split_beta
        split: option.splits sum.splits if_splits)
  have e2: "poller (n_pollers n2 i) = Some (snd (cancel_rescan_in s e1))" "n_closed n2 = n_closed n"
    using forward_ok [OF 2 [unfolded poller_cancel_rescan_in_def]] e1 by auto
  have "poller (n_pollers n' i) = Some (snd (cancel_rescan_out s (snd (cancel_rescan_in s e1))))"
    "n_closed n' = n_closed n"
    using forward_ok [OF 3 [unfolded poller_cancel_rescan_out_def]] e2 by auto
  then show ?thesis
    using e1(2) assms(3)
    by (simp add: covered_def cancel_rescan_in_def cancel_rescan_out_def set_erase_def Let_def)
qed

lemma clear_handler_poller:
  "poller (n_pollers n i) = Some e \<Longrightarrow> \<not> covered mon s e \<Longrightarrow>
    \<exists>e'. poller (n_pollers (clear_handler i t n) i) = Some e' \<and> \<not> covered mon s e'"
  by (auto simp: clear_handler_def covered_def Let_def epoll_frame set_erase_def)

lemma forward_total: "0 \<le> api_create api \<Longrightarrow> \<exists>r n'. forward api now f d i n = ok (r, n')"
  by (auto simp: forward_def init_if_null_def epoll_init_def Let_def split_beta split: option.split)

lemma poller_del_total: "0 \<le> api_create api \<Longrightarrow> \<exists>r n'. poller_del api now i s n = ok (r, n')"
  by (auto simp: poller_del_def init_if_null_def epoll_init_def Let_def split_beta split: option.split)

lemma com_unset_monitor_total:
  assumes "0 \<le> api_create api"
  shows "\<exists>n'. com_unset_monitor api tr now i s n = ok n'"
proof -
  let ?s = "real_socket tr s"
  obtain r1 n1 where 1: "poller_del api now i ?s n = ok (r1, n1)" using poller_del_total [OF assms] by blast
  obtain r2 n2 where 2: "poller_cancel_rescan_in api now i ?s n1 = ok (r2, n2)"
    unfolding poller_cancel_rescan_in_def
    using forward_total [OF assms, of now "cancel_rescan_in ?s" 0 i n1] by blast
  obtain r3 n3 where 3: "poller_cancel_rescan_out api now i ?s n2 = ok (r3, n3)"
    unfolding poller_cancel_rescan_out_def
    using forward_total [OF assms, of now "cancel_rescan_out ?s" 0 i n2] by blast
  show ?thesis by (simp add: com_unset_monitor_def on_real_def Let_def 1 2 3)
qed

lemma ss_closing_total:
  assumes "0 \<le> api_create api"
  shows "\<exists>ss' n'. ss_closing api tr now (ss, n) = ok (ss', n')"
proof (cases "ss_com ss")
  case (Some i)
  obtain n1 where "com_unset_monitor api tr now i (ss_socket ss) n = ok n1"
    using com_unset_monitor_total [OF assms] by blast
  then show ?thesis
    by (simp add: ss_closing_def ss_update_def Some com_set_poll_handler_def set_handler_def)
qed (simp add: ss_closing_def ss_update_def)

text \<open>Closing an owned socket takes back everything: no handler is registered for it, the kernel no longer
  reports its events and no rescan is due, its descriptor is closed, and closed once: neither closing
  again nor the destructor closes it a second time.\<close>

theorem closing_releases_socket:
  assumes "ctl_laws (api_ctl api) mon valid" and "valid (ss_socket ss)" and "0 < ss_socket ss"
    and "ss_com ss = Some i" and "ss_owner ss"
    and "ss_closing api tr now (ss, n) = ok (ss', n')"
  shows "get_handler i (ss_socket ss) n' = None \<and>
    (\<exists>e. poller (n_pollers n' i) = Some e \<and> \<not> covered mon (ss_socket ss) e) \<and>
    n_closed n' = n_closed n @ [ss_socket ss] \<and>
    delete_socket_state ss' n' = n' \<and>
    (\<exists>ss''. ss_closing api tr now' (ss', n') = ok (ss'', n'))"
proof -
  let ?s = "ss_socket ss"
  obtain n1 where 1: "com_unset_monitor api tr now i ?s n = ok n1"
    using assms(3,4,6) by (auto simp: ss_closing_def ss_update_def Let_def split: sum.splits)
  obtain e where e: "poller (n_pollers n1 i) = Some e" "\<not> covered mon ?s e" "n_closed n1 = n_closed n"
    using unset_monitor_ok [OF assms(1-3) 1] by blast
  have n': "n' = (clear_handler i ?s n1)\<lparr>n_closed := n_closed n1 @ [?s]\<rparr>" and
    ss': "ss' = ss\<lparr>ss_socket := 0, ss_state := SS_NONE\<rparr>"
    using assms(3-6) 1
    by (auto simp: ss_closing_def ss_update_def Let_def com_set_poll_handler_def real_socket_def set_handler_def
        clear_handler_fields)
  have "get_handler i ?s n' = None" by (simp add: n' get_handler_def clear_handler_fields)
  moreover have "\<exists>e'. poller (n_pollers n' i) = Some e' \<and> \<not> covered mon ?s e'"
    using clear_handler_poller [OF e(1,2)] by (simp add: n')
  moreover have "ss_closing api tr now' (ss', n') = ok (ss'\<lparr>ss_state := SS_CLOSING\<rparr>, n')"
    using assms(4) by (simp add: ss_closing_def ss_update_def ss')
  ultimately show ?thesis using e(3) by (simp add: n' ss' delete_socket_state_def)
qed

definition demo_api :: "(int \<rightharpoonup> u32) kernel_api" where
  "demo_api = \<lparr>api_ctl = map_ctl, api_create = 3, api_new = Map.empty\<rparr>"

theorem closing_releases_socket_witness:
  "\<exists>ss' n'. ss_closing demo_api (\<lambda>s. s) 0 (ss_set 5 (Some 1) (Some 0) True new_socket_state, empty_net) =
       ok (ss', n') \<and> n_closed n' = [5] \<and> get_handler 0 5 n' = None"
proof -
  let ?ss = "ss_set 5 (Some 1) (Some 0) True new_socket_state"
  have c: "0 \<le> api_create demo_api" by (simp add: demo_api_def)
  obtain ss' n' where r: "ss_closing demo_api (\<lambda>s. s) 0 (?ss, empty_net) = ok (ss', n')"
    using ss_closing_total [OF c, where ss = "ss_set 5 (Some 1) (Some 0) True new_socket_state"] by blast
  have "ctl_laws (api_ctl demo_api) (\<lambda>k. k) (\<lambda>s. True)" by (simp add: demo_api_def map_ctl_laws)
  from closing_releases_socket [OF this, of ?ss 0 _ 0 empty_net ss' n'] r show ?thesis
    by (auto simp: ss_set_def new_socket_state_def empty_net_def)
qed

end
