(* ===== verification/Baseproxy.thy ===== *)
theory Baseproxy
  imports Hostcx Epoll "HOL-Library.Multiset"
begin

text \<open>
  The proxy: \<^verbatim>\<open>baseproxy.hpp\<close>, \<^verbatim>\<open>baseproxy.cpp\<close>.

  A proxy owns its contexts in eight vectors, \<open>px_cxs\<close>; a call on a context replaces it in its
  vector. The side letters of the code are the datatype \<open>side\<close>: \<open>L\<close> and \<open>R\<close> for the ordinary
  sockets, \<open>X\<close> and \<open>Y\<close> for the permanent connections. The virtual event functions are those of the
  base class: \<^verbatim>\<open>on_left_error\<close> and its kin only log, \<^verbatim>\<open>on_left_new\<close> adds the context.

  What a round meets is an argument: \<open>E v w i\<close> is what the context at index \<open>i\<close> of the vector
  \<open>v\<close> finds in the reading (\<open>w = False\<close>) or writing pass, that is the answers of its
  \<^verbatim>\<open>baseCom\<close> and the view of its peer; \<open>px_env\<close> holds the clock and what all contexts share.
\<close>

section \<open>State\<close>

datatype pvec = VL | VR | VLbind | VRbind | VLpc | VRpc | VLdelay | VRdelay

datatype side = L | R | X | Y

definition HANDLE_LEFT_ERROR :: u32 where "HANDLE_LEFT_ERROR = - 1"
definition HANDLE_RIGHT_ERROR :: u32 where "HANDLE_RIGHT_ERROR = - 2"
definition HANDLE_LEFT_PC_ERROR :: u32 where "HANDLE_LEFT_PC_ERROR = - 5"
definition HANDLE_RIGHT_PC_ERROR :: u32 where "HANDLE_RIGHT_PC_ERROR = - 6"
definition HANDLE_LEFT_NEW :: u32 where "HANDLE_LEFT_NEW = 2"
definition HANDLE_RIGHT_NEW :: u32 where "HANDLE_RIGHT_NEW = 4"

datatype px_cmd = Px_set_monitor int | Px_set_poll_handler int | Px_unblock int | Px_new_raw side int

record proxy =
  px_id :: nat
  px_cxs :: "pvec \<Rightarrow> baseHostCX list"
  px_trash :: "baseHostCX list"
  px_dead :: bool
  px_error_left_read :: bool
  px_error_right_read :: bool
  px_error_left_write :: bool
  px_error_right_write :: bool
  px_left_neck :: bool
  px_right_neck :: bool
  px_last_read :: int
  px_last_write :: int
  px_mtr_down :: int
  px_mtr_up :: int
  px_last_status :: u32
  px_new_raw :: bool
  px_last_tick :: int
  px_timer_interval :: int
  px_log :: "px_cmd list"

record cx_env =
  ce_io :: "nat \<Rightarrow> io_result"
  ce_iow :: "byte list \<Rightarrow> int"
  ce_pv :: "peer_view option"
  ce_readable :: bool
  ce_writable :: bool
  ce_forced_read :: bool
  ce_forced_write :: bool
  ce_read_on_write :: bool
  ce_write_on_read :: bool
  ce_in_read :: bool
  ce_in_write :: bool
  ce_new_message :: bool
  ce_connect_fd :: int

record px_env =
  pe_now :: int
  pe_hooks :: hooks
  pe_par :: params_t
  pe_rnd :: "nat \<Rightarrow> nat"
  pe_blocking :: bool
  pe_rate_meter :: bool
  pe_poll_result :: int
  pe_accept :: "pvec \<Rightarrow> nat \<Rightarrow> int \<times> string \<times> string"
  pe_bound_ready :: "pvec \<Rightarrow> nat \<Rightarrow> bool"
  pe_locked :: "pvec \<Rightarrow> nat \<Rightarrow> bool"

fun side_vec :: "side \<Rightarrow> pvec" where
  "side_vec L = VL" | "side_vec R = VR" | "side_vec X = VLpc" | "side_vec Y = VRpc"

definition is_left :: "side \<Rightarrow> bool" where
  "is_left s \<longleftrightarrow> s = L \<or> s = X"

definition the_cx :: "pvec \<Rightarrow> nat \<Rightarrow> proxy \<Rightarrow> baseHostCX" where
  "the_cx v i px = px_cxs px v ! i"

definition set_vec :: "pvec \<Rightarrow> baseHostCX list \<Rightarrow> proxy \<Rightarrow> proxy" where
  "set_vec v cxs px = px\<lparr>px_cxs := (px_cxs px)(v := cxs)\<rparr>"

definition put_cx :: "pvec \<Rightarrow> nat \<Rightarrow> baseHostCX \<Rightarrow> proxy \<Rightarrow> proxy" where
  "put_cx v i cx px = set_vec v ((px_cxs px v)[i := cx]) px"

definition on_cx :: "pvec \<Rightarrow> nat \<Rightarrow> (baseHostCX \<Rightarrow> baseHostCX) \<Rightarrow> proxy \<Rightarrow> proxy" where
  "on_cx v i f px = put_cx v i (f (the_cx v i px)) px"

definition px_do :: "px_cmd \<Rightarrow> proxy \<Rightarrow> proxy" where
  "px_do c px = px\<lparr>px_log := px_log px @ [c]\<rparr>"

section \<open>Adding and dropping contexts\<close>

text \<open>\<^verbatim>\<open>ladd\<close> and its seven kin: the vector, whether the socket is unblocked first, whether the context
  becomes permanent, and the letter of the side; \<open>s\<close> is the socket watched.\<close>

definition px_add :: "pvec \<Rightarrow> bool \<Rightarrow> bool \<Rightarrow> char \<Rightarrow> int \<Rightarrow> baseHostCX \<Rightarrow> proxy \<Rightarrow> proxy" where
  "px_add v unblock permanent flag s cx px =
     (let px = (if unblock then px_do (Px_unblock (cx_fds cx)) px else px);
          cx = (if permanent then cx\<lparr>cx_permanent := True\<rparr> else cx);
          px = px_do (Px_set_poll_handler s) (px_do (Px_set_monitor s) px);
          cx = cx\<lparr>cx_parent_proxy := Some (px_id px), cx_parent_flag := flag\<rparr>
      in set_vec v (px_cxs px v @ [cx]) px)"

definition ladd :: "baseHostCX \<Rightarrow> proxy \<Rightarrow> proxy" where
  "ladd cx = px_add VL True False CHR ''L'' (cx_fds cx) cx"

definition radd :: "baseHostCX \<Rightarrow> proxy \<Rightarrow> proxy" where
  "radd cx = px_add VR True False CHR ''R'' (cx_fds cx) cx"

definition lbadd :: "(int \<Rightarrow> int) \<Rightarrow> baseHostCX \<Rightarrow> proxy \<Rightarrow> proxy" where
  "lbadd tr cx = px_add VLbind False False CHR ''L'' (tr (cx_fds cx)) cx"

definition rbadd :: "(int \<Rightarrow> int) \<Rightarrow> baseHostCX \<Rightarrow> proxy \<Rightarrow> proxy" where
  "rbadd tr cx = px_add VRbind False False CHR ''R'' (tr (cx_fds cx)) cx"

definition lpcadd :: "(int \<Rightarrow> int) \<Rightarrow> baseHostCX \<Rightarrow> proxy \<Rightarrow> proxy" where
  "lpcadd tr cx = px_add VLpc False True CHR ''L'' (tr (cx_fds cx)) cx"

definition rpcadd :: "(int \<Rightarrow> int) \<Rightarrow> baseHostCX \<Rightarrow> proxy \<Rightarrow> proxy" where
  "rpcadd tr cx = px_add VRpc False True CHR ''R'' (tr (cx_fds cx)) cx"

definition ldaadd :: "(int \<Rightarrow> int) \<Rightarrow> baseHostCX \<Rightarrow> proxy \<Rightarrow> proxy" where
  "ldaadd tr cx = px_add VLdelay True False CHR ''l'' (tr (cx_fds cx)) cx"

definition rdaadd :: "(int \<Rightarrow> int) \<Rightarrow> baseHostCX \<Rightarrow> proxy \<Rightarrow> proxy" where
  "rdaadd tr cx = px_add VRdelay True False CHR ''r'' (tr (cx_fds cx)) cx"

definition shut_vec :: "pvec \<Rightarrow> proxy \<Rightarrow> proxy" where
  "shut_vec v px = set_vec v (map cx_shutdown (px_cxs px v)) px"

definition drop_vec :: "pvec \<Rightarrow> proxy \<Rightarrow> proxy" where
  "drop_vec v px = set_vec v [] (px\<lparr>px_trash := px_trash px @ px_cxs px v\<rparr>)"

definition left_shutdown :: "proxy \<Rightarrow> proxy" where
  "left_shutdown px = fold drop_vec [VLbind, VL, VLpc, VLdelay] (fold shut_vec [VLbind, VL, VLpc, VLdelay] px)"

definition right_shutdown :: "proxy \<Rightarrow> proxy" where
  "right_shutdown px = fold drop_vec [VRbind, VR, VRpc, VRdelay] (fold shut_vec [VRbind, VR, VRpc, VRdelay] px)"

definition px_shutdown :: "proxy \<Rightarrow> proxy" where
  "px_shutdown px = right_shutdown (left_shutdown px)"

definition lsize :: "proxy \<Rightarrow> nat" where
  "lsize px = length (px_cxs px VL) + length (px_cxs px VLbind) + length (px_cxs px VLpc) +
     length (px_cxs px VLdelay)"

definition rsize :: "proxy \<Rightarrow> nat" where
  "rsize px = length (px_cxs px VR) + length (px_cxs px VRbind) + length (px_cxs px VRpc) +
     length (px_cxs px VRdelay)"

section \<open>Timers\<close>

text \<open>The difference of the two clocks is taken in \<^verbatim>\<open>unsigned long\<close>.\<close>

definition reset_timer :: "int \<Rightarrow> proxy \<Rightarrow> bool \<times> proxy" where
  "reset_timer now px =
     (if px_timer_interval px < (now - px_last_tick px) mod 2 ^ 64 then (True, px\<lparr>px_last_tick := now\<rparr>)
      else (False, px))"

definition run_timers :: "int \<Rightarrow> proxy \<Rightarrow> bool \<times> proxy" where
  "run_timers now px =
     (let (clicked, px) = reset_timer now px
      in if clicked then
           (True, if \<exists>v\<in>set [VL, VLdelay, VLpc, VR, VRdelay, VRpc]. \<exists>cx\<in>set (px_cxs px v). idle_timeout now cx
                  then px\<lparr>px_dead := True\<rparr> else px)
         else (False, px))"

section \<open>One context\<close>

definition on_error :: "px_env \<Rightarrow> cx_env \<Rightarrow> side \<Rightarrow> nat \<Rightarrow> proxy \<Rightarrow> proxy" where
  "on_error env ce s i px =
     (case s of
        L \<Rightarrow> px
      | R \<Rightarrow> px
      | X \<Rightarrow> if cx_opening (the_cx VLpc i px) then px
             else on_cx VLpc i (\<lambda>cx. snd (cx_reconnect (pe_blocking env) (pe_now env) (ce_connect_fd ce) cx)) px
      | Y \<Rightarrow> on_cx VRpc i (\<lambda>cx. snd (cx_reconnect (pe_blocking env) (pe_now env) (ce_connect_fd ce) cx)) px)"

definition on_pc_restore :: "px_env \<Rightarrow> side \<Rightarrow> nat \<Rightarrow> proxy \<Rightarrow> proxy" where
  "on_pc_restore env s i px =
     (let v = side_vec s; px = on_cx v i (\<lambda>cx. cx_set_opening (pe_now env) cx False) px;
          fd = cx_fds (the_cx v i px)
      in px_do (Px_set_poll_handler fd) (px_do (Px_set_monitor fd) px))"

definition handle_cx_events :: "px_env \<Rightarrow> cx_env \<Rightarrow> side \<Rightarrow> nat \<Rightarrow> proxy \<Rightarrow> bool \<times> proxy" where
  "handle_cx_events env ce s i px =
     (let v = side_vec s; cx = the_cx v i px
      in if opening_timeout (pe_now env) cx \<or> idle_timeout (pe_now env) cx \<or> cx_errored cx
         then (False, on_cx v i cx_shutdown (on_error env ce s i px))
         else (\<not> ce_new_message ce, px))"

definition handle_cx_read :: "px_env \<Rightarrow> cx_env \<Rightarrow> side \<Rightarrow> nat \<Rightarrow> proxy \<Rightarrow> bool \<times> proxy" where
  "handle_cx_read env ce s i px =
     (let v = side_vec s; cx = the_cx v i px
      in if ce_readable ce \<and> \<not> cx_io_disabled cx \<or> ce_read_on_write ce then
           let (red, cx) = cx_read (pe_hooks env) (pe_par env) (pe_rnd env) (ce_io ce) (pe_now env) (ce_pv ce) cx;
               px = put_cx v i cx px
           in if red = 0 then
                let px = on_cx v i cx_shutdown px;
                    px = (if is_left s
                          then px\<lparr>px_last_status := px_last_status px OR HANDLE_LEFT_ERROR,
                                  px_error_left_read := True\<rparr>
                          else px\<lparr>px_last_status := px_last_status px OR HANDLE_RIGHT_ERROR,
                                  px_error_right_read := True\<rparr>)
                in (False, on_error env ce s i px)
              else if 0 < red then (True, px\<lparr>px_last_read := px_last_read px + red\<rparr>)
              else (True, px)
         else (True, px))"

definition handle_cx_write :: "px_env \<Rightarrow> cx_env \<Rightarrow> side \<Rightarrow> nat \<Rightarrow> proxy \<Rightarrow> bool \<times> proxy" where
  "handle_cx_write env ce s i px =
     (let v = side_vec s; cx = the_cx v i px
      in if ce_writable ce \<and> \<not> cx_io_disabled cx \<or> ce_write_on_read ce then
           let (wrt, cx) = cx_write (pe_hooks env) (pe_par env) (ce_iow ce) (pe_now env) (ce_pv ce) cx;
               px = put_cx v i cx px
           in if wrt < 0 then
                let px = on_cx v i cx_shutdown px;
                    px = (if is_left s
                          then px\<lparr>px_last_status := px_last_status px OR HANDLE_LEFT_ERROR,
                                  px_error_left_write := True\<rparr>
                          else px\<lparr>px_last_status := px_last_status px OR HANDLE_RIGHT_ERROR,
                                  px_error_right_write := True\<rparr>)
                in (False, on_error env ce s i px)
              else
                let px = px\<lparr>px_last_write := px_last_write px + wrt\<rparr>
                in (True, if 0 < wrt \<and> pe_rate_meter env then
                            if is_left s then px\<lparr>px_mtr_down := px_mtr_down px + wrt\<rparr>
                            else px\<lparr>px_mtr_up := px_mtr_up px + wrt\<rparr>
                          else px)
         else (True, px))"

definition fail_zero_socket :: "px_env \<Rightarrow> cx_env \<Rightarrow> side \<Rightarrow> nat \<Rightarrow> proxy \<Rightarrow> bool \<times> proxy" where
  "fail_zero_socket env ce s i px =
     (False, snd (handle_cx_events env ce s i (on_cx (side_vec s) i (\<lambda>cx. cx\<lparr>cx_error := True\<rparr>) px)))"

definition handle_cx_read_once :: "px_env \<Rightarrow> cx_env \<Rightarrow> side \<Rightarrow> nat \<Rightarrow> proxy \<Rightarrow> bool \<times> proxy" where
  "handle_cx_read_once env ce s i px =
     (let v = side_vec s
      in if cx_fds (the_cx v i px) = 0 then fail_zero_socket env ce s i px
         else
           let dont_read = (if is_left s then px_right_neck px else px_left_neck px);
               (waiting, cx) = read_waiting_for_peercom (pe_par env) (ce_pv ce) (the_cx v i px);
               px = put_cx v i cx px;
               (r, px) =
                 (if \<not> waiting \<and> \<not> dont_read \<and> (ce_in_read ce \<or> ce_forced_read ce) then
                    let (r, px) = handle_cx_read env ce s i px
                    in if r \<and> ce_write_on_read ce then handle_cx_write env ce s i px else (r, px)
                  else (True, px));
               (ev, px) = handle_cx_events env ce s i px
           in (r \<and> ev, px))"

section \<open>Flow control\<close>

definition change_monitor_cx :: "bool \<Rightarrow> bool \<Rightarrow> int \<Rightarrow> int \<Rightarrow> baseHostCX \<Rightarrow> baseHostCX" where
  "change_monitor_cx ifread ifwrite pause_read pause_write cx =
     (let cx = com_do cx
            (if ifread \<and> ifwrite then Com_change_monitor (cx_fds cx) (EPOLLIN OR EPOLLOUT)
             else if ifread then Com_change_monitor (cx_fds cx) EPOLLIN
             else if ifwrite then Com_change_monitor (cx_fds cx) EPOLLOUT
             else Com_unset_monitor (cx_fds cx));
          cx = (if pause_read \<noteq> 0 then cx\<lparr>cx_read_waiting := 0 < pause_read\<rparr> else cx)
      in if pause_write \<noteq> 0 then cx\<lparr>cx_write_waiting := 0 < pause_write\<rparr> else cx)"

definition change_monitor_for_cx_vec :: "pvec \<Rightarrow> bool \<Rightarrow> bool \<Rightarrow> int \<Rightarrow> int \<Rightarrow> proxy \<Rightarrow> nat \<times> proxy" where
  "change_monitor_for_cx_vec v ifread ifwrite pr pw px =
     (length (px_cxs px v), set_vec v (map (change_monitor_cx ifread ifwrite pr pw) (px_cxs px v)) px)"

definition change_side_monitoring :: "side \<Rightarrow> bool \<Rightarrow> bool \<Rightarrow> int \<Rightarrow> int \<Rightarrow> proxy \<Rightarrow> nat \<times> proxy" where
  "change_side_monitoring s ifread ifwrite pr pw px =
     (let (normal, bound) = (if is_left s then (VL, VLbind) else (VR, VRbind));
          (n, px) = change_monitor_for_cx_vec normal ifread ifwrite pr pw px;
          (m, px) = change_monitor_for_cx_vec bound ifread ifwrite pr pw px
      in (n + m, px))"

text \<open>After a write: bytes left over start or continue a bottleneck, none left ends it.\<close>

definition update_bottleneck :: "side \<Rightarrow> nat \<Rightarrow> nat \<Rightarrow> nat \<Rightarrow> proxy \<Rightarrow> proxy" where
  "update_bottleneck s i orig pending px =
     (if 0 < orig then
        if 0 < pending then
          let px = on_cx (side_vec s) i (\<lambda>cx. com_do cx (Com_set_write_monitor (cx_fds cx))) px
          in if is_left s then
               let px = px\<lparr>px_left_neck := True\<rparr>;
                   px = snd (change_side_monitoring R False False 1 0 px)
               in snd (change_side_monitoring L True True (- 1) (- 1) px)
             else
               let px = px\<lparr>px_right_neck := True\<rparr>;
                   px = snd (change_side_monitoring L False False 1 0 px)
               in snd (change_side_monitoring R True True (- 1) (- 1) px)
        else if px_left_neck px \<and> is_left s then
          snd (change_side_monitoring R True False (- 1) 0 (px\<lparr>px_left_neck := False\<rparr>))
        else if px_right_neck px \<and> \<not> is_left s then
          snd (change_side_monitoring L True False (- 1) 0 (px\<lparr>px_right_neck := False\<rparr>))
        else px
      else px)"

definition handle_cx_write_once :: "px_env \<Rightarrow> cx_env \<Rightarrow> side \<Rightarrow> nat \<Rightarrow> proxy \<Rightarrow> bool \<times> proxy" where
  "handle_cx_write_once env ce s i px =
     (let v = side_vec s
      in if cx_fds (the_cx v i px) = 0 then fail_zero_socket env ce s i px
         else
           let (waiting, cx) = write_waiting_for_peercom (pe_par env) (ce_pv ce) (the_cx v i px);
               px = put_cx v i cx px
           in if waiting then handle_cx_events env ce s i px
              else
                let orig = lb_size (cx_writebuf (the_cx v i px))
                in if ce_in_write ce \<or> ce_forced_write ce \<or> 0 < orig then
                     let (r, px) = handle_cx_write env ce s i px;
                         pending = lb_size (cx_writebuf (the_cx v i px))
                     in if \<not> r then (False, snd (handle_cx_events env ce s i px))
                        else
                          let (r, px) = (if ce_read_on_write ce then handle_cx_read env ce s i px
                                         else (True, px))
                          in if \<not> r then (False, snd (handle_cx_events env ce s i px))
                             else (True, update_bottleneck s i orig pending px)
                   else (True, px))"

section \<open>A round\<close>

text \<open>The loops over a vector: the handler answers whether to go on.\<close>

fun each_until :: "(nat \<Rightarrow> proxy \<Rightarrow> bool \<times> proxy) \<Rightarrow> nat list \<Rightarrow> proxy \<Rightarrow> proxy" where
  "each_until f [] px = px"
| "each_until f (i # is) px = (let (r, px) = f i px in if r then each_until f is px else px)"

definition each_cx :: "pvec \<Rightarrow> (nat \<Rightarrow> proxy \<Rightarrow> bool \<times> proxy) \<Rightarrow> proxy \<Rightarrow> proxy" where
  "each_cx v f px = each_until f [0..<length (px_cxs px v)] px"

definition set_pc_error :: "bool \<Rightarrow> side \<Rightarrow> proxy \<Rightarrow> proxy" where
  "set_pc_error w s px =
     (let px = px\<lparr>px_last_status := px_last_status px OR
                   (if is_left s then HANDLE_LEFT_PC_ERROR else HANDLE_RIGHT_PC_ERROR)\<rparr>
      in if is_left s then (if w then px\<lparr>px_error_left_write := True\<rparr> else px\<lparr>px_error_left_read := True\<rparr>)
         else (if w then px\<lparr>px_error_right_write := True\<rparr> else px\<lparr>px_error_right_read := True\<rparr>))"

text \<open>Half a turn of the loop over permanent connections: reading (\<open>w = False\<close>) or writing.\<close>

definition pc_half :: "px_env \<Rightarrow> (pvec \<Rightarrow> bool \<Rightarrow> nat \<Rightarrow> cx_env) \<Rightarrow> side \<Rightarrow> bool \<Rightarrow> nat \<Rightarrow> proxy \<Rightarrow> bool \<times> proxy" where
  "pc_half env E s w i px =
     (let v = side_vec s; ce = E v w i; cx = the_cx v i px
      in if cx_errored cx then
           (False, if should_reconnect_now (pe_now env) cx then on_error env ce s i px else px)
         else
           let (r, px) = (if w then handle_cx_write_once env ce s i px else handle_cx_read_once env ce s i px)
           in if \<not> r then (False, on_error env ce s i (set_pc_error w s px))
              else (True, if cx_opening (the_cx v i px) then on_pc_restore env s i px else px))"

definition pc_turn :: "px_env \<Rightarrow> (pvec \<Rightarrow> bool \<Rightarrow> nat \<Rightarrow> cx_env) \<Rightarrow> side \<Rightarrow> nat \<Rightarrow> proxy \<Rightarrow> bool \<times> proxy" where
  "pc_turn env E s i px =
     (let (r, px) = pc_half env E s False i px
      in if r then pc_half env E s True i px else (False, px))"

definition handle_sockets_accept :: "px_env \<Rightarrow> side \<Rightarrow> nat \<Rightarrow> proxy \<Rightarrow> bool \<times> proxy" where
  "handle_sockets_accept env s i px =
     (let (client, src) = pe_accept env (if is_left s then VLbind else VRbind) i
      in if client < 0 then (False, px)
         else if px_new_raw px then (True, px_do (Px_new_raw s client) px)
         else
           case baseHostCX_socket (pe_par env) (pe_rnd env) (pe_now env) True client of
             Inl _ \<Rightarrow> (True, px)
           | Inr cx \<Rightarrow>
               let cx = (if cx_read_waiting cx then on_delay_socket client cx
                         else on_accept_socket client src cx)
               in (True, if is_left s then ladd cx px else radd cx px))"

fun bound_loop :: "px_env \<Rightarrow> side \<Rightarrow> nat list \<Rightarrow> proxy \<Rightarrow> proxy result" where
  "bound_loop env s [] px = ok px"
| "bound_loop env s (i # is) px =
     (let v = (if is_left s then VLbind else VRbind)
      in if pe_bound_ready env v i then
           let px = snd (handle_sockets_accept env s i px)
           in if \<not> pe_locked env v i then raise Runtime_error
              else bound_loop env s is (px\<lparr>px_last_status := px_last_status px OR
                     (if is_left s then HANDLE_LEFT_NEW else HANDLE_RIGHT_NEW)\<rparr>)
         else bound_loop env s is px)"

text \<open>Delayed contexts that no longer wait for their peer are accepted and move to the ordinary ones.\<close>

fun accept_from :: "px_env \<Rightarrow> (nat \<Rightarrow> cx_env) \<Rightarrow> (baseHostCX \<Rightarrow> proxy \<Rightarrow> proxy) \<Rightarrow> nat \<Rightarrow> baseHostCX list \<Rightarrow>
    proxy \<Rightarrow> baseHostCX list \<times> proxy" where
  "accept_from env E add i [] px = ([], px)"
| "accept_from env E add i (cx # cxs) px =
     (let (waiting, cx) = read_waiting_for_peercom (pe_par env) (ce_pv (E i)) cx
      in if waiting then
           let (rest, px) = accept_from env E add (i + 1) cxs px in (cx # rest, px)
         else
           accept_from env E add (i + 1) cxs (add (on_accept_socket (cx_fds cx) ([], []) cx) px))"

definition accept_delayed :: "px_env \<Rightarrow> (pvec \<Rightarrow> bool \<Rightarrow> nat \<Rightarrow> cx_env) \<Rightarrow> side \<Rightarrow> proxy \<Rightarrow> proxy" where
  "accept_delayed env E s px =
     (let v = (if is_left s then VLdelay else VRdelay);
          (rest, px) = accept_from env (E v False) (if is_left s then ladd else radd) 0 (px_cxs px v) px
      in set_vec v rest px)"

definition reset_round :: "proxy \<Rightarrow> proxy" where
  "reset_round px = px\<lparr>px_last_read := 0, px_last_write := 0, px_error_left_read := False,
     px_error_left_write := False, px_error_right_read := False, px_error_right_write := False\<rparr>"

definition data_round :: "px_env \<Rightarrow> (pvec \<Rightarrow> bool \<Rightarrow> nat \<Rightarrow> cx_env) \<Rightarrow> proxy \<Rightarrow> proxy" where
  "data_round env E px =
     (let px = each_cx VL (\<lambda>i. handle_cx_read_once env (E VL False i) L i) px;
          px = each_cx VR (\<lambda>i. handle_cx_read_once env (E VR False i) R i) px;
          px = each_cx VL (\<lambda>i. handle_cx_write_once env (E VL True i) L i) px;
          px = each_cx VR (\<lambda>i. handle_cx_write_once env (E VR True i) R i) px;
          px = each_cx VLpc (pc_turn env E X) px
      in each_cx VRpc (pc_turn env E Y) px)"

definition accept_round :: "px_env \<Rightarrow> (pvec \<Rightarrow> bool \<Rightarrow> nat \<Rightarrow> cx_env) \<Rightarrow> proxy \<Rightarrow> proxy result" where
  "accept_round env E px =
     (case bound_loop env L [0..<length (px_cxs px VLbind)] px of
        Inl x \<Rightarrow> Inl x
      | Inr px \<Rightarrow>
          let px = accept_delayed env E L px
          in case bound_loop env R [0..<length (px_cxs px VRbind)] px of
               Inl x \<Rightarrow> Inl x
             | Inr px \<Rightarrow> ok (accept_delayed env E R px))"

definition handle_sockets_once :: "px_env \<Rightarrow> (pvec \<Rightarrow> bool \<Rightarrow> nat \<Rightarrow> cx_env) \<Rightarrow> proxy \<Rightarrow> (int \<times> proxy) result" where
  "handle_sockets_once env E px =
     (let px = reset_round (snd (run_timers (pe_now env) px))
      in if 0 \<le> pe_poll_result env then
           let px = data_round env E px
           in case (if 0 < pe_poll_result env then accept_round env E px else ok px) of
                Inl x \<Rightarrow> Inl x
              | Inr px \<Rightarrow> ok (if pe_poll_result env = 0 then 0 else px_last_read px + px_last_write px, px)
         else ok (0, px))"

section \<open>Connecting\<close>

definition px_listen :: "px_env \<Rightarrow> (int \<Rightarrow> int) \<Rightarrow> string \<times> string \<Rightarrow> int \<Rightarrow> bool \<Rightarrow> proxy \<Rightarrow>
    (baseHostCX option \<times> proxy) result" where
  "px_listen env tr dst sock left px =
     (if 0 < sock then
        (case baseHostCX_socket (pe_par env) (pe_rnd env) (pe_now env) True sock of
           Inl x \<Rightarrow> Inl x
         | Inr cx \<Rightarrow>
             let cx = cx\<lparr>cx_host := fst dst, cx_port := snd dst\<rparr>
             in ok (Some cx, if left then lbadd tr cx px else rbadd tr cx px))
      else ok (None, px))"

definition px_bind :: "px_env \<Rightarrow> (int \<Rightarrow> int) \<Rightarrow> string \<times> string \<Rightarrow> int \<Rightarrow> bool \<Rightarrow> proxy \<Rightarrow> (int \<times> proxy) result"
  where
  "px_bind env tr dst s left px =
     (case px_listen env tr dst s left px of
        Inl x \<Rightarrow> Inl x
      | Inr (None, px) \<Rightarrow> ok (- 1, px)
      | Inr (Some cx, px) \<Rightarrow> ok (cx_fds cx, px))"

definition px_connect :: "px_env \<Rightarrow> (int \<Rightarrow> int) \<Rightarrow> string \<Rightarrow> string \<Rightarrow> int \<Rightarrow> char \<Rightarrow> proxy \<Rightarrow> (int \<times> proxy) result"
  where
  "px_connect env tr host port fd side px =
     (case baseHostCX_host (pe_par env) (pe_rnd env) (pe_now env) True host port of
        Inl x \<Rightarrow> Inl x
      | Inr cx \<Rightarrow>
          let (sock, cx) = cx_connect (pe_blocking env) (pe_now env) fd cx
          in ok (sock, if 0 < sock then if side = CHR ''L'' then lpcadd tr cx px else rpcadd tr cx px
                       else px))"


section \<open>What the handlers keep\<close>

lemma set_vec_simps [simp]:
  "px_cxs (set_vec v cxs px) = (px_cxs px)(v := cxs)" "px_id (set_vec v cxs px) = px_id px"
  "px_trash (set_vec v cxs px) = px_trash px" "px_left_neck (set_vec v cxs px) = px_left_neck px"
  "px_right_neck (set_vec v cxs px) = px_right_neck px" "px_dead (set_vec v cxs px) = px_dead px"
  "px_last_read (set_vec v cxs px) = px_last_read px" "px_new_raw (set_vec v cxs px) = px_new_raw px"
  by (simp_all add: set_vec_def)

lemma px_do_simps [simp]:
  "px_cxs (px_do c px) = px_cxs px" "px_trash (px_do c px) = px_trash px" "px_id (px_do c px) = px_id px"
  "px_left_neck (px_do c px) = px_left_neck px" "px_right_neck (px_do c px) = px_right_neck px"
  "px_new_raw (px_do c px) = px_new_raw px"
  by (simp_all add: px_do_def)

lemma px_cxs_put: "px_cxs (put_cx v i cx px) w = (if w = v then (px_cxs px v)[i := cx] else px_cxs px w)"
  by (simp add: put_cx_def)

lemma put_cx_simps [simp]:
  "px_trash (put_cx v i cx px) = px_trash px"
  "px_left_neck (put_cx v i cx px) = px_left_neck px" "px_right_neck (put_cx v i cx px) = px_right_neck px"
  by (simp_all add: put_cx_def)

lemma map_eq_update:
  assumes "f cx = f (xs ! i)"
  shows "map f (xs[i := cx]) = map f xs"
proof (cases "i < length xs")
  case True
  have "map f (xs[i := cx]) = (map f xs)[i := map f xs ! i]" using assms True by (simp add: map_update)
  then show ?thesis by simp
qed (simp add: not_less list_update_beyond)

text \<open>A quantity of the contexts that a step of the proxy leaves as it is, context by context.\<close>

definition keeps :: "(baseHostCX \<Rightarrow> 'a) \<Rightarrow> proxy \<Rightarrow> proxy \<Rightarrow> bool" where
  "keeps q px px' \<longleftrightarrow> (\<forall>v. map q (px_cxs px' v) = map q (px_cxs px v))"

lemma px_keeps_refl [simp]: "keeps q px px"
  by (simp add: keeps_def)

lemma px_keeps_trans [trans]: "keeps q a b \<Longrightarrow> keeps q b c \<Longrightarrow> keeps q a c"
  by (simp add: keeps_def)

lemma keeps_put: "q cx = q (the_cx v i px) \<Longrightarrow> keeps q px (put_cx v i cx px)"
  by (simp add: keeps_def px_cxs_put the_cx_def map_eq_update)

lemma keeps_on_cx: "(\<And>cx. q (f cx) = q cx) \<Longrightarrow> keeps q px (on_cx v i f px)"
  by (simp add: on_cx_def keeps_put)

lemma keeps_cxs: "px_cxs px' = px_cxs px \<Longrightarrow> keeps q px px'"
  by (simp add: keeps_def)

lemma keeps_map: "(\<And>cx. q (f cx) = q cx) \<Longrightarrow> keeps q px (set_vec v (map f (px_cxs px v)) px)"
  by (simp add: keeps_def comp_def)

lemma keeps_length: "keeps q px px' \<Longrightarrow> length (px_cxs px' v) = length (px_cxs px v)"
  unfolding keeps_def by (metis length_map)

lemma keeps_each_until:
  "(\<And>i px. keeps q px (snd (f i px))) \<Longrightarrow> keeps q px (each_until f is px)"
proof (induction "is" arbitrary: px)
  case (Cons i "is")
  obtain r p where f: "f i px = (r, p)" by force
  have "keeps q px p" using Cons.prems [of px i] f by simp
  moreover have "keeps q p (each_until f is p)" using Cons by blast
  ultimately show ?case using px_keeps_trans by (auto simp: f)
qed simp

lemma keeps_each_cx: "(\<And>i px. keeps q px (snd (f i px))) \<Longrightarrow> keeps q px (each_cx v f px)"
  by (simp add: each_cx_def keeps_each_until)

text \<open>What a quantity must not notice for the handlers to keep it. \<open>quiet\<close> is the part that no
  reading and writing touches; \<open>reads\<close> and \<open>writes\<close> say that reading, writing keep it too.\<close>

locale cx_quantity =
  fixes q :: "baseHostCX \<Rightarrow> 'a"
  assumes shutdown: "q (cx_shutdown cx) = q cx"
    and reconnect: "q (snd (cx_reconnect bl now fd cx)) = q cx"
    and set_opening: "q (cx_set_opening now cx b) = q cx"
    and set_error: "q (cx\<lparr>cx_error := e\<rparr>) = q cx"
    and change_monitor: "q (change_monitor_cx r w pr pw cx) = q cx"
    and write_monitor: "q (com_do cx (Com_set_write_monitor fd)) = q cx"
    and read_wait: "q (snd (read_waiting_for_peercom par pv cx)) = q cx"
    and write_wait: "q (snd (write_waiting_for_peercom par pv cx)) = q cx"
begin

lemma keeps_on_error: "keeps q px (on_error env ce s i px)"
  by (simp add: on_error_def keeps_on_cx reconnect split: side.split)

lemma keeps_restore: "keeps q px (on_pc_restore env s i px)"
proof -
  have "keeps q px (on_cx (side_vec s) i (\<lambda>cx. cx_set_opening (pe_now env) cx False) px)"
    by (simp add: keeps_on_cx set_opening)
  then show ?thesis by (simp add: on_pc_restore_def Let_def keeps_def)
qed

lemma keeps_events: "keeps q px (snd (handle_cx_events env ce s i px))"
  using px_keeps_trans [OF keeps_on_error keeps_on_cx, where f1 = cx_shutdown]
  by (simp add: handle_cx_events_def Let_def shutdown)

lemma keeps_fail: "keeps q px (snd (fail_zero_socket env ce s i px))"
  using px_keeps_trans [OF keeps_on_cx keeps_events] by (simp add: fail_zero_socket_def set_error)

lemma keeps_side_monitoring: "keeps q px (snd (change_side_monitoring s r w pr pw px))"
proof -
  have "keeps q p (snd (change_monitor_for_cx_vec v r w pr pw p))" for p v
    by (simp add: change_monitor_for_cx_vec_def keeps_map change_monitor)
  from px_keeps_trans [OF this this] show ?thesis
    by (simp add: change_side_monitoring_def Let_def split_beta)
qed

lemma keeps_bottleneck: "keeps q px (update_bottleneck s i orig pending px)"
proof -
  let ?m = "on_cx (side_vec s) i (\<lambda>cx. com_do cx (Com_set_write_monitor (cx_fds cx))) px"
  have m: "keeps q px ?m" by (simp add: keeps_on_cx write_monitor)
  have neck: "keeps q p (p\<lparr>px_left_neck := b\<rparr>)" "keeps q p (p\<lparr>px_right_neck := b\<rparr>)" for p b
    by (simp_all add: keeps_cxs)
  note sm = keeps_side_monitoring
  show ?thesis
    unfolding update_bottleneck_def Let_def
    using px_keeps_trans [OF m px_keeps_trans [OF neck(1) px_keeps_trans [OF sm sm]]]
      px_keeps_trans [OF m px_keeps_trans [OF neck(2) px_keeps_trans [OF sm sm]]]
      px_keeps_trans [OF neck(1) sm] px_keeps_trans [OF neck(2) sm] by simp
qed

definition reads_keep :: "px_env \<Rightarrow> cx_env \<Rightarrow> bool" where
  "reads_keep env ce \<longleftrightarrow> (\<forall>cx. q (snd (cx_read (pe_hooks env) (pe_par env) (pe_rnd env) (ce_io ce)
     (pe_now env) (ce_pv ce) cx)) = q cx)"

definition writes_keep :: "px_env \<Rightarrow> cx_env \<Rightarrow> bool" where
  "writes_keep env ce \<longleftrightarrow> (\<forall>cx. q (snd (cx_write (pe_hooks env) (pe_par env) (ce_iow ce)
     (pe_now env) (ce_pv ce) cx)) = q cx)"

lemma keeps_read:
  assumes "reads_keep env ce"
  shows "keeps q px (snd (handle_cx_read env ce s i px))"
proof -
  obtain red cx where r: "cx_read (pe_hooks env) (pe_par env) (pe_rnd env) (ce_io ce) (pe_now env)
      (ce_pv ce) (the_cx (side_vec s) i px) = (red, cx)" by force
  define p where "p = put_cx (side_vec s) i cx px"
  have p: "keeps q px p"
    using assms r unfolding p_def reads_keep_def by (metis keeps_put snd_conv)
  define p1 where "p1 = on_cx (side_vec s) i cx_shutdown p"
  define p2 where "p2 = (if is_left s
     then p1\<lparr>px_last_status := px_last_status p1 OR HANDLE_LEFT_ERROR, px_error_left_read := True\<rparr>
     else p1\<lparr>px_last_status := px_last_status p1 OR HANDLE_RIGHT_ERROR, px_error_right_read := True\<rparr>)"
  have "keeps q p p1" by (simp add: p1_def keeps_on_cx shutdown)
  moreover have "keeps q p1 p2" by (simp add: p2_def keeps_cxs)
  ultimately have e: "keeps q p (on_error env ce s i p2)"
    using px_keeps_trans keeps_on_error by blast
  have c: "keeps q p (p\<lparr>px_last_read := n\<rparr>)" for n by (simp add: keeps_cxs)
  have "snd (handle_cx_read env ce s i px)
      \<in> {px, on_error env ce s i p2, p\<lparr>px_last_read := px_last_read p + red\<rparr>, p}"
    unfolding handle_cx_read_def Let_def r prod.case p_def [symmetric] p1_def [symmetric] p2_def [symmetric]
    by simp
  then show ?thesis using px_keeps_trans [OF p e] px_keeps_trans [OF p c] p by auto
qed

lemma keeps_write:
  assumes "writes_keep env ce"
  shows "keeps q px (snd (handle_cx_write env ce s i px))"
proof -
  obtain wrt cx where r: "cx_write (pe_hooks env) (pe_par env) (ce_iow ce) (pe_now env)
      (ce_pv ce) (the_cx (side_vec s) i px) = (wrt, cx)" by force
  define p where "p = put_cx (side_vec s) i cx px"
  have p: "keeps q px p"
    using assms r unfolding p_def writes_keep_def by (metis keeps_put snd_conv)
  define p1 where "p1 = on_cx (side_vec s) i cx_shutdown p"
  define p2 where "p2 = (if is_left s
     then p1\<lparr>px_last_status := px_last_status p1 OR HANDLE_LEFT_ERROR, px_error_left_write := True\<rparr>
     else p1\<lparr>px_last_status := px_last_status p1 OR HANDLE_RIGHT_ERROR, px_error_right_write := True\<rparr>)"
  have "keeps q p p1" by (simp add: p1_def keeps_on_cx shutdown)
  moreover have "keeps q p1 p2" by (simp add: p2_def keeps_cxs)
  ultimately have e: "keeps q p (on_error env ce s i p2)"
    using px_keeps_trans keeps_on_error by blast
  define d where "d = p\<lparr>px_last_write := px_last_write p + wrt\<rparr>"
  define d1 where "d1 = (if 0 < wrt \<and> pe_rate_meter env then
      if is_left s then d\<lparr>px_mtr_down := px_mtr_down d + wrt\<rparr> else d\<lparr>px_mtr_up := px_mtr_up d + wrt\<rparr>
      else d)"
  have d1: "keeps q p d1" by (simp add: d1_def d_def keeps_cxs)
  have "snd (handle_cx_write env ce s i px) \<in> {px, on_error env ce s i p2, d1}"
    unfolding handle_cx_write_def Let_def r prod.case p_def [symmetric] p1_def [symmetric] p2_def [symmetric]
      d_def [symmetric] d1_def [symmetric]
    by simp
  then show ?thesis using px_keeps_trans [OF p e] px_keeps_trans [OF p d1] by auto
qed

lemma keeps_read_once:
  assumes "reads_keep env ce \<and> writes_keep env ce \<or> (if is_left s then px_right_neck px else px_left_neck px)"
  shows "keeps q px (snd (handle_cx_read_once env ce s i px))"
proof (cases "cx_fds (the_cx (side_vec s) i px) = 0")
  case False
  define dont where "dont = (if is_left s then px_right_neck px else px_left_neck px)"
  obtain w cx where w: "read_waiting_for_peercom (pe_par env) (ce_pv ce) (the_cx (side_vec s) i px) = (w, cx)"
    by force
  define p where "p = put_cx (side_vec s) i cx px"
  obtain r1 p1 where r1: "handle_cx_read env ce s i p = (r1, p1)" by force
  obtain r2 p2 where r2: "handle_cx_write env ce s i p1 = (r2, p2)" by force
  define rp where "rp = (if \<not> w \<and> \<not> dont \<and> (ce_in_read ce \<or> ce_forced_read ce)
     then if r1 \<and> ce_write_on_read ce then (r2, p2) else (r1, p1) else (True, p))"
  have p: "keeps q px p" using w unfolding p_def by (metis keeps_put read_wait snd_conv)
  have "keeps q p (snd rp)"
  proof (cases dont)
    case True
    then show ?thesis by (simp add: rp_def)
  next
    case False
    then have "reads_keep env ce" "writes_keep env ce" using assms by (auto simp: dont_def)
    then have "keeps q p p1" "keeps q p1 p2" using keeps_read keeps_write r1 r2 by (metis snd_conv)+
    then show ?thesis using px_keeps_trans by (auto simp: rp_def)
  qed
  moreover have "snd (handle_cx_read_once env ce s i px) = snd (handle_cx_events env ce s i (snd rp))"
    using False unfolding handle_cx_read_once_def Let_def dont_def [symmetric] w prod.case p_def [symmetric] r1 r2
    by (simp add: rp_def split_beta)
  ultimately show ?thesis using p px_keeps_trans keeps_events by metis
qed (simp add: handle_cx_read_once_def Let_def keeps_fail)

lemma keeps_write_once:
  assumes "reads_keep env ce" and "writes_keep env ce"
  shows "keeps q px (snd (handle_cx_write_once env ce s i px))"
proof (cases "cx_fds (the_cx (side_vec s) i px) = 0")
  case False
  obtain w cx where w: "write_waiting_for_peercom (pe_par env) (ce_pv ce) (the_cx (side_vec s) i px) = (w, cx)"
    by force
  define p where "p = put_cx (side_vec s) i cx px"
  obtain r1 p1 where r1: "handle_cx_write env ce s i p = (r1, p1)" by force
  obtain r2 p2 where r2: "handle_cx_read env ce s i p1 = (r2, p2)" by force
  define o1 where "o1 = lb_size (cx_writebuf (the_cx (side_vec s) i p))"
  define o2 where "o2 = lb_size (cx_writebuf (the_cx (side_vec s) i p1))"
  have p: "keeps q px p" using w unfolding p_def by (metis keeps_put write_wait snd_conv)
  have p1: "keeps q p p1" using keeps_write [OF assms(2)] r1 by (metis snd_conv)
  have p2: "keeps q p1 p2" using keeps_read [OF assms(1)] r2 by (metis snd_conv)
  have "snd (handle_cx_write_once env ce s i px) \<in>
     {snd (handle_cx_events env ce s i p), snd (handle_cx_events env ce s i p1),
      snd (handle_cx_events env ce s i p2), update_bottleneck s i o1 o2 p1, update_bottleneck s i o1 o2 p2, p}"
    using False unfolding handle_cx_write_once_def Let_def w prod.case p_def [symmetric] r1 o1_def [symmetric]
      o2_def [symmetric] r2 by simp
  then show ?thesis
    using px_keeps_trans [OF p keeps_events] px_keeps_trans [OF px_keeps_trans [OF p p1] keeps_events]
      px_keeps_trans [OF px_keeps_trans [OF px_keeps_trans [OF p p1] p2] keeps_events]
      px_keeps_trans [OF px_keeps_trans [OF p p1] keeps_bottleneck]
      px_keeps_trans [OF px_keeps_trans [OF px_keeps_trans [OF p p1] p2] keeps_bottleneck] p
    by fastforce
qed (simp add: handle_cx_write_once_def Let_def keeps_fail)

lemma keeps_pc_half:
  assumes "reads_keep env (E (side_vec s) w i)" and "writes_keep env (E (side_vec s) w i)"
  shows "keeps q px (snd (pc_half env E s w i px))"
proof -
  let ?ce = "E (side_vec s) w i"
  obtain r p where r: "(if w then handle_cx_write_once env ?ce s i px else handle_cx_read_once env ?ce s i px)
      = (r, p)" by force
  have p: "keeps q px p"
    using keeps_write_once [OF assms, of px s i] keeps_read_once [of env ?ce s px i] assms r
    by (cases w) auto
  have e: "keeps q p (set_pc_error w s p)" by (simp add: set_pc_error_def Let_def keeps_cxs)
  have "snd (pc_half env E s w i px) \<in>
     {on_error env ?ce s i px, px, on_error env ?ce s i (set_pc_error w s p), on_pc_restore env s i p, p}"
    unfolding pc_half_def Let_def r prod.case by simp
  then show ?thesis
    using keeps_on_error [of px env ?ce s i] px_keeps_trans [OF px_keeps_trans [OF p e] keeps_on_error]
      px_keeps_trans [OF p keeps_restore] p by fastforce
qed

lemma keeps_data_round:
  assumes "\<And>v w i. reads_keep env (E v w i)" and "\<And>v w i. writes_keep env (E v w i)"
  shows "keeps q px (data_round env E px)"
proof -
  have r: "keeps q p (each_cx v (\<lambda>i. handle_cx_read_once env (E v w i) s i) p)" for v w s p
    using assms keeps_read_once by (intro keeps_each_cx) blast
  have w: "keeps q p (each_cx v (\<lambda>i. handle_cx_write_once env (E v w i) s i) p)" for v w s p
    using assms keeps_write_once by (intro keeps_each_cx) blast
  have t: "keeps q p (snd (pc_turn env E s i p))" for s i p
  proof -
    obtain r p1 where h: "pc_half env E s False i p = (r, p1)" by force
    then have p1: "keeps q p p1" using keeps_pc_half assms by (metis snd_conv)
    have "keeps q p1 (snd (pc_half env E s True i p1))" by (rule keeps_pc_half) (use assms in blast)+
    from p1 px_keeps_trans [OF p1 this] show ?thesis by (simp add: pc_turn_def Let_def h)
  qed
  have pc: "keeps q p (each_cx v (pc_turn env E s) p)" for v s p
    using t by (intro keeps_each_cx) blast
  show ?thesis
    unfolding data_round_def Let_def
    by (rule px_keeps_trans [OF r px_keeps_trans [OF r px_keeps_trans [OF w px_keeps_trans [OF w px_keeps_trans [OF pc pc]]]]])
qed

end

text \<open>The bytes of a context on their way out: sent already, then waiting in the write buffer.\<close>

definition wire :: "baseHostCX \<Rightarrow> byte list" where
  "wire cx = sent cx @ lb_bytes (cx_writebuf cx)"

lemma wire_frame: "out_frame cx cx' \<Longrightarrow> wire cx' = wire cx"
  by (simp add: wire_def out_frame_def)

lemma reconnect_frame: "out_frame cx (snd (cx_reconnect bl now fd cx))"
  using shutdown_frame [of cx]
  by (simp add: cx_reconnect_def cx_connect_def out_frame_def Let_def cx_set_opening_def)

interpretation out: cx_quantity wire
  by unfold_locales
     (simp_all add: wire_frame shutdown_frame reconnect_frame read_waiting_frame write_waiting_frame,
      simp_all add: wire_def change_monitor_cx_def Let_def)

text \<open>What a context has read.\<close>

definition intake :: "baseHostCX \<Rightarrow> lbuf \<times> u64" where
  "intake cx = (cx_readbuf cx, cx_read_bytes cx)"

lemma shutdown_intake: "intake (cx_shutdown cx) = intake cx"
  by (simp add: intake_def cx_shutdown_def unhandle_def Let_def)

interpretation inp: cx_quantity intake
proof
  fix cx bl now fd
  show "intake (snd (cx_reconnect bl now fd cx)) = intake cx"
    using shutdown_intake [of cx]
    by (simp add: cx_reconnect_def cx_connect_def Let_def cx_set_opening_def intake_def)
next
  fix cx par pv
  show "intake (snd (read_waiting_for_peercom par pv cx)) = intake cx"
    by (simp add: read_waiting_for_peercom_def intake_def Let_def split: option.splits bool.splits)
next
  fix cx par pv
  show "intake (snd (write_waiting_for_peercom par pv cx)) = intake cx"
    by (simp add: write_waiting_for_peercom_def intake_def Let_def split: option.splits bool.splits)
qed (simp_all add: shutdown_intake, simp_all add: intake_def change_monitor_cx_def Let_def)


section \<open>Accepting\<close>

text \<open>The outgoing bytes of all contexts of a vector, in order.\<close>

abbreviation wires :: "proxy \<Rightarrow> pvec \<Rightarrow> byte list list" where
  "wires px v \<equiv> map wire (px_cxs px v)"

lemma px_add_wires: "wires (px_add v u p f s cx px) w = wires px w @ (if w = v then [wire cx] else [])"
  by (simp add: px_add_def Let_def wire_def)

lemma new_cx_wire: "baseHostCX_socket par rnd now c s = ok cx \<Longrightarrow> wire cx = []"
  by (auto simp: baseHostCX_socket_def new_cx_def blank_cx_def Let_def wire_def cx_set_opening_def com_do_def
      lb_capacity_def split: if_splits)

lemma accept_socket_wire [simp]: "wire (on_accept_socket fd src cx) = wire cx" "wire (on_delay_socket fd cx) = wire cx"
  by (simp_all add: on_accept_socket_def on_delay_socket_def wire_def Let_def)

lemma add_wires:
  "wires (ladd cx px) w = wires px w @ (if w = VL then [wire cx] else [])"
  "wires (radd cx px) w = wires px w @ (if w = VR then [wire cx] else [])"
  by (simp_all add: ladd_def radd_def px_add_wires)

lemma handle_accept_wires:
  "\<exists>k. \<forall>w. wires (snd (handle_sockets_accept env s i px)) w =
     wires px w @ (if w = (if is_left s then VL else VR) then replicate k [] else [])"
proof -
  obtain c src where a: "pe_accept env (if is_left s then VLbind else VRbind) i = (c, src)"
    by (cases "pe_accept env (if is_left s then VLbind else VRbind) i")
  have none: "\<exists>k. \<forall>w. wires p w = wires px w @ (if w = (if is_left s then VL else VR) then replicate k [] else [])"
    if "px_cxs p = px_cxs px" for p
    using that by (intro exI [of _ 0]) simp
  show ?thesis
  proof (cases "c < 0 \<or> px_new_raw px")
    case True
    then have "px_cxs (snd (handle_sockets_accept env s i px)) = px_cxs px"
      by (auto simp: handle_sockets_accept_def a)
    then show ?thesis by (rule none)
  next
    case False
    show ?thesis
    proof (cases "baseHostCX_socket (pe_par env) (pe_rnd env) (pe_now env) True c")
      case (Inl x)
      then have "px_cxs (snd (handle_sockets_accept env s i px)) = px_cxs px"
        using False by (simp add: handle_sockets_accept_def a)
      then show ?thesis by (rule none)
    next
      case (Inr cx)
      define cx' where "cx' = (if cx_read_waiting cx then on_delay_socket c cx else on_accept_socket c src cx)"
      have "wire cx' = []" using new_cx_wire [OF Inr] by (simp add: cx'_def)
      moreover have "snd (handle_sockets_accept env s i px) = (if is_left s then ladd cx' px else radd cx' px)"
        using False Inr by (simp add: handle_sockets_accept_def a cx'_def Let_def)
      ultimately show ?thesis by (intro exI [of _ 1]) (simp add: add_wires)
    qed
  qed
qed

lemma bound_loop_wires:
  "bound_loop env s is px = ok px' \<Longrightarrow>
   \<exists>k. \<forall>w. wires px' w = wires px w @ (if w = (if is_left s then VL else VR) then replicate k [] else [])"
proof (induction "is" arbitrary: px)
  case Nil
  then show ?case by (intro exI [of _ 0]) simp
next
  case (Cons i "is")
  let ?v = "if is_left s then VLbind else VRbind"
  let ?w = "if is_left s then VL else VR"
  show ?case
  proof (cases "pe_bound_ready env ?v i")
    case True
    define p where "p = snd (handle_sockets_accept env s i px)"
    define p1 where "p1 = p\<lparr>px_last_status := px_last_status p OR
                     (if is_left s then HANDLE_LEFT_NEW else HANDLE_RIGHT_NEW)\<rparr>"
    have "bound_loop env s is p1 = ok px'"
      using Cons.prems True by (auto simp: p_def p1_def Let_def split: if_splits)
    then obtain k where k: "\<forall>w. wires px' w = wires p1 w @ (if w = ?w then replicate k [] else [])"
      using Cons.IH by blast
    obtain j where j: "\<forall>w. wires p w = wires px w @ (if w = ?w then replicate j [] else [])"
      using handle_accept_wires [of env s i px] unfolding p_def by blast
    show ?thesis
      using k j by (intro exI [of _ "j + k"]) (simp add: p1_def replicate_add)
  next
    case False
    then show ?thesis using Cons by (simp add: Let_def)
  qed
qed

lemma read_wait_wire: "read_waiting_for_peercom par pv cx = (w, cx') \<Longrightarrow> wire cx' = wire cx"
  by (metis out.read_wait snd_conv)

lemma accept_from_wires:
  assumes "accept_from env E (if is_left s then ladd else radd) i cxs px = (rest, px')"
  shows "\<exists>moved. (\<forall>w. wires px' w = wires px w @ (if w = (if is_left s then VL else VR) then moved else [])) \<and>
     mset moved + mset (map wire rest) = mset (map wire cxs)"
  using assms
proof (induction cxs arbitrary: i px rest)
  case Nil
  then show ?case by (intro exI [of _ "[]"]) auto
next
  case (Cons cx cxs)
  let ?w = "if is_left s then VL else VR"
  let ?add = "if is_left s then ladd else radd"
  obtain waiting cx1 where r: "read_waiting_for_peercom (pe_par env) (ce_pv (E i)) cx = (waiting, cx1)" by force
  note wire1 = read_wait_wire [OF r]
  show ?case
  proof (cases waiting)
    case True
    obtain rest1 where 1: "accept_from env E ?add (i + 1) cxs px = (rest1, px')" "rest = cx1 # rest1"
      using Cons.prems r True by (auto split: prod.splits)
    from Cons.IH [OF 1(1)] obtain moved where
      "\<forall>w. wires px' w = wires px w @ (if w = ?w then moved else [])"
      "mset moved + mset (map wire rest1) = mset (map wire cxs)" by blast
    then show ?thesis using 1(2) wire1 by (intro exI [of _ moved]) simp
  next
    case False
    define p where "p = ?add (on_accept_socket (cx_fds cx1) ([], []) cx1) px"
    have 1: "accept_from env E ?add (i + 1) cxs p = (rest, px')"
      using Cons.prems r False by (simp add: p_def)
    from Cons.IH [OF 1] obtain moved where
      m: "\<forall>w. wires px' w = wires p w @ (if w = ?w then moved else [])"
      "mset moved + mset (map wire rest) = mset (map wire cxs)" by blast
    have "wires p w = wires px w @ (if w = ?w then [wire cx] else [])" for w
      using wire1 by (simp add: p_def add_wires)
    then show ?thesis using m by (intro exI [of _ "wire cx # moved"]) simp
  qed
qed

lemma accept_delayed_wires:
  fixes s
  defines "v \<equiv> if is_left s then VL else VR" and "d \<equiv> if is_left s then VLdelay else VRdelay"
  shows "\<exists>moved. (\<forall>w. w \<noteq> d \<longrightarrow> wires (accept_delayed env E s px) w = wires px w @ (if w = v then moved else [])) \<and>
     mset moved + mset (wires (accept_delayed env E s px) d) = mset (wires px d)"
proof -
  obtain rest p where a: "accept_from env (E d False) (if is_left s then ladd else radd) 0 (px_cxs px d) px = (rest, p)"
    by force
  have "accept_delayed env E s px = set_vec d rest p"
    using a by (simp add: accept_delayed_def d_def Let_def)
  moreover from accept_from_wires [OF a, folded v_def] obtain moved where
    "\<forall>w. wires p w = wires px w @ (if w = v then moved else [])"
    "mset moved + mset (map wire rest) = mset (map wire (px_cxs px d))" by blast
  ultimately show ?thesis by (intro exI [of _ moved]) simp
qed


lemma accept_round_wires:
  assumes "accept_round env E px = ok px'"
  shows "\<exists>ls k rs j.
     (\<forall>w. w \<noteq> VLdelay \<longrightarrow> w \<noteq> VRdelay \<longrightarrow>
        wires px' w = wires px w @ (if w = VL then ls else if w = VR then rs else [])) \<and>
     mset ls + mset (wires px' VLdelay) = mset (wires px VLdelay) + replicate_mset k [] \<and>
     mset rs + mset (wires px' VRdelay) = mset (wires px VRdelay) + replicate_mset j []"
proof -
  obtain p1 where 1: "bound_loop env L [0..<length (px_cxs px VLbind)] px = ok p1"
    using assms by (auto simp: accept_round_def split: sum.splits)
  define p2 where "p2 = accept_delayed env E L p1"
  obtain p3 where 3: "bound_loop env R [0..<length (px_cxs p2 VRbind)] p2 = ok p3"
    using assms 1 by (auto simp: accept_round_def p2_def Let_def split: sum.splits)
  have px': "px' = accept_delayed env E R p3"
    using assms 1 3 by (simp add: accept_round_def p2_def Let_def)
  from bound_loop_wires [OF 1] obtain k where
    b1: "\<forall>w. wires p1 w = wires px w @ (if w = VL then replicate k [] else [])"
    by (auto simp: is_left_def)
  from accept_delayed_wires [of L env E p1] obtain ls where
    d1: "\<forall>w. w \<noteq> VLdelay \<longrightarrow> wires p2 w = wires p1 w @ (if w = VL then ls else [])"
      "mset ls + mset (wires p2 VLdelay) = mset (wires p1 VLdelay)"
    by (auto simp: is_left_def p2_def)
  from bound_loop_wires [OF 3] obtain j where
    b2: "\<forall>w. wires p3 w = wires p2 w @ (if w = VR then replicate j [] else [])"
    by (auto simp: is_left_def)
  from accept_delayed_wires [of R env E p3] obtain rs where
    d2: "\<forall>w. w \<noteq> VRdelay \<longrightarrow> wires px' w = wires p3 w @ (if w = VR then rs else [])"
      "mset rs + mset (wires px' VRdelay) = mset (wires p3 VRdelay)"
    by (auto simp: is_left_def px')
  show ?thesis
    by (rule exI [of _ "replicate k [] @ ls"], rule exI [of _ k], rule exI [of _ "replicate j [] @ rs"],
        rule exI [of _ j]) (use b1 d1 b2 d2 in simp)
qed

definition env_ok :: "px_env \<Rightarrow> (pvec \<Rightarrow> bool \<Rightarrow> nat \<Rightarrow> cx_env) \<Rightarrow> bool" where
  "env_ok env E \<longleftrightarrow> passive_hooks (pe_hooks env) \<and> (\<forall>v w i. iow_ok (ce_iow (E v w i)))"

lemma env_ok_keeps:
  assumes "env_ok env E"
  shows "out.reads_keep env (E v w i)" "out.writes_keep env (E v w i)"
proof -
  have h: "passive_hooks (pe_hooks env)" "iow_ok (ce_iow (E v w i))" using assms by (auto simp: env_ok_def)
  show "out.reads_keep env (E v w i)"
    unfolding out.reads_keep_def using passive_hooks.cx_read_frame [OF h(1)] wire_frame by blast
  show "out.writes_keep env (E v w i)"
    unfolding out.writes_keep_def wire_def using passive_hooks.cx_write_out [OF h(1,2) refl] by blast
qed

lemma reset_timers_cxs: "px_cxs (reset_round (snd (run_timers now px))) = px_cxs px"
  by (simp add: reset_round_def run_timers_def reset_timer_def)

text \<open>C1: A whole round of the proxy keeps every stream: whatever the sockets answer, which contexts fail,
  reconnect or are throttled, the bytes each context has sent followed by those it still holds are
  what they were, for the contexts in their places; delayed contexts move to the ordinary ones, and
  contexts that were accepted start empty. No context is lost.\<close>

theorem round_keeps_streams:
  assumes "env_ok env E" and "handle_sockets_once env E px = ok (n, px')"
  shows "\<exists>ls k rs j.
     (\<forall>w. w \<noteq> VLdelay \<longrightarrow> w \<noteq> VRdelay \<longrightarrow>
        wires px' w = wires px w @ (if w = VL then ls else if w = VR then rs else [])) \<and>
     mset ls + mset (wires px' VLdelay) = mset (wires px VLdelay) + replicate_mset k [] \<and>
     mset rs + mset (wires px' VRdelay) = mset (wires px VRdelay) + replicate_mset j []"
proof -
  define p where "p = reset_round (snd (run_timers (pe_now env) px))"
  define d where "d = data_round env E p"
  have p: "wires p w = wires px w" for w by (simp add: p_def reset_timers_cxs)
  have d: "wires d w = wires px w" for w
    using out.keeps_data_round [of env E p] env_ok_keeps [OF assms(1)] p by (simp add: keeps_def d_def)
  have cases: "px' \<in> {p, d} \<or> accept_round env E d = ok px'"
    using assms(2) unfolding handle_sockets_once_def Let_def p_def [symmetric] d_def [symmetric]
    by (auto split: sum.splits if_splits)
  show ?thesis
  proof (cases "accept_round env E d = ok px'")
    case True
    from accept_round_wires [OF this, unfolded d] show ?thesis .
  next
    case False
    then have "wires px' w = wires px w" for w using cases p d by auto
    then show ?thesis
      by (intro exI [of _ "[]"] exI [of _ 0]) simp
  qed
qed

subsection \<open>Flow control\<close>

definition paused :: "side \<Rightarrow> proxy \<Rightarrow> bool" where
  "paused s px \<longleftrightarrow> (if is_left s then px_right_neck px else px_left_neck px)"

lemma on_cx_simps [simp]:
  "px_left_neck (on_cx v i f px) = px_left_neck px" "px_right_neck (on_cx v i f px) = px_right_neck px"
  by (simp_all add: on_cx_def)

lemma on_error_necks [simp]:
  "px_left_neck (on_error env ce s i px) = px_left_neck px"
  "px_right_neck (on_error env ce s i px) = px_right_neck px"
  by (simp_all add: on_error_def split: side.split)

lemma events_necks [simp]:
  "px_left_neck (snd (handle_cx_events env ce s i px)) = px_left_neck px"
  "px_right_neck (snd (handle_cx_events env ce s i px)) = px_right_neck px"
  by (simp_all add: handle_cx_events_def Let_def)

lemma read_once_paused_necks:
  assumes "paused s px"
  shows "px_left_neck (snd (handle_cx_read_once env ce s i px)) = px_left_neck px"
    "px_right_neck (snd (handle_cx_read_once env ce s i px)) = px_right_neck px"
  using assms
  by (simp_all add: handle_cx_read_once_def fail_zero_socket_def Let_def split_beta paused_def)

text \<open>While the other side has a write bottleneck, a pass of reading over the contexts of this side
  reads from none of them: every read buffer and every counter of bytes read is what it was.\<close>

theorem bottleneck_stops_reading:
  assumes "paused s px"
  shows "map intake (px_cxs (each_cx (side_vec s) (\<lambda>i. handle_cx_read_once env (E i) s i) px) v)
    = map intake (px_cxs px v)"
proof -
  let ?f = "\<lambda>i. handle_cx_read_once env (E i) s i"
  have "keeps intake p (each_until ?f is p)" if "paused s p" for "is" p
    using that
  proof (induction "is" arbitrary: p)
    case (Cons i "is")
    obtain r q where f: "?f i p = (r, q)" by force
    have "keeps intake p q"
      using inp.keeps_read_once [of env "E i" s p i] Cons.prems f by (simp add: paused_def)
    moreover have "paused s q"
      using read_once_paused_necks [OF Cons.prems, of env "E i" i] Cons.prems f by (simp add: paused_def)
    ultimately show ?case using Cons.IH [of q] px_keeps_trans by (auto simp: f)
  qed simp
  with assms show ?thesis by (simp add: each_cx_def keeps_def)
qed


lemma the_cx_on: "i < length (px_cxs px v) \<Longrightarrow> the_cx v i (on_cx v i f px) = f (the_cx v i px)"
  by (simp add: on_cx_def the_cx_def px_cxs_put)

lemma the_cx_put: "i < length (px_cxs px v) \<Longrightarrow> the_cx v i (put_cx v i cx px) = cx"
  by (simp add: the_cx_def px_cxs_put)

lemma length_on_cx [simp]: "length (px_cxs (on_cx v i f px) w) = length (px_cxs px w)"
  by (simp add: on_cx_def px_cxs_put)

lemma side_monitoring_eq:
  "snd (change_side_monitoring s r w pr pw px) =
     (let f = map (change_monitor_cx r w pr pw); (a, b) = (if is_left s then (VL, VLbind) else (VR, VRbind))
      in px\<lparr>px_cxs := (px_cxs px)(a := f (px_cxs px a), b := f (px_cxs px b))\<rparr>)"
  by (simp add: change_side_monitoring_def change_monitor_for_cx_vec_def set_vec_def Let_def)

definition neck :: "side \<Rightarrow> proxy \<Rightarrow> bool" where
  "neck s px \<longleftrightarrow> (if is_left s then px_left_neck px else px_right_neck px)"

text \<open>The contexts whose monitoring a bottleneck changes: the ordinary and the bound ones of the other side,
  not its permanent and its delayed ones.\<close>

definition other_vecs :: "side \<Rightarrow> pvec list" where
  "other_vecs s = (if is_left s then [VR, VRbind] else [VL, VLbind])"

lemma update_bottleneck_effect:
  assumes "0 < orig" and "px' = update_bottleneck s i orig pending px"
  shows "neck s px' \<longleftrightarrow> 0 < pending"
    and "0 < pending \<Longrightarrow> v \<in> set (other_vecs s) \<Longrightarrow>
      px_cxs px' v = map (change_monitor_cx False False 1 0) (px_cxs px v)"
    and "pending = 0 \<Longrightarrow> neck s px \<Longrightarrow> v \<in> set (other_vecs s) \<Longrightarrow>
      px_cxs px' v = map (change_monitor_cx True False (- 1) 0) (px_cxs px v)"
  using assms
  by (cases s; auto simp: update_bottleneck_def side_monitoring_eq neck_def other_vecs_def is_left_def Let_def
      on_cx_def px_cxs_put; fail)+

lemma update_bottleneck_spares:
  assumes "v \<notin> {VL, VR, VLbind, VRbind, side_vec s}"
  shows "px_cxs (update_bottleneck s i orig pending px) v = px_cxs px v"
  using assms
  by (cases s; auto simp: update_bottleneck_def side_monitoring_eq is_left_def Let_def on_cx_def px_cxs_put)

lemma handle_cx_write_ok:
  assumes "handle_cx_write env ce s i px = (True, px')"
  shows "px_left_neck px' = px_left_neck px" "px_right_neck px' = px_right_neck px"
    "v \<noteq> side_vec s \<Longrightarrow> px_cxs px' v = px_cxs px v"
    "length (px_cxs px' w) = length (px_cxs px w)"
proof -
  obtain wrt cx where r: "cx_write (pe_hooks env) (pe_par env) (ce_iow ce) (pe_now env)
      (ce_pv ce) (the_cx (side_vec s) i px) = (wrt, cx)" by force
  show "px_left_neck px' = px_left_neck px" "px_right_neck px' = px_right_neck px"
    "v \<noteq> side_vec s \<Longrightarrow> px_cxs px' v = px_cxs px v"
    "length (px_cxs px' w) = length (px_cxs px w)"
    using assms unfolding handle_cx_write_def Let_def r prod.case
    by (auto simp: px_cxs_put split: if_splits)
qed

lemma handle_cx_read_ok:
  assumes "handle_cx_read env ce s i px = (True, px')"
  shows "px_left_neck px' = px_left_neck px" "px_right_neck px' = px_right_neck px"
    "v \<noteq> side_vec s \<Longrightarrow> px_cxs px' v = px_cxs px v"
    "length (px_cxs px' w) = length (px_cxs px w)"
proof -
  obtain red cx where r: "cx_read (pe_hooks env) (pe_par env) (pe_rnd env) (ce_io ce) (pe_now env) (ce_pv ce)
      (the_cx (side_vec s) i px) = (red, cx)" by force
  show "px_left_neck px' = px_left_neck px" "px_right_neck px' = px_right_neck px"
    "v \<noteq> side_vec s \<Longrightarrow> px_cxs px' v = px_cxs px v"
    "length (px_cxs px' w) = length (px_cxs px w)"
    using assms unfolding handle_cx_read_def Let_def r prod.case
    by (auto simp: px_cxs_put split: if_splits)
qed


interpretation wb: cx_quantity cx_writebuf
proof
  fix cx bl now fd
  show "cx_writebuf (snd (cx_reconnect bl now fd cx)) = cx_writebuf cx"
    using reconnect_frame by (simp add: out_frame_def)
next
  fix cx par pv
  show "cx_writebuf (snd (read_waiting_for_peercom par pv cx)) = cx_writebuf cx"
    using read_waiting_frame by (simp add: out_frame_def)
next
  fix cx par pv
  show "cx_writebuf (snd (write_waiting_for_peercom par pv cx)) = cx_writebuf cx"
    using write_waiting_frame by (simp add: out_frame_def)
next
  fix cx
  show "cx_writebuf (cx_shutdown cx) = cx_writebuf cx"
    using shutdown_frame by (simp add: out_frame_def)
qed (simp_all add: change_monitor_cx_def Let_def)

lemma keeps_the_cx:
  assumes "keeps q px px'" and "i < length (px_cxs px v)"
  shows "q (the_cx v i px') = q (the_cx v i px)"
proof -
  have "map q (px_cxs px' v) ! i = map q (px_cxs px v) ! i" using assms(1) by (simp add: keeps_def)
  then show ?thesis using assms keeps_length [OF assms(1)] by (simp add: the_cx_def)
qed

lemma write_once_attempt:
  fixes s
  defines "v \<equiv> side_vec s"
  assumes "i < length (px_cxs px v)" and "cx_fds (the_cx v i px) \<noteq> 0"
    and "\<not> cx_write_waiting (the_cx v i px)" and "lb_bytes (cx_writebuf (the_cx v i px)) \<noteq> []"
    and "passive_hooks (pe_hooks env)" and "handle_cx_write_once env ce s i px = (True, px')"
  obtains p where "px_left_neck p = px_left_neck px" "px_right_neck p = px_right_neck px"
    "\<And>w. w \<noteq> v \<Longrightarrow> px_cxs p w = px_cxs px w"
    "px' = update_bottleneck s i (lb_size (cx_writebuf (the_cx v i px))) (lb_size (cx_writebuf (the_cx v i px'))) p"
proof -
  have w: "write_waiting_for_peercom (pe_par env) (ce_pv ce) (the_cx v i px) = (False, the_cx v i px)"
    using assms(4) by (simp add: write_waiting_for_peercom_def)
  have same: "put_cx v i (the_cx v i px) px = px"
    by (simp add: put_cx_def set_vec_def the_cx_def)
  obtain r1 p1 where r1: "handle_cx_write env ce s i px = (r1, p1)" by force
  obtain r2 p2 where r2: "handle_cx_read env ce s i p1 = (r2, p2)" by force
  define o1 where "o1 = lb_size (cx_writebuf (the_cx v i px))"
  define o2 where "o2 = lb_size (cx_writebuf (the_cx v i p1))"
  define p where "p = (if ce_read_on_write ce then p2 else p1)"
  have o1: "0 < o1" using assms(5) by (simp add: o1_def)
  have r: "r1 \<and> (ce_read_on_write ce \<longrightarrow> r2) \<and> px' = update_bottleneck s i o1 o2 p"
    using assms(3,7) o1 unfolding handle_cx_write_once_def Let_def v_def [symmetric] w prod.case same
      o1_def [symmetric] r1 o2_def [symmetric] r2
    by (auto simp: p_def split: if_splits)
  have "px_left_neck p = px_left_neck px" "px_right_neck p = px_right_neck px"
    "\<And>w. w \<noteq> v \<Longrightarrow> px_cxs p w = px_cxs px w" and len: "length (px_cxs p1 v) = length (px_cxs px v)"
    using r handle_cx_write_ok [of env ce s i px p1] handle_cx_read_ok [of env ce s i p1 p2] r1 r2
    by (auto simp: p_def v_def)
  moreover have "wb.reads_keep env ce"
    using passive_hooks.cx_read_frame [OF assms(6)] by (simp add: wb.reads_keep_def out_frame_def)
  then have "keeps cx_writebuf p1 p2" using wb.keeps_read r2 by (metis snd_conv)
  then have "keeps cx_writebuf p1 px'"
    using r px_keeps_trans wb.keeps_bottleneck by (metis p_def)
  then have "cx_writebuf (the_cx v i px') = cx_writebuf (the_cx v i p1)"
    using keeps_the_cx assms(2) len by metis
  ultimately show ?thesis using that r by (simp add: o1_def o2_def)
qed

text \<open>C20: Writing starts and ends a bottleneck: after a context with pending bytes was written without an
  error, the bottleneck flag of its side tells exactly whether bytes are left in this context (not whether
  other contexts of the side have some). When bytes are left, the ordinary and the bound contexts of the
  other side are paused and taken off their poller; when the last byte is gone and the bottleneck was on,
  they are resumed and watched for input again. Permanent and delayed contexts, other than the one
  written, are neither paused nor unwatched nor changed in any other way.\<close>

theorem bottleneck_after_write:
  assumes "i < length (px_cxs px (side_vec s))" and "cx_fds (the_cx (side_vec s) i px) \<noteq> 0"
    and "\<not> cx_write_waiting (the_cx (side_vec s) i px)"
    and "lb_bytes (cx_writebuf (the_cx (side_vec s) i px)) \<noteq> []"
    and "passive_hooks (pe_hooks env)" and "handle_cx_write_once env ce s i px = (True, px')"
  shows "(neck s px' \<longleftrightarrow> lb_bytes (cx_writebuf (the_cx (side_vec s) i px')) \<noteq> []) \<and>
     (\<forall>v \<in> set (other_vecs s). \<forall>cx \<in> set (px_cxs px' v).
        (neck s px' \<longrightarrow> cx_read_waiting cx \<and> last (cx_com_log cx) = Com_unset_monitor (cx_fds cx)) \<and>
        (neck s px \<and> \<not> neck s px' \<longrightarrow>
           \<not> cx_read_waiting cx \<and> last (cx_com_log cx) = Com_change_monitor (cx_fds cx) EPOLLIN)) \<and>
     (\<forall>v \<in> {VLpc, VRpc, VLdelay, VRdelay} - {side_vec s}. px_cxs px' v = px_cxs px v)"
proof -
  let ?v = "side_vec s"
  obtain p where p: "px_left_neck p = px_left_neck px" "px_right_neck p = px_right_neck px"
    "\<And>w. w \<noteq> ?v \<Longrightarrow> px_cxs p w = px_cxs px w"
    "px' = update_bottleneck s i (lb_size (cx_writebuf (the_cx ?v i px))) (lb_size (cx_writebuf (the_cx ?v i px'))) p"
    using write_once_attempt [OF assms] by blast
  have "0 < lb_size (cx_writebuf (the_cx ?v i px))" using assms(4) by simp
  note e = update_bottleneck_effect [OF this p(4)]
  have "neck s p = neck s px" using p by (simp add: neck_def)
  with e have 1: "(neck s px' \<longleftrightarrow> lb_bytes (cx_writebuf (the_cx ?v i px')) \<noteq> []) \<and>
     (\<forall>v \<in> set (other_vecs s). \<forall>cx \<in> set (px_cxs px' v).
        (neck s px' \<longrightarrow> cx_read_waiting cx \<and> last (cx_com_log cx) = Com_unset_monitor (cx_fds cx)) \<and>
        (neck s px \<and> \<not> neck s px' \<longrightarrow>
           \<not> cx_read_waiting cx \<and> last (cx_com_log cx) = Com_change_monitor (cx_fds cx) EPOLLIN))"
    by (auto simp: change_monitor_cx_def Let_def)
  have "px_cxs px' v = px_cxs px v" if "v \<in> {VLpc, VRpc, VLdelay, VRdelay} - {?v}" for v
  proof -
    have "px_cxs px' v = px_cxs p v" by (subst p(4), rule update_bottleneck_spares) (use that in auto)
    then show ?thesis using p(3) that by simp
  qed
  with 1 show ?thesis by blast
qed



section \<open>Permanent connections\<close>

lemma pc_half_errored:
  assumes "cx_errored (the_cx (side_vec s) i px)"
  shows "pc_half env E s w i px =
    (False, if should_reconnect_now (pe_now env) (the_cx (side_vec s) i px)
            then on_error env (E (side_vec s) w i) s i px else px)"
  using assms by (simp add: pc_half_def Let_def)

text \<open>A permanent connection that failed comes back: once its delay has passed, the next turn of the loop
  connects it anew, clears its error and starts its opening time. On the left this needs that the
  connection is not marked as opening.\<close>

theorem permanent_connection_comes_back:
  assumes "s = Y \<or> s = X \<and> \<not> cx_opening cx" and "i < length (px_cxs px (side_vec s))"
    and "cx = the_cx (side_vec s) i px" and "cx_error cx" and "\<not> cx_com_error cx" and "cx_has_com cx"
    and "cx_permanent cx" and "should_reconnect_now (pe_now env) cx"
    and "fd = ce_connect_fd (E (side_vec s) False i)" and "0 < fd"
    and "cx' = the_cx (side_vec s) i (snd (pc_turn env E s i px))"
  shows "cx_fds cx' = fd \<and> \<not> cx_errored cx' \<and> cx_last_reconnect cx' = pe_now env \<and>
    cx_t_connected cx' = pe_now env \<and> (cx_opening cx' \<longleftrightarrow> \<not> pe_blocking env)"
proof -
  let ?r = "\<lambda>cx. snd (cx_reconnect (pe_blocking env) (pe_now env) fd cx)"
  have "cx_errored cx" using assms(4) by (simp add: cx_errored_def)
  then have "snd (pc_turn env E s i px) = on_cx (side_vec s) i ?r px"
    using assms(1,3,8,9) pc_half_errored [of s i px env E False]
    by (auto simp: pc_turn_def Let_def on_error_def)
  then have "cx' = ?r cx" using assms(2,3,11) by (simp add: the_cx_on)
  then show ?thesis
    using assms(5-8,10)
    by (simp add: cx_reconnect_def should_reconnect_now_def cx_reduced_def cx_connect_def cx_shutdown_def unhandle_def
        com_do_def cx_set_opening_def cx_errored_def Let_def)
qed

text \<open>A left connection with no socket that is still marked as opening.\<close>

definition trapped :: "baseHostCX list \<Rightarrow> proxy \<Rightarrow> bool" where
  "trapped rest px \<longleftrightarrow> (\<exists>cx. px_cxs px VLpc = cx # rest \<and> cx_fds cx = 0 \<and> cx_opening cx)"

definition left_pass :: "px_env \<times> (pvec \<Rightarrow> bool \<Rightarrow> nat \<Rightarrow> cx_env) \<Rightarrow> proxy \<Rightarrow> proxy" where
  "left_pass r = each_cx VLpc (pc_turn (fst r) (snd r) X)"

lemma left_pass_stops:
  assumes "px_cxs px VLpc = cx # rest" and "pc_half env E X False 0 px = (False, px')"
  shows "left_pass (env, E) px = px'"
  using assms by (simp add: left_pass_def each_cx_def upt_conv_Cons pc_turn_def del: upt_Suc)

lemma shutdown_opening [simp]: "cx_opening (cx_shutdown cx) = cx_opening cx" "cx_fds (cx_shutdown cx) = 0"
  by (simp_all add: cx_shutdown_def unhandle_def Let_def com_do_def)

lemma trapped_stays:
  assumes "trapped rest px"
  shows "trapped rest (left_pass r px)"
proof -
  obtain env E where r: "r = (env, E)" by force
  obtain cx where cx: "px_cxs px VLpc = cx # rest" "cx_fds cx = 0" "cx_opening cx"
    using assms by (auto simp: trapped_def)
  show ?thesis
  proof (cases "cx_errored cx")
    case True
    have "pc_half env E X False 0 px = (False, px)"
      using pc_half_errored [of X 0 px env E False] True cx by (simp add: the_cx_def on_error_def)
    then show ?thesis using left_pass_stops [OF cx(1)] assms by (simp add: r)
  next
    case False
    define p where "p = on_cx VLpc 0 cx_shutdown (on_cx VLpc 0 (\<lambda>cx. cx\<lparr>cx_error := True\<rparr>) px)"
    have e: "handle_cx_read_once env ce X 0 px = (False, p)" for ce
      using cx by (simp add: handle_cx_read_once_def fail_zero_socket_def handle_cx_events_def the_cx_def
          on_cx_def px_cxs_put on_error_def cx_errored_def p_def Let_def)
    have p: "px_cxs p VLpc = cx_shutdown (cx\<lparr>cx_error := True\<rparr>) # rest"
      using cx by (simp add: p_def on_cx_def px_cxs_put the_cx_def)
    have "pc_half env E X False 0 px = (False, set_pc_error False X p)"
      using False cx p e
      by (simp add: pc_half_def the_cx_def on_error_def set_pc_error_def is_left_def)
    from left_pass_stops [OF cx(1) this] show ?thesis
      using p cx by (simp add: r trapped_def set_pc_error_def is_left_def)
  qed
qed

text \<open>A left permanent connection whose first connection attempt times out is lost for good: it is shut
  down and never reconnected, whatever happens in any number of later rounds, because
  \<^verbatim>\<open>on_left_pc_error\<close> does not try while the connection is marked as opening and nothing else takes
  the mark away. As it ends the loop each time, the connections behind it are not served any more
  either. The right side, where the code tries in both cases, does not have this.\<close>

theorem left_connect_timeout_is_final:
  assumes "px_cxs px VLpc = cx # rest" and "cx_opening cx" and "\<not> cx_errored cx" and "cx_fds cx \<noteq> 0"
    and "opening_timeout (pe_now env) cx"
    and "\<not> ce_in_read (E VLpc False 0)" and "\<not> ce_forced_read (E VLpc False 0)"
  shows "\<exists>cx'. px_cxs (fold left_pass rounds (left_pass (env, E) px)) VLpc = cx' # rest \<and>
    cx_fds cx' = 0 \<and> cx_opening cx'"
proof -
  let ?ce = "E VLpc False 0"
  obtain w cx1 where w: "read_waiting_for_peercom (pe_par env) (ce_pv ?ce) cx = (w, cx1)" by force
  have cx1: "cx_opening cx1 = cx_opening cx" "cx_t_connected cx1 = cx_t_connected cx"
      "cx_reconnect_delay cx1 = cx_reconnect_delay cx"
    using w by (auto simp: read_waiting_for_peercom_def com_do_def Let_def split: option.splits bool.splits if_splits)
  define p where "p = on_cx VLpc 0 cx_shutdown (put_cx VLpc 0 cx1 px)"
  have "opening_timeout (pe_now env) cx1" using assms(5) cx1 by (simp add: opening_timeout_def)
  then have "handle_cx_read_once env ?ce X 0 px = (False, p)"
    using assms(1,2,4,6,7) w cx1
    by (simp add: handle_cx_read_once_def handle_cx_events_def the_cx_def px_cxs_put on_error_def p_def)
  moreover have p: "px_cxs p VLpc = cx_shutdown cx1 # rest"
    using assms(1) by (simp add: p_def on_cx_def px_cxs_put the_cx_def)
  ultimately have "pc_half env E X False 0 px = (False, set_pc_error False X p)"
    using assms(1-3) cx1 by (simp add: pc_half_def the_cx_def on_error_def set_pc_error_def is_left_def)
  from left_pass_stops [OF assms(1) this] have "trapped rest (left_pass (env, E) px)"
    using p assms(2) cx1 by (simp add: trapped_def set_pc_error_def is_left_def)
  then have "trapped rest (fold left_pass rounds (left_pass (env, E) px))"
    by (induction rounds arbitrary: px rule: rev_induct) (simp_all add: trapped_stays)
  then show ?thesis by (simp add: trapped_def)
qed


section \<open>The proxy on its poller\<close>

text \<open>The requests a context makes of its com, carried out on the pollers of the theory of the event poller.\<close>

fun com_exec :: "'k kernel_api \<Rightarrow> (int \<Rightarrow> int) \<Rightarrow> int \<Rightarrow> nat \<Rightarrow> com_cmd list \<Rightarrow> 'k net \<Rightarrow> 'k net result" where
  "com_exec api tr now i [] n = ok n"
| "com_exec api tr now i (c # cs) n =
     (case (case c of
              Com_unset_monitor s \<Rightarrow> com_unset_monitor api tr now i s n
            | Com_clear_poll_handler s \<Rightarrow> com_set_poll_handler tr i s None n
            | Com_set_write_monitor s \<Rightarrow> com_set_write_monitor api tr now i s n
            | Com_change_monitor s m \<Rightarrow> com_change_monitor api tr now i s m n
            | Com_change_monitor_in s \<Rightarrow> com_change_monitor api tr now i s EPOLLIN n
            | Com_rescan_read s \<Rightarrow> com_rescan_read api tr now i s n
            | Com_rescan_write s \<Rightarrow> com_rescan_write api tr now i s n
            | _ \<Rightarrow> ok n) of
        Inl x \<Rightarrow> Inl x
      | Inr n \<Rightarrow> com_exec api tr now i cs n)"

definition released :: "('k \<Rightarrow> int \<Rightarrow> u32 option) \<Rightarrow> nat \<Rightarrow> int \<Rightarrow> 'k net \<Rightarrow> bool" where
  "released mon i s n \<longleftrightarrow> get_handler i s n = None \<and>
     (\<exists>e. poller (n_pollers n i) = Some e \<and> \<not> covered mon s e)"

lemma com_exec_append:
  "com_exec api tr now i (xs @ ys) n =
     (case com_exec api tr now i xs n of Inl x \<Rightarrow> Inl x | Inr n \<Rightarrow> com_exec api tr now i ys n)"
  by (induction xs arbitrary: n) (auto split: sum.split)

lemma unset_monitor_steps:
  assumes "com_unset_monitor api tr now i xs n = ok n'"
  obtains "n' = n"
  | r1 n1 r2 n2 r3 where "poller_del api now i (real_socket tr xs) n = ok (r1, n1)"
    "poller_cancel_rescan_in api now i (real_socket tr xs) n1 = ok (r2, n2)"
    "poller_cancel_rescan_out api now i (real_socket tr xs) n2 = ok (r3, n')"
proof (cases "0 < real_socket tr xs")
  case True
  let ?s = "real_socket tr xs"
  obtain r1 n1 where 1: "poller_del api now i ?s n = ok (r1, n1)"
    using assms True by (auto simp: com_unset_monitor_def on_real_def Let_def split: sum.splits)
  obtain r2 n2 where 2: "poller_cancel_rescan_in api now i ?s n1 = ok (r2, n2)"
    using assms True 1 by (auto simp: com_unset_monitor_def on_real_def Let_def split: sum.splits)
  obtain r3 where "poller_cancel_rescan_out api now i ?s n2 = ok (r3, n')"
    using assms True 1 2
    by (cases "poller_cancel_rescan_out api now i ?s n2") (auto simp: com_unset_monitor_def on_real_def Let_def)
  with 1 2 that(2) show ?thesis by blast
next
  case False
  then show ?thesis using assms that(1) by (simp add: com_unset_monitor_def on_real_def Let_def)
qed

lemma unset_monitor_handlers:
  assumes "com_unset_monitor api tr now i xs n = ok n'"
  shows "get_handler j s n' = get_handler j s n"
proof (cases rule: unset_monitor_steps [OF assms])
  case (2 r1 n1 r2 n2 r3)
  have "handler_db (n_pollers n1 j) = handler_db (n_pollers n j)"
    using 2(1) by (auto simp: poller_del_def init_if_null_def epoll_init_def Let_def split_beta
        split: option.splits sum.splits if_splits)
  moreover have "handler_db (n_pollers n2 j) = handler_db (n_pollers n1 j)"
    using forward_ok [OF 2(2) [unfolded poller_cancel_rescan_in_def], of j] by blast
  moreover have "handler_db (n_pollers n' j) = handler_db (n_pollers n2 j)"
    using forward_ok [OF 2(3) [unfolded poller_cancel_rescan_out_def], of j] by blast
  ultimately show ?thesis by (simp add: get_handler_def)
qed simp

lemma unset_monitor_uncovered:
  assumes "ctl_laws (api_ctl api) mon valid" and "valid s"
    and "com_unset_monitor api tr now i xs n = ok n'"
    and "poller (n_pollers n i) = Some e" and "\<not> covered mon s e"
  shows "\<exists>e'. poller (n_pollers n' i) = Some e' \<and> \<not> covered mon s e'"
proof (cases rule: unset_monitor_steps [OF assms(3)])
  case 1
  then show ?thesis using assms(4,5) by blast
next
  case (2 r1 n1 r2 n2 r3)
  let ?t = "real_socket tr xs"
  define e1 where "e1 = snd (epoll_del (api_ctl api) ?t e)"
  have p1: "poller (n_pollers n1 i) = Some e1"
    using 2(1) assms(4) by (auto simp: poller_del_def init_if_null_def Let_def split_beta e1_def)
  have "\<not> covered mon s e1"
    using assms(5) del_monitors [OF assms(1,2), of ?t e]
    by (auto simp: covered_def e1_def epoll_del_def Let_def split_beta split: if_splits)
  moreover have "poller (n_pollers n2 i) = Some (snd (cancel_rescan_in ?t e1))"
    using forward_ok [OF 2(2) [unfolded poller_cancel_rescan_in_def]] p1 by auto
  then have "poller (n_pollers n' i) = Some (snd (cancel_rescan_out ?t (snd (cancel_rescan_in ?t e1))))"
    using forward_ok [OF 2(3) [unfolded poller_cancel_rescan_out_def]] by auto
  ultimately show ?thesis
    by (auto simp: covered_def cancel_rescan_in_def cancel_rescan_out_def set_erase_def Let_def)
qed

lemma released_clear:
  assumes "released mon i s n"
  shows "released mon i s (clear_handler i t n)"
proof -
  obtain e where "poller (n_pollers n i) = Some e" "\<not> covered mon s e" "get_handler i s n = None"
    using assms by (auto simp: released_def)
  then show ?thesis
    using clear_handler_poller [of n i e mon s t]
    by (simp add: released_def get_handler_def clear_handler_fields)
qed

lemma set_poll_handler_none:
  "com_set_poll_handler tr i xs None n =
     ok (if xs < 0 then clear_handler i xs (clear_handler i (real_socket tr xs) n) else clear_handler i xs n)"
  by (simp add: com_set_poll_handler_def set_handler_def real_socket_def)

text \<open>What a context asks for while it shuts down.\<close>

definition shutdown_cmds :: "baseHostCX \<Rightarrow> com_cmd list" where
  "shutdown_cmds cx = drop (length (cx_com_log cx)) (cx_com_log (cx_shutdown cx))"

lemma shutdown_cmds_eq:
  "shutdown_cmds cx = (if cx_fds cx \<noteq> 0 \<and> cx_has_com cx
     then [Com_shutdown (cx_fds cx), Com_unset_monitor (cx_fds cx), Com_clear_poll_handler (cx_fds cx)] else [])"
  by (simp add: shutdown_cmds_def cx_shutdown_def unhandle_def com_do_def Let_def)

lemma shutdown_cmds_exec:
  assumes "com_exec api tr now i (shutdown_cmds cx) n = ok n'" and "cx_fds cx \<noteq> 0" and "cx_has_com cx"
  obtains n1 where "com_unset_monitor api tr now i (cx_fds cx) n = ok n1"
    "com_set_poll_handler tr i (cx_fds cx) None n1 = ok n'"
  using assms by (auto simp: shutdown_cmds_eq set_poll_handler_none split: sum.splits)

lemma released_after:
  assumes "ctl_laws (api_ctl api) mon valid" and "valid (cx_fds cx)" and "0 < cx_fds cx" and "cx_has_com cx"
    and "com_exec api tr now i (shutdown_cmds cx) n = ok n'"
  shows "released mon i (cx_fds cx) n'"
proof -
  let ?s = "cx_fds cx"
  obtain n1 where 1: "com_unset_monitor api tr now i ?s n = ok n1" "com_set_poll_handler tr i ?s None n1 = ok n'"
    using shutdown_cmds_exec [OF assms(5)] assms(3,4) by auto
  obtain e where "poller (n_pollers n1 i) = Some e" "\<not> covered mon ?s e"
    using unset_monitor_ok [OF assms(1-3) 1(1)] by blast
  moreover have n': "n' = clear_handler i ?s n1" using 1(2) assms(3) by (simp add: set_poll_handler_none)
  moreover have "get_handler i ?s n' = None" by (simp add: n' get_handler_def clear_handler_fields)
  ultimately show ?thesis using clear_handler_poller [of n1 i e mon ?s ?s] by (simp add: released_def)
qed

lemma released_kept:
  assumes "ctl_laws (api_ctl api) mon valid" and "valid s" and "released mon i s n"
    and "com_exec api tr now i (shutdown_cmds cx) n = ok n'"
  shows "released mon i s n'"
proof (cases "cx_fds cx \<noteq> 0 \<and> cx_has_com cx")
  case True
  then obtain n1 where 1: "com_unset_monitor api tr now i (cx_fds cx) n = ok n1"
    "com_set_poll_handler tr i (cx_fds cx) None n1 = ok n'"
    using shutdown_cmds_exec [OF assms(4)] by blast
  have "released mon i s n1"
    using assms(3) unset_monitor_uncovered [OF assms(1,2) 1(1)] unset_monitor_handlers [OF 1(1)]
    by (auto simp: released_def)
  then have "released mon i s (clear_handler i t n1)" "released mon i s (clear_handler i t (clear_handler i u n1))"
    for t u using released_clear by blast+
  then show ?thesis using 1(2) by (auto simp: set_poll_handler_none split: if_splits)
next
  case False
  then have "n' = n" using assms(4) by (auto simp: shutdown_cmds_eq)
  then show ?thesis using assms(3) by simp
qed

lemma released_all:
  assumes "ctl_laws (api_ctl api) mon valid" and "\<And>cx. cx \<in> set cxs \<Longrightarrow> valid (cx_fds cx)"
    and "com_exec api tr now i (concat (map shutdown_cmds cxs)) n = ok n'"
    and "cx \<in> set cxs" and "0 < cx_fds cx" and "cx_has_com cx"
  shows "released mon i (cx_fds cx) n'"
  using assms(2-4)
proof (induction cxs arbitrary: n' rule: rev_induct)
  case (snoc x xs)
  obtain n1 where 1: "com_exec api tr now i (concat (map shutdown_cmds xs)) n = ok n1"
    "com_exec api tr now i (shutdown_cmds x) n1 = ok n'"
    using snoc.prems(2) by (auto simp: com_exec_append split: sum.splits)
  show ?case
  proof (cases "cx = x")
    case True
    have "valid (cx_fds x)" using snoc.prems(1) by simp
    then show ?thesis using released_after [OF assms(1) _ _ _ 1(2)] assms(5,6) True by simp
  next
    case False
    then have "cx \<in> set xs" "valid (cx_fds cx)" using snoc.prems by auto
    moreover have "released mon i (cx_fds cx) n1"
      using snoc.IH [OF _ 1(1)] snoc.prems(1) \<open>cx \<in> set xs\<close> by simp
    ultimately show ?thesis using released_kept [OF assms(1) _ _ 1(2)] by blast
  qed
qed simp

lemma com_exec_total:
  assumes "0 \<le> api_create api"
  shows "\<exists>n'. com_exec api tr now i (concat (map shutdown_cmds cxs)) n = ok n'"
proof (induction cxs arbitrary: n)
  case (Cons cx cxs)
  obtain n1 where u: "com_unset_monitor api tr now i (cx_fds cx) n = ok n1"
    using com_unset_monitor_total [OF assms] by blast
  show ?case
    using Cons u by (simp add: com_exec_append shutdown_cmds_eq set_poll_handler_none)
qed simp

definition all_vecs :: "pvec list" where
  "all_vecs = [VLbind, VL, VLpc, VLdelay, VRbind, VR, VRpc, VRdelay]"

definition all_cxs :: "proxy \<Rightarrow> baseHostCX list" where
  "all_cxs px = concat (map (px_cxs px) all_vecs)"

lemma pvec_in_all: "v \<in> set all_vecs"
  by (cases v) (simp_all add: all_vecs_def)

lemma px_shutdown_state:
  "px_cxs (px_shutdown px) v = []" "px_trash (px_shutdown px) = px_trash px @ map cx_shutdown (all_cxs px)"
  by (cases v; simp add: px_shutdown_def left_shutdown_def right_shutdown_def drop_vec_def shut_vec_def)
     (simp add: px_shutdown_def left_shutdown_def right_shutdown_def drop_vec_def shut_vec_def all_cxs_def all_vecs_def)

text \<open>C14: Shutting the proxy down disposes of every context exactly once, in the order of the vectors, and
  takes all their sockets off the poller: when the requests the contexts make are carried out, none
  of the real sockets (virtual ones, with negative numbers, are not the poller's) is watched by the kernel, due for a rescan or known to the handler table.\<close>

theorem shutdown_releases_everything:
  assumes "ctl_laws (api_ctl api) mon valid" and "\<forall>cx \<in> set (all_cxs px). valid (cx_fds cx)"
    and "0 \<le> api_create api"
  shows "(\<forall>v. px_cxs (px_shutdown px) v = []) \<and>
     px_trash (px_shutdown px) = px_trash px @ map cx_shutdown (all_cxs px) \<and>
     (\<forall>cx \<in> set (map cx_shutdown (all_cxs px)). cx_fds cx = 0) \<and>
     (\<exists>n'. com_exec api tr now i (concat (map shutdown_cmds (all_cxs px))) n = ok n' \<and>
        (\<forall>cx \<in> set (all_cxs px). 0 < cx_fds cx \<and> cx_has_com cx \<longrightarrow>
           get_handler i (cx_fds cx) n' = None \<and>
           (\<exists>e. poller (n_pollers n' i) = Some e \<and> \<not> covered mon (cx_fds cx) e)))"
proof -
  obtain n' where n': "com_exec api tr now i (concat (map shutdown_cmds (all_cxs px))) n = ok n'"
    using com_exec_total [OF assms(3)] by blast
  have "released mon i (cx_fds cx) n'" if "cx \<in> set (all_cxs px)" "0 < cx_fds cx" "cx_has_com cx" for cx
    using released_all [OF assms(1) _ n' that] assms(2) by blast
  then show ?thesis using n' px_shutdown_state by (auto simp: released_def)
qed


section \<open>Examples\<close>

definition demo_env :: px_env where
  "demo_env = \<lparr>pe_now = 9, pe_hooks = base_hooks, pe_par = default_params, pe_rnd = id, pe_blocking = False,
     pe_rate_meter = False, pe_poll_result = 0, pe_accept = (\<lambda>v i. (- 1, [], [])),
     pe_bound_ready = (\<lambda>v i. False), pe_locked = (\<lambda>v i. True)\<rparr>"

definition demo_ce :: cx_env where
  "demo_ce = \<lparr>ce_io = (\<lambda>n. Io_data (take n [7, 8])), ce_iow = (\<lambda>bs. int (min 1 (length bs))), ce_pv = None,
     ce_readable = True, ce_writable = True, ce_forced_read = False, ce_forced_write = False,
     ce_read_on_write = False, ce_write_on_read = False, ce_in_read = True, ce_in_write = True,
     ce_new_message = False, ce_connect_fd = 12\<rparr>"

definition demo_px :: proxy where
  "demo_px = \<lparr>px_id = 1, px_cxs = (\<lambda>_. []), px_trash = [], px_dead = False, px_error_left_read = False,
     px_error_right_read = False, px_error_left_write = False, px_error_right_write = False,
     px_left_neck = False, px_right_neck = False, px_last_read = 0, px_last_write = 0, px_mtr_down = 0,
     px_mtr_up = 0, px_last_status = 0, px_new_raw = False, px_last_tick = 0, px_timer_interval = 5,
     px_log = []\<rparr>"

definition demo_left :: baseHostCX where
  "demo_left = demo_cx\<lparr>cx_writebuf := \<lparr>lb_bytes = [1, 2, 3], lb_cap = 2048\<rparr>\<rparr>"

definition demo_pair :: proxy where
  "demo_pair = set_vec VR [demo_cx] (set_vec VL [demo_left] demo_px)"

lemma demo_env_ok: "env_ok demo_env (\<lambda>v w i. demo_ce)"
  using base.passive_hooks_axioms by (auto simp: env_ok_def demo_env_def demo_ce_def iow_ok_def)

theorem round_keeps_streams_witness:
  "\<exists>px' ls. handle_sockets_once demo_env (\<lambda>v w i. demo_ce) demo_pair = ok (0, px') \<and>
     wires px' VL = [1, 2, 3] # ls"
proof -
  obtain px' where r: "handle_sockets_once demo_env (\<lambda>v w i. demo_ce) demo_pair = ok (0, px')"
    by (simp add: handle_sockets_once_def demo_env_def Let_def)
  have "wires demo_pair VL = [[1, 2, 3]]"
    by (simp add: demo_pair_def demo_px_def demo_left_def wire_def demo_cx_def blank_cx_def)
  with round_keeps_streams [OF demo_env_ok r] obtain ls where "wires px' VL = [1, 2, 3] # ls" by auto
  with r show ?thesis by (intro exI conjI)
qed

theorem bottleneck_stops_reading_witness:
  "map intake (px_cxs (each_cx VL (\<lambda>i. handle_cx_read_once demo_env demo_ce L i)
     (demo_pair\<lparr>px_right_neck := True\<rparr>)) VL) = [(\<lparr>lb_bytes = [], lb_cap = 2048\<rparr>, 0)]"
  using bottleneck_stops_reading [of L "demo_pair\<lparr>px_right_neck := True\<rparr>" demo_env "\<lambda>i. demo_ce" VL]
  by (simp add: paused_def is_left_def demo_pair_def demo_px_def demo_left_def demo_cx_def blank_cx_def intake_def)

lemma demo_write:
  "fst (handle_cx_write_once demo_env demo_ce L 0 demo_pair)"
  by (simp add: handle_cx_write_once_def demo_pair_def demo_px_def demo_left_def demo_cx_def blank_cx_def the_cx_def
      write_waiting_for_peercom_def px_cxs_put demo_env_def demo_ce_def handle_cx_write_def cx_write_def
      pre_write_base process_out_step_base down_cast_int_def Let_def)

theorem bottleneck_after_write_witness:
  "neck L (snd (handle_cx_write_once demo_env demo_ce L 0 demo_pair)) \<longleftrightarrow>
     lb_bytes (cx_writebuf (the_cx VL 0 (snd (handle_cx_write_once demo_env demo_ce L 0 demo_pair)))) \<noteq> []"
proof -
  obtain px' where r: "handle_cx_write_once demo_env demo_ce L 0 demo_pair = (True, px')"
    using demo_write by (cases "handle_cx_write_once demo_env demo_ce L 0 demo_pair") auto
  have h: "passive_hooks (pe_hooks demo_env)" using demo_env_ok by (simp add: env_ok_def)
  have "0 < length (px_cxs demo_pair (side_vec L))" "cx_fds (the_cx (side_vec L) 0 demo_pair) \<noteq> 0"
      "\<not> cx_write_waiting (the_cx (side_vec L) 0 demo_pair)"
      "lb_bytes (cx_writebuf (the_cx (side_vec L) 0 demo_pair)) \<noteq> []"
    by (simp_all add: demo_pair_def demo_px_def demo_left_def demo_cx_def blank_cx_def the_cx_def)
  from bottleneck_after_write [OF this h r] show ?thesis using r by simp
qed

definition demo_pc :: baseHostCX where
  "demo_pc = demo_cx\<lparr>cx_permanent := True, cx_error := True\<rparr>"

theorem permanent_connection_comes_back_witness:
  "cx_fds (the_cx VRpc 0 (snd (pc_turn demo_env (\<lambda>v w i. demo_ce) Y 0 (set_vec VRpc [demo_pc] demo_px)))) = 12"
proof -
  let ?px = "set_vec VRpc [demo_pc] demo_px"
  have c: "demo_pc = the_cx (side_vec Y) 0 ?px" by (simp add: the_cx_def)
  have "0 < length (px_cxs ?px (side_vec Y))" "cx_error demo_pc" "\<not> cx_com_error demo_pc" "cx_has_com demo_pc"
      "cx_permanent demo_pc" "should_reconnect_now (pe_now demo_env) demo_pc" "12 = ce_connect_fd demo_ce"
    by (simp_all add: demo_pc_def demo_cx_def blank_cx_def should_reconnect_now_def cx_reduced_def demo_env_def demo_ce_def)
  from permanent_connection_comes_back [OF _ this(1) c this(2-7) _ refl] show ?thesis by simp
qed

definition demo_opening :: baseHostCX where
  "demo_opening = demo_cx\<lparr>cx_permanent := True, cx_opening := True\<rparr>"

theorem left_connect_timeout_is_final_witness:
  "\<exists>cx'. px_cxs (fold left_pass [(demo_env\<lparr>pe_now := 1000\<rparr>, \<lambda>v w i. demo_ce)]
     (left_pass (demo_env, \<lambda>v w i. demo_ce\<lparr>ce_in_read := False\<rparr>)
       (set_vec VLpc [demo_opening, demo_pc] demo_px))) VLpc = cx' # [demo_pc] \<and> cx_fds cx' = 0 \<and> cx_opening cx'"
  by (rule left_connect_timeout_is_final [of _ demo_opening])
     (simp_all add: demo_opening_def demo_cx_def blank_cx_def opening_timeout_def demo_env_def demo_ce_def cx_errored_def)

theorem shutdown_releases_everything_witness:
  "px_trash (px_shutdown demo_pair) = map cx_shutdown [demo_left, demo_cx] \<and>
   (\<exists>n'. com_exec demo_api id 9 0 (concat (map shutdown_cmds [demo_left, demo_cx])) empty_net = ok n' \<and>
      get_handler 0 5 n' = None)"
proof -
  have a: "all_cxs demo_pair = [demo_left, demo_cx]"
    by (simp add: all_cxs_def all_vecs_def demo_pair_def demo_px_def)
  have "0 < cx_fds demo_cx" "cx_has_com demo_cx" "cx_fds demo_cx = 5" "px_trash demo_pair = []"
    by (simp_all add: demo_cx_def blank_cx_def demo_pair_def demo_px_def)
  moreover have "ctl_laws (api_ctl demo_api) (\<lambda>k. k) (\<lambda>s. True)" "0 \<le> api_create demo_api"
    using map_ctl_laws by (simp_all add: demo_api_def)
  ultimately show ?thesis
    using shutdown_releases_everything [of demo_api "\<lambda>k. k" "\<lambda>s. True" demo_pair id 9 0 "empty_net"] a by auto
qed

end
