(* ===== verification/Proxytree.thy ===== *)
theory Proxytree
  imports Baseproxy
begin

text \<open>
  Proxies made of proxies: \<^verbatim>\<open>masterproxy.cpp\<close> and \<^verbatim>\<open>lrproxy.cpp\<close>.

  \<^verbatim>\<open>SimpleLRProxy\<close> copies what one side reads to every context of the other. A \<^verbatim>\<open>MasterProxy\<close> owns
  a vector of sub-proxies, each with a handler thread when it sprays them over threads. The virtual
  members of a sub-proxy are arguments: \<open>run\<close> is its \<^verbatim>\<open>handle_sockets_once\<close> with the exception it
  may throw. The loops at the end of \<^verbatim>\<open>handle_sockets_once\<close> and in \<^verbatim>\<open>run_timers\<close> that go on without
  advancing are partial functions: not returning is \<open>None\<close>. The loop at the end of a round spins while a
  sub-proxy is in progress, that is until its thread is through; but it may come to a sub-proxy before
  the new thread has counted itself in. Which threads it overtakes is an argument (\<open>early\<close>): it then
  joins the thread without having waited for the counter.
\<close>

section \<open>SimpleLRProxy\<close>

text \<open>\<^verbatim>\<open>to_write(left->to_read())\<close> on each context of a vector: the read buffer is passed by reference, so
  what a fast-lane swap leaves of it is what the next context gets.\<close>

fun copy_to :: "params_t \<Rightarrow> (nat \<Rightarrow> nat) \<Rightarrow> lbuf \<Rightarrow> baseHostCX list \<Rightarrow> lbuf \<times> baseHostCX list" where
  "copy_to par rnd b [] = (b, [])"
| "copy_to par rnd b (cx # cxs) =
     (let (b, cx) = to_write_buffer par rnd b cx; (b, cxs) = copy_to par rnd b cxs in (b, cx # cxs))"

definition lr_on_bytes :: "params_t \<Rightarrow> (nat \<Rightarrow> nat) \<Rightarrow> pvec \<Rightarrow> pvec \<Rightarrow> pvec \<Rightarrow> nat \<Rightarrow> proxy \<Rightarrow> proxy" where
  "lr_on_bytes par rnd v socks pcs i px =
     (let (b, cxs) = copy_to par rnd (cx_readbuf (the_cx v i px)) (px_cxs px socks);
          (b, pc) = copy_to par rnd b (px_cxs px pcs);
          px = set_vec pcs pc (set_vec socks cxs px)
      in on_cx v i (\<lambda>cx. snd (cx_finish (cx\<lparr>cx_readbuf := b\<rparr>))) px)"

text \<open>\<open>v\<close> is the vector the context sits in: the ordinary sockets or the permanent connections.\<close>

definition lr_on_left_bytes :: "params_t \<Rightarrow> (nat \<Rightarrow> nat) \<Rightarrow> pvec \<Rightarrow> nat \<Rightarrow> proxy \<Rightarrow> proxy" where
  "lr_on_left_bytes par rnd v = lr_on_bytes par rnd v VR VRpc"

definition lr_on_right_bytes :: "params_t \<Rightarrow> (nat \<Rightarrow> nat) \<Rightarrow> pvec \<Rightarrow> nat \<Rightarrow> proxy \<Rightarrow> proxy" where
  "lr_on_right_bytes par rnd v = lr_on_bytes par rnd v VL VLpc"

section \<open>MasterProxy\<close>

text \<open>An entry of the vector: the sub-proxy (\<open>None\<close> for a null pointer), its \<^verbatim>\<open>in_progress\<close> counter,
  whether it has a thread, and whether the test of \<^verbatim>\<open>in_progress\<close> in the cleanup comes before the first
  step of that thread.\<close>

record subproxy =
  sp_px :: "proxy option"
  sp_busy :: u32
  sp_thread :: bool
  sp_early :: bool

record master =
  mp_self :: proxy
  mp_subs :: "subproxy list"

definition add_proxy :: "proxy \<Rightarrow> master \<Rightarrow> master" where
  "add_proxy px m = m\<lparr>mp_subs := mp_subs m @ [\<lparr>sp_px = Some px, sp_busy = 0, sp_thread = False, sp_early = False\<rparr>]\<rparr>"

definition mp_prepare_sockets :: "(proxy \<Rightarrow> int) \<Rightarrow> master \<Rightarrow> int" where
  "mp_prepare_sockets prepare m =
     1 + (\<Sum>sp\<leftarrow>mp_subs m. case sp_px sp of Some p \<Rightarrow> if px_dead p then 0 else prepare p | None \<Rightarrow> 0)"







partial_function (option) timer_loop :: "(proxy \<Rightarrow> proxy) \<Rightarrow> subproxy list \<Rightarrow> subproxy list \<Rightarrow> subproxy list option" where
  "timer_loop tick done sps =
     (case sps of
        [] \<Rightarrow> Some done
      | sp # rest \<Rightarrow>
          (case sp_px sp of
             None \<Rightarrow> timer_loop tick done (sp # rest)
           | Some p \<Rightarrow>
               if px_dead p \<and> sp_busy sp = 0 then timer_loop tick done rest
               else timer_loop tick (done @ [sp\<lparr>sp_px := Some (tick p)\<rparr>]) rest))"

definition mp_run_timers :: "(proxy \<Rightarrow> bool \<times> proxy) \<Rightarrow> (proxy \<Rightarrow> proxy) \<Rightarrow> master \<Rightarrow> (bool \<times> master) option" where
  "mp_run_timers own tick m =
     (case own (mp_self m) of
        (False, self) \<Rightarrow> Some (False, m\<lparr>mp_self := self\<rparr>)
      | (True, self) \<Rightarrow>
          map_option (\<lambda>sps. (True, m\<lparr>mp_self := self, mp_subs := sps\<rparr>)) (timer_loop tick [] (mp_subs m)))"

definition mp_shutdown :: "master \<Rightarrow> proxy list \<times> master" where
  "mp_shutdown m = (map px_shutdown (List.map_filter sp_px (mp_subs m)), m\<lparr>mp_subs := []\<rparr>)"

definition slow :: "params_t \<Rightarrow> baseHostCX \<Rightarrow> bool" where
  "slow par cx \<longleftrightarrow> \<not> (lb_bytes (cx_writebuf cx) = [] \<and> fast_copy_start par < cx_write_bytes cx)"

abbreviation out_bytes :: "baseHostCX \<Rightarrow> byte list" where
  "out_bytes cx \<equiv> lb_bytes (cx_writebuf cx)"

lemma write_buffer_bytes:
  assumes "to_write_buffer par rnd b cx = (b', cx')"
  shows "out_bytes cx' = out_bytes cx @ lb_bytes b" "lb_bytes b' = (if slow par cx then lb_bytes b else [])"
  using assms by (auto simp: to_write_buffer_def slow_def Let_def split: if_splits)

text \<open>The context the data reach: those up to and including the first on the fast lane.\<close>

fun reached :: "params_t \<Rightarrow> byte list \<Rightarrow> baseHostCX list \<Rightarrow> byte list list" where
  "reached par d [] = []"
| "reached par d (cx # cxs) = (out_bytes cx @ d) # (if slow par cx then reached par d cxs else map out_bytes cxs)"

lemma reached_nil: "reached par [] cxs = map out_bytes cxs"
  by (induction cxs) auto

lemma reached_append:
  "reached par d (xs @ ys) = reached par d xs @ (if list_all (slow par) xs then reached par d ys else map out_bytes ys)"
  by (induction xs) auto

lemma copy_to_bytes:
  "copy_to par rnd b cxs = (b', cxs') \<Longrightarrow>
   map out_bytes cxs' = reached par (lb_bytes b) cxs \<and> length cxs' = length cxs \<and>
   lb_bytes b' = (if list_all (slow par) cxs then lb_bytes b else [])"
proof (induction cxs arbitrary: b b' cxs')
  case (Cons cx cxs)
  obtain b1 cx1 where 1: "to_write_buffer par rnd b cx = (b1, cx1)" by force
  obtain b2 cxs2 where 2: "copy_to par rnd b1 cxs = (b2, cxs2)" by force
  show ?case
    using Cons.prems Cons.IH [OF 2] write_buffer_bytes [OF 1] 1 2 by (auto simp: reached_nil)
qed auto

lemma reached_nth:
  "j < length cxs \<Longrightarrow> reached par d cxs ! j =
     (if \<exists>i<j. \<not> slow par (cxs ! i) then out_bytes (cxs ! j) else out_bytes (cxs ! j) @ d)"
proof (induction cxs arbitrary: j)
  case (Cons cx cxs)
  then show ?case
    by (cases j) (auto simp: less_Suc_eq_0_disj)
qed simp

text \<open>Bytes read on the left are appended to the write buffers of the right contexts, the
  ordinary ones before the permanent ones, up to and including the first one on the fast lane: that
  one takes the read buffer away, and the contexts behind it get nothing.\<close>

theorem relay_reaches_first_fast:
  assumes "v \<in> {VL, VLpc}" and "i < length (px_cxs px v)"
    and "t = px_cxs px VR @ px_cxs px VRpc" and "px' = lr_on_left_bytes par rnd v i px"
    and "t' = px_cxs px' VR @ px_cxs px' VRpc" and "d = lb_bytes (cx_readbuf (the_cx v i px))"
  shows "length t' = length t \<and>
    (\<forall>j < length t. out_bytes (t' ! j) =
       (if \<exists>k<j. \<not> slow par (t ! k) then out_bytes (t ! j) else out_bytes (t ! j) @ d))"
proof -
  obtain b1 cxs where 1: "copy_to par rnd (cx_readbuf (the_cx v i px)) (px_cxs px VR) = (b1, cxs)" by force
  obtain b2 pcs where 2: "copy_to par rnd b1 (px_cxs px VRpc) = (b2, pcs)" by force
  have t': "t' = cxs @ pcs"
    using assms(1,4,5) 1 2 by (auto simp: lr_on_left_bytes_def lr_on_bytes_def on_cx_def put_cx_def set_vec_def)
  have m: "map out_bytes t' = reached par d t"
    using copy_to_bytes [OF 1] copy_to_bytes [OF 2]
    by (auto simp: t' assms(3,6) reached_append reached_nil)
  then have l: "length t' = length t"
    using copy_to_bytes [OF 1] copy_to_bytes [OF 2] by (simp add: t' assms(3))
  show ?thesis
    using l m reached_nth [of _ t par d] by (metis nth_map)
qed

















lemma timer_loop_null:
  assumes "sp_px sp = None"
  shows "timer_loop tick done (sp # rest) = None"
proof -
  have "sps \<noteq> sp # rest" if "timer_loop tick d sps = Some r" for d sps r
  proof (rule timer_loop.raw_induct [of "\<lambda>t d sps r. sps \<noteq> sp # rest", OF _ that])
    fix f t d sps r
    assume ih: "\<And>t d sps r. f t d sps = Some r \<Longrightarrow> sps \<noteq> sp # rest"
      and f: "(case sps of
        [] \<Rightarrow> Some d
      | sp # rest \<Rightarrow>
          (case sp_px sp of
             None \<Rightarrow> f t d (sp # rest)
           | Some p \<Rightarrow>
               if px_dead p \<and> sp_busy sp = 0 then f t d rest
               else f t (d @ [sp\<lparr>sp_px := Some (t p)\<rparr>]) rest)) = Some r"
    show "sps \<noteq> sp # rest"
      using f ih assms by force
  qed
  then show ?thesis by (cases "timer_loop tick done (sp # rest)") auto
qed

definition demo_busy_cx :: baseHostCX where
  "demo_busy_cx = demo_cx\<lparr>cx_write_bytes := 30000\<rparr>"

definition demo_relay :: proxy where
  "demo_relay = set_vec VR [demo_busy_cx, demo_cx]
     (set_vec VL [demo_cx\<lparr>cx_readbuf := \<lparr>lb_bytes = [1, 2], lb_cap = 2048\<rparr>\<rparr>] demo_px)"

theorem relay_reaches_first_fast_witness:
  "out_bytes (px_cxs (lr_on_left_bytes default_params id VL 0 demo_relay) VR ! 0) = [1, 2] \<and>
   out_bytes ((px_cxs (lr_on_left_bytes default_params id VL 0 demo_relay) VR @
     px_cxs (lr_on_left_bytes default_params id VL 0 demo_relay) VRpc) ! 1) = []"
proof -
  let ?px = "lr_on_left_bytes default_params id VL 0 demo_relay"
  have t: "px_cxs demo_relay VR @ px_cxs demo_relay VRpc = [demo_busy_cx, demo_cx]"
    "lb_bytes (cx_readbuf (the_cx VL 0 demo_relay)) = [1, 2]" "0 < length (px_cxs demo_relay VL)"
    by (simp_all add: demo_relay_def set_vec_def the_cx_def demo_px_def)
  have s: "\<not> slow default_params demo_busy_cx" "out_bytes demo_busy_cx = []" "out_bytes demo_cx = []"
    by (simp_all add: slow_def demo_busy_cx_def demo_cx_def default_params_def)
  note r = relay_reaches_first_fast [OF _ t(3) refl refl refl refl, of default_params id, unfolded t]
  have 0: "out_bytes ((px_cxs ?px VR @ px_cxs ?px VRpc) ! 0) = [1, 2]"
    and 1: "out_bytes ((px_cxs ?px VR @ px_cxs ?px VRpc) ! 1) = []"
    using r s by (auto dest: spec [of _ 0] spec [of _ "1 :: nat"])
  have "px_cxs ?px VR \<noteq> []"
    by (auto simp: lr_on_left_bytes_def lr_on_bytes_def on_cx_def put_cx_def set_vec_def demo_relay_def Let_def split: prod.split)
  then show ?thesis using 0 1 by (simp add: nth_append)
qed



end
