(* ===== verification/Sslio.thy ===== *)
theory Sslio
  imports Sslcom
begin

text \<open>
  What the TLS layer does on its sockets: waiting for the ClientHello of the peer, the client's and
  the server's handshake, the session cache, reading, writing and the readiness of the connection,
  from \<^verbatim>\<open>sslcom.tpp\<close>.

  \<open>tls\<close> holds both sides and the session cache of the factory. What a call meets is the record
  \<open>tls_env\<close>: the bytes a peek of the peer's socket gives, the answers of \<^verbatim>\<open>SSL_connect\<close>,
  \<^verbatim>\<open>SSL_accept\<close> and of the plain socket. As the ClientHello parser may not return, neither may the
  functions above it: they give \<open>None\<close> then. The replies of \<^verbatim>\<open>SSL_read\<close> are a list that the loop of
  \<^verbatim>\<open>read\<close> consumes.
\<close>

section \<open>State\<close>

record tls =
  tls_me :: sslcom
  tls_peer :: peer
  tls_sessions :: "byte list \<Rightarrow> nat option"

record tls_env =
  te_red :: int
  te_block :: "byte list"
  te_errno_fatal :: bool
  te_late :: bool
  te_owner :: bool
  te_owner_fd :: int
  te_host :: "byte list"
  te_port :: "byte list"
  te_left_cache :: bool
  te_factory :: bool
  te_ssl_ok :: bool
  te_blocking :: bool
  te_first_connect :: int
  te_first_error :: ssl_error
  te_op :: int
  te_op_error :: ssl_error
  te_err2 :: int
  te_reused :: bool
  te_peer_cert :: bool
  te_session :: nat
  te_session_id :: "byte list option"
  te_resumable :: bool
  te_has_ticket :: bool
  te_l4_read :: "int \<times> byte list"
  te_l4_write :: int
  te_peek :: int

type_synonym 'a call = "('a \<times> tls) result option"

definition me :: "(sslcom \<Rightarrow> sslcom) \<Rightarrow> tls \<Rightarrow> tls" where
  "me f t = t\<lparr>tls_me := f (tls_me t)\<rparr>"

definition bypass :: "sslcom \<Rightarrow> sslcom" where
  "bypass x = verify_reset VRF_OK (x\<lparr>sc_bypass := True\<rparr>)"

definition bypass_me_and_peer :: "tls \<Rightarrow> bool \<times> tls" where
  "bypass_me_and_peer t =
     (case tls_peer t of
        Tls_peer y \<Rightarrow> (True, t\<lparr>tls_me := bypass (tls_me t), tls_peer := Tls_peer (bypass y)\<rparr>)
      | _ \<Rightarrow> (False, t))"

definition monitor_peer :: "tls \<Rightarrow> tls" where
  "monitor_peer t = (case tls_peer t of Tls_peer y \<Rightarrow> me (sc_do (Set_monitor (sc_fd y))) t | _ \<Rightarrow> t)"

definition unmonitor_peer :: "tls \<Rightarrow> tls" where
  "unmonitor_peer t = (case tls_peer t of Tls_peer y \<Rightarrow> me (sc_do (Unset_monitor (sc_fd y))) t | _ \<Rightarrow> t)"

section \<open>The hello of the peer\<close>

definition hello_arrived :: "sslcom \<Rightarrow> sslcom" where
  "hello_arrived x = sc_do (Set_monitor (sc_fd x)) (x\<lparr>sc_hello_received := True\<rparr>)"

definition waiting_peer_hello :: "tls_env \<Rightarrow> tls \<Rightarrow> bool call" where
  "waiting_peer_hello env t =
     (let x = tls_me t
      in if sc_hello_received x then Some (ok (True, t))
         else
           case tls_peer t of
             No_peer \<Rightarrow> Some (ok (True, me hello_arrived t))
           | Other_peer \<Rightarrow> Some (ok (False, t))
           | Tls_peer y \<Rightarrow>
               if 0 < sc_fd y then
                 if 0 < te_red env then
                   let h = (sc_hello x)\<lparr>hb_mem := te_block env, hb_size := nat (te_red env), hs_error := False\<rparr>
                   in case parse_peer_hello (te_late env) h of
                        None \<Rightarrow> None
                      | Some (e, h) \<Rightarrow>
                          if e \<noteq> None \<and> e \<noteq> Some Clienthello_malformed then Some (raise Undefined_behaviour)
                          else
                            let x = x\<lparr>sc_hello := h, sc_error_flag := (if hs_error h then ERROR_UNSPEC else sc_error_flag x)\<rparr>;
                                x = (if hb_size h < 34 then sc_do (Rescan_read (sc_fd y)) x else x);
                                r = (if e = None then hs_ret h else 0);
                                t = t\<lparr>tls_me := x\<rparr>
                            in if r = 0 then Some (ok (False, snd (bypass_me_and_peer t)))
                               else if r < 0 then Some (ok (False, t))
                               else Some (ok (True, me hello_arrived
                                      (t\<lparr>tls_peer := Tls_peer (y\<lparr>sc_hello := (sc_hello y)\<lparr>hs_sni := hs_sni h\<rparr>\<rparr>)\<rparr>)))
                 else if te_red env = 0 \<and> te_errno_fatal env then
                   Some (ok (False, t\<lparr>tls_me := x\<lparr>sc_error_flag := ERROR_UNSPEC\<rparr>,
                                     tls_peer := Tls_peer (y\<lparr>sc_error_flag := ERROR_READ\<rparr>)\<rparr>))
                 else Some (ok (False, t))
               else if sc_dgram y then Some (ok (True, me hello_arrived t))
               else Some (ok (False, t)))"

section \<open>The session cache\<close>

definition tls_sni :: "sslcom \<Rightarrow> byte list" where
  "tls_sni x = hs_sni (sc_hello x)"

definition str_bytes :: "string \<Rightarrow> byte list" where
  "str_bytes s = map of_char s"

text \<open>The key a session is stored and looked for under: \<open>sid\<close> is the session id of the server side.\<close>

definition session_cache_key :: "tls_env \<Rightarrow> byte list option \<Rightarrow> tls \<Rightarrow> byte list" where
  "session_cache_key env sid t =
     (let x = tls_me t;
          pref = (if sc_server x then str_bytes ''l-'' @ te_host env @ str_bytes ''-'' @
                    (case sid of Some s \<Rightarrow> s @ str_bytes ''-'' | None \<Rightarrow> []) else str_bytes ''r-'');
          sni = (if sc_server x then (case tls_peer t of Tls_peer y \<Rightarrow> tls_sni y | _ \<Rightarrow> []) else tls_sni x)
      in if sni \<noteq> [] then pref @ sni else pref @ te_host env @ str_bytes '':'' @ te_port env)"

definition store_session_if_needed :: "tls_env \<Rightarrow> tls \<Rightarrow> bool \<times> tls" where
  "store_session_if_needed env t =
     (let x = tls_me t
      in if sc_server x \<and> \<not> te_left_cache env then (False, t)
         else if \<not> no_tickets (sc_opt x) \<and> te_factory env \<and> te_owner env then
           let key = session_cache_key env (map_option (\<lambda>s. str_bytes (hex_print s)) (te_session_id env)) t;
               put = t\<lparr>tls_sessions := (tls_sessions t)(key := Some (te_session env))\<rparr>
           in if \<not> te_reused env then
                if sc_server x then
                  if te_resumable env \<and> \<not> te_has_ticket env then (True, put) else (False, t)
                else if verify_bitcheck VRF_OK x then
                  if te_resumable env then (True, if sc_verify x = VRF_OK then put else t) else (False, t)
                else (False, t)
              else (False, me (\<lambda>x. verify_bitset VRF_OK (verify_bitreset VRF_NOTTESTED (x\<lparr>sc_reused := True\<rparr>))) t)
         else (False, t))"

text \<open>The session handed to OpenSSL, if any. The server side uses its peer without looking whether there is one.\<close>

definition load_session_if_needed :: "tls_env \<Rightarrow> tls \<Rightarrow> (bool \<times> nat option) result" where
  "load_session_if_needed env t =
     (let x = tls_me t
      in if sc_server x \<and> \<not> te_left_cache env then ok (False, None)
         else if \<not> no_tickets (sc_opt x) \<and> te_factory env \<and> te_owner env then
           let look = (\<lambda>sid. case tls_sessions t (session_cache_key env sid t) of
                                Some s \<Rightarrow> ok (True, Some s) | None \<Rightarrow> ok (False, None))
           in if sc_server x then
                case tls_peer t of
                  Tls_peer y \<Rightarrow> look (let i = hs_id (sc_hello y) in if 0 < length i then Some (str_bytes i) else None)
                | _ \<Rightarrow> raise Undefined_behaviour
              else look None
         else ok (False, None))"

section \<open>Handshakes\<close>

definition check_cert :: "tls_env \<Rightarrow> sslcom \<Rightarrow> bool \<times> sslcom" where
  "check_cert env x = (if te_peer_cert env then (True, x\<lparr>sc_status := True\<rparr>) else (False, x))"

definition upgrade_server_socket :: "sslcom \<Rightarrow> sslcom" where
  "upgrade_server_socket x =
     (let x = x\<lparr>sc_waiting := True\<rparr>
      in if sc_bypass x then x
         else if \<not> sc_upgraded x then x\<lparr>sc_ssl := True, sc_upgraded := True\<rparr> else x)"

definition upgrade_client_socket :: "tls_env \<Rightarrow> int \<Rightarrow> tls \<Rightarrow> int call" where
  "upgrade_client_socket env sock t =
     (case waiting_peer_hello env (me (\<lambda>x. x\<lparr>sc_fd := sock\<rparr>) t) of
        None \<Rightarrow> None
      | Some (Inl e) \<Rightarrow> Some (Inl e)
      | Some (Inr (ch, t)) \<Rightarrow>
          let x = tls_me t; r = te_first_connect env
          in if \<not> ch \<or> sc_bypass x then Some (ok (sock, t))
             else if \<not> te_ssl_ok env then Some (raise Undefined_behaviour)
             else
               let x = x\<lparr>sc_ssl := True\<rparr>;
                   x = (if tls_sni x \<noteq> [] then sc_do (Ssl_host_name (tls_sni x)) x else x);
                   x = (if \<not> alpn_block (sc_opt x) \<and> hs_alpn (sc_hello x) \<noteq> []
                        then sc_do (Ssl_alpn_protos (hs_alpn (sc_hello x))) x else x);
                   x = x\<lparr>sc_ret := r\<rparr>;
                   t = t\<lparr>tls_me := x\<rparr>
               in if r \<le> 0 \<and> te_blocking env then Some (ok (- 1, me (sc_do (Close_fd sock)) t))
                  else if r \<le> 0 then
                    if r = - 1 then
                      let t = (if te_first_error env = SSL_ERROR_WANT_WRITE
                               then unmonitor_peer (me (sc_do (Set_write_monitor_only sock)) t)
                               else if te_first_error env = SSL_ERROR_WANT_READ then unmonitor_peer t else t)
                      in Some (ok (sock, me (\<lambda>x. x\<lparr>sc_waiting := True\<rparr>) t))
                    else Some (ok (sock, t))
                  else
                    let t = monitor_peer (me (\<lambda>x. x\<lparr>sc_waiting := False\<rparr>) t);
                        t = snd (store_session_if_needed env t)
                    in Some (ok (sock, me (\<lambda>x. (snd (check_cert env x))\<lparr>sc_forced_read := True, sc_forced_write := True,
                         sc_upgraded := True\<rparr>) t)))"

text \<open>The second half of \<^verbatim>\<open>handshake_peer_client\<close>: the bypass filter.\<close>

definition apply_filter :: "tls \<Rightarrow> bool \<times> tls" where
  "apply_filter t =
     (let x = tls_me t
      in case sc_filters x of
           None \<Rightarrow> (True, t)
         | Some fs \<Rightarrow>
             if tls_sni x \<noteq> [] \<and> (\<exists>f \<in> set fs. sni_filter_match f (tls_sni x)) then
               let (b, t) = bypass_me_and_peer (me (\<lambda>x. x\<lparr>sc_filter_matched := True\<rparr>) t) in (\<not> b, t)
             else (True, t))"

definition handshake_peer_client :: "tls_env \<Rightarrow> tls \<Rightarrow> bool call" where
  "handshake_peer_client env t =
     (let filt = (\<lambda>t. if sc_hello_received (tls_me t) then apply_filter t else (True, t))
      in if sc_hello_received (tls_me t) then Some (ok (filt t))
         else
           case waiting_peer_hello env t of
             None \<Rightarrow> None
           | Some (Inl e) \<Rightarrow> Some (Inl e)
           | Some (Inr (False, t)) \<Rightarrow> Some (ok (False, t))
           | Some (Inr (True, t)) \<Rightarrow>
               if sc_auto_upgrade (tls_me t) then
                 let fd = (if te_owner env \<and> sc_fd (tls_me t) = 0 then te_owner_fd env else sc_fd (tls_me t))
                 in case upgrade_client_socket env fd t of
                      None \<Rightarrow> None
                    | Some (Inl e) \<Rightarrow> Some (Inl e)
                    | Some (Inr (_, t)) \<Rightarrow> Some (ok (filt t))
               else Some (ok (filt t)))"

text \<open>What follows the call of \<^verbatim>\<open>SSL_connect\<close> or \<^verbatim>\<open>SSL_accept\<close> in \<^verbatim>\<open>handshake\<close>.\<close>

definition handshake_result :: "tls_env \<Rightarrow> tls \<Rightarrow> ret_handshake \<times> tls" where
  "handshake_result env t =
     (let op = te_op env; err = te_op_error env; x = tls_me t; fd = sc_fd x
      in if op < 0 then
           if err = SSL_ERROR_WANT_READ then
             let x = x\<lparr>sc_waiting := True, sc_want_read_cnt := sc_want_read_cnt x + 1\<rparr>
             in (HS_AGAIN, t\<lparr>tls_me := sc_do (if rescan_threshold < sc_want_read_cnt x then Rescan_read fd else Set_monitor fd) x\<rparr>)
           else if err = SSL_ERROR_WANT_WRITE then
             let x = x\<lparr>sc_waiting := True, sc_want_write_cnt := sc_want_write_cnt x + 1\<rparr>
             in (HS_AGAIN, t\<lparr>tls_me := sc_do (if rescan_threshold < sc_want_write_cnt x then Rescan_write fd
                                              else Set_write_monitor_only fd) x\<rparr>)
           else if err = SSL_ERROR_SYSCALL then (HS_FATAL, t)
           else if te_err2 env = 654741622 \<or> te_err2 env = 654741605 then
             (if 0 < sc_ocsp_revoked x then HS_ERROR else HS_AGAIN, t)
           else (HS_ERROR, t\<lparr>tls_me := x\<lparr>sc_waiting := True\<rparr>\<rparr>)
         else if op = 0 then (HS_ERROR, t\<lparr>tls_me := x\<lparr>sc_waiting := False\<rparr>\<rparr>)
         else if op = 2 then (HS_AGAIN, t\<lparr>tls_me := bypass x\<rparr>)
         else
           let t = (if te_reused env then me (\<lambda>x. x\<lparr>sc_reused := True\<rparr>) t else t);
               t = (if \<not> sc_server (tls_me t)
                    then snd (store_session_if_needed env (me (\<lambda>x. snd (check_cert env x)) t)) else t)
           in (HS_AGAIN, me (\<lambda>x. x\<lparr>sc_waiting := False\<rparr>) t))"

definition handshake :: "tls_env \<Rightarrow> tls \<Rightarrow> ret_handshake call" where
  "handshake env t =
     (let x = tls_me t; connected = (\<lambda>t. me (\<lambda>x. x\<lparr>sc_ret := te_op env\<rparr>) t)
      in if \<not> sc_ssl x \<and> \<not> sc_auto_upgrade x then Some (ok (HS_ERROR, t))
         else if \<not> sc_server x then
           case handshake_peer_client env t of
             None \<Rightarrow> None
           | Some (Inl e) \<Rightarrow> Some (Inl e)
           | Some (Inr (False, t)) \<Rightarrow>
               Some (ok (HS_AGAIN, me (\<lambda>x. sc_do (Rescan_read (sc_fd x)) (sc_do (Unset_monitor (sc_fd x)) x)) t))
           | Some (Inr (True, t)) \<Rightarrow>
               if \<not> sc_ssl (tls_me t) then Some (raise Undefined_behaviour)
               else Some (ok (handshake_result env (connected t)))
         else
           let t = (if sc_auto_upgrade x \<and> \<not> sc_upgraded x then me upgrade_server_socket t else t)
           in if \<not> sc_ssl (tls_me t) then Some (raise Undefined_behaviour)
              else let t = connected t; t = (if te_op env = 1 then snd (store_session_if_needed env t) else t)
                   in Some (ok (handshake_result env t)))"

section \<open>Reading and writing\<close>

record read_answer =
  ra_ret :: int
  ra_data :: "byte list"
  ra_err :: ssl_error
  ra_pending :: bool
  ra_late :: bool

definition want_read_step :: "sslcom \<Rightarrow> sslcom" where
  "want_read_step x =
     (let x = x\<lparr>sc_read_want_read := sc_read_want_read x + 1, sc_want_read_cnt := sc_want_read_cnt x + 1\<rparr>
      in if rescan_threshold < sc_read_want_read x
         then (sc_do (Rescan_read (sc_fd x)) x)\<lparr>sc_read_want_read := 0\<rparr>
         else sc_do (Set_monitor (sc_fd x)) x)"

definition want_write_step :: "sslcom \<Rightarrow> sslcom" where
  "want_write_step x =
     (let x = x\<lparr>sc_forced_read_on_write := True, sc_read_blocked_on_write := True,
                sc_read_want_write := sc_read_want_write x + 1, sc_want_write_cnt := sc_want_write_cnt x + 1\<rparr>
      in if rescan_threshold < sc_read_want_write x
         then (sc_do (Rescan_write (sc_fd x)) x)\<lparr>sc_read_want_write := 0\<rparr>
         else sc_do (Set_write_monitor (sc_fd x)) x)"

text \<open>The loop over \<^verbatim>\<open>SSL_read\<close>: \<open>got\<close> is what the buffer of \<open>n\<close> bytes has so far. \<open>None\<close> is a list of
  answers that is too short.\<close>

definition read_done :: "int \<Rightarrow> byte list \<Rightarrow> sslcom \<Rightarrow> (int \<times> byte list \<times> sslcom) option" where
  "read_done r got x = Some (if got \<noteq> [] then int (length got) else r, got, x)"

fun read_loop :: "int \<Rightarrow> nat \<Rightarrow> read_answer list \<Rightarrow> byte list \<Rightarrow> sslcom \<Rightarrow> (int \<times> byte list \<times> sslcom) option" where
  "read_loop fd n as got x =
     (if n \<le> length got
      then Some (int (length got), got, sc_do (Set_enforce fd) (x\<lparr>sc_forced_read := True\<rparr>))
      else
        case as of
          [] \<Rightarrow> None
        | a # as \<Rightarrow>
            let x = x\<lparr>sc_ret := ra_ret a\<rparr>
            in case ra_err a of
                 SSL_ERROR_NONE \<Rightarrow>
                   let got = (if 0 < ra_ret a then got @ ra_data a else got);
                       x = (if sc_read_blocked_on_write x
                            then (sc_do (Modify_in fd) x)\<lparr>sc_read_blocked_on_write := False\<rparr> else x);
                       x = x\<lparr>sc_read_want_write := 0, sc_read_want_read := 0\<rparr>
                   in if ra_pending a then read_loop fd n as got x else Some (int (length got), got, x)
               | SSL_ERROR_ZERO_RETURN \<Rightarrow> Some (ra_ret a, got, x)
               | SSL_ERROR_WANT_READ \<Rightarrow>
                   let x = want_read_step x
                   in if ra_late a then Some (0, got, x\<lparr>sc_error_flag := ERROR_READ\<rparr>) else read_done (ra_ret a) got x
               | SSL_ERROR_WANT_WRITE \<Rightarrow>
                   let x = want_write_step x
                   in if ra_late a then Some (0, got, x\<lparr>sc_error_flag := ERROR_READ\<rparr>) else read_done (ra_ret a) got x
               | SSL_ERROR_SYSCALL \<Rightarrow> read_done (ra_ret a) got (x\<lparr>sc_fatal := True\<rparr>)
               | _ \<Rightarrow> read_done (ra_ret a) got x)"

declare read_loop.simps [simp del]

text \<open>Both \<^verbatim>\<open>read\<close> and \<^verbatim>\<open>write\<close> first finish the handshake. \<open>Inl\<close> is their result when they stop there.\<close>

definition tls_gate :: "tls_env \<Rightarrow> int \<Rightarrow> int \<Rightarrow> int \<Rightarrow> (sslcom \<Rightarrow> sslcom) \<Rightarrow> tls \<Rightarrow> (int + unit) call" where
  "tls_gate env plain again failed force t =
     (if sc_bypass (tls_me t) then Some (ok (Inl plain, t))
      else if sc_waiting (tls_me t) then
        case handshake env t of
          None \<Rightarrow> None
        | Some (Inl e) \<Rightarrow> Some (Inl e)
        | Some (Inr (c, t)) \<Rightarrow>
            (case c of
               HS_AGAIN \<Rightarrow> Some (ok (Inl (if sc_bypass (tls_me t) then plain else again), t))
             | HS_ERROR \<Rightarrow> Some (ok (Inl failed, t))
             | HS_FATAL \<Rightarrow> Some (ok (Inl failed, me (\<lambda>x. x\<lparr>sc_fatal := True\<rparr>) t))
             | _ \<Rightarrow> Some (ok (Inr (), monitor_peer (me force t))))
      else Some (ok (Inr (), t)))"

definition tls_read :: "tls_env \<Rightarrow> int \<Rightarrow> nat \<Rightarrow> bool \<Rightarrow> read_answer list \<Rightarrow> tls \<Rightarrow> (int \<times> byte list) call" where
  "tls_read env fd n peek as t =
     (case tls_gate env (fst (te_l4_read env)) (- 1) 0 (\<lambda>x. x\<lparr>sc_forced_read := True\<rparr>) t of
        None \<Rightarrow> None
      | Some (Inl e) \<Rightarrow> Some (Inl e)
      | Some (Inr (Inl r, t)) \<Rightarrow> Some (ok ((r, if sc_bypass (tls_me t) then snd (te_l4_read env) else []), t))
      | Some (Inr (Inr _, t)) \<Rightarrow>
          if peek then Some (ok ((te_peek env, []), me (\<lambda>x. x\<lparr>sc_ret := te_peek env\<rparr>) t))
          else map_option (\<lambda>(r, got, x). ok ((r, got), t\<lparr>tls_me := x\<rparr>)) (read_loop fd n as [] (tls_me t)))"

text \<open>One call of \<^verbatim>\<open>SSL_write\<close> with at most 20480 bytes: its return value and error, and whether the time is
  up.\<close>

definition write_step :: "int \<Rightarrow> nat \<Rightarrow> int \<Rightarrow> ssl_error \<Rightarrow> bool \<Rightarrow> sslcom \<Rightarrow> int \<times> sslcom" where
  "write_step fd n r err late x =
     (let x = x\<lparr>sc_write_blocked_on_read := False\<rparr>; m = (if n < 20480 then n else 20480)
      in if n = 0 then (0, x)
         else
           let x = x\<lparr>sc_ret := r\<rparr>;
               x = (if int m \<le> r then x\<lparr>sc_forced_write := True\<rparr> else x)
           in if err = SSL_ERROR_NONE then
                let x = (if sc_write_blocked_on_read x
                         then x\<lparr>sc_write_blocked_on_read := False, sc_forced_write_on_read := False\<rparr> else x);
                    x = (if sc_write_blocked_on_write x
                         then sc_do (Modify_in fd) (x\<lparr>sc_write_blocked_on_write := False\<rparr>) else x)
                in (r, x\<lparr>sc_write_want_read := 0, sc_write_want_write := 0\<rparr>)
              else
                let x = (if err = SSL_ERROR_WANT_WRITE then
                           let x = (sc_do (Modify_inout fd) x)\<lparr>sc_write_blocked_on_write := True,
                                      sc_write_want_write := sc_write_want_write x + 1,
                                      sc_want_write_cnt := sc_want_write_cnt x + 1\<rparr>
                           in if rescan_threshold < sc_write_want_write x
                              then (sc_do (Rescan_write (sc_fd x)) x)\<lparr>sc_write_want_write := 0\<rparr>
                              else sc_do (Set_write_monitor (sc_fd x)) x
                         else if err = SSL_ERROR_WANT_READ then
                           let x = x\<lparr>sc_write_blocked_on_read := True, sc_forced_write_on_read := True,
                                      sc_write_want_read := sc_write_want_read x + 1,
                                      sc_want_read_cnt := sc_want_read_cnt x + 1\<rparr>
                           in if rescan_threshold < sc_write_want_read x
                              then (sc_do (Rescan_read (sc_fd x)) x)\<lparr>sc_write_want_read := 0\<rparr>
                              else sc_do (Set_monitor (sc_fd x)) x
                         else x)
                in (0, if late then x\<lparr>sc_error_flag := ERROR_WRITE\<rparr> else x))"

definition tls_write :: "tls_env \<Rightarrow> int \<Rightarrow> nat \<Rightarrow> int \<Rightarrow> ssl_error \<Rightarrow> bool \<Rightarrow> tls \<Rightarrow> int call" where
  "tls_write env fd n r err late t =
     (case tls_gate env (te_l4_write env) 0 (- 1) (\<lambda>x. x\<lparr>sc_forced_write := True\<rparr>) t of
        None \<Rightarrow> None
      | Some (Inl e) \<Rightarrow> Some (Inl e)
      | Some (Inr (Inl q, t)) \<Rightarrow> Some (ok (q, t))
      | Some (Inr (Inr _, t)) \<Rightarrow>
          let (q, x) = write_step fd n r err late (tls_me t) in Some (ok (q, t\<lparr>tls_me := x\<rparr>)))"

definition tls_readable :: "sslcom \<Rightarrow> bool \<times> sslcom" where
  "tls_readable x = (\<not> sc_read_blocked_on_write x, x\<lparr>sc_read_blocked_on_write := False\<rparr>)"

definition tls_writable :: "sslcom \<Rightarrow> bool \<times> sslcom" where
  "tls_writable x = (\<not> sc_write_blocked_on_read x, x\<lparr>sc_write_blocked_on_read := False\<rparr>)"

definition tls_com_status :: "bool \<Rightarrow> sslcom \<Rightarrow> bool" where
  "tls_com_status l4 x =
     (if l4 then
        if sc_bypass x then True
        else if sc_status x then (if \<not> sc_server x \<and> verify_bitcheck VRF_NOTTESTED x then False else True)
        else False
      else False)"

definition tls_shutdown :: "sslcom \<Rightarrow> sslcom" where
  "tls_shutdown x = (if sc_ssl x \<and> \<not> sc_fatal x then sc_do Ssl_shutdown x else x)"

definition tls_cleanup :: "bool \<Rightarrow> bool \<Rightarrow> sslcom \<Rightarrow> sslcom" where
  "tls_cleanup sent_already broken x =
     (if sc_ssl x then
        let x = (if \<not> sc_waiting x \<and> \<not> sc_fatal x \<and> \<not> sent_already \<and> \<not> broken then sc_do Ssl_shutdown x else x)
        in (sc_do Ssl_free x)\<lparr>sc_ssl := False\<rparr>
      else x)"

section \<open>Handshakes, proved\<close>

lemma handshake_result_code: "fst (handshake_result env t) \<in> {HS_AGAIN, HS_ERROR, HS_FATAL}"
  by (simp add: handshake_result_def Let_def)

lemma handshake_code:
  assumes "handshake env t = Some (ok (r, t'))"
  shows "r \<in> {HS_AGAIN, HS_ERROR, HS_FATAL}"
proof -
  have h: "r \<in> {HS_AGAIN, HS_ERROR, HS_FATAL}" if "handshake_result env s = (r, t')" for s
    using handshake_result_code [of env s] that by simp
  show ?thesis
    using assms
    by (auto simp: handshake_def Let_def dest: h split: if_splits option.splits sum.splits prod.splits bool.splits)
qed

text \<open>A handshake never reports success: when it is finished, \<^verbatim>\<open>handshake\<close> ends with AGAIN like one that is
  not, so that the call of \<^verbatim>\<open>read\<close> or \<^verbatim>\<open>write\<close> that finished it transfers nothing, and the code that
  follows -- the forced next round and the watching of the peer -- is never reached.\<close>

theorem finishing_call_transfers_nothing:
  assumes "sc_waiting (tls_me t)" and "\<not> sc_bypass (tls_me t)"
    and "tls_gate env plain again failed force t = Some (ok (c, t'))"
  shows "\<exists>q. c = Inl q \<and> (sc_bypass (tls_me t') \<or> q \<in> {again, failed})"
proof -
  obtain r t1 where h: "handshake env t = Some (ok (r, t1))"
    using assms by (auto simp: tls_gate_def split: option.splits sum.splits)
  have "r \<in> {HS_AGAIN, HS_ERROR, HS_FATAL}" using handshake_code [OF h] .
  then show ?thesis using assms h by (auto simp: tls_gate_def split: ret_handshake.splits)
qed

section \<open>Reading, proved\<close>

text \<open>What OpenSSL promises while there is room: a positive return is the number of bytes written, at most
  the room there was, and comes with no error, and only it does. Nothing is asked of the call that
  follows pending bytes: it may deliver, end, fail or wait as any other.\<close>

fun answers_ok :: "nat \<Rightarrow> read_answer list \<Rightarrow> bool" where
  "answers_ok room [] \<longleftrightarrow> True"
| "answers_ok room (a # as) \<longleftrightarrow> room = 0 \<or>
     (ra_err a = SSL_ERROR_NONE \<longleftrightarrow> 0 < ra_ret a) \<and>
     (0 < ra_ret a \<longrightarrow> ra_ret a = int (length (ra_data a)) \<and> length (ra_data a) \<le> room \<and>
        (ra_pending a \<longrightarrow> answers_ok (room - length (ra_data a)) as))"

definition delivered :: "read_answer list \<Rightarrow> byte list" where
  "delivered as = concat (map ra_data (filter (\<lambda>a. 0 < ra_ret a) as))"

text \<open>The two exits that return without looking at what was read before: the end of the connection and a
  wait beyond the time limit.\<close>

definition gives_up :: "read_answer \<Rightarrow> bool" where
  "gives_up a \<longleftrightarrow> ra_err a = SSL_ERROR_ZERO_RETURN \<or> ra_late a \<and> ra_err a \<in> {SSL_ERROR_WANT_READ, SSL_ERROR_WANT_WRITE}"

lemma read_loop_full: "n \<le> length got \<Longrightarrow>
    read_loop fd n as got x = Some (int (length got), got, sc_do (Set_enforce fd) (x\<lparr>sc_forced_read := True\<rparr>))"
  by (subst read_loop.simps) simp

lemma read_loop_starved: "length got < n \<Longrightarrow> read_loop fd n [] got x = None"
  by (subst read_loop.simps) simp

lemma read_loop_last:
  assumes "length got < n" and "ra_err a \<noteq> SSL_ERROR_NONE" and "ra_ret a \<le> 0"
  shows "\<exists>x'. \<forall>as. read_loop fd n (a # as) got x =
    Some (if gives_up a then (if ra_err a = SSL_ERROR_ZERO_RETURN then ra_ret a else 0)
          else if got \<noteq> [] then int (length got) else ra_ret a, got, x')"
  using assms
  by (cases "ra_err a"; cases "ra_late a")
    (simp_all add: read_loop.simps [of fd n "a # _"] Let_def read_done_def gives_up_def)

lemma read_loop_next:
  assumes "length got < n" and "ra_err a = SSL_ERROR_NONE" and "0 < ra_ret a"
  shows "\<exists>x'. \<forall>as. read_loop fd n (a # as) got x =
    (if ra_pending a then read_loop fd n as (got @ ra_data a) x'
     else Some (int (length (got @ ra_data a)), got @ ra_data a, x'))"
proof -
  define x1 where "x1 = (let x = x\<lparr>sc_ret := ra_ret a\<rparr>;
      x = (if sc_read_blocked_on_write x then (sc_do (Modify_in fd) x)\<lparr>sc_read_blocked_on_write := False\<rparr> else x)
    in x\<lparr>sc_read_want_write := 0, sc_read_want_read := 0\<rparr>)"
  show ?thesis using assms by (intro exI [of _ x1]) (simp add: read_loop.simps [of fd n "a # _"] x1_def Let_def)
qed

text \<open>A call of \<^verbatim>\<open>read\<close> makes \<open>k\<close> calls of \<^verbatim>\<open>SSL_read\<close>: it needs the first \<open>k\<close> answers, no fewer, and looks
  at no more.\<close>

definition uses_answers :: "int \<Rightarrow> nat \<Rightarrow> read_answer list \<Rightarrow> byte list \<Rightarrow> sslcom \<Rightarrow> nat \<Rightarrow> int \<times> byte list \<times> sslcom \<Rightarrow> bool"
  where "uses_answers fd n as got x k res \<longleftrightarrow>
    (\<forall>j. read_loop fd n (take j as) got x = (if k \<le> j then Some res else None))"

lemma uses_answers_Suc:
  assumes "length got < n" and "\<And>as. read_loop fd n (a # as) got x = f as"
    and "\<And>j. f (take j as) = (if k \<le> j then Some res else None)"
  shows "uses_answers fd n (a # as) got x (Suc k) res"
  unfolding uses_answers_def
proof
  fix j
  show "read_loop fd n (take j (a # as)) got x = (if Suc k \<le> j then Some res else None)"
    using assms by (cases j) (simp_all add: read_loop_starved)
qed

definition read_result :: "read_answer list \<Rightarrow> int \<Rightarrow> byte list \<Rightarrow> bool" where
  "read_result calls r out \<longleftrightarrow>
     (if calls \<noteq> [] \<and> gives_up (last calls) then r \<le> 0 else r = int (length out) \<or> out = [] \<and> r \<le> 0)"

lemma read_loop_uses:
  assumes "answers_ok (n - length got) as" and "length got \<le> n" and "n - length got \<le> length as"
  shows "\<exists>k r x'. k \<le> length as \<and> uses_answers fd n as got x k (r, got @ delivered (take k as), x') \<and>
    length (got @ delivered (take k as)) \<le> n \<and> read_result (take k as) r (got @ delivered (take k as))"
  using assms
proof (induction as arbitrary: got x)
  case Nil
  then show ?case
    by (intro exI [of _ 0] exI [of _ "int (length got)"] exI [of _ "sc_do (Set_enforce fd) (x\<lparr>sc_forced_read := True\<rparr>)"])
      (simp add: uses_answers_def read_loop_full delivered_def read_result_def)
next
  case (Cons a as)
  show ?case
  proof (cases "n \<le> length got")
    case True
    then show ?thesis using Cons.prems(2)
      by (intro exI [of _ 0] exI [of _ "int (length got)"] exI [of _ "sc_do (Set_enforce fd) (x\<lparr>sc_forced_read := True\<rparr>)"])
        (simp add: uses_answers_def read_loop_full delivered_def read_result_def)
  next
    case room: False
    then have lt: "length got < n" by simp
    show ?thesis
    proof (cases "0 < ra_ret a")
      case True
      have a: "ra_err a = SSL_ERROR_NONE" "ra_ret a = int (length (ra_data a))" "length (ra_data a) \<le> n - length got"
          "ra_pending a \<longrightarrow> answers_ok (n - length got - length (ra_data a)) as"
        using Cons.prems(1) True room by auto
      have ng: "\<not> gives_up a" using a(1) by (simp add: gives_up_def)
      have len: "length (got @ ra_data a) \<le> n" "n - length (got @ ra_data a) \<le> length as"
        using a(2,3) True lt Cons.prems(3) by (simp_all, linarith)
      have d: "delivered (a # us) = ra_data a @ delivered us" for us using True by (simp add: delivered_def)
      have d0: "delivered [] = []" by (simp add: delivered_def)
      obtain x1 where s: "read_loop fd n (a # us) got x =
          (if ra_pending a then read_loop fd n us (got @ ra_data a) x1
           else Some (int (length (got @ ra_data a)), got @ ra_data a, x1))" for us
        using read_loop_next [OF lt a(1) True] by blast
      show ?thesis
      proof (cases "ra_pending a")
        case True
        then have "answers_ok (n - length (got @ ra_data a)) as" using a(4) by (simp add: diff_diff_left)
        from Cons.IH [OF this len, of x1] obtain k r x' where k: "k \<le> length as"
            "uses_answers fd n as (got @ ra_data a) x1 k (r, (got @ ra_data a) @ delivered (take k as), x')"
            "length ((got @ ra_data a) @ delivered (take k as)) \<le> n"
            "read_result (take k as) r ((got @ ra_data a) @ delivered (take k as))" by blast
        have "uses_answers fd n (a # as) got x (Suc k) (r, (got @ ra_data a) @ delivered (take k as), x')"
          using k(2) True s unfolding uses_answers_def by (intro uses_answers_Suc [OF lt, unfolded uses_answers_def]) auto
        moreover have "read_result (a # take k as) r ((got @ ra_data a) @ delivered (take k as))"
          using k(4) ng by (auto simp: read_result_def)
        ultimately show ?thesis using k(1,3) by (intro exI [of _ "Suc k"]) (auto simp: d)
      next
        case False
        have "uses_answers fd n (a # as) got x (Suc 0) (int (length (got @ ra_data a)), got @ ra_data a, x1)"
          by (rule uses_answers_Suc [OF lt s]) (simp add: False)
        then show ?thesis using len(1) ng by (intro exI [of _ "Suc 0"]) (auto simp: d d0 read_result_def)
      qed
    next
      case False
      then have e: "ra_err a \<noteq> SSL_ERROR_NONE" "ra_ret a \<le> 0" using Cons.prems(1) room by auto
      define r where "r = (if gives_up a then (if ra_err a = SSL_ERROR_ZERO_RETURN then ra_ret a else 0)
          else if got \<noteq> [] then int (length got) else ra_ret a)"
      obtain x1 where s: "read_loop fd n (a # us) got x = Some (r, got, x1)" for us
        using read_loop_last [OF lt e, of fd x] unfolding r_def by blast
      have d: "delivered [a] = []" using e(2) by (simp add: delivered_def)
      have "uses_answers fd n (a # as) got x (Suc 0) (r, got, x1)"
        by (rule uses_answers_Suc [OF lt s]) simp
      moreover have "read_result [a] r got" using e(2) by (auto simp: read_result_def r_def)
      ultimately show ?thesis using lt by (intro exI [of _ "Suc 0"]) (auto simp: d)
    qed
  qed
qed

text \<open>C15: With what OpenSSL promises of \<^verbatim>\<open>SSL_read\<close> and an answer for every call, \<^verbatim>\<open>read\<close> returns: it makes
  some number of calls, exactly as many as it needs (fewer answers do not do, more change nothing), and
  what it has put into the buffer are the bytes all these calls delivered, the last included, in their
  order; they fit into the buffer. It returns their number, or something not positive if there are
  none. Only when its last call reported the end of the connection or a wait beyond the time limit is
  the return not positive in any case: bytes of earlier calls of the same \<^verbatim>\<open>read\<close> would be lost there,
  which needs an \<^verbatim>\<open>SSL_read\<close> that gives nothing although \<^verbatim>\<open>SSL_pending\<close> told of bytes.\<close>

theorem read_loses_nothing:
  assumes "answers_ok n as" and "n \<le> length as"
  shows "\<exists>k r x' out. k \<le> length as \<and>
    (\<forall>j. read_loop fd n (take j as) [] x = (if k \<le> j then Some (r, out, x') else None)) \<and>
    out = delivered (take k as) \<and> length out \<le> n \<and>
    (if 0 < k \<and> gives_up (as ! (k - 1)) then r \<le> 0 else r = int (length out) \<or> out = [] \<and> r \<le> 0)"
proof -
  obtain k r x' where k: "k \<le> length as" "uses_answers fd n as [] x k (r, delivered (take k as), x')"
      "length (delivered (take k as)) \<le> n" "read_result (take k as) r (delivered (take k as))"
    using read_loop_uses [of n "[]" as fd x] assms by auto
  have "last (take k as) = as ! (k - 1)" if "0 < k" using that k(1) by (subst last_conv_nth) (auto simp: min_def)
  then have "if 0 < k \<and> gives_up (as ! (k - 1)) then r \<le> 0
      else r = int (length (delivered (take k as))) \<or> delivered (take k as) = [] \<and> r \<le> 0"
    using k(1,4) unfolding read_result_def by (cases "k = 0") (auto split: if_splits)
  then show ?thesis using k(1-3) unfolding uses_answers_def by blast
qed

text \<open>A write that once had to wait for a read forces a write upon every later read: the flag
  \<^verbatim>\<open>forced_write_on_read\<close> is set then, and never taken back, as \<^verbatim>\<open>write\<close> clears what its taking back
  depends on when it starts.\<close>

theorem write_on_read_is_never_cleared:
  assumes "0 < n" and "write_step fd n r SSL_ERROR_WANT_READ late x = (q, x1)"
    and "x2 = fold (\<lambda>(n, r, err, late) x. snd (write_step fd n r err late x)) calls x1"
  shows "sc_forced_write_on_read x2"
proof -
  have sel: "sc_forced_write_on_read (sc_do c y) = sc_forced_write_on_read y" for c y by (simp add: sc_do_def)
  have "sc_forced_write_on_read x1"
    using assms(1,2) by (auto simp: write_step_def Let_def sel)
  moreover have "sc_forced_write_on_read (snd (write_step fd n r err late y))" if "sc_forced_write_on_read y" for n r err late y
    using that by (auto simp: write_step_def Let_def sel)
  then have "sc_forced_write_on_read (fold (\<lambda>(n, r, err, late) x. snd (write_step fd n r err late x)) calls y)"
    if "sc_forced_write_on_read y" for y
    using that by (induction calls arbitrary: y) auto
  ultimately show ?thesis by (simp add: assms(3))
qed

section \<open>Bypass and sessions, proved\<close>

text \<open>A connection whose first bytes are not TLS is let through as it is: both sides are bypassed, and both
  report themselves as verified and ready.\<close>

theorem not_tls_is_bypassed:
  assumes "\<not> sc_hello_received (tls_me t)" and "tls_peer t = Tls_peer y" and "0 < sc_fd y"
    and "34 \<le> te_red env" and "te_block env ! 1 \<noteq> 3"
  shows "\<exists>t' y'. waiting_peer_hello env t = Some (ok (False, t')) \<and> tls_peer t' = Tls_peer y' \<and>
    sc_bypass (tls_me t') \<and> sc_bypass y' \<and> sc_verify (tls_me t') = VRF_OK \<and> sc_verify y' = VRF_OK \<and>
    tls_com_status True (tls_me t') \<and> tls_com_status True y'"
proof -
  define h where "h = (sc_hello (tls_me t))\<lparr>hb_mem := te_block env, hb_size := nat (te_red env), hs_error := False\<rparr>"
  define h1 where "h1 = h\<lparr>hs_ret := - 1, hs_pos := 7\<rparr>"
  have p: "parse_peer_hello (te_late env) h = Some (Some Clienthello_malformed, h1)"
    using assms(4,5) by (simp add: parse_peer_hello_def hello_record_def Let_def h_def h1_def)
  have "\<not> hb_size h1 < 34" using assms(4) by (simp add: h1_def h_def)
  then show ?thesis
    using assms unfolding waiting_peer_hello_def Let_def h_def [symmetric]
    by (simp add: p bypass_me_and_peer_def bypass_def verify_reset_def tls_com_status_def)
qed

text \<open>The session cache gives back what a verified connection put in: after a client has stored the session of
  a full handshake, the next client with the same key loads that session if the verification of the
  first was clean, and what was there before if it was not.\<close>

theorem session_found_iff_verified:
  assumes "store_session_if_needed env t = (b, t')" and "\<not> sc_server (tls_me t)" and "\<not> no_tickets (sc_opt (tls_me t))"
    and "te_factory env" and "te_owner env" and "\<not> te_reused env" and "te_resumable env"
    and "\<not> sc_server (tls_me u)" and "\<not> no_tickets (sc_opt (tls_me u))" and "te_factory env2" and "te_owner env2"
    and "tls_sessions u = tls_sessions t'"
    and "session_cache_key env2 None u = session_cache_key env None t"
  shows "load_session_if_needed env2 u =
    ok (let s = (if sc_verify (tls_me t) = VRF_OK then Some (te_session env)
                 else tls_sessions t (session_cache_key env None t))
        in (s \<noteq> None, s))"
proof -
  define sid where "sid = map_option (\<lambda>s. str_bytes (hex_print s)) (te_session_id env)"
  define key where "key = session_cache_key env None t"
  have k: "session_cache_key env sid t = key"
    using assms(2) by (simp add: session_cache_key_def key_def)
  have s: "tls_sessions t' = (if sc_verify (tls_me t) = VRF_OK
      then (tls_sessions t)(key \<mapsto> te_session env) else tls_sessions t)"
  proof -
    have "(b, t') = store_session_if_needed env t" using assms(1) by simp
    then show ?thesis
      using assms(2-7) unfolding store_session_if_needed_def sid_def [symmetric] k Let_def
      by (auto simp: verify_bitcheck_def vrf_bits split: if_splits)
  qed
  show ?thesis
    unfolding key_def [symmetric] load_session_if_needed_def Let_def using assms(8-11)
    by (simp add: assms(12,13) s flip: key_def split: option.splits)
qed

section \<open>Examples\<close>

definition demo_tls_env :: tls_env where
  "demo_tls_env = \<lparr>te_red = 40, te_block = replicate 64 0, te_errno_fatal = False, te_late = False, te_owner = True,
     te_owner_fd = 5, te_host = [104], te_port = [49], te_left_cache = False, te_factory = True, te_ssl_ok = True,
     te_blocking = False, te_first_connect = 1, te_first_error = SSL_ERROR_NONE, te_op = 1,
     te_op_error = SSL_ERROR_NONE, te_err2 = 0, te_reused = False, te_peer_cert = True, te_session = 42,
     te_session_id = None, te_resumable = True, te_has_ticket = False, te_l4_read = (0, []), te_l4_write = 0,
     te_peek = 0\<rparr>"

definition demo_client :: tls where
  "demo_client = \<lparr>tls_me = demo_tls\<lparr>sc_hello_received := True\<rparr>, tls_peer = Tls_peer demo_tls, tls_sessions = Map.empty\<rparr>"

theorem finishing_call_transfers_nothing_witness:
  "\<exists>c t'. tls_gate demo_tls_env 0 (- 1) 0 id demo_client = Some (ok (c, t')) \<and> \<not> sc_waiting (tls_me t') \<and> (\<exists>q. c = Inl q)"
proof -
  have h: "handshake demo_tls_env demo_client = Some (ok (handshake_result demo_tls_env (me (\<lambda>x. x\<lparr>sc_ret := 1\<rparr>) demo_client)))"
    by (simp add: handshake_def handshake_peer_client_def apply_filter_def demo_client_def demo_tls_def demo_tls_env_def me_def)
  obtain t' where r: "handshake_result demo_tls_env (me (\<lambda>x. x\<lparr>sc_ret := 1\<rparr>) demo_client) = (HS_AGAIN, t')"
      "\<not> sc_waiting (tls_me t')"
    by (simp add: handshake_result_def demo_tls_env_def Let_def me_def)
  obtain c where c: "tls_gate demo_tls_env 0 (- 1) 0 id demo_client = Some (ok (c, t'))"
    using h r by (simp add: tls_gate_def demo_client_def demo_tls_def)
  have w: "sc_waiting (tls_me demo_client)" "\<not> sc_bypass (tls_me demo_client)"
    by (simp_all add: demo_client_def demo_tls_def)
  from finishing_call_transfers_nothing [OF w c] c r(2) show ?thesis by blast
qed

definition demo_answers :: "read_answer list" where
  "demo_answers = [\<lparr>ra_ret = 2, ra_data = [1, 2], ra_err = SSL_ERROR_NONE, ra_pending = True, ra_late = False\<rparr>,
     \<lparr>ra_ret = 1, ra_data = [3], ra_err = SSL_ERROR_NONE, ra_pending = False, ra_late = False\<rparr>]"

theorem read_loses_nothing_witness:
  "\<exists>r x'. read_loop 7 2 demo_answers [] demo_tls = Some (r, [1, 2], x') \<and> r = 2"
proof -
  have ok: "answers_ok 2 demo_answers" "2 \<le> length demo_answers" by (simp_all add: demo_answers_def)
  obtain k r x' out where k: "\<forall>j. read_loop 7 2 (take j demo_answers) [] demo_tls = (if k \<le> j then Some (r, out, x') else None)"
      "out = delivered (take k demo_answers)"
      "if 0 < k \<and> gives_up (demo_answers ! (k - 1)) then r \<le> 0 else r = int (length out) \<or> out = [] \<and> r \<le> 0"
    using read_loses_nothing [OF ok, of 7 demo_tls] by blast
  have "read_loop 7 2 (take 0 demo_answers) [] demo_tls = None" by (simp add: read_loop.simps)
  moreover have "\<exists>res. read_loop 7 2 (take 1 demo_answers) [] demo_tls = Some res"
    by (simp add: demo_answers_def read_loop.simps Let_def)
  ultimately have "k = 1" using k(1) [rule_format, of 0] k(1) [rule_format, of 1] by (auto split: if_splits)
  then have "out = [1, 2]" "r = 2" using k(2,3) by (auto simp: demo_answers_def delivered_def gives_up_def)
  then show ?thesis using k(1) [rule_format, of 2] \<open>k = 1\<close> by (simp add: demo_answers_def)
qed

theorem write_on_read_is_never_cleared_witness:
  "sc_forced_write_on_read (snd (write_step 7 5 5 SSL_ERROR_NONE False (snd (write_step 7 5 (- 1) SSL_ERROR_WANT_READ False demo_tls))))"
proof -
  obtain q x1 where s: "write_step 7 5 (- 1) SSL_ERROR_WANT_READ False demo_tls = (q, x1)" by force
  have "sc_forced_write_on_read (fold (\<lambda>(n, r, err, late) x. snd (write_step 7 n r err late x))
      [(5, 5, SSL_ERROR_NONE, False)] x1)"
    by (rule write_on_read_is_never_cleared [OF _ s refl]) simp
  then show ?thesis using s by simp
qed

theorem not_tls_is_bypassed_witness:
  "\<exists>t'. waiting_peer_hello demo_tls_env (demo_client\<lparr>tls_me := demo_tls\<rparr>) = Some (ok (False, t')) \<and> sc_bypass (tls_me t')"
proof -
  have "\<not> sc_hello_received (tls_me (demo_client\<lparr>tls_me := demo_tls\<rparr>))" "tls_peer (demo_client\<lparr>tls_me := demo_tls\<rparr>) = Tls_peer demo_tls"
      "0 < sc_fd demo_tls" "34 \<le> te_red demo_tls_env" "te_block demo_tls_env ! 1 \<noteq> 3"
    by (simp_all add: demo_client_def demo_tls_def demo_tls_env_def)
  from not_tls_is_bypassed [OF this] show ?thesis by blast
qed

theorem session_found_iff_verified_witness:
  "\<exists>b t'. store_session_if_needed demo_tls_env (me (verify_reset VRF_OK) demo_client) = (b, t') \<and>
     load_session_if_needed demo_tls_env (demo_client\<lparr>tls_sessions := tls_sessions t'\<rparr>) = ok (True, Some 42)"
proof -
  let ?t = "me (verify_reset VRF_OK) demo_client"
  obtain b t' where s: "store_session_if_needed demo_tls_env ?t = (b, t')" by force
  have "load_session_if_needed demo_tls_env (demo_client\<lparr>tls_sessions := tls_sessions t'\<rparr>) =
      ok (let s = (if sc_verify (tls_me ?t) = VRF_OK then Some (te_session demo_tls_env)
                 else tls_sessions ?t (session_cache_key demo_tls_env None ?t))
        in (s \<noteq> None, s))"
    by (rule session_found_iff_verified [OF s])
       (simp_all add: demo_client_def demo_tls_def demo_opts_def demo_tls_env_def me_def verify_reset_def
          session_cache_key_def tls_sni_def)
  then show ?thesis using s by (simp add: demo_tls_env_def me_def verify_reset_def)
qed

end
