(* ===== verification/Sslmitm.thy ===== *)
theory Sslmitm
  imports PtrCache Sslio "HOL-Library.Sublist"
begin

text \<open>
  The TLS man in the middle: \<^verbatim>\<open>sslmitmcom.tpp\<close>, and of \<^verbatim>\<open>sslcertstore.cpp\<close> the certificates made for
  the client and the caches they are kept in.

  When the handshake with the real server is over, \<open>mitm_check_cert\<close> decides which certificate the
  client is shown: one configured for the name or address, or a copy of the server's certificate, signed
  by the local authority if the server's passed the checks and by itself if not. Copies are kept in a
  cache under a key made of the subject and the alternative names (\<open>make_store_key\<close>). Calls of OpenSSL
  that can fail are the elements of \<open>ossl_call\<close>; the parameter \<open>oc\<close> says which succeed. The caches are
  those of \<open>PtrCache\<close>.

  Shown: the check of host names is exactly that some name of the certificate covers the requested one
  (for names without commas and white space, requested in lower case; the other cases are shown to be
  accepted or refused wrongly); the client gets a self-signed certificate exactly if the checks failed,
  as long as no subject contains a plus sign, and a counterexample if one does; a certificate is made
  once. The strings are those of \<^verbatim>\<open>common/display.cpp\<close> as the check uses them. The experimental session
  cache of the server side is taken to be off, as it is by default.
\<close>

section \<open>Strings\<close>

type_synonym str = "byte list"

abbreviation lit :: "string \<Rightarrow> str" where
  "lit \<equiv> str_bytes"

definition is_space :: "byte \<Rightarrow> bool" where
  "is_space c \<longleftrightarrow> c = 32 \<or> (9 \<le> c \<and> c \<le> 13)"

definition to_lower :: "byte \<Rightarrow> byte" where
  "to_lower c = (if 65 \<le> c \<and> c \<le> 90 then c + 32 else c)"

text \<open>\<^verbatim>\<open>getline\<close>: a delimiter at the end does not open another token.\<close>

fun split_from :: "byte \<Rightarrow> str \<Rightarrow> str \<Rightarrow> str list" where
  "split_from d tok [] = (if tok = [] then [] else [tok])"
| "split_from d tok (c # cs) = (if c = d then tok # split_from d [] cs else split_from d (tok @ [c]) cs)"

definition string_split :: "str \<Rightarrow> byte \<Rightarrow> str list" where
  "string_split s d = split_from d [] s"

fun trim_loop :: "str \<Rightarrow> bool \<Rightarrow> nat \<Rightarrow> str \<Rightarrow> str \<times> nat" where
  "trim_loop ret start spaces [] = (ret, spaces)"
| "trim_loop ret start spaces (c # cs) =
     (let spaces = (if is_space c then spaces + 1 else 0)
      in if is_space c \<and> start then trim_loop ret start spaces cs
         else trim_loop (ret @ [c]) False spaces cs)"

definition string_trim :: "str \<Rightarrow> str" where
  "string_trim s =
     (let (ret, spaces) = trim_loop [] True 0 s
      in if 0 < spaces then take (sz_sub 0 spaces) ret else ret)"

fun string_csv :: "str list \<Rightarrow> str" where
  "string_csv [] = []"
| "string_csv [s] = s"
| "string_csv (s # t # ss) = s @ lit '','' @ string_csv (t # ss)"

text \<open>A string passed as \<^verbatim>\<open>c_str()\<close> ends at its first zero.\<close>

definition c_str :: "str \<Rightarrow> str" where
  "c_str s = takeWhile (\<lambda>c. c \<noteq> 0) s"

section \<open>Certificates\<close>

text \<open>
  What the code reads of a certificate: its subject, the subject as \<^verbatim>\<open>X509_NAME_oneline\<close> prints it into
  512 bytes, the common name as \<^verbatim>\<open>print_cn\<close> returns it, and the extensions. A certificate in the
  factory was made by \<^verbatim>\<open>spoof\<close> or loaded from a file.
\<close>

datatype gen_name = GEN_NULL | GEN_DNS str | GEN_IPADD str | GEN_OTHER

datatype cert_extension = Ext_null | Ext_no_object | Ext_other | Ext_san "gen_name list option"

record x509 =
  x_subject :: str
  x_oneline :: str
  x_cn :: str
  x_exts :: "cert_extension list option"

fun san_of :: "gen_name \<Rightarrow> str list" where
  "san_of (GEN_DNS s) = [lit ''DNS:'' @ s]"
| "san_of (GEN_IPADD s) = [lit ''IP:'' @ s]"
| "san_of _ = []"

fun ext_sans :: "cert_extension \<Rightarrow> str list" where
  "ext_sans (Ext_san (Some alt)) = concat (map san_of alt)"
| "ext_sans _ = []"

definition get_sans :: "x509 \<Rightarrow> str list" where
  "get_sans x = (case x_exts x of None \<Rightarrow> [] | Some es \<Rightarrow> concat (map ext_sans es))"

definition get_sans_csv :: "x509 \<Rightarrow> str" where
  "get_sans_csv x = string_csv (get_sans x)"

record spoofed =
  sp_serial :: int
  sp_subject :: str
  sp_self_signed :: bool
  sp_san :: "str option"
  sp_exts :: "string list"

datatype cert = Spoofed spoofed | Loaded nat

record chain_ctx =
  cc_key :: "nat option"
  cc_cert :: "cert option"
  cc_ctx :: "nat option"

record cert_factory =
  fa_serial :: int
  fa_sr_key :: nat
  fa_mitm :: "(str, chain_ctx) ptr_cache"
  fa_custom :: "(str, chain_ctx) ptr_cache"

record spoof_options =
  so_sni :: str
  so_self_signed :: bool
  so_sans :: "str list"

section \<open>The caches of the cert_factory\<close>

definition make_store_key :: "x509 \<Rightarrow> spoof_options \<Rightarrow> str" where
  "make_store_key x spo =
     lit ''subj:'' @ x_oneline x @ (if so_self_signed spo then lit ''+self_signed'' else []) @
     concat (map (\<lambda>s. lit ''+san:'' @ c_str s) (get_sans x @ so_sans spo))"

definition add_to_cache :: "str \<Rightarrow> chain_ctx \<Rightarrow> (str, chain_ctx) ptr_cache \<Rightarrow> (bool \<times> (str, chain_ctx) ptr_cache) result"
  where
  "add_to_cache k parek c =
     (if cc_key parek = None \<or> cc_cert parek = None then ok (False, c)
      else
        (case cache_get k c of
           Inl x \<Rightarrow> Inl x
         | Inr (Some _, c) \<Rightarrow> ok (False, c)
         | Inr (None, c) \<Rightarrow> (case cache_set k parek c of Inl x \<Rightarrow> Inl x | Inr (_, c) \<Rightarrow> ok (True, c))))"

definition add_mitm :: "str \<Rightarrow> chain_ctx \<Rightarrow> cert_factory \<Rightarrow> (bool \<times> cert_factory) result" where
  "add_mitm k parek f =
     (case add_to_cache k parek (fa_mitm f) of Inl x \<Rightarrow> Inl x | Inr (r, c) \<Rightarrow> ok (r, f\<lparr>fa_mitm := c\<rparr>))"

definition add_custom :: "str \<Rightarrow> chain_ctx \<Rightarrow> cert_factory \<Rightarrow> (bool \<times> cert_factory) result" where
  "add_custom k parek f =
     (case add_to_cache k parek (fa_custom f) of Inl x \<Rightarrow> Inl x | Inr (r, c) \<Rightarrow> ok (r, f\<lparr>fa_custom := c\<rparr>))"

text \<open>The custom certificates: one directory entry per name, with the pair and context made from its files
  if both could be opened.\<close>

fun load_certs_from :: "str \<Rightarrow> (str \<times> chain_ctx option) list \<Rightarrow> cert_factory \<Rightarrow> cert_factory result" where
  "load_certs_from pre [] f = ok f"
| "load_certs_from pre ((name, None) # es) f = load_certs_from pre es f"
| "load_certs_from pre ((name, Some p) # es) f =
     (case add_custom (pre @ name) p f of Inl e \<Rightarrow> Inl e | Inr (_, f) \<Rightarrow> load_certs_from pre es f)"

definition load_custom_certificates ::
    "(str \<times> chain_ctx option) list \<Rightarrow> (str \<times> chain_ctx option) list \<Rightarrow> cert_factory \<Rightarrow> cert_factory result" where
  "load_custom_certificates sni_dir ip_dir f =
     (case load_certs_from (lit ''sni:'') sni_dir f of
        Inl e \<Rightarrow> Inl e
      | Inr f \<Rightarrow> load_certs_from (lit ''ip:'') ip_dir f)"

definition find_mitm :: "str \<Rightarrow> cert_factory \<Rightarrow> (chain_ctx option \<times> cert_factory) result" where
  "find_mitm k f =
     (case cache_get k (fa_mitm f) of Inl x \<Rightarrow> Inl x | Inr (r, c) \<Rightarrow> ok (r, f\<lparr>fa_mitm := c\<rparr>))"

definition find_custom :: "str \<Rightarrow> cert_factory \<Rightarrow> (chain_ctx option \<times> cert_factory) result" where
  "find_custom k f =
     (case cache_get k (fa_custom f) of Inl x \<Rightarrow> Inl x | Inr (r, c) \<Rightarrow> ok (r, f\<lparr>fa_custom := c\<rparr>))"

definition erase_mitm :: "str \<Rightarrow> cert_factory \<Rightarrow> bool \<times> cert_factory" where
  "erase_mitm k f = (True, f\<lparr>fa_mitm := snd (cache_erase k (fa_mitm f))\<rparr>)"

section \<open>Making a certificate\<close>

text \<open>The calls of OpenSSL that can fail.\<close>

datatype ossl_call =
    C_REQ_new | C_NAME_new | C_REQ_set_subject | C_san_conf str | C_REQ_add_extensions | C_REQ_sign | C_X509_new
  | C_REQ_get_subject | C_CA_get_subject | C_REQ_get_pubkey | C_set_version | C_set_subject | C_REQ_get_extensions
  | C_set_issuer | C_set_pubkey | C_notBefore | C_notAfter | C_ext_conf string | C_add_ext string | C_add_san | C_sign
  | C_use_certificate

record csr =
  cq_subject :: str
  cq_sans :: "str list"

definition push_san :: "(ossl_call \<Rightarrow> bool) \<Rightarrow> str \<Rightarrow> str list \<Rightarrow> str list" where
  "push_san oc v st = (if oc (C_san_conf (c_str v)) then st @ [c_str v] else st)"

fun san_stack :: "(ossl_call \<Rightarrow> bool) \<Rightarrow> x509 \<Rightarrow> str \<Rightarrow> cert_extension list \<Rightarrow> str list \<Rightarrow> bool \<Rightarrow> str list \<times> bool" where
  "san_stack oc x add [] st added = (st, added)"
| "san_stack oc x add (e # es) st added =
     (case e of
        Ext_san _ \<Rightarrow>
          let san = get_sans_csv x @ (if add \<noteq> [] then lit '','' @ add else [])
          in san_stack oc x add es (push_san oc san st) True
      | _ \<Rightarrow> san_stack oc x add es st added)"

definition create_csr_from :: "(ossl_call \<Rightarrow> bool) \<Rightarrow> x509 \<Rightarrow> str list \<Rightarrow> csr option" where
  "create_csr_from oc x additional =
     (if \<not> oc C_REQ_new \<or> \<not> oc C_NAME_new \<or> \<not> oc C_REQ_set_subject then None
      else
        let add = string_csv additional;
            sans = (case x_exts x of
                      None \<Rightarrow> []
                    | Some es \<Rightarrow>
                        let (st, added) = san_stack oc x add es [] False;
                            st = (if added then st else push_san oc add st)
                        in if oc C_REQ_add_extensions then st else [])
        in if oc C_REQ_sign then Some \<lparr>cq_subject = x_subject x, cq_sans = sans\<rparr> else None)"

definition extensions :: "string list" where
  "extensions = [''basicConstraints'', ''nsComment'', ''subjectKeyIdentifier'', ''authorityKeyIdentifier'']"

definition validate_spoof_requirements :: "(ossl_call \<Rightarrow> bool) \<Rightarrow> bool" where
  "validate_spoof_requirements oc \<longleftrightarrow>
     oc C_X509_new \<and> oc C_REQ_get_subject \<and> oc C_CA_get_subject \<and> oc C_REQ_get_pubkey"

definition spoof :: "(ossl_call \<Rightarrow> bool) \<Rightarrow> x509 \<Rightarrow> bool \<Rightarrow> str list \<Rightarrow> cert_factory \<Rightarrow> chain_ctx option \<times> cert_factory" where
  "spoof oc x self_sign additional f =
     (let f = f\<lparr>fa_serial := fa_serial f + 1\<rparr>
      in case create_csr_from oc x additional of
           None \<Rightarrow> (None, f)
         | Some q \<Rightarrow>
             if \<not> validate_spoof_requirements oc \<or> \<not> oc C_set_version \<or> \<not> oc C_set_subject then (None, f)
             else
               let san = (if oc C_REQ_get_extensions then (case cq_sans q of [] \<Rightarrow> None | s # _ \<Rightarrow> Some s) else None)
               in if \<not> oc C_set_issuer \<or> \<not> oc C_set_pubkey \<or> \<not> oc C_notBefore \<or> \<not> oc C_notAfter then (None, f)
                  else if san \<noteq> None \<and> \<not> oc C_add_san then (None, f)
                  else if \<not> oc C_sign then (None, f)
                  else
                    (Some \<lparr>cc_key = Some (fa_sr_key f),
                           cc_cert = Some (Spoofed \<lparr>sp_serial = fa_serial f, sp_subject = cq_subject q,
                             sp_self_signed = self_sign, sp_san = san,
                             sp_exts = filter (\<lambda>e. oc (C_ext_conf e) \<and> oc (C_add_ext e)) extensions\<rparr>),
                           cc_ctx = None\<rparr>, f))"

section \<open>The com in the middle\<close>

definition VRF_HOSTNAME_FAILED :: u32 where "VRF_HOSTNAME_FAILED = 0x80"

record left_opts =
  lo_allow_sha1 :: bool
  lo_allow_rc4 :: bool
  lo_allow_aes128 :: bool
  lo_kex_dh :: bool
  lo_kex_rsa :: bool
  lo_no_tickets :: bool

record mitm =
  mc_com :: sslcom
  mc_left :: left_opts
  mc_def_ctx :: nat
  mc_used_ctx :: "nat option"
  mc_ciphers :: string
  mc_groups :: bool
  mc_served :: "cert option"
  mc_tickets :: bool
  mc_cert :: "cert option"
  mc_key :: "nat option"
  mc_ctx :: "nat option"
  mc_sni_search :: bool
  mc_ip_search :: bool
  mc_host :: "str option"
  mc_peer_host :: "str option"
  mc_sni_shortcut :: bool

definition take_pair :: "chain_ctx \<Rightarrow> mitm \<Rightarrow> mitm" where
  "take_pair p m = m\<lparr>mc_cert := cc_cert p, mc_key := cc_key p,
     mc_ctx := (if cc_ctx p = None then mc_ctx m else cc_ctx p)\<rparr>"

definition use_cert_sni :: "spoof_options \<Rightarrow> mitm \<Rightarrow> cert_factory \<Rightarrow> (bool \<times> mitm \<times> cert_factory) result" where
  "use_cert_sni spo m f =
     (if so_sni spo \<noteq> [] then
        (case find_custom (lit ''sni:'' @ so_sni spo) f of
           Inl x \<Rightarrow> Inl x
         | Inr (Some p, f) \<Rightarrow> ok (True, take_pair p m, f)
         | Inr (None, f) \<Rightarrow> ok (False, m, f))
      else ok (False, m, f))"

definition use_cert_ip :: "mitm \<Rightarrow> cert_factory \<Rightarrow> (bool \<times> mitm \<times> cert_factory) result" where
  "use_cert_ip m f =
     (case mc_peer_host m of
        None \<Rightarrow> ok (False, m, f)
      | Some a \<Rightarrow>
          if a \<noteq> [] then
            (case find_custom (lit ''ip:'' @ a) f of
               Inl x \<Rightarrow> Inl x
             | Inr (Some p, f) \<Rightarrow> ok (True, take_pair p m, f)
             | Inr (None, f) \<Rightarrow> ok (False, m, f))
          else ok (False, m, f))"

definition use_cert_mitm ::
    "(ossl_call \<Rightarrow> bool) \<Rightarrow> x509 \<Rightarrow> spoof_options \<Rightarrow> mitm \<Rightarrow> cert_factory \<Rightarrow> (bool \<times> mitm \<times> cert_factory) result" where
  "use_cert_mitm oc x spo m f =
     (let k = make_store_key x spo
      in case find_mitm k f of
           Inl e \<Rightarrow> Inl e
         | Inr (Some p, f) \<Rightarrow> ok (True, take_pair p m, f)
         | Inr (None, f) \<Rightarrow>
             (case spoof oc x (so_self_signed spo) (so_sans spo) f of
                (None, f) \<Rightarrow> ok (False, m, f)
              | (Some p, f) \<Rightarrow>
                  (case add_mitm k p f of Inl e \<Rightarrow> Inl e | Inr (_, f) \<Rightarrow> ok (True, take_pair p m, f))))"

definition spoof_cert ::
    "(ossl_call \<Rightarrow> bool) \<Rightarrow> x509 option \<Rightarrow> spoof_options \<Rightarrow> mitm \<Rightarrow> cert_factory \<Rightarrow> (bool \<times> mitm \<times> cert_factory) result" where
  "spoof_cert oc x spo m f =
     (case (if mc_sni_search m then use_cert_sni spo m f else ok (False, m, f)) of
        Inl e \<Rightarrow> Inl e
      | Inr (True, m, f) \<Rightarrow> ok (True, m, f)
      | Inr (False, m, f) \<Rightarrow>
          (case (if mc_ip_search m then use_cert_ip m f else ok (False, m, f)) of
             Inl e \<Rightarrow> Inl e
           | Inr (True, m, f) \<Rightarrow> ok (True, m, f)
           | Inr (False, m, f) \<Rightarrow>
               (case x of None \<Rightarrow> raise Undefined_behaviour | Some x \<Rightarrow> use_cert_mitm oc x spo m f)))"

section \<open>Checking the certificate\<close>

definition lower :: "str \<Rightarrow> str" where "lower s = map to_lower s"

definition wildcard_of :: "str \<Rightarrow> str" where
  "wildcard_of sni =
     (if (46 :: byte) \<in> set sni then lower (lit ''*'' @ dropWhile (\<lambda>c. c \<noteq> 46) sni) else [])"

definition item_matches :: "str \<Rightarrow> str option \<Rightarrow> str \<Rightarrow> bool" where
  "item_matches sni host item =
     (if sni \<noteq> [] then
        if 4 < length item \<and> prefix (lit ''DNS:'') item then
          let item = lower (drop 4 item)
          in if prefix (lit ''*.'') item then wildcard_of sni = item else sni = item
        else False
      else if 3 < length item \<and> prefix (lit ''IP:'') item then host = Some (drop 3 item)
      else False)"

definition candidate_matches :: "str \<Rightarrow> str option \<Rightarrow> str \<Rightarrow> bool" where
  "candidate_matches sni host cand =
     list_ex (\<lambda>i. item_matches sni host (string_trim i)) (string_split cand 44)"

definition hostname_validated :: "str \<Rightarrow> str option \<Rightarrow> x509 \<Rightarrow> bool" where
  "hostname_validated sni host x =
     list_ex (candidate_matches sni host) (get_sans x @ [lit ''DNS:'' @ x_cn x])"

definition spoof_choice :: "x509 option \<Rightarrow> str option \<Rightarrow> sslcom \<Rightarrow> (spoof_options \<times> sslcom) result" where
  "spoof_choice cert host c =
     (let sni = tls_sni c; spo = \<lparr>so_sni = sni, so_self_signed = False, so_sans = []\<rparr>;
          repl = failed_check_replacement (sc_opt c);
          dns = (if sni \<noteq> [] then [lit ''DNS:'' @ c_str sni] else []);
          ip = (case host of Some h \<Rightarrow> [lit ''IP:'' @ c_str h] | None \<Rightarrow> [])
      in if sc_verify c \<noteq> VRF_OK then
           ok (if \<not> repl then spo\<lparr>so_self_signed := True\<rparr> else spo\<lparr>so_sans := dns @ ip\<rparr>, c)
         else
           (case cert of
              None \<Rightarrow> raise Undefined_behaviour
            | Some x \<Rightarrow>
                if hostname_validated sni host x then ok (spo, c)
                else
                  let c = verify_bitset VRF_HOSTNAME_FAILED c
                  in if \<not> repl then ok (spo\<lparr>so_self_signed := True\<rparr>, c)
                     else if dns \<noteq> [] then ok (spo\<lparr>so_sans := dns\<rparr>, c)
                     else if ip \<noteq> [] then ok (spo\<lparr>so_sans := ip\<rparr>, c)
                     else ok (spo\<lparr>so_self_signed := True\<rparr>, c)))"

definition ci_def_filter :: string where
  "ci_def_filter = ''HIGH RC4 !aNULL !eNULL !LOW !3DES !MD5 !EXP !DSS !PSK !SRP !kECDH !CAMELLIA !IDEA !SEED @STRENGTH''"

definition left_ciphers :: "left_opts \<Rightarrow> string" where
  "left_ciphers o' = ci_def_filter @ (if lo_allow_sha1 o' then [] else '' !SHA1'') @
     (if lo_allow_rc4 o' then [] else '' !RC4'') @ (if lo_allow_aes128 o' then [] else '' !AES128'') @
     (if lo_kex_dh o' then [] else '' !kEECDH !kEDH'') @ (if lo_kex_rsa o' then [] else '' !kRSA'')"

definition init_server :: "(ossl_call \<Rightarrow> bool) \<Rightarrow> mitm \<Rightarrow> mitm" where
  "init_server oc m =
     m\<lparr>mc_com := (mc_com m)\<lparr>sc_ssl := True, sc_server := True\<rparr>,
       mc_used_ctx := (if mc_ctx m \<noteq> None then mc_ctx m
                       else if mc_used_ctx m = None then Some (mc_def_ctx m) else mc_used_ctx m),
       mc_ciphers := left_ciphers (mc_left m), mc_groups := lo_kex_dh (mc_left m),
       mc_served := (if mc_ctx m = None \<and> mc_cert m \<noteq> None \<and> mc_key m \<noteq> None \<and> oc C_use_certificate
                     then mc_cert m else None),
       mc_tickets := \<not> lo_no_tickets (mc_left m)\<rparr>"

definition start_server :: "(ossl_call \<Rightarrow> bool) \<Rightarrow> mitm \<Rightarrow> mitm" where
  "start_server oc m =
     (if sc_waiting (mc_com m) \<and> \<not> sc_upgraded (mc_com m)
      then (let m = init_server oc m in m\<lparr>mc_com := (mc_com m)\<lparr>sc_upgraded := True\<rparr>\<rparr>) else m)"

definition mitm_check_cert ::
    "tls_env \<Rightarrow> (ossl_call \<Rightarrow> bool) \<Rightarrow> x509 option \<Rightarrow> mitm \<Rightarrow> mitm option \<Rightarrow> cert_factory \<Rightarrow>
     (bool \<times> mitm \<times> mitm option \<times> cert_factory) result" where
  "mitm_check_cert env oc cert m remote f =
     (let (r, c) = check_cert env (mc_com m); m = m\<lparr>mc_com := c\<rparr>
      in case remote of
           None \<Rightarrow> ok (r, m, None, f)
         | Some p \<Rightarrow>
             let p = p\<lparr>mc_com := (mc_com p)\<lparr>sc_server := True\<rparr>\<rparr>
             in (case spoof_choice cert (mc_host m) c of
                   Inl e \<Rightarrow> Inl e
                 | Inr (spo, c) \<Rightarrow>
                     let m = m\<lparr>mc_com := c\<rparr>
                     in if mc_sni_shortcut m then ok (r, m, Some p, f)
                        else
                          (case spoof_cert oc cert spo p f of
                             Inl e \<Rightarrow> Inl e
                           | Inr (r, p, f) \<Rightarrow> ok (r, m, Some (if r then start_server oc p else p), f))))"

section \<open>Strings\<close>

text \<open>The length handed to \<^verbatim>\<open>substr\<close> is the negative count as a \<^verbatim>\<open>size_t\<close>: nothing is cut off at the end.\<close>

lemma trim_loop_started: "fst (trim_loop ret False n s) = ret @ s"
  by (induction s arbitrary: ret n) (auto simp: Let_def)

lemma trim_loop_start: "fst (trim_loop [] True n s) = dropWhile is_space s"
  by (induction s arbitrary: n) (auto simp: Let_def trim_loop_started)

lemma trim_loop_spaces: "snd (trim_loop ret b n s) \<le> n + length s"
proof (induction s arbitrary: ret b n)
  case (Cons c s)
  show ?case using Cons.IH [of ret b "n + 1"] Cons.IH [of "ret @ [c]" False "n + 1"] Cons.IH [of "ret @ [c]" False 0]
    by (auto simp: Let_def)
qed simp

lemma string_trim_eq:
  assumes "length s < 2 ^ 62"
  shows "string_trim s = dropWhile is_space s"
proof -
  obtain ret n where t: "trim_loop [] True 0 s = (ret, n)" by force
  have r: "ret = dropWhile is_space s" using trim_loop_start [of 0 s] t by simp
  have n: "n \<le> length s" using trim_loop_spaces [of "[]" True 0 s] t by simp
  have "length ret \<le> sz_sub 0 n" if "0 < n"
  proof -
    have "(- int n) mod 2 ^ 64 = 2 ^ 64 - int n" using that n assms by (simp add: zmod_zminus1_eq_if)
    moreover have "length ret \<le> length s" by (simp add: r length_dropWhile_le)
    ultimately show ?thesis using n assms by (simp add: sz_sub_def)
  qed
  then show ?thesis using t r by (simp add: string_trim_def)
qed

lemma split_from_set: "t \<in> set (split_from d tok s) \<Longrightarrow> set t \<subseteq> set tok \<union> set s"
  by (induction d tok s rule: split_from.induct) (fastforce split: if_splits)+

lemma split_from_length: "t \<in> set (split_from d tok s) \<Longrightarrow> length t \<le> length tok + length s"
  by (induction d tok s rule: split_from.induct) (fastforce split: if_splits)+

lemma split_from_whole: "d \<notin> set s \<Longrightarrow> split_from d tok s = (if tok @ s = [] then [] else [tok @ s])"
  by (induction s arbitrary: tok) auto

text \<open>A string without the delimiter and without white space is its only token.\<close>

definition clean :: "str \<Rightarrow> bool" where
  "clean s \<longleftrightarrow> s \<noteq> [] \<and> 44 \<notin> set s \<and> (\<forall>c \<in> set s. \<not> is_space c) \<and> length s < 2 ^ 61"

lemma clean_candidate:
  assumes "clean s" and "44 \<notin> set pre" and "\<forall>c \<in> set pre. \<not> is_space c" and "length pre < 2 ^ 61"
  shows "candidate_matches sni host (pre @ s) = item_matches sni host (pre @ s)"
proof -
  have n: "pre @ s \<noteq> []" "44 \<notin> set (pre @ s)" "\<forall>c \<in> set (pre @ s). \<not> is_space c" "length (pre @ s) < 2 ^ 62"
    using assms by (auto simp: clean_def)
  then have "dropWhile is_space (pre @ s) = pre @ s" by (cases "pre @ s") auto
  then show ?thesis
    using n by (auto simp: candidate_matches_def string_split_def split_from_whole string_trim_eq)
qed

section \<open>Host names\<close>

lemma lit_simps: "lit ''DNS:'' = [68, 78, 83, 58]" "lit ''IP:'' = [73, 80, 58]" "lit ''*.'' = [42, 46]" "lit ''*'' = [42]"
  by (simp_all add: str_bytes_def)

definition dns_names :: "x509 \<Rightarrow> str set" where
  "dns_names x = {d. \<exists>es alt. x_exts x = Some es \<and> Ext_san (Some alt) \<in> set es \<and> GEN_DNS d \<in> set alt} \<union> {x_cn x}"

definition ip_names :: "x509 \<Rightarrow> str set" where
  "ip_names x = {d. \<exists>es alt. x_exts x = Some es \<and> Ext_san (Some alt) \<in> set es \<and> GEN_IPADD d \<in> set alt}"

lemma get_sans_set: "set (get_sans x) \<union> {lit ''DNS:'' @ x_cn x} = (@) (lit ''DNS:'') ` dns_names x \<union> (@) (lit ''IP:'') ` ip_names x"
proof -
  have san: "s \<in> set (san_of g) \<longleftrightarrow> (\<exists>d. g = GEN_DNS d \<and> s = lit ''DNS:'' @ d) \<or> (\<exists>d. g = GEN_IPADD d \<and> s = lit ''IP:'' @ d)" for s g
    by (cases g) auto
  have ext: "s \<in> set (ext_sans e) \<longleftrightarrow> (\<exists>alt g. e = Ext_san (Some alt) \<and> g \<in> set alt \<and> s \<in> set (san_of g))" for s e
    by (cases e rule: ext_sans.cases) auto
  have "s \<in> set (get_sans x) \<longleftrightarrow>
      (\<exists>es alt g. x_exts x = Some es \<and> Ext_san (Some alt) \<in> set es \<and> g \<in> set alt \<and> s \<in> set (san_of g))" for s
    by (cases "x_exts x") (auto simp: get_sans_def ext)
  then have "set (get_sans x) =
      (@) (lit ''DNS:'') ` {d. \<exists>es alt. x_exts x = Some es \<and> Ext_san (Some alt) \<in> set es \<and> GEN_DNS d \<in> set alt} \<union>
      (@) (lit ''IP:'') ` ip_names x"
    unfolding ip_names_def san by blast
  then show ?thesis by (simp add: dns_names_def image_Un Un_ac)
qed

text \<open>What a name in a certificate covers: itself, or with a wildcard any name with one more label.\<close>

definition covers :: "str \<Rightarrow> str \<Rightarrow> bool" where
  "covers d sni \<longleftrightarrow>
     lower d = sni \<or> (\<exists>label rest. (46 :: byte) \<notin> set label \<and> lower d = 42 # 46 # rest \<and> sni = label @ 46 # rest)"

definition lower_case :: "str \<Rightarrow> bool" where
  "lower_case s \<longleftrightarrow> lower s = s"

lemma wildcard_iff:
  assumes "lower_case sni"
  shows "wildcard_of sni = 42 # 46 # rest \<longleftrightarrow> (\<exists>label. (46 :: byte) \<notin> set label \<and> sni = label @ 46 # rest)"
proof -
  have l: "lower (42 # dropWhile (\<lambda>c. c \<noteq> 46) sni) = 42 # dropWhile (\<lambda>c. c \<noteq> 46) sni"
  proof -
    have "\<forall>c \<in> set sni. to_lower c = c" using assms by (simp add: lower_case_def lower_def map_idI list_eq_iff_nth_eq all_set_conv_all_nth)
    then have "map to_lower (dropWhile (\<lambda>c. c \<noteq> 46) sni) = dropWhile (\<lambda>c. c \<noteq> 46) sni"
      by (intro map_idI) (auto dest: set_dropWhileD)
    then show ?thesis by (simp add: lower_def to_lower_def)
  qed
  show ?thesis
  proof
    assume w: "wildcard_of sni = 42 # 46 # rest"
    then have "46 \<in> set sni" "dropWhile (\<lambda>c. c \<noteq> 46) sni = 46 # rest"
      using l by (auto simp: wildcard_of_def lit_simps split: if_splits)
    then have "sni = takeWhile (\<lambda>c. c \<noteq> 46) sni @ 46 # rest" by (metis takeWhile_dropWhile_id)
    then show "\<exists>label. 46 \<notin> set label \<and> sni = label @ 46 # rest" by (metis set_takeWhileD)
  next
    assume "\<exists>label. 46 \<notin> set label \<and> sni = label @ 46 # rest"
    then obtain label where "46 \<notin> set label" "sni = label @ 46 # rest" by blast
    moreover from this have "dropWhile (\<lambda>c. c \<noteq> 46) sni = 46 # rest" by (simp add: dropWhile_append)
    ultimately show "wildcard_of sni = 42 # 46 # rest" using l by (simp add: wildcard_of_def lit_simps)
  qed
qed

lemma dns_item:
  assumes "lower_case sni" and "sni \<noteq> []" and "d \<noteq> []"
  shows "item_matches sni host (lit ''DNS:'' @ d) \<longleftrightarrow> covers d sni"
proof -
  have p: "prefix [42, 46] s \<longleftrightarrow> (\<exists>rest. s = 42 # 46 # rest)" for s :: str by (auto simp: prefix_def)
  have "item_matches sni host (lit ''DNS:'' @ d) \<longleftrightarrow>
      (if prefix [42, 46] (lower d) then wildcard_of sni = lower d else sni = lower d)"
    using assms(2,3) by (simp add: item_matches_def lit_simps)
  also have "\<dots> \<longleftrightarrow> covers d sni"
  proof (cases "prefix [42, 46] (lower d)")
    case True
    then obtain rest where r: "lower d = 42 # 46 # rest" by (auto simp: p)
    then have "wildcard_of sni = lower d \<longleftrightarrow> (\<exists>label. 46 \<notin> set label \<and> sni = label @ 46 # rest)"
      using wildcard_iff [OF assms(1)] by simp
    moreover have "\<exists>label. (46 :: byte) \<notin> set label \<and> sni = label @ 46 # rest" if "lower d = sni"
      using that r by (intro exI [of _ "[42]"]) auto
    ultimately show ?thesis using True r unfolding covers_def by auto
  next
    case False
    then show ?thesis by (auto simp: covers_def p)
  qed
  finally show ?thesis .
qed

lemma ip_item: "sni \<noteq> [] \<Longrightarrow> \<not> item_matches sni host (lit ''IP:'' @ d)"
  by (simp add: item_matches_def lit_simps)

lemma hostname_candidates:
  "hostname_validated sni host x \<longleftrightarrow>
     (\<exists>d \<in> dns_names x. candidate_matches sni host (lit ''DNS:'' @ d)) \<or>
     (\<exists>d \<in> ip_names x. candidate_matches sni host (lit ''IP:'' @ d))"
proof -
  have "hostname_validated sni host x \<longleftrightarrow>
      (\<exists>s \<in> set (get_sans x) \<union> {lit ''DNS:'' @ x_cn x}. candidate_matches sni host s)"
    by (auto simp: hostname_validated_def list_ex_iff)
  then show ?thesis unfolding get_sans_set by blast
qed

text \<open>A name without a comma is one item, whatever else it holds: its mark in front stops the trimming.\<close>

definition plain_name :: "str \<Rightarrow> bool" where
  "plain_name d \<longleftrightarrow> 44 \<notin> set d \<and> length d < 2 ^ 61"

lemma plain_prefixed:
  assumes "plain_name d"
  shows "candidate_matches sni host (lit ''DNS:'' @ d) = item_matches sni host (lit ''DNS:'' @ d)"
    and "candidate_matches sni host (lit ''IP:'' @ d) = item_matches sni host (lit ''IP:'' @ d)"
  using assms
  by (auto simp: plain_name_def candidate_matches_def string_split_def split_from_whole string_trim_eq lit_simps is_space_def)

lemma clean_prefixed:
  assumes "clean d"
  shows "candidate_matches sni host (lit ''DNS:'' @ d) = item_matches sni host (lit ''DNS:'' @ d)"
    and "candidate_matches sni host (lit ''IP:'' @ d) = item_matches sni host (lit ''IP:'' @ d)"
  using clean_candidate [OF assms, of "lit ''DNS:''"] clean_candidate [OF assms, of "lit ''IP:''"]
  by (simp_all add: lit_simps is_space_def)

text \<open>C13: For a non-empty name requested in lower case and a certificate none of whose DNS names, common
  name and addresses contains a comma (or reaches 2^61 bytes), the hostname check succeeds exactly if
  one of the DNS names or the common name covers the requested name: it is that name, in any case of
  letters, or it is a wildcard and the requested name has one label in place of the star. Addresses in
  the certificate and the address of the host play no part then.\<close>

theorem hostname_check_exact:
  assumes "sni \<noteq> []" and "lower_case sni"
    and "\<And>d. d \<in> dns_names x \<union> ip_names x \<Longrightarrow> 44 \<notin> set d \<and> length d < 2 ^ 61"
  shows "hostname_validated sni host x \<longleftrightarrow> (\<exists>d \<in> dns_names x. covers d sni)"
proof -
  have "candidate_matches sni host (lit ''DNS:'' @ d) \<longleftrightarrow> covers d sni" if d: "d \<in> dns_names x" for d
  proof (cases "d = []")
    case True
    then have "\<not> covers d sni" using assms(1) by (simp add: covers_def lower_def)
    then show ?thesis using plain_prefixed(1) [of d] assms(1) True by (simp add: plain_name_def item_matches_def lit_simps)
  next
    case False
    then show ?thesis using plain_prefixed(1) [of d] dns_item [OF assms(2,1), of d] assms(3) d by (simp add: plain_name_def)
  qed
  moreover have "\<not> candidate_matches sni host (lit ''IP:'' @ d)" if "d \<in> ip_names x" for d
    using plain_prefixed(2) [of d] ip_item [OF assms(1), of host d] assms(3) that by (simp add: plain_name_def)
  ultimately show ?thesis unfolding hostname_candidates by blast
qed

text \<open>A name with an upper-case letter is compared as it is with the lower-case item.\<close>

lemma lower_no_upper: "c \<in> set (lower s) \<Longrightarrow> \<not> (65 \<le> c \<and> c \<le> 90)"
proof -
  have "\<not> (65 \<le> to_lower b \<and> to_lower b \<le> 90)" for b
    unfolding to_lower_def by (auto simp: word_le_nat_alt unat_word_ariths)
  then show "c \<in> set (lower s) \<Longrightarrow> \<not> (65 \<le> c \<and> c \<le> 90)" by (auto simp: lower_def)
qed

lemma lower_star: "42 \<in> set (lower d) \<Longrightarrow> (42 :: byte) \<in> set d"
proof -
  have "to_lower b = 42 \<Longrightarrow> b = 42" for b
    unfolding to_lower_def by (auto simp: word_le_nat_alt word_unat_eq_iff unat_word_ariths split: if_splits)
  then show "42 \<in> set (lower d) \<Longrightarrow> 42 \<in> set d" by (auto simp: lower_def) (metis)
qed

text \<open>A requested name with an upper-case letter fails the check for every certificate without
  wildcards, even if the names differ in case only.\<close>

theorem mixed_case_sni_fails:
  assumes "c \<in> set sni" and "65 \<le> c" and "c \<le> 90"
    and "\<And>d. d \<in> dns_names x \<Longrightarrow> clean d \<and> (42 :: byte) \<notin> set d" and "\<And>d. d \<in> ip_names x \<Longrightarrow> clean d"
  shows "\<not> hostname_validated sni host x"
proof -
  have ne: "sni \<noteq> []" using assms(1) by auto
  have "\<not> candidate_matches sni host (lit ''DNS:'' @ d)" if "d \<in> dns_names x" for d
  proof -
    have "\<not> prefix [42, 46] (lower d)" using lower_star assms(4) [OF that] by (auto simp: prefix_def)
    moreover have "sni \<noteq> lower d" using lower_no_upper assms(1-3) by metis
    ultimately have "\<not> item_matches sni host (lit ''DNS:'' @ d)" by (simp add: item_matches_def lit_simps)
    then show ?thesis using clean_prefixed(1) assms(4) [OF that] by simp
  qed
  moreover have "\<not> candidate_matches sni host (lit ''IP:'' @ d)" if "d \<in> ip_names x" for d
    using clean_prefixed(2) [OF assms(5) [OF that]] ip_item [OF ne] by simp
  ultimately show ?thesis unfolding hostname_candidates by blast
qed

text \<open>A comma in a name of the certificate starts another name.\<close>

lemma split_at_comma: "44 \<notin> set a \<Longrightarrow> split_from 44 tok (a @ 44 # b) = (tok @ a) # split_from 44 [] b"
proof (induction a arbitrary: tok)
  case (Cons c a)
  then have "c \<noteq> 44" "44 \<notin> set a" by auto
  then show ?case using Cons.IH [of "tok @ [c]"] by simp
qed simp

text \<open>A comma in the common name starts another name: a certificate whose common name contains
  \<^verbatim>\<open>,DNS:\<close> and some host passes the check for that host.\<close>

theorem comma_in_name_adds_names:
  assumes "lower_case sni" and "clean sni" and "clean a" and "x_cn x = a @ lit '',DNS:'' @ sni"
  shows "hostname_validated sni host x"
proof -
  let ?i = "lit ''DNS:'' @ sni"
  have "item_matches sni host ?i"
    using dns_item [OF assms(1), of sni host] assms(1,2) by (auto simp: clean_def covers_def lower_case_def)
  moreover have "string_trim ?i = ?i"
    using assms(2) by (simp add: string_trim_eq clean_def lit_simps is_space_def)
  moreover have "?i \<in> set (string_split (lit ''DNS:'' @ x_cn x) 44)"
  proof -
    have "lit ''DNS:'' @ x_cn x = (lit ''DNS:'' @ a) @ 44 # ?i"
      using assms(4) by (simp add: str_bytes_def)
    moreover have "44 \<notin> set (lit ''DNS:'' @ a)" "44 \<notin> set ?i"
      using assms(2,3) by (auto simp: lit_simps clean_def)
    ultimately show ?thesis
      using split_at_comma [of "lit ''DNS:'' @ a" "[]" ?i] split_from_whole [of 44 ?i "[]"]
      by (simp add: string_split_def lit_simps)
  qed
  ultimately have "candidate_matches sni host (lit ''DNS:'' @ x_cn x)"
    unfolding candidate_matches_def list_ex_iff by (metis)
  then show ?thesis by (simp add: hostname_validated_def)
qed

text \<open>An address in a certificate is kept as its raw bytes and compared with the text of the host.\<close>

lemma short_item: "length i \<le> 7 \<Longrightarrow> 7 \<le> length h \<Longrightarrow> \<not> item_matches [] (Some h) i"
proof
  assume "length i \<le> 7" and "7 \<le> length h" and "item_matches [] (Some h) i"
  then have "h = drop 3 i" "length i \<le> 7" "7 \<le> length h" by (auto simp: item_matches_def split: if_splits)
  then show False by simp
qed

text \<open>Without a requested name the address of the host is compared with the raw bytes of the
  addresses in the certificate: four bytes never equal its text, so the check fails for every
  certificate with IPv4 addresses.\<close>

theorem ip_san_never_matches:
  assumes "7 \<le> length h" and "\<And>d. d \<in> ip_names x \<Longrightarrow> length d = 4"
    and "\<And>d. d \<in> dns_names x \<Longrightarrow> clean d"
  shows "\<not> hostname_validated [] (Some h) x"
proof -
  have "\<not> candidate_matches [] (Some h) (lit ''IP:'' @ d)" if "d \<in> ip_names x" for d
  proof -
    have "length (string_trim i) \<le> 7" if i: "i \<in> set (string_split (lit ''IP:'' @ d) 44)" for i
    proof -
      have "length i \<le> 7"
        using split_from_length [of i 44 "[]" "lit ''IP:'' @ d"] i assms(2) [OF \<open>d \<in> ip_names x\<close>]
        by (simp add: string_split_def lit_simps)
      then show ?thesis using string_trim_eq [of i] length_dropWhile_le [of is_space i] by simp
    qed
    then show ?thesis using short_item assms(1) by (auto simp: candidate_matches_def list_ex_iff)
  qed
  moreover have "\<not> candidate_matches [] (Some h) (lit ''DNS:'' @ d)" if "d \<in> dns_names x" for d
    using clean_prefixed(1) [OF assms(3) [OF that]] by (simp add: lit_simps item_matches_def)
  ultimately show ?thesis unfolding hostname_candidates by blast
qed

section \<open>The factory\<close>

lemma lru_reoder_cache: "lru_reoder c = Inr (r, c') \<Longrightarrow>
    pc_cache c' = pc_cache c \<and> pc_mode c' = pc_mode c \<and> pc_expired c' = pc_expired c"
  by (auto simp: lru_reoder_def Let_def split: option.splits if_splits)

lemma delete_last_cache: "delete_last c = Inr (r, c') \<Longrightarrow>
    pc_cache c' \<subseteq>\<^sub>m pc_cache c \<and> pc_mode c' = pc_mode c \<and> pc_expired c' = pc_expired c"
  by (auto simp: delete_last_def cache_erase_def map_le_def Let_def split: option.splits if_splits)

lemma make_room_cache: "make_room c = Inr c' \<Longrightarrow>
    pc_cache c' \<subseteq>\<^sub>m pc_cache c \<and> pc_mode c' = pc_mode c \<and> pc_expired c' = pc_expired c"
proof (induction c arbitrary: c' rule: make_room.induct)
  case (1 c)
  show ?case
  proof (cases "length (pc_items c) < pc_max_size c")
    case True
    then show ?thesis using 1(2) by (simp add: make_room.simps)
  next
    case False
    obtain x c1 w c2 where
      l: "(if pc_mode c = LRU then lru_reoder c else ok (False, c)) = Inr (x, c1)" and
      d: "delete_last c1 = Inr (w, c2)" and r: "make_room c2 = Inr c'"
      using 1(2) False by (subst (asm) make_room.simps) (simp split: sum.splits prod.splits)
    have "pc_cache c1 = pc_cache c \<and> pc_mode c1 = pc_mode c \<and> pc_expired c1 = pc_expired c"
      using l lru_reoder_cache by (auto split: if_splits)
    moreover note delete_last_cache [OF d]
    moreover have "pc_cache c' \<subseteq>\<^sub>m pc_cache c2 \<and> pc_mode c' = pc_mode c2 \<and> pc_expired c' = pc_expired c2"
      using 1(1) [OF False l refl d refl r] by simp
    ultimately show ?thesis by (metis map_le_trans)
  qed
qed

lemma map_le_lookup: "pc_cache c' \<subseteq>\<^sub>m pc_cache c \<Longrightarrow> lookup c' j = Some p \<Longrightarrow> lookup c j = Some p"
  by (fastforce simp: lookup_def map_le_def dom_def)

lemma cache_set_lookup:
  assumes "cache_set k v c = Inr (r, c')"
  shows "lookup c' j = Some p \<Longrightarrow> j = k \<and> p = v \<or> lookup c j = Some p"
    and "pc_mode c' = pc_mode c" and "pc_expired c' = pc_expired c"
proof -
  have "(lookup c' j = Some p \<longrightarrow> j = k \<and> p = v \<or> lookup c j = Some p) \<and> pc_mode c' = pc_mode c \<and> pc_expired c' = pc_expired c"
  proof (cases "pc_cache c k")
    case (Some b)
    then show ?thesis using assms by (auto simp: cache_set_def lookup_def new_block_def split: if_splits)
  next
    case None
    then obtain d where d: "(if 0 < pc_max_size c then make_room c else ok c) = Inr d"
        and c': "c' = d\<lparr>pc_cache := (pc_cache d)(k \<mapsto> new_block d v), pc_items := k # pc_items d\<rparr>"
      using assms by (auto simp: cache_set_def split: sum.splits)
    have "pc_cache d \<subseteq>\<^sub>m pc_cache c \<and> pc_mode d = pc_mode c \<and> pc_expired d = pc_expired c"
      using d make_room_cache by (auto split: if_splits)
    moreover from this have "lookup d j = Some p \<longrightarrow> lookup c j = Some p" using map_le_lookup [of d c j p] by simp
    ultimately show ?thesis unfolding c' by (auto simp: lookup_def new_block_def)
  qed
  then show "lookup c' j = Some p \<Longrightarrow> j = k \<and> p = v \<or> lookup c j = Some p"
    and "pc_mode c' = pc_mode c" and "pc_expired c' = pc_expired c" by simp_all
qed

lemma cache_get_lookup:
  assumes "cache_get k c = Inr (r, c')"
  shows "lookup c' j = Some p \<Longrightarrow> lookup c j = Some p" and "r = Some q \<Longrightarrow> lookup c k = Some q"
proof -
  have "(lookup c' j = Some p \<longrightarrow> lookup c j = Some p) \<and> (r = Some q \<longrightarrow> lookup c k = Some q)"
  proof (cases "pc_cache c k")
    case None
    then show ?thesis using assms by (auto simp: cache_get_def lookup_def)
  next
    case (Some b)
    consider "c' = snd (cache_erase k c)" "r = None" | x where "lru_reoder (touch k b c) = Inr (x, c')" "r = Some (db_ptr b)"
      | "c' = c" "r = Some (db_ptr b)"
      using assms Some by (auto simp: cache_get_def split: if_splits sum.splits option.splits)
    then show ?thesis
    proof cases
      case 1
      then show ?thesis by (auto simp: cache_erase_def lookup_def split: option.splits if_splits)
    next
      case 2
      then have "pc_cache c' = (pc_cache c)(k \<mapsto> b\<lparr>db_counter := db_counter b + 1\<rparr>)"
        using lru_reoder_cache by (fastforce simp: touch_def)
      then show ?thesis using Some 2(2) by (auto simp: lookup_def)
    next
      case 3
      then show ?thesis using Some by (simp add: lookup_def)
    qed
  qed
  then show "lookup c' j = Some p \<Longrightarrow> lookup c j = Some p" and "r = Some q \<Longrightarrow> lookup c k = Some q" by simp_all
qed

lemma fifo_get:
  assumes "pc_mode c = FIFO" and "pc_expired c = None"
  shows "cache_get k c = Inr (lookup c k, c)"
  using assms by (cases "pc_cache c k") (simp_all add: cache_get_def lookup_def)

text \<open>A subject without a plus sign leaves the mark of a self-signed certificate readable in the key.\<close>

definition self_signed_key :: "str \<Rightarrow> bool" where
  "self_signed_key k \<longleftrightarrow> prefix (lit ''+self_signed'') (dropWhile (\<lambda>c. c \<noteq> 43) (drop 5 k))"

lemma key_self_signed:
  assumes "43 \<notin> set (x_oneline x)"
  shows "self_signed_key (make_store_key x spo) = so_self_signed spo"
proof -
  define rest where "rest = (if so_self_signed spo then lit ''+self_signed'' else []) @
     concat (map (\<lambda>s. lit ''+san:'' @ c_str s) (get_sans x @ so_sans spo))"
  have k: "drop 5 (make_store_key x spo) = x_oneline x @ rest"
    by (simp add: make_store_key_def rest_def str_bytes_def)
  have "dropWhile (\<lambda>c. c \<noteq> 43) rest = rest \<and> prefix (lit ''+self_signed'') rest = so_self_signed spo"
    by (cases "so_self_signed spo"; cases "get_sans x @ so_sans spo") (simp_all add: rest_def str_bytes_def)
  moreover have "dropWhile (\<lambda>c. c \<noteq> 43) (x_oneline x @ rest) = dropWhile (\<lambda>c. c \<noteq> 43) rest"
    using assms by (intro dropWhile_append2) auto
  ultimately show ?thesis by (simp add: self_signed_key_def k)
qed

definition mitm_sound :: "cert_factory \<Rightarrow> bool" where
  "mitm_sound f \<longleftrightarrow> (\<forall>k p. lookup (fa_mitm f) k = Some p \<longrightarrow>
     cc_key p \<noteq> None \<and> cc_ctx p = None \<and>
     (\<exists>sp. cc_cert p = Some (Spoofed sp) \<and> sp_self_signed sp = self_signed_key k))"

lemma spoof_cases:
  assumes "spoof oc x ss sans f = (r, f')"
  shows "f' = f\<lparr>fa_serial := fa_serial f + 1\<rparr>"
    and "r = Some p \<Longrightarrow> \<exists>sp. cc_cert p = Some (Spoofed sp) \<and> sp_self_signed sp = ss \<and> sp_subject sp = x_subject x \<and>
           sp_serial sp = fa_serial f + 1 \<and> cc_key p = Some (fa_sr_key f) \<and> cc_ctx p = None"
proof -
  show "f' = f\<lparr>fa_serial := fa_serial f + 1\<rparr>"
    using assms by (auto simp: spoof_def Let_def split: option.splits if_splits)
  have q: "cq_subject q = x_subject x" if "create_csr_from oc x sans = Some q" for q
    using that by (auto simp: create_csr_from_def Let_def split: if_splits)
  assume "r = Some p"
  then show "\<exists>sp. cc_cert p = Some (Spoofed sp) \<and> sp_self_signed sp = ss \<and> sp_subject sp = x_subject x \<and>
           sp_serial sp = fa_serial f + 1 \<and> cc_key p = Some (fa_sr_key f) \<and> cc_ctx p = None"
    using assms q by (auto simp: spoof_def Let_def split: option.splits if_splits)
qed

lemma add_mitm_lookup:
  assumes "add_mitm k p f = Inr (r, f')" and "lookup (fa_mitm f') j = Some q"
  shows "j = k \<and> q = p \<or> lookup (fa_mitm f) j = Some q"
proof -
  obtain c' where a: "add_to_cache k p (fa_mitm f) = Inr (r, c')" and f': "f' = f\<lparr>fa_mitm := c'\<rparr>"
    using assms(1) by (auto simp: add_mitm_def split: sum.splits)
  show ?thesis
  proof (cases "cc_key p = None \<or> cc_cert p = None")
    case True
    then show ?thesis using a f' assms(2) by (auto simp: add_to_cache_def)
  next
    case False
    then obtain g d where g: "cache_get k (fa_mitm f) = Inr (g, d)"
      using a by (auto simp: add_to_cache_def split: sum.splits)
    consider "c' = d" | s where "cache_set k p d = Inr (s, c')"
      using a g False by (auto simp: add_to_cache_def split: sum.splits option.splits)
    then have "j = k \<and> q = p \<or> lookup d j = Some q"
    proof cases
      case 1
      then show ?thesis using f' assms(2) by simp
    next
      case (2 s)
      show ?thesis using cache_set_lookup(1) [OF 2, of j q] f' assms(2) by simp
    qed
    then show ?thesis using cache_get_lookup(1) [OF g] by blast
  qed
qed

definition custom_off :: "mitm \<Rightarrow> bool" where
  "custom_off p \<longleftrightarrow> \<not> mc_sni_search p \<and> \<not> mc_ip_search p"

lemma use_cert_mitm_cases:
  assumes "use_cert_mitm oc x spo m f = Inr (r, m', f')"
  obtains p g where "find_mitm (make_store_key x spo) f = Inr (Some p, g)" "r" "m' = take_pair p m" "f' = g"
  | g where "find_mitm (make_store_key x spo) f = Inr (None, g)" "\<not> r" "m' = m"
      "spoof oc x (so_self_signed spo) (so_sans spo) g = (None, f')"
  | p g h s where "find_mitm (make_store_key x spo) f = Inr (None, g)" "r" "m' = take_pair p m"
      "spoof oc x (so_self_signed spo) (so_sans spo) g = (Some p, h)" "add_mitm (make_store_key x spo) p h = Inr (s, f')"
  using assms that
  by (auto simp: use_cert_mitm_def Let_def split: sum.splits prod.splits option.splits)

lemma find_mitm_lookup:
  assumes "find_mitm k f = Inr (r, g)"
  shows "lookup (fa_mitm g) j = Some p \<Longrightarrow> lookup (fa_mitm f) j = Some p" and "r = Some q \<Longrightarrow> lookup (fa_mitm f) k = Some q"
    and "fa_serial g = fa_serial f" and "fa_sr_key g = fa_sr_key f"
proof -
  obtain c where c: "cache_get k (fa_mitm f) = Inr (r, c)" and g: "g = f\<lparr>fa_mitm := c\<rparr>"
    using assms by (auto simp: find_mitm_def split: sum.splits)
  show "lookup (fa_mitm g) j = Some p \<Longrightarrow> lookup (fa_mitm f) j = Some p"
    using cache_get_lookup(1) [OF c] g by simp
  show "r = Some q \<Longrightarrow> lookup (fa_mitm f) k = Some q" by (rule cache_get_lookup(2) [OF c])
qed (use assms in \<open>auto simp: find_mitm_def split: sum.splits\<close>)

definition pair_fits :: "spoof_options \<Rightarrow> chain_ctx \<Rightarrow> bool" where
  "pair_fits spo p \<longleftrightarrow> cc_key p \<noteq> None \<and> cc_ctx p = None \<and>
     (\<exists>sp. cc_cert p = Some (Spoofed sp) \<and> sp_self_signed sp = so_self_signed spo)"

lemma use_cert_mitm_sound:
  assumes "mitm_sound f" and "43 \<notin> set (x_oneline x)" and "use_cert_mitm oc x spo m f = Inr (r, m', f')"
  shows "mitm_sound f'" and "r \<Longrightarrow> \<exists>p. m' = take_pair p m \<and> pair_fits spo p"
proof -
  let ?k = "make_store_key x spo"
  note key = key_self_signed [OF assms(2), of spo]
  have "mitm_sound f' \<and> (r \<longrightarrow> (\<exists>p. m' = take_pair p m \<and> pair_fits spo p))"
    using assms(3)
  proof (cases rule: use_cert_mitm_cases)
    case (1 p g)
    have "lookup (fa_mitm f) ?k = Some p" by (rule find_mitm_lookup(2) [OF 1(1) refl])
    then have "pair_fits spo p" using assms(1) key unfolding mitm_sound_def pair_fits_def by metis
    moreover have "mitm_sound g" using assms(1) find_mitm_lookup(1) [OF 1(1)] unfolding mitm_sound_def by blast
    ultimately show ?thesis using 1(3,4) by blast
  next
    case (2 g)
    have "mitm_sound g" using assms(1) find_mitm_lookup(1) [OF 2(1)] unfolding mitm_sound_def by blast
    then show ?thesis using spoof_cases(1) [OF 2(4)] 2(2) by (simp add: mitm_sound_def)
  next
    case (3 p g h s)
    have p: "pair_fits spo p" using spoof_cases(2) [OF 3(4) refl] by (auto simp: pair_fits_def)
    have "mitm_sound g" using assms(1) find_mitm_lookup(1) [OF 3(1)] unfolding mitm_sound_def by blast
    then have h: "mitm_sound h" using spoof_cases(1) [OF 3(4)] by (simp add: mitm_sound_def)
    have "cc_key q \<noteq> None \<and> cc_ctx q = None \<and> (\<exists>sp. cc_cert q = Some (Spoofed sp) \<and> sp_self_signed sp = self_signed_key j)"
      if "lookup (fa_mitm f') j = Some q" for j q
      using add_mitm_lookup [OF 3(5) that] h p key unfolding mitm_sound_def pair_fits_def by metis
    then show ?thesis using p 3(3) by (auto simp: mitm_sound_def)
  qed
  then show "mitm_sound f'" and "r \<Longrightarrow> \<exists>p. m' = take_pair p m \<and> pair_fits spo p"
    by simp_all
qed

text \<open>When the certificate made for the client is to be self-signed, in both settings of the replacement
  of failed checks: without the replacement whenever the certificate of the server failed a check; with
  it only if nothing is known that could be put into the replacement, neither a requested name nor a host.\<close>

definition self_signed_due :: "bool \<Rightarrow> u32 \<Rightarrow> str \<Rightarrow> str option \<Rightarrow> x509 \<Rightarrow> bool" where
  "self_signed_due repl v sni host x \<longleftrightarrow>
     (if repl then v = VRF_OK \<and> \<not> hostname_validated sni host x \<and> sni = [] \<and> host = None
      else \<not> (v = VRF_OK \<and> hostname_validated sni host x))"

lemma choice_self_signed:
  "\<exists>spo c'. spoof_choice (Some x) host c = Inr (spo, c') \<and>
     so_self_signed spo = self_signed_due (failed_check_replacement (sc_opt c)) (sc_verify c) (tls_sni c) host x"
  by (auto simp: spoof_choice_def self_signed_due_def Let_def split: option.splits)

lemma start_server_pair:
  assumes "pair_fits spo p"
  shows "\<exists>sp. mc_cert (start_server oc (take_pair p m)) = Some (Spoofed sp) \<and> sp_self_signed sp = so_self_signed spo \<and>
    (mc_ctx m = None \<and> sc_waiting (mc_com m) \<and> \<not> sc_upgraded (mc_com m) \<and> oc C_use_certificate \<longrightarrow>
     mc_served (start_server oc (take_pair p m)) = Some (Spoofed sp))"
  using assms by (auto simp: pair_fits_def start_server_def init_server_def take_pair_def Let_def)

text \<open>C4: With no configured certificates in use, no shortcut by the server name and no plus sign in
  the subject of the server's certificate, the certificate preferred for the client, also when it comes
  from the cache, is self-signed exactly if the setting asks for it. Without the replacement of failed
  checks that is: if the server's certificate did not verify or does not cover the requested name. With
  the replacement (the default) it is: if the certificate verified, but the check of the name failed
  with no requested name and no host known; every other failed check is shown as a certificate of the
  local authority. A client waiting for its handshake is served the preferred certificate, and the
  cache keeps the property for later connections.\<close>

theorem self_signed_iff_check_fails:
  assumes "mitm_sound f" and "43 \<notin> set (x_oneline x)" and "check_cert env (mc_com m) = (r0, c)"
    and "custom_off p" and "\<not> mc_sni_shortcut m"
    and "mitm_check_cert env oc (Some x) m (Some p) f = Inr (True, m', Some p', f')"
  shows "mitm_sound f' \<and>
    (\<exists>sp. mc_cert p' = Some (Spoofed sp) \<and>
       (sp_self_signed sp \<longleftrightarrow>
          (if failed_check_replacement (sc_opt c)
           then sc_verify c = VRF_OK \<and> \<not> hostname_validated (tls_sni c) (mc_host m) x \<and> tls_sni c = [] \<and> mc_host m = None
           else \<not> (sc_verify c = VRF_OK \<and> hostname_validated (tls_sni c) (mc_host m) x))) \<and>
       (mc_ctx p = None \<and> sc_waiting (mc_com p) \<and> \<not> sc_upgraded (mc_com p) \<and> oc C_use_certificate \<longrightarrow>
        mc_served p' = Some (Spoofed sp)))"
proof -
  obtain spo c' where ch: "spoof_choice (Some x) (mc_host m) c = Inr (spo, c')"
      "so_self_signed spo = self_signed_due (failed_check_replacement (sc_opt c)) (sc_verify c) (tls_sni c) (mc_host m) x"
    using choice_self_signed by blast
  define q where "q = p\<lparr>mc_com := (mc_com p)\<lparr>sc_server := True\<rparr>\<rparr>"
  have q: "\<not> mc_sni_search q" "\<not> mc_ip_search q" "mc_ctx q = mc_ctx p" "sc_waiting (mc_com q) = sc_waiting (mc_com p)"
      "sc_upgraded (mc_com q) = sc_upgraded (mc_com p)"
    using assms(4) by (simp_all add: custom_off_def q_def)
  obtain p1 where u: "use_cert_mitm oc x spo q f = Inr (True, p1, f')" and p': "p' = start_server oc p1"
    using assms(3,5,6) ch(1) q(1,2)
    by (auto simp: mitm_check_cert_def Let_def spoof_cert_def q_def [symmetric] split: sum.splits prod.splits if_splits)
  obtain k where k: "p1 = take_pair k q" "pair_fits spo k" using use_cert_mitm_sound(2) [OF assms(1,2) u] by blast
  show ?thesis
    using use_cert_mitm_sound(1) [OF assms(1,2) u] start_server_pair [OF k(2), of oc q] q(3-5)
    unfolding p' k(1) ch(2) self_signed_due_def by metis
qed

text \<open>A certificate that cannot be made leaves the preference of the com and all cached
  certificates as they were; only the serial number moves on.\<close>

theorem failed_spoof_changes_nothing:
  assumes "use_cert_mitm oc x spo m f = Inr (False, m', f')" and "pc_mode (fa_mitm f) = FIFO" and "pc_expired (fa_mitm f) = None"
  shows "m' = m \<and> f' = f\<lparr>fa_serial := fa_serial f + 1\<rparr>"
  using assms(1)
proof (cases rule: use_cert_mitm_cases)
  case (2 g)
  then have "g = f" using fifo_get [OF assms(2,3)] by (simp add: find_mitm_def)
  then show ?thesis using 2 spoof_cases(1) [OF 2(4)] by simp
qed simp_all

section \<open>Certificates are made once\<close>

lemma made_once_key:
  assumes "cache_ok (fa_mitm f)" and "pc_mode (fa_mitm f) = FIFO" and "pc_expired (fa_mitm f) = None"
    and "use_cert_mitm oc x spo m f = Inr (True, m1, f1)" and "make_store_key y spo2 = make_store_key x spo"
  shows "\<exists>m3. use_cert_mitm oc2 y spo2 m2 f1 = Inr (True, m3, f1) \<and> mc_cert m3 = mc_cert m1 \<and> mc_key m3 = mc_key m1"
proof -
  let ?k = "make_store_key x spo"
  have fm: "find_mitm k g = Inr (lookup (fa_mitm g) k, g)" if "pc_mode (fa_mitm g) = FIFO" "pc_expired (fa_mitm g) = None" for k g
    using fifo_get [OF that] by (simp add: find_mitm_def)
  obtain p where p: "lookup (fa_mitm f1) ?k = Some p" "m1 = take_pair p m"
      "pc_mode (fa_mitm f1) = FIFO" "pc_expired (fa_mitm f1) = None"
    using assms(4)
  proof (cases rule: use_cert_mitm_cases)
    case (1 p g)
    then show ?thesis using that fm [OF assms(2,3)] assms(2,3) by auto
  next
    case (3 p g h s)
    have g: "g = f" "lookup (fa_mitm f) ?k = None" using 3(1) fm [OF assms(2,3)] by auto
    have h: "fa_mitm h = fa_mitm f" using spoof_cases(1) [OF 3(4)] g by simp
    have pn: "cc_key p \<noteq> None" "cc_cert p \<noteq> None" using spoof_cases(2) [OF 3(4)] by auto
    obtain r c where c: "cache_set ?k p (fa_mitm f) = Inr (r, c)" "lookup c ?k = Some p"
      using cache_set_ok [OF assms(1), of ?k p] by blast
    have "fa_mitm f1 = c"
      using 3(5) pn g(2) h c(1) fifo_get [OF assms(2,3), of ?k] by (auto simp: add_mitm_def add_to_cache_def)
    then show ?thesis using that c(2) 3(3) cache_set_lookup(2,3) [OF c(1)] assms(2,3) by simp
  qed simp
  have "use_cert_mitm oc2 y spo2 m2 f1 = Inr (True, take_pair p m2, f1)"
    using fm [OF p(3,4), of ?k] p(1) assms(5) by (simp add: use_cert_mitm_def)
  then show ?thesis using p(2) by (simp add: take_pair_def)
qed

text \<open>Once a certificate has been made, the next connection with the same server certificate
  and options gets the same certificate and key from the cache, with nothing signed and nothing
  changed in the factory.\<close>

theorem certificate_is_made_once:
  assumes "cache_ok (fa_mitm f)" and "pc_mode (fa_mitm f) = FIFO" and "pc_expired (fa_mitm f) = None"
    and "use_cert_mitm oc x spo m f = Inr (True, m1, f1)"
  shows "\<exists>m3. use_cert_mitm oc2 x spo m2 f1 = Inr (True, m3, f1) \<and> mc_cert m3 = mc_cert m1 \<and> mc_key m3 = mc_key m1"
  using made_once_key [OF assms refl] .

text \<open>C29: The key does not separate subject and mark: after a valid certificate whose subject ends
  in \<^verbatim>\<open>+self_signed\<close> was copied, a certificate of the plain subject that
  failed the checks is shown to the client as that copy, signed by the local authority.\<close>

theorem store_key_collision:
  assumes "cache_ok (fa_mitm f)" and "pc_mode (fa_mitm f) = FIFO" and "pc_expired (fa_mitm f) = None"
    and "lookup (fa_mitm f) (make_store_key x spo) = None" and "\<not> so_self_signed spo"
    and "use_cert_mitm oc x spo m f = Inr (True, m1, f1)"
    and "x_oneline x = x_oneline y @ lit ''+self_signed''" and "get_sans x = get_sans y"
    and "so_self_signed spo2" and "so_sans spo2 = so_sans spo"
  shows "\<exists>m3 sp. use_cert_mitm oc2 y spo2 m2 f1 = Inr (True, m3, f1) \<and> mc_cert m3 = Some (Spoofed sp) \<and>
    \<not> sp_self_signed sp \<and> sp_subject sp = x_subject x"
proof -
  have k: "make_store_key y spo2 = make_store_key x spo"
    using assms(5,7-10) by (simp add: make_store_key_def)
  have "\<exists>sp. mc_cert m1 = Some (Spoofed sp) \<and> \<not> sp_self_signed sp \<and> sp_subject sp = x_subject x"
    using assms(6)
  proof (cases rule: use_cert_mitm_cases)
    case (1 p g)
    then show ?thesis using find_mitm_lookup(2) [OF 1(1) refl] assms(4) by simp
  next
    case (3 p g h s)
    then show ?thesis using spoof_cases(2) [OF 3(4) refl] assms(5) by (auto simp: take_pair_def)
  qed simp
  then show ?thesis using made_once_key [OF assms(1-3,6) k, of oc2 m2] by auto
qed

section \<open>Examples\<close>

definition demo_site :: x509 where
  "demo_site = \<lparr>x_subject = [1], x_oneline = [47, 97], x_cn = [97, 46, 98],
     x_exts = Some [Ext_other, Ext_san (Some [GEN_DNS [42, 46, 66], GEN_IPADD [192, 168, 2, 3]])]\<rparr>"

definition demo_other :: x509 where
  "demo_other = demo_site\<lparr>x_subject := [2], x_oneline := [47, 97] @ lit ''+self_signed''\<rparr>"

definition demo_cert_factory :: cert_factory where
  "demo_cert_factory = \<lparr>fa_serial = 1, fa_sr_key = 5, fa_mitm = empty_cache 10, fa_custom = empty_cache 10\<rparr>"

definition demo_mitm :: "byte list \<Rightarrow> mitm" where
  "demo_mitm sni = \<lparr>mc_com = demo_tls\<lparr>sc_verify := VRF_OK, sc_hello := (demo_state [] [])\<lparr>hs_sni := sni\<rparr>\<rparr>,
     mc_left = \<lparr>lo_allow_sha1 = True, lo_allow_rc4 = False, lo_allow_aes128 = True, lo_kex_dh = True, lo_kex_rsa = True,
       lo_no_tickets = False\<rparr>,
     mc_def_ctx = 3, mc_used_ctx = None, mc_ciphers = [], mc_groups = False, mc_served = None, mc_tickets = True,
     mc_cert = None, mc_key = None, mc_ctx = None, mc_sni_search = False, mc_ip_search = False,
     mc_host = Some [49, 46, 49, 46, 49, 46, 49], mc_peer_host = None, mc_sni_shortcut = False\<rparr>"

definition demo_spoof :: "bool \<Rightarrow> spoof_options" where
  "demo_spoof ss = \<lparr>so_sni = [], so_self_signed = ss, so_sans = []\<rparr>"

lemma demo_names [simp]: "dns_names demo_site = {[42, 46, 66], [97, 46, 98]}" "ip_names demo_site = {[192, 168, 2, 3]}"
  by (auto simp: dns_names_def ip_names_def demo_site_def)

lemma demo_clean [simp]: "clean [42, 46, 66]" "clean [97, 46, 98]" "clean [120, 46, 98]" "clean [101]"
  by (simp_all add: clean_def is_space_def)

lemma demo_cert_factory_ok:
  "mitm_sound demo_cert_factory" "cache_ok (fa_mitm demo_cert_factory)" "pc_mode (fa_mitm demo_cert_factory) = FIFO"
  "pc_expired (fa_mitm demo_cert_factory) = None" "lookup (fa_mitm demo_cert_factory) k = None"
  by (simp_all add: mitm_sound_def demo_cert_factory_def lookup_def empty_cache_def cache_ok_def)

lemma demo_spoofed: "\<exists>p f'. spoof (\<lambda>_. True) x ss sans f = (Some p, f')"
  by (simp add: spoof_def create_csr_from_def validate_spoof_requirements_def Let_def split: prod.splits option.splits)

lemma demo_use: "\<exists>m1 f1. use_cert_mitm (\<lambda>_. True) x spo m demo_cert_factory = Inr (True, m1, f1)"
proof -
  let ?k = "make_store_key x spo"
  have f: "find_mitm ?k demo_cert_factory = Inr (None, demo_cert_factory)"
    using fifo_get [OF demo_cert_factory_ok(3,4), of ?k] demo_cert_factory_ok(5) [of ?k] by (simp add: find_mitm_def)
  obtain p f1 where s: "spoof (\<lambda>_. True) x (so_self_signed spo) (so_sans spo) demo_cert_factory = (Some p, f1)"
    using demo_spoofed by blast
  have m: "fa_mitm f1 = fa_mitm demo_cert_factory" using spoof_cases(1) [OF s] by simp
  obtain r c where "cache_set ?k p (fa_mitm demo_cert_factory) = Inr (r, c)"
    using cache_set_ok [OF demo_cert_factory_ok(2), of ?k p] by blast
  then have "\<exists>r f2. add_mitm ?k p f1 = Inr (r, f2)"
    using fifo_get [OF demo_cert_factory_ok(3,4), of ?k] demo_cert_factory_ok(5) [of ?k] m
    by (auto simp: add_mitm_def add_to_cache_def)
  then show ?thesis using f s by (auto simp: use_cert_mitm_def)
qed

theorem hostname_check_exact_witness:
  "hostname_validated [120, 46, 98] None demo_site \<and> \<not> hostname_validated [120, 46, 121] None demo_site"
proof -
  have c: "44 \<notin> set d \<and> length d < 2 ^ 61" if "d \<in> dns_names demo_site \<union> ip_names demo_site" for d
    using that by auto
  have l: "lower_case [120, 46, 98]" "lower_case [120, 46, 121]" by (simp_all add: lower_case_def lower_def to_lower_def)
  have "covers [42, 46, 66] [120, 46, 98]"
    unfolding covers_def by (rule disjI2, intro exI [of _ "[120]"] exI [of _ "[98]"]) (simp add: lower_def to_lower_def)
  moreover have "\<not> covers d [120, 46, 121]" if "d \<in> dns_names demo_site" for d
    using that by (auto simp: covers_def lower_def to_lower_def Cons_eq_append_conv)
  moreover have "hostname_validated [120, 46, 98] None demo_site \<longleftrightarrow> (\<exists>d \<in> dns_names demo_site. covers d [120, 46, 98])"
    by (rule hostname_check_exact) (use l(1) c in blast)+
  moreover have "hostname_validated [120, 46, 121] None demo_site \<longleftrightarrow> (\<exists>d \<in> dns_names demo_site. covers d [120, 46, 121])"
    by (rule hostname_check_exact) (use l(2) c in blast)+
  ultimately show ?thesis by simp
qed

theorem mixed_case_sni_fails_witness:
  "\<not> hostname_validated [65, 46, 98] None (demo_site\<lparr>x_exts := None\<rparr>)"
proof -
  have n: "dns_names (demo_site\<lparr>x_exts := None\<rparr>) = {[97, 46, 98]}" "ip_names (demo_site\<lparr>x_exts := None\<rparr>) = {}"
    by (auto simp: dns_names_def ip_names_def demo_site_def)
  show ?thesis by (rule mixed_case_sni_fails [of 65]) (auto simp: n)
qed

theorem comma_in_name_adds_names_witness:
  "hostname_validated [120, 46, 98] None (demo_site\<lparr>x_cn := [101] @ lit '',DNS:'' @ [120, 46, 98], x_exts := None\<rparr>)"
  by (rule comma_in_name_adds_names [of _ "[101]"]) (simp_all add: lower_case_def lower_def to_lower_def)

theorem ip_san_never_matches_witness:
  "\<not> hostname_validated [] (Some [49, 46, 49, 46, 49, 46, 49]) demo_site"
  by (rule ip_san_never_matches) auto

theorem self_signed_iff_check_fails_witness:
  "\<exists>m' p' f' sp. mitm_check_cert demo_tls_env (\<lambda>_. True) (Some demo_site) (demo_mitm [97, 46, 98]) (Some (demo_mitm [])) demo_cert_factory =
     Inr (True, m', Some p', f') \<and> mc_served p' = Some (Spoofed sp) \<and> \<not> sp_self_signed sp"
proof -
  define m where "m = demo_mitm [97, 46, 98]"
  define c where "c = snd (check_cert demo_tls_env (mc_com m))"
  have c: "check_cert demo_tls_env (mc_com m) = (True, c)" "\<not> failed_check_replacement (sc_opt c)" "sc_verify c = VRF_OK"
      "tls_sni c = [97, 46, 98]" "mc_host m = Some [49, 46, 49, 46, 49, 46, 49]"
    by (simp_all add: c_def m_def check_cert_def demo_tls_env_def demo_mitm_def demo_tls_def demo_opts_def tls_sni_def)
  have p: "custom_off (demo_mitm [])" "\<not> mc_sni_shortcut m" "43 \<notin> set (x_oneline demo_site)"
    by (simp_all add: custom_off_def demo_mitm_def m_def demo_site_def)
  have v: "hostname_validated (tls_sni c) (mc_host m) demo_site"
    by (simp add: c(4,5) hostname_validated_def candidate_matches_def demo_site_def get_sans_def str_bytes_def string_split_def
        item_matches_def string_trim_def is_space_def lower_def to_lower_def)
  obtain spo c' where ch: "spoof_choice (Some demo_site) (mc_host m) c = Inr (spo, c')"
    using choice_self_signed by blast
  define q where "q = (demo_mitm [])\<lparr>mc_com := (mc_com (demo_mitm []))\<lparr>sc_server := True\<rparr>\<rparr>"
  obtain m1 f1 where u: "use_cert_mitm (\<lambda>_. True) demo_site spo q demo_cert_factory = Inr (True, m1, f1)"
    using demo_use by blast
  have "\<not> mc_sni_search q" "\<not> mc_ip_search q" by (simp_all add: q_def demo_mitm_def)
  then have "\<exists>m' p' f'. mitm_check_cert demo_tls_env (\<lambda>_. True) (Some demo_site) m (Some (demo_mitm [])) demo_cert_factory =
      Inr (True, m', Some p', f')"
    using c(1) ch u p(2) by (simp add: mitm_check_cert_def Let_def spoof_cert_def q_def)
  then obtain m' p' f' where r: "mitm_check_cert demo_tls_env (\<lambda>_. True) (Some demo_site) m (Some (demo_mitm [])) demo_cert_factory =
      Inr (True, m', Some p', f')" by blast
  have "mc_ctx (demo_mitm []) = None" "sc_waiting (mc_com (demo_mitm []))" "\<not> sc_upgraded (mc_com (demo_mitm []))"
    by (simp_all add: demo_mitm_def demo_tls_def)
  then show ?thesis
    using self_signed_iff_check_fails [OF demo_cert_factory_ok(1) p(3) c(1) p(1,2) r] c(2,3) v r unfolding m_def by auto
qed

theorem failed_spoof_changes_nothing_witness:
  "use_cert_mitm (\<lambda>_. False) demo_site (demo_spoof False) (demo_mitm []) demo_cert_factory =
     Inr (False, demo_mitm [], demo_cert_factory\<lparr>fa_serial := 2\<rparr>)"
proof -
  have "\<exists>m' f'. use_cert_mitm (\<lambda>_. False) demo_site (demo_spoof False) (demo_mitm []) demo_cert_factory = Inr (False, m', f')"
    using fifo_get [OF demo_cert_factory_ok(3,4)] demo_cert_factory_ok(5)
    by (simp add: use_cert_mitm_def find_mitm_def spoof_def create_csr_from_def Let_def)
  then obtain m' f' where u: "use_cert_mitm (\<lambda>_. False) demo_site (demo_spoof False) (demo_mitm []) demo_cert_factory = Inr (False, m', f')"
    by blast
  from failed_spoof_changes_nothing [OF u demo_cert_factory_ok(3,4)] u show ?thesis by (simp add: demo_cert_factory_def)
qed

theorem certificate_is_made_once_witness:
  "\<exists>m1 f1 m3. use_cert_mitm (\<lambda>_. True) demo_site (demo_spoof True) (demo_mitm []) demo_cert_factory = Inr (True, m1, f1) \<and>
     use_cert_mitm (\<lambda>_. False) demo_site (demo_spoof True) (demo_mitm []) f1 = Inr (True, m3, f1) \<and> mc_cert m3 = mc_cert m1"
proof -
  obtain m1 f1 where u: "use_cert_mitm (\<lambda>_. True) demo_site (demo_spoof True) (demo_mitm []) demo_cert_factory = Inr (True, m1, f1)"
    using demo_use by blast
  from certificate_is_made_once [OF demo_cert_factory_ok(2-4) u] u show ?thesis by blast
qed

theorem store_key_collision_witness:
  "\<exists>m1 f1 m3 sp. use_cert_mitm (\<lambda>_. True) demo_other (demo_spoof False) (demo_mitm []) demo_cert_factory = Inr (True, m1, f1) \<and>
     use_cert_mitm (\<lambda>_. True) demo_site (demo_spoof True) (demo_mitm []) f1 = Inr (True, m3, f1) \<and>
     mc_cert m3 = Some (Spoofed sp) \<and> \<not> sp_self_signed sp \<and> sp_subject sp = [2]"
proof -
  obtain m1 f1 where u: "use_cert_mitm (\<lambda>_. True) demo_other (demo_spoof False) (demo_mitm []) demo_cert_factory = Inr (True, m1, f1)"
    using demo_use by blast
  have "\<not> so_self_signed (demo_spoof False)" "so_self_signed (demo_spoof True)" "so_sans (demo_spoof True) = so_sans (demo_spoof False)"
      "x_oneline demo_other = x_oneline demo_site @ lit ''+self_signed''" "get_sans demo_other = get_sans demo_site"
      "x_subject demo_other = [2]"
    by (simp_all add: demo_spoof_def demo_other_def demo_site_def get_sans_def)
  then show ?thesis
    using store_key_collision [OF demo_cert_factory_ok(2-5) _ u, of demo_site "demo_spoof True" "\<lambda>_. True" "demo_mitm []"] u
    by auto
qed

end
