(* ===== verification/Udpcom.thy ===== *)
theory Udpcom
  imports Sockinfo "HOL-Library.FSet" "HOL-Library.AList"
begin

text \<open>
  The datagram com: \<^verbatim>\<open>udpcom.hpp\<close>, \<^verbatim>\<open>udpcom.cpp\<close> and the address resolution of
  \<^verbatim>\<open>basecom.cpp\<close> it falls back to.

  All \<^verbatim>\<open>UDPCom\<close> objects share the table of datagram flows (\<^verbatim>\<open>DatagramCom\<close>) and the cache of
  connected sockets; both are part of one state \<open>udp_world\<close>. The kernel's receive queues of real
  sockets are in the state as well (\<open>w_rx\<close>): \<^verbatim>\<open>recv\<close> takes the first datagram and drops what does not
  fit; on an empty queue it fails or waits, as the socket and the flags say. Every other system call is
  recorded in \<open>w_calls\<close> and answered by \<open>ue_sys\<close>, which may depend on the whole history. The lock makes
  one step of each function that holds it; \<open>u_read\<close> and \<open>u_shutdown\<close> call such functions and erase from the
  polled set without the lock, and \<open>Receiver\<close> takes them apart where threads interleave.

  The table is keyed with 64-bit numbers; a virtual socket, a negative \<^verbatim>\<open>int\<close>, is looked up as
  \<^verbatim>\<open>(unsigned int)fd\<close>. The flow objects are held by the table alone and no null pointer is ever stored.
\<close>

section \<open>State\<close>

record datagram =
  dg_dst :: "byte list"
  dg_src :: "byte list"
  dg_left :: "int option"
  dg_reuse :: bool
  dg_cx :: "nat option"
  dg_rx :: "byte list list"

definition new_datagram :: datagram where
  "new_datagram = \<lparr>dg_dst = zero_storage, dg_src = zero_storage, dg_left = None, dg_reuse = False,
     dg_cx = None, dg_rx = replicate 5 []\<rparr>"

datatype cmsg = Cmsg int int "byte list"
datatype sock_item = Packet "byte list" "byte list" "cmsg list" | Sock_error

datatype sockopt = So_reuseaddr | So_broadcast | So_recvorig4 | So_recvorig6 | So_transparent4 |
  So_transparent6 | So_bindtodevice string

datatype syscall = Sys_socket int int int | Sys_setsockopt int sockopt | Sys_nonblock int |
  Sys_bind int "byte list" | Sys_connect int "byte list" | Sys_send int "byte list" |
  Sys_sendto int "byte list" u32 "byte list" | Sys_sendmsg int "byte list" "nat \<times> byte list" "byte list" |
  Sys_shutdown int | Sys_close int

record udp_world =
  w_recv :: "u64 \<rightharpoonup> datagram"
  w_virt :: "int fset"
  w_cache :: "(string \<times> int \<times> int) list"
  w_rx :: "int \<Rightarrow> sock_item list"
  w_calls :: "syscall list"

record udp_env =
  ue_sys :: "syscall list \<Rightarrow> syscall \<Rightarrow> int"
  ue_name :: "bool \<Rightarrow> int \<Rightarrow> byte list option"
  ue_junk :: string
  ue_inet :: inet_api
  ue_in_read :: "int \<Rightarrow> bool"
  ue_blocking :: bool

record UDPCom =
  uc_fd :: int
  uc_id :: u32
  uc_depleted :: bool
  uc_family :: nat
  uc_addr :: "byte list"
  uc_my_key :: "string option"
  uc_l3 :: nat
  uc_nonlocal_src :: bool
  uc_src_host :: string
  uc_src_port :: u16
  uc_nonlocal_dst :: bool
  uc_dst_resolved :: bool
  uc_dst_host :: string
  uc_dst_port :: u16

definition new_UDPCom :: "nat \<Rightarrow> UDPCom" where
  "new_UDPCom family = \<lparr>uc_fd = 0, uc_id = 0, uc_depleted = False, uc_family = family,
     uc_addr = zero_storage, uc_my_key = None, uc_l3 = AF_INET, uc_nonlocal_src = False,
     uc_src_host = [], uc_src_port = 0, uc_nonlocal_dst = False, uc_dst_resolved = False,
     uc_dst_host = [], uc_dst_port = 0\<rparr>"

definition sys :: "udp_env \<Rightarrow> syscall \<Rightarrow> udp_world \<Rightarrow> int \<times> udp_world" where
  "sys env c w = (ue_sys env (w_calls w) c, w\<lparr>w_calls := w_calls w @ [c]\<rparr>)"

definition sys_do :: "udp_env \<Rightarrow> syscall \<Rightarrow> udp_world \<Rightarrow> udp_world" where
  "sys_do env c w = snd (sys env c w)"

definition msg_peek :: "u32 \<Rightarrow> bool" where
  "msg_peek flags = bit flags 1"

definition msg_dontwait :: "u32 \<Rightarrow> bool" where
  "msg_dontwait flags = bit flags 6"

text \<open>Whether a socket was made non-blocking since its number was last closed.\<close>

definition nonblocking :: "udp_world \<Rightarrow> int \<Rightarrow> bool" where
  "nonblocking w fd \<longleftrightarrow> Sys_nonblock fd \<in> set (takeWhile (\<lambda>c. c \<noteq> Sys_close fd) (rev (w_calls w)))"

text \<open>On an empty queue \<^verbatim>\<open>recv\<close> fails for a non-blocking socket or with \<^verbatim>\<open>MSG_DONTWAIT\<close>, and otherwise
  waits: \<open>None\<close>.\<close>

definition sys_recv :: "int \<Rightarrow> nat \<Rightarrow> u32 \<Rightarrow> udp_world \<Rightarrow> (int \<times> byte list \<times> udp_world) option" where
  "sys_recv fd n flags w =
     (case w_rx w fd of
        [] \<Rightarrow> if nonblocking w fd \<or> msg_dontwait flags then Some (- 1, [], w) else None
      | Sock_error # q \<Rightarrow> Some (- 1, [], w\<lparr>w_rx := (w_rx w)(fd := q)\<rparr>)
      | Packet d _ _ # q \<Rightarrow>
          Some (int (min n (length d)), take n d, if msg_peek flags then w else w\<lparr>w_rx := (w_rx w)(fd := q)\<rparr>))"

definition vkey :: "int \<Rightarrow> u64" where
  "vkey fd = ucast (word_of_int fd :: u32)"

definition set_flow :: "u64 \<Rightarrow> datagram \<Rightarrow> udp_world \<Rightarrow> udp_world" where
  "set_flow k d w = w\<lparr>w_recv := (w_recv w)(k \<mapsto> d)\<rparr>"

section \<open>The early data of a flow\<close>

definition queue_bytes :: "datagram \<Rightarrow> nat" where
  "queue_bytes d = sum_list (map length (dg_rx d))"

definition datagram_empty :: "datagram \<Rightarrow> bool" where
  "datagram_empty d = (queue_bytes d = 0)"

fun put_slot :: "byte list \<Rightarrow> byte list list \<Rightarrow> byte list list option" where
  "put_slot bs [] = None"
| "put_slot bs (e # es) = (if e = [] then Some (bs # es) else map_option ((#) e) (put_slot bs es))"

definition enqueue :: "byte list \<Rightarrow> datagram \<Rightarrow> nat \<times> datagram" where
  "enqueue bs d =
     (case put_slot bs (dg_rx d) of
        Some q \<Rightarrow> (length bs, d\<lparr>dg_rx := q\<rparr>)
      | None \<Rightarrow> (0, d))"

text \<open>The first occupied slot gives at most \<open>n\<close> bytes; \<^verbatim>\<open>flush\<close> with zero empties it.\<close>

fun take_slot :: "nat \<Rightarrow> bool \<Rightarrow> byte list list \<Rightarrow> (byte list \<times> bool) \<times> byte list list" where
  "take_slot n keep [] = (([], False), [])"
| "take_slot n keep (e # es) =
     (if e = [] then let (r, q) = take_slot n keep es in (r, e # q)
      else let c = min n (length e)
           in ((take c e, length e \<le> c),
               (if keep then e else if c = 0 then [] else drop c e) # es))"

section \<open>Readiness\<close>

definition translate_socket :: "udp_world \<Rightarrow> int \<Rightarrow> int" where
  "translate_socket w vsock =
     (if 0 \<le> vsock then vsock
      else case w_recv w (vkey vsock) of
             Some d \<Rightarrow> (case dg_left d of Some fd \<Rightarrow> fd | None \<Rightarrow> vsock)
           | None \<Rightarrow> vsock)"

definition in_readset :: "udp_env \<Rightarrow> udp_world \<Rightarrow> int \<Rightarrow> bool" where
  "in_readset env w s =
     (if s < 0 then
        (case w_recv w (vkey s) of
           Some d \<Rightarrow>
             if 0 < queue_bytes d then True
             else (case dg_left d of Some fd \<Rightarrow> ue_in_read env fd | None \<Rightarrow> False)
         | None \<Rightarrow> False)
      else if 0 < s then ue_in_read env s
      else False)"

definition in_writeset :: "udp_world \<Rightarrow> int \<Rightarrow> bool" where
  "in_writeset w s = (w_recv w (vkey s) \<noteq> None \<or> 0 < s)"

definition in_exset :: "udp_world \<Rightarrow> int \<Rightarrow> bool" where
  "in_exset w s = False"

section \<open>Reading\<close>

text \<open>\<^verbatim>\<open>std::min<int>(_n, elem_size)\<close> takes a length of 2 GiB or more for a negative number, which
  \<^verbatim>\<open>memcpy\<close> then takes for a huge one.\<close>

definition erase_virt :: "int \<Rightarrow> udp_world \<Rightarrow> udp_world" where
  "erase_virt fd w = w\<lparr>w_virt := w_virt w |-| {|fd|}\<rparr>"

definition read_from_pool :: "int \<Rightarrow> nat \<Rightarrow> u32 \<Rightarrow> udp_world \<Rightarrow> (int \<times> byte list \<times> udp_world) result option" where
  "read_from_pool fd n flags w =
     (case w_recv w (vkey fd) of
        None \<Rightarrow> Some (ok (0, [], w))
      | Some d \<Rightarrow>
          if dg_left d \<noteq> None \<and> queue_bytes d = 0 then map_option ok (sys_recv (the (dg_left d)) n flags w)
          else if datagram_empty d then Some (ok (0, [], w))
          else if sint (of_nat n :: u32) < 0 then Some (raise Undefined_behaviour)
          else
            let ((got, whole), q) = take_slot (unat (of_nat n :: u32)) (msg_peek flags) (dg_rx d);
                d = d\<lparr>dg_rx := q\<rparr>;
                w = set_flow (vkey fd) d w;
                w = (if \<not> msg_peek flags \<and> whole then erase_virt fd w else w);
                w = (if 0 < queue_bytes d then w\<lparr>w_virt := finsert fd (w_virt w)\<rparr> else w)
            in Some (ok (int (length got), got, w)))"

text \<open>The result of a call that reads: \<open>None\<close> is a thread that waits in the kernel. Of \<^verbatim>\<open>UDPCom::read\<close> only
  the call of \<^verbatim>\<open>read_from_pool\<close> and the test hold the lock, each for itself; this is the call when nothing
  comes between.\<close>

definition u_read ::
    "udp_env \<Rightarrow> int \<Rightarrow> nat \<Rightarrow> u32 \<Rightarrow> UDPCom \<Rightarrow> udp_world \<Rightarrow> (int \<times> byte list \<times> UDPCom \<times> udp_world) result option" where
  "u_read env fd n flags u w =
     (if uc_id u \<noteq> 0 \<and> \<not> uc_depleted u then
        (case read_from_pool (sint (uc_id u)) n flags w of
           None \<Rightarrow> None
         | Some (Inl x) \<Rightarrow> Some (Inl x)
         | Some (Inr (r, got, w)) \<Rightarrow>
             if \<not> in_readset env w (sint (uc_id u))
             then Some (ok (r, got, u\<lparr>uc_depleted := True\<rparr>, erase_virt (sint (uc_id u)) w))
             else Some (ok (r, got, u, w)))
      else if fd < 0 then
        (case read_from_pool fd n flags w of
           None \<Rightarrow> None
         | Some (Inl x) \<Rightarrow> Some (Inl x)
         | Some (Inr (r, got, w)) \<Rightarrow> Some (ok (r, got, u, w)))
      else (case sys_recv fd n flags w of None \<Rightarrow> None | Some (r, got, w) \<Rightarrow> Some (ok (r, got, u, w))))"

definition u_peek ::
    "udp_env \<Rightarrow> int \<Rightarrow> nat \<Rightarrow> u32 \<Rightarrow> UDPCom \<Rightarrow> udp_world \<Rightarrow> (int \<times> byte list \<times> UDPCom \<times> udp_world) result option" where
  "u_peek env fd n flags = u_read env fd n (take_bit 8 flags OR 2)"

section \<open>Writing\<close>

text \<open>The families the code tests; \<^verbatim>\<open>AF_UNSPEC\<close> is 0.\<close>

definition transparent :: "udp_env \<Rightarrow> int \<Rightarrow> nat \<Rightarrow> udp_world \<Rightarrow> udp_world" where
  "transparent env fd family w =
     (let w = (if family = AF_INET \<or> family = AF_INET6 \<or> family = 0
               then sys_do env (Sys_setsockopt fd So_transparent4) w else w)
      in if family = AF_INET6 then sys_do env (Sys_setsockopt fd So_transparent6) w else w)"

text \<open>The message of a flow without a socket of its own: its destination name (rebuilt for a mapped IPv4
  source) and the source address put into the packet information.\<close>

definition pool_message :: "udp_env \<Rightarrow> datagram \<Rightarrow> byte list \<times> nat \<times> byte list" where
  "pool_message env d =
     (if ss_family (dg_dst d) = AF_INET6 then (dg_src d, AF_INET6, sin6_addr (dg_dst d))
      else
        let (_, ip_src, _) = ss_address_unpack (ue_inet env) (dg_src d);
            name = (if ss_family (dg_src d) = AF_INET6 then
                      poke 2 (sin6_port (dg_src d))
                        (case pton4 (ue_inet env) ip_src of
                           None \<Rightarrow> set_family AF_INET zero_storage
                         | Some a \<Rightarrow> poke 4 a (set_family AF_INET zero_storage))
                    else dg_src d)
        in (name, AF_INET, sin_addr (dg_dst d)))"

definition write_to_pool :: "udp_env \<Rightarrow> int \<Rightarrow> byte list \<Rightarrow> udp_world \<Rightarrow> int \<times> udp_world" where
  "write_to_pool env fd bs w =
     (case w_recv w (vkey fd) of
        None \<Rightarrow> (- 1, w)
      | Some d \<Rightarrow>
          (case dg_left d of
             Some left \<Rightarrow> sys env (Sys_send left bs) w
           | None \<Rightarrow>
               let (name, pktinfo) = pool_message env d;
                   (da, w) = sys env (Sys_socket (int (ss_family (dg_dst d))) 2 0) w;
                   (fam, ss_d) = ss_address_remap (ue_inet env) (dg_dst d) zero_storage;
                   (_, ss_s) = ss_address_remap (ue_inet env) (dg_src d) zero_storage;
                   w = transparent env da (ss_family ss_d) w;
                   w = sys_do env (Sys_setsockopt da So_reuseaddr) w;
                   w = sys_do env (Sys_setsockopt da So_broadcast) w;
                   w = sys_do env (Sys_bind da ss_d) w;
                   w = sys_do env (Sys_connect da ss_s) w;
                   (l, w) = sys env (Sys_sendmsg da name pktinfo bs) w
               in (l, sys_do env (Sys_close da) w)))"

definition u_write :: "udp_env \<Rightarrow> int \<Rightarrow> byte list \<Rightarrow> u32 \<Rightarrow> UDPCom \<Rightarrow> udp_world \<Rightarrow> int \<times> udp_world" where
  "u_write env fd bs flags u w =
     (if bs = [] then (0, w)
      else if fd < 0 then write_to_pool env fd bs w
      else sys env (Sys_sendto fd bs flags (uc_addr u)) w)"

section \<open>Addresses\<close>

definition decimal_digit :: "nat \<Rightarrow> char" where
  "decimal_digit n = char_of (48 + n)"

fun decimal :: "nat \<Rightarrow> string" where
  "decimal n = (if n < 10 then [decimal_digit n] else decimal (n div 10) @ [decimal_digit (n mod 10)])"

declare decimal.simps [simp del]

text \<open>\<^verbatim>\<open>baseCom::resolve_socket\<close>: the name the kernel knows for a socket. For a family it does not
  know the host is what the local array held.\<close>

definition base_resolve_socket ::
    "udp_env \<Rightarrow> bool \<Rightarrow> int \<Rightarrow> UDPCom \<Rightarrow> (string \<times> string) option \<times> UDPCom" where
  "base_resolve_socket env source s u =
     (case ue_name env source s of
        None \<Rightarrow> (None, u)
      | Some ss \<Rightarrow>
          let (host, port, u) =
                (if ss_family ss = AF_INET then
                   (ntop4 (ue_inet env) (sin_addr ss), of_be (sin_port ss) :: u16, u\<lparr>uc_l3 := AF_INET\<rparr>)
                 else if ss_family ss = AF_INET6 then
                   (ntop6 (ue_inet env) (sin6_addr ss), of_be (sin6_port ss), u\<lparr>uc_l3 := AF_INET6\<rparr>)
                 else (ue_junk env, 0, u));
              (host, u) = (case strip_mapped host of
                             Some h \<Rightarrow> (h, u\<lparr>uc_l3 := AF_INET\<rparr>) | None \<Rightarrow> (host, u))
          in (Some (host, decimal (unat port)), u))"

text \<open>What \<^verbatim>\<open>UDPCom::resolve_socket\<close> makes of an address of the table; \<open>None\<close> for another family, when
  host and port stay as they were.\<close>

definition flow_address :: "udp_env \<Rightarrow> byte list \<Rightarrow> (string \<times> u16 \<times> nat) option" where
  "flow_address env ss =
     (if ss_family ss = AF_INET \<or> ss_family ss = 0 then
        Some (ntop4 (ue_inet env) (sin_addr ss), of_be (sin_port ss), AF_INET)
      else if ss_family ss = AF_INET6 then
        let b = ntop6 (ue_inet env) (sin6_addr ss)
        in (case strip_mapped b of
              Some h \<Rightarrow> Some (h, of_be (sin6_port ss), AF_INET)
            | None \<Rightarrow> Some (b, of_be (sin6_port ss), AF_INET6))
      else None)"

definition u_resolve_socket ::
    "udp_env \<Rightarrow> bool \<Rightarrow> int \<Rightarrow> string \<times> string \<Rightarrow> UDPCom \<Rightarrow> udp_world \<Rightarrow> bool \<times> (string \<times> string) \<times> UDPCom" where
  "u_resolve_socket env source s target u w =
     (case w_recv w (vkey s) of
        Some d \<Rightarrow>
          (case flow_address env (if source then dg_src d else dg_dst d) of
             Some (h, p, l3) \<Rightarrow> (True, (h, decimal (unat p)), u\<lparr>uc_l3 := l3\<rparr>)
           | None \<Rightarrow> (True, target, u))
      | None \<Rightarrow>
          (case base_resolve_socket env source s u of
             (Some t, u) \<Rightarrow> (True, t, u)
           | (None, u) \<Rightarrow> (False, target, u)))"

definition resolve_nonlocal_socket :: "udp_env \<Rightarrow> int \<Rightarrow> UDPCom \<Rightarrow> udp_world \<Rightarrow> bool \<times> UDPCom" where
  "resolve_nonlocal_socket env sock u w =
     (case w_recv w (vkey sock) of
        Some d \<Rightarrow>
          let ss = dg_dst d;
              u = (if ss_family ss = AF_INET \<or> ss_family ss = 0 then
                     u\<lparr>uc_dst_host := ntop4 (ue_inet env) (sin_addr ss),
                       uc_dst_port := of_be (sin_port ss), uc_l3 := AF_INET\<rparr>
                   else if ss_family ss = AF_INET6 then
                     let b = ntop6 (ue_inet env) (sin6_addr ss);
                         (h, u) = (case strip_mapped b of
                                     Some h \<Rightarrow> (h, u\<lparr>uc_l3 := AF_INET\<rparr>) | None \<Rightarrow> (b, u))
                     in u\<lparr>uc_dst_host := h, uc_dst_port := of_be (sin6_port ss)\<rparr>
                   else u)
          in (True, u\<lparr>uc_dst_resolved := True\<rparr>)
      | None \<Rightarrow>
          (False, if 0 < sock then (let (_, _, u) = u_resolve_socket env True sock ([], []) u w in u) else u))"

section \<open>Binding and connecting\<close>

definition u_bind :: "udp_env \<Rightarrow> u16 \<Rightarrow> UDPCom \<Rightarrow> udp_world \<Rightarrow> int \<times> udp_world" where
  "u_bind env port u w =
     (let fam = uc_family u;
          sa = set_family fam (if fam = AF_INET \<or> fam = AF_INET6 then poke 2 (be_bytes 2 port) zero_storage
                               else zero_storage);
          (s, w) = sys env (Sys_socket (int fam) 2 17) w
      in if s = - 1 then (- 129, w)
         else
           let w = sys_do env (Sys_setsockopt s So_reuseaddr) w;
               w = sys_do env (Sys_setsockopt s So_broadcast) w;
               v4 = (fam = AF_INET \<or> fam = AF_INET6 \<or> fam = 0);
               w = (if v4 \<and> uc_nonlocal_dst u then sys_do env (Sys_setsockopt s So_transparent4) w else w);
               (r4, w) = (if v4 then sys env (Sys_setsockopt s So_recvorig4) w else (0, w))
           in if r4 \<noteq> 0 then (- 131, sys_do env (Sys_close s) w)
              else
                let v6 = (fam = AF_INET6);
                    w = (if v6 \<and> uc_nonlocal_dst u then sys_do env (Sys_setsockopt s So_transparent6) w else w);
                    (r6, w) = (if v6 then sys env (Sys_setsockopt s So_recvorig6) w else (0, w))
                in if r6 \<noteq> 0 then (- 132, sys_do env (Sys_close s) w)
                   else
                     let (rb, w) = sys env (Sys_bind s sa) w
                     in if rb = - 1 then (- 130, sys_do env (Sys_close s) w) else (s, w))"

text \<open>\<^verbatim>\<open>SockOps::socket_create\<close> and \<^verbatim>\<open>SockOps::socket_transparent\<close>, which throw and leave the
  socket open.\<close>

definition socket_create :: "udp_env \<Rightarrow> int \<Rightarrow> int \<Rightarrow> int \<Rightarrow> udp_world \<Rightarrow> int result \<times> udp_world" where
  "socket_create env family l4proto protocol w =
     (let (fd, w) = sys env (Sys_socket family l4proto protocol) w
      in if fd < 0 then (raise Socket_info_error, w)
         else let (r, w) = sys env (Sys_setsockopt fd So_reuseaddr) w
         in if r \<noteq> 0 then (raise Socket_info_error, w)
         else let (r, w) = sys env (Sys_setsockopt fd So_recvorig4) w
         in if r \<noteq> 0 then (raise Socket_info_error, w)
         else let (r, w) = sys env (Sys_setsockopt fd So_broadcast) w
         in if r \<noteq> 0 then (raise Socket_info_error, w)
         else let (r, w) = sys env (Sys_nonblock fd) w
         in if r < 0 then (raise Socket_info_error, w) else (ok fd, w))"

definition socket_transparent :: "udp_env \<Rightarrow> int \<Rightarrow> nat \<Rightarrow> udp_world \<Rightarrow> unit result \<times> udp_world" where
  "socket_transparent env fd family w =
     (if family = AF_INET \<or> family = AF_INET6 then
        let (r, w) = sys env (Sys_setsockopt fd (if family = AF_INET then So_transparent4 else So_transparent6)) w
        in (if r \<noteq> 0 then raise Socket_info_error else ok (), w)
      else (raise Socket_info_error, w))"

definition so_transparent :: "udp_env \<Rightarrow> int \<Rightarrow> UDPCom \<Rightarrow> udp_world \<Rightarrow> int \<times> udp_world" where
  "so_transparent env fd u w =
     sys env (Sys_setsockopt fd (if uc_l3 u = AF_INET6 then So_transparent6 else So_transparent4)) w"

text \<open>\<^verbatim>\<open>namesocket\<close> returns \<^verbatim>\<open>errno\<close>, which is not zero after a failed \<^verbatim>\<open>bind\<close>; the model returns
  what \<^verbatim>\<open>bind\<close> returned.\<close>

definition namesocket :: "udp_env \<Rightarrow> int \<Rightarrow> string \<Rightarrow> u16 \<Rightarrow> nat \<Rightarrow> udp_world \<Rightarrow> int \<times> udp_world" where
  "namesocket env fd addr port family w =
     (let sa = set_family family zero_storage;
          put = (\<lambda>pos a. poke 2 (be_bytes 2 port) (case a of None \<Rightarrow> sa | Some a \<Rightarrow> poke pos a sa));
          (sa, w) =
            (if family = AF_INET \<or> family = 0 then
               (put 4 (if family = AF_INET then pton4 (ue_inet env) addr else None),
                sys_do env (Sys_setsockopt fd So_transparent4) w)
             else if family = AF_INET6 then
               (put 8 (pton6 (ue_inet env) addr), sys_do env (Sys_setsockopt fd So_transparent6) w)
             else (sa, w))
      in sys env (Sys_bind fd sa) w)"

definition gen_cache_key :: "string \<Rightarrow> string \<Rightarrow> UDPCom \<Rightarrow> string option" where
  "gen_cache_key host port u =
     (if uc_nonlocal_src u
      then Some (uc_src_host u @ '':'' @ decimal (unat (uc_src_port u)) @ ''-'' @ host @ '':'' @ port)
      else None)"

definition gen_cache_key_fd :: "udp_env \<Rightarrow> int \<Rightarrow> UDPCom \<Rightarrow> udp_world \<Rightarrow> string option \<times> UDPCom" where
  "gen_cache_key_fd env fd u w =
     (let (r1, (sip, sport), u) = u_resolve_socket env False fd ([], []) u w
      in if \<not> r1 then (None, u)
         else
           let (r2, (dip, dport), u) = u_resolve_socket env True fd ([], []) u w
           in (if r2 then Some (sip @ '':'' @ sport @ ''-'' @ dip @ '':'' @ dport) else None, u))"

definition use_cached_connection :: "string \<Rightarrow> UDPCom \<Rightarrow> udp_world \<Rightarrow> int option \<times> UDPCom \<times> udp_world" where
  "use_cached_connection key u w =
     (case map_of (w_cache w) key of
        Some (fd, refs) \<Rightarrow>
          (Some fd, u\<lparr>uc_my_key := Some key\<rparr>, w\<lparr>w_cache := AList.update key (fd, refs + 1) (w_cache w)\<rparr>)
      | None \<Rightarrow> (None, u, w))"

record addrinfo =
  ai_fam :: int
  ai_type :: int
  ai_protocol :: int
  ai_addr :: "byte list"

text \<open>One round of the loop over the addresses up to the point where a socket is there: \<open>None\<close> when the
  round ends with \<^verbatim>\<open>continue\<close>; the flag tells whether it came from the cache.\<close>

definition connect_socket ::
    "udp_env \<Rightarrow> string \<Rightarrow> string \<Rightarrow> addrinfo \<Rightarrow> UDPCom \<Rightarrow> udp_world \<Rightarrow>
     (int \<times> bool \<times> string) option \<times> UDPCom \<times> udp_world" where
  "connect_socket env host port rp u w =
     (let create = socket_create env (ai_fam rp) (ai_type rp) (ai_protocol rp)
      in if uc_nonlocal_src u then
           let key = (case gen_cache_key host port u of Some k \<Rightarrow> k | None \<Rightarrow> [])
           in case use_cached_connection key u w of
                (Some fd, u, w) \<Rightarrow> (Some (fd, True, key), u, w)
              | (None, u, w) \<Rightarrow>
                  (case create w of
                     (Inl _, w) \<Rightarrow> (None, u, w)
                   | (Inr fd, w) \<Rightarrow>
                       let (t, w) = so_transparent env fd u w
                       in if t \<noteq> 0 then (None, u, sys_do env (Sys_close fd) w)
                          else
                            let (b, w) = namesocket env fd (uc_src_host u) (uc_src_port u) (uc_l3 u) w
                            in if b \<noteq> 0 then (None, u, sys_do env (Sys_close fd) w)
                               else (Some (fd, False, key), u, w))
         else
           (case create w of
              (Inl _, w) \<Rightarrow> (None, u, w)
            | (Inr fd, w) \<Rightarrow> (Some (fd, False, []), u, w)))"

fun connect_loop ::
    "udp_env \<Rightarrow> string \<Rightarrow> string \<Rightarrow> addrinfo list \<Rightarrow> UDPCom \<Rightarrow> udp_world \<Rightarrow> int option \<times> UDPCom \<times> udp_world" where
  "connect_loop env host port [] u w = (None, u, w)"
| "connect_loop env host port (rp # rps) u w =
     (case connect_socket env host port rp u w of
        (None, u, w) \<Rightarrow> connect_loop env host port rps u w
      | (Some (fd, from_cache, key), u, w) \<Rightarrow>
          let u = u\<lparr>uc_addr := poke 0 (ai_addr rp) (uc_addr u)\<rparr>;
              (con, w) = (if \<not> from_cache \<and> uc_l3 u \<noteq> AF_INET6
                          then sys env (Sys_connect fd (take 16 (uc_addr u))) w else (0, w))
          in if con \<noteq> 0 then connect_loop env host port rps u (sys_do env (Sys_close fd) w)
             else
               let (u, w) = (if from_cache then (u, w)
                             else (u\<lparr>uc_my_key := Some key\<rparr>, w\<lparr>w_cache := AList.update key (fd, 1) (w_cache w)\<rparr>));
                   w = (if ue_blocking env then w else sys_do env (Sys_nonblock fd) w)
               in (Some fd, u, w))"

text \<open>\<open>addrs\<close> is what \<^verbatim>\<open>getaddrinfo\<close> gives, \<open>None\<close> when it fails.\<close>

definition u_connect ::
    "udp_env \<Rightarrow> addrinfo list option \<Rightarrow> string \<Rightarrow> string \<Rightarrow> UDPCom \<Rightarrow> udp_world \<Rightarrow> int \<times> UDPCom \<times> udp_world" where
  "u_connect env addrs host port u w =
     (case addrs of
        None \<Rightarrow> (- 2, u, w)
      | Some rps \<Rightarrow>
          (case connect_loop env host port rps u w of
             (None, u, w) \<Rightarrow> (- 2, u, w)
           | (Some fd, u, w) \<Rightarrow> (fd, u\<lparr>uc_fd := fd\<rparr>, w)))"

section \<open>Closing\<close>

definition kill_socket :: "udp_env \<Rightarrow> int \<Rightarrow> udp_world \<Rightarrow> int \<times> udp_world" where
  "kill_socket env fd w =
     (let (s, w) = sys env (Sys_shutdown fd) w; (c, w) = sys env (Sys_close fd) w
      in (if c < 0 then c else if s < 0 then s else 0, w))"

definition remove_datagram_entry :: "udp_env \<Rightarrow> int \<Rightarrow> udp_world \<Rightarrow> nat \<times> udp_world" where
  "remove_datagram_entry env fd w =
     (case w_recv w (vkey fd) of
        None \<Rightarrow> (0, w)
      | Some d \<Rightarrow>
          let w = (if \<not> dg_reuse d then
                     (case dg_left d of
                        Some left \<Rightarrow> if 0 < left then snd (kill_socket env left w) else w
                      | None \<Rightarrow> w)
                   else w)
          in (1, w\<lparr>w_recv := (w_recv w)(vkey fd := None)\<rparr>))"

definition kill_and_deref_from_connnect :: "udp_env \<Rightarrow> string \<Rightarrow> udp_world \<Rightarrow> nat \<times> udp_world" where
  "kill_and_deref_from_connnect env key w =
     (case map_of (w_cache w) key of
        None \<Rightarrow> (0, w)
      | Some (fd, refs) \<Rightarrow>
          if refs \<le> 1 then
            let w = snd (kill_socket env fd w) in (1, w\<lparr>w_cache := AList.delete key (w_cache w)\<rparr>)
          else (0, w\<lparr>w_cache := AList.update key (fd, refs - 1) (w_cache w)\<rparr>))"

definition shutdown_real :: "udp_env \<Rightarrow> int \<Rightarrow> UDPCom \<Rightarrow> udp_world \<Rightarrow> UDPCom \<times> udp_world" where
  "shutdown_real env fd u w =
     (let (key, u) = (if w_cache w = [] then (None, u)
                      else case uc_my_key u of
                             Some k \<Rightarrow> (Some k, u)
                           | None \<Rightarrow> gen_cache_key_fd env fd u w);
          (killed, w) = (case key of
                           Some k \<Rightarrow> kill_and_deref_from_connnect env k w
                         | None \<Rightarrow> (0, w))
      in (u, if killed = 0 then snd (kill_socket env fd w) else w))"

definition shutdown_virtual :: "udp_env \<Rightarrow> int \<Rightarrow> udp_world \<Rightarrow> udp_world" where
  "shutdown_virtual env fd w = snd (remove_datagram_entry env fd (erase_virt fd w))"

definition u_shutdown :: "udp_env \<Rightarrow> int \<Rightarrow> UDPCom \<Rightarrow> udp_world \<Rightarrow> UDPCom \<times> udp_world" where
  "u_shutdown env fd u w =
     (let (u, w) = (if 0 < fd then shutdown_real env fd u w else (u, shutdown_virtual env fd w))
      in if uc_id u \<noteq> 0 then (u, shutdown_virtual env (sint (uc_id u)) w) else (u, w))"

section \<open>Properties of the com\<close>

lemma bytes_concat: "queue_bytes d = length (concat (dg_rx d))"
  by (simp add: queue_bytes_def length_concat)

definition slots :: "byte list list \<Rightarrow> nat \<Rightarrow> byte list list" where
  "slots ds m = ds @ replicate m []"

lemma put_slot_next: "[] \<notin> set ds \<Longrightarrow> put_slot d (slots ds (Suc m)) = Some (slots (ds @ [d]) m)"
  by (induction ds) (auto simp: slots_def)

lemma take_slot_next:
  "d \<noteq> [] \<Longrightarrow> length d \<le> n \<Longrightarrow>
   take_slot n False (replicate j [] @ d # q) = ((d, True), replicate (Suc j) [] @ q)"
  by (induction j) (auto simp: Let_def split: prod.splits)

lemma vkey_sint [simp]: "vkey (sint (key :: u32)) = ucast key"
  by (simp add: vkey_def)

lemma small_length: "n < 2 ^ 31 \<Longrightarrow> \<not> sint (of_nat n :: u32) < 0" "n < 2 ^ 31 \<Longrightarrow> unat (of_nat n :: u32) = n"
proof -
  assume "n < 2 ^ 31"
  then have "\<not> bit n 31" by (simp add: bit_iff_odd)
  then have "\<not> bit (of_nat n :: u32) 31" by (simp add: bit_of_nat_iff)
  then show "\<not> sint (of_nat n :: u32) < 0" by (simp add: sint_uint signed_take_bit_negative_iff bit_uint_iff)
next
  assume "n < 2 ^ 31"
  then show "unat (of_nat n :: u32) = n" by (simp add: unat_of_nat)
qed

lemma queue_bytes_slots: "dg_rx d = replicate j [] @ ds @ replicate m [] \<Longrightarrow> queue_bytes d = length (concat ds)"
  by (simp add: bytes_concat)

lemma read_first_slot:
  fixes key :: u32
  assumes "w_recv w (ucast key) = Some d" and "dg_rx d = replicate j [] @ b # ds @ replicate m []"
    and "b \<noteq> []" and "length b \<le> n" and "n < 2 ^ 31"
  shows "\<exists>v. read_from_pool (sint key) n 0 w = Some (ok (int (length b), b,
     w\<lparr>w_recv := (w_recv w)(ucast key \<mapsto> d\<lparr>dg_rx := replicate (Suc j) [] @ ds @ replicate m []\<rparr>), w_virt := v\<rparr>))"
proof -
  have "0 < queue_bytes d" using assms(2,3) by (simp add: bytes_concat)
  moreover note n = small_length [OF assms(5)]
  ultimately show ?thesis
    using assms(1-4) take_slot_next [of b n j "ds @ replicate m []"]
    by (auto simp: read_from_pool_def datagram_empty_def n msg_peek_def set_flow_def erase_virt_def Let_def)
qed

fun reads :: "udp_env \<Rightarrow> int \<Rightarrow> nat \<Rightarrow> nat \<Rightarrow> UDPCom \<Rightarrow> udp_world \<Rightarrow> (byte list list \<times> UDPCom \<times> udp_world) result option" where
  "reads env fd n 0 u w = Some (ok ([], u, w))"
| "reads env fd n (Suc k) u w =
     (case u_read env fd n 0 u w of
        None \<Rightarrow> None
      | Some (Inl x) \<Rightarrow> Some (Inl x)
      | Some (Inr (_, got, u, w)) \<Rightarrow>
          (case reads env fd n k u w of
             None \<Rightarrow> None
           | Some (Inl x) \<Rightarrow> Some (Inl x)
           | Some (Inr (gs, u, w)) \<Rightarrow> Some (ok (got # gs, u, w))))"

lemma reads_slots:
  fixes key :: u32
  assumes "w_recv w (ucast key) = Some d" and "dg_rx d = replicate j [] @ ds @ replicate m []"
    and "[] \<notin> set ds" and "\<forall>b \<in> set ds. length b \<le> n" and "n < 2 ^ 31"
    and "uc_id u = key" and "key \<noteq> 0" and "\<not> uc_depleted u" and "sint key < 0" and "dg_left d = Some left"
  shows "\<exists>u' w'. reads env fd n (length ds) u w = Some (ok (ds, u', w')) \<and>
     w_recv w' (ucast key) = Some (d\<lparr>dg_rx := replicate (j + length ds) [] @ replicate m []\<rparr>) \<and>
     w_rx w' = w_rx w \<and> (ds \<noteq> [] \<longrightarrow> uc_depleted u' = (\<not> ue_in_read env left))"
  using assms
proof (induction ds arbitrary: w d j u)
  case Nil
  then show ?case by (cases d) simp
next
  case (Cons b ds)
  let ?d = "d\<lparr>dg_rx := replicate (Suc j) [] @ ds @ replicate m []\<rparr>"
  obtain v where r: "read_from_pool (sint key) n 0 w =
      Some (ok (int (length b), b, w\<lparr>w_recv := (w_recv w)(ucast key \<mapsto> ?d), w_virt := v\<rparr>))"
    using read_first_slot [of w key d j b ds m n] Cons.prems(1-5) by auto
  let ?w = "w\<lparr>w_recv := (w_recv w)(ucast key \<mapsto> ?d), w_virt := v\<rparr>"
  have q: "queue_bytes ?d = length (concat ds)" by (rule queue_bytes_slots [of _ "Suc j" ds m]) simp
  show ?case
  proof (cases ds)
    case Nil
    then show ?thesis
      using Cons.prems r q by (auto simp: u_read_def in_readset_def erase_virt_def)
  next
    case (Cons c cs)
    then have "0 < queue_bytes ?d" using q Cons.prems(3) by auto
    then have 1: "u_read env fd n 0 u w = Some (ok (int (length b), b, u, ?w))"
      using Cons.prems r by (simp add: u_read_def in_readset_def)
    obtain u' w' where 2: "reads env fd n (length ds) u ?w = Some (ok (ds, u', w'))"
      "w_recv w' (ucast key) = Some (?d\<lparr>dg_rx := replicate (Suc j + length ds) [] @ replicate m []\<rparr>)"
      "w_rx w' = w_rx ?w" "ds \<noteq> [] \<longrightarrow> uc_depleted u' = (\<not> ue_in_read env left)"
      using Cons.IH [of ?w ?d "Suc j" u] Cons.prems by auto
    then show ?thesis using 1 Cons by auto
  qed
qed

lemma key_inj: "(ucast (a :: u32) :: u64) = ucast b \<longleftrightarrow> a = b"
proof
  assume e: "(ucast a :: u64) = ucast b"
  show "a = b"
  proof (rule bit_word_eqI)
    fix n
    assume "n < LENGTH(32)"
    then show "bit a n = bit b n"
      using arg_cong [OF e, of "\<lambda>x. bit x n"] by (simp add: bit_ucast_iff)
  qed
qed simp

lemma sint_key_inj: "sint (a :: u32) = sint b \<longleftrightarrow> a = b"
  by (auto dest: arg_cong [of _ _ "word_of_int :: int \<Rightarrow> u32"])

definition int_range :: "int \<Rightarrow> bool" where
  "int_range fd \<longleftrightarrow> - (2 ^ 31) \<le> fd \<and> fd < 2 ^ 31"

lemma int_rangeD: "int_range fd \<Longrightarrow> sint (word_of_int fd :: u32) = fd"
  by (simp add: int_range_def signed_of_int signed_take_bit_int_eq_self)

text \<open>A flow with unread early data is in the set that is polled.\<close>

definition polled :: "u32 \<Rightarrow> udp_world \<Rightarrow> bool" where
  "polled key w \<longleftrightarrow> (\<forall>d. sint key < 0 \<longrightarrow> w_recv w (ucast key) = Some d \<longrightarrow> 0 < queue_bytes d \<longrightarrow>
     sint key |\<in>| w_virt w)"

lemma polled_update:
  fixes key k :: u32
  assumes "polled key w" and "w_recv w' = (w_recv w)(ucast k := e)"
    and "w_virt w |-| {|sint k|} |\<subseteq>| w_virt w'"
    and "\<And>d. e = Some d \<Longrightarrow> 0 < queue_bytes d \<Longrightarrow> sint k |\<in>| w_virt w'"
  shows "polled key w'"
  unfolding polled_def
proof (intro allI impI)
  fix d
  assume d: "sint key < 0" "w_recv w' (ucast key) = Some d" "0 < queue_bytes d"
  show "sint key |\<in>| w_virt w'"
  proof (cases "k = key")
    case True
    then show ?thesis using d assms(2,4) by simp
  next
    case False
    then have "w_recv w (ucast key) = Some d" using d assms(2) by (simp add: key_inj)
    then have "sint key |\<in>| w_virt w" using assms(1) d by (auto simp: polled_def)
    then have "sint key |\<in>| w_virt w |-| {|sint k|}" using False by (simp add: sint_key_inj)
    then show ?thesis by (rule fsubsetD [OF assms(3)])
  qed
qed

lemma polled_cong: "polled key w \<Longrightarrow> w_recv w' = w_recv w \<Longrightarrow> w_virt w' = w_virt w \<Longrightarrow> polled key w'"
  by (simp add: polled_def)

lemma polled_recv: "sys_recv fd n flags w = Some (r, g, w') \<Longrightarrow> polled key w \<Longrightarrow> polled key w'"
  by (erule polled_cong) (auto simp: sys_recv_def split: list.splits sock_item.splits if_splits)

lemma polled_read_from_pool:
  assumes "read_from_pool fd n flags w = Some (ok (r, g, w'))" "int_range fd" "polled key w"
  shows "polled key w'"
proof (cases "w_recv w (vkey fd)")
  case None
  then show ?thesis using assms by (simp add: read_from_pool_def)
next
  case (Some d)
  let ?k = "word_of_int fd :: u32"
  note fd = int_rangeD [OF assms(2)]
  show ?thesis
  proof (cases "dg_left d \<noteq> None \<and> queue_bytes d = 0 \<or> datagram_empty d")
    case True
    then have "sys_recv (the (dg_left d)) n flags w = Some (r, g, w') \<or> w' = w"
      using assms(1) Some by (auto simp: read_from_pool_def split: if_splits)
    then show ?thesis using polled_recv assms(3) by blast
  next
    case False
    obtain got whole q where t: "take_slot (unat (of_nat n :: u32)) (msg_peek flags) (dg_rx d) = ((got, whole), q)"
      by (metis surj_pair)
    let ?d = "d\<lparr>dg_rx := q\<rparr>"
    have "w_recv w' = (w_recv w)(ucast ?k := Some ?d)"
      "w_virt w |-| {|fd|} |\<subseteq>| w_virt w'" "0 < queue_bytes ?d \<Longrightarrow> fd |\<in>| w_virt w'"
      using assms(1) Some False
      by (auto simp: read_from_pool_def t set_flow_def vkey_def erase_virt_def Let_def split: if_splits)
    then show ?thesis using polled_update [OF assms(3), of w' ?k "Some ?d"] fd by auto
  qed
qed

lemma polled_forget:
  fixes key k :: u32
  assumes "polled key w" "\<not> in_readset env w (sint k)"
  shows "polled key (erase_virt (sint k) w)"
proof -
  have "\<not> 0 < queue_bytes d" if "w_recv w (ucast k) = Some d" "sint k < 0" for d
    using assms(2) that by (auto simp: in_readset_def split: if_splits)
  then show ?thesis
    using assms(1) by (auto simp: polled_def erase_virt_def sint_key_inj)
qed

lemma polled_u_read:
  assumes "u_read env fd n flags u w = Some (ok (r, g, u', w'))" "int_range fd" "polled key w"
  shows "polled key w'"
proof (cases "uc_id u \<noteq> 0 \<and> \<not> uc_depleted u")
  case True
  have range: "int_range (sint (uc_id u))"
    using sint_lt [of "uc_id u"] sint_ge [of "uc_id u"] by (simp add: int_range_def)
  from True assms(1) obtain w1 where w1: "read_from_pool (sint (uc_id u)) n flags w = Some (ok (r, g, w1))"
    "w' = (if in_readset env w1 (sint (uc_id u)) then w1 else erase_virt (sint (uc_id u)) w1)"
    by (auto simp: u_read_def split: option.splits sum.splits prod.splits if_splits)
  then show ?thesis
    using polled_read_from_pool [OF w1(1) range assms(3)] polled_forget by auto
next
  case False
  then show ?thesis
    using assms polled_read_from_pool [of fd n flags w r g w'] polled_recv [of fd n flags w r g w']
    by (auto simp: u_read_def split: option.splits sum.splits prod.splits if_splits)
qed

lemma sys_frame [simp]:
  "w_recv (snd (sys env c w)) = w_recv w" "w_virt (snd (sys env c w)) = w_virt w"
  "w_recv (sys_do env c w) = w_recv w" "w_virt (sys_do env c w) = w_virt w"
  by (simp_all add: sys_def sys_do_def)

lemma kill_socket_frame [simp]:
  "w_recv (snd (kill_socket env fd w)) = w_recv w" "w_virt (snd (kill_socket env fd w)) = w_virt w"
  by (simp_all add: kill_socket_def sys_def)

lemma polled_remove:
  assumes "polled key w" "int_range fd"
  shows "polled key (snd (remove_datagram_entry env fd w))"
proof -
  have "w_recv (snd (remove_datagram_entry env fd w)) = (w_recv w)(ucast (word_of_int fd :: u32) := None)"
    "w_virt (snd (remove_datagram_entry env fd w)) = w_virt w"
    by (auto simp: remove_datagram_entry_def vkey_def Let_def split: option.split)
  then show ?thesis
    using polled_update [OF assms(1), of _ "word_of_int fd" None] int_rangeD [OF assms(2)] by auto
qed

lemma deref_frame:
  "w_recv (snd (kill_and_deref_from_connnect env key w)) = w_recv w"
  "w_virt (snd (kill_and_deref_from_connnect env key w)) = w_virt w"
  by (auto simp: kill_and_deref_from_connnect_def Let_def split: option.split)

lemma polled_shutdown_real:
  assumes "polled key w"
  shows "polled key (snd (shutdown_real env fd u w))"
proof (rule polled_cong [OF assms])
  show "w_recv (snd (shutdown_real env fd u w)) = w_recv w"
    using deref_frame(1) [of env _ w] by (auto simp: shutdown_real_def split: prod.splits option.splits if_splits; metis snd_conv)
  show "w_virt (snd (shutdown_real env fd u w)) = w_virt w"
    using deref_frame(2) [of env _ w] by (auto simp: shutdown_real_def split: prod.splits option.splits if_splits; metis snd_conv)
qed

lemma polled_write: "polled key w \<Longrightarrow> polled key (snd (u_write env fd bs flags u w))"
  by (erule polled_cong)
    (auto simp: u_write_def write_to_pool_def transparent_def sys_def sys_do_def Let_def split: option.split prod.split)

lemma make_frames [simp]:
  "w_recv (snd (socket_create env f l p w)) = w_recv w" "w_virt (snd (socket_create env f l p w)) = w_virt w"
  "w_recv (snd (namesocket env fd a po fam w)) = w_recv w" "w_virt (snd (namesocket env fd a po fam w)) = w_virt w"
  "w_recv (snd (so_transparent env fd u w)) = w_recv w" "w_virt (snd (so_transparent env fd u w)) = w_virt w"
  by (simp_all add: socket_create_def namesocket_def so_transparent_def sys_def sys_do_def Let_def)

lemma connect_socket_frame [simp]:
  "w_recv (snd (snd (connect_socket env host port rp u w))) = w_recv w"
  "w_virt (snd (snd (connect_socket env host port rp u w))) = w_virt w"
  by (simp_all add: connect_socket_def use_cached_connection_def Let_def case_prod_unfold split: option.split sum.split)

lemma connect_loop_frame:
  "w_recv (snd (snd (connect_loop env host port rps u w))) = w_recv w \<and>
   w_virt (snd (snd (connect_loop env host port rps u w))) = w_virt w"
proof (induction rps arbitrary: u w)
  case (Cons rp rps)
  then show ?case
    by (simp add: Let_def case_prod_unfold split: option.split)
qed simp

lemma polled_connect: "polled key w \<Longrightarrow> polled key (snd (snd (u_connect env addrs host port u w)))"
  by (erule polled_cong) (simp_all add: u_connect_def connect_loop_frame case_prod_unfold split: option.split)

text \<open>Shutting a connected com down shuts and closes its socket exactly once and takes one
  reference off the cache. It closes the socket also when other coms still hold references: the
  count only decides whether the entry stays.\<close>

theorem connected_shutdown_closes:
  assumes "0 < fd" and "uc_id u = 0" and "uc_my_key u = Some key" and "map_of (w_cache w) key = Some (fd, refs)"
  shows "w_calls (snd (u_shutdown env fd u w)) = w_calls w @ [Sys_shutdown fd, Sys_close fd] \<and>
     map_of (w_cache (snd (u_shutdown env fd u w))) =
       (map_of (w_cache w))(key := if refs \<le> 1 then None else Some (fd, refs - 1))"
proof -
  have "w_cache w \<noteq> []" using assms(4) by auto
  then show ?thesis
    using assms
    by (simp add: u_shutdown_def shutdown_real_def kill_and_deref_from_connnect_def kill_socket_def sys_def Let_def
        update_conv' delete_conv')
qed

lemma plain_connect:
  assumes "\<not> uc_nonlocal_src u" and "u_connect env addrs host port u w = (fd, u', w')" and "0 \<le> fd"
  shows "uc_my_key u' = Some [] \<and> uc_id u' = uc_id u \<and> map_of (w_cache w') [] = Some (fd, 1)"
proof -
  have loop: "uc_my_key u1 = Some [] \<and> uc_id u1 = uc_id u \<and> map_of (w_cache w1) [] = Some (fd, 1)"
    if "connect_loop env host port rps u w = (Some fd, u1, w1)" "\<not> uc_nonlocal_src u" for rps u w fd u1 w1
    using that
  proof (induction rps arbitrary: u w)
    case (Cons rp rps)
    show ?case
    proof (cases "connect_socket env host port rp u w")
      case (fields r u2 w2)
      then have u2: "u2 = u" "\<And>x. r = Some x \<Longrightarrow> snd x = (False, [])"
        using Cons.prems(2) by (auto simp: connect_socket_def split: sum.splits prod.splits)
      show ?thesis
        using Cons fields u2
        by (auto simp: update_conv' sys_do_def sys_def Let_def split: option.splits if_splits prod.splits)
    qed
  qed simp
  show ?thesis
    using assms loop by (auto simp: u_connect_def split: option.splits prod.splits)
qed

text \<open>Coms that connect without a source of their own are all cached under the empty key,
  where the last one replaces the others. Shutting the first of two down closes the socket of the
  second and leaves its own open.\<close>

theorem plain_connections_share_a_key:
  assumes "\<not> uc_nonlocal_src u1" and "\<not> uc_nonlocal_src u2" and "uc_id u1 = 0"
    and "u_connect env1 addrs1 host1 port1 u1 w = (fd1, u1', w1)" and "0 < fd1"
    and "u_connect env2 addrs2 host2 port2 u2 w1 = (fd2, u2', w2)" and "0 < fd2"
  shows "w_calls (snd (u_shutdown env fd1 u1' w2)) = w_calls w2 @ [Sys_shutdown fd2, Sys_close fd2] \<and>
     map_of (w_cache (snd (u_shutdown env fd1 u1' w2))) [] = None"
proof -
  have 1: "uc_my_key u1' = Some []" "uc_id u1' = 0" using plain_connect [OF assms(1,4)] assms(3,5) by auto
  have 2: "map_of (w_cache w2) [] = Some (fd2, 1)" using plain_connect [OF assms(2,6)] assms(7) by auto
  then have "w_cache w2 \<noteq> []" by auto
  then show ?thesis
    using assms(5) 1 2
    by (simp add: u_shutdown_def shutdown_real_def kill_and_deref_from_connnect_def kill_socket_def sys_def Let_def
        delete_conv')
qed

text \<open>An entry whose reuse flag is set is erased all the same, and the socket back to its
  sender stays open.\<close>

theorem reuse_entry_is_erased:
  assumes "w_recv w (vkey fd) = Some d" and "dg_reuse d"
  shows "remove_datagram_entry env fd w = (1, w\<lparr>w_recv := (w_recv w)(vkey fd := None)\<rparr>)"
  using assms by (simp add: remove_datagram_entry_def)

text \<open>Once the first slot is read, the next datagram to arrive goes there and is read before
  the older ones in the slots behind.\<close>

theorem late_datagram_overtakes:
  assumes "w_recv w (vkey fd) = Some d" and "dg_rx d = [] # b # q" and "b \<noteq> []" and "c \<noteq> []"
    and "length c \<le> n" and "n < 2 ^ 31"
  shows "enqueue c d = (length c, d\<lparr>dg_rx := c # b # q\<rparr>) \<and>
    (\<exists>w'. read_from_pool fd n 0 (set_flow (vkey fd) (d\<lparr>dg_rx := c # b # q\<rparr>) w) = Some (ok (int (length c), c, w')) \<and>
       w_recv w' (vkey fd) = Some (d\<lparr>dg_rx := [] # b # q\<rparr>))"
  using assms small_length [OF assms(6)]
  by (auto simp: enqueue_def read_from_pool_def set_flow_def datagram_empty_def queue_bytes_def msg_peek_def erase_virt_def Let_def)

section \<open>Witnesses\<close>

definition demo_uenv :: udp_env where
  "demo_uenv = \<lparr>ue_sys = (\<lambda>log c. case c of Sys_socket _ _ _ \<Rightarrow> 5 + int (length log) | _ \<Rightarrow> 0), ue_name = (\<lambda>_ _. None),
     ue_junk = [], ue_inet = demo_inet, ue_in_read = (\<lambda>_. False), ue_blocking = True\<rparr>"

definition demo_uworld :: udp_world where
  "demo_uworld = \<lparr>w_recv = Map.empty, w_virt = {||}, w_cache = [], w_rx = (\<lambda>_. []), w_calls = []\<rparr>"

definition demo_addr :: addrinfo where
  "demo_addr = \<lparr>ai_fam = 2, ai_type = 2, ai_protocol = 17, ai_addr = [2, 0, 0, 53, 127, 0, 0, 1]\<rparr>"

theorem connected_shutdown_closes_witness:
  "w_calls (snd (u_shutdown demo_uenv 5 ((new_UDPCom AF_INET)\<lparr>uc_my_key := Some ''k''\<rparr>)
     (demo_uworld\<lparr>w_cache := [(''k'', 5, 2)]\<rparr>))) = [Sys_shutdown 5, Sys_close 5]"
  using connected_shutdown_closes [of 5 "(new_UDPCom AF_INET)\<lparr>uc_my_key := Some ''k''\<rparr>" "''k''"
      "demo_uworld\<lparr>w_cache := [(''k'', 5, 2)]\<rparr>" 2 demo_uenv]
  by (simp add: new_UDPCom_def demo_uworld_def)

lemmas demo_connect_simps = u_connect_def connect_socket_def socket_create_def sys_def sys_do_def demo_uenv_def
  demo_addr_def new_UDPCom_def AF_INET_def AF_INET6_def Let_def

lemma demo_connect:
  "\<exists>u1 w1. u_connect demo_uenv (Some [demo_addr]) [] [] (new_UDPCom AF_INET) w = (5 + int (length (w_calls w)), u1, w1) \<and>
     length (w_calls w1) = length (w_calls w) + 6"
  by (simp add: demo_connect_simps)

theorem plain_connections_share_a_key_witness:
  "\<exists>u1 w1 u2 w2.
     u_connect demo_uenv (Some [demo_addr]) [] [] (new_UDPCom AF_INET) demo_uworld = (5, u1, w1) \<and>
     u_connect demo_uenv (Some [demo_addr]) [] [] (new_UDPCom AF_INET) w1 = (11, u2, w2) \<and>
     w_calls (snd (u_shutdown demo_uenv 5 u1 w2)) = w_calls w2 @ [Sys_shutdown 11, Sys_close 11]"
proof -
  obtain u1 w1 where 1: "u_connect demo_uenv (Some [demo_addr]) [] [] (new_UDPCom AF_INET) demo_uworld = (5, u1, w1)"
    and w1: "length (w_calls w1) = 6"
    using demo_connect [of demo_uworld] by (auto simp: demo_uworld_def)
  obtain u2 w2 where 2: "u_connect demo_uenv (Some [demo_addr]) [] [] (new_UDPCom AF_INET) w1 = (11, u2, w2)"
    using demo_connect [of w1] w1 by auto
  show ?thesis
    using plain_connections_share_a_key [OF _ _ _ 1 _ 2] 1 2 by (simp add: new_UDPCom_def)
qed

end
