(* ===== verification/Fdq.thy ===== *)
theory Fdq
  imports Prelude "HOL-Library.Multiset"
begin

text \<open>
  The descriptor queue between an acceptor thread and its workers: \<^verbatim>\<open>fdq.hpp\<close>, \<^verbatim>\<open>fdq.cpp\<close>.

  \<open>FdQueue\<close> holds the queue of accepted sockets, front first, and the table of worker pipes. The
  table is a \<^verbatim>\<open>std::map\<close>: an association list kept sorted by worker id. Of an
  operation only the access to the queue of sockets is under the lock \<^verbatim>\<open>sq_lock_\<close>, once in each call: a
  schedule of threads is the list of calls in the order in which they take it. The table of pipes, the
  loads and the hint bytes are outside of it, and the feedback flag is one static flag for all queues; for
  them the model holds for calls that do not overlap, with one queue in the process. The
  descriptors that hint bytes were written to and read from are recorded in \<open>fq_hinted\<close> and
  \<open>fq_drained\<close>; whether a write succeeds is the argument \<open>wr\<close>.

  The locale \<open>fifo\<close> states what users of the queue rely on; it is interpreted on \<open>push_all\<close> and
  \<open>pop\<close>.
\<close>

record WorkerPipe =
  wp_pipe :: "int \<times> int"
  wp_load :: u32

definition new_WorkerPipe :: WorkerPipe where
  "new_WorkerPipe = \<lparr>wp_pipe = (- 1, - 1), wp_load = 0\<rparr>"

definition pipe_to_scheduler :: "WorkerPipe \<Rightarrow> int" where
  "pipe_to_scheduler w = fst (wp_pipe w)"

definition pipe_to_worker :: "WorkerPipe \<Rightarrow> int" where
  "pipe_to_worker w = snd (wp_pipe w)"

datatype sq_type_t = SQ_PIPE | SQ_SOCKETPAIR

record FdQueue =
  fq_type :: sq_type_t
  fq_sq :: "int list"
  fq_pairs :: "(u32 \<times> WorkerPipe) list"
  fq_worker_id_max :: u32
  fq_feedback_empty :: bool
  fq_hinted :: "int list"
  fq_drained :: "int list"
  fq_closed :: "int list"

definition new_FdQueue :: FdQueue where
  "new_FdQueue = \<lparr>fq_type = SQ_SOCKETPAIR, fq_sq = [], fq_pairs = [], fq_worker_id_max = 0,
     fq_feedback_empty = False, fq_hinted = [], fq_drained = [], fq_closed = []\<rparr>"

text \<open>\<^verbatim>\<open>operator[]\<close> of \<^verbatim>\<open>std::map\<close>: assignment inserts at the place of the key.\<close>

fun map_put :: "u32 \<Rightarrow> 'v \<Rightarrow> (u32 \<times> 'v) list \<Rightarrow> (u32 \<times> 'v) list" where
  "map_put k v [] = [(k, v)]"
| "map_put k v ((k', v') # kvs) =
     (if k = k' then (k, v) # kvs
      else if k < k' then (k, v) # (k', v') # kvs
      else (k', v') # map_put k v kvs)"

datatype pair_result = Socketpair "int \<times> int" | Pipe "int \<times> int" | Neither

definition new_pair :: "u32 \<Rightarrow> pair_result \<Rightarrow> FdQueue \<Rightarrow> (int \<times> int) \<times> FdQueue" where
  "new_pair i r q =
     (let (pa, q) =
        (case r of
           Socketpair p \<Rightarrow> (p, q\<lparr>fq_type := SQ_SOCKETPAIR\<rparr>)
         | Pipe p \<Rightarrow> (p, q\<lparr>fq_type := SQ_PIPE\<rparr>)
         | Neither \<Rightarrow> ((- 1, - 1), q))
      in (pa, q\<lparr>fq_pairs := map_put i \<lparr>wp_pipe = pa, wp_load = 0\<rparr> (fq_pairs q)\<rparr>))"

definition close_all :: "FdQueue \<Rightarrow> int \<times> FdQueue" where
  "close_all q =
     (int (length (fq_pairs q)),
      q\<lparr>fq_closed := fq_closed q @
           concat (map (\<lambda>(k, w). [pipe_to_scheduler w, pipe_to_worker w]) (fq_pairs q)),
        fq_pairs := []\<rparr>)"

definition sq_type_str :: "FdQueue \<Rightarrow> string" where
  "sq_type_str q = (case fq_type q of SQ_PIPE \<Rightarrow> ''pipe'' | SQ_SOCKETPAIR \<Rightarrow> ''socketpair'')"

text \<open>The workers in order of load; a \<^verbatim>\<open>multimap\<close> keeps equal keys in order of insertion.\<close>

definition candidates :: "FdQueue \<Rightarrow> WorkerPipe list" where
  "candidates q = sort_key wp_load (map snd (fq_pairs q))"

fun push_loop :: "(int \<Rightarrow> bool) \<Rightarrow> nat \<Rightarrow> nat \<Rightarrow> WorkerPipe list \<Rightarrow> FdQueue \<Rightarrow> FdQueue" where
  "push_loop wr entry_count written_sum [] q = q"
| "push_loop wr entry_count written_sum (c # cs) q =
     (let written_sum = written_sum + 1
      in if entry_count div 2 < written_sum then q
         else
           let sock = pipe_to_worker c;
               written_sum = written_sum + (if wr sock then 1 else 0);
               q = (if wr sock then q\<lparr>fq_hinted := fq_hinted q @ [sock]\<rparr> else q)
           in if fq_feedback_empty q then q\<lparr>fq_feedback_empty := False\<rparr>
              else push_loop wr entry_count written_sum cs q)"

definition push_all :: "(int \<Rightarrow> bool) \<Rightarrow> int \<Rightarrow> FdQueue \<Rightarrow> nat \<times> FdQueue" where
  "push_all wr s q =
     (let q = q\<lparr>fq_sq := s # fq_sq q\<rparr>; n = length (fq_pairs q)
      in (n, push_loop wr n 0 (candidates q) q))"

definition update_load :: "u32 \<Rightarrow> u32 \<Rightarrow> FdQueue \<Rightarrow> FdQueue" where
  "update_load worker_id load q =
     (case map_of (fq_pairs q) worker_id of
        Some w \<Rightarrow> q\<lparr>fq_pairs := map_put worker_id (w\<lparr>wp_load := load\<rparr>) (fq_pairs q)\<rparr>
      | None \<Rightarrow> q)"

text \<open>\<^verbatim>\<open>hint_pairs_[worker_id]\<close> inserts a default entry when the worker is unknown; it never throws.\<close>

definition pop :: "u32 \<Rightarrow> FdQueue \<Rightarrow> int \<times> FdQueue" where
  "pop worker_id q =
     (let q = (case map_of (fq_pairs q) worker_id of
                 Some w \<Rightarrow> q
               | None \<Rightarrow> q\<lparr>fq_pairs := map_put worker_id new_WorkerPipe (fq_pairs q)\<rparr>);
          w = the (map_of (fq_pairs q) worker_id);
          q = q\<lparr>fq_drained := fq_drained q @ [pipe_to_scheduler w]\<rparr>
      in if fq_sq q = [] then (0, q\<lparr>fq_feedback_empty := True\<rparr>)
         else
           let s = last (fq_sq q); q = q\<lparr>fq_sq := butlast (fq_sq q)\<rparr>
           in (s, if fq_sq q = [] then q\<lparr>fq_feedback_empty := True\<rparr> else q))"

definition pop_if :: "(u32 \<Rightarrow> bool) \<Rightarrow> FdQueue \<Rightarrow> int option \<times> FdQueue" where
  "pop_if check_true q =
     (if fq_sq q = [] then (None, q)
      else let val = (of_int (last (fq_sq q)) :: u32)
           in if check_true val then (Some (sint val), q\<lparr>fq_sq := butlast (fq_sq q)\<rparr>)
              else (None, q))"

definition hint_pair :: "u32 \<Rightarrow> FdQueue \<Rightarrow> (int \<times> int) result" where
  "hint_pair i q =
     (case map_of (fq_pairs q) i of Some w \<Rightarrow> ok (wp_pipe w) | None \<Rightarrow> raise Out_of_range)"

subsection \<open>The handler\<close>

text \<open>\<^verbatim>\<open>FdQueueHandler\<close> forwards to the queue it shares, or throws when it has none.\<close>

definition on_queue :: "FdQueue option \<Rightarrow> (FdQueue \<Rightarrow> 'a) \<Rightarrow> 'a result" where
  "on_queue h f = (case h of Some q \<Rightarrow> ok (f q) | None \<Rightarrow> raise Fdqueue_error)"

definition handler_pop :: "FdQueue option \<Rightarrow> u32 \<Rightarrow> (int \<times> FdQueue) result" where
  "handler_pop h w = on_queue h (pop w)"

definition handler_update_load :: "FdQueue option \<Rightarrow> u32 \<Rightarrow> u32 \<Rightarrow> FdQueue result" where
  "handler_update_load h w l = on_queue h (update_load w l)"

definition handler_push_all :: "FdQueue option \<Rightarrow> (int \<Rightarrow> bool) \<Rightarrow> int \<Rightarrow> (nat \<times> FdQueue) result" where
  "handler_push_all h wr s = on_queue h (push_all wr s)"

definition handler_pop_if :: "FdQueue option \<Rightarrow> (u32 \<Rightarrow> bool) \<Rightarrow> (int option \<times> FdQueue) result" where
  "handler_pop_if h f = on_queue h (pop_if f)"

definition handler_hint_pair :: "FdQueue option \<Rightarrow> u32 \<Rightarrow> (int \<times> int) result" where
  "handler_hint_pair h i = (case h of Some q \<Rightarrow> hint_pair i q | None \<Rightarrow> raise Fdqueue_error)"

definition handler_new_pair ::
    "FdQueue option \<Rightarrow> u32 \<Rightarrow> pair_result \<Rightarrow> ((int \<times> int) \<times> FdQueue) result" where
  "handler_new_pair h i r = on_queue h (new_pair i r)"

subsection \<open>The contract of a queue\<close>

datatype ('c, 'a, 'w, 'm) queue_op = Enq 'c 'a | Deq 'w | Other 'm

text \<open>A schedule of calls; the result lists what the dequeues returned, in order.\<close>

fun queue_run ::
    "('c \<Rightarrow> 'a \<Rightarrow> 'q \<Rightarrow> 'q) \<Rightarrow> ('w \<Rightarrow> 'q \<Rightarrow> 'a \<times> 'q) \<Rightarrow> ('m \<Rightarrow> 'q \<Rightarrow> 'q) \<Rightarrow>
     ('c, 'a, 'w, 'm) queue_op list \<Rightarrow> 'q \<Rightarrow> 'a list \<times> 'q" where
  "queue_run enq deq misc [] q = ([], q)"
| "queue_run enq deq misc (Enq c x # ops) q = queue_run enq deq misc ops (enq c x q)"
| "queue_run enq deq misc (Deq w # ops) q =
     (let (x, q') = deq w q; (out, q'') = queue_run enq deq misc ops q' in (x # out, q''))"
| "queue_run enq deq misc (Other m # ops) q = queue_run enq deq misc ops (misc m q)"

primrec queue_input :: "('c, 'a, 'w, 'm) queue_op \<Rightarrow> 'a list" where
  "queue_input (Enq c x) = [x]"
| "queue_input (Deq w) = []"
| "queue_input (Other m) = []"

locale fifo =
  fixes enq :: "'c \<Rightarrow> 'a \<Rightarrow> 'q \<Rightarrow> 'q" and deq :: "'w \<Rightarrow> 'q \<Rightarrow> 'a \<times> 'q"
    and misc :: "'m \<Rightarrow> 'q \<Rightarrow> 'q" and content :: "'q \<Rightarrow> 'a list" and nothing :: 'a
  assumes enq_content: "content (enq c x q) = content q @ [x]"
    and deq_empty: "content q = [] \<Longrightarrow> fst (deq w q) = nothing \<and> content (snd (deq w q)) = []"
    and deq_content: "content q = x # xs \<Longrightarrow> fst (deq w q) = x \<and> content (snd (deq w q)) = xs"
    and misc_content: "content (misc m q) = content q"
begin

lemma run_fifo:
  "nothing \<notin> set (content q) \<Longrightarrow> nothing \<notin> set (concat (map queue_input ops)) \<Longrightarrow>
     queue_run enq deq misc ops q = (out, q') \<Longrightarrow>
     filter (\<lambda>x. x \<noteq> nothing) out @ content q' = content q @ concat (map queue_input ops)"
proof (induction ops arbitrary: q out)
  case Nil
  then show ?case by simp
next
  case (Cons op ops)
  show ?case
  proof (cases op)
    case (Enq c x)
    then show ?thesis using Cons.IH [of "enq c x q" out] Cons.prems by (simp add: enq_content)
  next
    case (Other m)
    then show ?thesis using Cons.IH [of "misc m q" out] Cons.prems by (simp add: misc_content)
  next
    case (Deq w)
    obtain x p where d: "deq w q = (x, p)" by force
    obtain ys r where r: "queue_run enq deq misc ops p = (ys, r)" by force
    have o': "out = x # ys" "q' = r" using Cons.prems(3) Deq d r by simp_all
    show ?thesis
    proof (cases "content q")
      case Nil
      then have "x = nothing" "content p = []" using deq_empty [OF Nil, of w] d by simp_all
      then show ?thesis using Cons.IH [of p ys] Cons.prems r Nil Deq by (simp add: o')
    next
      case (Cons y cs)
      then have "x = y" "content p = cs" using deq_content [OF Cons, of w] d by simp_all
      then show ?thesis using Cons.IH [of p ys] Cons.prems r Cons Deq by (auto simp: o')
    qed
  qed
qed

end

datatype fdq_misc =
    Update_load u32 u32
  | New_pair u32 pair_result
  | Close_all

primrec fdq_do :: "fdq_misc \<Rightarrow> FdQueue \<Rightarrow> FdQueue" where
  "fdq_do (Update_load w l) q = update_load w l q"
| "fdq_do (New_pair i r) q = snd (new_pair i r q)"
| "fdq_do Close_all q = snd (close_all q)"

lemma push_loop_frame [simp]:
  "fq_sq (push_loop wr n w cs q) = fq_sq q"
  "fq_pairs (push_loop wr n w cs q) = fq_pairs q"
  by (induction wr n w cs q rule: push_loop.induct) (simp_all add: Let_def)

interpretation fdq: fifo "\<lambda>wr s q. snd (push_all wr s q)" pop fdq_do "\<lambda>q. rev (fq_sq q)" 0
proof
  show "rev (fq_sq (snd (push_all wr s q))) = rev (fq_sq q) @ [s]" for wr s q
    by (simp add: push_all_def Let_def)
  show "fst (pop w q) = 0 \<and> rev (fq_sq (snd (pop w q))) = []" if "rev (fq_sq q) = []" for w q
    using that by (simp add: pop_def Let_def split: option.splits)
  show "fst (pop w q) = x \<and> rev (fq_sq (snd (pop w q))) = xs" if "rev (fq_sq q) = x # xs" for w q x xs
  proof -
    have "fq_sq q = rev xs @ [x]" using that by (metis rev_rev_ident rev.simps(2))
    then show ?thesis by (simp add: pop_def Let_def split: option.splits)
  qed
  show "rev (fq_sq (fdq_do m q)) = rev (fq_sq q)" for m q
    by (cases m) (simp_all add: update_load_def new_pair_def close_all_def Let_def
        split: option.splits pair_result.splits)
qed

lemma push_loop_hints:
  assumes "\<not> fq_feedback_empty q" and "\<forall>c \<in> set cs. wr (pipe_to_worker c)"
  shows "fq_hinted (push_loop wr n (2 * i) cs q) =
         fq_hinted q @ take ((n div 2 + 1) div 2 - i) (map pipe_to_worker cs)"
  using assms
proof (induction cs arbitrary: q i)
  case Nil
  then show ?case by simp
next
  case (Cons c cs)
  let ?q = "q\<lparr>fq_hinted := fq_hinted q @ [pipe_to_worker c]\<rparr>"
  have IH: "fq_hinted (push_loop wr n (2 * Suc i) cs ?q) =
      fq_hinted ?q @ take ((n div 2 + 1) div 2 - Suc i) (map pipe_to_worker cs)"
    using Cons.prems by (intro Cons.IH) simp_all
  show ?case
  proof (cases "n div 2 < 2 * i + 1")
    case True
    then have "(n div 2 + 1) div 2 - i = 0" by linarith
    with True show ?thesis by (simp add: Let_def)
  next
    case False
    then have "(n div 2 + 1) div 2 - i = Suc ((n div 2 + 1) div 2 - Suc i)" by linarith
    with False IH Cons.prems show ?thesis by (simp add: Let_def)
  qed
qed

lemma push_loop_lone: "push_loop wr (Suc 0) 0 cs q = q"
  by (cases cs) simp_all

lemma map_put_map_of: "map_of (map_put k v kvs) = (map_of kvs)(k \<mapsto> v)"
  by (induction k v kvs rule: map_put.induct) (auto simp: fun_eq_iff)

lemma map_put_length: "map_of kvs k = None \<Longrightarrow> length (map_put k v kvs) = Suc (length kvs)"
  by (induction k v kvs rule: map_put.induct) (auto split: if_splits)

subsection \<open>What the queue promises\<close>

definition demo_ops :: "(int \<Rightarrow> bool, int, u32, fdq_misc) queue_op list" where
  "demo_ops = [Enq (\<lambda>_. True) 5, Enq (\<lambda>_. True) 6, Deq 1, Other (Update_load 1 3), Deq 2, Deq 2]"

text \<open>C36: Whatever the schedule of pushes, pops by any workers, load updates and pipe changes,
  the sockets popped so far followed by those still queued are the sockets pushed, in order:
  first in, first out, each exactly once. (A pop of the empty queue returns 0.)\<close>

theorem fdq_fifo:
  assumes "0 \<notin> set (concat (map queue_input ops))"
    and "queue_run (\<lambda>wr s q. snd (push_all wr s q)) pop fdq_do ops new_FdQueue = (out, q)"
  shows "filter (\<lambda>s. s \<noteq> 0) out @ rev (fq_sq q) = concat (map queue_input ops)"
  using fdq.run_fifo [OF _ assms] by (simp add: new_FdQueue_def)

theorem fdq_fifo_witness:
  "\<exists>out q. queue_run (\<lambda>wr s q. snd (push_all wr s q)) pop fdq_do demo_ops new_FdQueue = (out, q) \<and>
     filter (\<lambda>s. s \<noteq> 0) out @ rev (fq_sq q) = [5, 6]"
proof -
  obtain out q where r: "queue_run (\<lambda>wr s q. snd (push_all wr s q)) pop fdq_do demo_ops new_FdQueue
      = (out, q)" by force
  have "filter (\<lambda>s. s \<noteq> 0) out @ rev (fq_sq q) = concat (map queue_input demo_ops)"
    by (rule fdq_fifo [OF _ r]) (simp add: demo_ops_def)
  with r show ?thesis by (intro exI) (simp add: demo_ops_def)
qed

text \<open>When every hint can be written and no worker has reported the queue empty, \<open>push_all\<close>
  wakes the least loaded workers first, about a quarter of them: \<open>(n div 2 + 1) div 2\<close> of \<open>n\<close>.\<close>

theorem push_all_wakes_least_loaded:
  assumes "\<not> fq_feedback_empty q" and "\<forall>c \<in> set (candidates q). wr (pipe_to_worker c)"
  shows "fq_hinted (snd (push_all wr s q)) =
           fq_hinted q @ take ((length (fq_pairs q) div 2 + 1) div 2) (map pipe_to_worker (candidates q)) \<and>
         sorted (map wp_load (candidates q)) \<and> mset (candidates q) = mset (map snd (fq_pairs q))"
  using push_loop_hints [of "q\<lparr>fq_sq := s # fq_sq q\<rparr>" "candidates q" wr "length (fq_pairs q)" 0] assms
  by (simp add: push_all_def Let_def candidates_def)

definition demo_fdq :: FdQueue where
  "demo_fdq = new_FdQueue\<lparr>fq_pairs := [(1, \<lparr>wp_pipe = (10, 11), wp_load = 7\<rparr>),
     (2, \<lparr>wp_pipe = (20, 21), wp_load = 3\<rparr>)]\<rparr>"

theorem push_all_wakes_least_loaded_witness:
  "fq_hinted (snd (push_all (\<lambda>_. True) 9 demo_fdq)) = [21]"
proof -
  have c: "map pipe_to_worker (candidates demo_fdq) = [21, 11]"
    by (simp add: candidates_def demo_fdq_def pipe_to_worker_def)
  have d: "\<not> fq_feedback_empty demo_fdq" "fq_hinted demo_fdq = []" "length (fq_pairs demo_fdq) = 2"
    by (simp_all add: demo_fdq_def new_FdQueue_def)
  show ?thesis
    using push_all_wakes_least_loaded [OF d(1), of "\<lambda>_. True" 9] unfolding c d(2,3)
    by (simp add: eval_nat_numeral)
qed

text \<open>With a single worker \<open>push_all\<close> wakes nobody: the socket is queued, and no hint byte is
  written to the only worker there is.\<close>

theorem push_all_lone_worker:
  assumes "length (fq_pairs q) = 1"
  shows "push_all wr s q = (1, q\<lparr>fq_sq := s # fq_sq q\<rparr>)"
  using assms by (simp add: push_all_def Let_def push_loop_lone)

theorem push_all_lone_worker_witness:
  "push_all (\<lambda>_. True) 9 (snd (new_pair 1 (Socketpair (10, 11)) new_FdQueue)) =
     (1, (snd (new_pair 1 (Socketpair (10, 11)) new_FdQueue))\<lparr>fq_sq := [9]\<rparr>)"
  using push_all_lone_worker [of "snd (new_pair 1 (Socketpair (10, 11)) new_FdQueue)"]
  by (simp add: new_pair_def new_FdQueue_def)

text \<open>Popping with the id of an unknown worker does not fail: it adds a worker with descriptors
  \<open>-1\<close> to the table, which then takes part in every later \<open>push_all\<close> and \<open>close_all\<close>.\<close>

theorem pop_registers_unknown_worker:
  assumes "map_of (fq_pairs q) w = None"
  shows "map_of (fq_pairs (snd (pop w q))) w = Some new_WorkerPipe \<and>
         length (fq_pairs (snd (pop w q))) = Suc (length (fq_pairs q))"
  using assms by (simp add: pop_def Let_def map_put_map_of map_put_length)

theorem pop_registers_unknown_worker_witness:
  "map_of (fq_pairs (snd (pop 5 demo_fdq))) 5 = Some new_WorkerPipe"
  using pop_registers_unknown_worker [of demo_fdq 5] by (simp add: demo_fdq_def)

end
