(* ===== verification/Receiver.thy ===== *)
theory Receiver
  imports Udpcom Fdq Hostcx
begin

text \<open>
  The receiver of datagrams and its workers: \<^verbatim>\<open>threadedreceiver.hpp\<close>, \<^verbatim>\<open>threadedreceiver.cpp\<close>, the
  creation of the socket back to the sender (\<^verbatim>\<open>SocketInfo::create_socket_left\<close>) and the resolution of
  the original destination (\<^verbatim>\<open>baseCom::resolve_nonlocal_dst_socket\<close>).

  The receiver reads a catch-all socket, files each datagram under the key of its flow in the table of
  \<open>Udpcom\<close> and announces a new flow through the queue of \<open>Fdq\<close>; a worker takes the key from the
  queue and makes a context whose com reads the early data first. \<open>draw\<close> is the generator behind the
  session keys, \<open>wr\<close> tells whether a hint byte could be written.
\<close>

section \<open>The receiver\<close>

record receiver =
  rc_fdq :: "FdQueue option"
  rc_com :: UDPCom
  rc_quick :: "int list option"

definition is_quick_port :: "receiver \<Rightarrow> u16 \<Rightarrow> bool" where
  "is_quick_port rc dport =
     (case rc_quick rc of
        Some l \<Rightarrow> (\<exists>x \<in> set l. int (unat dport) = x \<or> 0 = x)
      | None \<Rightarrow> dport \<noteq> 443)"

definition new_AddressInfo :: AddressInfo where
  "new_AddressInfo = \<lparr>ai_ss = None, ai_family = AF_INET, ai_host = [], ai_port = 0\<rparr>"

text \<open>The first control message with the original destination gives the addresses; both proxy modes of
  the code do the same. The data of a message are the 128 bytes from its \<^verbatim>\<open>CMSG_DATA\<close> on.\<close>

definition is_orig_dst :: "cmsg \<Rightarrow> bool" where
  "is_orig_dst c = (case c of Cmsg level ty _ \<Rightarrow> level = 0 \<and> ty = 20 \<or> level = 41 \<and> ty = 74)"

definition unpacked :: "inet_api \<Rightarrow> byte list \<Rightarrow> AddressInfo" where
  "unpacked api ss =
     (case ai_unpack api (new_AddressInfo\<lparr>ai_ss := Some ss\<rparr>) of
        Inr a \<Rightarrow> a | Inl _ \<Rightarrow> new_AddressInfo\<lparr>ai_ss := Some ss\<rparr>)"

definition process_anc_data :: "udp_env \<Rightarrow> byte list \<Rightarrow> cmsg list \<Rightarrow> SocketInfo option" where
  "process_anc_data env name cmsgs =
     (case filter is_orig_dst cmsgs of
        [] \<Rightarrow> None
      | Cmsg _ _ dat # _ \<Rightarrow>
          Some \<lparr>si_src = unpacked (ue_inet env) name, si_dst = unpacked (ue_inet env) dat\<rparr>)"

text \<open>A step that fails throws and leaves the new socket open.\<close>

fun try_all :: "udp_env \<Rightarrow> syscall list \<Rightarrow> udp_world \<Rightarrow> bool \<times> udp_world" where
  "try_all env [] w = (True, w)"
| "try_all env (c # cs) w = (let (r, w) = sys env c w in if r \<noteq> 0 then (False, w) else try_all env cs w)"

definition create_socket_left :: "udp_env \<Rightarrow> int \<Rightarrow> SocketInfo \<Rightarrow> udp_world \<Rightarrow> int result \<times> udp_world" where
  "create_socket_left env l4 si w =
     (case socket_create env (int (ai_family (si_src si))) l4 0 w of
        (Inl x, w) \<Rightarrow> (Inl x, w)
      | (Inr fd, w) \<Rightarrow>
          (case socket_transparent env fd (ai_family (si_src si)) w of
             (Inl x, w) \<Rightarrow> (Inl x, w)
           | (Inr _, w) \<Rightarrow>
               let si = si_pack (ue_inet env) si;
                   bind_ss = the (ai_ss (si_dst si));
                   connect_ss = the (ai_ss (si_src si));
                   is_six = (ss_family connect_ss = AF_INET6);
                   (r, w) = try_all env
                     ((if is_six then [] else [Sys_setsockopt fd (So_bindtodevice ''lo'')]) @
                      [Sys_bind fd bind_ss, Sys_connect fd connect_ss] @
                      (if is_six then [] else [Sys_setsockopt fd (So_bindtodevice [])])) w
               in (if r then ok fd else raise Socket_info_error, w)))"

text \<open>The outcome of a member that may throw after it has changed the state, or wait in the kernel for the
  next datagram: \<open>None\<close> is a thread that waits, in the state it has reached.\<close>

type_synonym 'a outcome = "'a result option \<times> receiver \<times> udp_world"

definition add_first_datagrams ::
    "udp_env \<Rightarrow> (u32 list \<Rightarrow> u32) \<Rightarrow> (int \<Rightarrow> bool) \<Rightarrow> int \<Rightarrow> SocketInfo \<Rightarrow> receiver \<Rightarrow> udp_world \<Rightarrow> int outcome" where
  "add_first_datagrams env draw wr sock pinfo rc w =
     (let (session_key, pinfo) = create_session_key (ue_inet env) draw True pinfo;
          k = (ucast session_key :: u64);
          new_entry = (w_recv w k = None);
          w = (if new_entry
               then set_flow k (new_datagram\<lparr>dg_src := the (ai_ss (si_src pinfo)),
                                             dg_dst := the (ai_ss (si_dst pinfo))\<rparr>) w
               else w)
      in case u_read env sock 2048 0 (rc_com rc) w of
           None \<Rightarrow> (None, rc, w)
         | Some (Inl x) \<Rightarrow> (Some (Inl x), rc, w)
         | Some (Inr (red, buff, u, w)) \<Rightarrow>
             let rc = rc\<lparr>rc_com := u\<rparr>
             in if red < 0 then (Some (ok (- 1)), rc, w)
                else
                  let (enk, d) = enqueue buff (the (w_recv w k)); w = set_flow k d w
                  in if \<not> new_entry
                     then (Some (ok 0), rc, w\<lparr>w_virt := finsert (sint session_key) (w_virt w)\<rparr>)
                     else
                       (case create_socket_left env 2 pinfo w of
                          (Inl x, w) \<Rightarrow> (Some (Inl x), rc, w)
                        | (Inr left, w) \<Rightarrow>
                            let w = set_flow k (d\<lparr>dg_left := Some left\<rparr>) w
                            in case handler_push_all (rc_fdq rc) wr (sint session_key) of
                                 Inl x \<Rightarrow> (Some (Inl x), rc, w)
                               | Inr (_, q) \<Rightarrow>
                                   (Some (ok 1), rc\<lparr>rc_fdq := Some q\<rparr>,
                                    w\<lparr>w_virt := finsert (sint session_key) (w_virt w)\<rparr>)))"





definition on_right_new_raw :: "(int \<Rightarrow> bool) \<Rightarrow> int \<Rightarrow> receiver \<Rightarrow> receiver result" where
  "on_right_new_raw wr s rc =
     (case handler_push_all (rc_fdq rc) wr s of Inl x \<Rightarrow> Inl x | Inr (_, q) \<Rightarrow> ok (rc\<lparr>rc_fdq := Some q\<rparr>))"

definition pop_for_worker :: "u32 \<Rightarrow> receiver \<Rightarrow> (int \<times> receiver) result" where
  "pop_for_worker i rc =
     (case handler_pop (rc_fdq rc) i of Inl x \<Rightarrow> Inl x | Inr (s, q) \<Rightarrow> ok (s, rc\<lparr>rc_fdq := Some q\<rparr>))"

section \<open>The worker\<close>

datatype proxy_type = PT_none | PT_transparent | PT_proxy | PT_redirect

definition parse_decimal :: "string \<Rightarrow> nat" where
  "parse_decimal s = foldl (\<lambda>n c. 10 * n + (of_char c - 48)) 0 s"

text \<open>\<^verbatim>\<open>resolve_nonlocal_dst_socket\<close>: the port goes through its decimal form.\<close>

definition resolve_nonlocal_dst_socket :: "udp_env \<Rightarrow> int \<Rightarrow> UDPCom \<Rightarrow> udp_world \<Rightarrow> bool \<times> UDPCom" where
  "resolve_nonlocal_dst_socket env sock u w =
     (let (r, (h, p), u) = u_resolve_socket env False sock (''0.0.0.0'', ''0'') u w;
          u = u\<lparr>uc_dst_resolved := r\<rparr>
      in (r, if r then u\<lparr>uc_dst_host := h,
                         uc_dst_port := (if parse_decimal p < 2 ^ 16 then of_nat (parse_decimal p) else 0)\<rparr>
             else u))"

record redirect_map =
  rm_targets :: "(u16 \<times> string \<times> u16) list"

definition redirect_add :: "u16 \<Rightarrow> string \<times> u16 \<Rightarrow> redirect_map \<Rightarrow> redirect_map" where
  "redirect_add port entry m = m\<lparr>rm_targets := AList.update port entry (rm_targets m)\<rparr>"

definition redirect_clear :: "redirect_map \<Rightarrow> redirect_map" where
  "redirect_clear m = m\<lparr>rm_targets := []\<rparr>"

definition redir_target :: "u16 \<Rightarrow> redirect_map \<Rightarrow> (string \<times> u16) option" where
  "redir_target port m = map_of (rm_targets m) port"

text \<open>What a worker has of its own: its number, the kind of proxy, how its com treats destinations, the
  number of its proxies, and the contexts it was handed. The context made by the virtual \<^verbatim>\<open>new_cx\<close> is an
  argument, with its address; \<open>None\<close> stands for one whose com is not a \<^verbatim>\<open>UDPCom\<close>.\<close>

record flow_cx =
  fc_cx :: baseHostCX
  fc_com :: UDPCom

record worker =
  wk_id :: u32
  wk_type :: proxy_type
  wk_nonlocal_dst :: bool
  wk_proxies :: nat
  wk_dead :: bool
  wk_monitored :: "int list"
  wk_ready :: "flow_cx list"
  wk_deleted :: "nat list"

definition prepare_flow ::
    "udp_env \<Rightarrow> redirect_map \<Rightarrow> int \<Rightarrow> params_t \<Rightarrow> peer_view option \<Rightarrow> worker \<Rightarrow> flow_cx \<Rightarrow> udp_world \<Rightarrow> flow_cx option" where
  "prepare_flow env rm vs par pv wk c w =
     (let (waiting, cx) = read_waiting_for_peercom par pv (fc_cx c);
          (_, source, u) = u_resolve_socket env True vs (cx_host cx, cx_port cx) (fc_com c) w;
          u = (if \<not> waiting \<and> cx_reduced cx then u else fc_com c);
          cx = (if waiting then cx else on_accept_socket vs source cx);
          cx = cx\<lparr>cx_idle_delay := 120\<rparr>;
          u = u\<lparr>uc_nonlocal_dst := wk_nonlocal_dst wk\<rparr>;
          resolved = snd (resolve_nonlocal_dst_socket env vs u w)
      in case wk_type wk of
           PT_transparent \<Rightarrow> Some \<lparr>fc_cx = cx, fc_com = resolved\<rparr>
         | PT_redirect \<Rightarrow>
             (case redir_target (uc_dst_port resolved) rm of
                Some (h, p) \<Rightarrow>
                  Some \<lparr>fc_cx = cx, fc_com = resolved\<lparr>uc_dst_host := h, uc_dst_port := p, uc_dst_resolved := True\<rparr>\<rparr>
              | None \<Rightarrow> None)
         | _ \<Rightarrow> Some \<lparr>fc_cx = cx, fc_com = u\<rparr>)"

text \<open>The worker's step up to the handling of its own proxies; \<open>parent_dead\<close> is the state of the receiver.
  The result tells whether the step gets there.\<close>

definition worker_step ::
    "udp_env \<Rightarrow> redirect_map \<Rightarrow> bool \<Rightarrow> params_t \<Rightarrow> peer_view option \<Rightarrow> nat \<times> flow_cx option \<Rightarrow>
     worker \<Rightarrow> receiver \<Rightarrow> udp_world \<Rightarrow> bool result \<times> worker \<times> receiver \<times> udp_world" where
  "worker_step env rm parent_dead par pv made wk rc w =
     (if parent_dead then (ok False, wk\<lparr>wk_dead := True\<rparr>, rc, w)
      else
        case handler_update_load (rc_fdq rc) (wk_id wk) (of_nat (wk_proxies wk)) of
          Inl x \<Rightarrow> (Inl x, wk, rc, w)
        | Inr q \<Rightarrow>
            let (vs, q) = pop (wk_id wk) q; rc = rc\<lparr>rc_fdq := Some q\<rparr>; k = vkey vs
            in if vs = 0 then (ok False, wk, rc, w)
               else
                 case w_recv w k of
                   None \<Rightarrow> (ok True, wk, rc, w)
                 | Some d \<Rightarrow>
                     let w = set_flow k (d\<lparr>dg_cx := Some (fst made)\<rparr>) w
                     in case snd made of
                          None \<Rightarrow> (ok True, wk\<lparr>wk_deleted := wk_deleted wk @ [fst made]\<rparr>, rc, w)
                        | Some c \<Rightarrow>
                            let c = c\<lparr>fc_com := (fc_com c)\<lparr>uc_id := word_of_int vs\<rparr>\<rparr>;
                                s = translate_socket w vs;
                                wk = (if 0 < s then wk\<lparr>wk_monitored := wk_monitored wk @ [s]\<rparr> else wk)
                            in case prepare_flow env rm vs par pv wk c w of
                                 Some c \<Rightarrow> (ok True, wk\<lparr>wk_ready := wk_ready wk @ [c]\<rparr>, rc, w)
                               | None \<Rightarrow> (ok True, wk\<lparr>wk_deleted := wk_deleted wk @ [fst made]\<rparr>, rc, w))"

section \<open>Properties of the receiver\<close>

definition put_world :: "(u64 \<rightharpoonup> datagram) \<Rightarrow> int fset \<Rightarrow> (int \<Rightarrow> sock_item list) \<Rightarrow> udp_world \<Rightarrow> udp_world" where
  "put_world a b c w = w\<lparr>w_recv := a, w_virt := b, w_rx := c\<rparr>"

lemma sys_put: "sys env x (put_world a b c w) = map_prod id (put_world a b c) (sys env x w)"
  by (simp add: sys_def put_world_def)

lemma try_all_put: "try_all env cs (put_world a b c w) = map_prod id (put_world a b c) (try_all env cs w)"
  by (induction cs arbitrary: w) (auto simp: sys_put split: prod.split)

lemma socket_create_put:
  "socket_create env f l p (put_world a b c w) = map_prod id (put_world a b c) (socket_create env f l p w)"
  by (simp add: socket_create_def sys_put split: prod.split)

lemma socket_transparent_put:
  "socket_transparent env fd f (put_world a b c w) = map_prod id (put_world a b c) (socket_transparent env fd f w)"
  by (simp add: socket_transparent_def sys_put split: prod.split)

lemma create_put_world:
  "create_socket_left env l si (put_world a b c w) = map_prod id (put_world a b c) (create_socket_left env l si w)"
  by (simp add: create_socket_left_def socket_create_put socket_transparent_put try_all_put Let_def
      split: prod.split sum.split)

lemma put_world_self: "put_world (w_recv w) (w_virt w) (w_rx w) w = w"
  by (simp add: put_world_def)

lemma create_frame:
  assumes "create_socket_left env l si w = (r, w1)"
  shows "w_recv w1 = w_recv w" "w_virt w1 = w_virt w" "w_rx w1 = w_rx w"
proof -
  have "put_world (w_recv w) (w_virt w) (w_rx w) w1 = w1"
    using create_put_world [of env l si "w_recv w" "w_virt w" "w_rx w" w] assms by (simp add: put_world_self)
  then show "w_recv w1 = w_recv w" "w_virt w1 = w_virt w" "w_rx w1 = w_rx w"
    by (metis put_world_def udp_world.select_convs(1,2,4) udp_world.surjective udp_world.update_convs(1,2,4))+
qed

lemma create_put:
  assumes "create_socket_left env l si w = (r, w1)"
  shows "create_socket_left env l si (w\<lparr>w_rx := c, w_recv := a\<rparr>) = (r, w1\<lparr>w_rx := c, w_recv := a\<rparr>)"
proof -
  have p: "v\<lparr>w_rx := c, w_recv := a\<rparr> = put_world a (w_virt v) c v" for v :: udp_world
    by (cases v) (simp add: put_world_def)
  show ?thesis
    by (simp add: p create_put_world assms create_frame [OF assms])
qed


lemma rc_com_self: "rc\<lparr>rc_com := rc_com rc\<rparr> = rc"
  by simp

text \<open>Packets with this name and these control messages belong to the flow \<open>key\<close>.\<close>

definition arrives ::
    "udp_env \<Rightarrow> (u32 list \<Rightarrow> u32) \<Rightarrow> int \<Rightarrow> byte list \<Rightarrow> cmsg list \<Rightarrow> SocketInfo \<Rightarrow> u32 \<Rightarrow> SocketInfo \<Rightarrow> bool" where
  "arrives env draw sock name cm si key si' \<longleftrightarrow> 0 \<le> sock \<and> process_anc_data env name cm = Some si \<and>
     create_session_key (ue_inet env) draw True si = (key, si')"

lemma arrivesD:
  assumes "arrives env draw sock name cm si key si'"
  shows "0 \<le> sock" "process_anc_data env name cm = Some si"
    "create_session_key (ue_inet env) draw True si = (key, si')"
  using assms by (simp_all add: arrives_def)

lemma add_to_flow:
  assumes arr: "arrives env draw sock name cm si key si'" and "uc_id (rc_com rc) = 0"
    and "w_recv w (ucast key) = Some d" and "dg_rx d = slots qs (Suc m)"
    and "[] \<notin> set qs" and "w_rx w sock = Packet b name cm # rest" and "length b \<le> 2048"
  shows "add_first_datagrams env draw wr sock si rc w =
    (Some (ok 0), rc, w\<lparr>w_recv := (w_recv w)(ucast key \<mapsto> d\<lparr>dg_rx := slots (qs @ [b]) m\<rparr>),
                 w_virt := finsert (sint key) (w_virt w), w_rx := (w_rx w)(sock := rest)\<rparr>)"
  using assms arrivesD [OF arr] put_slot_next [OF assms(5), of b m]
  by (simp add: add_first_datagrams_def u_read_def sys_recv_def msg_peek_def enqueue_def set_flow_def Let_def)

lemma add_new_flow:
  assumes arr: "arrives env draw sock name cm si key si'" and "uc_id (rc_com rc) = 0"
    and "w_recv w (ucast key) = None"
    and "w_rx w sock = Packet b name cm # rest" and "length b \<le> 2048" and "rc_fdq rc = Some q"
    and "create_socket_left env 2 si' w = (Inr left, w1)"
  shows "add_first_datagrams env draw wr sock si rc w =
    (Some (ok 1), rc\<lparr>rc_fdq := Some (snd (push_all wr (sint key) q))\<rparr>,
     w1\<lparr>w_recv := (w_recv w)(ucast key \<mapsto> new_datagram\<lparr>dg_src := the (ai_ss (si_src si')),
            dg_dst := the (ai_ss (si_dst si')), dg_left := Some left, dg_rx := slots [b] 4\<rparr>),
        w_virt := finsert (sint key) (w_virt w), w_rx := (w_rx w)(sock := rest)\<rparr>)"
proof -
  have slots: "put_slot b (replicate 5 []) = Some (slots [b] 4)"
    using put_slot_next [of "[]" b 4] by (simp add: slots_def eval_nat_numeral)
  note w1 = create_frame [OF assms(7)]
  show ?thesis
    using assms(2-6) arrivesD [OF arr] slots
    by (simp add: add_first_datagrams_def u_read_def sys_recv_def msg_peek_def enqueue_def set_flow_def Let_def
        handler_push_all_def on_queue_def new_datagram_def create_put [OF assms(7)] w1 split: prod.split)
qed

text \<open>Whether the receiver's socket blocks is not changed by the sockets made for flows.\<close>

definition same_blocking :: "int \<Rightarrow> udp_world \<Rightarrow> udp_world \<Rightarrow> bool" where
  "same_blocking s w w' \<longleftrightarrow>
     (\<exists>cs. w_calls w' = w_calls w @ cs \<and> (\<forall>c \<in> set cs. c \<noteq> Sys_nonblock s \<and> c \<noteq> Sys_close s))"

lemma same_blocking_refl [simp]: "same_blocking s w w"
  by (simp add: same_blocking_def)














definition flow_of :: "SocketInfo \<Rightarrow> int \<Rightarrow> byte list list \<Rightarrow> datagram" where
  "flow_of si left ds = \<lparr>dg_dst = the (ai_ss (si_dst si)), dg_src = the (ai_ss (si_src si)), dg_left = Some left,
     dg_reuse = False, dg_cx = None, dg_rx = slots ds (5 - length ds)\<rparr>"







section \<open>The polled set\<close>

lemma polled_add:
  assumes "add_first_datagrams env draw wr sock si rc w = (r, rc', w')"
    and "create_session_key (ue_inet env) draw True si = (k, si')"
    and "\<And>v. \<exists>fd. fst (create_socket_left env 2 si' v) = ok fd"
    and "0 \<le> sock" and "uc_id (rc_com rc) = 0" and "rc_fdq rc \<noteq> None" and "polled key w"
  shows "polled key w' \<and> ((\<exists>v \<ge> 0. r = Some (ok v)) \<longrightarrow> sint k |\<in>| w_virt w')"
proof -
  let ?k = "ucast k :: u64"
  define new where "new = (w_recv w ?k = None)"
  define w0 where "w0 = (if new then set_flow ?k (new_datagram\<lparr>dg_src := the (ai_ss (si_src si')),
                                             dg_dst := the (ai_ss (si_dst si'))\<rparr>) w else w)"
  have p0: "polled key w0"
  proof (cases new)
    case True
    show ?thesis
      by (rule polled_update [OF assms(7), of _ k]) (auto simp: w0_def True set_flow_def new_datagram_def bytes_concat)
  qed (simp add: w0_def assms(7))
  note unf = assms(1) [unfolded add_first_datagrams_def assms(2) Let_def prod.case, folded new_def, folded w0_def]
  have plain: "u_read env sock 2048 0 (rc_com rc) w0 =
      (case sys_recv sock 2048 0 w0 of None \<Rightarrow> None | Some (v, g, w1) \<Rightarrow> Some (ok (v, g, rc_com rc, w1)))"
    using assms(4,5) by (simp add: u_read_def)
  show ?thesis
  proof (cases "sys_recv sock 2048 0 w0")
    case None
    then show ?thesis using unf p0 by (simp add: plain)
  next
    case (Some x)
    obtain red g w1 where x: "x = (red, g, w1)" by (rule prod_cases3)
    note p1 = polled_recv [OF Some [unfolded x] p0]
    note unf = unf [unfolded plain Some x option.case sum.case prod.case]
    obtain enk d where e: "enqueue g (the (w_recv w1 ?k)) = (enk, d)" by force
    have add: "polled key (w2\<lparr>w_virt := finsert (sint k) (w_virt w2)\<rparr>)"
      if "w_recv w2 = (w_recv w1)(?k := Some d2)" "w_virt w2 = w_virt w1" for w2 d2
      by (rule polled_update [OF p1, of _ k "Some d2"]) (use that in auto)
    obtain left w2 where c: "create_socket_left env 2 si' (set_flow ?k d w1) = (Inr left, w2)"
      using assms(3) [of "set_flow ?k d w1"] by (metis prod.collapse)
    note fr = create_frame [OF c]
    obtain q where q: "rc_fdq rc = Some q" using assms(6) by blast
    consider "red < 0" | "0 \<le> red" "\<not> new" | "0 \<le> red" new by linarith
    then show ?thesis
    proof cases
      case 1
      then show ?thesis using unf p1 by auto
    next
      case 2
      then show ?thesis using unf e add [of "set_flow ?k d w1" d] by (auto simp: set_flow_def)
    next
      case 3
      then show ?thesis
        using unf e c q add [of "set_flow ?k (d\<lparr>dg_left := Some left\<rparr>) w2" "d\<lparr>dg_left := Some left\<rparr>"] fr
        by (auto simp: set_flow_def handler_push_all_def on_queue_def split: prod.splits)
    qed
  qed
qed

definition internet :: "nat \<Rightarrow> bool" where
  "internet f \<longleftrightarrow> f = AF_INET \<or> f = AF_INET6"

definition sockets_made :: "udp_env \<Rightarrow> bool" where
  "sockets_made env \<longleftrightarrow> (\<forall>si w. internet (ai_family (si_src si)) \<longrightarrow> (\<exists>fd. fst (create_socket_left env 2 si w) = ok fd))"

lemma unpacked_fields:
  "ai_ss (unpacked api a) = Some a" "ai_family (unpacked api a) = fst (ss_address_unpack api a)"
  by (simp_all add: unpacked_def ai_unpack_def new_AddressInfo_def case_prod_unfold Let_def)

lemma unpacked_internet: "internet (ss_family a) \<Longrightarrow> internet (ai_family (unpacked api a))"
  by (auto simp: unpacked_fields ss_address_unpack_def internet_def split: option.split)

lemma session_key_family:
  "ai_family (si_src (snd (create_session_key api draw neg si))) = ai_family (si_src si)"
  by (simp add: create_session_key_def ai_pack_def Let_def)

lemma anc_source:
  "process_anc_data env name cm = Some creds \<Longrightarrow> si_src creds = unpacked (ue_inet env) name"
  by (auto simp: process_anc_data_def split: list.splits cmsg.splits)

lemma polled_worker:
  assumes "worker_step env rm dead par pv made wk rc w = (r, wk', rc', w')" "polled key w"
  shows "polled key w'"
proof -
  have "\<exists>k d. w_recv w k = Some d \<and> w' = set_flow k (d\<lparr>dg_cx := Some (fst made)\<rparr>) w" if "w' \<noteq> w"
    using assms(1) that
    by (auto simp: worker_step_def Let_def split: if_splits sum.splits prod.splits option.splits)
  then show ?thesis
    using assms(2) by (cases "w' = w") (auto simp: polled_def set_flow_def queue_bytes_def split: if_splits)
qed

text \<open>What the threads do with the shared state, one stretch under a lock at a time. \<open>Filed k\<close> is a
  datagram filed by a receiver under the key \<open>k\<close>, \<open>Erased fd\<close> an erasure from the polled set outside of
  the stretch that decided on it: in \<^verbatim>\<open>UDPCom::read\<close> after the test, in \<^verbatim>\<open>UDPCom::shutdown\<close> before the
  removal of the flow, and in the poll loop of a worker after the handler or when there is none.\<close>

datatype udp_label = Filed u32 | Erased int | Other_call

definition add_label :: "u32 \<Rightarrow> int result option \<Rightarrow> udp_label" where
  "add_label k r = (case r of Some (Inr v) \<Rightarrow> if 0 \<le> v then Filed k else Other_call | _ \<Rightarrow> Other_call)"

inductive udp_step ::
    "udp_env \<Rightarrow> (u32 list \<Rightarrow> u32) \<Rightarrow> (int \<Rightarrow> bool) \<Rightarrow> udp_label \<Rightarrow> udp_world \<Rightarrow> udp_world \<Rightarrow> bool"
  for env draw wr where
  filing: "process_anc_data env name cm = Some si \<Longrightarrow> internet (ss_family name) \<Longrightarrow>
    create_session_key (ue_inet env) draw True si = (k, si') \<Longrightarrow>
    0 \<le> sock \<Longrightarrow> uc_id (rc_com rc) = 0 \<Longrightarrow> rc_fdq rc \<noteq> None \<Longrightarrow>
    add_first_datagrams env draw wr sock si rc w = (r, rc', w') \<Longrightarrow> udp_step env draw wr (add_label k r) w w'"
| work: "worker_step env rm dead par pv made wk rc w = (r, wk', rc', w') \<Longrightarrow> udp_step env draw wr Other_call w w'"
| pool: "read_from_pool fd n flags w = Some (ok (r, g, w')) \<Longrightarrow> int_range fd \<Longrightarrow> udp_step env draw wr Other_call w w'"
| recv: "sys_recv fd n flags w = Some (r, g, w') \<Longrightarrow> udp_step env draw wr Other_call w w'"
| "write": "udp_step env draw wr Other_call w (snd (u_write env fd bs flags u w))"
| connect: "udp_step env draw wr Other_call w (snd (snd (u_connect env addrs host port u w)))"
| close_real: "udp_step env draw wr Other_call w (snd (shutdown_real env fd u w))"
| remove: "int_range fd \<Longrightarrow> udp_step env draw wr Other_call w (snd (remove_datagram_entry env fd w))"
| erase: "udp_step env draw wr (Erased fd) w (erase_virt fd w)"
| kernel: "udp_step env draw wr Other_call w (w\<lparr>w_rx := rx\<rparr>)"

inductive udp_run ::
    "udp_env \<Rightarrow> (u32 list \<Rightarrow> u32) \<Rightarrow> (int \<Rightarrow> bool) \<Rightarrow> udp_world \<Rightarrow> (udp_label \<times> udp_world) list \<Rightarrow> udp_world \<Rightarrow> bool"
  for env draw wr w0 where
  start: "udp_run env draw wr w0 [] w0"
| further: "udp_run env draw wr w0 tr w \<Longrightarrow> udp_step env draw wr l w w' \<Longrightarrow> udp_run env draw wr w0 (tr @ [(l, w')]) w'"

lemma made_for_sender:
  assumes "sockets_made env" "process_anc_data env name cm = Some si" "internet (ss_family name)"
    "create_session_key (ue_inet env) draw True si = (k, si')"
  shows "\<exists>fd. fst (create_socket_left env 2 si' w) = ok fd"
proof -
  have "internet (ai_family (si_src si'))"
    using session_key_family [of "ue_inet env" draw True si] anc_source [OF assms(2)]
      unpacked_internet [OF assms(3)] assms(4) by simp
  then show ?thesis using assms(1) by (simp add: sockets_made_def)
qed

lemma polled_step:
  assumes "udp_step env draw wr l w w'" "sockets_made env" "polled key w" "l \<noteq> Erased (sint key)"
  shows "polled key w'"
  using assms(1)
proof cases
  case (filing name cm si k si' sock rc r rc')
  show ?thesis
    using polled_add [OF filing(8,4) made_for_sender [OF assms(2) filing(2,3,4)] filing(5,6,7) assms(3)] by blast
next
  case (erase fd)
  then show ?thesis using assms(3,4) by (auto simp: polled_def erase_virt_def)
qed (use assms(3) in \<open>auto intro: polled_worker polled_read_from_pool polled_recv polled_write polled_connect
    polled_shutdown_real polled_remove polled_cong [of key w]\<close>)

lemma filed_polled:
  assumes "udp_step env draw wr (Filed key) w w'" "sockets_made env"
  shows "polled key w'"
  using assms(1)
proof cases
  case (filing name cm si k si' sock rc r rc')
  have k: "k = key" "\<exists>v \<ge> 0. r = Some (ok v)"
    using filing(1) by (auto simp: add_label_def split: option.splits sum.splits if_splits)
  have "polled 0 w" by (simp add: polled_def)
  then have "sint k |\<in>| w_virt w'"
    using polled_add [OF filing(8,4) made_for_sender [OF assms(2) filing(2,3,4)] filing(5,6,7), of 0] k(2) by blast
  then show ?thesis using k(1) by (simp add: polled_def)
qed

lemma last_erasure:
  assumes "udp_run env draw wr w0 tr w" "polled key w0" "sockets_made env" "\<not> polled key w"
  shows "\<exists>before v after. tr = before @ (Erased (sint key), v) # after \<and> \<not> polled key v \<and>
    (\<forall>(l, x) \<in> set after. l \<noteq> Filed key \<and> \<not> polled key x)"
  using assms(1,4)
proof induction
  case start
  then show ?case using assms(2) by simp
next
  case (further tr w l w')
  show ?case
  proof (cases "l = Erased (sint key)")
    case True
    then show ?thesis using further(4) by (intro exI [of _ tr] exI [of _ w'] exI [of _ "[]"]) simp
  next
    case False
    have np: "\<not> polled key w" using polled_step [OF further(2) assms(3) _ False] further(4) by blast
    have nf: "l \<noteq> Filed key" using filed_polled [OF _ assms(3)] further(2,4) by blast
    obtain before v after where "tr = before @ (Erased (sint key), v) # after" "\<not> polled key v"
      "\<forall>(l, x) \<in> set after. l \<noteq> Filed key \<and> \<not> polled key x"
      using further(3) [OF np] by blast
    then show ?thesis
      using nf further(4) by (intro exI [of _ before] exI [of _ v] exI [of _ "after @ [(l, w')]"]) auto
  qed
qed

text \<open>C21: Over every interleaving of what receivers, workers and coms do under the locks and of their
  erasures outside of them, a virtual socket with unread early data is in the set the proxies poll,
  unless it was erased by an erasure of its own number outside of the locks and since then no datagram of
  its flow was filed. So no call loses a socket with data by itself: receiving, handing over, reading in
  part, closing and connecting keep it polled, and the next datagram repairs the loss. The sockets back to
  the senders are assumed to be made.\<close>

theorem pending_data_is_polled:
  assumes "udp_run env draw wr w tr w'" and "w_recv w = Map.empty" and "sockets_made env"
    and "w_recv w' (ucast key) = Some d" and "0 < queue_bytes d" and "sint (key :: u32) < 0"
  shows "sint key |\<in>| w_virt w' \<or>
    (\<exists>before v after. tr = before @ (Erased (sint key), v) # after \<and> \<not> polled key v \<and>
       (\<forall>(l, x) \<in> set after. l \<noteq> Filed key \<and> \<not> polled key x))"
proof (cases "polled key w'")
  case True
  then show ?thesis using assms(4-6) by (simp add: polled_def)
next
  case False
  have "polled key w" using assms(2) by (simp add: polled_def)
  then show ?thesis using last_erasure [OF assms(1) _ assms(3) False] by blast
qed

text \<open>The calls of a com are made of these steps: \<^verbatim>\<open>UDPCom::read\<close> is a read of the pool and, when its
  test finds nothing, an erasure; \<^verbatim>\<open>UDPCom::shutdown\<close> erases and removes.\<close>

definition reaches :: "udp_env \<Rightarrow> (u32 list \<Rightarrow> u32) \<Rightarrow> (int \<Rightarrow> bool) \<Rightarrow> udp_world \<Rightarrow> udp_world \<Rightarrow> bool" where
  "reaches env draw wr w w' \<longleftrightarrow> (\<exists>tr. udp_run env draw wr w tr w')"

lemma reaches_refl [intro]: "reaches env draw wr w w"
  unfolding reaches_def by (rule exI, rule udp_run.start)

lemma reaches_step: "reaches env draw wr w v \<Longrightarrow> udp_step env draw wr l v v' \<Longrightarrow> reaches env draw wr w v'"
  unfolding reaches_def using udp_run.further by blast

lemma read_is_a_run:
  assumes "uc_id u \<noteq> 0" and "\<not> uc_depleted u" and "u_read env fd n flags u w = Some (ok (r, g, u', w'))"
  shows "reaches env draw wr w w'"
proof -
  let ?k = "sint (uc_id u)"
  have range: "int_range ?k" using sint_lt [of "uc_id u"] sint_ge [of "uc_id u"] by (simp add: int_range_def)
  obtain w1 where w1: "read_from_pool ?k n flags w = Some (ok (r, g, w1))"
    "w' = (if in_readset env w1 ?k then w1 else erase_virt ?k w1)"
    using assms by (auto simp: u_read_def split: option.splits sum.splits prod.splits if_splits)
  have "reaches env draw wr w w1" by (rule reaches_step [OF reaches_refl udp_step.pool [OF w1(1) range]])
  then show ?thesis using w1(2) reaches_step [OF _ udp_step.erase] by simp
qed

lemma shutdown_is_a_run:
  assumes "int_range fd"
  shows "reaches env draw wr w (snd (u_shutdown env fd u w))"
proof -
  have virtual: "reaches env draw wr w (shutdown_virtual env k v)" if "int_range k" "reaches env draw wr w v" for k v
    unfolding shutdown_virtual_def
    by (rule reaches_step [OF reaches_step [OF that(2) udp_step.erase] udp_step.remove [OF that(1)]])
  obtain u1 w1 where 1: "(if 0 < fd then shutdown_real env fd u w else (u, shutdown_virtual env fd w)) = (u1, w1)" by force
  have "reaches env draw wr w (snd (shutdown_real env fd u w))" by (rule reaches_step [OF reaches_refl udp_step.close_real])
  then have "reaches env draw wr w w1"
    using 1 virtual [OF assms reaches_refl] by (auto split: if_splits)
  moreover have "int_range (sint (uc_id u1))"
    using sint_lt [of "uc_id u1"] sint_ge [of "uc_id u1"] by (simp add: int_range_def)
  ultimately show ?thesis using virtual by (simp add: u_shutdown_def 1)
qed

text \<open>The test of \<^verbatim>\<open>UDPCom::read\<close> and the erasure after it are not under one lock. A receiver that files a
  datagram between them has it filed in a flow that is no longer polled.\<close>

theorem read_race_hides_data:
  assumes "arrives env draw sock name cm si key si'" and "uc_id (rc_com rc) = 0"
    and "w_recv w (ucast key) = Some d" and "dg_rx d = slots [] 5" and "dg_left d = Some left" and "\<not> ue_in_read env left"
    and "w_rx w sock = Packet b name cm # rest" and "b \<noteq> []" and "length b \<le> 2048"
  shows "\<not> in_readset env w (sint key) \<and>
    (\<exists>w'. add_first_datagrams env draw wr sock si rc w = (Some (ok 0), rc, w') \<and>
       (\<exists>d'. w_recv (erase_virt (sint key) w') (ucast key) = Some d' \<and> queue_bytes d' = length b) \<and>
       sint key |\<notin>| w_virt (erase_virt (sint key) w'))"
proof -
  have s: "sint key < 0" using session_key_sign arrivesD(3) [OF assms(1)] by (metis fst_conv)
  have 4: "dg_rx d = slots [] (Suc 4)" using assms(4) by simp
  have q: "\<not> 0 < queue_bytes d" using assms(4) by (simp add: slots_def bytes_concat)
  show ?thesis
    using add_to_flow [OF assms(1,2,3) 4 _ assms(7,9), of wr] s q assms(3,5,6)
    by (simp add: in_readset_def erase_virt_def slots_def bytes_concat)
qed

text \<open>When the socket back to the sender of a new flow cannot be made, the flow stays in the
  table without one and is neither announced nor polled; no later datagram announces it or tries to
  make the socket again.\<close>

theorem flow_without_socket_is_lost:
  assumes "0 \<le> sock" and "create_session_key (ue_inet env) draw True si = (key, si')"
    and "uc_id (rc_com rc) = 0" and "w_recv w (ucast key) = None"
    and "w_rx w sock = Packet b name cm # rest" and "length b \<le> 2048"
    and "create_socket_left env 2 si' w = (Inl x, w1)"
  shows "(\<exists>d w2. add_first_datagrams env draw wr sock si rc w = (Some (Inl x), rc, w2) \<and>
      w_recv w2 (ucast key) = Some d \<and> dg_left d = None \<and> concat (dg_rx d) = b \<and> w_virt w2 = w_virt w) \<and>
    (\<forall>w3 d3 rc3 r rc4 w4. w_recv w3 (ucast key) = Some d3 \<longrightarrow> uc_id (rc_com rc3) = 0 \<longrightarrow>
      add_first_datagrams env draw wr sock si rc3 w3 = (r, rc4, w4) \<longrightarrow>
      rc_fdq rc4 = rc_fdq rc3 \<and> w_calls w4 = w_calls w3 \<and>
      (\<exists>d4. w_recv w4 (ucast key) = Some d4 \<and> dg_left d4 = dg_left d3))"
proof -
  have slots: "put_slot b (replicate 5 []) = Some (slots [b] 4)"
    using put_slot_next [of "[]" b 4] by (simp add: slots_def eval_nat_numeral)
  note fr = create_frame [OF assms(7)]
  have 1: "\<exists>d w2. add_first_datagrams env draw wr sock si rc w = (Some (Inl x), rc, w2) \<and>
      w_recv w2 (ucast key) = Some d \<and> dg_left d = None \<and> concat (dg_rx d) = b \<and> w_virt w2 = w_virt w"
    using assms(1-6) slots
    by (simp add: add_first_datagrams_def u_read_def sys_recv_def msg_peek_def enqueue_def set_flow_def Let_def
        new_datagram_def create_put [OF assms(7)] fr slots_def)
  have 2: "rc_fdq rc4 = rc_fdq rc3 \<and> w_calls w4 = w_calls w3 \<and>
      (\<exists>d4. w_recv w4 (ucast key) = Some d4 \<and> dg_left d4 = dg_left d3)"
    if "w_recv w3 (ucast key) = Some d3" "uc_id (rc_com rc3) = 0"
      "add_first_datagrams env draw wr sock si rc3 w3 = (r, rc4, w4)" for w3 d3 rc3 r rc4 w4
    using that assms(1,2)
    by (auto simp: add_first_datagrams_def u_read_def sys_recv_def enqueue_def set_flow_def Let_def
        split: prod.splits if_splits list.splits sock_item.splits option.splits)
  show ?thesis using 1 2 by blast
qed

text \<open>The session key takes the bytes of an IPv4 address from a sender that the kernel names
  by a mapped IPv6 address, where they are the flow label: two clients with the same source port get
  the same key, whatever their addresses.\<close>

theorem mapped_clients_share_flow:
  assumes "ss_family a = AF_INET6" and "ss_family b = AF_INET6"
    and "strip_mapped (ntop6 api (sin6_addr a)) \<noteq> None" and "strip_mapped (ntop6 api (sin6_addr b)) \<noteq> None"
    and "sin_port a = sin_port b" and "sin_addr a = sin_addr b"
  shows "fst (create_session_key api draw True \<lparr>si_src = unpacked api a, si_dst = unpacked api d\<rparr>) =
    fst (create_session_key api draw True \<lparr>si_src = unpacked api b, si_dst = unpacked api d\<rparr>)"
proof -
  have "fst (ss_address_unpack api a) \<noteq> AF_INET6" "fst (ss_address_unpack api b) \<noteq> AF_INET6"
    using assms(1-4) by (auto simp: ss_address_unpack_def AF_INET_def AF_INET6_def)
  then show ?thesis
    by (simp add: create_session_key_def unpacked_fields create_session_key4_def Let_def assms(5,6))
qed

lemma of_char_decimal_digit: "n < 10 \<Longrightarrow> of_char (decimal_digit n) - (48 :: nat) = n"
  by (simp add: decimal_digit_def)

lemma parse_decimal_inverse: "parse_decimal (decimal n) = n"
proof (induction n rule: decimal.induct)
  case (1 n)
  then show ?case
    by (subst decimal.simps) (auto simp: parse_decimal_def of_char_decimal_digit)
qed

text \<open>A context made by a transparent worker gets as its destination the original address and
  port of the flow, through their decimal form and back.\<close>

theorem transparent_destination:
  assumes "w_recv w (vkey vs) = Some d" and "flow_address env (dg_dst d) = Some (h, p, l3)"
    and "wk_type wk = PT_transparent"
  shows "\<exists>c'. prepare_flow env rm vs par pv wk c w = Some c' \<and> uc_dst_resolved (fc_com c') \<and>
     uc_dst_host (fc_com c') = h \<and> uc_dst_port (fc_com c') = p \<and> uc_l3 (fc_com c') = l3"
proof -
  have "unat p < 2 ^ 16" using unsigned_less [of p] by simp
  then show ?thesis
    using assms
    by (auto simp: prepare_flow_def resolve_nonlocal_dst_socket_def u_resolve_socket_def parse_decimal_inverse Let_def
        split: prod.splits)
qed

section \<open>Witnesses\<close>

definition demo_name :: "byte list" where
  "demo_name = pack_ss demo_inet AF_INET ''127.0.0.1'' 53"

definition demo_si :: SocketInfo where
  "demo_si = \<lparr>si_src = unpacked demo_inet demo_name, si_dst = unpacked demo_inet demo_name\<rparr>"

definition demo_cm :: "cmsg list" where
  "demo_cm = [Cmsg 0 20 demo_name]"

definition demo_rc :: receiver where
  "demo_rc = \<lparr>rc_fdq = Some new_FdQueue, rc_com = new_UDPCom AF_INET6, rc_quick = None\<rparr>"

lemma demo_anc: "process_anc_data demo_uenv demo_name demo_cm = Some demo_si"
  by (simp add: process_anc_data_def demo_cm_def is_orig_dst_def demo_si_def demo_uenv_def)

lemma demo_key: "create_session_key demo_inet (\<lambda>_. 7) True demo_si = (0x80000007, demo_si)"
  by (simp add: create_session_key_def create_session_key4_def create_session_key6_def sign_bit_def
      demo_si_def unpacked_fields Let_def)

lemma demo_ss: "ss_family demo_name = AF_INET"
  unfolding demo_name_def
  by (subst pack_ss_fields) (auto simp: demo_inet_def AF_INET_def AF_INET6_def)

lemma demo_family: "ai_family (si_src demo_si) = AF_INET"
  by (simp add: demo_si_def unpacked_fields ss_address_unpack_def demo_ss AF_INET_def AF_INET6_def split: option.split)

lemma demo_create: "fst (create_socket_left demo_uenv 2 demo_si w) = ok (5 + int (length (w_calls w)))"
proof -
  have "ss_family (pack_ss demo_inet AF_INET h p) = AF_INET" for h p
    by (subst pack_ss_fields) (auto simp: demo_inet_def AF_INET_def AF_INET6_def split: if_splits)
  then show ?thesis
    by (simp add: create_socket_left_def socket_create_def socket_transparent_def si_pack_def ai_pack_def demo_family sys_def
       demo_uenv_def AF_INET_def AF_INET6_def Let_def)
qed

definition demo_worker :: "proxy_type \<Rightarrow> worker" where
  "demo_worker t = \<lparr>wk_id = 0, wk_type = t, wk_nonlocal_dst = True, wk_proxies = 0, wk_dead = False,
       wk_monitored = [], wk_ready = [], wk_deleted = []\<rparr>"



definition demo_arrival :: udp_world where
  "demo_arrival = demo_uworld\<lparr>w_rx := (\<lambda>_. [])(3 := [Packet [1, 2] demo_name demo_cm])\<rparr>"

lemma demo_arrives: "arrives demo_uenv (\<lambda>_. 7) 3 demo_name demo_cm demo_si 0x80000007 demo_si"
  using demo_anc demo_key by (simp add: arrives_def demo_uenv_def)

lemma demo_sockets_made: "sockets_made demo_uenv"
  unfolding sockets_made_def
proof (intro allI impI)
  fix si :: SocketInfo and w
  assume "internet (ai_family (si_src si))"
  then show "\<exists>fd. fst (create_socket_left demo_uenv 2 si w) = ok fd"
    by (auto simp: create_socket_left_def socket_create_def socket_transparent_def internet_def sys_def
       demo_uenv_def AF_INET_def AF_INET6_def Let_def)
qed

theorem pending_data_is_polled_witness:
  "\<exists>w' d. udp_run demo_uenv (\<lambda>_. 7) (\<lambda>_. True) demo_arrival [(Filed 0x80000007, w')] w' \<and>
     w_recv w' (ucast (0x80000007 :: u32)) = Some d \<and> queue_bytes d = 2 \<and> sint (0x80000007 :: u32) |\<in>| w_virt w'"
proof -
  let ?key = "0x80000007 :: u32"
  have "fst (create_socket_left demo_uenv 2 demo_si demo_arrival) = ok 5"
    by (simp add: demo_create) (simp add: demo_arrival_def demo_uworld_def)
  then obtain w1 where c1: "create_socket_left demo_uenv 2 demo_si demo_arrival = (Inr 5, w1)"
    by (cases "create_socket_left demo_uenv 2 demo_si demo_arrival") auto
  have rx: "w_rx demo_arrival 3 = Packet [1, 2] demo_name demo_cm # []" by (simp add: demo_arrival_def)
  define w' where "w' = w1\<lparr>w_recv := (w_recv demo_arrival)(ucast ?key \<mapsto> flow_of demo_si 5 [[1, 2]]),
        w_virt := finsert (sint ?key) (w_virt demo_arrival), w_rx := (w_rx demo_arrival)(3 := [])\<rparr>"
  define rc' where "rc' = demo_rc\<lparr>rc_fdq := Some (snd (push_all (\<lambda>_. True) (sint ?key) new_FdQueue))\<rparr>"
  have add: "add_first_datagrams demo_uenv (\<lambda>_. 7) (\<lambda>_. True) 3 demo_si demo_rc demo_arrival = (Some (ok 1), rc', w')"
    unfolding w'_def rc'_def
    by (subst add_new_flow [OF demo_arrives _ _ rx _ _ c1, where q = new_FdQueue])
      (simp_all add: demo_rc_def new_UDPCom_def flow_of_def new_datagram_def, simp add: demo_arrival_def demo_uworld_def)
  have "udp_step demo_uenv (\<lambda>_. 7) (\<lambda>_. True) (add_label ?key (Some (ok 1))) demo_arrival w'"
    by (rule udp_step.filing [OF demo_anc _ _ _ _ _ add])
      (use demo_key in \<open>simp_all add: demo_ss internet_def demo_uenv_def demo_rc_def new_UDPCom_def\<close>)
  then have "udp_step demo_uenv (\<lambda>_. 7) (\<lambda>_. True) (Filed ?key) demo_arrival w'" by (simp add: add_label_def)
  from udp_run.further [OF udp_run.start this]
  have run: "udp_run demo_uenv (\<lambda>_. 7) (\<lambda>_. True) demo_arrival [(Filed ?key, w')] w'" by simp
  have q: "queue_bytes (flow_of demo_si 5 [[1, 2]]) = 2" by (simp add: flow_of_def slots_def bytes_concat)
  have w': "w_recv w' (ucast ?key) = Some (flow_of demo_si 5 [[1, 2]])" by (simp add: w'_def)
  have "w_recv demo_arrival = Map.empty" by (simp add: demo_arrival_def demo_uworld_def)
  from pending_data_is_polled [OF run this demo_sockets_made w'] q
  have "sint ?key |\<in>| w_virt w'" by (simp add: Cons_eq_append_conv)
  then show ?thesis using run w' q by blast
qed

definition demo_failing :: udp_env where
  "demo_failing = demo_uenv\<lparr>ue_sys := (\<lambda>log c. - 1)\<rparr>"

theorem flow_without_socket_is_lost_witness:
  "\<exists>d w2. add_first_datagrams demo_failing (\<lambda>_. 7) (\<lambda>_. True) 3 demo_si demo_rc demo_arrival =
     (Some (Inl Socket_info_error), demo_rc, w2) \<and> w_recv w2 (ucast (0x80000007 :: u32)) = Some d \<and> dg_left d = None \<and>
     concat (dg_rx d) = [1, 2] \<and> w_virt w2 = w_virt demo_arrival"
proof -
  have c: "create_socket_left demo_failing 2 demo_si demo_arrival =
      (Inl Socket_info_error, demo_arrival\<lparr>w_calls := [Sys_socket 2 2 0]\<rparr>)"
    by (simp add: create_socket_left_def socket_create_def sys_def demo_failing_def demo_family AF_INET_def)
      (simp add: demo_arrival_def demo_uworld_def)
  have rx: "w_rx demo_arrival 3 = Packet [1, 2] demo_name demo_cm # []" by (simp add: demo_arrival_def)
  have k: "create_session_key (ue_inet demo_failing) (\<lambda>_. 7) True demo_si = (0x80000007, demo_si)"
    using demo_key by (simp add: demo_failing_def demo_uenv_def)
  show ?thesis
    using flow_without_socket_is_lost [OF _ k _ _ rx _ c, of demo_rc "\<lambda>_. True"]
    by (simp add: demo_rc_def new_UDPCom_def) (simp add: demo_arrival_def demo_uworld_def)
qed

definition demo_inet6 :: inet_api where
  "demo_inet6 = demo_inet\<lparr>ntop6 := (\<lambda>a. ''::ffff:10.0.0.1'')\<rparr>"

text \<open>The storage of a mapped IPv4 sender.\<close>

definition mapped_sender :: "byte list \<Rightarrow> byte list" where
  "mapped_sender ip = [10, 0, 16, 0, 0, 0, 0, 0] @ replicate 10 0 @ [255, 255] @ ip @ replicate 104 0"

theorem mapped_clients_share_flow_witness:
  "fst (create_session_key demo_inet6 sum_list True
      \<lparr>si_src = unpacked demo_inet6 (mapped_sender [10, 0, 0, 1]), si_dst = unpacked demo_inet6 demo_name\<rparr>) =
   fst (create_session_key demo_inet6 sum_list True
      \<lparr>si_src = unpacked demo_inet6 (mapped_sender [10, 0, 0, 2]), si_dst = unpacked demo_inet6 demo_name\<rparr>)"
  by (rule mapped_clients_share_flow)
    (simp_all add: mapped_sender_def ss_family_def sin_port_def sin_addr_def AF_INET6_def demo_inet6_def strip_mapped_def)

theorem transparent_destination_witness:
  "\<forall>rm par pv c. \<exists>c'. prepare_flow demo_uenv rm (-5) par pv (demo_worker PT_transparent) c
      (set_flow (vkey (-5)) (flow_of demo_si 5 []) demo_uworld) = Some c' \<and>
     uc_dst_host (fc_com c') = ''127.0.0.1'' \<and> uc_dst_port (fc_com c') = 53"
proof -
  have f: "flow_address demo_uenv (dg_dst (flow_of demo_si 5 [])) = Some (''127.0.0.1'', 53, AF_INET)"
  proof -
    have "sin_addr demo_name = [127, 0, 0, 1]" "sin_port demo_name = be_bytes 2 (53 :: u16)"
      using pack_ss_fields [of demo_inet "''127.0.0.1''"] by (auto simp: demo_name_def demo_inet_def AF_INET_def AF_INET6_def)
    then show ?thesis
      by (simp add: flow_address_def flow_of_def demo_si_def unpacked_fields demo_ss demo_uenv_def demo_inet_def be16.dec_enc)
  qed
  show ?thesis
  proof (intro allI)
    fix rm par pv c
    let ?w = "set_flow (vkey (-5)) (flow_of demo_si 5 []) demo_uworld"
    let ?wk = "demo_worker PT_transparent"
    have "w_recv ?w (vkey (-5)) = Some (flow_of demo_si 5 [])" by (simp add: set_flow_def)
    from transparent_destination [OF this f, of ?wk rm par pv c]
      demo_worker_def [of PT_transparent]
    show "\<exists>c'. prepare_flow demo_uenv rm (-5) par pv ?wk c ?w = Some c' \<and>
        uc_dst_host (fc_com c') = ''127.0.0.1'' \<and> uc_dst_port (fc_com c') = 53" by auto
  qed
qed

end
