(* ===== verification/Acceptor.thy ===== *)
theory Acceptor
  imports Receiver
begin

text \<open>
  Acceptors and their workers: \<^verbatim>\<open>threadedacceptor.cpp\<close> and \<^verbatim>\<open>threadedworker.hpp\<close>.

  \<open>worker_pool\<close> is \<^verbatim>\<open>hasWorkers\<close> with the queue it shares with the acceptor; \<open>task\<close> is a worker with its
  thread. A worker is a master proxy as well: that part is the type variable, and the virtual members a
  round calls are fields of \<open>worker_env\<close>. Each may throw; where a socket went is recorded in the task.
  \<open>acc_step\<close> takes the locked call of a thread as one step.

  Shown: no accepted socket is lost or handed out twice, over every interleaving; identifiers and hint
  pipes of workers agree with the queue. Also that a failed context leaves its socket open, and that
  the initial preference makes no workers. The contract of the queue is that of \<open>Fdq\<close>.
\<close>

section \<open>Workers\<close>

datatype thread_state = Not_started | Started | Joined

text \<open>A worker: the fields \<^verbatim>\<open>run\<close> and \<^verbatim>\<open>create_workers\<close> set, its part as a master proxy, and where the
  sockets it took from the queue went.\<close>

record 'm task =
  tk_id :: u32
  tk_type :: proxy_type
  tk_hint :: int
  tk_dead :: bool
  tk_nonlocal_dst :: bool
  tk_pollroot :: bool
  tk_has_parent :: bool
  tk_thread :: thread_state
  tk_master :: 'm
  tk_handed :: "int list"
  tk_closed :: "int list"
  tk_leaked :: "int list"

definition new_task :: "u32 \<Rightarrow> proxy_type \<Rightarrow> int \<Rightarrow> 'm \<Rightarrow> 'm task" where
  "new_task i pt hint m = \<lparr>tk_id = i, tk_type = pt, tk_hint = hint, tk_dead = False, tk_nonlocal_dst = False, tk_pollroot = False,
     tk_has_parent = False, tk_thread = Not_started, tk_master = m, tk_handed = [], tk_closed = [], tk_leaked = []\<rparr>"

record 'm worker_pool =
  pl_pollroot :: bool
  pl_fdq :: "FdQueue option"
  pl_preference :: int
  pl_workers_total :: int
  pl_tasks :: "'m task list"

fun create_loop :: "(nat \<Rightarrow> pair_result) \<Rightarrow> (u32 \<Rightarrow> 'm) \<Rightarrow> proxy_type \<Rightarrow> nat \<Rightarrow> nat \<Rightarrow> FdQueue \<Rightarrow> 'm task list \<Rightarrow>
    FdQueue \<times> 'm task list" where
  "create_loop pairs mk pt i 0 q ts = (q, ts)"
| "create_loop pairs mk pt i (Suc n) q ts =
     (let this_worker_id = fq_worker_id_max q;
          q = q\<lparr>fq_worker_id_max := this_worker_id + 1\<rparr>;
          (pa, q) = new_pair this_worker_id (pairs i) q
      in create_loop pairs mk pt (i + 1) n q (ts @ [new_task this_worker_id pt (fst pa) (mk this_worker_id)]))"

definition create_workers ::
    "(nat \<Rightarrow> pair_result) \<Rightarrow> (u32 \<Rightarrow> 'm) \<Rightarrow> proxy_type \<Rightarrow> int \<Rightarrow> 'm worker_pool \<Rightarrow> (int \<times> 'm worker_pool) result" where
  "create_workers pairs mk pt cnt p =
     (if cnt < 0 then ok (cnt, p\<lparr>pl_workers_total := cnt\<rparr>)
      else
        let nthreads = (word_of_int (if cnt = 0 then pl_preference p else cnt) :: u32);
            p = p\<lparr>pl_workers_total := sint nthreads\<rparr>
        in if nthreads = 0 then ok (0, p)
           else
             case pl_fdq p of
               None \<Rightarrow> raise Undefined_behaviour
             | Some q \<Rightarrow>
                 let (q, ts) = create_loop pairs mk pt 0 (unat nthreads) q (pl_tasks p)
                 in ok (sint nthreads, p\<lparr>pl_fdq := Some q, pl_tasks := ts\<rparr>))"

text \<open>A worker whose thread was not started has no thread object to ask.\<close>

definition join_workers :: "'m worker_pool \<Rightarrow> 'm worker_pool result" where
  "join_workers p =
     (if pl_tasks p = [] then ok p
      else
        let ts = map (\<lambda>t. t\<lparr>tk_dead := True\<rparr>) (pl_tasks p)
        in if Not_started \<in> set (map tk_thread ts) then raise Undefined_behaviour
           else ok (p\<lparr>pl_tasks := []\<rparr>))"

section \<open>The acceptor\<close>

definition acceptor_on_new_raw :: "(int \<Rightarrow> bool) \<Rightarrow> int \<Rightarrow> 'm worker_pool \<Rightarrow> 'm worker_pool result" where
  "acceptor_on_new_raw wr s p =
     (case handler_push_all (pl_fdq p) wr s of Inl e \<Rightarrow> Inl e | Inr (_, q) \<Rightarrow> ok (p\<lparr>pl_fdq := Some q\<rparr>))"

definition start_task :: "bool \<Rightarrow> 'm task \<Rightarrow> 'm task" where
  "start_task nonlocal t = t\<lparr>tk_nonlocal_dst := nonlocal, tk_pollroot := True, tk_has_parent := True, tk_thread := Started\<rparr>"

text \<open>\<^verbatim>\<open>run\<close> up to the loop of the proxy.\<close>

definition acceptor_run ::
    "(nat \<Rightarrow> pair_result) \<Rightarrow> (u32 \<Rightarrow> 'm) \<Rightarrow> proxy_type \<Rightarrow> bool \<Rightarrow> 'm worker_pool \<Rightarrow> (int \<times> 'm worker_pool) result" where
  "acceptor_run pairs mk pt nonlocal p =
     (case create_workers pairs mk pt 0 (p\<lparr>pl_pollroot := True\<rparr>) of
        Inl e \<Rightarrow> Inl e
      | Inr (_, p) \<Rightarrow> let p = p\<lparr>pl_tasks := map (start_task nonlocal) (pl_tasks p)\<rparr> in ok (int (length (pl_tasks p)), p))"

section \<open>The worker\<close>

datatype resolved = Not_resolved | Nonlocal_dst | Redirected_dst

record new_context =
  nc_socket :: int
  nc_delayed :: bool
  nc_nonlocal_dst :: bool
  nc_resolved :: resolved

text \<open>The virtual members of the worker: making a context, whether it waits for its peer, setting it up,
  taking it over and the round of the master proxy. Each may throw.\<close>

record 'm worker_env =
  we_new_cx :: "int \<Rightarrow> exn option"
  we_waiting :: "int \<Rightarrow> bool"
  we_setup :: "new_context \<Rightarrow> exn option"
  we_left_new :: "new_context \<Rightarrow> 'm \<Rightarrow> exn option \<times> 'm"
  we_round :: "'m \<Rightarrow> int \<times> 'm"
  we_proxies :: "'m \<Rightarrow> nat"

datatype parent_proxy = No_parent | Plain_parent bool | Handler_parent bool "FdQueue option"

definition make_context :: "'m worker_env \<Rightarrow> int \<Rightarrow> 'm task \<Rightarrow> new_context" where
  "make_context env s t =
     \<lparr>nc_socket = s, nc_delayed = we_waiting env s, nc_nonlocal_dst = tk_nonlocal_dst t,
      nc_resolved = (case tk_type t of PT_transparent \<Rightarrow> Nonlocal_dst | PT_redirect \<Rightarrow> Redirected_dst | _ \<Rightarrow> Not_resolved)\<rparr>"

text \<open>Handing over one socket. An exception in \<^verbatim>\<open>new_cx\<close> leaves the socket open without an owner, one in the
  set-up destroys the context, which closes it; after \<^verbatim>\<open>release\<close> the context is the business of
  \<^verbatim>\<open>on_left_new\<close>. Only \<^verbatim>\<open>com_error\<close> is caught.\<close>

definition hand_over :: "'m worker_env \<Rightarrow> int \<Rightarrow> 'm task \<Rightarrow> exn option \<times> 'm task" where
  "hand_over env s t =
     (let (x, t) =
        (case we_new_cx env s of
           Some e \<Rightarrow> (Some e, t\<lparr>tk_leaked := tk_leaked t @ [s]\<rparr>)
         | None \<Rightarrow>
             let cx = make_context env s t
             in case we_setup env cx of
                  Some e \<Rightarrow> (Some e, t\<lparr>tk_closed := tk_closed t @ [s]\<rparr>)
                | None \<Rightarrow> let (x, m) = we_left_new env cx (tk_master t) in (x, t\<lparr>tk_handed := tk_handed t @ [s], tk_master := m\<rparr>))
      in (if x = Some Com_is_null then None else x, t))"

definition acceptor_round :: "'m worker_env \<Rightarrow> int \<Rightarrow> 'm task \<Rightarrow> int result \<times> 'm task" where
  "acceptor_round env s t =
     (let (x, t) = (if 0 < s then hand_over env s t else (None, t))
      in case x of
           Some e \<Rightarrow> (raise e, t)
         | None \<Rightarrow> let (r, m) = we_round env (tk_master t) in (ok r, t\<lparr>tk_master := m\<rparr>))"

definition acceptor_worker_step ::
    "'m worker_env \<Rightarrow> parent_proxy \<Rightarrow> 'm task \<Rightarrow> int result \<times> 'm task \<times> parent_proxy" where
  "acceptor_worker_step env parent t =
     (case parent of
        No_parent \<Rightarrow> (raise Undefined_behaviour, t, parent)
      | Plain_parent dead \<Rightarrow>
          let t = (if dead then t\<lparr>tk_dead := True\<rparr> else t); (r, t) = acceptor_round env 0 t in (r, t, parent)
      | Handler_parent dead h \<Rightarrow>
          let t = (if dead then t\<lparr>tk_dead := True\<rparr> else t)
          in case handler_update_load h (tk_id t) (of_nat (we_proxies env (tk_master t))) of
               Inl e \<Rightarrow> (Inl e, t, parent)
             | Inr q \<Rightarrow>
                 let (s, q) = pop (tk_id t) q; (r, t) = acceptor_round env s t in (r, t, Handler_parent dead (Some q)))"

section \<open>Sockets are in one place\<close>

definition placed :: "'m task \<Rightarrow> int list" where
  "placed t = tk_handed t @ tk_closed t @ tk_leaked t"

text \<open>The acceptor and its workers, one call at a time; what the members do may change from call to call.\<close>

inductive acc_step :: "'m worker_pool \<times> int list \<Rightarrow> 'm worker_pool \<times> int list \<Rightarrow> bool" where
  accept: "0 < s \<Longrightarrow> acceptor_on_new_raw wr s p = ok p' \<Longrightarrow> acc_step (p, acc) (p', acc @ [s])"
| work: "i < length (pl_tasks p) \<Longrightarrow>
    acceptor_worker_step env (Handler_parent dead (pl_fdq p)) (pl_tasks p ! i) = (r, t, Handler_parent dead h) \<Longrightarrow>
    acc_step (p, acc) (p\<lparr>pl_fdq := h, pl_tasks := (pl_tasks p)[i := t]\<rparr>, acc)"

definition waiting :: "'m worker_pool \<Rightarrow> int list" where
  "waiting p = (case pl_fdq p of None \<Rightarrow> [] | Some q \<Rightarrow> rev (fq_sq q))"

definition accounted :: "'m worker_pool \<times> int list \<Rightarrow> bool" where
  "accounted s \<longleftrightarrow> (\<forall>x \<in> set (waiting (fst s)). 0 < x) \<and>
     mset (snd s) = mset (waiting (fst s)) + sum_list (map (\<lambda>t. mset (placed t)) (pl_tasks (fst s)))"

lemma sum_list_update_eq:
  fixes f :: "'a \<Rightarrow> 'b multiset"
  shows "i < length ts \<Longrightarrow> sum_list (map f (ts[i := t])) + f (ts ! i) = sum_list (map f ts) + f t"
  by (induction ts arbitrary: i) (auto simp: nth_Cons ac_simps split: nat.splits)

lemma hand_over_placed: "hand_over env s t = (x, t') \<Longrightarrow> mset (placed t') = add_mset s (mset (placed t))"
  by (auto simp: hand_over_def placed_def Let_def split: option.splits prod.splits)

lemma round_placed:
  assumes "acceptor_round env s t = (r, t')"
  shows "mset (placed t') = (if 0 < s then {#s#} else {#}) + mset (placed t)"
proof -
  have [simp]: "placed (t\<lparr>tk_master := m\<rparr>) = placed t" for t :: "'a task" and m by (simp add: placed_def)
  show ?thesis
    using assms hand_over_placed [of env s t]
    by (auto simp: acceptor_round_def Let_def split: option.splits prod.splits if_splits)
qed

lemma worker_placed:
  assumes "acceptor_worker_step env (Handler_parent dead h) t = (r, t', Handler_parent dead' h')"
    and "\<And>q. h = Some q \<Longrightarrow> \<forall>x \<in> set (fq_sq q). 0 < x"
  shows "(case h of None \<Rightarrow> {#} | Some q \<Rightarrow> mset (fq_sq q)) + mset (placed t) =
      (case h' of None \<Rightarrow> {#} | Some q \<Rightarrow> mset (fq_sq q)) + mset (placed t') \<and>
    (\<forall>q'. h' = Some q' \<longrightarrow> (\<forall>x \<in> set (fq_sq q'). 0 < x))"
proof -
  define t1 where "t1 = (if dead then t\<lparr>tk_dead := True\<rparr> else t)"
  have p1: "placed t1 = placed t" by (simp add: t1_def placed_def)
  show ?thesis
  proof (cases h)
    case None
    then show ?thesis
      using assms(1) by (auto simp: acceptor_worker_step_def handler_update_load_def on_queue_def Let_def placed_def)
  next
    case (Some q)
    define u where "u = update_load (tk_id t1) (of_nat (we_proxies env (tk_master t1))) q"
    have u: "fq_sq u = fq_sq q" by (simp add: u_def update_load_def split: option.splits)
    obtain s q2 where pop: "pop (tk_id t1) u = (s, q2)" by force
    obtain r2 t2 where rnd: "acceptor_round env s t1 = (r2, t2)" by force
    have h': "t' = t2" "h' = Some q2"
      using assms(1) pop rnd
      by (simp_all add: acceptor_worker_step_def handler_update_load_def on_queue_def Some Let_def t1_def [symmetric] u_def [symmetric])
    have pl: "mset (placed t2) = (if 0 < s then {#s#} else {#}) + mset (placed t)" using round_placed [OF rnd] p1 by simp
    show ?thesis
    proof (cases "rev (fq_sq u)")
      case Nil
      then have "s = 0" "fq_sq q2 = []" using fdq.deq_empty [OF Nil, of "tk_id t1"] pop by simp_all
      then show ?thesis using pl Nil u by (simp add: Some h')
    next
      case (Cons y ys)
      then have "s = y" "rev (fq_sq q2) = ys" using fdq.deq_content [OF Cons, of "tk_id t1"] pop by simp_all
      moreover have "fq_sq q = rev ys @ [y]" using Cons u by (metis rev_rev_ident rev.simps(2))
      ultimately have q: "fq_sq q = fq_sq q2 @ [s]" by auto
      then have "0 < s" using assms(2) [OF Some] by simp
      then show ?thesis using pl q assms(2) [OF Some] by (simp add: Some h')
    qed
  qed
qed

lemma exchange:
  fixes a b c d e f :: "'a multiset"
  assumes "a + b = c + d" and "e + b = f + d"
  shows "a + f = c + e"
proof -
  have "a + f + b = c + e + b" using assms by (metis add.assoc add.commute)
  then show ?thesis by simp
qed

lemma acc_step_accounted: "acc_step s s' \<Longrightarrow> accounted s \<Longrightarrow> accounted s'"
proof (induction rule: acc_step.induct)
  case (accept s wr p p' acc)
  then show ?case
    by (auto simp: acceptor_on_new_raw_def handler_push_all_def on_queue_def accounted_def waiting_def push_all_def Let_def
        split: option.splits sum.splits)
next
  case (work i p env dead r t h acc)
  have pos: "\<And>q. pl_fdq p = Some q \<Longrightarrow> \<forall>x \<in> set (fq_sq q). 0 < x" using work.prems by (auto simp: accounted_def waiting_def)
  have w: "(case pl_fdq p of None \<Rightarrow> {#} | Some q \<Rightarrow> mset (fq_sq q)) = mset (waiting p)" by (simp add: waiting_def split: option.splits)
  have w': "(case h of None \<Rightarrow> {#} | Some q \<Rightarrow> mset (fq_sq q)) = mset (waiting (p\<lparr>pl_fdq := h, pl_tasks := (pl_tasks p)[i := t]\<rparr>))"
    by (simp add: waiting_def split: option.splits)
  note wp = worker_placed [OF work.hyps(2) pos, unfolded w w']
  have "\<forall>x \<in> set (waiting (p\<lparr>pl_fdq := h, pl_tasks := (pl_tasks p)[i := t]\<rparr>)). 0 < x"
    using wp [THEN conjunct2] by (auto simp: waiting_def split: option.splits)
  moreover note exchange [OF wp [THEN conjunct1] sum_list_update_eq [OF work.hyps(1), of "\<lambda>t. mset (placed t)" t]]
  ultimately show ?case using work.prems by (simp add: accounted_def)
qed

text \<open>C22: Over every interleaving of the acceptor and its workers, whatever the members they call
  do or throw, each accepted socket is in exactly one place: waiting in the queue, handed over to a
  proxy by one worker, closed with its context, or left open without an owner.\<close>

theorem accepted_sockets_are_accounted_for:
  assumes "acc_step\<^sup>*\<^sup>* (p, []) (p', acc)" and "waiting p = []" and "\<And>t. t \<in> set (pl_tasks p) \<Longrightarrow> placed t = []"
  shows "mset acc = mset (waiting p') + sum_list (map (\<lambda>t. mset (placed t)) (pl_tasks p'))"
proof -
  have "sum_list (map (\<lambda>t. mset (placed t)) ts) = {#}" if "\<forall>t \<in> set ts. placed t = []" for ts :: "'a task list"
    using that by (induction ts) auto
  then have "accounted (p, [])" using assms(2,3) by (simp add: accounted_def)
  with assms(1) have "accounted (p', acc)" by (induction rule: rtranclp_induct) (auto intro: acc_step_accounted)
  then show ?thesis by (simp add: accounted_def)
qed

section \<open>Identifiers and hint pipes\<close>

definition registered :: "FdQueue \<Rightarrow> 'm task \<Rightarrow> bool" where
  "registered q t \<longleftrightarrow> tk_id t < fq_worker_id_max q \<and>
     (\<exists>w. map_of (fq_pairs q) (tk_id t) = Some w \<and> pipe_to_scheduler w = tk_hint t)"

lemma new_pair_lookup:
  "map_of (fq_pairs (snd (new_pair i r q))) = (map_of (fq_pairs q))(i \<mapsto> \<lparr>wp_pipe = fst (new_pair i r q), wp_load = 0\<rparr>)"
  by (auto simp: new_pair_def Let_def map_put_map_of split: pair_result.splits)

lemma new_pair_max [simp]: "fq_worker_id_max (snd (new_pair i r q)) = fq_worker_id_max q"
  by (auto simp: new_pair_def Let_def split: pair_result.splits)

lemma less_succ: "unat (x :: u32) + 1 < 2 ^ 32 \<Longrightarrow> y < x + 1 \<longleftrightarrow> y \<le> x"
  by (auto simp: word_less_nat_alt word_le_nat_alt unat_word_ariths)

lemma unat_succ: "unat (x :: u32) + 1 < 2 ^ 32 \<Longrightarrow> unat (x + 1) = unat x + 1"
  by (simp add: unat_word_ariths)

lemma create_loop_registered:
  assumes "create_loop pairs mk pt i n q ts = (q', ts')" and "unat (fq_worker_id_max q) + n < 2 ^ 32"
    and "\<And>t. t \<in> set ts \<Longrightarrow> registered q t" and "distinct (map tk_id ts)"
  shows "length ts' = length ts + n \<and> (\<forall>t \<in> set ts'. registered q' t) \<and> distinct (map tk_id ts') \<and>
    (\<forall>k < fq_worker_id_max q. map_of (fq_pairs q') k = map_of (fq_pairs q) k) \<and>
    unat (fq_worker_id_max q') = unat (fq_worker_id_max q) + n"
  using assms
proof (induction n arbitrary: i q ts)
  case 0
  then show ?case by auto
next
  case (Suc n)
  define k where "k = fq_worker_id_max q"
  define pq where "pq = new_pair k (pairs i) (q\<lparr>fq_worker_id_max := k + 1\<rparr>)"
  define t where "t = new_task k pt (fst (fst pq)) (mk k)"
  have s: "unat k + 1 < 2 ^ 32" using Suc.prems(2) by (simp add: k_def)
  have max: "fq_worker_id_max (snd pq) = k + 1" by (simp add: pq_def)
  have look: "map_of (fq_pairs (snd pq)) = (map_of (fq_pairs q))(k \<mapsto> \<lparr>wp_pipe = fst pq, wp_load = 0\<rparr>)"
    unfolding pq_def new_pair_lookup by simp
  have old: "registered (snd pq) u" "tk_id u \<noteq> k" if u_in: "u \<in> set ts" for u
  proof -
    obtain w where u: "tk_id u < k" "map_of (fq_pairs q) (tk_id u) = Some w" "pipe_to_scheduler w = tk_hint u"
      using Suc.prems(3) [OF u_in] by (auto simp: registered_def k_def)
    then show "tk_id u \<noteq> k" by auto
    with u show "registered (snd pq) u" by (auto simp: registered_def max look less_succ [OF s])
  qed
  have new: "registered (snd pq) t"
    by (auto simp: registered_def t_def new_task_def max look less_succ [OF s] pipe_to_scheduler_def)
  have run: "create_loop pairs mk pt (i + 1) n (snd pq) (ts @ [t]) = (q', ts')"
    using Suc.prems(1) by (simp add: Let_def k_def [symmetric] pq_def [symmetric] t_def split: prod.splits)
  have b: "unat (fq_worker_id_max (snd pq)) + n < 2 ^ 32"
    unfolding max unat_succ [OF s] using Suc.prems(2) by (simp add: k_def)
  have d: "distinct (map tk_id (ts @ [t]))" using Suc.prems(4) old(2) by (auto simp: t_def new_task_def)
  have "length ts' = length (ts @ [t]) + n \<and> (\<forall>t \<in> set ts'. registered q' t) \<and> distinct (map tk_id ts') \<and>
    (\<forall>j < fq_worker_id_max (snd pq). map_of (fq_pairs q') j = map_of (fq_pairs (snd pq)) j) \<and>
    unat (fq_worker_id_max q') = unat (fq_worker_id_max (snd pq)) + n"
    by (rule Suc.IH [OF run b _ d]) (use old new in auto)
  then show ?case by (auto simp: max look unat_succ [OF s] k_def [symmetric] less_succ [OF s])
qed

text \<open>Creating workers gives each an identifier of its own among all workers of the queue, and
  a hint pipe that the queue knows under that identifier and the worker watches; the workers made
  before keep theirs.\<close>

theorem workers_have_pipes:
  assumes "create_workers pairs mk pt cnt p = ok (r, p')" and "pl_fdq p = Some q" and "0 < cnt"
    and "unat (fq_worker_id_max q) + nat cnt < 2 ^ 31" and "\<And>t. t \<in> set (pl_tasks p) \<Longrightarrow> registered q t"
    and "distinct (map tk_id (pl_tasks p))"
  shows "r = cnt \<and> pl_workers_total p' = cnt \<and> length (pl_tasks p') = length (pl_tasks p) + nat cnt \<and>
    distinct (map tk_id (pl_tasks p')) \<and> (\<exists>q'. pl_fdq p' = Some q' \<and> (\<forall>t \<in> set (pl_tasks p'). registered q' t))"
proof -
  have n: "unat (word_of_int cnt :: u32) = nat cnt" "sint (word_of_int cnt :: u32) = cnt"
  proof -
    have c: "0 \<le> cnt" "cnt < 2 ^ 31" using assms(3,4) by auto
    then show "sint (word_of_int cnt :: u32) = cnt" by (intro int_rangeD) (simp add: int_range_def)
    have "uint (word_of_int cnt :: u32) = cnt" using c by (simp add: uint_word_of_int)
    then show "unat (word_of_int cnt :: u32) = nat cnt" by (simp only: unat_eq_nat_uint)
  qed
  then have z: "(word_of_int cnt :: u32) \<noteq> 0" using assms(3) by (metis nat_0_iff unat_0 not_less)
  obtain q' ts' where l: "create_loop pairs mk pt 0 (nat cnt) q (pl_tasks p) = (q', ts')" by force
  have p': "r = cnt" "p' = p\<lparr>pl_workers_total := cnt, pl_fdq := Some q', pl_tasks := ts'\<rparr>"
    using assms(1-3) l n z by (auto simp: create_workers_def Let_def)
  then show ?thesis using create_loop_registered [OF l _ assms(5,6)] assms(4) by simp
qed

text \<open>With the initial preference of zero an acceptor runs without workers: every socket it
  accepts stays in the queue.\<close>

theorem no_preference_no_workers:
  assumes "pl_preference p = 0" and "acceptor_run pairs mk pt nonlocal p = ok (r, p')" and "pl_tasks p = []"
    and "acc_step\<^sup>*\<^sup>* (p', []) (p'', acc)" and "waiting p' = []"
  shows "r = 0 \<and> mset (waiting p'') = mset acc"
proof -
  have p': "pl_tasks p' = []" "r = 0"
    using assms(1-3) by (auto simp: acceptor_run_def create_workers_def Let_def)
  have "accounted (p'', acc) \<and> pl_tasks p'' = []"
    using assms(4)
  proof (induction rule: rtranclp_induct2)
    case refl
    then show ?case using p' assms(5) by (simp add: accounted_def)
  next
    case (step a b c d)
    then have "accounted (c, d)" using acc_step_accounted by blast
    then show ?case using step
      by (auto elim!: acc_step.cases simp: acceptor_on_new_raw_def split: sum.splits prod.splits)
  qed
  then show ?thesis using p' by (simp add: accounted_def)
qed

text \<open>If the context for a socket cannot be made, the worker goes on, and the socket taken
  from the queue stays open without an owner.\<close>

theorem failed_context_leaks_socket:
  assumes "0 < s" and "fq_sq q = xs @ [s]" and "we_new_cx env s = Some Com_is_null"
  shows "\<exists>r t' q'. acceptor_worker_step env (Handler_parent dead (Some q)) t = (ok r, t', Handler_parent dead (Some q')) \<and>
    tk_leaked t' = tk_leaked t @ [s] \<and> tk_closed t' = tk_closed t \<and> fq_sq q' = xs"
proof -
  define t1 where "t1 = (if dead then t\<lparr>tk_dead := True\<rparr> else t)"
  have t1: "tk_leaked t1 = tk_leaked t" "tk_closed t1 = tk_closed t" by (simp_all add: t1_def)
  define u where "u = update_load (tk_id t1) (of_nat (we_proxies env (tk_master t1))) q"
  have u: "rev (fq_sq u) = s # rev xs" using assms(2) by (simp add: u_def update_load_def split: option.splits)
  obtain q2 where pop: "pop (tk_id t1) u = (s, q2)" "fq_sq q2 = xs"
    using fdq.deq_content [OF u, of "tk_id t1"] by (metis prod.collapse rev_rev_ident)
  show ?thesis
    using assms(1,3) pop t1
    by (simp add: acceptor_worker_step_def handler_update_load_def on_queue_def Let_def t1_def [symmetric] u_def [symmetric]
        acceptor_round_def hand_over_def split: prod.splits)
qed

section \<open>Examples\<close>

definition demo_worker_env :: "nat worker_env" where
  "demo_worker_env = \<lparr>we_new_cx = (\<lambda>s. if s = 8 then Some Com_is_null else None), we_waiting = (\<lambda>_. False), we_setup = (\<lambda>_. None),
     we_left_new = (\<lambda>_ m. (None, m + 1)), we_round = (\<lambda>m. (0, m)), we_proxies = id\<rparr>"

definition demo_workers :: "nat worker_pool" where
  "demo_workers = \<lparr>pl_pollroot = False, pl_fdq = Some new_FdQueue, pl_preference = 0, pl_workers_total = 2, pl_tasks = []\<rparr>"

definition demo_task :: "nat task" where "demo_task = new_task 0 PT_transparent 11 0"

definition demo_workers1 :: "nat worker_pool" where "demo_workers1 = demo_workers\<lparr>pl_tasks := [demo_task]\<rparr>"

definition demo_workers2 :: "nat worker_pool" where
  "demo_workers2 = demo_workers1\<lparr>pl_fdq := Some (snd (push_all (\<lambda>_. True) 7 new_FdQueue))\<rparr>"

lemmas accept_simps = demo_worker_env_def demo_workers_def demo_task_def new_task_def new_FdQueue_def push_all_def Let_def waiting_def
  placed_def

lemma demo_accept: "acc_step (demo_workers1, []) (demo_workers2, [7])"
  using acc_step.accept [of 7 "\<lambda>_. True" demo_workers1 demo_workers2 "[]"]
  by (simp add: demo_workers1_def demo_workers2_def acceptor_on_new_raw_def handler_push_all_def on_queue_def demo_workers_def
      push_all_def Let_def)

theorem accepted_sockets_are_accounted_for_witness: "mset [7] = mset (waiting demo_workers2) + {#}"
proof -
  have "mset [7] = mset (waiting demo_workers2) + sum_list (map (\<lambda>t. mset (placed t)) (pl_tasks demo_workers2))"
    by (rule accepted_sockets_are_accounted_for [of demo_workers1, OF r_into_rtranclp [where r = acc_step, OF demo_accept]])
       (simp_all add: demo_workers1_def accept_simps)
  then show ?thesis by (simp add: demo_workers2_def demo_workers1_def accept_simps)
qed

theorem workers_have_pipes_witness:
  "\<exists>p'. create_workers (\<lambda>i. Socketpair (10 + 2 * int i, 11 + 2 * int i)) (\<lambda>_. 0) PT_redirect 2 demo_workers = ok (2, p') \<and>
     distinct (map tk_id (pl_tasks p')) \<and> length (pl_tasks p') = 2"
proof -
  define mk :: "u32 \<Rightarrow> nat" where "mk = (\<lambda>_. 0)"
  define pairs where "pairs = (\<lambda>i. Socketpair (10 + 2 * int i, 11 + 2 * int i))"
  obtain r p' where r: "create_workers pairs mk PT_redirect 2 demo_workers = ok (r, p')"
    using that by (cases "create_loop pairs mk PT_redirect 0 2 new_FdQueue []") (auto simp: create_workers_def demo_workers_def Let_def)
  have "r = 2 \<and> pl_workers_total p' = 2 \<and> length (pl_tasks p') = length (pl_tasks demo_workers) + nat 2 \<and>
      distinct (map tk_id (pl_tasks p')) \<and> (\<exists>q'. pl_fdq p' = Some q' \<and> (\<forall>t \<in> set (pl_tasks p'). registered q' t))"
    by (rule workers_have_pipes [OF r, of new_FdQueue]) (simp_all add: demo_workers_def new_FdQueue_def)
  then show ?thesis using r by (simp add: demo_workers_def pairs_def mk_def)
qed

theorem no_preference_no_workers_witness:
  "\<exists>p' p''. acceptor_run (\<lambda>_. Neither) (\<lambda>_. 0) PT_none True demo_workers = ok (0, p') \<and> acc_step\<^sup>*\<^sup>* (p', []) (p'', [9]) \<and>
     mset (waiting p'') = {#9#}"
proof -
  define p' where "p' = demo_workers\<lparr>pl_pollroot := True, pl_workers_total := 0\<rparr>"
  define p'' where "p'' = p'\<lparr>pl_fdq := Some (snd (push_all (\<lambda>_. True) 9 new_FdQueue))\<rparr>"
  have r: "acceptor_run (\<lambda>_. Neither) (\<lambda>_. 0) PT_none True demo_workers = ok (0, p')"
    by (simp add: acceptor_run_def create_workers_def demo_workers_def Let_def p'_def)
  have s: "acc_step\<^sup>*\<^sup>* (p', []) (p'', [9])"
    using acc_step.accept [of 9 "\<lambda>_. True" p' p'' "[]"]
    by (intro r_into_rtranclp) (simp add: p''_def p'_def acceptor_on_new_raw_def handler_push_all_def on_queue_def demo_workers_def
        push_all_def Let_def)
  have "0 = (0 :: int) \<and> mset (waiting p'') = mset [9]"
    by (rule no_preference_no_workers [OF _ r _ s]) (simp_all add: p'_def demo_workers_def waiting_def new_FdQueue_def)
  then show ?thesis using r s by auto
qed

theorem failed_context_leaks_socket_witness:
  "\<exists>r t' q'. acceptor_worker_step demo_worker_env (Handler_parent False (Some (new_FdQueue\<lparr>fq_sq := [8]\<rparr>))) demo_task =
     (ok r, t', Handler_parent False (Some q')) \<and> tk_leaked t' = [8] \<and> tk_closed t' = []"
  using failed_context_leaks_socket [of 8 "new_FdQueue\<lparr>fq_sq := [8]\<rparr>" "[]" demo_worker_env False demo_task]
  by (auto simp: demo_worker_env_def demo_task_def new_task_def)

end
