(* ===== verification/Dispatch.thy ===== *)
theory Dispatch
  imports Epoll Udpcom
begin

text \<open>
  The dispatcher: \<^verbatim>\<open>run\<close>, \<^verbatim>\<open>run_poll\<close>, \<^verbatim>\<open>run_poll_socket\<close> and
  \<^verbatim>\<open>run_poll_socket_null_handler\<close> of \<^verbatim>\<open>baseproxy.cpp\<close>.

  A root proxy waits on its poller and runs the handler of every socket that is ready. The state
  \<open>disp\<close> holds the pollers and handlers of \<open>Epoll\<close>, the datagram flows of \<open>Udpcom\<close> with their set
  of virtual sockets, the dead flags of the proxies and, as \<open>d_rest\<close>, whatever else the program
  has. Handlers are objects of classes derived from \<^verbatim>\<open>epoll_handler\<close>: their virtual members
  are the argument \<open>virtuals\<close>, functions on the whole state that may throw. A handler that no longer
  exists when it is called is undefined behaviour. \<open>px_run\<close> takes the answers of \<^verbatim>\<open>epoll_wait\<close>
  as a list, one entry per round: \<open>None\<close> is a loop that has not ended yet.
\<close>

section \<open>State\<close>

datatype socket_set_type = INSET | OUTSET | IDLESET | ERRSET | VIRTSET

record poll_stats =
  handled_count :: nat
  generic_count :: nat
  hint_count :: nat
  null_count :: nat

definition no_polls :: poll_stats where
  "no_polls = \<lparr>handled_count = 0, generic_count = 0, hint_count = 0, null_count = 0\<rparr>"

definition add_polls :: "poll_stats \<Rightarrow> poll_stats \<Rightarrow> poll_stats" where
  "add_polls a b = \<lparr>handled_count = handled_count a + handled_count b,
     generic_count = generic_count a + generic_count b, hint_count = hint_count a + hint_count b,
     null_count = null_count a + null_count b\<rparr>"

record ('k, 's) disp =
  d_net :: "'k net"
  d_udp :: udp_world
  d_dead :: "nat \<Rightarrow> bool"
  d_polls :: poll_stats
  d_rest :: 's

type_synonym ('k, 's, 'a) step = "('k, 's) disp \<Rightarrow> 'a result \<times> ('k, 's) disp"

record ('k, 's) virtuals =
  v_fence :: "nat \<Rightarrow> int"
  v_is_proxy :: "nat \<Rightarrow> bool"
  v_handle_sockets_once :: "nat \<Rightarrow> ('k, 's, unit) step"
  v_handle_event :: "nat \<Rightarrow> ('k, 's, unit) step"
  v_shutdown :: "nat \<Rightarrow> ('k, 's, unit) step"
  v_prepare_sockets :: "nat \<Rightarrow> ('k, 's, int) step"
  v_run_timers :: "nat \<Rightarrow> ('k, 's, unit) step"

record root_proxy =
  rt_self :: nat
  rt_poller :: nat
  rt_udp :: bool
  rt_pollroot :: bool

definition HANDLER_FENCE :: int where "HANDLER_FENCE = 0xcaba1a"

definition the_poller :: "root_proxy \<Rightarrow> ('k, 's) disp \<Rightarrow> 'k epoll option" where
  "the_poller r st = poller (n_pollers (d_net st) (rt_poller r))"

definition put_poller :: "root_proxy \<Rightarrow> 'k epoll \<Rightarrow> ('k, 's) disp \<Rightarrow> ('k, 's) disp" where
  "put_poller r e st =
     st\<lparr>d_net := (d_net st)\<lparr>n_pollers := (n_pollers (d_net st))
          (rt_poller r := (n_pollers (d_net st) (rt_poller r))\<lparr>poller := Some e\<rparr>)\<rparr>\<rparr>"

fun ep_ready :: "socket_set_type \<Rightarrow> 'k epoll \<Rightarrow> int fset" where
  "ep_ready INSET e = in_set e"
| "ep_ready OUTSET e = out_set e"
| "ep_ready IDLESET e = idle_set e"
| "ep_ready ERRSET e = err_set e"
| "ep_ready VIRTSET e = {||}"

fun ep_erase :: "socket_set_type \<Rightarrow> int \<Rightarrow> 'k epoll \<Rightarrow> 'k epoll" where
  "ep_erase INSET s e = e\<lparr>in_set := in_set e |-| {|s|}\<rparr>"
| "ep_erase OUTSET s e = e\<lparr>out_set := out_set e |-| {|s|}\<rparr>"
| "ep_erase IDLESET s e = e\<lparr>idle_set := idle_set e |-| {|s|}\<rparr>"
| "ep_erase ERRSET s e = e\<lparr>err_set := err_set e |-| {|s|}\<rparr>"
| "ep_erase VIRTSET s e = e"

definition ready :: "root_proxy \<Rightarrow> socket_set_type \<Rightarrow> ('k, 's) disp \<Rightarrow> int fset" where
  "ready r t st =
     (if t = VIRTSET then w_virt (d_udp st)
      else case the_poller r st of Some e \<Rightarrow> ep_ready t e | None \<Rightarrow> {||})"

definition virt_erase :: "int \<Rightarrow> ('k, 's) disp \<Rightarrow> ('k, 's) disp" where
  "virt_erase s st = st\<lparr>d_udp := erase_virt s (d_udp st)\<rparr>"

definition set_erase_in :: "root_proxy \<Rightarrow> socket_set_type \<Rightarrow> int \<Rightarrow> ('k, 's) disp \<Rightarrow> ('k, 's) disp" where
  "set_erase_in r t s st =
     (if t = VIRTSET then virt_erase s st
      else case the_poller r st of Some e \<Rightarrow> put_poller r (ep_erase t s e) st | None \<Rightarrow> st)"

section \<open>One socket\<close>

definition run_poll_socket_null_handler ::
    "'k kernel_api \<Rightarrow> ('k, 's) virtuals \<Rightarrow> root_proxy \<Rightarrow> int \<Rightarrow> ('k, 's, poll_stats) step" where
  "run_poll_socket_null_handler api v r s st =
     (case the_poller r st of
        None \<Rightarrow> (raise Undefined_behaviour, st)
      | Some e \<Rightarrow>
          if s \<noteq> hint_fd e then
            (ok (no_polls\<lparr>null_count := 1\<rparr>),
             if s < 0 then virt_erase s st
             else put_poller r (snd (epoll_del (api_ctl api) s e)) st)
          else
            (case v_handle_sockets_once v (rt_self r) st of
               (Inl x, st) \<Rightarrow> (Inl x, st)
             | (Inr _, st) \<Rightarrow> (ok (no_polls\<lparr>hint_count := 1\<rparr>), st)))"

definition run_proxy_handler :: "('k, 's) virtuals \<Rightarrow> nat \<Rightarrow> socket_set_type \<Rightarrow> ('k, 's, poll_stats) step" where
  "run_proxy_handler v h t st =
     (case v_handle_sockets_once v h st of
        (Inl x, st) \<Rightarrow> (Inl x, st)
      | (Inr _, st) \<Rightarrow>
          if n_handlers (d_net st) h = None then (raise Undefined_behaviour, st)
          else
            let st = (if t = ERRSET then st\<lparr>d_dead := (d_dead st)(h := True)\<rparr> else st)
            in if d_dead st h then
                 (case v_shutdown v h st of
                    (Inl x, st) \<Rightarrow> (Inl x, st)
                  | (Inr _, st) \<Rightarrow> (ok (no_polls\<lparr>handled_count := 1\<rparr>), st))
               else (ok (no_polls\<lparr>handled_count := 1\<rparr>), st))"

definition run_handler :: "('k, 's) virtuals \<Rightarrow> nat \<Rightarrow> socket_set_type \<Rightarrow> ('k, 's, poll_stats) step" where
  "run_handler v h t st =
     (if n_handlers (d_net st) h = None then (raise Undefined_behaviour, st)
      else if v_fence v h \<noteq> HANDLER_FENCE then (ok no_polls, st)
      else if v_is_proxy v h then run_proxy_handler v h t st
      else
        (case v_handle_event v h st of
           (Inl x, st) \<Rightarrow> (Inl x, st)
         | (Inr _, st) \<Rightarrow> (ok (no_polls\<lparr>generic_count := 1\<rparr>), st)))"

definition run_poll_socket ::
    "'k kernel_api \<Rightarrow> ('k, 's) virtuals \<Rightarrow> root_proxy \<Rightarrow> int \<Rightarrow> socket_set_type \<Rightarrow> ('k, 's, poll_stats) step" where
  "run_poll_socket api v r s t st =
     (case (case get_handler (rt_poller r) s (d_net st) of
              Some h \<Rightarrow> run_handler v h t st
            | None \<Rightarrow> run_poll_socket_null_handler api v r s st) of
        (Inl x, st) \<Rightarrow> (Inl x, st)
      | (Inr stats, st) \<Rightarrow> (ok stats, set_erase_in r t s st))"

section \<open>One round\<close>

fun poll_sockets ::
    "'k kernel_api \<Rightarrow> ('k, 's) virtuals \<Rightarrow> root_proxy \<Rightarrow> socket_set_type \<Rightarrow> int list \<Rightarrow> poll_stats \<Rightarrow>
     ('k, 's, poll_stats) step" where
  "poll_sockets api v r t [] stats st = (ok stats, st)"
| "poll_sockets api v r t (s # ss) stats st =
     (case run_poll_socket api v r s t st of
        (Inl x, st) \<Rightarrow> (Inl x, st)
      | (Inr k, st) \<Rightarrow> poll_sockets api v r t ss (add_polls stats k) st)"

fun poll_sets ::
    "'k kernel_api \<Rightarrow> ('k, 's) virtuals \<Rightarrow> root_proxy \<Rightarrow> socket_set_type list \<Rightarrow> poll_stats \<Rightarrow>
     ('k, 's, poll_stats) step" where
  "poll_sets api v r [] stats st = (ok stats, st)"
| "poll_sets api v r (t # ts) stats st =
     (case poll_sockets api v r t (sorted_list_of_fset (ready r t st)) stats st of
        (Inl x, st) \<Rightarrow> (Inl x, st)
      | (Inr stats, st) \<Rightarrow> poll_sets api v r ts stats st)"

definition poll_order :: "root_proxy \<Rightarrow> socket_set_type list" where
  "poll_order r = [INSET, OUTSET, IDLESET, ERRSET] @ (if rt_udp r then [VIRTSET] else [])"

definition run_poll :: "'k kernel_api \<Rightarrow> ('k, 's) virtuals \<Rightarrow> root_proxy \<Rightarrow> ('k, 's, int) step" where
  "run_poll api v r st =
     (case the_poller r st of
        None \<Rightarrow> (ok 1, st)
      | Some _ \<Rightarrow>
          (case poll_sets api v r (poll_order r) no_polls st of
             (Inl x, st) \<Rightarrow> (Inl x, st)
           | (Inr stats, st) \<Rightarrow>
               let st = (case the_poller r st of
                           Some e \<Rightarrow> put_poller r (e\<lparr>in_set := {||}\<rparr>) st | None \<Rightarrow> st)
               in case v_run_timers v (rt_self r) st of
                    (Inl x, st) \<Rightarrow> (Inl x, st)
                  | (Inr _, st) \<Rightarrow> (ok 0, st\<lparr>d_polls := add_polls (d_polls st) stats\<rparr>)))"

section \<open>The loop\<close>

definition is_runtime_error :: "exn \<Rightarrow> bool" where
  "is_runtime_error x \<longleftrightarrow> x \<in> {Cast_overflow, Com_is_null, Fdqueue_error, Socket_info_error, Runtime_error} \<or> (\<exists>n. x = Mempool_error n)"

definition run_round ::
    "'k kernel_api \<Rightarrow> ('k, 's) virtuals \<Rightarrow> root_proxy \<Rightarrow> int \<times> wait_answer list \<Rightarrow> ('k, 's) disp \<Rightarrow>
     (int result \<times> ('k, 's) disp) option" where
  "run_round api v r A st =
     (case v_prepare_sockets v (rt_self r) st of
        (Inl x, st) \<Rightarrow> Some (Inl x, st)
      | (Inr m, st) \<Rightarrow>
          if m = 0 then Some (run_poll api v r st)
          else
            (case com_poll api (fst A) (rt_poller r) (snd A) (d_net st) of
               None \<Rightarrow> None
             | Some (Inl x) \<Rightarrow> Some (Inl x, st)
             | Some (Inr (_, _, n)) \<Rightarrow> Some (run_poll api v r (st\<lparr>d_net := n\<rparr>))))"

fun px_run ::
    "'k kernel_api \<Rightarrow> ('k, 's) virtuals \<Rightarrow> root_proxy \<Rightarrow> (int \<times> wait_answer list) list \<Rightarrow> ('k, 's) disp \<Rightarrow>
     (int result \<times> ('k, 's) disp) option" where
  "px_run api v r As st =
     (if d_dead st (rt_self r) then Some (ok 0, st)
      else if \<not> rt_pollroot r then None
      else
        (case As of
           [] \<Rightarrow> None
         | A # As \<Rightarrow>
             (case run_round api v r A st of
                None \<Rightarrow> None
              | Some (Inr _, st) \<Rightarrow> px_run api v r As st
              | Some (Inl x, st) \<Rightarrow>
                  if is_runtime_error x then px_run api v r As (st\<lparr>d_dead := (d_dead st)(rt_self r := True)\<rparr>)
                  else Some (Inl x, st))))"

subsection \<open>Frames\<close>

lemma the_poller_put: "the_poller r (put_poller r e st) = Some e"
  by (simp add: the_poller_def put_poller_def)

lemma put_poller_fields [simp]:
  "d_udp (put_poller r e st) = d_udp st" "d_dead (put_poller r e st) = d_dead st"
  "d_rest (put_poller r e st) = d_rest st" "d_polls (put_poller r e st) = d_polls st"
  "n_handlers (d_net (put_poller r e st)) = n_handlers (d_net st)"
  "get_handler i s (d_net (put_poller r e st)) = get_handler i s (d_net st)"
  by (simp_all add: put_poller_def get_handler_def)

lemma virt_erase_fields [simp]:
  "d_net (virt_erase s st) = d_net st" "d_dead (virt_erase s st) = d_dead st"
  "d_rest (virt_erase s st) = d_rest st" "d_polls (virt_erase s st) = d_polls st"
  "the_poller r (virt_erase s st) = the_poller r st"
  "w_virt (d_udp (virt_erase s st)) = w_virt (d_udp st) |-| {|s|}"
  "w_recv (d_udp (virt_erase s st)) = w_recv (d_udp st)"
  by (simp_all add: virt_erase_def erase_virt_def the_poller_def)

lemma erase_in_fields [simp]:
  "d_dead (set_erase_in r t s st) = d_dead st"
  "d_rest (set_erase_in r t s st) = d_rest st"
  "n_handlers (d_net (set_erase_in r t s st)) = n_handlers (d_net st)"
  "get_handler i q (d_net (set_erase_in r t s st)) = get_handler i q (d_net st)"
  by (auto simp: set_erase_in_def split: option.splits)

lemma ready_put: "ready r t (put_poller r e st) = (if t = VIRTSET then w_virt (d_udp st) else ep_ready t e)"
  by (simp add: ready_def the_poller_put)

lemma ep_ready_erase:
  "ep_ready t (ep_erase u s e) = (if t = u then ep_ready t e |-| {|s|} else ep_ready t e)"
  by (cases t; cases u) auto

lemma ready_erase:
  "ready r t (set_erase_in r u s st) = (if t = u then ready r t st |-| {|s|} else ready r t st)"
  by (cases "u = VIRTSET"; cases "the_poller r st")
    (auto simp: set_erase_in_def ready_put ep_ready_erase, auto simp: ready_def)

lemma poller_erase: "(the_poller r (set_erase_in r u s st) = None) = (the_poller r st = None)"
  by (auto simp: set_erase_in_def the_poller_put split: option.splits)

lemma hint_erase:
  "map_option hint_fd (the_poller r (set_erase_in r u s st)) = map_option hint_fd (the_poller r st)"
  by (cases u) (auto simp: set_erase_in_def the_poller_put split: option.splits)

subsection \<open>No ready socket is passed over\<close>

text \<open>What the objects called during a round may do. \<open>seen\<close> is a history of the rest of the state: the
  objects handled so far. A member of an object other than \<open>h\<close> leaves the registration of \<open>h\<close>
  for the socket \<open>s\<close> alone and does not take \<open>s\<close> out of the set of ready sockets it is in (the sets of a
  poller are filled and emptied by \<^verbatim>\<open>epoll::wait\<close> and the dispatcher only); a member of \<open>h\<close> may do
  both. Anything else is allowed: other sockets may be registered, closed and made ready, members may throw,
  proxies may die.\<close>

definition spares :: "root_proxy \<Rightarrow> socket_set_type \<Rightarrow> int \<Rightarrow> nat \<Rightarrow> ('k, 's) disp \<Rightarrow> ('k, 's) disp \<Rightarrow> bool" where
  "spares r t s h st st' \<longleftrightarrow>
     (get_handler (rt_poller r) s (d_net st) = Some h \<longrightarrow> get_handler (rt_poller r) s (d_net st') = Some h) \<and>
     (s |\<in>| ready r t st \<longrightarrow> s |\<in>| ready r t st')"

definition considerate ::
    "('s \<Rightarrow> nat set) \<Rightarrow> root_proxy \<Rightarrow> socket_set_type \<Rightarrow> int \<Rightarrow> nat \<Rightarrow> ('k, 's) virtuals \<Rightarrow> bool" where
  "considerate seen r t s h v \<longleftrightarrow>
     (\<forall>x st st'. v_handle_sockets_once v x st = (ok (), st') \<or> v_handle_event v x st = (ok (), st') \<longrightarrow>
        seen (d_rest st') = insert x (seen (d_rest st)) \<and> (x = h \<or> spares r t s h st st')) \<and>
     (\<forall>x st st'. v_shutdown v x st = (ok (), st') \<longrightarrow>
        seen (d_rest st') = seen (d_rest st) \<and> (x = h \<or> spares r t s h st st')) \<and>
     (\<forall>x st st'. v_run_timers v x st = (ok (), st') \<longrightarrow> seen (d_rest st') = seen (d_rest st))"

text \<open>The handler of the socket has run, or the socket still waits for it.\<close>

definition in_line ::
    "('s \<Rightarrow> nat set) \<Rightarrow> root_proxy \<Rightarrow> socket_set_type \<Rightarrow> int \<Rightarrow> nat \<Rightarrow> ('k, 's) disp \<Rightarrow> bool" where
  "in_line seen r t s h st \<longleftrightarrow> h \<in> seen (d_rest st) \<or>
     get_handler (rt_poller r) s (d_net st) = Some h \<and> s |\<in>| ready r t st"

lemma in_line_spares:
  "in_line seen r t s h st \<Longrightarrow> seen (d_rest st) \<subseteq> seen (d_rest st') \<Longrightarrow> spares r t s h st st' \<Longrightarrow>
   in_line seen r t s h st'"
  by (auto simp: in_line_def spares_def)

lemma spares_erase: "u \<noteq> t \<or> q \<noteq> s \<Longrightarrow> spares r t s h st (set_erase_in r u q st)"
  by (auto simp: spares_def ready_erase)

lemma spares_same: "d_net st' = d_net st \<Longrightarrow> d_udp st' = d_udp st \<Longrightarrow> spares r t s h st st'"
  by (auto simp: spares_def ready_def the_poller_def)

lemma spares_refl: "spares r t s h st st"
  by (simp add: spares_def)

lemma spares_trans: "spares r t s h a b \<Longrightarrow> spares r t s h b c \<Longrightarrow> spares r t s h a c"
  by (simp add: spares_def)

lemma virt_erase_is: "virt_erase s st = set_erase_in r VIRTSET s st"
  by (simp add: set_erase_in_def)

text \<open>A socket without a handler is dropped; this leaves other sockets alone.\<close>

lemma spares_drop:
  assumes "the_poller r st = Some e" and "q \<noteq> s"
  shows "spares r t s h st (if q < 0 then virt_erase q st else put_poller r (snd (epoll_del ctl q e)) st)"
proof (cases "q < 0")
  case True
  have "spares r t s h st (set_erase_in r VIRTSET q st)" by (rule spares_erase) (use assms(2) in simp)
  then show ?thesis using True by (simp add: virt_erase_is [of _ _ r])
next
  case False
  have k: "ep_ready t (e\<lparr>ep_kernel := x\<rparr>) = ep_ready t e" for x by (cases t) simp_all
  then have "ready r t (put_poller r (snd (epoll_del ctl q e)) st) = ready r t st"
    using assms(1) by (simp add: ready_put epoll_del_def split_beta) (simp add: ready_def)
  then show ?thesis using False by (simp add: spares_def)
qed

lemma run_handler_considerate:
  assumes "considerate seen r t s h v" and "run_handler v x u st = (ok k, st')"
  shows "seen (d_rest st) \<subseteq> seen (d_rest st') \<and> (v_fence v x = HANDLER_FENCE \<longrightarrow> x \<in> seen (d_rest st')) \<and>
    (x = h \<or> spares r t s h st st')"
proof -
  note c = assms(1) [unfolded considerate_def]
  have handled: "seen (d_rest st1) = insert x (seen (d_rest st)) \<and> (x = h \<or> spares r t s h st st1)"
    if "v_handle_sockets_once v x st = (ok (), st1) \<or> v_handle_event v x st = (ok (), st1)" for st1
    using c that by blast
  consider "v_fence v x \<noteq> HANDLER_FENCE" "st' = st"
    | "v_handle_event v x st = (ok (), st')"
    | "run_proxy_handler v x u st = (ok k, st')"
    using assms(2) by (auto simp: run_handler_def split: if_splits prod.splits sum.splits)
  then show ?thesis
  proof cases
    case 1
    then show ?thesis by (simp add: spares_def)
  next
    case 2
    then show ?thesis using handled by blast
  next
    case 3
    obtain st1 where 1: "v_handle_sockets_once v x st = (ok (), st1)"
      using 3 by (auto simp: run_proxy_handler_def split: prod.splits sum.splits)
    define st2 where "st2 = (if u = ERRSET then st1\<lparr>d_dead := (d_dead st1)(x := True)\<rparr> else st1)"
    have 2: "seen (d_rest st2) = seen (d_rest st1)" "spares r t s h st1 st2"
      by (simp_all add: st2_def spares_same)
    have "st' = st2 \<or> v_shutdown v x st2 = (ok (), st')"
      using 3 1 by (auto simp: run_proxy_handler_def st2_def split: if_splits prod.splits sum.splits)
    then have "seen (d_rest st') = seen (d_rest st2) \<and> (x = h \<or> spares r t s h st2 st')"
      using c spares_refl by blast
    then show ?thesis using handled 1 2 spares_trans by (metis insertI1 subset_insertI)
  qed
qed

lemma null_handler_seen:
  assumes "considerate seen r t s h v" and "run_poll_socket_null_handler api v r q st = (ok k, st')"
  shows "seen (d_rest st) \<subseteq> seen (d_rest st')"
proof -
  have "d_rest st' = d_rest st \<or> v_handle_sockets_once v (rt_self r) st = (ok (), st')"
    using assms(2) by (auto simp: run_poll_socket_null_handler_def split: option.splits if_splits prod.splits sum.splits)
  then show ?thesis using assms(1) unfolding considerate_def by (metis subset_insertI subset_refl)
qed

lemma socket_seen:
  assumes "considerate seen r t s h v" and "run_poll_socket api v r q u st = (ok k, st')"
  shows "seen (d_rest st) \<subseteq> seen (d_rest st')"
proof (cases "get_handler (rt_poller r) q (d_net st)")
  case (Some x)
  then obtain st1 where "run_handler v x u st = (ok k, st1)" "st' = set_erase_in r u q st1"
    using assms(2) by (auto simp: run_poll_socket_def split: prod.splits sum.splits)
  then show ?thesis using run_handler_considerate [OF assms(1)] by fastforce
next
  case None
  then obtain st1 where "run_poll_socket_null_handler api v r q st = (ok k, st1)" "st' = set_erase_in r u q st1"
    using assms(2) by (auto simp: run_poll_socket_def split: prod.splits sum.splits)
  then show ?thesis using null_handler_seen [OF assms(1)] by fastforce
qed

lemma sockets_seen:
  assumes "considerate seen r t s h v"
  shows "poll_sockets api v r u ss stats st = (ok k, st') \<Longrightarrow> seen (d_rest st) \<subseteq> seen (d_rest st')"
proof (induction ss arbitrary: stats st)
  case (Cons q ss)
  then show ?case
    using socket_seen [OF assms] by (fastforce split: prod.splits sum.splits)
qed simp

lemma sets_seen:
  assumes "considerate seen r t s h v"
  shows "poll_sets api v r ts stats st = (ok k, st') \<Longrightarrow> seen (d_rest st) \<subseteq> seen (d_rest st')"
proof (induction ts arbitrary: stats st)
  case (Cons u ts)
  then show ?case
    using sockets_seen [OF assms] by (fastforce split: prod.splits sum.splits)
qed simp

lemma run_poll_socket_in_line:
  assumes "considerate seen r t s h v" and "v_fence v h = HANDLER_FENCE"
    and "run_poll_socket api v r q u st = (ok k, st')" and "in_line seen r t s h st"
  shows "in_line seen r t s h st' \<and> (q = s \<and> u = t \<longrightarrow> h \<in> seen (d_rest st'))"
proof (cases "get_handler (rt_poller r) q (d_net st)")
  case (Some x)
  obtain st1 where 1: "run_handler v x u st = (ok k, st1)" "st' = set_erase_in r u q st1"
    using assms(3) Some by (auto simp: run_poll_socket_def split: prod.splits sum.splits)
  note c = run_handler_considerate [OF assms(1) 1(1)]
  show ?thesis
  proof (cases "x = h")
    case True
    then show ?thesis using c assms(2) 1(2) by (simp add: in_line_def)
  next
    case False
    then have "in_line seen r t s h st1" using in_line_spares assms(4) c by blast
    then show ?thesis
      using in_line_spares [OF _ _ spares_erase, of seen r t s h st1 u q] 1(2) False Some c assms(4)
      by (cases "u = t \<and> q = s") (auto simp: in_line_def)
  qed
next
  case None
  obtain st1 where 1: "run_poll_socket_null_handler api v r q st = (ok k, st1)" "st' = set_erase_in r u q st1"
    using assms(3) None by (auto simp: run_poll_socket_def split: prod.splits sum.splits)
  show ?thesis
  proof (cases "q = s")
    case True
    then have h: "h \<in> seen (d_rest st)" using None assms(4) by (simp add: in_line_def)
    have "seen (d_rest st) \<subseteq> seen (d_rest st1)"
      using 1(1) assms(1) by (auto simp: run_poll_socket_null_handler_def considerate_def
          split: option.splits if_splits prod.splits sum.splits)
    then show ?thesis using h 1(2) by (auto simp: in_line_def)
  next
    case False
    have "in_line seen r t s h st1"
    proof (cases "\<exists>e. the_poller r st = Some e \<and> q \<noteq> hint_fd e")
      case True
      then obtain e where e: "the_poller r st = Some e" "q \<noteq> hint_fd e" by blast
      then have "st1 = (if q < 0 then virt_erase q st else put_poller r (snd (epoll_del (api_ctl api) q e)) st)"
        using 1(1) by (simp add: run_poll_socket_null_handler_def)
      then show ?thesis
        using in_line_spares [OF assms(4) _ spares_drop [OF e(1) False]] by simp
    next
      case False
      then have "v_handle_sockets_once v (rt_self r) st = (ok (), st1)"
        using 1(1) by (auto simp: run_poll_socket_null_handler_def split: option.splits if_splits prod.splits sum.splits)
      then have "seen (d_rest st1) = insert (rt_self r) (seen (d_rest st))" "rt_self r = h \<or> spares r t s h st st1"
        using assms(1) by (auto simp: considerate_def)
      then show ?thesis using in_line_spares [OF assms(4)] by (auto simp: in_line_def)
    qed
    then show ?thesis using False 1(2) in_line_spares [OF _ _ spares_erase, of seen r t s h st1 u q] by simp
  qed
qed

lemma poll_sockets_in_line:
  assumes "considerate seen r t s h v" and "v_fence v h = HANDLER_FENCE"
    and "poll_sockets api v r u ss stats st = (ok k, st')" and "in_line seen r t s h st"
  shows "in_line seen r t s h st' \<and> (s \<in> set ss \<and> u = t \<longrightarrow> h \<in> seen (d_rest st'))"
  using assms(3,4)
proof (induction ss arbitrary: stats st)
  case (Cons q ss)
  obtain m st1 where 1: "run_poll_socket api v r q u st = (ok m, st1)"
    and 2: "poll_sockets api v r u ss (add_polls stats m) st1 = (ok k, st')"
    using Cons.prems(1) by (auto split: prod.splits sum.splits)
  note line = run_poll_socket_in_line [OF assms(1,2) 1 Cons.prems(2)]
  then show ?case
    using Cons.IH [OF 2] sockets_seen [OF assms(1) 2] by auto
qed simp

lemma poll_sets_in_line:
  assumes "considerate seen r t s h v" and "v_fence v h = HANDLER_FENCE"
    and "poll_sets api v r ts stats st = (ok k, st')" and "in_line seen r t s h st" and "t \<in> set ts"
  shows "h \<in> seen (d_rest st')"
  using assms(3-5)
proof (induction ts arbitrary: stats st)
  case (Cons u ts)
  obtain m st1 where 1: "poll_sockets api v r u (sorted_list_of_fset (ready r u st)) stats st = (ok m, st1)"
    and 2: "poll_sets api v r ts m st1 = (ok k, st')"
    using Cons.prems(1) by (auto split: prod.splits sum.splits)
  note line = poll_sockets_in_line [OF assms(1,2) 1 Cons.prems(2)]
  show ?case
  proof (cases "u = t")
    case True
    have "h \<in> seen (d_rest st) \<or> s \<in> set (sorted_list_of_fset (ready r u st))"
      using Cons.prems(2) True by (auto simp: in_line_def sorted_list_of_fset.rep_eq)
    then have "h \<in> seen (d_rest st1)" using line True sockets_seen [OF assms(1) 1] by blast
    then show ?thesis using sets_seen [OF assms(1) 2] by blast
  next
    case False
    then show ?thesis using Cons.IH [OF 2] line Cons.prems(3) by simp
  qed
qed simp

text \<open>C9: In a round of the dispatcher that comes to its end, the handler of every socket that was ready at its
  beginning is run, be it ready for reading, for writing, idle, failed or, where the root
  proxy serves datagrams, a virtual socket. The round may do much in between: objects are shut down and die, sockets and handlers come and go, sockets
  without a handler are dropped. What is asked of the objects it calls is only that no other object takes
  away the registration of this handler for the socket or the readiness of the socket.\<close>

theorem ready_handler_is_run:
  assumes "considerate seen r t s h v" and "v_fence v h = HANDLER_FENCE"
    and "get_handler (rt_poller r) s (d_net st) = Some h" and "s |\<in>| ready r t st" and "t = VIRTSET \<longrightarrow> rt_udp r"
    and "run_poll api v r st = (ok 0, st')"
  shows "h \<in> seen (d_rest st')"
proof -
  have "in_line seen r t s h st" using assms(3,4) by (simp add: in_line_def)
  have t: "t \<in> set (poll_order r)" using assms(5) by (cases t) (simp_all add: poll_order_def)
  obtain m st1 where 1: "poll_sets api v r (poll_order r) no_polls st = (ok m, st1)"
    and 2: "\<exists>st2 st3. v_run_timers v (rt_self r) st2 = (ok (), st3) \<and> d_rest st2 = d_rest st1 \<and> d_rest st' = d_rest st3"
    using assms(6) by (fastforce simp: run_poll_def split: option.splits prod.splits sum.splits)
  have "h \<in> seen (d_rest st1)" by (rule poll_sets_in_line [OF assms(1,2) 1 _ t]) fact
  then show ?thesis using 2 assms(1) by (auto simp: considerate_def)
qed

subsection \<open>Sockets without a handler\<close>

text \<open>A ready socket without a handler that is not the hint descriptor is dropped: a virtual
  one from the set of virtual sockets, a real one from the interest list of the kernel. It is
  counted and cannot keep the dispatcher busy.\<close>

theorem orphan_socket_is_dropped:
  assumes "ctl_laws (api_ctl api) mon valid" and "valid s" and "the_poller r st = Some e"
    and "get_handler (rt_poller r) s (d_net st) = None" and "s \<noteq> hint_fd e"
  shows "\<exists>k st' e'. run_poll_socket api v r s t st = (ok k, st') \<and> null_count k = 1 \<and> s |\<notin>| ready r t st' \<and>
    the_poller r st' = Some e' \<and>
    (if s < 0 then s |\<notin>| w_virt (d_udp st') else mon (ep_kernel e') s = None)"
proof -
  let ?e = "snd (epoll_del (api_ctl api) s e)"
  let ?st = "if s < 0 then virt_erase s st else put_poller r ?e st" and ?e1 = "if s < 0 then e else ?e"
  let ?e' = "if t = VIRTSET then ?e1 else ep_erase t s ?e1"
  have del: "mon (ep_kernel ?e) s = None"
    using assms(1,2) unfolding ctl_laws_def by (simp add: epoll_del_def split_beta)
  have k: "ep_kernel (ep_erase t s x) = ep_kernel x" for x :: "'a epoll" by (cases t) simp_all
  have p: "the_poller r ?st = Some ?e1" using assms(3) by (simp add: the_poller_put)
  have e: "the_poller r (set_erase_in r t s ?st) = Some ?e'"
    using p by (auto simp: set_erase_in_def the_poller_put)
  have "run_poll_socket api v r s t st = (ok (no_polls\<lparr>null_count := 1\<rparr>), set_erase_in r t s ?st)"
    using assms(3-5) by (simp add: run_poll_socket_def run_poll_socket_null_handler_def)
  moreover have "s |\<notin>| ready r t (set_erase_in r t s ?st)" by (simp add: ready_erase)
  moreover have "s |\<notin>| w_virt (d_udp (set_erase_in r t s ?st))" if "s < 0"
    using that by (auto simp: set_erase_in_def split: option.splits)
  moreover have "mon (ep_kernel ?e') s = None" if "\<not> s < 0" using that del k by simp
  ultimately show ?thesis using e by fastforce
qed

subsection \<open>Virtual sockets with data left\<close>

text \<open>A handler that reads one of several datagrams waiting on a virtual socket has the socket
  put back into the set of virtual sockets by \<^verbatim>\<open>read_from_pool\<close>; but the
  dispatcher erases it from the set after the handler has returned, so the remaining data are not
  polled for.\<close>

theorem dispatcher_forgets_pending_data:
  fixes key :: u32
  assumes "sint key < 0" and "get_handler (rt_poller r) (sint key) (d_net st) = Some h"
    and "n_handlers (d_net st) h \<noteq> None" and "v_fence v h = HANDLER_FENCE" and "v_is_proxy v h" and "\<not> d_dead st h"
    and "w_recv (d_udp st) (ucast key) = Some d" and "dg_rx d = b # c # ds" and "b \<noteq> []" and "c \<noteq> []"
    and "length b \<le> n" and "n < 2 ^ 31"
    and "read_from_pool (sint key) n 0 (d_udp st) = Some (ok (len, got, w))"
    and "v_handle_sockets_once v h st = (ok (), st\<lparr>d_udp := w\<rparr>)"
  shows "\<exists>k st'. run_poll_socket api v r (sint key) VIRTSET st = (ok k, st') \<and> got = b \<and>
    sint key |\<in>| w_virt w \<and> sint key |\<notin>| w_virt (d_udp st') \<and> \<not> polled key (d_udp st')"
proof -
  obtain virt where w: "got = b" "w = (d_udp st)\<lparr>w_recv := (w_recv (d_udp st))
      (ucast key \<mapsto> d\<lparr>dg_rx := [] # c # ds\<rparr>), w_virt := virt\<rparr>"
    using read_first_slot [of "d_udp st" key d 0 b "c # ds" 0 n] assms(7-9,11-13) by auto
  have q: "0 < queue_bytes (d\<lparr>dg_rx := [] # c # ds\<rparr>)" using assms(10) by (simp add: queue_bytes_def)
  have i: "sint key |\<in>| w_virt w"
    using assms(7-13) take_slot_next [of b n 0 "c # ds"] small_length [of n]
    by (auto simp: read_from_pool_def vkey_sint queue_bytes_def set_flow_def datagram_empty_def Let_def split: if_splits prod.splits)
  let ?st = "virt_erase (sint key) (st\<lparr>d_udp := w\<rparr>)"
  have r: "run_poll_socket api v r (sint key) VIRTSET st = (ok (no_polls\<lparr>handled_count := 1\<rparr>), ?st)"
    using assms(2-6,14) by (simp add: run_poll_socket_def run_handler_def run_proxy_handler_def set_erase_in_def)
  have "w_recv (d_udp ?st) (ucast key) = Some (d\<lparr>dg_rx := [] # c # ds\<rparr>)" using w by simp
  then have "\<not> polled key (d_udp ?st)" using q assms(1) unfolding polled_def by fastforce
  then show ?thesis using r i w(1) by auto
qed

section \<open>Witnesses\<close>

definition noting :: "((int \<rightharpoonup> u32), nat list) virtuals" where
  "noting = \<lparr>v_fence = \<lambda>h. HANDLER_FENCE, v_is_proxy = \<lambda>h. True,
     v_handle_sockets_once = \<lambda>h st. (ok (), st\<lparr>d_rest := d_rest st @ [h]\<rparr>),
     v_handle_event = \<lambda>h st. (ok (), st\<lparr>d_rest := d_rest st @ [h]\<rparr>),
     v_shutdown = \<lambda>h st. (ok (), st\<lparr>d_rest := d_rest st @ [100 + h]\<rparr>),
     v_prepare_sockets = \<lambda>h st. (ok 1, st), v_run_timers = \<lambda>h st. (ok (), st)\<rparr>"

definition demo_epoll :: "(int \<rightharpoonup> u32) epoll" where
  "demo_epoll = (new_epoll Map.empty)\<lparr>in_set := {|5, 9|}, err_set := {|7|}, hint_fd := 9\<rparr>"

definition demo_net :: "(int \<rightharpoonup> u32) net" where
  "demo_net = \<lparr>n_pollers = \<lambda>i. \<lparr>poller = Some demo_epoll, handler_db = [5 \<mapsto> (0, Some 1), 7 \<mapsto> (0, Some 2)]\<rparr>,
     n_handlers = \<lambda>h. Some \<lparr>registrant = Some 0, registered_sockets = {||}\<rparr>, n_closed = [], n_gone = []\<rparr>"

definition empty_udp :: udp_world where
  "empty_udp = \<lparr>w_recv = Map.empty, w_virt = {||}, w_cache = [], w_rx = \<lambda>fd. [], w_calls = []\<rparr>"

definition demo_disp :: "(int \<rightharpoonup> u32, nat list) disp" where
  "demo_disp = \<lparr>d_net = demo_net, d_udp = empty_udp, d_dead = \<lambda>h. False, d_polls = no_polls, d_rest = []\<rparr>"

definition demo_root :: root_proxy where
  "demo_root = \<lparr>rt_self = 0, rt_poller = 0, rt_udp = True, rt_pollroot = True\<rparr>"

definition demo_kernel :: "(int \<rightharpoonup> u32) kernel_api" where
  "demo_kernel = \<lparr>api_ctl = map_ctl, api_create = 3, api_new = Map.empty\<rparr>"

lemmas demo_defs = demo_epoll_def demo_net_def empty_udp_def demo_disp_def demo_root_def demo_kernel_def
  new_epoll_def the_poller_def get_handler_def

text \<open>A kind of program in which handling an object is noted and shutting proxy 2 down takes its registration
  away.\<close>

definition closing :: "((int \<rightharpoonup> u32), nat list) virtuals" where
  "closing = noting\<lparr>v_shutdown := \<lambda>h st. (ok (), st\<lparr>d_net := (d_net st)\<lparr>n_pollers := \<lambda>i. (n_pollers (d_net st) i)
     \<lparr>handler_db := (handler_db (n_pollers (d_net st) i))(if h = 2 then 7 else 70 := None)\<rparr>\<rparr>\<rparr>)\<rparr>"

lemma closing_considerate: "considerate set demo_root INSET 5 1 closing"
  by (auto simp: considerate_def closing_def noting_def spares_def ready_def the_poller_def get_handler_def)

theorem ready_handler_is_run_witness:
  "\<exists>st'. run_poll demo_kernel closing demo_root demo_disp = (ok 0, st') \<and> 1 \<in> set (d_rest st')"
proof -
  have "fst (run_poll demo_kernel closing demo_root demo_disp) = ok 0"
    by (simp add: run_poll_def poll_order_def ready_def run_poll_socket_def run_handler_def run_proxy_handler_def
        run_poll_socket_null_handler_def closing_def noting_def put_poller_def set_erase_in_def virt_erase_def erase_virt_def
        demo_defs sorted_list_of_fset.rep_eq)
  then obtain st' where "run_poll demo_kernel closing demo_root demo_disp = (ok 0, st')"
    by (cases "run_poll demo_kernel closing demo_root demo_disp") simp
  moreover have "v_fence closing 1 = HANDLER_FENCE" "get_handler (rt_poller demo_root) 5 (d_net demo_disp) = Some 1"
    "5 |\<in>| ready demo_root INSET demo_disp" "INSET = VIRTSET \<longrightarrow> rt_udp demo_root"
    by (simp_all add: closing_def noting_def demo_defs ready_def)
  ultimately show ?thesis using ready_handler_is_run [OF closing_considerate] by blast
qed

theorem orphan_socket_is_dropped_witness:
  "\<exists>k st' e'. run_poll_socket demo_kernel noting demo_root 6 INSET demo_disp = (ok k, st') \<and> null_count k = 1 \<and>
    the_poller demo_root st' = Some e' \<and> ep_kernel e' 6 = None"
  using orphan_socket_is_dropped [of demo_kernel "\<lambda>k. k" "\<lambda>s. True" 6 demo_root demo_disp demo_epoll noting INSET]
    map_ctl_laws
  by (auto simp: demo_defs)

definition pending_flow :: datagram where
  "pending_flow = new_datagram\<lparr>dg_rx := [[1], [2], [], [], []]\<rparr>"

definition pending_udp :: udp_world where
  "pending_udp = empty_udp\<lparr>w_recv := [0xFFFFFFF0 \<mapsto> pending_flow], w_virt := {|- 16|}\<rparr>"

definition udp_after_read :: udp_world where
  "udp_after_read = empty_udp\<lparr>w_recv := [0xFFFFFFF0 \<mapsto> pending_flow\<lparr>dg_rx := [[], [2], [], [], []]\<rparr>], w_virt := {|- 16|}\<rparr>"

definition pending_disp :: "(int \<rightharpoonup> u32, nat list) disp" where
  "pending_disp = demo_disp\<lparr>d_udp := pending_udp, d_net := demo_net\<lparr>n_pollers :=
     \<lambda>i. \<lparr>poller = Some demo_epoll, handler_db = [- 16 \<mapsto> (0, Some 1)]\<rparr>\<rparr>\<rparr>"

definition reading :: "((int \<rightharpoonup> u32), nat list) virtuals" where
  "reading = noting\<lparr>v_handle_sockets_once := \<lambda>h st.
     (case read_from_pool (- 16) 1500 0 (d_udp st) of
        Some (Inr (_, _, w)) \<Rightarrow> (ok (), st\<lparr>d_udp := w\<rparr>) | _ \<Rightarrow> (raise Runtime_error, st))\<rparr>"

lemma demo_read: "read_from_pool (- 16) 1500 0 pending_udp = Some (ok (1, [1], udp_after_read))"
  by (simp add: read_from_pool_def pending_udp_def udp_after_read_def vkey_def pending_flow_def new_datagram_def
      queue_bytes_def datagram_empty_def erase_virt_def msg_peek_def set_flow_def empty_udp_def)

lemma pending_facts:
  "sint (0xFFFFFFF0 :: u32) = - 16" "(ucast (0xFFFFFFF0 :: u32) :: u64) = 0xFFFFFFF0"
  "get_handler (rt_poller demo_root) (- 16) (d_net pending_disp) = Some 1"
  "n_handlers (d_net pending_disp) 1 \<noteq> None" "v_fence reading 1 = HANDLER_FENCE" "v_is_proxy reading 1"
  "\<not> d_dead pending_disp 1" "d_udp pending_disp = pending_udp" "w_recv pending_udp 0xFFFFFFF0 = Some pending_flow"
  "dg_rx pending_flow = [1] # [2] # [[], [], []]"
  "v_handle_sockets_once reading 1 pending_disp = (ok (), pending_disp\<lparr>d_udp := udp_after_read\<rparr>)"
  using demo_read
  by (simp_all add: pending_disp_def reading_def noting_def demo_defs pending_udp_def pending_flow_def)

theorem dispatcher_forgets_pending_data_witness:
  "\<exists>k st'. run_poll_socket demo_kernel reading demo_root (- 16) VIRTSET pending_disp = (ok k, st') \<and>
    - 16 |\<in>| w_virt udp_after_read \<and> \<not> polled 0xFFFFFFF0 (d_udp st')"
  using dispatcher_forgets_pending_data [of "0xFFFFFFF0" demo_root pending_disp 1 reading pending_flow "[1]" "[2]"
      "[[], [], []]" 1500 1 "[1]" udp_after_read demo_kernel, unfolded pending_facts(1,2,8)]
    pending_facts(3-7,9-11) demo_read
  by auto

end
