(* ===== verification/Signature.thy ===== *)
theory Signature
  imports Prelude "HOL-Library.Sublist"
begin

text \<open>
  Flows and signatures: \<^verbatim>\<open>common/signature.hpp\<close> and \<^verbatim>\<open>common/ranges.hpp\<close>.

  A flow is the conversation of two sides as a queue of entries, a signature a chain of
  expressions that have to be found in entries of given sides one after the other, a tree the
  signatures in numbered groups. \<^verbatim>\<open>Flow\<close> and \<^verbatim>\<open>flowMatch\<close> are templates, instantiated with \<^verbatim>\<open>char\<close>
  only. \<^verbatim>\<open>std::regex_search\<close> is an argument, \<open>regex_search\<close>: position and length of the first match.
  \<^verbatim>\<open>erase(end())\<close>, an index beyond an array and a null signature are undefined behaviour.
\<close>

section \<open>Flows\<close>

definition SOCK_STREAM :: int where "SOCK_STREAM = 1"

datatype up_validity = V_OK | V_MORE | V_CONTINUATION | V_TRUNCATED

record flow_entry =
  fe_source :: char
  fe_data :: "byte list"
  fe_counter :: nat
  fe_validity :: up_validity

definition max_flow_size :: nat where "max_flow_size = 10 * 1024 * 1024"

definition new_entry :: "char \<Rightarrow> byte list \<Rightarrow> flow_entry" where
  "new_entry src d = \<lparr>fe_source = src, fe_data = d, fe_counter = 1, fe_validity = V_OK\<rparr>"

definition fe_append :: "byte list \<Rightarrow> flow_entry \<Rightarrow> flow_entry" where
  "fe_append d e = e\<lparr>fe_data := fe_data e @ d, fe_counter := fe_counter e + 1\<rparr>"

record flow =
  fl_queue :: "flow_entry list"
  fl_domain :: int
  fl_exchanges :: u32

definition new_flow :: flow where
  "new_flow = \<lparr>fl_queue = [], fl_domain = SOCK_STREAM, fl_exchanges = 0\<rparr>"

definition flow_pop :: "flow \<Rightarrow> flow" where
  "flow_pop f = f\<lparr>fl_queue := (case fl_queue f of [] \<Rightarrow> [] | _ # q \<Rightarrow> q)\<rparr>"

definition flow_append :: "char \<Rightarrow> byte list \<Rightarrow> flow \<Rightarrow> u32 \<times> flow" where
  "flow_append src d f =
     (of_nat (length d),
      if fl_queue f = [] then f\<lparr>fl_queue := [new_entry src d]\<rparr>
      else if fe_source (last (fl_queue f)) = src then
        if fl_domain f = SOCK_STREAM then
          let e = last (fl_queue f);
              e = (if max_flow_size < length (fe_data e) + length d then e\<lparr>fe_validity := V_TRUNCATED\<rparr>
                   else fe_append d e)
          in f\<lparr>fl_queue := butlast (fl_queue f) @ [e]\<rparr>
        else f\<lparr>fl_queue := fl_queue f @ [new_entry src d]\<rparr>
      else f\<lparr>fl_queue := fl_queue f @ [new_entry src d], fl_exchanges := fl_exchanges f + 1\<rparr>)"

section \<open>Matching one expression\<close>

type_synonym range = "int \<times> int"

definition NULLRANGE :: range where "NULLRANGE = (0, - 1)"

record base_match =
  bm_expr :: "byte list"
  bm_offset :: u32
  bm_bytes :: u32
  bm_regex :: bool

type_synonym regex_search = "byte list \<Rightarrow> byte list \<Rightarrow> (nat \<times> nat) option"

fun str_find :: "byte list \<Rightarrow> byte list \<Rightarrow> nat option" where
  "str_find p [] = (if p = [] then Some 0 else None)"
| "str_find p (c # s) = (if prefix p (c # s) then Some 0 else map_option Suc (str_find p s))"

definition int_of_size :: "nat \<Rightarrow> int" where
  "int_of_size n = sint (of_nat n :: u32)"

definition search_function :: "regex_search \<Rightarrow> base_match \<Rightarrow> byte list \<Rightarrow> range" where
  "search_function rx m s =
     (if bm_regex m then
        (case rx (bm_expr m) s of Some (p, l) \<Rightarrow> (int_of_size p, int_of_size l) | None \<Rightarrow> NULLRANGE)
      else
        (case str_find (bm_expr m) s of Some p \<Rightarrow> (int_of_size p, int_of_size (length s)) | None \<Rightarrow> NULLRANGE))"

definition simple_match :: "regex_search \<Rightarrow> base_match \<Rightarrow> byte list \<Rightarrow> range" where
  "simple_match rx m s =
     (let loc = search_function rx m s
      in if loc = NULLRANGE then NULLRANGE else (fst loc, fst loc + snd loc - 1))"

section \<open>Matching a chain of expressions\<close>

record flow_match =
  fm_name :: string
  fm_chain :: "(char \<times> base_match) list"

definition fm_add :: "char \<Rightarrow> base_match \<Rightarrow> flow_match \<Rightarrow> flow_match" where
  "fm_add src m fm = fm\<lparr>fm_chain := fm_chain fm @ [(src, m)]\<rparr>"

text \<open>\<^verbatim>\<open>buffer::view\<close> on byte lists; a sum that wraps gives a view that reaches beyond the buffer.\<close>

definition list_view :: "byte list \<Rightarrow> nat \<Rightarrow> nat \<Rightarrow> byte list result" where
  "list_view bs pos len =
     (if length bs \<le> pos then raise Out_of_range
      else if length bs < sz_add pos len then ok (drop pos bs)
      else if length bs < pos + len then raise Undefined_behaviour
      else ok (take len (drop pos bs)))"

definition limited_view :: "base_match \<Rightarrow> byte list \<Rightarrow> byte list result" where
  "limited_view m bs =
     (if 0 < bm_bytes m \<or> 0 < bm_offset m then
        list_view bs (if unat (bm_offset m) < length bs then unat (bm_offset m) else length bs - 1)
          (if unat (bm_bytes m + bm_offset m) < length bs then unat (bm_bytes m) else length bs)
      else ok bs)"

text \<open>The length of the view is passed on as an \<^verbatim>\<open>unsigned int\<close>.\<close>

definition match_view :: "regex_search \<Rightarrow> base_match \<Rightarrow> byte list \<Rightarrow> range" where
  "match_view rx m v = simple_match rx m (take (unat (of_nat (length v) :: u32)) v)"

definition at_last :: "nat \<Rightarrow> range list \<Rightarrow> bool" where
  "at_last cur ret \<longleftrightarrow> ret \<noteq> [] \<and> cur = length ret - 1"

definition pad :: "nat \<Rightarrow> range list \<Rightarrow> range list" where
  "pad cur ret = (if at_last cur ret then ret else ret @ [NULLRANGE])"

function match_loop ::
    "regex_search \<Rightarrow> (char \<times> base_match) list \<Rightarrow> flow_entry list \<Rightarrow> nat \<Rightarrow> range list \<Rightarrow> nat \<Rightarrow> (range list \<times> nat) result"
  where
  "match_loop rx sig q cur ret pos =
     (if cur < length q \<and> pos < length sig then
        let ff = q ! cur; (src, m) = sig ! pos
        in if fe_data ff = [] then match_loop rx sig q (cur + 1) ret pos
           else if fe_source ff = src then
             (case limited_view m (fe_data ff) of
                Inl x \<Rightarrow> Inl x
              | Inr v \<Rightarrow>
                  let r = match_view rx m v
                  in if r \<noteq> NULLRANGE then
                       if at_last cur ret then raise Undefined_behaviour
                       else match_loop rx sig q (cur + 1) (ret @ [r]) (pos + 1)
                     else match_loop rx sig q (cur + 1) (pad cur ret) pos)
           else match_loop rx sig q (cur + 1) (pad cur ret) pos
      else ok (ret, pos))"
  by pat_completeness auto
termination
  by (relation "measure (\<lambda>(rx, sig, q, cur, ret, pos). length q - cur)") auto

declare match_loop.simps [simp del]

definition fm_match ::
    "regex_search \<Rightarrow> flow_match \<Rightarrow> flow \<Rightarrow> range list \<Rightarrow> nat \<Rightarrow> (bool \<times> range list \<times> nat) result" where
  "fm_match rx fm f ret pos =
     (case match_loop rx (fm_chain fm) (fl_queue f) (length ret - 1) ret pos of
        Inl x \<Rightarrow> Inl x
      | Inr (ret, pos) \<Rightarrow> ok (0 < pos \<and> length (fm_chain fm) \<le> pos, ret, pos))"

definition fm_match_fresh :: "regex_search \<Rightarrow> flow_match \<Rightarrow> flow \<Rightarrow> nat \<Rightarrow> range list result" where
  "fm_match_fresh rx fm f junk =
     (case fm_match rx fm f [] junk of
        Inl x \<Rightarrow> Inl x
      | Inr (r, v, _) \<Rightarrow> ok (if r then v else [NULLRANGE]))"

record match_state =
  ms_hit :: bool
  ms_ranges :: "range list"
  ms_pos :: nat

definition new_state :: match_state where
  "new_state = \<lparr>ms_hit = False, ms_ranges = [], ms_pos = 0\<rparr>"

definition ms_update :: "regex_search \<Rightarrow> flow \<Rightarrow> flow_match \<Rightarrow> match_state \<Rightarrow> (bool \<times> match_state) result" where
  "ms_update rx f fm s =
     (case fm_match rx fm f (ms_ranges s) (ms_pos s) of
        Inl x \<Rightarrow> Inl x
      | Inr (r, v, p) \<Rightarrow> ok (r, s\<lparr>ms_ranges := v, ms_pos := p\<rparr>))"

section \<open>The tree of signatures\<close>

type_synonym sensor = "(match_state \<times> flow_match option) list"

definition max_groups :: nat where "max_groups = 128"

record sig_tree =
  st_filter :: "nat \<Rightarrow> bool"
  st_sensors :: "nat \<rightharpoonup> sensor"
  st_names :: "string \<rightharpoonup> int"
  st_last :: int

definition empty_tree :: sig_tree where
  "empty_tree = \<lparr>st_filter = \<lambda>i. False, st_sensors = Map.empty, st_names = Map.empty, st_last = - 1\<rparr>"

definition group_add :: "bool \<Rightarrow> sig_tree \<Rightarrow> (int \<times> sig_tree) result" where
  "group_add allowed t =
     (let i = st_last t + 1
      in if int max_groups \<le> i then raise Undefined_behaviour
         else ok (i, t\<lparr>st_last := i, st_sensors := (st_sensors t)(nat i \<mapsto> []),
                      st_filter := (st_filter t)(nat i := allowed)\<rparr>))"

definition group_add_named :: "string \<Rightarrow> bool \<Rightarrow> sig_tree \<Rightarrow> (int \<times> sig_tree) result" where
  "group_add_named name allowed t =
     (case group_add allowed t of
        Inl x \<Rightarrow> Inl x
      | Inr (i, t) \<Rightarrow> ok (i, t\<lparr>st_names := (st_names t)(name \<mapsto> i)\<rparr>))"

fun group_add_n :: "nat \<Rightarrow> sig_tree \<Rightarrow> sig_tree result" where
  "group_add_n 0 t = ok t"
| "group_add_n (Suc n) t = (case group_add True t of Inl x \<Rightarrow> Inl x | Inr (_, t) \<Rightarrow> group_add_n n t)"

definition new_tree :: "nat \<Rightarrow> sig_tree result" where
  "new_tree n = group_add_n n empty_tree"

definition group_index :: "string \<Rightarrow> sig_tree \<Rightarrow> nat option" where
  "group_index name t = map_option nat (st_names t name)"

definition group :: "string \<Rightarrow> bool \<Rightarrow> sig_tree \<Rightarrow> sensor option" where
  "group name allowed_only t =
     (case group_index name t of
        Some i \<Rightarrow> if allowed_only \<and> \<not> st_filter t i then None else st_sensors t i
      | None \<Rightarrow> None)"

definition tree_check :: "nat \<Rightarrow> sig_tree \<Rightarrow> bool result" where
  "tree_check i t = (if i < max_groups then ok (st_filter t i) else raise Out_of_range)"

definition tree_set :: "nat \<Rightarrow> bool \<Rightarrow> sig_tree \<Rightarrow> sig_tree" where
  "tree_set i v t = (if i < max_groups then t\<lparr>st_filter := (st_filter t)(i := v)\<rparr> else t)"

definition signature_add :: "flow_match option \<Rightarrow> string \<Rightarrow> bool \<Rightarrow> sig_tree \<Rightarrow> (bool \<times> sig_tree) result" where
  "signature_add sig name allowed t =
     (case (case group_index name t of
              Some i \<Rightarrow> ok (False, int i, t)
            | None \<Rightarrow> (case group_add_named name allowed t of Inl x \<Rightarrow> Inl x | Inr (i, t) \<Rightarrow> ok (True, i, t))) of
        Inl x \<Rightarrow> Inl x
      | Inr (created, i, t) \<Rightarrow>
          (case st_sensors t (nat i) of
             None \<Rightarrow> raise Undefined_behaviour
           | Some s \<Rightarrow> ok (created, t\<lparr>st_sensors := (st_sensors t)(nat i \<mapsto> s @ [(new_state, sig)])\<rparr>)))"

definition tree_reset :: "sig_tree \<Rightarrow> sig_tree" where
  "tree_reset t = t\<lparr>st_last := - 1, st_names := Map.empty, st_sensors := Map.empty\<rparr>"

section \<open>What a flow holds\<close>

definition side_bytes :: "char \<Rightarrow> flow \<Rightarrow> byte list" where
  "side_bytes src f = concat (map fe_data (filter (\<lambda>e. fe_source e = src) (fl_queue f)))"

definition alternating :: "flow \<Rightarrow> bool" where
  "alternating f \<longleftrightarrow> successively (\<lambda>a b. fe_source a \<noteq> fe_source b) (fl_queue f)"

text \<open>A flow of a stream, fed with a sequence of chunks.\<close>

fun feed :: "(char \<times> byte list) list \<Rightarrow> flow \<Rightarrow> flow" where
  "feed [] f = f"
| "feed ((src, d) # cs) f = feed cs (snd (flow_append src d f))"

lemma append_domain [simp]: "fl_domain (snd (flow_append src d f)) = fl_domain f"
  by (simp add: flow_append_def Let_def)

lemma append_exact:
  assumes "fl_domain f = SOCK_STREAM" and "length (side_bytes src f) + length d \<le> max_flow_size"
  shows "side_bytes s (snd (flow_append src d f)) = (if s = src then side_bytes s f @ d else side_bytes s f)"
proof (cases "fl_queue f = []")
  case True
  then show ?thesis by (simp add: flow_append_def side_bytes_def new_entry_def)
next
  case False
  then obtain q e where q: "fl_queue f = q @ [e]" by (metis rev_exhaust)
  have "length (fe_data e) \<le> length (side_bytes src f)" if "fe_source e = src"
    using that by (simp add: side_bytes_def q)
  then show ?thesis
    using assms q by (auto simp: flow_append_def side_bytes_def new_entry_def fe_append_def Let_def)
qed

lemma append_alternates:
  assumes "alternating f" and "fl_domain f = SOCK_STREAM"
  shows "alternating (snd (flow_append src d f))"
proof (cases "fl_queue f = []")
  case True
  then show ?thesis by (simp add: flow_append_def alternating_def)
next
  case False
  then obtain q e where q: "fl_queue f = q @ [e]" by (metis rev_exhaust)
  show ?thesis
    using assms q
    by (auto simp: flow_append_def alternating_def Let_def successively_append_iff fe_append_def new_entry_def)
qed

lemma feed_exact:
  assumes "fl_domain f = SOCK_STREAM" and "alternating f"
    and "\<forall>s. length (side_bytes s f) + length (concat (map snd (filter (\<lambda>c. fst c = s) cs))) \<le> max_flow_size"
  shows "alternating (feed cs f) \<and>
    (\<forall>s. side_bytes s (feed cs f) = side_bytes s f @ concat (map snd (filter (\<lambda>c. fst c = s) cs)))"
  using assms
proof (induction cs arbitrary: f)
  case (Cons c cs)
  obtain src d where c: "c = (src, d)" by force
  let ?f = "snd (flow_append src d f)"
  have "length (side_bytes src f) + length d \<le> max_flow_size"
    using Cons.prems(3) [rule_format, of src] c by simp
  then have s: "side_bytes s ?f = (if s = src then side_bytes s f @ d else side_bytes s f)" for s
    using append_exact [OF Cons.prems(1)] by simp
  have "\<forall>s. length (side_bytes s ?f) + length (concat (map snd (filter (\<lambda>c. fst c = s) cs))) \<le> max_flow_size"
  proof
    fix s show "length (side_bytes s ?f) + length (concat (map snd (filter (\<lambda>c. fst c = s) cs))) \<le> max_flow_size"
      using Cons.prems(3) [rule_format, of s] c s by (auto split: if_splits)
  qed
  then show ?case
    using Cons.IH [of ?f] Cons.prems(1,2) append_alternates c s by auto
qed simp

text \<open>C28: A flow of a stream fed with chunks of both sides keeps, for each side, exactly the bytes
  of that side in order, as long as they fit the limit, and its entries alternate between the sides.\<close>

theorem flow_keeps_both_streams:
  assumes "\<And>s. length (concat (map snd (filter (\<lambda>c. fst c = s) cs))) \<le> max_flow_size"
  shows "alternating (feed cs new_flow) \<and>
    (\<forall>s. side_bytes s (feed cs new_flow) = concat (map snd (filter (\<lambda>c. fst c = s) cs)))"
  using feed_exact [of new_flow cs] assms by (simp add: new_flow_def alternating_def side_bytes_def)

section \<open>Signatures\<close>

definition hits :: "regex_search \<Rightarrow> char \<times> base_match \<Rightarrow> flow_entry \<Rightarrow> bool" where
  "hits rx sm e \<longleftrightarrow>
     fe_source e = fst sm \<and> fe_data e \<noteq> [] \<and>
     (case limited_view (snd sm) (fe_data e) of Inr v \<Rightarrow> match_view rx (snd sm) v \<noteq> NULLRANGE | Inl _ \<Rightarrow> False)"

lemma list_view_total:
  assumes "pos < length bs" and "length bs < 2 ^ 63" and "len < 2 ^ 63"
  shows "\<exists>v. list_view bs pos len = ok v"
  using assms by (auto simp: list_view_def sz_add_def)

lemma unat_less_power: "unat (x :: u32) < 2 ^ 32"
  using unsigned_less [of x] by simp

lemma limited_view_total:
  assumes "bs \<noteq> []" and "length bs < 2 ^ 63"
  shows "\<exists>v. limited_view m bs = ok v"
proof -
  have "unat (bm_bytes m) < 2 ^ 63" using unat_less_power [of "bm_bytes m"] by simp
  then show ?thesis
    using assms by (auto simp: limited_view_def intro!: list_view_total)
qed

text \<open>The entries that satisfy the chain, in order, as a subsequence of the queue.\<close>

definition found :: "regex_search \<Rightarrow> (char \<times> base_match) list \<Rightarrow> flow_entry list \<Rightarrow> bool" where
  "found rx sig q \<longleftrightarrow> (\<exists>es. subseq es q \<and> list_all2 (hits rx) sig es)"

lemma found_Nil [simp]: "found rx [] q" "found rx (c # cs) [] \<longleftrightarrow> False"
  by (auto simp: found_def list_all2_Cons1)

text \<open>Taking the first entry that fits loses nothing.\<close>

lemma found_Cons: "found rx (c # cs) (e # q) \<longleftrightarrow> (if hits rx c e then found rx cs q else found rx (c # cs) q)"
proof (cases "hits rx c e")
  case True
  have "found rx (c # cs) (e # q)" if "found rx cs q"
    using that True unfolding found_def by (metis list_all2_Cons subseq_Cons2)
  moreover have "found rx cs q" if f: "found rx (c # cs) (e # q)"
  proof -
    obtain xs where xs: "subseq xs (e # q)" "list_all2 (hits rx) (c # cs) xs" using f by (auto simp: found_def)
    then obtain a es where "xs = a # es" "list_all2 (hits rx) cs es" by (cases xs) auto
    with xs(1) have "subseq (a # es) (e # q)" by simp
    then have "subseq es q" by (metis subseq_Cons' subseq_Cons2_iff)
    then show ?thesis using \<open>list_all2 (hits rx) cs es\<close> by (auto simp: found_def)
  qed
  ultimately show ?thesis using True by auto
next
  case False
  have "found rx (c # cs) q" if "found rx (c # cs) (e # q)"
    using that False unfolding found_def
    by (smt (verit) list_all2_Cons1 subseq_Cons2_neq)
  then show ?thesis using False unfolding found_def by (meson list_emb_Cons)
qed

text \<open>Starting without results, the loop never meets an entry it has a result for.\<close>

lemma match_loop_found:
  assumes "length ret \<le> cur" and "\<forall>e \<in> set q. length (fe_data e) < 2 ^ 63" and "pos \<le> length sig"
  shows "\<exists>ret' pos'. match_loop rx sig q cur ret pos = ok (ret', pos') \<and> pos' \<le> length sig \<and>
    (pos' = length sig \<longleftrightarrow> found rx (drop pos sig) (drop cur q))"
  using assms
proof (induction "length q - cur" arbitrary: cur ret pos)
  case 0
  then show ?case by (subst match_loop.simps) (cases "drop pos sig"; auto)
next
  case (Suc k)
  show ?case
  proof (cases "pos < length sig")
    case False
    then show ?thesis using Suc.prems by (subst match_loop.simps) auto
  next
    case True
    obtain src m where sm: "sig ! pos = (src, m)" by force
    have c: "cur < length q" using Suc.hyps(2) by simp
    let ?e = "q ! cur"
    have f: "found rx (drop pos sig) (drop cur q) =
        (if hits rx (src, m) ?e then found rx (drop (Suc pos) sig) (drop (Suc cur) q)
         else found rx (drop pos sig) (drop (Suc cur) q))"
      using True sm c by (metis Cons_nth_drop_Suc found_Cons)
    have last: "\<not> at_last cur ret" using Suc.prems(1) by (cases ret) (auto simp: at_last_def)
    have pad: "length (pad cur ret) \<le> Suc cur" using Suc.prems(1) by (simp add: pad_def)
    have k: "k = length q - Suc cur" using Suc.hyps(2) by simp
    have len: "length (fe_data ?e) < 2 ^ 63" using Suc.prems(2) c by simp
    note step = match_loop.simps [of rx sig q cur ret pos, unfolded sm]
    show ?thesis
    proof (cases "hits rx (src, m) ?e")
      case h: True
      then obtain v where "limited_view m (fe_data ?e) = ok v" "match_view rx m v \<noteq> NULLRANGE"
          "fe_source ?e = src" "fe_data ?e \<noteq> []"
        by (auto simp: hits_def split: sum.splits)
      then have "match_loop rx sig q cur ret pos =
          match_loop rx sig q (Suc cur) (ret @ [match_view rx m v]) (Suc pos)"
        using step c True last by simp
      then show ?thesis
        using Suc.hyps(1) [OF k, of "ret @ [match_view rx m v]" "Suc pos"] Suc.prems True h f by auto
    next
      case h: False
      have "\<exists>ret2. length ret2 \<le> Suc cur \<and> match_loop rx sig q cur ret pos = match_loop rx sig q (Suc cur) ret2 pos"
      proof (cases "fe_data ?e = []")
        case True
        then have "match_loop rx sig q cur ret pos = match_loop rx sig q (Suc cur) ret pos"
          using step c \<open>pos < length sig\<close> by simp
        then show ?thesis using Suc.prems(1) le_SucI by blast
      next
        case False
        then obtain v where "limited_view m (fe_data ?e) = ok v" using limited_view_total len by blast
        then have "match_loop rx sig q cur ret pos = match_loop rx sig q (Suc cur) (pad cur ret) pos"
          using step c \<open>pos < length sig\<close> h False by (auto simp: hits_def Let_def)
        then show ?thesis using pad by blast
      qed
      then show ?thesis using Suc.hyps(1) [OF k] Suc.prems h f by metis
    qed
  qed
qed

lemma fm_match_found:
  assumes "\<And>e. e \<in> set (fl_queue f) \<Longrightarrow> length (fe_data e) < 2 ^ 63"
  shows "\<exists>ret pos. fm_match rx fm f [] 0 =
    ok (fm_chain fm \<noteq> [] \<and> found rx (fm_chain fm) (fl_queue f), ret, pos)"
proof -
  obtain ret pos where 1: "match_loop rx (fm_chain fm) (fl_queue f) 0 [] 0 = ok (ret, pos)"
    "pos \<le> length (fm_chain fm)" "pos = length (fm_chain fm) \<longleftrightarrow> found rx (fm_chain fm) (fl_queue f)"
    using match_loop_found [of "[]" 0 "fl_queue f" 0 "fm_chain fm" rx] assms by auto
  then have "(0 < pos \<and> length (fm_chain fm) \<le> pos) \<longleftrightarrow> fm_chain fm \<noteq> [] \<and> found rx (fm_chain fm) (fl_queue f)"
    by auto
  then show ?thesis using 1(1) by (simp add: fm_match_def)
qed

text \<open>C10: Matched against a flow without earlier results, a signature is found exactly if its
  chain of expressions can be satisfied by entries of the flow in order: taking the first entry that
  fits loses no match.\<close>

theorem match_iff_found:
  assumes "\<And>e. e \<in> set (fl_queue f) \<Longrightarrow> length (fe_data e) < 2 ^ 63"
  shows "\<exists>ret pos. fm_match rx fm f [] 0 =
    ok (fm_chain fm \<noteq> [] \<and> found rx (fm_chain fm) (fl_queue f), ret, pos)"
  by (rule fm_match_found) (rule assms)

text \<open>A signature whose next expression is found in the entry examined last, because more data
  have arrived there since, makes \<^verbatim>\<open>match\<close> erase the end iterator of its
  results, which is undefined.\<close>

theorem late_match_is_undefined:
  assumes "ret \<noteq> []" and "length ret \<le> length (fl_queue f)" and "pos < length (fm_chain fm)"
    and "hits rx (fm_chain fm ! pos) (fl_queue f ! (length ret - 1))"
  shows "fm_match rx fm f ret pos = raise Undefined_behaviour"
proof -
  have "length ret - 1 < length (fl_queue f)" using assms(1,2) by (cases ret) auto
  then have "match_loop rx (fm_chain fm) (fl_queue f) (length ret - 1) ret pos = raise Undefined_behaviour"
    using assms
    by (subst match_loop.simps) (auto simp: hits_def at_last_def split: sum.splits prod.splits)
  then show ?thesis by (simp add: fm_match_def)
qed

text \<open>\<^verbatim>\<open>std::string::find\<close>: the first position the pattern starts at.\<close>

lemma str_find_Some:
  "str_find p s = Some i \<longleftrightarrow> i \<le> length s \<and> prefix p (drop i s) \<and> (\<forall>j<i. \<not> prefix p (drop j s))"
proof (induction s arbitrary: i)
  case Nil
  then show ?case by (cases i) (auto simp: prefix_def)
next
  case (Cons c s)
  show ?case
  proof (cases i)
    case 0
    then show ?thesis by auto
  next
    case (Suc k)
    then show ?thesis using Cons.IH [of k] by (auto simp: less_Suc_eq_0_disj)
  qed
qed

lemma int_of_size_small: "n < 2 ^ 31 \<Longrightarrow> int_of_size n = int n"
  by (simp add: int_of_size_def signed_of_nat signed_take_bit_int_eq_self)

lemma plain_range:
  assumes "\<not> bm_regex m" and "length s < 2 ^ 30" and "s \<noteq> []"
  shows "simple_match rx m s =
    (case str_find (bm_expr m) s of Some p \<Rightarrow> (int p, int p + int (length s) - 1) | None \<Rightarrow> NULLRANGE)"
proof (cases "str_find (bm_expr m) s")
  case None
  then show ?thesis using assms by (simp add: simple_match_def search_function_def)
next
  case (Some p)
  then have "p \<le> length s" by (simp add: str_find_Some)
  then show ?thesis
    using assms Some
    by (auto simp: simple_match_def search_function_def int_of_size_small NULLRANGE_def)
qed

text \<open>A plain expression without limits is found in an entry exactly if the entry is of its
  side and contains the expression.\<close>

theorem plain_hit_iff_contains:
  assumes "\<not> bm_regex m" and "bm_offset m = 0" and "bm_bytes m = 0" and "length (fe_data e) < 2 ^ 30"
  shows "hits rx (src, m) e \<longleftrightarrow> fe_source e = src \<and> fe_data e \<noteq> [] \<and> sublist (bm_expr m) (fe_data e)"
proof -
  have s: "sublist p d \<longleftrightarrow> str_find p d \<noteq> None" for p d :: "byte list"
    by (induction d) (auto simp: sublist_Cons_right)
  have n: "int p + int (length (fe_data e)) - 1 \<noteq> - 1" if "fe_data e \<noteq> []" for p
    using that by (cases "fe_data e") auto
  have v: "match_view rx m d = simple_match rx m d" if "length d < 2 ^ 30" for d
    using that by (simp add: match_view_def unat_of_nat take_bit_nat_eq_self)
  show ?thesis
    using assms n v by (auto simp: hits_def limited_view_def plain_range s NULLRANGE_def split: option.splits)
qed

text \<open>The range of a plain expression ends beyond the data unless it starts at zero; an expression
  that matches the empty string at the start counts as not found.\<close>

lemma plain_range_overshoots:
  assumes "\<not> bm_regex m" and "length s < 2 ^ 30" and "s \<noteq> []" and "str_find (bm_expr m) s = Some p" and "0 < p"
  shows "int (length s) \<le> snd (simple_match rx m s)"
  using assms by (simp add: plain_range)

lemma empty_match_is_lost: "bm_regex m \<Longrightarrow> rx (bm_expr m) s = Some (0, 0) \<Longrightarrow> simple_match rx m s = NULLRANGE"
  by (simp add: simple_match_def search_function_def int_of_size_def NULLRANGE_def)

section \<open>Groups\<close>

definition tree_ok :: "sig_tree \<Rightarrow> bool" where
  "tree_ok t \<longleftrightarrow>
     - 1 \<le> st_last t \<and> st_last t < int max_groups \<and>
     (\<forall>i. st_sensors t i \<noteq> None \<longleftrightarrow> int i \<le> st_last t) \<and>
     (\<forall>n i. st_names t n = Some i \<longrightarrow> 0 \<le> i \<and> i \<le> st_last t) \<and>
     (\<forall>n k i. st_names t n = Some i \<longrightarrow> st_names t k = Some i \<longrightarrow> n = k)"

lemma group_add_ok:
  assumes "tree_ok t" and "group_add a t = ok (i, t')"
  shows "tree_ok t'" "i = st_last t + 1" "st_names t' = st_names t" "st_sensors t' = (st_sensors t)(nat i \<mapsto> [])"
    "st_filter t' = (st_filter t)(nat i := a)" "st_last t' = i" "st_last t < int max_groups - 1"
proof -
  have i: "i = st_last t + 1" "st_last t < int max_groups - 1" and t': "t' = t\<lparr>st_last := i,
      st_sensors := (st_sensors t)(nat i \<mapsto> []), st_filter := (st_filter t)(nat i := a)\<rparr>"
    using assms(2) by (auto simp: group_add_def Let_def split: if_splits)
  have s: "((st_sensors t)(nat i \<mapsto> [])) k \<noteq> None \<longleftrightarrow> int k \<le> i" for k
    using assms(1) i unfolding tree_ok_def by auto
  show "tree_ok t'"
    unfolding tree_ok_def
  proof (intro conjI allI impI)
    show "(st_sensors t' k \<noteq> None) = (int k \<le> st_last t')" for k using s t' by simp
    show "0 \<le> j" "j \<le> st_last t'" if "st_names t' n = Some j" for n j
      using that assms(1) i t' unfolding tree_ok_def by force+
    show "n = k" if "st_names t' n = Some j" "st_names t' k = Some j" for n k j
      using that assms(1) t' unfolding tree_ok_def by simp
  qed (use assms(1) i t' in \<open>auto simp: tree_ok_def\<close>)
qed (use assms(2) in \<open>auto simp: group_add_def Let_def split: if_splits\<close>)

lemma group_add_named_ok:
  assumes "tree_ok t" and "group_add_named n a t = ok (i, t')" and "st_names t n = None"
  shows "tree_ok t'" "i = st_last t + 1" "st_names t' = (st_names t)(n \<mapsto> i)"
    "st_sensors t' = (st_sensors t)(nat i \<mapsto> [])" "st_filter t' = (st_filter t)(nat i := a)"
proof -
  obtain t1 where t1: "group_add a t = ok (i, t1)" "t' = t1\<lparr>st_names := (st_names t1)(n \<mapsto> i)\<rparr>"
    using assms(2) by (auto simp: group_add_named_def split: sum.splits)
  note g = group_add_ok [OF assms(1) t1(1)]
  show "i = st_last t + 1" "st_names t' = (st_names t)(n \<mapsto> i)"
    "st_sensors t' = (st_sensors t)(nat i \<mapsto> [])" "st_filter t' = (st_filter t)(nat i := a)"
    using g t1(2) by simp_all
  have new: "st_names t k \<noteq> Some i" for k using assms(1) g(2) unfolding tree_ok_def by force
  show "tree_ok t'"
    using g(1-3,6) t1(2) new assms(1) unfolding tree_ok_def by (auto split: if_splits)
qed

lemma file_in_group:
  assumes "tree_ok t" and "st_names t name = Some i" and "st_sensors t (nat i) = Some s"
    and "t' = t\<lparr>st_sensors := (st_sensors t)(nat i \<mapsto> s @ [x])\<rparr>"
  shows "tree_ok t' \<and> group name False t' = Some (s @ [x]) \<and> (\<forall>n b. n \<noteq> name \<longrightarrow> group n b t' = group n b t)"
proof (intro conjI allI impI)
  show "tree_ok t'" using assms unfolding tree_ok_def by auto
  show "group name False t' = Some (s @ [x])" using assms by (simp add: group_def group_index_def)
  fix n b assume "n \<noteq> name"
  then have "nat k \<noteq> nat i" if "st_names t n = Some k" for k
    using that assms(1,2) unfolding tree_ok_def by (metis nat_eq_iff2)
  then show "group n b t' = group n b t"
    using assms(4) by (auto simp: group_def group_index_def split: option.splits)
qed

text \<open>Adding a signature to a named group creates the group if there is none, appends the
  signature with a fresh state, and changes no other group; the indexes stay consistent.\<close>

theorem signature_is_filed:
  assumes "tree_ok t" and "signature_add sig name allowed t = ok (created, t')"
  shows "tree_ok t' \<and> (created \<longleftrightarrow> group_index name t = None) \<and>
    (\<exists>s. group name False t' = Some (s @ [(new_state, sig)]) \<and>
         (if created then s = [] else group name False t = Some s)) \<and>
    (\<forall>n b. n \<noteq> name \<longrightarrow> group n b t' = group n b t)"
proof (cases "st_names t name")
  case (Some i)
  moreover have "0 \<le> i" using assms(1) Some unfolding tree_ok_def by blast
  ultimately obtain s where "\<not> created" "st_sensors t (nat i) = Some s"
      "t' = t\<lparr>st_sensors := (st_sensors t)(nat i \<mapsto> s @ [(new_state, sig)])\<rparr>"
    using assms(2) by (auto simp: signature_add_def group_index_def split: option.splits)
  then show ?thesis
    using file_in_group [OF assms(1) Some] Some by (auto simp: group_def group_index_def)
next
  case None
  then obtain i t1 where 1: "group_add_named name allowed t = ok (i, t1)" "created"
    and 2: "(case st_sensors t1 (nat i) of None \<Rightarrow> raise Undefined_behaviour
           | Some s \<Rightarrow> ok (True, t1\<lparr>st_sensors := (st_sensors t1)(nat i \<mapsto> s @ [(new_state, sig)])\<rparr>)) = ok (created, t')"
    using assms(2) by (auto simp: signature_add_def group_index_def split: sum.splits option.splits)
  note g = group_add_named_ok [OF assms(1) 1(1) None]
  have t': "t' = t1\<lparr>st_sensors := (st_sensors t1)(nat i \<mapsto> [] @ [(new_state, sig)])\<rparr>"
    using 2 g(4) by simp
  have f: "tree_ok t' \<and> group name False t' = Some ([] @ [(new_state, sig)]) \<and> (\<forall>n b. n \<noteq> name \<longrightarrow> group n b t' = group n b t1)"
    by (rule file_in_group [OF g(1) _ _ t']) (simp_all add: g(3,4))
  have "group n b t1 = group n b t" if "n \<noteq> name" for n b
  proof -
    have "nat k \<noteq> nat i" if "st_names t n = Some k" for k
      using that assms(1) g(2) unfolding tree_ok_def by force
    then show ?thesis using that g(3-5) by (auto simp: group_def group_index_def split: option.splits)
  qed
  then show ?thesis using f 1(2) None by (auto simp: group_index_def)
qed

text \<open>With all 128 groups in use, adding a signature under a new name writes beyond the
  arrays.\<close>

theorem full_tree_is_undefined:
  assumes "tree_ok t" and "st_last t = int max_groups - 1" and "group_index name t = None"
  shows "signature_add sig name allowed t = raise Undefined_behaviour"
  using assms by (simp add: signature_add_def group_add_named_def group_add_def Let_def)

section \<open>Witnesses\<close>

definition no_regex :: regex_search where "no_regex e s = None"

definition plain :: "byte list \<Rightarrow> base_match" where
  "plain e = \<lparr>bm_expr = e, bm_offset = 0, bm_bytes = 0, bm_regex = False\<rparr>"

definition demo_chunks :: "(char \<times> byte list) list" where
  "demo_chunks = [(CHR ''r'', [1, 2]), (CHR ''r'', [3]), (CHR ''w'', [4]), (CHR ''r'', [5])]"

definition demo_sig :: flow_match where
  "demo_sig = \<lparr>fm_name = ''demo'', fm_chain = [(CHR ''r'', plain [2, 3]), (CHR ''w'', plain [4])]\<rparr>"

lemma demo_feed:
  "fl_queue (feed demo_chunks new_flow) =
     [\<lparr>fe_source = CHR ''r'', fe_data = [1, 2, 3], fe_counter = 2, fe_validity = V_OK\<rparr>,
      new_entry CHR ''w'' [4], new_entry CHR ''r'' [5]]"
  by (simp add: demo_chunks_def flow_append_def new_flow_def new_entry_def fe_append_def max_flow_size_def SOCK_STREAM_def)

theorem flow_keeps_both_streams_witness:
  "side_bytes CHR ''r'' (feed demo_chunks new_flow) = [1, 2, 3, 5] \<and> side_bytes CHR ''w'' (feed demo_chunks new_flow) = [4]"
  using flow_keeps_both_streams [of demo_chunks] by (auto simp: demo_chunks_def max_flow_size_def)

lemma demo_hits:
  "hits no_regex (CHR ''r'', plain [2, 3]) (fl_queue (feed demo_chunks new_flow) ! 0)"
  "hits no_regex (CHR ''w'', plain [4]) (fl_queue (feed demo_chunks new_flow) ! 1)"
  unfolding demo_feed
  by (simp_all add: hits_def plain_def limited_view_def match_view_def simple_match_def search_function_def NULLRANGE_def
      int_of_size_def new_entry_def)

lemma demo_found: "found no_regex (fm_chain demo_sig) (fl_queue (feed demo_chunks new_flow))"
  using demo_hits unfolding demo_feed by (simp add: demo_sig_def found_Cons)

lemma demo_small: "e \<in> set (fl_queue (feed demo_chunks new_flow)) \<Longrightarrow> length (fe_data e) < 2 ^ 63"
  by (auto simp: demo_feed new_entry_def)

theorem match_iff_found_witness:
  "\<exists>ret pos. fm_match no_regex demo_sig (feed demo_chunks new_flow) [] 0 = ok (True, ret, pos)"
  using match_iff_found [of "feed demo_chunks new_flow" no_regex demo_sig] demo_small demo_found
  by (simp add: demo_sig_def)

text \<open>The first segment of a request alone does not match; with the second one in the same entry it
  does.\<close>

definition half_flow :: flow where
  "half_flow = new_flow\<lparr>fl_queue := [\<lparr>fe_source = CHR ''r'', fe_data = [1, 2, 3], fe_counter = 2, fe_validity = V_OK\<rparr>]\<rparr>"

lemma half_flow_fed: "half_flow = feed [(CHR ''r'', [1, 2]), (CHR ''r'', [3])] new_flow"
  by (simp add: half_flow_def flow_append_def new_flow_def new_entry_def fe_append_def max_flow_size_def SOCK_STREAM_def)

theorem late_match_is_undefined_witness:
  "fm_match no_regex demo_sig half_flow [NULLRANGE] 0 = raise Undefined_behaviour"
proof (rule late_match_is_undefined)
  show "hits no_regex (fm_chain demo_sig ! 0) (fl_queue half_flow ! (length [NULLRANGE] - 1))"
    using demo_hits(1) by (simp add: demo_feed demo_sig_def half_flow_def)
qed (simp_all add: demo_sig_def half_flow_def)

lemma empty_tree_ok: "tree_ok empty_tree"
  by (simp add: tree_ok_def empty_tree_def max_groups_def)

theorem signature_is_filed_witness:
  "\<exists>t'. signature_add (Some demo_sig) ''base'' True empty_tree = ok (True, t') \<and>
     group ''base'' False t' = Some [(new_state, Some demo_sig)]"
proof -
  obtain t' where t': "signature_add (Some demo_sig) ''base'' True empty_tree = ok (True, t')"
    by (simp add: signature_add_def group_index_def group_add_named_def group_add_def empty_tree_def max_groups_def)
  then show ?thesis using signature_is_filed [OF empty_tree_ok t'] by auto
qed

end
