(* ===== verification/Apphostcx.thy ===== *)
theory Apphostcx
  imports Hostcx Signature
begin

text \<open>
  The application host context: \<^verbatim>\<open>apphostcx.hpp\<close> and \<^verbatim>\<open>apphostcx.cpp\<close>.

  \<^verbatim>\<open>AppHostCX\<close> records in a flow what its context reads and writes, as long as the connection is
  young, and runs signatures over it. It hooks into \<^verbatim>\<open>read\<close> and \<^verbatim>\<open>write\<close> of the host context
  (theory \<open>Hostcx\<close>), whose state is the component \<open>ap_cx\<close>. The pure virtual members of the class are
  the argument \<open>app_hooks\<close>, functions on the whole state with a part \<open>ap_user\<close> of their own; what a
  peek of the com sees is the argument \<open>pk\<close>. The flow is created on first use in the code; here it
  is there from the start.
\<close>

section \<open>State\<close>

datatype detect_mode = M_NONE | M_PRE | M_POST | M_CONTINUOUS

record app_config =
  max_starttls_exchanges :: u32
  max_detect_bytes :: u32
  min_detect_bytes :: u32
  max_exchanges :: u32
  continuous_data_left_default :: u64
  opt_switch_to_continuous :: bool

definition default_config :: app_config where
  "default_config = \<lparr>max_starttls_exchanges = 10, max_detect_bytes = 2048, min_detect_bytes = 1024,
     max_exchanges = 20, continuous_data_left_default = 100000, opt_switch_to_continuous = True\<rparr>"

record com_view =
  cv_l4_proto :: int
  cv_plain_tcp :: bool

record 's app =
  ap_cx :: baseHostCX
  ap_flow :: flow
  ap_peek_read :: u64
  ap_peek_write :: u64
  ap_upgrade_starttls :: bool
  ap_tree :: sig_tree
  ap_mode :: detect_mode
  ap_continuous_left :: u64
  ap_user :: 's

record 's app_hooks =
  ah_inspect :: "char \<Rightarrow> 's app \<Rightarrow> 's app"
  ah_on_detect :: "flow_match \<Rightarrow> range list \<Rightarrow> 's app \<Rightarrow> 's app"
  ah_on_starttls :: "'s app \<Rightarrow> 's app"

definition SOCK_DGRAM :: int where "SOCK_DGRAM = 2"

definition new_app :: "com_view \<Rightarrow> baseHostCX \<Rightarrow> 's \<Rightarrow> 's app result" where
  "new_app cv cx u =
     (case new_tree 2 of
        Inl x \<Rightarrow> Inl x
      | Inr t \<Rightarrow>
          ok \<lparr>ap_cx = cx, ap_flow = (if cv_l4_proto cv \<noteq> 0 then new_flow\<lparr>fl_domain := cv_l4_proto cv\<rparr> else new_flow),
              ap_peek_read = 0, ap_peek_write = 0, ap_upgrade_starttls = False, ap_tree = t, ap_mode = M_NONE,
              ap_continuous_left = 0, ap_user = u\<rparr>)"

section \<open>Detection\<close>

fun make_sig_states :: "sensor \<Rightarrow> nat \<times> sensor" where
  "make_sig_states [] = (0, [])"
| "make_sig_states ((_, sig) # ss) =
     (let (n, out) = make_sig_states ss
      in if sig = None then (n, out) else (n + 1, (new_state, sig) # out))"

definition put_state :: "nat \<Rightarrow> nat \<Rightarrow> match_state \<Rightarrow> 's app \<Rightarrow> 's app" where
  "put_state g k ms a =
     a\<lparr>ap_tree := (ap_tree a)\<lparr>st_sensors := (st_sensors (ap_tree a))
          (g := map_option (\<lambda>s. s[k := (ms, snd (s ! k))]) (st_sensors (ap_tree a) g))\<rparr>\<rparr>"

definition detect_one :: "regex_search \<Rightarrow> 's app_hooks \<Rightarrow> nat \<Rightarrow> nat \<Rightarrow> 's app \<Rightarrow> (bool \<times> 's app) result" where
  "detect_one rx H g k a =
     (case st_sensors (ap_tree a) g of
        None \<Rightarrow> raise Undefined_behaviour
      | Some s \<Rightarrow>
          if length s \<le> k then raise Undefined_behaviour
          else if ms_hit (fst (s ! k)) then ok (False, a)
          else
            (case snd (s ! k) of
               None \<Rightarrow> raise Undefined_behaviour
             | Some fm \<Rightarrow>
                 (case ms_update rx (ap_flow a) fm (fst (s ! k)) of
                    Inl x \<Rightarrow> Inl x
                  | Inr (r, ms) \<Rightarrow>
                      if r then ok (True, ah_on_detect H fm (ms_ranges ms) (put_state g k (ms\<lparr>ms_hit := True\<rparr>) a))
                      else ok (False, put_state g k ms a))))"

fun detect_loop :: "regex_search \<Rightarrow> 's app_hooks \<Rightarrow> nat \<Rightarrow> nat list \<Rightarrow> 's app \<Rightarrow> (bool \<times> 's app) result" where
  "detect_loop rx H g [] a = ok (False, a)"
| "detect_loop rx H g (k # ks) a =
     (case detect_one rx H g k a of
        Inl x \<Rightarrow> Inl x
      | Inr (r, a) \<Rightarrow>
          (case detect_loop rx H g ks a of Inl x \<Rightarrow> Inl x | Inr (r', a) \<Rightarrow> ok (r \<or> r', a)))"

definition detect_sensor :: "regex_search \<Rightarrow> 's app_hooks \<Rightarrow> nat \<Rightarrow> 's app \<Rightarrow> (bool \<times> 's app) result" where
  "detect_sensor rx H g a =
     (case st_sensors (ap_tree a) g of
        None \<Rightarrow> ok (False, a)
      | Some s \<Rightarrow> detect_loop rx H g [0..<length s] a)"

fun detect_groups :: "regex_search \<Rightarrow> 's app_hooks \<Rightarrow> nat list \<Rightarrow> 's app \<Rightarrow> (bool \<times> 's app) result" where
  "detect_groups rx H [] a = ok (False, a)"
| "detect_groups rx H (g # gs) a =
     (if st_sensors (ap_tree a) g = None then ok (False, a)
      else
        (case (if st_filter (ap_tree a) g then detect_sensor rx H g a else ok (False, a)) of
           Inl x \<Rightarrow> Inl x
         | Inr (r, a) \<Rightarrow>
             (case detect_groups rx H gs a of Inl x \<Rightarrow> Inl x | Inr (r', a) \<Rightarrow> ok (r \<or> r', a))))"

definition detect :: "regex_search \<Rightarrow> 's app_hooks \<Rightarrow> 's app \<Rightarrow> (bool \<times> 's app) result" where
  "detect rx H = detect_groups rx H [1..<max_groups]"

definition detect_inspect :: "regex_search \<Rightarrow> 's app_hooks \<Rightarrow> char \<Rightarrow> 's app \<Rightarrow> 's app result" where
  "detect_inspect rx H side a =
     (case detect rx H a of Inl x \<Rightarrow> Inl x | Inr (_, a) \<Rightarrow> ok (ah_inspect H side a))"

definition detect_starttls ::
    "regex_search \<Rightarrow> 's app_hooks \<Rightarrow> app_config \<Rightarrow> com_view \<Rightarrow> 's app \<Rightarrow> 's app result" where
  "detect_starttls rx H cfg cv a =
     (if fl_exchanges (ap_flow a) < max_starttls_exchanges cfg \<and> cv_plain_tcp cv then
        (case detect_sensor rx H 0 a of
           Inl x \<Rightarrow> Inl x
         | Inr (r, a) \<Rightarrow> ok (if r then a\<lparr>ap_upgrade_starttls := True\<rparr> else a))
      else ok a)"

section \<open>The window\<close>

definition inside_detect_ranges :: "app_config \<Rightarrow> 's app \<Rightarrow> bool" where
  "inside_detect_ranges cfg a \<longleftrightarrow>
     (let bytes_total = cx_write_bytes (ap_cx a) + cx_read_bytes (ap_cx a)
      in bytes_total \<le> ucast (max_detect_bytes cfg) \<and>
         (length (fl_queue (ap_flow a)) < unat (max_exchanges cfg) \<or> bytes_total \<le> ucast (min_detect_bytes cfg)))"

definition acknowledge_continuous_mode :: "app_config \<Rightarrow> u64 \<Rightarrow> 's app \<Rightarrow> 's app" where
  "acknowledge_continuous_mode cfg n a =
     a\<lparr>ap_continuous_left := if n = 0 then continuous_data_left_default cfg else n\<rparr>"

definition inside_detect_on_continue :: "app_config \<Rightarrow> 's app \<Rightarrow> bool \<times> 's app" where
  "inside_detect_on_continue cfg a =
     (if \<not> inside_detect_ranges cfg a then
        if ap_mode a = M_CONTINUOUS then (True, a)
        else if opt_switch_to_continuous cfg
        then (True, (acknowledge_continuous_mode cfg 0 a)\<lparr>ap_mode := M_CONTINUOUS\<rparr>)
        else (False, a)
      else (True, a))"

definition continuous_mode_keeper :: "nat \<Rightarrow> 's app \<Rightarrow> 's app" where
  "continuous_mode_keeper n a =
     (let a = (if 4 < length (fl_queue (ap_flow a)) then a\<lparr>ap_flow := flow_pop (flow_pop (ap_flow a))\<rparr> else a)
      in if unat (ap_continuous_left a) < n then a\<lparr>ap_continuous_left := 0, ap_mode := M_NONE\<rparr>
         else a\<lparr>ap_continuous_left := ap_continuous_left a - of_nat n\<rparr>)"

definition record_bytes :: "char \<Rightarrow> byte list \<Rightarrow> 's app \<Rightarrow> 's app" where
  "record_bytes side d a = a\<lparr>ap_flow := snd (flow_append side d (ap_flow a))\<rparr>"

section \<open>The hooks of reading and writing\<close>

definition app_post_read :: "regex_search \<Rightarrow> 's app_hooks \<Rightarrow> app_config \<Rightarrow> 's app \<Rightarrow> 's app result" where
  "app_post_read rx H cfg a =
     (let d = lb_bytes (cx_readbuf (ap_cx a))
      in if d \<noteq> [] \<and> (ap_mode a = M_POST \<or> ap_mode a = M_CONTINUOUS) then
           let (inside, a) = inside_detect_on_continue cfg a
           in if inside then
                let a = record_bytes CHR ''r'' d a;
                    a = (if ap_mode a = M_CONTINUOUS then continuous_mode_keeper (length d) a else a)
                in detect_inspect rx H CHR ''r'' a
              else ok a
         else ok a)"

definition write_delta :: "'s app \<Rightarrow> nat" where
  "write_delta a =
     unat (cx_write_bytes (ap_cx a) + of_nat (lb_size (cx_writebuf (ap_cx a))) - ap_peek_write a)"

definition delta_view :: "'s app \<Rightarrow> byte list result" where
  "delta_view a =
     (let b = lb_bytes (cx_writebuf (ap_cx a)) in list_view b (sz_sub (length b) (write_delta a)) (length b))"

definition note_written :: "byte list \<Rightarrow> 's app \<Rightarrow> 's app" where
  "note_written d a =
     (record_bytes CHR ''w'' d a)\<lparr>ap_peek_write := ap_peek_write a + of_nat (length d)\<rparr>"

definition finish_write :: "'s app_hooks \<Rightarrow> 's app \<Rightarrow> 's app" where
  "finish_write H a =
     (if ap_mode a = M_PRE \<and> ap_upgrade_starttls a then ah_on_starttls H (a\<lparr>ap_upgrade_starttls := False\<rparr>) else a)"

definition app_post_write :: "regex_search \<Rightarrow> 's app_hooks \<Rightarrow> app_config \<Rightarrow> 's app \<Rightarrow> 's app result" where
  "app_post_write rx H cfg a =
     (if lb_bytes (cx_writebuf (ap_cx a)) = [] then ok a
      else
        (case (if ap_mode a = M_POST \<and> inside_detect_ranges cfg a then
                 if fl_queue (ap_flow a) = [] then raise Undefined_behaviour
                 else
                   (case delta_view a of
                      Inl x \<Rightarrow> Inl x
                    | Inr d \<Rightarrow>
                        detect_inspect rx H CHR ''w'' (if 0 < write_delta a then note_written d a else a))
               else ok a) of
           Inl x \<Rightarrow> Inl x
         | Inr a \<Rightarrow> ok (finish_write H a)))"

definition app_pre_write ::
    "regex_search \<Rightarrow> 's app_hooks \<Rightarrow> app_config \<Rightarrow> com_view \<Rightarrow> 's app \<Rightarrow> 's app result" where
  "app_pre_write rx H cfg cv a =
     (if lb_bytes (cx_writebuf (ap_cx a)) \<noteq> [] \<and> (ap_mode a = M_PRE \<or> ap_mode a = M_CONTINUOUS) then
        let (inside, a) = inside_detect_on_continue cfg a
        in if inside then
             (case (if 0 < write_delta a then
                      (case delta_view a of
                         Inl x \<Rightarrow> Inl x
                       | Inr d \<Rightarrow>
                           let a = note_written d a
                           in ok (if ap_mode a = M_CONTINUOUS then continuous_mode_keeper (length d) a else a))
                    else ok a) of
                Inl x \<Rightarrow> Inl x
              | Inr a \<Rightarrow>
                  (case detect_starttls rx H cfg cv a of
                     Inl x \<Rightarrow> Inl x
                   | Inr a \<Rightarrow> detect_inspect rx H CHR ''w'' a))
           else ok a
      else ok a)"

text \<open>What was read without having been peeked before.\<close>

definition salvage :: "app_config \<Rightarrow> 's app \<Rightarrow> (bool \<times> 's app) result" where
  "salvage cfg a =
     (if inside_detect_ranges cfg a \<and> ap_peek_read a < cx_read_bytes (ap_cx a) then
        let b = lb_bytes (cx_readbuf (ap_cx a)); delta = unat (cx_read_bytes (ap_cx a) - ap_peek_read a)
        in (case list_view b (sz_sub (length b) delta) delta of
              Inl x \<Rightarrow> Inl x
            | Inr v \<Rightarrow>
                if v \<noteq> [] then
                  ok (True, (record_bytes CHR ''r'' v a)\<lparr>ap_peek_read := ap_peek_read a + of_nat (length v)\<rparr>)
                else ok (False, a))
      else ok (False, a))"

text \<open>\<open>pk i c\<close> is what the \<open>i\<close>-th peek of this call sees with room for \<open>c\<close> bytes.\<close>

fun peek_all :: "(nat \<Rightarrow> nat \<Rightarrow> io_result) \<Rightarrow> (nat \<Rightarrow> nat) \<Rightarrow> nat \<Rightarrow> nat \<Rightarrow> lbuf \<Rightarrow> int \<Rightarrow> int \<times> lbuf" where
  "peek_all pk rnd i 0 b l = (l, b)"
| "peek_all pk rnd i (Suc n) b l =
     (case pk i (lb_cap b) of
        Io_fail \<Rightarrow> (- 1, b)
      | Io_data d \<Rightarrow>
          if d = [] then (0, b)
          else
            let b = b\<lparr>lb_bytes := d\<rparr>
            in if length d < lb_cap b then (int (length d), b)
               else peek_all pk rnd (Suc i) n (fst (lb_capacity rnd b (lb_cap b + 5000))) (int (length d)))"

definition peek_io ::
    "(nat \<Rightarrow> nat \<Rightarrow> io_result) \<Rightarrow> (nat \<Rightarrow> nat) \<Rightarrow> app_config \<Rightarrow> com_view \<Rightarrow> 's app \<Rightarrow> bool \<times> 's app" where
  "peek_io pk rnd cfg cv a =
     (if cx_read_bytes (ap_cx a) < ucast (max_detect_bytes cfg) then
        let (l, b) = peek_all pk rnd 0 10 \<lparr>lb_bytes = [], lb_cap = rnd 5000\<rparr> (- 1)
        in if l < 0 then (False, a\<lparr>ap_cx := read_force_eagain (ap_cx a)\<rparr>)
           else if 0 < l then
             let a = (record_bytes CHR ''r'' (lb_bytes b) a)\<lparr>ap_peek_read := ap_peek_read a + of_int l\<rparr>;
                 a = a\<lparr>ap_cx := set_read_limit (ap_cx a) (nat l)\<rparr>
             in (True, if cv_l4_proto cv = SOCK_DGRAM then a\<lparr>ap_cx := read_unlimited (ap_cx a)\<rparr> else a)
           else (False, a)
      else (False, a))"

definition app_pre_read ::
    "regex_search \<Rightarrow> 's app_hooks \<Rightarrow> app_config \<Rightarrow> com_view \<Rightarrow> (nat \<Rightarrow> nat \<Rightarrow> io_result) \<Rightarrow> (nat \<Rightarrow> nat) \<Rightarrow>
     's app \<Rightarrow> 's app result" where
  "app_pre_read rx H cfg cv pk rnd a =
     (if ap_mode a = M_PRE then
        (case salvage cfg a of
           Inl x \<Rightarrow> Inl x
         | Inr (u1, a) \<Rightarrow>
             let (u2, a) = peek_io pk rnd cfg cv a
             in if u1 \<or> u2 then
                  (case detect_starttls rx H cfg cv a of
                     Inl x \<Rightarrow> Inl x
                   | Inr a \<Rightarrow> detect_inspect rx H CHR ''r'' a)
                else ok a)
      else ok a)"

section \<open>Frames\<close>

lemma sz_sub_wraps: "a < b \<Longrightarrow> b < 2 ^ 64 \<Longrightarrow> sz_sub a b = 2 ^ 64 - (b - a)"
proof -
  assume b: "a < b" "b < 2 ^ 64"
  define d where "d = b - a"
  have d: "b = a + d" "0 < d" "d < 2 ^ 64" using b by (simp_all add: d_def)
  have "(- int d) mod 2 ^ 64 = 2 ^ 64 - int d" using d(2,3) by (simp add: zmod_zminus1_eq_if)
  then have "nat ((- int d) mod 2 ^ 64) = 2 ^ 64 - d" using d(3) by simp
  then show ?thesis using d(1) by (simp add: sz_sub_def)
qed

text \<open>Virtual members of a derived class that keep to their own state.\<close>

definition benign :: "'s app_hooks \<Rightarrow> bool" where
  "benign H \<longleftrightarrow>
     (\<forall>c a. ah_inspect H c a = a\<lparr>ap_user := ap_user (ah_inspect H c a)\<rparr>) \<and>
     (\<forall>fm v a. ah_on_detect H fm v a = a\<lparr>ap_user := ap_user (ah_on_detect H fm v a)\<rparr>) \<and>
     (\<forall>a. ah_on_starttls H a = a\<lparr>ap_user := ap_user (ah_on_starttls H a)\<rparr>)"

definition same_io :: "'s app \<Rightarrow> 's app \<Rightarrow> bool" where
  "same_io a b \<longleftrightarrow>
     ap_cx b = ap_cx a \<and> ap_flow b = ap_flow a \<and> ap_peek_read b = ap_peek_read a \<and>
     ap_peek_write b = ap_peek_write a \<and> ap_mode b = ap_mode a \<and> ap_continuous_left b = ap_continuous_left a"

lemma same_io_refl: "same_io a a" and same_io_trans: "same_io a b \<Longrightarrow> same_io b c \<Longrightarrow> same_io a c"
  by (auto simp: same_io_def)

lemma same_io_user: "same_io a (a\<lparr>ap_user := u\<rparr>)" and same_io_put: "same_io a (put_state g k ms a)"
  by (simp_all add: same_io_def put_state_def)

lemma benign_same:
  assumes "benign H"
  shows "same_io a (ah_inspect H c a)" "same_io a (ah_on_detect H fm v a)"
  using assms same_io_user unfolding benign_def by metis+

lemma detect_one_same: "benign H \<Longrightarrow> detect_one rx H g k a = ok (r, a') \<Longrightarrow> same_io a a'"
  by (auto simp: detect_one_def intro: same_io_refl same_io_put same_io_trans [OF same_io_put benign_same(2)]
      split: option.splits if_splits sum.splits)

lemma detect_loop_same: "benign H \<Longrightarrow> detect_loop rx H g ks a = ok (r, a') \<Longrightarrow> same_io a a'"
proof (induction ks arbitrary: a r)
  case (Cons k ks)
  obtain r1 a1 r2 where "detect_one rx H g k a = ok (r1, a1)" "detect_loop rx H g ks a1 = ok (r2, a')"
    using Cons.prems(2) by (simp split: sum.splits prod.splits)
  then show ?case using Cons.IH Cons.prems(1) detect_one_same same_io_trans by metis
qed (simp add: same_io_refl)

lemma detect_sensor_same: "benign H \<Longrightarrow> detect_sensor rx H g a = ok (r, a') \<Longrightarrow> same_io a a'"
  by (auto simp: detect_sensor_def same_io_refl dest: detect_loop_same split: option.splits)

lemma detect_groups_same: "benign H \<Longrightarrow> detect_groups rx H gs a = ok (r, a') \<Longrightarrow> same_io a a'"
proof (induction gs arbitrary: a r)
  case (Cons g gs)
  show ?case
  proof (cases "st_sensors (ap_tree a) g = None")
    case True
    then show ?thesis using Cons.prems same_io_refl by auto
  next
    case False
    then obtain r1 a1 r2 where 1: "(if st_filter (ap_tree a) g then detect_sensor rx H g a else ok (False, a)) = ok (r1, a1)"
      "detect_groups rx H gs a1 = ok (r2, a')"
      using Cons.prems(2) by (simp split: sum.splits prod.splits)
    then have "same_io a a1"
      using detect_sensor_same [OF Cons.prems(1)] same_io_refl by (auto split: if_splits)
    then show ?thesis using Cons.IH [OF Cons.prems(1) 1(2)] same_io_trans by blast
  qed
qed (simp add: same_io_refl)

lemma detect_inspect_same: "benign H \<Longrightarrow> detect_inspect rx H c a = ok a' \<Longrightarrow> same_io a a'"
  unfolding detect_inspect_def detect_def
  by (auto split: sum.splits) (meson benign_same(1) detect_groups_same same_io_trans)

lemma detect_starttls_same:
  assumes "benign H" and "detect_starttls rx H cfg cv a = ok a'"
  shows "same_io a a'"
proof -
  have s: "same_io b (b\<lparr>ap_upgrade_starttls := True\<rparr>)" for b :: "'a app" by (simp add: same_io_def)
  show ?thesis
    using assms same_io_refl s detect_sensor_same [OF assms(1)] same_io_trans
    by (auto simp: detect_starttls_def split: sum.splits if_splits) blast+
qed

lemma append_other: "s \<noteq> src \<Longrightarrow> side_bytes s (snd (flow_append src d f)) = side_bytes s f"
proof (cases "fl_queue f = []")
  case False
  then obtain q e where "fl_queue f = q @ [e]" by (metis rev_exhaust)
  then show "s \<noteq> src \<Longrightarrow> ?thesis"
    by (auto simp: flow_append_def side_bytes_def new_entry_def fe_append_def Let_def)
qed (simp add: flow_append_def side_bytes_def new_entry_def)

section \<open>Recording what is written\<close>

lemma delta_view_exact:
  assumes "ap_peek_write a = cx_write_bytes (ap_cx a) + of_nat k" and "k < length b" and "length b < 2 ^ 63"
    and "b = lb_bytes (cx_writebuf (ap_cx a))"
  shows "write_delta a = length b - k" "delta_view a = ok (drop k b)"
proof -
  have "(of_nat (length b) :: u64) - of_nat k = of_nat (length b - k)" using assms(2) by (simp add: of_nat_diff)
  then have "write_delta a = unat (of_nat (length b - k) :: u64)"
    using assms(1,4) by (simp add: write_delta_def algebra_simps)
  then show w: "write_delta a = length b - k" using assms(3) by (simp add: unat_of_nat take_bit_nat_eq_self)
  have "sz_sub (length b) (length b - k) = k" using assms(2,3) by (simp add: sz_simps)
  then show "delta_view a = ok (drop k b)"
    using w assms(2-4) by (cases "k = 0") (auto simp: delta_view_def list_view_def sz_simps)
qed

lemma write_records_rest:
  assumes "benign H" and "ap_mode a = M_PRE" and "inside_detect_ranges cfg a"
    and "b = lb_bytes (cx_writebuf (ap_cx a))" and "b \<noteq> []" and "length b < 2 ^ 63"
    and "ap_peek_write a = cx_write_bytes (ap_cx a) + of_nat k" and "k \<le> length b"
    and "app_pre_write rx H cfg cv a = ok a'"
  shows "ap_flow a' = (if k < length b then snd (flow_append CHR ''w'' (drop k b) (ap_flow a)) else ap_flow a) \<and>
    ap_peek_write a' = cx_write_bytes (ap_cx a') + of_nat (length b) \<and> ap_cx a' = ap_cx a \<and> ap_mode a' = M_PRE"
proof -
  let ?a = "if k < length b then note_written (drop k b) a else a"
  have d: "write_delta a = length b - k"
  proof (cases "k < length b")
    case False
    then show ?thesis using assms(4,7,8) by (simp add: write_delta_def)
  qed (rule delta_view_exact(1) [OF assms(7) _ assms(6,4)])
  have v: "delta_view a = ok (drop k b)" if "k < length b"
    by (rule delta_view_exact(2) [OF assms(7) that assms(6,4)])
  have m: "ap_mode (note_written (drop k b) a) = M_PRE" using assms(2) by (simp add: note_written_def record_bytes_def)
  obtain a1 where a1: "detect_starttls rx H cfg cv ?a = ok a1" "detect_inspect rx H CHR ''w'' a1 = ok a'"
    using assms(2-5,9) d v m
    by (cases "k < length b") (auto simp: app_pre_write_def inside_detect_on_continue_def split: sum.splits)
  have "same_io ?a a'"
    using detect_starttls_same [OF assms(1) a1(1)] detect_inspect_same [OF assms(1) a1(2)] same_io_trans by blast
  moreover have "k < length b \<Longrightarrow> (of_nat k + of_nat (length b - k) :: u64) = of_nat (length b)"
    by (simp flip: of_nat_add)
  ultimately show ?thesis
    using assms(2,7,8) by (auto simp: same_io_def note_written_def record_bytes_def add.assoc)
qed

text \<open>The write side of a context in detection mode: data are queued, offered to the com after
  \<^verbatim>\<open>pre_write\<close> has seen them, and reads happen in between. Of \<^verbatim>\<open>baseHostCX::write\<close> (\<open>cx_write\<close> of \<open>Hostcx\<close>) the step \<open>Write\<close> keeps what matters here,
  as a relation: the hook, then any number of the bytes offered taken from the front of the buffer and
  counted. \<^verbatim>\<open>post_write\<close> records nothing in this mode and is left out. \<open>s\<close> is everything queued so far, \<open>n\<close>
  the number of bytes the com has taken.\<close>

definition sends :: "nat \<Rightarrow> baseHostCX \<Rightarrow> baseHostCX \<Rightarrow> bool" where
  "sends l cx cx' \<longleftrightarrow>
     cx_write_bytes cx' = cx_write_bytes cx + of_nat l \<and>
     lb_bytes (cx_writebuf cx') = drop l (lb_bytes (cx_writebuf cx))"

inductive wr_step ::
    "regex_search \<Rightarrow> 's app_hooks \<Rightarrow> app_config \<Rightarrow> com_view \<Rightarrow> 's app \<times> byte list \<times> nat \<Rightarrow> 's app \<times> byte list \<times> nat \<Rightarrow> bool"
  for rx H cfg cv where
  Queue: "wr_step rx H cfg cv (a, s, n)
    (a\<lparr>ap_cx := (ap_cx a)\<lparr>cx_writebuf := lb_append rnd (cx_writebuf (ap_cx a)) d\<rparr>\<rparr>, s @ d, n)"
| Write: "inside_detect_ranges cfg a \<Longrightarrow> app_pre_write rx H cfg cv a = ok a' \<Longrightarrow>
    l \<le> lb_size (cx_writebuf (ap_cx a)) \<Longrightarrow> sends l (ap_cx a') cx \<Longrightarrow>
    wr_step rx H cfg cv (a, s, n) (a'\<lparr>ap_cx := cx\<rparr>, s, n + l)"
| Read: "app_pre_read rx H cfg cv pk rnd a = ok a' \<Longrightarrow> sends 0 (ap_cx a') cx \<Longrightarrow>
    wr_step rx H cfg cv (a, s, n) (a'\<lparr>ap_cx := cx\<rparr>, s, n)"

definition wr_inv :: "'s app \<times> byte list \<times> nat \<Rightarrow> bool" where
  "wr_inv z \<longleftrightarrow>
     (let (a, s, n) = z; seen = side_bytes CHR ''w'' (ap_flow a)
      in ap_mode a = M_PRE \<and> fl_domain (ap_flow a) = SOCK_STREAM \<and> n \<le> length seen \<and> prefix seen s \<and>
         cx_write_bytes (ap_cx a) = of_nat n \<and> ap_peek_write a = of_nat (length seen) \<and>
         lb_bytes (cx_writebuf (ap_cx a)) = drop n s)"

lemma pre_read_frame:
  assumes "benign H" and "app_pre_read rx H cfg cv pk rnd a = ok a'"
  shows "side_bytes CHR ''w'' (ap_flow a') = side_bytes CHR ''w'' (ap_flow a)"
    "fl_domain (ap_flow a') = fl_domain (ap_flow a)" "ap_mode a' = ap_mode a"
    "ap_peek_write a' = ap_peek_write a" "cx_write_bytes (ap_cx a') = cx_write_bytes (ap_cx a)"
    "cx_writebuf (ap_cx a') = cx_writebuf (ap_cx a)"
proof -
  define same where "same b c \<longleftrightarrow>
     side_bytes CHR ''w'' (ap_flow c) = side_bytes CHR ''w'' (ap_flow b) \<and>
     fl_domain (ap_flow c) = fl_domain (ap_flow b) \<and> ap_mode c = ap_mode b \<and> ap_peek_write c = ap_peek_write b \<and>
     cx_write_bytes (ap_cx c) = cx_write_bytes (ap_cx b) \<and> cx_writebuf (ap_cx c) = cx_writebuf (ap_cx b)" for b c :: "'a app"
  have io: "same b c" if "same_io b c" for b c using that by (simp add: same_def same_io_def)
  have tr: "same b d" if "same b c" "same c d" for b c d using that by (simp add: same_def)
  have sv: "same b c" if "salvage cfg b = ok (u, c)" for b c u
    using that by (auto simp: salvage_def same_def record_bytes_def append_other Let_def split: if_splits sum.splits)
  have pk: "same b (snd (peek_io pk rnd cfg cv b))" for b
    by (auto simp: peek_io_def same_def record_bytes_def append_other Let_def read_force_eagain_def
        set_read_limit_def read_unlimited_def split: prod.splits)
  have "same a a'"
  proof (cases "ap_mode a = M_PRE")
    case False
    then show ?thesis using assms(2) by (simp add: app_pre_read_def same_def)
  next
    case True
    then obtain u1 a1 where 1: "salvage cfg a = ok (u1, a1)" using assms(2) by (auto simp: app_pre_read_def split: sum.splits)
    obtain u2 a2 where 2: "peek_io pk rnd cfg cv a1 = (u2, a2)" by force
    have "same a2 a'"
    proof (cases "u1 \<or> u2")
      case False
      then show ?thesis using assms(2) True 1 2 by (simp add: app_pre_read_def same_def)
    next
      case u: True
      then obtain a3 where "detect_starttls rx H cfg cv a2 = ok a3" "detect_inspect rx H CHR ''r'' a3 = ok a'"
        using assms(2) True 1 2 by (auto simp: app_pre_read_def split: sum.splits)
      then have "same_io a2 a'"
        using detect_starttls_same [OF assms(1)] detect_inspect_same [OF assms(1)] same_io_trans by metis
      then show ?thesis by (rule io)
    qed
    then show ?thesis using sv [OF 1] pk [of a1] 2 tr by (metis snd_conv)
  qed
  then show "side_bytes CHR ''w'' (ap_flow a') = side_bytes CHR ''w'' (ap_flow a)"
    "fl_domain (ap_flow a') = fl_domain (ap_flow a)" "ap_mode a' = ap_mode a"
    "ap_peek_write a' = ap_peek_write a" "cx_write_bytes (ap_cx a') = cx_write_bytes (ap_cx a)"
    "cx_writebuf (ap_cx a') = cx_writebuf (ap_cx a)"
    by (simp_all add: same_def)
qed

lemma wr_inv_write:
  assumes "benign H" and "wr_inv (a, s, n)" and "length s \<le> max_flow_size" and "inside_detect_ranges cfg a"
    and "app_pre_write rx H cfg cv a = ok a'"
  shows "side_bytes CHR ''w'' (ap_flow a') = s" "ap_mode a' = M_PRE" "fl_domain (ap_flow a') = SOCK_STREAM"
    "ap_peek_write a' = of_nat (length s)" "ap_cx a' = ap_cx a"
proof -
  let ?seen = "side_bytes CHR ''w'' (ap_flow a)" and ?b = "lb_bytes (cx_writebuf (ap_cx a))"
  let ?k = "length ?seen - n"
  have i: "ap_mode a = M_PRE" "fl_domain (ap_flow a) = SOCK_STREAM" "n \<le> length ?seen" "prefix ?seen s"
    "cx_write_bytes (ap_cx a) = of_nat n" "ap_peek_write a = of_nat (length ?seen)" "?b = drop n s"
    using assms(2) by (simp_all add: wr_inv_def Let_def)
  have l: "length ?seen \<le> length s" by (rule prefix_length_le [OF i(4)])
  have s: "s = ?seen @ drop ?k ?b"
    using i(3,4,7) by (auto simp: prefix_def)
  have p: "ap_peek_write a = cx_write_bytes (ap_cx a) + of_nat ?k"
    using i(3,5,6) by (simp flip: of_nat_add)
  have small: "length s < 2 ^ 63" using assms(3) by (simp add: max_flow_size_def)
  have "ap_flow a' = (if ?k < length ?b then snd (flow_append CHR ''w'' (drop ?k ?b) (ap_flow a)) else ap_flow a) \<and>
      ap_peek_write a' = of_nat (length s) \<and> ap_cx a' = ap_cx a \<and> ap_mode a' = M_PRE"
  proof (cases "?b = []")
    case True
    then have "a' = a" using assms(5) by (simp add: app_pre_write_def)
    moreover have "length s = length ?seen" using True i(3,7) l by simp
    ultimately show ?thesis using True i(1,6) by simp
  next
    case False
    have "length ?b < 2 ^ 63" "?k \<le> length ?b" using small l i(3,7) by simp_all
    from write_records_rest [OF assms(1) i(1) assms(4) refl False this(1) p this(2) assms(5)]
    have w: "ap_flow a' = (if ?k < length ?b then snd (flow_append CHR ''w'' (drop ?k ?b) (ap_flow a)) else ap_flow a)"
      "ap_peek_write a' = cx_write_bytes (ap_cx a') + of_nat (length ?b)" "ap_cx a' = ap_cx a" "ap_mode a' = M_PRE"
      by simp_all
    have "(of_nat n + of_nat (length ?b) :: u64) = of_nat (length s)" using i(3,7) l by (simp flip: of_nat_add)
    then show ?thesis using w i(5) by simp
  qed
  moreover have "side_bytes CHR ''w'' (snd (flow_append CHR ''w'' (drop ?k ?b) (ap_flow a))) = ?seen @ drop ?k ?b"
    using append_exact [OF i(2), of "CHR ''w''" "drop ?k ?b"] s assms(3) by (metis length_append)
  ultimately show "side_bytes CHR ''w'' (ap_flow a') = s" "ap_mode a' = M_PRE" "fl_domain (ap_flow a') = SOCK_STREAM"
    "ap_peek_write a' = of_nat (length s)" "ap_cx a' = ap_cx a"
    using s i(2) by auto
qed

lemma wr_inv_step:
  assumes "wr_step rx H cfg cv z z'" and "benign H" and "wr_inv z" and "length (fst (snd z')) \<le> max_flow_size"
  shows "wr_inv z'"
  using assms(1,3,4)
proof cases
  case (Queue a s n rnd d)
  have "lb_bytes (lb_append rnd b d) = lb_bytes b @ d" for b by (simp add: lb_append_bytes)
  then show ?thesis
    using Queue assms(3) prefix_length_le
    by (fastforce simp: wr_inv_def Let_def intro: prefix_prefix)
next
  case (Write a a' l cx s n)
  then have i: "wr_inv (a, s, n)" "length s \<le> max_flow_size" using assms(3,4) by simp_all
  note w = wr_inv_write [OF assms(2) i Write(3,4)]
  have "n + l \<le> length s" using Write(5) i(1) by (auto simp: wr_inv_def Let_def dest: prefix_length_le)
  then show ?thesis using Write w i(1) by (auto simp: wr_inv_def sends_def Let_def add.commute)
next
  case (Read pk rnd a a' cx s n)
  then show ?thesis
    using assms(3) pre_read_frame [OF assms(2) Read(3)] by (auto simp: wr_inv_def sends_def Let_def)
qed

text \<open>C16: For a context in PRE mode with a stream flow: while the connection is in the detection window, every byte the com has taken was
  recorded in the flow before, once and in order, over any sequence of queueing, writing and
  reading; the rest of what was queued is still in the write buffer.\<close>

theorem written_bytes_were_inspected:
  assumes "benign H" and "ap_mode a = M_PRE" and "fl_domain (ap_flow a) = SOCK_STREAM" and "side_bytes CHR ''w'' (ap_flow a) = []"
    and "cx_write_bytes (ap_cx a) = 0" and "ap_peek_write a = 0" and "lb_bytes (cx_writebuf (ap_cx a)) = []"
    and "(wr_step rx H cfg cv)\<^sup>*\<^sup>* (a, [], 0) (a', s, n)" and "length s \<le> max_flow_size"
  shows "prefix (take n s) (side_bytes CHR ''w'' (ap_flow a')) \<and> prefix (side_bytes CHR ''w'' (ap_flow a')) s \<and>
    lb_bytes (cx_writebuf (ap_cx a')) = drop n s"
proof -
  have "length (fst (snd z')) \<le> max_flow_size \<longrightarrow> wr_inv z'" if "(wr_step rx H cfg cv)\<^sup>*\<^sup>* (a, [], 0) z'" for z'
    using that
  proof (induction rule: rtranclp_induct)
    case base
    then show ?case using assms by (simp add: wr_inv_def)
  next
    case (step z z')
    have "length (fst (snd z)) \<le> length (fst (snd z'))" using step.hyps(2) by cases auto
    then show ?case using wr_inv_step [OF step.hyps(2) assms(1)] step.IH by auto
  qed
  then have "wr_inv (a', s, n)" using assms(8,9) by fastforce
  then show ?thesis
    by (auto simp: wr_inv_def Let_def take_is_prefix elim!: prefixE)
qed

section \<open>Detection after writing\<close>

text \<open>C30: In the mode that detects after writing, the hook counts the bytes just sent twice, as
  sent and as still in the buffer, and throws when it creates the view of the missing bytes.\<close>

theorem post_write_throws:
  assumes "ap_mode a = M_POST" and "inside_detect_ranges cfg a" and "fl_queue (ap_flow a) \<noteq> []"
    and "lb_bytes (cx_writebuf (ap_cx a)) \<noteq> []" and "length (lb_bytes (cx_writebuf (ap_cx a))) < 2 ^ 62"
    and "cx_write_bytes (ap_cx a) = ap_peek_write a + of_nat l" and "0 < l" and "l < 2 ^ 62"
  shows "app_post_write rx H cfg a = raise Out_of_range"
proof -
  let ?b = "lb_bytes (cx_writebuf (ap_cx a))"
  have "write_delta a = unat (of_nat (l + length ?b) :: u64)"
    using assms(6) by (simp add: write_delta_def algebra_simps)
  then have d: "write_delta a = l + length ?b"
    using assms(5,8) by (simp add: unat_of_nat take_bit_nat_eq_self del: of_nat_add)
  have "length ?b \<le> sz_sub (length ?b) (l + length ?b)"
    using assms(5,7,8) by (simp add: sz_sub_wraps)
  then have "delta_view a = raise Out_of_range" by (simp add: delta_view_def d list_view_def Let_def)
  then show ?thesis using assms(1-4) by (simp add: app_post_write_def)
qed

section \<open>Reading\<close>

lemma peek_all_length:
  assumes "peek_all pk rnd i n b l = (l', b')" and "0 < l'" and "0 < l \<Longrightarrow> l = int (length (lb_bytes b))"
  shows "l' = int (length (lb_bytes b'))"
  using assms
proof (induction pk rnd i n b l rule: peek_all.induct)
  case (2 pk rnd i n b l)
  show ?case
  proof (cases "pk i (lb_cap b)")
    case (Io_data d)
    show ?thesis
    proof (cases "d = [] \<or> length d < lb_cap b")
      case True
      then show ?thesis using 2(2,3) Io_data by (auto simp: Let_def split: if_splits)
    next
      case False
      have "lb_bytes (fst (lb_capacity rnd (b\<lparr>lb_bytes := d\<rparr>) c)) = d" for c by (simp add: lb_capacity_def)
      then show ?thesis
        using 2(1) [OF Io_data _ refl] 2(2,3) False Io_data by (auto simp: Let_def)
    qed
  qed (use 2 in auto)
qed auto

text \<open>Before a read, what the com has is peeked and recorded, and the read is limited to the
  bytes recorded; when the peek fails, the read is put off.\<close>

theorem read_waits_for_inspection:
  assumes "benign H" and "ap_mode a = M_PRE" and "\<not> (inside_detect_ranges cfg a \<and> ap_peek_read a < cx_read_bytes (ap_cx a))"
    and "cx_read_bytes (ap_cx a) < ucast (max_detect_bytes cfg)" and "cv_l4_proto cv \<noteq> SOCK_DGRAM"
    and "peek_all pk rnd 0 10 \<lparr>lb_bytes = [], lb_cap = rnd 5000\<rparr> (- 1) = (l, b)"
    and "app_pre_read rx H cfg cv pk rnd a = ok a'"
  shows "if 0 < l then ap_flow a' = snd (flow_append CHR ''r'' (lb_bytes b) (ap_flow a)) \<and>
           ap_peek_read a' = ap_peek_read a + of_nat (length (lb_bytes b)) \<and>
           read_room (ap_cx a') \<le> length (lb_bytes b)
         else ap_flow a' = ap_flow a \<and> (l < 0 \<longrightarrow> read_eagain (ap_cx a'))"
proof -
  have sv: "salvage cfg a = ok (False, a)" using assms(3) by (auto simp: salvage_def)
  let ?p = "peek_io pk rnd cfg cv a"
  have len: "0 < l \<Longrightarrow> l = int (length (lb_bytes b))" by (rule peek_all_length [OF assms(6)]) simp_all
  have same: "same_io (snd ?p) a'"
  proof (cases "fst ?p")
    case False
    then show ?thesis
      using assms(2,7) sv by (auto simp: app_pre_read_def same_io_refl split: prod.splits)
  next
    case True
    then obtain a3 where "detect_starttls rx H cfg cv (snd ?p) = ok a3" "detect_inspect rx H CHR ''r'' a3 = ok a'"
      using assms(2,7) sv by (auto simp: app_pre_read_def split: prod.splits sum.splits)
    then show ?thesis
      using detect_starttls_same [OF assms(1)] detect_inspect_same [OF assms(1)] same_io_trans by metis
  qed
  have io: "?p = (if l < 0 then (False, a\<lparr>ap_cx := read_force_eagain (ap_cx a)\<rparr>)
      else if 0 < l then (True, (record_bytes CHR ''r'' (lb_bytes b) a)
        \<lparr>ap_peek_read := ap_peek_read a + of_int l, ap_cx := set_read_limit (ap_cx a) (nat l)\<rparr>)
      else (False, a))"
    using assms(4-6) by (auto simp: peek_io_def record_bytes_def Let_def)
  have room: "read_room (set_read_limit cx n) \<le> n" if "0 < n" for cx n
    using that by (auto simp: read_room_def set_read_limit_def Let_def)
  show ?thesis
  proof (cases "0 < l")
    case True
    then show ?thesis
      using same len io room [of "length (lb_bytes b)"] by (auto simp: same_io_def record_bytes_def)
  next
    case False
    then show ?thesis
      using same io by (auto simp: same_io_def read_eagain_def read_force_eagain_def)
  qed
qed

text \<open>A peek whose bytes are not read before the next one is recorded again.\<close>

lemma peeked_again_is_recorded_again:
  assumes "fl_domain f = SOCK_STREAM" and "length (side_bytes CHR ''r'' f) + 2 * length d \<le> max_flow_size"
  shows "side_bytes CHR ''r'' (snd (flow_append CHR ''r'' d (snd (flow_append CHR ''r'' d f)))) =
    side_bytes CHR ''r'' f @ d @ d"
  using assms append_exact [of f "CHR ''r''" d "CHR ''r''"]
    append_exact [of "snd (flow_append CHR ''r'' d f)" "CHR ''r''" d "CHR ''r''"] by simp

text \<open>Bytes that were read without a peek and have left the read buffer since: \<^verbatim>\<open>view\<close> throws before the
  code that reports an empty view is reached.\<close>

lemma salvage_throws:
  assumes "inside_detect_ranges cfg a" and "ap_peek_read a < cx_read_bytes (ap_cx a)"
    and "length (lb_bytes (cx_readbuf (ap_cx a))) < unat (cx_read_bytes (ap_cx a) - ap_peek_read a)"
    and "unat (cx_read_bytes (ap_cx a) - ap_peek_read a) < 2 ^ 63"
  shows "salvage cfg a = raise Out_of_range"
proof -
  let ?n = "length (lb_bytes (cx_readbuf (ap_cx a)))" and ?d = "unat (cx_read_bytes (ap_cx a) - ap_peek_read a)"
  have "?n \<le> sz_sub ?n ?d" using assms(3,4) by (simp add: sz_sub_wraps)
  then show ?thesis using assms(1,2) by (simp add: salvage_def list_view_def Let_def)
qed

section \<open>Signatures fire once\<close>

definition settle :: "regex_search \<Rightarrow> flow \<Rightarrow> match_state \<times> flow_match option \<Rightarrow> match_state \<times> flow_match option" where
  "settle rx f x =
     (case x of
        (ms, Some fm) \<Rightarrow>
          if ms_hit ms then x
          else (case ms_update rx f fm ms of Inr (r, ms') \<Rightarrow> (ms'\<lparr>ms_hit := r\<rparr>, Some fm) | Inl _ \<Rightarrow> x)
      | (ms, None) \<Rightarrow> x)"

definition fired :: "regex_search \<Rightarrow> flow \<Rightarrow> match_state \<times> flow_match option \<Rightarrow> flow_match list" where
  "fired rx f x =
     (case x of
        (ms, Some fm) \<Rightarrow> if \<not> ms_hit ms \<and> ms_hit (fst (settle rx f x)) then [fm] else []
      | (ms, None) \<Rightarrow> [])"

definition counting :: "flow_match list app_hooks \<Rightarrow> bool" where
  "counting H \<longleftrightarrow> (\<forall>fm v a. ah_on_detect H fm v a = a\<lparr>ap_user := ap_user a @ [fm]\<rparr>)"

lemma ms_update_hit: "ms_update rx f fm ms = ok (r, ms') \<Longrightarrow> ms_hit ms' = ms_hit ms"
  by (auto simp: ms_update_def split: sum.splits)

lemma detect_one_settles:
  assumes "counting H" and "st_sensors (ap_tree a) g = Some s" and "k < length s" and "detect_one rx H g k a = ok (r, a')"
  shows "st_sensors (ap_tree a') g = Some (s[k := settle rx (ap_flow a) (s ! k)])" "ap_flow a' = ap_flow a"
    "ap_user a' = ap_user a @ fired rx (ap_flow a) (s ! k)" "r \<longleftrightarrow> fired rx (ap_flow a) (s ! k) \<noteq> []"
proof -
  have "st_sensors (ap_tree a') g = Some (s[k := settle rx (ap_flow a) (s ! k)]) \<and> ap_flow a' = ap_flow a \<and>
    ap_user a' = ap_user a @ fired rx (ap_flow a) (s ! k) \<and> (r \<longleftrightarrow> fired rx (ap_flow a) (s ! k) \<noteq> [])"
  proof (cases "ms_hit (fst (s ! k))")
    case True
    then have "a' = a" "\<not> r" using assms(2-4) by (auto simp: detect_one_def)
    moreover have "settle rx (ap_flow a) (s ! k) = s ! k" "fired rx (ap_flow a) (s ! k) = []"
      using True by (auto simp: settle_def fired_def split: prod.splits option.splits)
    ultimately show ?thesis using assms(2,3) by simp
  next
    case False
    obtain fm where "snd (s ! k) = Some fm"
      using assms(2-4) False by (auto simp: detect_one_def split: option.splits if_splits)
    then obtain ms where k: "s ! k = (ms, Some fm)" by (cases "s ! k") simp
    obtain q ms' where u: "ms_update rx (ap_flow a) fm ms = ok (q, ms')"
      using assms(2-4) False k by (auto simp: detect_one_def split: sum.splits)
    have h: "ms_hit ms' = False" using ms_update_hit [OF u] False k by simp
    have st: "settle rx (ap_flow a) (s ! k) = (ms'\<lparr>ms_hit := q\<rparr>, Some fm)"
      "fired rx (ap_flow a) (s ! k) = (if q then [fm] else [])"
      using False k u by (simp_all add: settle_def fired_def)
    have a': "r = q" "a' = (if q then (put_state g k (ms'\<lparr>ms_hit := True\<rparr>) a)\<lparr>ap_user := ap_user a @ [fm]\<rparr>
        else put_state g k ms' a)"
      using assms False k u by (auto simp: detect_one_def counting_def put_state_def split: if_splits)
    have "ms'\<lparr>ms_hit := False\<rparr> = ms'" using h by (cases ms') simp
    then show ?thesis using a' st k assms(2,3) by (auto simp: put_state_def)
  qed
  then show "st_sensors (ap_tree a') g = Some (s[k := settle rx (ap_flow a) (s ! k)])" "ap_flow a' = ap_flow a"
    "ap_user a' = ap_user a @ fired rx (ap_flow a) (s ! k)" "r \<longleftrightarrow> fired rx (ap_flow a) (s ! k) \<noteq> []"
    by auto
qed

lemma detect_loop_settles:
  assumes "counting H" and "st_sensors (ap_tree a) g = Some s" and "detect_loop rx H g [i..<length s] a = ok (r, a')"
    and "i \<le> length s"
  shows "st_sensors (ap_tree a') g = Some (take i s @ map (settle rx (ap_flow a)) (drop i s)) \<and>
    ap_user a' = ap_user a @ concat (map (fired rx (ap_flow a)) (drop i s)) \<and>
    (r \<longleftrightarrow> concat (map (fired rx (ap_flow a)) (drop i s)) \<noteq> [])"
  using assms
proof (induction "length s - i" arbitrary: i s a r)
  case 0
  then show ?case by simp
next
  case (Suc n)
  then have i: "i < length s" by simp
  obtain r1 a1 r2 where 1: "detect_one rx H g i a = ok (r1, a1)" "detect_loop rx H g [Suc i..<length s] a1 = ok (r2, a')"
    "r = (r1 \<or> r2)"
    using Suc.prems(3) i by (simp add: upt_conv_Cons split: sum.splits prod.splits)
  note o = detect_one_settles [OF Suc.prems(1,2) i 1(1)]
  let ?s = "s[i := settle rx (ap_flow a) (s ! i)]"
  have d: "drop (Suc i) ?s = drop (Suc i) s" by simp
  have t: "take (Suc i) ?s = take i s @ [settle rx (ap_flow a) (s ! i)]" using i by (simp add: take_Suc_conv_app_nth)
  have m: "drop i s = s ! i # drop (Suc i) s" using i by (simp add: Cons_nth_drop_Suc)
  have "st_sensors (ap_tree a') g = Some (take (Suc i) ?s @ map (settle rx (ap_flow a1)) (drop (Suc i) ?s)) \<and>
      ap_user a' = ap_user a1 @ concat (map (fired rx (ap_flow a1)) (drop (Suc i) ?s)) \<and>
      (r2 \<longleftrightarrow> concat (map (fired rx (ap_flow a1)) (drop (Suc i) ?s)) \<noteq> [])"
    using Suc.hyps(1) [of ?s "Suc i" a1 r2] Suc.hyps(2) Suc.prems(1) o(1) 1(2) i by simp
  then show ?case unfolding d t m o(2) using o(3,4) 1(3) by auto
qed

text \<open>Running a group over the flow updates every signature that has not been found yet,
  reports each newly found one once, in order, and never again.\<close>

theorem each_signature_fires_once:
  assumes "counting H" and "st_sensors (ap_tree a) g = Some s" and "detect_sensor rx H g a = ok (r, a')"
  shows "st_sensors (ap_tree a') g = Some (map (settle rx (ap_flow a)) s) \<and>
    ap_user a' = ap_user a @ concat (map (fired rx (ap_flow a)) s) \<and>
    (r \<longleftrightarrow> concat (map (fired rx (ap_flow a)) s) \<noteq> []) \<and>
    (\<forall>f. concat (map (fired rx f) (filter (\<lambda>x. ms_hit (fst x)) (map (settle rx (ap_flow a)) s))) = [])"
proof -
  have f: "fired rx f x = []" if "ms_hit (fst x)" for f x using that by (auto simp: fired_def split: prod.splits option.splits)
  show ?thesis
    using detect_loop_settles [OF assms(1,2), of rx 0 r a'] assms(2,3) f
    by (auto simp: detect_sensor_def)
qed

section \<open>Witnesses\<close>

definition quiet_hooks :: "flow_match list app_hooks" where
  "quiet_hooks = \<lparr>ah_inspect = \<lambda>c a. a, ah_on_detect = \<lambda>fm v a. a\<lparr>ap_user := ap_user a @ [fm]\<rparr>,
     ah_on_starttls = \<lambda>a. a\<rparr>"

lemma quiet_benign: "benign quiet_hooks" "counting quiet_hooks"
  by (simp_all add: benign_def counting_def quiet_hooks_def)

definition demo_tcp :: com_view where "demo_tcp = \<lparr>cv_l4_proto = 1, cv_plain_tcp = False\<rparr>"

definition demo_tree :: sig_tree where
  "demo_tree = empty_tree\<lparr>st_sensors := [0 \<mapsto> [], 1 \<mapsto> [(new_state, Some demo_sig)]], st_last := 1\<rparr>"

definition demo_app :: "flow_match list app" where
  "demo_app = \<lparr>ap_cx = (blank_cx [] [] 7)\<lparr>cx_writebuf := \<lparr>lb_bytes = [], lb_cap = 2048\<rparr>\<rparr>, ap_flow = new_flow, ap_peek_read = 0, ap_peek_write = 0,
     ap_upgrade_starttls = False, ap_tree = demo_tree, ap_mode = M_PRE, ap_continuous_left = 0, ap_user = []\<rparr>"

lemma demo_idle:
  "ap_tree a = demo_tree \<Longrightarrow> detect_inspect rx quiet_hooks c a = ok a"
  by (simp add: detect_inspect_def detect_def max_groups_def upt_conv_Cons demo_tree_def empty_tree_def quiet_hooks_def)

definition queued_app :: "flow_match list app" where
  "queued_app = demo_app\<lparr>ap_cx := (ap_cx demo_app)\<lparr>cx_writebuf := lb_append (\<lambda>c. c) (cx_writebuf (ap_cx demo_app)) [1, 2, 3]\<rparr>\<rparr>"

lemma queued_pre_write:
  "app_pre_write no_regex quiet_hooks default_config demo_tcp queued_app = ok (note_written [1, 2, 3] queued_app)"
proof -
  have "ap_tree (note_written [1, 2, 3] queued_app) = demo_tree"
    by (simp add: note_written_def record_bytes_def queued_app_def demo_app_def)
  note i = demo_idle [OF this]
  have d: "write_delta queued_app = 3" "delta_view queued_app = ok [1, 2, 3]"
    by (simp_all add: write_delta_def delta_view_def queued_app_def demo_app_def lb_append_def lb_capacity_def
        blank_cx_def list_view_def sz_sub_def sz_add_def)
  show ?thesis
    using i d
    by (simp add: app_pre_write_def inside_detect_on_continue_def inside_detect_ranges_def detect_starttls_def
        demo_tcp_def default_config_def note_written_def record_bytes_def queued_app_def demo_app_def lb_append_def
        lb_capacity_def blank_cx_def new_flow_def)
qed

definition sent_app :: "flow_match list app" where
  "sent_app = (note_written [1, 2, 3] queued_app)\<lparr>ap_cx := (ap_cx queued_app)\<lparr>cx_write_bytes := 2,
     cx_writebuf := \<lparr>lb_bytes = [3], lb_cap = 2048\<rparr>\<rparr>\<rparr>"

lemma sent_steps: "(wr_step no_regex quiet_hooks default_config demo_tcp)\<^sup>*\<^sup>* (demo_app, [], 0) (sent_app, [1, 2, 3], 2)"
proof -
  have 1: "wr_step no_regex quiet_hooks default_config demo_tcp (demo_app, [], 0) (queued_app, [] @ [1, 2, 3], 0)"
    unfolding queued_app_def by (rule wr_step.Queue)
  have 2: "wr_step no_regex quiet_hooks default_config demo_tcp (queued_app, [1, 2, 3], 0) (sent_app, [1, 2, 3], 2)"
    unfolding sent_app_def
    by (rule wr_step.Write [OF _ queued_pre_write, where l = 2 and n = 0, simplified add_0])
      (simp_all add: inside_detect_ranges_def queued_app_def demo_app_def blank_cx_def default_config_def
        new_flow_def sends_def note_written_def record_bytes_def lb_append_def lb_capacity_def)
  from 1 have "(wr_step no_regex quiet_hooks default_config demo_tcp)\<^sup>*\<^sup>* (demo_app, [], 0) (queued_app, [1, 2, 3], 0)"
    by simp
  then show ?thesis using 2 by (rule rtranclp.rtrancl_into_rtrancl)
qed

theorem written_bytes_were_inspected_witness:
  "prefix [1, 2] (side_bytes CHR ''w'' (ap_flow sent_app)) \<and> lb_bytes (cx_writebuf (ap_cx sent_app)) = [3]"
  using written_bytes_were_inspected [OF quiet_benign(1) _ _ _ _ _ _ sent_steps]
  by (simp add: demo_app_def new_flow_def side_bytes_def blank_cx_def max_flow_size_def)

definition post_app :: "flow_match list app" where
  "post_app = demo_app\<lparr>ap_mode := M_POST, ap_flow := half_flow,
     ap_cx := (blank_cx [] [] 7)\<lparr>cx_writebuf := \<lparr>lb_bytes = [8, 9], lb_cap = 2048\<rparr>, cx_write_bytes := 1\<rparr>\<rparr>"

theorem post_write_throws_witness:
  "app_post_write no_regex quiet_hooks default_config post_app = raise Out_of_range"
  by (rule post_write_throws [where l = 1])
    (simp_all add: post_app_def demo_app_def inside_detect_ranges_def blank_cx_def default_config_def half_flow_def)

definition demo_peek :: "nat \<Rightarrow> nat \<Rightarrow> io_result" where
  "demo_peek i c = Io_data [7, 7, 7]"

lemma demo_peeked: "peek_all demo_peek (\<lambda>c. c) 0 10 \<lparr>lb_bytes = [], lb_cap = 5000\<rparr> (- 1) = (3, \<lparr>lb_bytes = [7, 7, 7], lb_cap = 5000\<rparr>)"
  by (simp add: demo_peek_def numeral_eq_Suc)

theorem read_waits_for_inspection_witness:
  "\<exists>a'. app_pre_read no_regex quiet_hooks default_config demo_tcp demo_peek (\<lambda>c. c) demo_app = ok a' \<and>
     read_room (ap_cx a') \<le> 3"
proof -
  have s: "salvage default_config demo_app = ok (False, demo_app)" by (simp add: salvage_def demo_app_def blank_cx_def)
  obtain a1 where p: "peek_io demo_peek (\<lambda>c. c) default_config demo_tcp demo_app = (True, a1)" "ap_tree a1 = demo_tree"
    using demo_peeked
    by (simp add: peek_io_def demo_app_def blank_cx_def default_config_def record_bytes_def demo_tcp_def SOCK_DGRAM_def)
  have "app_pre_read no_regex quiet_hooks default_config demo_tcp demo_peek (\<lambda>c. c) demo_app = ok a1"
    using s p demo_idle [OF p(2)]
    by (simp add: app_pre_read_def demo_app_def detect_starttls_def demo_tcp_def)
  moreover from read_waits_for_inspection [OF quiet_benign(1) _ _ _ _ demo_peeked this]
  have "read_room (ap_cx a1) \<le> 3"
    by (simp add: demo_app_def blank_cx_def default_config_def demo_tcp_def SOCK_DGRAM_def)
  ultimately show ?thesis by blast
qed

theorem each_signature_fires_once_witness:
  "\<exists>r a'. detect_sensor no_regex quiet_hooks 1 (demo_app\<lparr>ap_flow := feed demo_chunks new_flow\<rparr>) = ok (r, a') \<and>
     ap_user a' = [demo_sig]"
proof -
  let ?f = "feed demo_chunks new_flow" and ?a = "demo_app\<lparr>ap_flow := feed demo_chunks new_flow\<rparr>"
  have "\<exists>ret pos. fm_match no_regex demo_sig ?f [] 0 = ok (fm_chain demo_sig \<noteq> [] \<and> found no_regex (fm_chain demo_sig) (fl_queue ?f), ret, pos)"
    by (rule fm_match_found) (rule demo_small)
  then obtain ret pos where m: "fm_match no_regex demo_sig ?f [] 0 = ok (True, ret, pos)"
    using demo_found by (auto simp: demo_sig_def)
  have s: "st_sensors (ap_tree ?a) 1 = Some [(new_state, Some demo_sig)]" by (simp add: demo_app_def demo_tree_def)
  have u: "ms_update no_regex ?f demo_sig new_state = ok (True, new_state\<lparr>ms_ranges := ret, ms_pos := pos\<rparr>)"
    using m by (simp add: ms_update_def new_state_def)
  obtain r a' where d: "detect_sensor no_regex quiet_hooks 1 ?a = ok (r, a')"
    using s u by (simp add: detect_sensor_def detect_one_def new_state_def)
  have "fired no_regex ?f (new_state, Some demo_sig) = [demo_sig]"
    using u by (simp add: fired_def settle_def new_state_def)
  then have "ap_user a' = [demo_sig]"
    using each_signature_fires_once [OF quiet_benign(2) s d] by (simp add: demo_app_def)
  then show ?thesis using d by blast
qed

end
