(* ===== verification/Spec2Isabelle.thy ===== *)
theory Spec2Isabelle
  imports Buffer Convert Sobject Tcpcom Certval Ltv Pcaplog Proxytree Sslmitm Acceptor Dispatch Apphostcx
begin

text \<open>
  Verification of socle, a C++ library for transparent network proxies.

  \<^bold>\<open>The program.\<close> A proxy (\<^verbatim>\<open>baseproxy.cpp\<close>) holds host contexts (\<^verbatim>\<open>hostcx.cpp\<close>) on a left and
  a right side; each context buffers what it reads and writes (\<^verbatim>\<open>common/buffer.cpp\<close>, memory from
  \<^verbatim>\<open>common/mempool\<close>) and talks through a com: TCP (\<^verbatim>\<open>tcpcom.cpp\<close>), UDP (\<^verbatim>\<open>udpcom.cpp\<close>) or TLS over either
  (\<^verbatim>\<open>sslcom.tpp\<close>, with the man in the middle of \<^verbatim>\<open>sslmitmcom.tpp\<close> that shows clients certificates
  made by \<^verbatim>\<open>sslcertstore.cpp\<close>, and the revocation checks of \<^verbatim>\<open>sslcertval.cpp\<close>). Coms are watched by the poller (\<^verbatim>\<open>common/epoll.cpp\<close>), and the
  dispatcher \<^verbatim>\<open>baseProxy::run_poll\<close> hands its events to the proxies they belong to. Proxies form
  trees (\<^verbatim>\<open>masterproxy.cpp\<close>). A context that inspects its traffic (\<^verbatim>\<open>apphostcx.cpp\<close>) records flows
  and matches them against signatures (\<^verbatim>\<open>common/signature.hpp\<close>). Acceptor threads hand sockets to
  workers through the descriptor queue (\<^verbatim>\<open>fdq.cpp\<close>); for datagrams the receiver
  (\<^verbatim>\<open>threadedreceiver.cpp\<close>) files packets under virtual sockets first. Sessions, certificates and
  revocation lists are kept in bounded caches (\<^verbatim>\<open>common/ptr_cache.hpp\<close>), traffic is recorded in
  capture files (\<^verbatim>\<open>traflog/pcapapi.cpp\<close>, \<^verbatim>\<open>traflog/pcaplog.cpp\<close>), and LTV messages (\<^verbatim>\<open>common/ltventry.cpp\<close>) carry
  control data. Objects are counted and listed by a registry (\<^verbatim>\<open>sobject.cpp\<close>).

  \<^bold>\<open>Theories.\<close>

  \<^item> \<open>Prelude\<close>: machine types, exceptions as values, byte encodings with the locale \<open>codec\<close>.
  \<^item> \<open>Heap\<close>, \<open>Mempool\<close>, \<open>Buffer\<close>: the process heap as explicit state, the pool of
    \<^verbatim>\<open>mempool.cpp\<close> over it, and \<^verbatim>\<open>buffer\<close> over both. Chunks handed out never overlap and are large
    enough, buckets stay balanced, buffer operations refine list operations and leave all other live
    memory alone.
  \<^item> \<open>PtrCache\<close>: \<^verbatim>\<open>ptr_cache\<close> in both eviction modes; over every history of
    insertions and lookups a lookup returns the newest value of its key or nothing, and a FIFO cache
    keeps exactly the newest keys.
  \<^item> \<open>Sobject\<close>: the registry of live objects with its counters, listing and meters. It holds exactly the
    objects that are alive, each with an identifier of its own, and its meters count what was
    made and deleted; a meter loses nothing.
  \<^item> \<open>Convert\<close>: casts between integer types and numbers that may be missing, with the arithmetic
    conversions of the language written out. Narrowed numbers, sums, and differences of unsigned numbers are exact
    or missing.
  \<^item> \<open>Ltv\<close>: packing and unpacking of message trees; the round trip, and that unpacking ends (quadratic
    fuel in the length of the input is enough, which is proved).
  \<^item> \<open>Sockinfo\<close>, \<open>Pcap\<close>: addresses and session keys; frames, checksums and blocks of capture files,
    with a reader that finds every frame again.
  \<^item> \<open>Pcaplog\<close>: writing captures through a queue and a pool of streams, rotation and the names of files.
    The queue refines appending to files, and the capture of a connection ends up complete; what a
    removal or a rotation does to queued packets is shown as well.
  \<^item> \<open>Epoll\<close>: the interest lists, rescans and handler table of the poller over a kernel given by laws
    (locale \<open>ctl_laws\<close>); a monitored socket is never lost, a wait that does not fill its array of events
    reports exactly the kernel's.
    \<open>wait_loop\<close> runs over the list of the kernel's answers.
  \<^item> \<open>Hostcx\<close>, \<open>Baseproxy\<close>: the state machine of a context and the rounds of a proxy. Streams are
    intact over every round, flow control stops and resumes the ordinary and bound contexts of the other side, shutdown releases every
    socket, permanent connections come back.
  \<^item> \<open>Proxytree\<close>, \<open>Dispatch\<close>: a master with its sub-proxies, the relay between them and the removal of
    dead ones; the rounds of the dispatcher over the poller of \<open>Epoll\<close>. The handler of every ready
    socket is run in a round that ends, under a contract that the objects it calls keep towards each
    other (\<open>considerate\<close>); sockets without a handler are dropped. When a master's round returns is
    characterised, with the threads its clean-up may overtake as an argument.
  \<^item> \<open>Signature\<close>, \<open>Apphostcx\<close>: flows, chains of expressions and the tree of signatures; the context
    that records what it reads and writes. A match is found exactly if there is one, and no byte leaves
    the detection window without being recorded.
  \<^item> \<open>Fdq\<close>: the descriptor queue, a FIFO (locale \<open>fifo\<close>) that wakes the least loaded workers. The
    queue itself is under a lock, the table of workers and the hints are not.
  \<^item> \<open>Tcpcom\<close>: TCP and Unix coms over the descriptors, options and names the kernel holds. A connection
    attempt leaves one new descriptor open, which the com holds, or none.
  \<^item> \<open>Udpcom\<close>, \<open>Receiver\<close>: the table of datagram flows, the cache of connected sockets, the receive
    loop and the worker step. \<^verbatim>\<open>recv\<close> on an empty queue fails or waits as the socket and the flags say.
    The first datagrams of a flow reach the context a worker makes for it; over interleavings of the
    stretches under the locks and of the erasures outside of them (\<open>udp_step\<close>), a flow with unread
    data is polled unless such an erasure hit it.
  \<^item> \<open>Acceptor\<close>: workers of TCP acceptors over the queue of \<open>Fdq\<close>. Over every interleaving each accepted
    socket is in exactly one place.
  \<^item> \<open>Sslhello\<close>, \<open>Sslcom\<close>, \<open>Sslio\<close>: the ClientHello parser (a partial function: for one class of
    messages it does not return, which is proved as well), certificate verification and revocation,
    handshake, sessions, reading and writing. \<open>read_loop\<close> runs over the list of answers of
    \<^verbatim>\<open>SSL_read\<close>; a read returns what they delivered, all of it and nothing else.
  \<^item> \<open>Certval\<close>: revocation lists, OCSP responses, and the OCSP query in its blocking form and as a
    state machine. A query that meets no obstacle delivers the verdict of the response in one run; one
    without a usable responder never ends, and a revocation list never makes a certificate revoked.
    \<open>send_loop\<close> and \<open>drive\<close> run over the list of what the network answers in each round.
  \<^item> \<open>Sslmitm\<close>: the check of host names, the certificates made for clients and their caches. The
    check is what the names say, and a client sees a self-signed certificate exactly if the server
    failed the check and failed checks are not replaced by the certificate authority's signature
    (\<open>self_signed_due\<close>).

  \<^bold>\<open>Conventions.\<close> Calls the library makes to the operating system or to OpenSSL are arguments, with what
  is used of them as named hypotheses; every property with a hypothesis has a witness on concrete
  values. A member function is one step where its lock covers it; where it does not (\<^verbatim>\<open>UDPCom::read\<close>,
  \<^verbatim>\<open>UDPCom::shutdown\<close>, the clean-up of a master, acceptors) interleavings are taken between its parts. Undefined behaviour of C++ is the exception
  \<open>Undefined_behaviour\<close>. Sizes are natural numbers with the wrap-around of \<^verbatim>\<open>size_t\<close> written out where
  callers control the operands; counters and fields of fixed width are words.

  \<^bold>\<open>Not modelled.\<close> Text formatting and logging, directories, the locks around shared
  state, and the members that only call OpenSSL (contexts, key files, printing of
  certificates) decide nothing these theories depend on. Third-party routines under \<^verbatim>\<open>common/\<close>
  (base64, CRC, random numbers), shared memory segments and pointer wrappers that nothing uses are
  left out. Threads are interleavings of such steps; data races on single objects are not modelled,
  and neither are reference counts of OpenSSL objects.
\<close>

end
